(* ===== verification/Coil_Prelude.thy ===== *)
theory Coil_Prelude
  imports Main "HOL-Library.Word"
begin

text \<open>
  Shared vocabulary of the development: the machine integer types of the Rust sources as
  words, fallible computations (\<open>Result\<close>, with a third outcome for a Rust panic), slice
  access, the step-by-step search of \<open>partition_point\<close>, and the collections of rewrite
  rules the component theories use. \<open>usize\<close> values are natural numbers; where the code
  checks a \<open>usize\<close> operation for overflow, the bound \<open>usize_max\<close> of the 64-bit targets is
  written out.
\<close>

unbundle bit_operations_syntax

type_synonym u8 = "8 word"
type_synonym u16 = "16 word"
type_synonym u32 = "32 word"
type_synonym u64 = "64 word"
type_synonym i32 = "32 word"
type_synonym i64 = "64 word"
type_synonym usize = nat

abbreviation usize_bound :: nat where
  "usize_bound \<equiv> 2 ^ 64"

named_theorems pack_simps \<open>fields of packed words, read back bit by bit\<close>
named_theorems result_simps \<open>evaluation of fallible computations\<close>

section \<open>Fallible computations\<close>

datatype ('e, 'a) result = Ok 'a | Err 'e | Panicked

primrec rbind :: "('e, 'a) result \<Rightarrow> ('a \<Rightarrow> ('e, 'b) result) \<Rightarrow> ('e, 'b) result" where
  "rbind (Ok x) f = f x"
| "rbind (Err e) f = Err e"
| "rbind Panicked f = Panicked"

primrec rmap :: "('a \<Rightarrow> 'b) \<Rightarrow> ('e, 'a) result \<Rightarrow> ('e, 'b) result" where
  "rmap f (Ok x) = Ok (f x)"
| "rmap f (Err e) = Err e"
| "rmap f Panicked = Panicked"

primrec is_ok :: "('e, 'a) result \<Rightarrow> bool" where
  "is_ok (Ok x) = True"
| "is_ok (Err e) = False"
| "is_ok Panicked = False"

definition ok_or :: "'a option \<Rightarrow> 'e \<Rightarrow> ('e, 'a) result" where
  "ok_or m e = (case m of Some x \<Rightarrow> Ok x | None \<Rightarrow> Err e)"

definition require :: "bool \<Rightarrow> 'e \<Rightarrow> ('e, unit) result" where
  "require b e = (if b then Ok () else Err e)"

lemma rbind_Ok_iff [result_simps]:
  "rbind m f = Ok y \<longleftrightarrow> (\<exists>x. m = Ok x \<and> f x = Ok y)"
  by (cases m) auto

lemma rbind_Panicked_iff:
  "rbind m f = Panicked \<longleftrightarrow> m = Panicked \<or> (\<exists>x. m = Ok x \<and> f x = Panicked)"
  by (cases m) auto

lemma rmap_Ok_iff [result_simps]: "rmap f m = Ok y \<longleftrightarrow> (\<exists>x. m = Ok x \<and> y = f x)"
  by (cases m) auto

lemma rmap_Panicked_iff [simp]: "rmap f m = Panicked \<longleftrightarrow> m = Panicked"
  by (cases m) auto

lemma ok_or_Ok_iff [result_simps]: "ok_or m e = Ok x \<longleftrightarrow> m = Some x"
  by (simp add: ok_or_def split: option.splits)

lemma ok_or_not_Panicked [simp]: "ok_or m e \<noteq> Panicked"
  by (simp add: ok_or_def split: option.splits)

lemma ok_or_Some [simp]: "ok_or (Some x) e = Ok x"
  by (simp add: ok_or_def)

lemma ok_or_None [simp]: "ok_or None e = Err e"
  by (simp add: ok_or_def)

lemma require_Ok_iff [result_simps]: "require b e = Ok u \<longleftrightarrow> b"
  by (simp add: require_def)

lemma require_not_Panicked [simp]: "require b e \<noteq> Panicked"
  by (simp add: require_def)

lemma require_True [simp]: "require True e = Ok ()"
  by (simp add: require_def)

lemma is_ok_iff: "is_ok m \<longleftrightarrow> (\<exists>x. m = Ok x)"
  by (cases m) auto

section \<open>Slices\<close>

text \<open>\<open>slice.get(i)\<close>: the element, or \<open>None\<close> out of range.\<close>

definition get :: "'a list \<Rightarrow> nat \<Rightarrow> 'a option" where
  "get xs i = (if i < length xs then Some (xs ! i) else None)"

lemma get_Some_iff [simp]: "get xs i = Some x \<longleftrightarrow> i < length xs \<and> xs ! i = x"
  by (simp add: get_def)

lemma get_None_iff [simp]: "get xs i = None \<longleftrightarrow> length xs \<le> i"
  by (simp add: get_def not_less)

lemma get_map: "get (map f xs) i = map_option f (get xs i)"
  by (simp add: get_def)

text \<open>\<open>slice.get(a..b)\<close>: the sub-slice, or \<open>None\<close> when the range is reversed or too long.\<close>

definition get_range :: "'a list \<Rightarrow> nat \<Rightarrow> nat \<Rightarrow> 'a list option" where
  "get_range xs a b = (if a \<le> b \<and> b \<le> length xs then Some (take (b - a) (drop a xs)) else None)"

text \<open>
  \<open>slice.partition_point(p)\<close> on a slice partitioned by \<open>p\<close>: how many elements of the
  longest prefix satisfy \<open>p\<close>. Every caller in the modelled code passes a slice sorted so that
  the elements satisfying \<open>p\<close> come first, where this is what the binary search returns.
\<close>

definition partition_point :: "('a \<Rightarrow> bool) \<Rightarrow> 'a list \<Rightarrow> nat" where
  "partition_point p xs = length (takeWhile p xs)"

lemma partition_point_le: "partition_point p xs \<le> length xs"
  by (simp add: partition_point_def length_takeWhile_le)

lemma partition_point_nth: "i < partition_point p xs \<Longrightarrow> p (xs ! i)"
  unfolding partition_point_def by (metis nth_mem set_takeWhileD takeWhile_nth)

lemma partition_point_stop:
  "partition_point p xs < length xs \<Longrightarrow> \<not> p (xs ! partition_point p xs)"
  unfolding partition_point_def by (rule nth_length_takeWhile)

section \<open>Words\<close>

lemma and_mask_lit [pack_simps]:
  fixes w :: "'a::len word"
  shows "w AND 0x1 = take_bit 1 w" "w AND 0x3 = take_bit 2 w" "w AND 0xF = take_bit 4 w"
    "w AND 0x3F = take_bit 6 w" "w AND 0x7F = take_bit 7 w" "w AND 0xFF = take_bit 8 w"
    "w AND 0xFFFF = take_bit 16 w" "w AND 0xFFFFFF = take_bit 24 w"
  by (simp_all add: take_bit_eq_mask mask_eq_exp_minus_1 and.commute numeral_eq_Suc)

lemma bit_word_beyond [pack_simps]:
  fixes w :: "'a::len word"
  shows "LENGTH('a) \<le> n \<Longrightarrow> bit w n = False"
  using bit_imp_le_length by fastforce

lemma word_eq_iff_bits: "(v = w) \<longleftrightarrow> (\<forall>n < LENGTH('a). bit v n = bit w n)"
  for v w :: "'a::len word"
  by (auto intro: bit_word_eqI)

lemma unat_ucast_up:
  fixes w :: "'a::len word"
  assumes "LENGTH('a) \<le> LENGTH('b)"
  shows "unat (ucast w :: 'b::len word) = unat w"
proof -
  have "unat w < 2 ^ LENGTH('b)"
    using unsigned_less[of w, where 'a = nat] assms
    by (meson order_less_le_trans one_le_numeral power_increasing)
  then show ?thesis
    by (simp add: unsigned_ucast_eq take_bit_nat_eq_self)
qed

lemma unat_ucast_lits [pack_simps]:
  fixes a :: u8 and b :: u16 and c :: u32
  shows "unat (ucast a :: u16) = unat a" "unat (ucast a :: u32) = unat a"
    "unat (ucast a :: u64) = unat a" "unat (ucast b :: u32) = unat b"
    "unat (ucast b :: u64) = unat b" "unat (ucast c :: u64) = unat c"
  by (simp_all add: unat_ucast_up)

lemma unat_u8_less [simp]: "unat (a :: u8) < 256"
  using unsigned_less[of a, where 'a = nat] by simp

lemma unat_u16_less [simp]: "unat (a :: u16) < 65536"
  using unsigned_less[of a, where 'a = nat] by simp

lemma unat_u32_less [simp]: "unat (a :: u32) < 4294967296"
  using unsigned_less[of a, where 'a = nat] by simp

lemma unat_u64_less [simp]: "unat (a :: u64) < 18446744073709551616"
  using unsigned_less[of a, where 'a = nat] by simp

lemma unat_eq_ucast [pack_simps]:
  fixes a :: u8 and b :: u16 and c d :: u32 and e :: u64
  shows "unat c = unat a \<longleftrightarrow> c = ucast a" "unat c = unat b \<longleftrightarrow> c = ucast b"
    "unat e = unat a \<longleftrightarrow> e = ucast a" "unat e = unat b \<longleftrightarrow> e = ucast b"
    "unat e = unat d \<longleftrightarrow> e = ucast d" "unat c = unat d \<longleftrightarrow> c = d"
  by (metis unat_ucast_lits word_unat_eq_iff)+

lemma bit_exp_lit [pack_simps]:
  fixes n :: nat
  shows "bit (0x80000000 :: 'a::semiring_bit_operations) n \<longleftrightarrow> possible_bit TYPE('a) n \<and> n = 31"
    "bit (0x10000 :: 'a) n \<longleftrightarrow> possible_bit TYPE('a) n \<and> n = 16"
    "bit (4 :: 'a) n \<longleftrightarrow> possible_bit TYPE('a) n \<and> n = 2"
proof -
  have e: "(0x80000000 :: 'a) = 2 ^ 31" "(0x10000 :: 'a) = 2 ^ 16" "(4 :: 'a) = 2 ^ 2"
    by simp_all
  show "bit (0x80000000 :: 'a) n \<longleftrightarrow> possible_bit TYPE('a) n \<and> n = 31"
    "bit (0x10000 :: 'a) n \<longleftrightarrow> possible_bit TYPE('a) n \<and> n = 16"
    "bit (4 :: 'a) n \<longleftrightarrow> possible_bit TYPE('a) n \<and> n = 2"
    unfolding e bit_exp_iff by auto
qed

lemma all_less_neq_iff: "(\<forall>n<k. P n \<longrightarrow> n \<noteq> m) \<longleftrightarrow> (m < k \<longrightarrow> \<not> P m)"
  for k m :: nat
  by auto

lemma and_exp_lit [pack_simps]:
  fixes w :: u32
  shows "w AND 0x80000000 = 0 \<longleftrightarrow> \<not> bit w 31" "w AND 0x10000 = 0 \<longleftrightarrow> \<not> bit w 16"
    "w AND 4 = 0 \<longleftrightarrow> \<not> bit w 2" "w AND 2 = 0 \<longleftrightarrow> \<not> bit w 1"
  by (simp_all add: word_eq_iff_bits bit_simps pack_simps all_less_neq_iff)

lemma two_not_le_one [simp]: "\<not> (2 :: u32) \<le> 1"
  by (simp add: word_le_nat_alt)

lemma bit_u8D [dest]: "bit (w :: u8) n \<Longrightarrow> n < 8"
  using bit_imp_le_length by fastforce

lemma bit_u16D [dest]: "bit (w :: u16) n \<Longrightarrow> n < 16"
  using bit_imp_le_length by fastforce

lemma bit_u32D [dest]: "bit (w :: u32) n \<Longrightarrow> n < 32"
  using bit_imp_le_length by fastforce

text \<open>Reading a field of a packed word back: compare the words bit by bit.\<close>

lemmas field_simps_word = Let_def prod_eq_iff word_eq_iff_bits bit_simps pack_simps

end
