(* ===== verification/Bytecode.thy ===== *)
theory Bytecode
  imports Coil_Prelude
begin

text \<open>
  The VM instruction set and its encoded words, after \<^verbatim>\<open>common/src/opcode.rs\<close>.

  \<^verbatim>\<open>Instruction\<close> is a \<^verbatim>\<open>#[repr(u8)]\<close> enum that the VM and the loader turn to and from its
  discriminant byte without a check, so the model keeps that representation: an instruction
  is its discriminant, the variants are named constants in declaration order, and a byte past
  \<open>instruction_last\<close> is the value that would be undefined behaviour. A \<^verbatim>\<open>Byte\<close> (one word
  of code) is a record of an instruction and a 32-bit operand; the \<open>with_\<close> functions pack
  an operand, the \<open>parts\<close> functions read it back. \<^verbatim>\<open>usize\<close> results are natural numbers.
  The bounds that \<^verbatim>\<open>debug_assert!\<close> states are hypotheses of the round-trip theorems: release
  builds do not test them.
\<close>

unbundle bit_operations_syntax

section \<open>Instructions\<close>

type_synonym instruction = u8

abbreviation (input) I_HALT :: instruction where "I_HALT \<equiv> 0"
abbreviation (input) I_NOOP :: instruction where "I_NOOP \<equiv> 1"
abbreviation (input) I_DUPLICATE :: instruction where "I_DUPLICATE \<equiv> 2"
abbreviation (input) I_POP :: instruction where "I_POP \<equiv> 3"
abbreviation (input) I_CONST :: instruction where "I_CONST \<equiv> 4"
abbreviation (input) I_STORE :: instruction where "I_STORE \<equiv> 5"
abbreviation (input) I_LOAD :: instruction where "I_LOAD \<equiv> 6"
abbreviation (input) I_CALL :: instruction where "I_CALL \<equiv> 7"
abbreviation (input) I_RETURN :: instruction where "I_RETURN \<equiv> 8"
abbreviation (input) I_JMP :: instruction where "I_JMP \<equiv> 9"
abbreviation (input) I_JMPT :: instruction where "I_JMPT \<equiv> 10"
abbreviation (input) I_JMPF :: instruction where "I_JMPF \<equiv> 11"
abbreviation (input) I_STRING :: instruction where "I_STRING \<equiv> 12"
abbreviation (input) I_DATA :: instruction where "I_DATA \<equiv> 13"
abbreviation (input) I_INC :: instruction where "I_INC \<equiv> 14"
abbreviation (input) I_DEC :: instruction where "I_DEC \<equiv> 15"
abbreviation (input) I_ADD :: instruction where "I_ADD \<equiv> 16"
abbreviation (input) I_SUB :: instruction where "I_SUB \<equiv> 17"
abbreviation (input) I_MUL :: instruction where "I_MUL \<equiv> 18"
abbreviation (input) I_DIV :: instruction where "I_DIV \<equiv> 19"
abbreviation (input) I_MOD :: instruction where "I_MOD \<equiv> 20"
abbreviation (input) I_ADDF :: instruction where "I_ADDF \<equiv> 21"
abbreviation (input) I_SUBF :: instruction where "I_SUBF \<equiv> 22"
abbreviation (input) I_MULF :: instruction where "I_MULF \<equiv> 23"
abbreviation (input) I_DIVF :: instruction where "I_DIVF \<equiv> 24"
abbreviation (input) I_MODF :: instruction where "I_MODF \<equiv> 25"
abbreviation (input) I_NOT :: instruction where "I_NOT \<equiv> 26"
abbreviation (input) I_NEG :: instruction where "I_NEG \<equiv> 27"
abbreviation (input) I_AND :: instruction where "I_AND \<equiv> 28"
abbreviation (input) I_OR :: instruction where "I_OR \<equiv> 29"
abbreviation (input) I_SHL :: instruction where "I_SHL \<equiv> 30"
abbreviation (input) I_SHR :: instruction where "I_SHR \<equiv> 31"
abbreviation (input) I_XOR :: instruction where "I_XOR \<equiv> 32"
abbreviation (input) I_EQ :: instruction where "I_EQ \<equiv> 33"
abbreviation (input) I_NEQ :: instruction where "I_NEQ \<equiv> 34"
abbreviation (input) I_LE :: instruction where "I_LE \<equiv> 35"
abbreviation (input) I_LEQ :: instruction where "I_LEQ \<equiv> 36"
abbreviation (input) I_LEF :: instruction where "I_LEF \<equiv> 37"
abbreviation (input) I_LEQF :: instruction where "I_LEQF \<equiv> 38"
abbreviation (input) I_GT :: instruction where "I_GT \<equiv> 39"
abbreviation (input) I_GEQ :: instruction where "I_GEQ \<equiv> 40"
abbreviation (input) I_GTF :: instruction where "I_GTF \<equiv> 41"
abbreviation (input) I_GEQF :: instruction where "I_GEQF \<equiv> 42"
abbreviation (input) I_PRINT :: instruction where "I_PRINT \<equiv> 43"
abbreviation (input) I_FORMAT :: instruction where "I_FORMAT \<equiv> 44"
abbreviation (input) I_STRINGIFY :: instruction where "I_STRINGIFY \<equiv> 45"
abbreviation (input) I_NATIVE :: instruction where "I_NATIVE \<equiv> 46"
abbreviation (input) I_INIT :: instruction where "I_INIT \<equiv> 47"
abbreviation (input) I_SET :: instruction where "I_SET \<equiv> 48"
abbreviation (input) I_MakeEnum :: instruction where "I_MakeEnum \<equiv> 49"
abbreviation (input) I_JumpIfMatch :: instruction where "I_JumpIfMatch \<equiv> 50"
abbreviation (input) I_Unpack :: instruction where "I_Unpack \<equiv> 51"
abbreviation (input) I_LoadField :: instruction where "I_LoadField \<equiv> 52"
abbreviation (input) I_StorePop :: instruction where "I_StorePop \<equiv> 53"
abbreviation (input) I_UnpackAt :: instruction where "I_UnpackAt \<equiv> 54"
abbreviation (input) I_FfiLoad :: instruction where "I_FfiLoad \<equiv> 55"
abbreviation (input) I_FfiInvoke :: instruction where "I_FfiInvoke \<equiv> 56"
abbreviation (input) I_DeclareFFI :: instruction where "I_DeclareFFI \<equiv> 57"
abbreviation (input) I_MakeTuple :: instruction where "I_MakeTuple \<equiv> 58"
abbreviation (input) I_MakeArray :: instruction where "I_MakeArray \<equiv> 59"
abbreviation (input) I_Index :: instruction where "I_Index \<equiv> 60"
abbreviation (input) I_MakeDict :: instruction where "I_MakeDict \<equiv> 61"
abbreviation (input) I_GetField :: instruction where "I_GetField \<equiv> 62"
abbreviation (input) I_SetField :: instruction where "I_SetField \<equiv> 63"
abbreviation (input) I_HostInvoke :: instruction where "I_HostInvoke \<equiv> 64"
abbreviation (input) I_LoadReturnSlot :: instruction where "I_LoadReturnSlot \<equiv> 65"
abbreviation (input) I_ConstReturnImm :: instruction where "I_ConstReturnImm \<equiv> 66"
abbreviation (input) I_BinSlotImm :: instruction where "I_BinSlotImm \<equiv> 67"
abbreviation (input) I_CmpJmpf :: instruction where "I_CmpJmpf \<equiv> 68"
abbreviation (input) I_BinReturn :: instruction where "I_BinReturn \<equiv> 69"
abbreviation (input) I_BinSlotSlot :: instruction where "I_BinSlotSlot \<equiv> 70"
abbreviation (input) I_BinSlotImmJmpf :: instruction where "I_BinSlotImmJmpf \<equiv> 71"
abbreviation (input) I_LogNotJmpf :: instruction where "I_LogNotJmpf \<equiv> 72"
abbreviation (input) I_MakeCoro :: instruction where "I_MakeCoro \<equiv> 73"
abbreviation (input) I_ResumeCoro :: instruction where "I_ResumeCoro \<equiv> 74"
abbreviation (input) I_YieldCoro :: instruction where "I_YieldCoro \<equiv> 75"
abbreviation (input) I_YieldFromCoro :: instruction where "I_YieldFromCoro \<equiv> 76"
abbreviation (input) I_Pow :: instruction where "I_Pow \<equiv> 77"
abbreviation (input) I_PowF :: instruction where "I_PowF \<equiv> 78"
abbreviation (input) I_BITAND :: instruction where "I_BITAND \<equiv> 79"
abbreviation (input) I_BITOR :: instruction where "I_BITOR \<equiv> 80"
abbreviation (input) I_StoreIndex :: instruction where "I_StoreIndex \<equiv> 81"
abbreviation (input) I_LogNot :: instruction where "I_LogNot \<equiv> 82"
abbreviation (input) I_DoneCoro :: instruction where "I_DoneCoro \<equiv> 83"
abbreviation (input) I_ArrayPush :: instruction where "I_ArrayPush \<equiv> 84"
abbreviation (input) I_ArrayLen :: instruction where "I_ArrayLen \<equiv> 85"
abbreviation (input) I_CallIndirect :: instruction where "I_CallIndirect \<equiv> 86"
abbreviation (input) I_BoxValue :: instruction where "I_BoxValue \<equiv> 87"
abbreviation (input) I_UnboxValue :: instruction where "I_UnboxValue \<equiv> 88"
abbreviation (input) I_MakePolyFn :: instruction where "I_MakePolyFn \<equiv> 89"
abbreviation (input) I_DynAdd :: instruction where "I_DynAdd \<equiv> 90"
abbreviation (input) I_DynSub :: instruction where "I_DynSub \<equiv> 91"
abbreviation (input) I_DynMul :: instruction where "I_DynMul \<equiv> 92"
abbreviation (input) I_DynDiv :: instruction where "I_DynDiv \<equiv> 93"
abbreviation (input) I_DynMod :: instruction where "I_DynMod \<equiv> 94"
abbreviation (input) I_DynCmp :: instruction where "I_DynCmp \<equiv> 95"
abbreviation (input) I_DynEq :: instruction where "I_DynEq \<equiv> 96"
abbreviation (input) I_DynNe :: instruction where "I_DynNe \<equiv> 97"
abbreviation (input) I_DynPrint :: instruction where "I_DynPrint \<equiv> 98"
abbreviation (input) I_CodePtr :: instruction where "I_CodePtr \<equiv> 99"
abbreviation (input) I_MakePolyFnCapture :: instruction where "I_MakePolyFnCapture \<equiv> 100"
abbreviation (input) I_Panic :: instruction where "I_Panic \<equiv> 101"
abbreviation (input) I_DictEntries :: instruction where "I_DictEntries \<equiv> 102"
abbreviation (input) I_MakeFn :: instruction where "I_MakeFn \<equiv> 103"
abbreviation (input) I_LoadStatic :: instruction where "I_LoadStatic \<equiv> 104"
abbreviation (input) I_StoreStatic :: instruction where "I_StoreStatic \<equiv> 105"
abbreviation (input) I_TailCall :: instruction where "I_TailCall \<equiv> 106"
abbreviation (input) I_CastIntToFloat :: instruction where "I_CastIntToFloat \<equiv> 107"
abbreviation (input) I_CastFloatToInt :: instruction where "I_CastFloatToInt \<equiv> 108"
abbreviation (input) I_CastIntToByte :: instruction where "I_CastIntToByte \<equiv> 109"
abbreviation (input) I_CastByteToInt :: instruction where "I_CastByteToInt \<equiv> 110"
abbreviation (input) I_CastIntToBool :: instruction where "I_CastIntToBool \<equiv> 111"
abbreviation (input) I_CastBoolToInt :: instruction where "I_CastBoolToInt \<equiv> 112"
abbreviation (input) I_BinSlotSlotJmpf :: instruction where "I_BinSlotSlotJmpf \<equiv> 113"
abbreviation (input) I_BinSlotImmStore :: instruction where "I_BinSlotImmStore \<equiv> 114"
abbreviation (input) I_BinSlotSlotStore :: instruction where "I_BinSlotSlotStore \<equiv> 115"
abbreviation (input) I_Seek :: instruction where "I_Seek \<equiv> 116"
abbreviation (input) I_OptionNicheToHeap :: instruction where "I_OptionNicheToHeap \<equiv> 117"
abbreviation (input) I_HeapOptionToNiche :: instruction where "I_HeapOptionToNiche \<equiv> 118"
abbreviation (input) I_PairJumpIfTag :: instruction where "I_PairJumpIfTag \<equiv> 119"
abbreviation (input) I_PairToHeap :: instruction where "I_PairToHeap \<equiv> 120"
abbreviation (input) I_HeapToPair :: instruction where "I_HeapToPair \<equiv> 121"
abbreviation (input) I_ReturnPair :: instruction where "I_ReturnPair \<equiv> 122"
abbreviation (input) I_HostInvokeNiche :: instruction where "I_HostInvokeNiche \<equiv> 123"
abbreviation (input) I_FloatChainStore :: instruction where "I_FloatChainStore \<equiv> 124"
abbreviation (input) I_BinSlotSlotConstJmpf :: instruction where "I_BinSlotSlotConstJmpf \<equiv> 125"
abbreviation (input) I_NEGF :: instruction where "I_NEGF \<equiv> 126"
abbreviation (input) I_InitTyped :: instruction where "I_InitTyped \<equiv> 127"
abbreviation (input) I_CmpJmpt :: instruction where "I_CmpJmpt \<equiv> 128"
abbreviation (input) I_BinSlotImmJmpt :: instruction where "I_BinSlotImmJmpt \<equiv> 129"
abbreviation (input) I_LogNotJmpt :: instruction where "I_LogNotJmpt \<equiv> 130"
abbreviation (input) I_BinSlotSlotJmpt :: instruction where "I_BinSlotSlotJmpt \<equiv> 131"
abbreviation (input) I_BinSlotSlotConstJmpt :: instruction where "I_BinSlotSlotConstJmpt \<equiv> 132"
abbreviation (input) I_IndexUnchecked :: instruction where "I_IndexUnchecked \<equiv> 133"
abbreviation (input) I_StoreIndexUnchecked :: instruction where "I_StoreIndexUnchecked \<equiv> 134"
abbreviation (input) I_ArrayPin :: instruction where "I_ArrayPin \<equiv> 135"
abbreviation (input) I_IndexPin :: instruction where "I_IndexPin \<equiv> 136"
abbreviation (input) I_IndexPinUnchecked :: instruction where "I_IndexPinUnchecked \<equiv> 137"
abbreviation (input) I_StoreIndexPin :: instruction where "I_StoreIndexPin \<equiv> 138"
abbreviation (input) I_StoreIndexPinUnchecked :: instruction where "I_StoreIndexPinUnchecked \<equiv> 139"
abbreviation (input) I_DenseBin :: instruction where "I_DenseBin \<equiv> 140"
abbreviation (input) I_DenseCmp :: instruction where "I_DenseCmp \<equiv> 141"
abbreviation (input) I_DenseConst :: instruction where "I_DenseConst \<equiv> 142"
abbreviation (input) I_DenseMove :: instruction where "I_DenseMove \<equiv> 143"
abbreviation (input) I_DenseUnary :: instruction where "I_DenseUnary \<equiv> 144"
abbreviation (input) I_DenseCast :: instruction where "I_DenseCast \<equiv> 145"
abbreviation (input) I_VLoad :: instruction where "I_VLoad \<equiv> 146"
abbreviation (input) I_VStore :: instruction where "I_VStore \<equiv> 147"
abbreviation (input) I_VBin :: instruction where "I_VBin \<equiv> 148"
abbreviation (input) I_VMove :: instruction where "I_VMove \<equiv> 149"
abbreviation (input) I_VReduce :: instruction where "I_VReduce \<equiv> 150"
abbreviation (input) I_VFma :: instruction where "I_VFma \<equiv> 151"
abbreviation (input) I_DenseIndex :: instruction where "I_DenseIndex \<equiv> 152"
abbreviation (input) I_DenseStoreIndex :: instruction where "I_DenseStoreIndex \<equiv> 153"
abbreviation (input) I_DenseArrayLen :: instruction where "I_DenseArrayLen \<equiv> 154"
abbreviation (input) I_DenseMake :: instruction where "I_DenseMake \<equiv> 155"
abbreviation (input) I_DensePush :: instruction where "I_DensePush \<equiv> 156"
abbreviation (input) I_DenseArrayPush :: instruction where "I_DenseArrayPush \<equiv> 157"
abbreviation (input) I_DenseFieldLoad :: instruction where "I_DenseFieldLoad \<equiv> 158"
abbreviation (input) I_DenseFieldStore :: instruction where "I_DenseFieldStore \<equiv> 159"
abbreviation (input) I_DenseMakeObject :: instruction where "I_DenseMakeObject \<equiv> 160"
abbreviation (input) I_DenseBin2 :: instruction where "I_DenseBin2 \<equiv> 161"
abbreviation (input) I_DenseBinJmpf :: instruction where "I_DenseBinJmpf \<equiv> 162"
abbreviation (input) I_DenseIndexJmpf :: instruction where "I_DenseIndexJmpf \<equiv> 163"
abbreviation (input) I_MakeEnumReturn :: instruction where "I_MakeEnumReturn \<equiv> 164"
abbreviation (input) I_TagEnumType :: instruction where "I_TagEnumType \<equiv> 165"
abbreviation (input) I_MakeEnumK :: instruction where "I_MakeEnumK \<equiv> 166"
abbreviation (input) I_MakeEnumReturnK :: instruction where "I_MakeEnumReturnK \<equiv> 167"
abbreviation (input) I_MakeTupleK :: instruction where "I_MakeTupleK \<equiv> 168"
abbreviation (input) I_DenseMakeK :: instruction where "I_DenseMakeK \<equiv> 169"
abbreviation (input) I_TagArrayKind :: instruction where "I_TagArrayKind \<equiv> 170"
abbreviation (input) I_MakeArrayK :: instruction where "I_MakeArrayK \<equiv> 171"
abbreviation (input) I_EQF :: instruction where "I_EQF \<equiv> 172"
abbreviation (input) I_NEQF :: instruction where "I_NEQF \<equiv> 173"
abbreviation (input) I_RestoreSnapshot :: instruction where "I_RestoreSnapshot \<equiv> 174"
abbreviation (input) I_VMask :: instruction where "I_VMask \<equiv> 175"
abbreviation (input) I_VScan :: instruction where "I_VScan \<equiv> 176"
abbreviation (input) I_VLoop :: instruction where "I_VLoop \<equiv> 177"
abbreviation (input) I_FreeEarly :: instruction where "I_FreeEarly \<equiv> 178"
abbreviation (input) I_Cow :: instruction where "I_Cow \<equiv> 179"
abbreviation (input) I_IEQ :: instruction where "I_IEQ \<equiv> 180"
abbreviation (input) I_INEQ :: instruction where "I_INEQ \<equiv> 181"
abbreviation (input) I_DenseHostCall :: instruction where "I_DenseHostCall \<equiv> 182"

text \<open>The variants in declaration order: the position of a name is its discriminant.\<close>

definition instruction_names :: "string list" where
  "instruction_names =
     [''HALT'', ''NOOP'', ''DUPLICATE'', ''POP'', ''CONST'', ''STORE'', ''LOAD'', ''CALL'',
      ''RETURN'', ''JMP'', ''JMPT'', ''JMPF'', ''STRING'', ''DATA'', ''INC'', ''DEC'', ''ADD'',
      ''SUB'', ''MUL'', ''DIV'', ''MOD'', ''ADDF'', ''SUBF'', ''MULF'', ''DIVF'', ''MODF'',
      ''NOT'', ''NEG'', ''AND'', ''OR'', ''SHL'', ''SHR'', ''XOR'', ''EQ'', ''NEQ'', ''LE'',
      ''LEQ'', ''LEF'', ''LEQF'', ''GT'', ''GEQ'', ''GTF'', ''GEQF'', ''PRINT'', ''FORMAT'',
      ''STRINGIFY'', ''NATIVE'', ''INIT'', ''SET'', ''MakeEnum'', ''JumpIfMatch'', ''Unpack'',
      ''LoadField'', ''StorePop'', ''UnpackAt'', ''FfiLoad'', ''FfiInvoke'', ''DeclareFFI'',
      ''MakeTuple'', ''MakeArray'', ''Index'', ''MakeDict'', ''GetField'', ''SetField'',
      ''HostInvoke'', ''LoadReturnSlot'', ''ConstReturnImm'', ''BinSlotImm'', ''CmpJmpf'',
      ''BinReturn'', ''BinSlotSlot'', ''BinSlotImmJmpf'', ''LogNotJmpf'', ''MakeCoro'',
      ''ResumeCoro'', ''YieldCoro'', ''YieldFromCoro'', ''Pow'', ''PowF'', ''BITAND'',
      ''BITOR'', ''StoreIndex'', ''LogNot'', ''DoneCoro'', ''ArrayPush'', ''ArrayLen'',
      ''CallIndirect'', ''BoxValue'', ''UnboxValue'', ''MakePolyFn'', ''DynAdd'', ''DynSub'',
      ''DynMul'', ''DynDiv'', ''DynMod'', ''DynCmp'', ''DynEq'', ''DynNe'', ''DynPrint'',
      ''CodePtr'', ''MakePolyFnCapture'', ''Panic'', ''DictEntries'', ''MakeFn'',
      ''LoadStatic'', ''StoreStatic'', ''TailCall'', ''CastIntToFloat'', ''CastFloatToInt'',
      ''CastIntToByte'', ''CastByteToInt'', ''CastIntToBool'', ''CastBoolToInt'',
      ''BinSlotSlotJmpf'', ''BinSlotImmStore'', ''BinSlotSlotStore'', ''Seek'',
      ''OptionNicheToHeap'', ''HeapOptionToNiche'', ''PairJumpIfTag'', ''PairToHeap'',
      ''HeapToPair'', ''ReturnPair'', ''HostInvokeNiche'', ''FloatChainStore'',
      ''BinSlotSlotConstJmpf'', ''NEGF'', ''InitTyped'', ''CmpJmpt'', ''BinSlotImmJmpt'',
      ''LogNotJmpt'', ''BinSlotSlotJmpt'', ''BinSlotSlotConstJmpt'', ''IndexUnchecked'',
      ''StoreIndexUnchecked'', ''ArrayPin'', ''IndexPin'', ''IndexPinUnchecked'',
      ''StoreIndexPin'', ''StoreIndexPinUnchecked'', ''DenseBin'', ''DenseCmp'',
      ''DenseConst'', ''DenseMove'', ''DenseUnary'', ''DenseCast'', ''VLoad'', ''VStore'',
      ''VBin'', ''VMove'', ''VReduce'', ''VFma'', ''DenseIndex'', ''DenseStoreIndex'',
      ''DenseArrayLen'', ''DenseMake'', ''DensePush'', ''DenseArrayPush'', ''DenseFieldLoad'',
      ''DenseFieldStore'', ''DenseMakeObject'', ''DenseBin2'', ''DenseBinJmpf'',
      ''DenseIndexJmpf'', ''MakeEnumReturn'', ''TagEnumType'', ''MakeEnumK'',
      ''MakeEnumReturnK'', ''MakeTupleK'', ''DenseMakeK'', ''TagArrayKind'', ''MakeArrayK'',
      ''EQF'', ''NEQF'', ''RestoreSnapshot'', ''VMask'', ''VScan'', ''VLoop'', ''FreeEarly'',
      ''Cow'', ''IEQ'', ''INEQ'', ''DenseHostCall'']"

definition instruction_last :: instruction where
  "instruction_last = I_DenseHostCall"

text \<open>\<open>Instruction::mnemonic\<close>: \<open>None\<close> only for a byte that is no variant.\<close>

definition mnemonic :: "instruction \<Rightarrow> string option" where
  "mnemonic op = get instruction_names (unat op)"

section \<open>Code words\<close>

record byte =
  bytecode :: instruction
  operands :: u32

abbreviation (input) POOL_FLAG :: u32 where "POOL_FLAG \<equiv> push_bit 31 1"
abbreviation (input) CALL_RET2_BIT :: u32 where "CALL_RET2_BIT \<equiv> push_bit 31 1"

definition byte_new :: "instruction \<Rightarrow> byte" where
  "byte_new op = \<lparr>bytecode = op, operands = 0\<rparr>"

definition with_operand_u32 :: "byte \<Rightarrow> u32 \<Rightarrow> byte" where
  "with_operand_u32 b operand = b\<lparr>operands := operand\<rparr>"

definition operand_u32 :: "byte \<Rightarrow> u32" where
  "operand_u32 b = operands b"

subsection \<open>Calls\<close>

definition with_call_packed :: "byte \<Rightarrow> u32 \<Rightarrow> u32 \<Rightarrow> byte" where
  "with_call_packed b arity target =
     b\<lparr>operands := push_bit 24 arity OR (target AND 0xFFFFFF)\<rparr>"

definition with_call_packed_ret :: "byte \<Rightarrow> u32 \<Rightarrow> u32 \<Rightarrow> u32 \<Rightarrow> byte" where
  "with_call_packed_ret b arity target ret_words =
     (let bit = (if 2 \<le> ret_words then CALL_RET2_BIT else 0)
      in b\<lparr>operands := bit OR push_bit 24 (arity AND 0x7F) OR (target AND 0xFFFFFF)\<rparr>)"

definition call_parts :: "byte \<Rightarrow> nat \<times> nat" where
  "call_parts b =
     (unat (drop_bit 24 (operands b) AND 0x7F), unat (operands b AND 0xFFFFFF))"

definition call_ret_words :: "byte \<Rightarrow> nat" where
  "call_ret_words b = (if operands b AND CALL_RET2_BIT \<noteq> 0 then 2 else 1)"

definition return_words :: "byte \<Rightarrow> nat" where
  "return_words b = (if 2 \<le> operands b then 2 else 1)"

definition with_value_u32 :: "byte \<Rightarrow> u32 \<Rightarrow> byte" where
  "with_value_u32 b v =
     (if bytecode b = I_CALL then with_call_packed b (operands b) v
      else b\<lparr>operands := (operands b AND 0xFFFF0000) OR (v AND 0xFFFF)\<rparr>)"

definition value_u32 :: "byte \<Rightarrow> u32" where
  "value_u32 b =
     (if bytecode b = I_CALL then operands b AND 0xFFFFFF else operands b AND 0xFFFF)"

definition with_operands_u16 :: "byte \<Rightarrow> u16 \<Rightarrow> u16 \<Rightarrow> byte" where
  "with_operands_u16 b hi lo =
     b\<lparr>operands := push_bit 16 (0 XOR ucast hi) XOR ucast lo\<rparr>"

definition operand_u16 :: "byte \<Rightarrow> nat \<Rightarrow> (unit, u16) result" where
  "operand_u16 b index =
     (if index = 0 then Ok (ucast (drop_bit 16 (operands b)))
      else if index = 1 then Ok (ucast (drop_bit 16 (push_bit 16 (operands b))))
      else Panicked)"

subsection \<open>Constants\<close>

definition with_const_inline :: "byte \<Rightarrow> i32 \<Rightarrow> byte" where
  "with_const_inline b value = b\<lparr>operands := value\<rparr>"

definition with_const_pool :: "byte \<Rightarrow> u32 \<Rightarrow> byte" where
  "with_const_pool b pool_index = b\<lparr>operands := POOL_FLAG OR pool_index\<rparr>"

definition new_with_value :: "instruction \<Rightarrow> u64 \<Rightarrow> byte" where
  "new_with_value op value =
     (if - (2 ^ 31) \<le> sint value \<and> sint value \<le> 2 ^ 31 - 1
      then with_const_inline (byte_new op) (ucast value)
      else with_const_pool (byte_new op) 0)"

text \<open>
  \<open>Byte::constant\<close> reads the pool without a bounds test (\<open>promise!\<close>); \<open>None\<close> is the
  violated promise.
\<close>

definition byte_constant :: "byte \<Rightarrow> u64 list \<Rightarrow> u64 option" where
  "byte_constant b pool =
     (if operands b AND POOL_FLAG \<noteq> 0
      then get pool (unat (operands b AND NOT POOL_FLAG))
      else Some (scast (operands b)))"

definition jump_if_match_target :: "byte \<Rightarrow> u64 list \<Rightarrow> nat option" where
  "jump_if_match_target b pool = map_option unat (get pool (unat (operands b AND 0xFFFF)))"

subsection \<open>Aggregate makers\<close>

definition make_arity :: "byte \<Rightarrow> u32" where
  "make_arity b =
     (if bytecode b \<in> {I_MakeEnumK, I_MakeEnumReturnK, I_MakeTupleK}
      then operands b AND 0xFF else operands b AND 0xFFFF)"

definition make_kinds :: "byte \<Rightarrow> u8" where
  "make_kinds b =
     (if bytecode b \<in> {I_MakeEnumK, I_MakeEnumReturnK, I_MakeTupleK}
      then ucast (drop_bit 8 (operands b)) else 0)"

definition with_make_enum_kinds :: "byte \<Rightarrow> u16 \<Rightarrow> u8 \<Rightarrow> u8 \<Rightarrow> byte" where
  "with_make_enum_kinds b tag arity kinds =
     with_operand_u32 b (push_bit 16 (ucast tag) OR push_bit 8 (ucast kinds) OR ucast arity)"

definition pack_dense_make_k :: "u8 \<Rightarrow> u8 \<Rightarrow> u8 \<Rightarrow> u64" where
  "pack_dense_make_k base arity kinds =
     ucast base OR push_bit 8 (ucast arity) OR push_bit 16 (ucast kinds)"

definition dense_make_k_parts :: "byte \<Rightarrow> u64 list \<Rightarrow> (u8 \<times> nat \<times> nat \<times> nat \<times> u8) option" where
  "dense_make_k_parts b pool =
     (let op = operands b in
      case get pool (unat (op AND 0xFFFF)) of
        None \<Rightarrow> None
      | Some entry \<Rightarrow>
          Some (ucast (drop_bit 24 op), unat (drop_bit 16 op AND 0xFF),
                unat (drop_bit 8 entry AND 0xFF), unat (entry AND 0xFF),
                ucast (drop_bit 16 entry)))"

definition with_dense_make_k :: "byte \<Rightarrow> u8 \<Rightarrow> u8 \<Rightarrow> u16 \<Rightarrow> byte" where
  "with_dense_make_k b kind dest pool_idx =
     with_operand_u32 b (push_bit 24 (ucast kind) OR push_bit 16 (ucast dest) OR ucast pool_idx)"

definition pack_dense_host_call :: "u16 \<Rightarrow> u8 \<Rightarrow> u8 \<Rightarrow> u64" where
  "pack_dense_host_call native_id base arity =
     ucast native_id OR push_bit 16 (ucast base) OR push_bit 24 (ucast arity)"

definition dense_host_call_parts :: "byte \<Rightarrow> u64 list \<Rightarrow> (nat \<times> nat \<times> nat \<times> nat \<times> nat) option" where
  "dense_host_call_parts b pool =
     (let op = operands b in
      case get pool (unat (op AND 0xFFFF)) of
        None \<Rightarrow> None
      | Some entry \<Rightarrow>
          Some (unat (drop_bit 24 op), unat (drop_bit 16 op AND 0x3),
                unat (entry AND 0xFFFF), unat (drop_bit 16 entry AND 0xFF),
                unat (drop_bit 24 entry AND 0xFF)))"

definition with_dense_host_call :: "byte \<Rightarrow> u8 \<Rightarrow> u8 \<Rightarrow> u16 \<Rightarrow> byte" where
  "with_dense_host_call b dest layout pool_idx =
     with_operand_u32 b
       (push_bit 24 (ucast dest) OR push_bit 16 (ucast (layout AND 0x3)) OR ucast pool_idx)"

definition pack_init_typed :: "u32 \<Rightarrow> u32 \<Rightarrow> u32" where
  "pack_init_typed type_id field_count =
     push_bit 16 (field_count AND 0xFFFF) OR (type_id AND 0xFFFF)"

definition unpack_init_typed :: "u32 \<Rightarrow> u32 \<times> u32" where
  "unpack_init_typed operand = (operand AND 0xFFFF, drop_bit 16 operand)"

abbreviation (input) SET_FIELD_SLOT_BIT :: u32 where "SET_FIELD_SLOT_BIT \<equiv> push_bit 31 1"

definition pack_set_field_slot :: "u32 \<Rightarrow> u32" where
  "pack_set_field_slot index = SET_FIELD_SLOT_BIT OR (index AND 0xFFFF)"

definition set_field_slot_index :: "u32 \<Rightarrow> u32 option" where
  "set_field_slot_index operand =
     (if operand AND SET_FIELD_SLOT_BIT \<noteq> 0 then Some (operand AND 0xFFFF) else None)"

subsection \<open>Fused slot operations\<close>

definition with_bin_slot_imm :: "byte \<Rightarrow> u8 \<Rightarrow> u8 \<Rightarrow> 16 word \<Rightarrow> byte" where
  "with_bin_slot_imm b op slot imm =
     b\<lparr>operands := push_bit 24 (ucast op) OR push_bit 16 (ucast slot) OR ucast imm\<rparr>"

definition bin_slot_imm_parts :: "byte \<Rightarrow> u8 \<times> nat \<times> i64" where
  "bin_slot_imm_parts b =
     (let o' = operands b in
      (ucast (drop_bit 24 o'), unat (drop_bit 16 o' AND 0xFF),
       scast (ucast (o' AND 0xFFFF) :: 16 word)))"

definition with_cmp_jmpf :: "byte \<Rightarrow> u8 \<Rightarrow> u16 \<Rightarrow> byte" where
  "with_cmp_jmpf b op target = b\<lparr>operands := push_bit 24 (ucast op) OR ucast target\<rparr>"

definition with_cmp_jmpf_pool :: "byte \<Rightarrow> u8 \<Rightarrow> u16 \<Rightarrow> byte" where
  "with_cmp_jmpf_pool b op pool_idx =
     b\<lparr>operands := push_bit 24 (ucast op) OR push_bit 16 1 OR ucast pool_idx\<rparr>"

definition cmp_jmpf_parts :: "byte \<Rightarrow> u8 \<times> nat" where
  "cmp_jmpf_parts b = (ucast (drop_bit 24 (operands b)), unat (operands b AND 0xFFFF))"

definition cmp_jmpf_is_pool :: "byte \<Rightarrow> bool" where
  "cmp_jmpf_is_pool b \<longleftrightarrow> operands b AND push_bit 16 1 \<noteq> 0"

definition with_bin_return :: "byte \<Rightarrow> u8 \<Rightarrow> byte" where
  "with_bin_return b op = b\<lparr>operands := push_bit 24 (ucast op)\<rparr>"

definition bin_return_op :: "byte \<Rightarrow> u8" where
  "bin_return_op b = ucast (drop_bit 24 (operands b))"

definition with_bin_slot_slot :: "byte \<Rightarrow> u8 \<Rightarrow> u8 \<Rightarrow> u8 \<Rightarrow> byte" where
  "with_bin_slot_slot b op a c =
     b\<lparr>operands := push_bit 24 (ucast op) OR push_bit 16 (ucast a) OR push_bit 8 (ucast c)\<rparr>"

definition bin_slot_slot_parts :: "byte \<Rightarrow> u8 \<times> nat \<times> nat" where
  "bin_slot_slot_parts b =
     (let o' = operands b in
      (ucast (drop_bit 24 o'), unat (drop_bit 16 o' AND 0xFF), unat (drop_bit 8 o' AND 0xFF)))"

definition with_bin_slot_imm_jmpf :: "byte \<Rightarrow> u8 \<Rightarrow> u8 \<Rightarrow> u16 \<Rightarrow> byte" where
  "with_bin_slot_imm_jmpf b op slot pool_idx =
     b\<lparr>operands := push_bit 24 (ucast op) OR push_bit 16 (ucast slot) OR ucast pool_idx\<rparr>"

definition bin_slot_imm_jmpf_parts :: "byte \<Rightarrow> u8 \<times> nat \<times> nat" where
  "bin_slot_imm_jmpf_parts b =
     (let o' = operands b in
      (ucast (drop_bit 24 o'), unat (drop_bit 16 o' AND 0xFF), unat (o' AND 0xFFFF)))"

definition with_log_not_jmpf :: "byte \<Rightarrow> u16 \<Rightarrow> byte" where
  "with_log_not_jmpf b target = b\<lparr>operands := ucast target\<rparr>"

definition with_log_not_jmpf_pool :: "byte \<Rightarrow> u16 \<Rightarrow> byte" where
  "with_log_not_jmpf_pool b pool_idx = b\<lparr>operands := push_bit 16 1 OR ucast pool_idx\<rparr>"

definition log_not_jmpf_target :: "byte \<Rightarrow> nat" where
  "log_not_jmpf_target b = unat (operands b AND 0xFFFF)"

definition log_not_jmpf_is_pool :: "byte \<Rightarrow> bool" where
  "log_not_jmpf_is_pool b \<longleftrightarrow> operands b AND push_bit 16 1 \<noteq> 0"

definition with_bin_slot_slot_jmpf :: "byte \<Rightarrow> u8 \<Rightarrow> u8 \<Rightarrow> u16 \<Rightarrow> byte" where
  "with_bin_slot_slot_jmpf b op a pool_idx =
     b\<lparr>operands := push_bit 24 (ucast op) OR push_bit 16 (ucast a) OR ucast pool_idx\<rparr>"

definition bin_slot_slot_jmpf_parts :: "byte \<Rightarrow> u8 \<times> nat \<times> nat" where
  "bin_slot_slot_jmpf_parts b =
     (let o' = operands b in
      (ucast (drop_bit 24 o'), unat (drop_bit 16 o' AND 0xFF), unat (o' AND 0xFFFF)))"

definition with_bin_slot_slot_const_jmpf :: "byte \<Rightarrow> u8 \<Rightarrow> u8 \<Rightarrow> u16 \<Rightarrow> byte" where
  "with_bin_slot_slot_const_jmpf b bin_op a pool_idx =
     b\<lparr>operands := push_bit 24 (ucast bin_op) OR push_bit 16 (ucast a) OR ucast pool_idx\<rparr>"

definition bin_slot_slot_const_jmpf_parts :: "byte \<Rightarrow> u8 \<times> nat \<times> nat" where
  "bin_slot_slot_const_jmpf_parts b =
     (let o' = operands b in
      (ucast (drop_bit 24 o'), unat (drop_bit 16 o' AND 0xFF), unat (o' AND 0xFFFF)))"

definition pack_bin_slot_slot_const_jmpf_desc :: "u8 \<Rightarrow> u8 \<Rightarrow> u16 \<Rightarrow> u32 \<Rightarrow> u64" where
  "pack_bin_slot_slot_const_jmpf_desc b cmp_op float_pool_idx target =
     ucast b OR push_bit 8 (ucast cmp_op) OR push_bit 16 (ucast float_pool_idx)
       OR push_bit 32 (ucast target)"

definition unpack_bin_slot_slot_const_jmpf_desc :: "u64 \<Rightarrow> u8 \<times> u8 \<times> nat \<times> nat" where
  "unpack_bin_slot_slot_const_jmpf_desc packed =
     (ucast packed, ucast (drop_bit 8 packed), unat (drop_bit 16 packed AND 0xFFFF),
      unat (drop_bit 32 packed))"

definition with_bin_slot_imm_store :: "byte \<Rightarrow> u8 \<Rightarrow> u8 \<Rightarrow> u16 \<Rightarrow> byte" where
  "with_bin_slot_imm_store b op src pool_idx =
     b\<lparr>operands := push_bit 24 (ucast op) OR push_bit 16 (ucast src) OR ucast pool_idx\<rparr>"

definition bin_slot_imm_store_parts :: "byte \<Rightarrow> u8 \<times> nat \<times> nat" where
  "bin_slot_imm_store_parts b =
     (let o' = operands b in
      (ucast (drop_bit 24 o'), unat (drop_bit 16 o' AND 0xFF), unat (o' AND 0xFFFF)))"

definition with_bin_slot_slot_store :: "byte \<Rightarrow> u8 \<Rightarrow> u8 \<Rightarrow> u8 \<Rightarrow> u8 \<Rightarrow> byte" where
  "with_bin_slot_slot_store b op a c dest =
     b\<lparr>operands := push_bit 24 (ucast op) OR push_bit 16 (ucast a) OR push_bit 8 (ucast c)
        OR ucast dest\<rparr>"

definition bin_slot_slot_store_parts :: "byte \<Rightarrow> u8 \<times> nat \<times> nat \<times> nat" where
  "bin_slot_slot_store_parts b =
     (let o' = operands b in
      (ucast (drop_bit 24 o'), unat (drop_bit 16 o' AND 0xFF), unat (drop_bit 8 o' AND 0xFF),
       unat (o' AND 0xFF)))"

definition with_inc_dec :: "byte \<Rightarrow> u32 \<Rightarrow> bool \<Rightarrow> bool \<Rightarrow> byte" where
  "with_inc_dec b slot prefix is_float =
     b\<lparr>operands := push_bit 3 slot OR push_bit 2 (of_bool prefix) OR push_bit 1 (of_bool is_float)\<rparr>"

definition inc_dec_parts :: "byte \<Rightarrow> nat \<times> bool \<times> bool" where
  "inc_dec_parts b =
     (let o' = operands b in (unat (drop_bit 3 o'), o' AND 4 \<noteq> 0, o' AND 2 \<noteq> 0))"

subsection \<open>Dense three-address operations\<close>

definition with_dense_abc :: "byte \<Rightarrow> u8 \<Rightarrow> u8 \<Rightarrow> u8 \<Rightarrow> u8 \<Rightarrow> byte" where
  "with_dense_abc b kind dest a c =
     b\<lparr>operands := push_bit 24 (ucast kind) OR push_bit 16 (ucast dest) OR push_bit 8 (ucast a)
        OR ucast c\<rparr>"

definition dense_abc_parts :: "byte \<Rightarrow> u8 \<times> nat \<times> nat \<times> nat" where
  "dense_abc_parts b =
     (let o' = operands b in
      (ucast (drop_bit 24 o'), unat (drop_bit 16 o' AND 0xFF), unat (drop_bit 8 o' AND 0xFF),
       unat (o' AND 0xFF)))"

definition with_dense_unary :: "byte \<Rightarrow> u8 \<Rightarrow> u8 \<Rightarrow> u8 \<Rightarrow> byte" where
  "with_dense_unary b kind dest src =
     b\<lparr>operands := push_bit 24 (ucast kind) OR push_bit 8 (ucast dest) OR ucast src\<rparr>"

definition dense_unary_parts :: "byte \<Rightarrow> u8 \<times> nat \<times> nat" where
  "dense_unary_parts b =
     (let o' = operands b in
      (ucast (drop_bit 24 o'), unat (drop_bit 8 o' AND 0xFF), unat (o' AND 0xFF)))"

definition with_dense_move :: "byte \<Rightarrow> u8 \<Rightarrow> u8 \<Rightarrow> byte" where
  "with_dense_move b dest src = b\<lparr>operands := push_bit 8 (ucast dest) OR ucast src\<rparr>"

definition dense_move_parts :: "byte \<Rightarrow> nat \<times> nat" where
  "dense_move_parts b =
     (let o' = operands b in (unat (drop_bit 8 o' AND 0xFF), unat (o' AND 0xFF)))"

definition with_dense_const :: "byte \<Rightarrow> u8 \<Rightarrow> u8 \<Rightarrow> u16 \<Rightarrow> bool \<Rightarrow> byte" where
  "with_dense_const b ty dest payload pool =
     (let o' = push_bit 24 (ucast ty AND 0x7F) OR push_bit 16 (ucast dest) OR ucast payload
      in b\<lparr>operands := (if pool then o' OR POOL_FLAG else o')\<rparr>)"

definition dense_const_parts :: "byte \<Rightarrow> u8 \<times> nat \<times> u16 \<times> bool" where
  "dense_const_parts b =
     (let o' = operands b in
      (ucast (drop_bit 24 o' AND 0x7F), unat (drop_bit 16 o' AND 0xFF), ucast (o' AND 0xFFFF),
       o' AND POOL_FLAG \<noteq> 0))"

abbreviation (input) MAKE_ARRAY :: u8 where "MAKE_ARRAY \<equiv> 0"
abbreviation (input) MAKE_TUPLE :: u8 where "MAKE_TUPLE \<equiv> 1"
abbreviation (input) MAKE_ENUM :: u8 where "MAKE_ENUM \<equiv> 2"
abbreviation (input) COW_FIELD :: u32 where "COW_FIELD \<equiv> 2"

definition pack_cow_field :: "u8 \<Rightarrow> u16 \<Rightarrow> u32" where
  "pack_cow_field object field = push_bit 16 (ucast field) OR push_bit 8 (ucast object) OR COW_FIELD OR 1"

definition pack_make_object :: "u8 \<Rightarrow> u8 \<Rightarrow> u16 \<Rightarrow> u32" where
  "pack_make_object dest nfields type_id =
     push_bit 24 (ucast dest) OR push_bit 16 (ucast nfields) OR ucast type_id"

definition unpack_make_object :: "u32 \<Rightarrow> u8 \<times> u8 \<times> u32" where
  "unpack_make_object operand =
     (ucast (drop_bit 24 operand), ucast (drop_bit 16 operand), operand AND 0xFFFF)"

definition pack_cmp :: "u8 \<Rightarrow> u8 \<Rightarrow> u8" where
  "pack_cmp lane pred = push_bit 4 lane OR (pred AND 0x0F)"

definition unpack_cmp :: "u8 \<Rightarrow> u8 \<times> u8" where
  "unpack_cmp kind = (drop_bit 4 kind, kind AND 0x0F)"

definition stream_width :: "instruction \<Rightarrow> nat" where
  "stream_width op = (if op \<in> {I_DenseBin2, I_DenseBinJmpf, I_DenseIndexJmpf} then 2 else 1)"

text \<open>
  \<open>dense::for_each_bin\<close>: the arguments its visitor is called with, in order. The two
  counters below are the visitors the source passes it.
\<close>

fun for_each_bin :: "byte list \<Rightarrow> (u8 \<times> nat \<times> nat \<times> nat) list" where
  "for_each_bin [] = []"
| "for_each_bin (b # rest) =
     (if bytecode b = I_DenseBin then dense_abc_parts b # for_each_bin rest
      else if bytecode b = I_DenseBin2 then
        dense_abc_parts b #
          (case rest of [] \<Rightarrow> [] | c # rest' \<Rightarrow> dense_abc_parts c # for_each_bin rest')
      else if bytecode b = I_DenseBinJmpf then dense_abc_parts b # for_each_bin (drop 1 rest)
      else for_each_bin rest)"

definition has_bin_kind :: "byte list \<Rightarrow> u8 \<Rightarrow> bool" where
  "has_bin_kind code kind = fold (\<lambda>(k, _, _, _) found. if k = kind then True else found)
     (for_each_bin code) False"

definition count_bin_kind :: "byte list \<Rightarrow> u8 \<Rightarrow> nat" where
  "count_bin_kind code kind = fold (\<lambda>(k, _, _, _) n. if k = kind then n + 1 else n)
     (for_each_bin code) 0"

subsection \<open>Packed loads and stores\<close>

definition with_load_store_packed :: "byte \<Rightarrow> u8 \<Rightarrow> u8 \<Rightarrow> u8 \<Rightarrow> u8 \<Rightarrow> byte" where
  "with_load_store_packed b n s0 s1 s2 =
     b\<lparr>operands := push_bit 24 (ucast n) OR push_bit 16 (ucast s2) OR push_bit 8 (ucast s1)
        OR ucast s0\<rparr>"

definition with_load_store_wide :: "byte \<Rightarrow> u32 \<Rightarrow> byte" where
  "with_load_store_wide b slot = b\<lparr>operands := slot AND 0x00FFFFFF\<rparr>"

definition with_load_store_slot :: "byte \<Rightarrow> u32 \<Rightarrow> byte" where
  "with_load_store_slot b slot =
     (if 255 < slot then with_load_store_wide b slot
      else with_load_store_packed b 1 (ucast slot) 0 0)"

definition load_store_n :: "byte \<Rightarrow> u8" where
  "load_store_n b = ucast (drop_bit 24 (operands b))"

definition load_store_count :: "byte \<Rightarrow> nat" where
  "load_store_count b = (if load_store_n b = 0 then 1 else unat (load_store_n b))"

definition load_store_slot_at :: "byte \<Rightarrow> nat \<Rightarrow> (unit, u32) result" where
  "load_store_slot_at b i =
     (if load_store_n b = 0 then Ok (operands b AND 0x00FFFFFF)
      else if i = 0 then Ok (operands b AND 0xFF)
      else if i = 1 then Ok (drop_bit 8 (operands b) AND 0xFF)
      else if i = 2 then Ok (drop_bit 16 (operands b) AND 0xFF)
      else Panicked)"

definition load_store_single_slot :: "byte \<Rightarrow> u32 option" where
  "load_store_single_slot b =
     (if load_store_n b = 0 then Some (operands b AND 0x00FFFFFF)
      else if load_store_n b = 1 then Some (operands b AND 0xFF) else None)"

definition load_store_parts :: "byte \<Rightarrow> u8 \<times> u8 \<times> u8 \<times> u8" where
  "load_store_parts b =
     (let o' = operands b in
      (ucast (drop_bit 24 o'), ucast (o' AND 0xFF), ucast (drop_bit 8 o' AND 0xFF),
       ucast (drop_bit 16 o' AND 0xFF)))"

lemmas byte_defs =
  byte_new_def with_operand_u32_def operand_u32_def with_call_packed_def with_call_packed_ret_def
  call_parts_def call_ret_words_def return_words_def with_value_u32_def value_u32_def
  with_operands_u16_def operand_u16_def with_const_inline_def with_const_pool_def
  new_with_value_def byte_constant_def jump_if_match_target_def make_arity_def make_kinds_def
  with_make_enum_kinds_def pack_dense_make_k_def dense_make_k_parts_def with_dense_make_k_def
  pack_dense_host_call_def dense_host_call_parts_def with_dense_host_call_def
  pack_init_typed_def unpack_init_typed_def pack_set_field_slot_def set_field_slot_index_def
  with_bin_slot_imm_def bin_slot_imm_parts_def with_cmp_jmpf_def with_cmp_jmpf_pool_def
  cmp_jmpf_parts_def cmp_jmpf_is_pool_def with_bin_return_def bin_return_op_def
  with_bin_slot_slot_def bin_slot_slot_parts_def with_bin_slot_imm_jmpf_def
  bin_slot_imm_jmpf_parts_def with_log_not_jmpf_def with_log_not_jmpf_pool_def
  log_not_jmpf_target_def log_not_jmpf_is_pool_def with_bin_slot_slot_jmpf_def
  bin_slot_slot_jmpf_parts_def with_bin_slot_slot_const_jmpf_def
  bin_slot_slot_const_jmpf_parts_def pack_bin_slot_slot_const_jmpf_desc_def
  unpack_bin_slot_slot_const_jmpf_desc_def with_bin_slot_imm_store_def
  bin_slot_imm_store_parts_def with_bin_slot_slot_store_def bin_slot_slot_store_parts_def
  with_inc_dec_def inc_dec_parts_def with_dense_abc_def dense_abc_parts_def with_dense_unary_def
  dense_unary_parts_def with_dense_move_def dense_move_parts_def with_dense_const_def
  dense_const_parts_def pack_make_object_def unpack_make_object_def pack_cmp_def unpack_cmp_def
  with_load_store_packed_def with_load_store_wide_def with_load_store_slot_def load_store_n_def
  load_store_count_def load_store_slot_at_def load_store_single_slot_def load_store_parts_def


section \<open>Reading back what was packed\<close>

lemma call_packed_ret_parts:
  "call_parts (with_call_packed_ret b arity target ret_words) =
     (unat (take_bit 7 arity), unat (take_bit 24 target))"
  by (auto simp: call_parts_def with_call_packed_ret_def field_simps_word)

lemma call_packed_ret_words:
  "call_ret_words (with_call_packed_ret b arity target ret_words) = (if 2 \<le> ret_words then 2 else 1)"
  by (auto simp: call_ret_words_def with_call_packed_ret_def field_simps_word)

lemma take_bit_small:
  "unat (w :: u32) < 2 ^ n \<Longrightarrow> take_bit n w = w"
  by (metis take_bit_nat_eq_self unsigned_take_bit_eq word_unat_eq_iff)

lemma bin_slot_imm_rt: "bin_slot_imm_parts (with_bin_slot_imm b op slot imm) = (op, unat slot, scast imm)"
  by (auto simp: bin_slot_imm_parts_def with_bin_slot_imm_def field_simps_word)

lemma cmp_jmpf_rt: "cmp_jmpf_parts (with_cmp_jmpf b op target) = (op, unat target)"
  by (auto simp: cmp_jmpf_parts_def with_cmp_jmpf_def field_simps_word)

lemma cmp_jmpf_direct: "\<not> cmp_jmpf_is_pool (with_cmp_jmpf b op target)"
  by (auto simp: cmp_jmpf_is_pool_def with_cmp_jmpf_def field_simps_word)

lemma cmp_jmpf_pool_rt: "cmp_jmpf_parts (with_cmp_jmpf_pool b op target) = (op, unat target)"
  by (auto simp: cmp_jmpf_parts_def with_cmp_jmpf_pool_def field_simps_word)

lemma cmp_jmpf_pool: "cmp_jmpf_is_pool (with_cmp_jmpf_pool b op target)"
  by (auto simp: cmp_jmpf_is_pool_def with_cmp_jmpf_pool_def field_simps_word)

lemma log_not_jmpf_rt: "log_not_jmpf_target (with_log_not_jmpf b target) = unat target"
  by (auto simp: log_not_jmpf_target_def with_log_not_jmpf_def field_simps_word)

lemma log_not_jmpf_direct: "\<not> log_not_jmpf_is_pool (with_log_not_jmpf b target)"
  by (auto simp: log_not_jmpf_is_pool_def with_log_not_jmpf_def field_simps_word)

lemma log_not_jmpf_pool_rt: "log_not_jmpf_target (with_log_not_jmpf_pool b target) = unat target"
  by (auto simp: log_not_jmpf_target_def with_log_not_jmpf_pool_def field_simps_word)

lemma log_not_jmpf_pool: "log_not_jmpf_is_pool (with_log_not_jmpf_pool b target)"
  by (auto simp: log_not_jmpf_is_pool_def with_log_not_jmpf_pool_def field_simps_word)

lemma bin_return_rt: "bin_return_op (with_bin_return b op) = op"
  by (auto simp: bin_return_op_def with_bin_return_def field_simps_word)

lemma bin_slot_slot_rt: "bin_slot_slot_parts (with_bin_slot_slot b op slot slot') = (op, unat slot, unat slot')"
  by (auto simp: bin_slot_slot_parts_def with_bin_slot_slot_def field_simps_word)

lemma bin_slot_imm_jmpf_rt: "bin_slot_imm_jmpf_parts (with_bin_slot_imm_jmpf b op slot idx) = (op, unat slot, unat idx)"
  by (auto simp: bin_slot_imm_jmpf_parts_def with_bin_slot_imm_jmpf_def field_simps_word)

lemma bin_slot_slot_jmpf_rt: "bin_slot_slot_jmpf_parts (with_bin_slot_slot_jmpf b op slot idx) = (op, unat slot, unat idx)"
  by (auto simp: bin_slot_slot_jmpf_parts_def with_bin_slot_slot_jmpf_def field_simps_word)

lemma bin_slot_slot_const_jmpf_rt: "bin_slot_slot_const_jmpf_parts (with_bin_slot_slot_const_jmpf b op slot idx) =
     (op, unat slot, unat idx)"
  by (auto simp: bin_slot_slot_const_jmpf_parts_def
    with_bin_slot_slot_const_jmpf_def field_simps_word)

lemma bin_slot_slot_const_jmpf_desc_rt: "unpack_bin_slot_slot_const_jmpf_desc (pack_bin_slot_slot_const_jmpf_desc slot op idx long) =
     (slot, op, unat idx, unat long)"
  by (auto simp: unpack_bin_slot_slot_const_jmpf_desc_def
    pack_bin_slot_slot_const_jmpf_desc_def field_simps_word)

lemma bin_slot_imm_store_rt: "bin_slot_imm_store_parts (with_bin_slot_imm_store b op slot idx) = (op, unat slot, unat idx)"
  by (auto simp: bin_slot_imm_store_parts_def with_bin_slot_imm_store_def field_simps_word)

lemma bin_slot_slot_store_rt: "bin_slot_slot_store_parts (with_bin_slot_slot_store b op slot slot' dest) =
     (op, unat slot, unat slot', unat dest)"
  by (auto simp: bin_slot_slot_store_parts_def with_bin_slot_slot_store_def field_simps_word)

lemma inc_dec_rt: "inc_dec_parts (with_inc_dec b wide prefix is_float) = (unat (take_bit 29 wide), prefix, is_float)"
  by (auto simp: inc_dec_parts_def with_inc_dec_def of_bool_def field_simps_word)

lemma dense_abc_rt: "dense_abc_parts (with_dense_abc b kind dest a c) = (kind, unat dest, unat a, unat c)"
  by (auto simp: dense_abc_parts_def with_dense_abc_def field_simps_word)

lemma dense_unary_rt: "dense_unary_parts (with_dense_unary b kind dest a) = (kind, unat dest, unat a)"
  by (auto simp: dense_unary_parts_def with_dense_unary_def field_simps_word)

lemma dense_move_rt: "dense_move_parts (with_dense_move b dest a) = (unat dest, unat a)"
  by (auto simp: dense_move_parts_def with_dense_move_def field_simps_word)

lemma dense_const_rt: "dense_const_parts (with_dense_const b kind dest payload pooled) =
     (take_bit 7 kind, unat dest, payload, pooled)"
  by (auto simp: dense_const_parts_def with_dense_const_def field_simps_word)

lemma make_object_rt: "unpack_make_object (pack_make_object dest a payload) = (dest, a, ucast payload)"
  by (auto simp: unpack_make_object_def pack_make_object_def field_simps_word)

lemma cmp_kind_rt: "unpack_cmp (pack_cmp kind a) = (take_bit 4 kind, take_bit 4 a)"
  by (auto simp: unpack_cmp_def pack_cmp_def field_simps_word)

lemma init_typed_rt: "unpack_init_typed (pack_init_typed t n) = (take_bit 16 t, take_bit 16 n)"
  by (auto simp: unpack_init_typed_def pack_init_typed_def field_simps_word)

lemma set_field_slot_rt: "set_field_slot_index (pack_set_field_slot t) = Some (take_bit 16 t)"
  by (auto simp: set_field_slot_index_def pack_set_field_slot_def field_simps_word)

lemma dense_make_k_operand:
  "ucast (drop_bit 24 (operands (with_dense_make_k b kind dest payload))) = kind"
  "drop_bit 16 (operands (with_dense_make_k b kind dest payload)) AND 0xFF = ucast dest"
  "operands (with_dense_make_k b kind dest payload) AND 0xFFFF = ucast payload"
  by (auto simp: with_dense_make_k_def with_operand_u32_def field_simps_word)

lemma dense_make_k_entry:
  "drop_bit 8 (pack_dense_make_k a c kinds) AND 0xFF = ucast c"
  "pack_dense_make_k a c kinds AND 0xFF = ucast a"
  "ucast (drop_bit 16 (pack_dense_make_k a c kinds)) = kinds"
  by (auto simp: pack_dense_make_k_def field_simps_word)

lemma dense_make_k_rt:
  "get pool (unat payload) = Some (pack_dense_make_k a c kinds) \<Longrightarrow>
     dense_make_k_parts (with_dense_make_k b kind dest payload) pool =
       Some (kind, unat dest, unat c, unat a, kinds)"
  by (simp add: dense_make_k_parts_def dense_make_k_operand dense_make_k_entry unat_ucast_lits
    Let_def del: get_Some_iff)

lemma dense_host_call_operand:
  "drop_bit 24 (operands (with_dense_host_call b dest kind payload)) = ucast dest"
  "drop_bit 16 (operands (with_dense_host_call b dest kind payload)) AND 0x3 = ucast (take_bit 2 kind)"
  "operands (with_dense_host_call b dest kind payload) AND 0xFFFF = ucast payload"
  by (auto simp: with_dense_host_call_def with_operand_u32_def field_simps_word)

lemma dense_host_call_entry:
  "drop_bit 16 (pack_dense_host_call native a c) AND 0xFF = ucast a"
  "drop_bit 24 (pack_dense_host_call native a c) AND 0xFF = ucast c"
  "pack_dense_host_call native a c AND 0xFFFF = ucast native"
  by (auto simp: pack_dense_host_call_def field_simps_word)

lemma dense_host_call_rt:
  "get pool (unat payload) = Some (pack_dense_host_call native a c) \<Longrightarrow>
     dense_host_call_parts (with_dense_host_call b dest kind payload) pool =
       Some (unat dest, unat (take_bit 2 kind), unat native, unat a, unat c)"
  by (simp add: dense_host_call_parts_def dense_host_call_operand dense_host_call_entry
    unat_ucast_lits Let_def del: get_Some_iff)

text \<open>C31: call words. A \<open>CALL\<close> or \<open>TailCall\<close> word packed with an arity below 128 and a target
  below 2^24 reads back as exactly that arity and target, and its return-width bit as the width
  it was packed with.\<close>

theorem call_word_roundtrip:
  assumes "unat arity < 128" and "unat target < 2 ^ 24"
  shows "call_parts (with_call_packed_ret b arity target ret_words) = (unat arity, unat target)
    \<and> call_ret_words (with_call_packed_ret b arity target ret_words) = (if 2 \<le> ret_words then 2 else 1)
    \<and> call_parts (with_call_packed b arity target) = (unat arity, unat target)
    \<and> call_ret_words (with_call_packed b arity target) = 1
    \<and> bytecode (with_call_packed_ret b arity target ret_words) = bytecode b"
proof -
  have a: "take_bit 7 arity = arity" and t: "take_bit 24 target = target"
    using assms by (simp_all add: take_bit_small)
  have "with_call_packed b arity target = with_call_packed_ret b arity target 1"
    using a by (simp add: with_call_packed_def with_call_packed_ret_def and_mask_lit)
  then show ?thesis
    using a t by (simp add: call_packed_ret_parts call_packed_ret_words) (simp add: with_call_packed_ret_def)
qed

theorem call_word_roundtrip_witness:
  "call_parts (with_call_packed_ret (byte_new I_CALL) 5 0x1000 2) = (5, 0x1000)"
  using call_word_roundtrip[of 5 "0x1000" "byte_new I_CALL" 2] by simp

text \<open>Fused words. Every operand form of the fused superinstructions reads back the fields it
  was packed with: the inner opcode byte, the frame slots, the signed immediate, the direct or
  pool branch target and its selector bit, the 64-bit branch descriptor, and the 29-bit slot of an
  increment with its two flags.\<close>

theorem fused_word_roundtrip:
  "bin_slot_imm_parts (with_bin_slot_imm b op slot imm) = (op, unat slot, scast imm)
     \<and> cmp_jmpf_parts (with_cmp_jmpf b op target) = (op, unat target)
     \<and> \<not> cmp_jmpf_is_pool (with_cmp_jmpf b op target)
     \<and> cmp_jmpf_parts (with_cmp_jmpf_pool b op target) = (op, unat target)
     \<and> cmp_jmpf_is_pool (with_cmp_jmpf_pool b op target)
     \<and> log_not_jmpf_target (with_log_not_jmpf b target) = unat target
     \<and> \<not> log_not_jmpf_is_pool (with_log_not_jmpf b target)
     \<and> log_not_jmpf_target (with_log_not_jmpf_pool b target) = unat target
     \<and> log_not_jmpf_is_pool (with_log_not_jmpf_pool b target)
     \<and> bin_return_op (with_bin_return b op) = op
     \<and> bin_slot_slot_parts (with_bin_slot_slot b op slot slot') = (op, unat slot, unat slot')
     \<and> bin_slot_imm_jmpf_parts (with_bin_slot_imm_jmpf b op slot idx) = (op, unat slot, unat idx)
     \<and> bin_slot_slot_jmpf_parts (with_bin_slot_slot_jmpf b op slot idx) = (op, unat slot, unat idx)
     \<and> bin_slot_slot_const_jmpf_parts (with_bin_slot_slot_const_jmpf b op slot idx) =
         (op, unat slot, unat idx)
     \<and> unpack_bin_slot_slot_const_jmpf_desc (pack_bin_slot_slot_const_jmpf_desc slot op idx long) =
         (slot, op, unat idx, unat long)
     \<and> bin_slot_imm_store_parts (with_bin_slot_imm_store b op slot idx) = (op, unat slot, unat idx)
     \<and> bin_slot_slot_store_parts (with_bin_slot_slot_store b op slot slot' dest) =
         (op, unat slot, unat slot', unat dest)
     \<and> inc_dec_parts (with_inc_dec b wide prefix is_float) = (unat (take_bit 29 wide), prefix, is_float)"
  by (simp only: bin_slot_imm_rt cmp_jmpf_rt cmp_jmpf_direct cmp_jmpf_pool_rt cmp_jmpf_pool log_not_jmpf_rt log_not_jmpf_direct log_not_jmpf_pool_rt log_not_jmpf_pool bin_return_rt bin_slot_slot_rt bin_slot_imm_jmpf_rt bin_slot_slot_jmpf_rt bin_slot_slot_const_jmpf_rt bin_slot_slot_const_jmpf_desc_rt bin_slot_imm_store_rt bin_slot_slot_store_rt inc_dec_rt simp_thms)

text \<open>Dense words. The three-address forms read back kind, destination and source slots; a
  \<open>DenseMakeK\<close> or \<open>DenseHostCall\<close> word read against a pool that holds its packed entry gives back
  every field of word and entry; layout, lane and predicate fields keep their low bits.\<close>

theorem dense_word_roundtrip:
  assumes "get pool (unat payload) = Some (pack_dense_make_k a c kinds)"
    and "get pool' (unat payload) = Some (pack_dense_host_call native a c)"
  shows "dense_abc_parts (with_dense_abc b kind dest a c) = (kind, unat dest, unat a, unat c)
     \<and> dense_unary_parts (with_dense_unary b kind dest a) = (kind, unat dest, unat a)
     \<and> dense_move_parts (with_dense_move b dest a) = (unat dest, unat a)
     \<and> dense_const_parts (with_dense_const b kind dest payload pooled) =
         (take_bit 7 kind, unat dest, payload, pooled)
     \<and> unpack_make_object (pack_make_object dest a payload) = (dest, a, ucast payload)
     \<and> unpack_cmp (pack_cmp kind a) = (take_bit 4 kind, take_bit 4 a)
     \<and> unpack_init_typed (pack_init_typed t n) = (take_bit 16 t, take_bit 16 n)
     \<and> set_field_slot_index (pack_set_field_slot t) = Some (take_bit 16 t)
     \<and> dense_make_k_parts (with_dense_make_k b kind dest payload) pool =
         Some (kind, unat dest, unat c, unat a, kinds)
     \<and> dense_host_call_parts (with_dense_host_call b dest kind payload) pool' =
         Some (unat dest, unat (take_bit 2 kind), unat native, unat a, unat c)"
  using dense_make_k_rt[OF assms(1), of b kind dest]
    dense_host_call_rt[OF assms(2), of b dest kind]
  by (simp only: dense_abc_rt dense_unary_rt dense_move_rt dense_const_rt make_object_rt cmp_kind_rt init_typed_rt set_field_slot_rt simp_thms)

theorem dense_word_roundtrip_witness:
  "dense_make_k_parts (with_dense_make_k (byte_new I_DenseMakeK) 3 9 1) [0, pack_dense_make_k 4 2 6]
     = Some (3, 9, 2, 4, 6)"
  using dense_word_roundtrip[where pool = "[0, pack_dense_make_k 4 2 6]" and payload = 1 and a = 4
      and c = 2 and kinds = 6 and pool' = "[0, pack_dense_host_call 7 4 2]" and native = 7
      and b = "byte_new I_DenseMakeK" and kind = 3 and dest = 9]
  by (simp add: get_def)

section \<open>Loads and stores, constants, aggregate makers\<close>

lemma load_store_packed_n [simp]: "load_store_n (with_load_store_packed b n s0 s1 s2) = n"
  by (auto simp: load_store_n_def with_load_store_packed_def field_simps_word)

lemma load_store_packed_slots:
  "operands (with_load_store_packed b n s0 s1 s2) AND 0xFF = ucast s0"
  "drop_bit 8 (operands (with_load_store_packed b n s0 s1 s2)) AND 0xFF = ucast s1"
  "drop_bit 16 (operands (with_load_store_packed b n s0 s1 s2)) AND 0xFF = ucast s2"
  by (auto simp: with_load_store_packed_def field_simps_word)

lemma load_store_wide_n: "load_store_n (with_load_store_wide b slot) = 0"
  by (auto simp: load_store_n_def with_load_store_wide_def field_simps_word)

lemma load_store_wide_operand:
  "unat slot < 2 ^ 24 \<Longrightarrow> operands (with_load_store_wide b slot) AND 0x00FFFFFF = slot"
  by (simp add: with_load_store_wide_def and_mask_lit take_bit_small)

lemma ucast_u8_small: "\<not> 255 < (slot :: u32) \<Longrightarrow> ucast (ucast slot :: u8) = slot"
proof -
  assume "\<not> 255 < slot"
  then have "unat slot < 2 ^ 8"
    by (simp add: word_less_nat_alt)
  then have "unat (ucast slot :: u8) = unat slot"
    by (simp add: unsigned_ucast_eq take_bit_nat_eq_self)
  then show ?thesis
    by (simp add: word_unat_eq_iff unat_ucast_lits)
qed

lemma load_store_packed_slot_at:
  assumes "n \<noteq> 0" and "i < 3"
  shows "load_store_slot_at (with_load_store_packed b n s0 s1 s2) i = Ok (ucast ([s0, s1, s2] ! i))"
proof -
  have "i = 0 \<or> i = 1 \<or> i = 2"
    using assms(2) by arith
  then show ?thesis
    using assms(1) by (auto simp: load_store_slot_at_def load_store_packed_slots)
qed

lemma load_store_slot_at_panics_iff:
  "load_store_slot_at b i = Panicked \<longleftrightarrow> load_store_n b \<noteq> 0 \<and> 3 \<le> i"
  by (auto simp: load_store_slot_at_def)

text \<open>Local loads and stores. A single-slot word for any slot of a 24-bit frame, packed or
  wide, has one slot and reads it back; a packed word of two or three slots has that many and reads
  each of them back in order.\<close>

theorem load_store_word_roundtrip:
  assumes "unat slot < 2 ^ 24" and "n = 1 \<or> n = 2 \<or> n = 3"
  shows "load_store_count (with_load_store_slot b slot) = 1
    \<and> load_store_slot_at (with_load_store_slot b slot) 0 = Ok slot
    \<and> load_store_single_slot (with_load_store_slot b slot) = Some slot
    \<and> load_store_count (with_load_store_packed b n s0 s1 s2) = unat n
    \<and> (\<forall>i < unat n. load_store_slot_at (with_load_store_packed b n s0 s1 s2) i =
          Ok (ucast ([s0, s1, s2] ! i)))
    \<and> load_store_parts (with_load_store_packed b n s0 s1 s2) = (n, s0, s1, s2)"
proof (intro conjI)
  show "load_store_count (with_load_store_slot b slot) = 1"
    by (simp add: load_store_count_def with_load_store_slot_def load_store_wide_n)
  show "load_store_slot_at (with_load_store_slot b slot) 0 = Ok slot"
    using assms(1) by (simp add: load_store_slot_at_def with_load_store_slot_def load_store_wide_n
        load_store_wide_operand load_store_packed_slots ucast_u8_small)
  show "load_store_single_slot (with_load_store_slot b slot) = Some slot"
    using assms(1) by (simp add: load_store_single_slot_def with_load_store_slot_def
        load_store_wide_n load_store_wide_operand load_store_packed_slots ucast_u8_small)
  show "load_store_count (with_load_store_packed b n s0 s1 s2) = unat n"
    using assms(2) by (auto simp: load_store_count_def)
  show "\<forall>i < unat n. load_store_slot_at (with_load_store_packed b n s0 s1 s2) i =
          Ok (ucast ([s0, s1, s2] ! i))"
    using assms(2) by (auto intro!: load_store_packed_slot_at)
  show "load_store_parts (with_load_store_packed b n s0 s1 s2) = (n, s0, s1, s2)"
    by (auto simp: load_store_parts_def with_load_store_packed_def field_simps_word)
qed

theorem load_store_word_roundtrip_witness:
  "load_store_slot_at (with_load_store_slot (byte_new I_LOAD) 300) 0 = Ok 300"
  using load_store_word_roundtrip[of 300 3 "byte_new I_LOAD" 0 0 0] by simp

lemma const_inline_msb: "operands (with_const_inline b v) AND POOL_FLAG \<noteq> 0 \<longleftrightarrow> bit v 31"
  by (auto simp: with_const_inline_def field_simps_word)

lemma const_pool_index:
  "\<not> bit idx 31 \<Longrightarrow> operands (with_const_pool b idx) AND NOT POOL_FLAG = idx"
  by (auto simp: with_const_pool_def word_eq_iff_bits bit_simps pack_simps) 

lemma const_pool_flag: "operands (with_const_pool b idx) AND POOL_FLAG \<noteq> 0"
  by (auto simp: with_const_pool_def field_simps_word)

text \<open>Constants. An inline constant reads back as its sign extension exactly when it is not
  negative: the sign bit of the operand is the pool selector, so a negative inline constant is read
  as a pool index instead. A pool constant with an index below 2^31 reads that pool entry.\<close>

theorem const_word_resolution:
  "(byte_constant (with_const_inline b v) [] = Some (scast v) \<longleftrightarrow> \<not> bit v 31)
   \<and> (\<not> bit v 31 \<longrightarrow> byte_constant (with_const_inline b v) pool = Some (scast v))
   \<and> (\<not> bit idx 31 \<longrightarrow> byte_constant (with_const_pool b idx) pool = get pool (unat idx))"
  using const_inline_msb[of b v] const_pool_flag[of b idx] const_pool_index[of idx b]
  by (auto simp: byte_constant_def with_const_inline_def)

theorem const_word_resolution_witness:
  "byte_constant (with_const_pool (byte_new I_CONST) 1) [7, 9] = Some 9"
  using const_word_resolution[of "byte_new I_CONST" 1 "[7, 9]" 1] by (simp add: get_def)


section \<open>Walking the dense stream\<close>

text \<open>
  The reference reading of a code stream: words are grouped by \<open>stream_width\<close>, so that a
  two-word instruction owns its payload word, and each instruction contributes its bins.
\<close>

fun stream_ops :: "byte list \<Rightarrow> (byte \<times> byte option) list" where
  "stream_ops [] = []"
| "stream_ops (b # rest) =
     (if stream_width (bytecode b) = 2 then
        (case rest of [] \<Rightarrow> [(b, None)] | c # rest' \<Rightarrow> (b, Some c) # stream_ops rest')
      else (b, None) # stream_ops rest)"

definition op_bins :: "byte \<times> byte option \<Rightarrow> (u8 \<times> nat \<times> nat \<times> nat) list" where
  "op_bins = (\<lambda>(b, payload).
     if bytecode b = I_DenseBin \<or> bytecode b = I_DenseBinJmpf then [dense_abc_parts b]
     else if bytecode b = I_DenseBin2 then
       dense_abc_parts b # (case payload of None \<Rightarrow> [] | Some c \<Rightarrow> [dense_abc_parts c])
     else [])"

text \<open>The payload of \<open>DenseIndexJmpf\<close> is a conditional jump word.\<close>

definition index_payload_ok :: "byte \<times> byte option \<Rightarrow> bool" where
  "index_payload_ok = (\<lambda>(b, payload).
     bytecode b = I_DenseIndexJmpf \<longrightarrow>
       (case payload of None \<Rightarrow> True
        | Some c \<Rightarrow> bytecode c \<notin> {I_DenseBin, I_DenseBin2, I_DenseBinJmpf}))"

lemma for_each_bin_stream:
  "list_all index_payload_ok (stream_ops code) \<Longrightarrow>
     for_each_bin code = concat (map op_bins (stream_ops code))"
proof (induction code rule: stream_ops.induct)
  case 1
  then show ?case by simp
next
  case (2 b rest)
  show ?case
  proof (cases "stream_width (bytecode b) = 2")
    case False
    then show ?thesis
      using 2 by (auto simp: op_bins_def stream_width_def split: if_splits)
  next
    case True
    then show ?thesis
      using 2 by (cases rest) (auto simp: op_bins_def stream_width_def index_payload_ok_def
          split: if_splits)
  qed
qed

lemma has_bin_kind_fold:
  "fold (\<lambda>(k, _, _, _) found. if k = kind then True else found) bins acc \<longleftrightarrow>
     acc \<or> kind \<in> fst ` set bins"
  by (induction bins arbitrary: acc) auto

lemma count_bin_kind_fold:
  "fold (\<lambda>(k, _, _, _) n. if k = kind then n + 1 else n) bins acc =
     acc + length (filter (\<lambda>b. fst b = kind) bins)" for acc :: nat
  by (induction bins arbitrary: acc) auto

text \<open>The dense walk. On a stream whose \<open>DenseIndexJmpf\<close> payloads are not themselves bins,
  \<open>for_each_bin\<close> visits exactly the bins of the instructions found by grouping words by
  \<open>stream_width\<close>, and the two queries built on it answer whether, and how many times, a kind
  occurs among them.\<close>

theorem dense_walk_correct:
  assumes "list_all index_payload_ok (stream_ops code)"
  shows "for_each_bin code = concat (map op_bins (stream_ops code))
    \<and> (has_bin_kind code kind \<longleftrightarrow> kind \<in> fst ` set (concat (map op_bins (stream_ops code))))
    \<and> count_bin_kind code kind =
        length (filter (\<lambda>b. fst b = kind) (concat (map op_bins (stream_ops code))))"
  using for_each_bin_stream[OF assms]
  by (simp only: has_bin_kind_def count_bin_kind_def has_bin_kind_fold count_bin_kind_fold) simp

theorem dense_walk_correct_witness:
  "count_bin_kind [\<lparr>bytecode = I_DenseBin2, operands = 0x05000102\<rparr>,
     \<lparr>bytecode = I_DenseBin2, operands = 0x05030102\<rparr>, \<lparr>bytecode = I_HALT, operands = 0\<rparr>] 5 = 2"
  using dense_walk_correct[of "[\<lparr>bytecode = I_DenseBin2, operands = 0x05000102\<rparr>,
     \<lparr>bytecode = I_DenseBin2, operands = 0x05030102\<rparr>, \<lparr>bytecode = I_HALT, operands = 0\<rparr>]" 5]
  by (simp add: index_payload_ok_def op_bins_def stream_width_def dense_abc_parts_def Let_def)

end
