(* ===== verification/Int_Arith.thy ===== *)
theory Int_Arith
  imports Coil_Prelude "HOL-Library.Signed_Division"
begin

text \<open>
  Coil \<open>int\<close> arithmetic, after \<^verbatim>\<open>common/src/int_arith.rs\<close>, and the operator dispatch of
  \<^verbatim>\<open>machine/src/arith.rs\<close>. An \<open>i64\<close> is a 64-bit word read with \<open>sint\<close>; the \<open>checked_\<close>
  functions are the ones of the Rust standard library, \<open>checked_pow\<close> with its squaring loop.
  The reference \<open>int_exact\<close> computes over the integers; \<open>arith_int_refines\<close> shows that the
  machine operation is that result whenever it fits 64 bits, and a trap otherwise, except that a left
  shift drops the bits that do not fit.
\<close>

unbundle bit_operations_syntax

section \<open>Checked machine operations\<close>

datatype int_trap = Overflow | DivByZero | NegativeExponent | ShiftOutOfRange

definition int_trap_message :: "int_trap \<Rightarrow> string" where
  "int_trap_message t = (case t of
     Overflow \<Rightarrow> ''integer overflow''
   | DivByZero \<Rightarrow> ''division by zero''
   | NegativeExponent \<Rightarrow> ''negative exponent''
   | ShiftOutOfRange \<Rightarrow> ''shift count out of range'')"

type_synonym int_result = "(int_trap, i64) result"

definition in_i64 :: "int \<Rightarrow> bool" where
  "in_i64 x \<longleftrightarrow> - (2 ^ 63) \<le> x \<and> x < 2 ^ 63"

definition checked_add :: "i64 \<Rightarrow> i64 \<Rightarrow> i64 option" where
  "checked_add a b = (if in_i64 (sint a + sint b) then Some (a + b) else None)"

definition checked_sub :: "i64 \<Rightarrow> i64 \<Rightarrow> i64 option" where
  "checked_sub a b = (if in_i64 (sint a - sint b) then Some (a - b) else None)"

definition checked_mul :: "i64 \<Rightarrow> i64 \<Rightarrow> i64 option" where
  "checked_mul a b = (if in_i64 (sint a * sint b) then Some (a * b) else None)"

definition checked_neg :: "i64 \<Rightarrow> i64 option" where
  "checked_neg a = (if in_i64 (- sint a) then Some (- a) else None)"

definition checked_div :: "i64 \<Rightarrow> i64 \<Rightarrow> i64 option" where
  "checked_div a b =
     (if b = 0 \<or> (sint a = - (2 ^ 63) \<and> b = - 1) then None
      else Some (word_of_int (sint a sdiv sint b)))"

definition wrapping_rem :: "i64 \<Rightarrow> i64 \<Rightarrow> i64" where
  "wrapping_rem a b = word_of_int (sint a smod sint b)"

text \<open>\<open>i64::checked_pow\<close>: exponentiation by squaring, every product checked.\<close>

function checked_pow_loop :: "i64 \<Rightarrow> nat \<Rightarrow> i64 \<Rightarrow> i64 option" where
  "checked_pow_loop base e acc =
     (if e \<le> 1 then checked_mul acc base
      else
        (case (if odd e then checked_mul acc base else Some acc) of
           None \<Rightarrow> None
         | Some acc' \<Rightarrow>
             (case checked_mul base base of
                None \<Rightarrow> None
              | Some base' \<Rightarrow> checked_pow_loop base' (e div 2) acc')))"
  by pat_completeness auto
termination
  by (relation "measure (\<lambda>(base, e, acc). e)") auto

declare checked_pow_loop.simps [simp del]

definition checked_pow :: "i64 \<Rightarrow> nat \<Rightarrow> i64 option" where
  "checked_pow base e = (if e = 0 then Some 1 else checked_pow_loop base e 1)"

section \<open>\<open>int_arith.rs\<close>\<close>

definition int_arith_add :: "i64 \<Rightarrow> i64 \<Rightarrow> int_result" where
  "int_arith_add a b = ok_or (checked_add a b) Overflow"

definition int_arith_sub :: "i64 \<Rightarrow> i64 \<Rightarrow> int_result" where
  "int_arith_sub a b = ok_or (checked_sub a b) Overflow"

definition int_arith_mul :: "i64 \<Rightarrow> i64 \<Rightarrow> int_result" where
  "int_arith_mul a b = ok_or (checked_mul a b) Overflow"

definition int_arith_neg :: "i64 \<Rightarrow> int_result" where
  "int_arith_neg a = ok_or (checked_neg a) Overflow"

definition int_arith_div :: "i64 \<Rightarrow> i64 \<Rightarrow> int_result" where
  "int_arith_div a b = (if b = 0 then Err DivByZero else ok_or (checked_div a b) Overflow)"

definition int_arith_rem :: "i64 \<Rightarrow> i64 \<Rightarrow> int_result" where
  "int_arith_rem a b = (if b = 0 then Err DivByZero else Ok (wrapping_rem a b))"

definition int_arith_shl :: "i64 \<Rightarrow> i64 \<Rightarrow> int_result" where
  "int_arith_shl a b =
     (if \<not> (0 \<le> sint b \<and> sint b < 64) then Err ShiftOutOfRange
      else Ok (push_bit (nat (sint b)) a))"

definition int_arith_shr :: "i64 \<Rightarrow> i64 \<Rightarrow> int_result" where
  "int_arith_shr a b =
     (if \<not> (0 \<le> sint b \<and> sint b < 64) then Err ShiftOutOfRange
      else Ok (signed_drop_bit (nat (sint b)) a))"

definition int_arith_pow :: "i64 \<Rightarrow> i64 \<Rightarrow> int_result" where
  "int_arith_pow a b =
     (if sint b < 0 then Err NegativeExponent
      else if a = 0 then Ok (if b = 0 then 1 else 0)
      else if a = 1 then Ok 1
      else if a = - 1 then Ok (if sint b mod 2 = 0 then 1 else - 1)
      else if 2 ^ 32 \<le> sint b then Err Overflow
      else ok_or (checked_pow a (nat (sint b))) Overflow)"

section \<open>\<open>arith.rs\<close>\<close>

datatype int_op = IntAdd | IntSub | IntMul | IntDiv | IntRem | IntPow | IntBitAnd | IntBitOr
  | IntXor | IntShl | IntShr

definition arith_int :: "int_op \<Rightarrow> i64 \<Rightarrow> i64 \<Rightarrow> int_result" where
  "arith_int op a b = (case op of
     IntAdd \<Rightarrow> int_arith_add a b
   | IntSub \<Rightarrow> int_arith_sub a b
   | IntMul \<Rightarrow> int_arith_mul a b
   | IntDiv \<Rightarrow> int_arith_div a b
   | IntRem \<Rightarrow> int_arith_rem a b
   | IntPow \<Rightarrow> int_arith_pow a b
   | IntBitAnd \<Rightarrow> Ok (a AND b)
   | IntBitOr \<Rightarrow> Ok (a OR b)
   | IntXor \<Rightarrow> Ok (a XOR b)
   | IntShl \<Rightarrow> int_arith_shl a b
   | IntShr \<Rightarrow> int_arith_shr a b)"

section \<open>The exact result over the integers\<close>

definition int_exact :: "int_op \<Rightarrow> int \<Rightarrow> int \<Rightarrow> (int_trap, int) result" where
  "int_exact op a b = (case op of
     IntAdd \<Rightarrow> Ok (a + b)
   | IntSub \<Rightarrow> Ok (a - b)
   | IntMul \<Rightarrow> Ok (a * b)
   | IntDiv \<Rightarrow> (if b = 0 then Err DivByZero else Ok (a sdiv b))
   | IntRem \<Rightarrow> (if b = 0 then Err DivByZero else Ok (a smod b))
   | IntPow \<Rightarrow> (if b < 0 then Err NegativeExponent else Ok (a ^ nat b))
   | IntBitAnd \<Rightarrow> Ok (a AND b)
   | IntBitOr \<Rightarrow> Ok (a OR b)
   | IntXor \<Rightarrow> Ok (a XOR b)
   | IntShl \<Rightarrow> (if b < 0 \<or> 64 \<le> b then Err ShiftOutOfRange
                 else Ok (a * 2 ^ nat b))
   | IntShr \<Rightarrow> (if b < 0 \<or> 64 \<le> b then Err ShiftOutOfRange else Ok (a div 2 ^ nat b)))"

text \<open>A result that does not fit an \<open>i64\<close> is an overflow trap.\<close>

definition narrow_i64 :: "(int_trap, int) result \<Rightarrow> int_result" where
  "narrow_i64 r = rbind r (\<lambda>x. if in_i64 x then Ok (word_of_int x) else Err Overflow)"

text \<open>A left shift keeps the low 64 bits of a result that does not fit.\<close>

definition fit_i64 :: "int_op \<Rightarrow> (int_trap, int) result \<Rightarrow> int_result" where
  "fit_i64 op r = (if op = IntShl then rmap word_of_int r else narrow_i64 r)"

section \<open>Reading words as integers\<close>

lemma sint_in_i64 [simp]: "in_i64 (sint (a :: i64))"
  using sint_range_size[of a] by (simp add: in_i64_def word_size)

lemma sint_of_in_i64: "in_i64 x \<Longrightarrow> sint (word_of_int x :: i64) = x"
  by (simp add: in_i64_def sint_sbintrunc' signed_take_bit_int_eq_self)

lemma word_of_sint_eq: "(word_of_int (sint a) :: i64) = a"
  by simp

lemma sint_eq_iff: "sint (a :: i64) = sint b \<longleftrightarrow> a = b"
  by (metis word_of_sint_eq)

lemma sint_bitops:
  "sint (a AND b) = sint a AND sint b" "sint (a OR b) = sint a OR sint b"
  "sint (a XOR b) = sint a XOR sint b" for a b :: i64
  by (simp_all add: signed_and_eq signed_or_eq signed_xor_eq)

lemma checked_mul_Some_iff:
  "checked_mul a b = Some c \<longleftrightarrow> sint c = sint a * sint b"
  by (auto simp: checked_mul_def)
    (metis sint_of_in_i64 word_of_sint_eq of_int_mult, metis word_of_sint_eq of_int_mult,
      metis sint_in_i64)

lemma checked_mul_None_iff: "checked_mul a b = None \<longleftrightarrow> \<not> in_i64 (sint a * sint b)"
  by (simp add: checked_mul_def)

lemma in_i64_abs: "in_i64 x \<Longrightarrow> \<bar>x\<bar> \<le> 2 ^ 63"
  by (simp add: in_i64_def abs_le_iff)

lemma not_in_i64_abs: "\<not> in_i64 x \<Longrightarrow> 2 ^ 63 \<le> \<bar>x\<bar>"
  by (auto simp: in_i64_def)

lemma square_not_in_i64: "\<not> in_i64 (x * x) \<Longrightarrow> 2 ^ 63 < x * x"
proof (rule ccontr)
  assume out: "\<not> in_i64 (x * x)" and le: "\<not> 2 ^ 63 < x * x"
  have "x * x = 2 ^ 63"
    using out le by (auto simp: in_i64_def intro: order_trans[OF _ zero_le_square])
  then have sq: "\<bar>x\<bar> * \<bar>x\<bar> = 2 ^ 63"
    by (simp add: abs_mult_self_eq)
  consider "\<bar>x\<bar> \<le> 3037000499" | "3037000500 \<le> \<bar>x\<bar>"
    by linarith
  then show False
  proof cases
    case 1
    then have "\<bar>x\<bar> * \<bar>x\<bar> \<le> 3037000499 * 3037000499"
      by (intro mult_mono) auto
    then show False using sq by simp
  next
    case 2
    then have "3037000500 * 3037000500 \<le> \<bar>x\<bar> * \<bar>x\<bar>"
      by (intro mult_mono) auto
    then show False using sq by simp
  qed
qed

lemma abs_mult_grow: "1 \<le> \<bar>y\<bar> \<Longrightarrow> \<bar>x\<bar> \<le> \<bar>x * y\<bar>" for x y :: int
  using mult_left_mono[of 1 "\<bar>y\<bar>" "\<bar>x\<bar>"] by (simp add: abs_mult)

lemma abs_power_ge: "2 \<le> \<bar>x\<bar> \<Longrightarrow> 1 \<le> n \<Longrightarrow> 2 \<le> \<bar>x ^ n\<bar>" for x :: int
  using power_increasing[of 1 n "\<bar>x\<bar>"] by (simp add: power_abs)

lemma square_ge_two: "2 \<le> \<bar>x\<bar> \<Longrightarrow> 2 \<le> \<bar>x * x\<bar>" for x :: int
  using abs_power_ge[of x 2] by (simp add: power2_eq_square)

lemma power_halved:
  "x ^ e = (if odd e then x else 1) * (x * x) ^ (e div 2)" for x :: int
  by (cases "odd e") (auto elim!: evenE oddE simp: power_mult power2_eq_square)

lemma overflow_by_accumulator:
  assumes "\<not> in_i64 (x * y)" and "2 \<le> \<bar>y\<bar>" and "1 \<le> k"
  shows "\<not> in_i64 (x * (y * (y * y) ^ k))"
proof
  assume "in_i64 (x * (y * (y * y) ^ k))"
  then have "\<bar>x * y\<bar> * \<bar>(y * y) ^ k\<bar> \<le> 2 ^ 63"
    using in_i64_abs[of "x * (y * (y * y) ^ k)"] by (simp add: abs_mult mult.assoc)
  moreover have "2 ^ 63 * 2 \<le> \<bar>x * y\<bar> * \<bar>(y * y) ^ k\<bar>"
    using not_in_i64_abs[OF assms(1)] abs_power_ge[OF square_ge_two[OF assms(2)] assms(3)]
    by (intro mult_mono) auto
  ultimately show False by simp
qed

lemma overflow_by_square:
  assumes "\<not> in_i64 (y * y)" and "z \<noteq> 0" and "1 \<le> k"
  shows "\<not> in_i64 (z * (y * y) ^ k)"
proof
  assume "in_i64 (z * (y * y) ^ k)"
  then have le: "\<bar>(y * y) ^ k * z\<bar> \<le> 2 ^ 63"
    using in_i64_abs[of "z * (y * y) ^ k"] by (simp add: mult.commute)
  have big: "2 ^ 63 < y * y"
    using assms(1) by (rule square_not_in_i64)
  then have "y * y \<le> (y * y) ^ k"
    using power_increasing[of 1 k "y * y"] assms(3) by simp
  also have "\<dots> \<le> \<bar>(y * y) ^ k * z\<bar>"
    using abs_mult_grow[of z "(y * y) ^ k"] assms(2) by simp
  finally show False using le big by simp
qed

lemma checked_pow_loop_exact:
  assumes "1 \<le> e" and "2 \<le> \<bar>sint base\<bar>" and "acc \<noteq> 0"
  shows "checked_pow_loop base e acc =
    (let r = sint acc * sint base ^ e in if in_i64 r then Some (word_of_int r) else None)"
  using assms
proof (induction base e acc rule: checked_pow_loop.induct)
  case (1 base e acc)
  consider (last) "e = 1" | (acc) "1 < e" "odd e" "\<not> in_i64 (sint acc * sint base)"
    | (step) acc' where "1 < e"
        "(if odd e then checked_mul acc base else Some acc) = Some acc'"
        "sint acc' = sint acc * (if odd e then sint base else 1)"
    using "1.prems"(1) by (cases "checked_mul acc base"; cases "odd e"; cases "e = 1")
      (auto simp: checked_mul_None_iff checked_mul_Some_iff)
  then show ?case
  proof cases
    case last
    then show ?thesis by (simp add: checked_pow_loop.simps checked_mul_def Let_def)
  next
    case acc
    then show ?thesis
      using overflow_by_accumulator[of "sint acc" "sint base" "e div 2"] "1.prems"(2)
      by (simp add: checked_pow_loop.simps[of base] checked_mul_def Let_def
          power_halved[of "sint base" e])
  next
    case (step acc')
    have r: "sint acc * sint base ^ e = sint acc' * (sint base * sint base) ^ (e div 2)"
      by (simp add: step(3) power_halved[of "sint base" e] mult.assoc)
    have nz: "sint acc' \<noteq> 0"
      using step(3) "1.prems"(2,3) sint_eq_iff[of acc 0] by (auto split: if_splits)
    have one: "1 \<le> e div 2" and nz': "acc' \<noteq> 0"
      using step(1) nz by auto
    show ?thesis
    proof (cases "checked_mul base base")
      case None
      then have "\<not> in_i64 (sint acc' * (sint base * sint base) ^ (e div 2))"
        using step(1) nz by (intro overflow_by_square) (simp_all add: checked_mul_None_iff)
      then show ?thesis
        using step(1,2) None by (simp add: checked_pow_loop.simps[of base] Let_def r)
    next
      case (Some base')
      then have b': "sint base' = sint base * sint base"
        by (simp add: checked_mul_Some_iff)
      then show ?thesis
        using "1.IH"[of acc' base'] step Some one nz' square_ge_two[OF "1.prems"(2)]
        by (auto simp: checked_pow_loop.simps[of base] r)
    qed
  qed
qed

lemma checked_pow_exact:
  assumes "2 \<le> \<bar>sint base\<bar>"
  shows "checked_pow base e =
    (let r = sint base ^ e in if in_i64 r then Some (word_of_int r) else None)"
  using checked_pow_loop_exact[of e base 1] assms
  by (cases "e = 0") (simp_all add: checked_pow_def Let_def in_i64_def)

lemma huge_exponent_overflows:
  assumes "2 \<le> \<bar>x\<bar>" and "2 ^ 32 \<le> e"
  shows "\<not> in_i64 (x ^ nat e)"
proof
  assume "in_i64 (x ^ nat e)"
  then have "\<bar>x\<bar> ^ nat e \<le> 2 ^ 63"
    using in_i64_abs[of "x ^ nat e"] by (simp add: power_abs)
  moreover have "(2 :: int) ^ 64 \<le> \<bar>x\<bar> ^ 64"
    using assms(1) by (intro power_mono) auto
  moreover have "\<bar>x\<bar> ^ 64 \<le> \<bar>x\<bar> ^ nat e"
    using assms by (intro power_increasing) auto
  ultimately show False by simp
qed

section \<open>The machine operation is the exact one, or a trap\<close>

lemma narrow_i64_simps [simp]:
  "narrow_i64 (Ok x) = (if in_i64 x then Ok (word_of_int x) else Err Overflow)"
  "narrow_i64 (Err t) = Err t"
  by (simp_all add: narrow_i64_def)

lemma sdiv_shrinks: "2 \<le> \<bar>y\<bar> \<Longrightarrow> \<bar>x sdiv y\<bar> * 2 \<le> \<bar>x\<bar>" for x y :: int
proof -
  assume "2 \<le> \<bar>y\<bar>"
  then have "\<bar>x\<bar> div \<bar>y\<bar> \<le> \<bar>x\<bar> div 2"
    by (intro zdiv_mono2) auto
  moreover have "\<bar>x sdiv y\<bar> \<le> \<bar>x\<bar> div \<bar>y\<bar>"
    by (simp add: signed_divide_int_def abs_mult abs_sgn_eq pos_imp_zdiv_nonneg_iff)
  ultimately show ?thesis by linarith
qed

lemma sdiv_in_i64:
  assumes "in_i64 x" and "y \<noteq> 0"
  shows "in_i64 (x sdiv y) \<longleftrightarrow> \<not> (x = - (2 ^ 63) \<and> y = - 1)"
proof -
  consider "y = 1" | "y = - 1" | "2 \<le> \<bar>y\<bar>"
    using assms(2) by linarith
  then show ?thesis
  proof cases
    case 3
    then show ?thesis
      using sdiv_shrinks[OF 3, of x] in_i64_abs[OF assms(1)] by (auto simp: in_i64_def)
  qed (use assms(1) in \<open>auto simp: in_i64_def\<close>)
qed

lemma int_arith_div_exact:
  "int_arith_div a b = narrow_i64 (int_exact IntDiv (sint a) (sint b))"
  using sdiv_in_i64[of "sint a" "sint b"] sint_eq_iff[of b 0] sint_eq_iff[of b "- 1"]
  by (auto simp: int_arith_div_def checked_div_def int_exact_def)

lemma smod_in_i64:
  assumes "in_i64 y" and "y \<noteq> 0"
  shows "in_i64 (x smod y)"
  using smod_int_range[OF assms(2), of x] in_i64_abs[OF assms(1)] by (auto simp: in_i64_def)

lemma int_arith_rem_exact:
  "int_arith_rem a b = narrow_i64 (int_exact IntRem (sint a) (sint b))"
  using smod_in_i64[of "sint b" "sint a"] sint_eq_iff[of b 0]
  by (auto simp: int_arith_rem_def wrapping_rem_def int_exact_def)

lemma int_arith_pow_exact:
  "int_arith_pow a b = narrow_i64 (int_exact IntPow (sint a) (sint b))"
proof -
  have cases: "a = 0 \<or> a = 1 \<or> a = - 1 \<or> 2 \<le> \<bar>sint a\<bar>"
    using sint_eq_iff[of a 0] sint_eq_iff[of a 1] sint_eq_iff[of a "- 1"] by (auto simp: abs_if)
  then show ?thesis
    using huge_exponent_overflows[of "sint a" "sint b"] sint_eq_iff[of b 0]
    by (auto simp: int_arith_pow_def int_exact_def checked_pow_exact Let_def ok_or_def in_i64_def
        uminus_power_if even_nat_iff power_0_left)
qed

lemma int_arith_shl_exact:
  "int_arith_shl a b = rmap word_of_int (int_exact IntShl (sint a) (sint b))"
  by (simp add: int_arith_shl_def int_exact_def push_bit_eq_mult)

lemma int_arith_shr_exact:
  "int_arith_shr a b = narrow_i64 (int_exact IntShr (sint a) (sint b))"
proof -
  have "sint a div 2 ^ n = sint (signed_drop_bit n a)" for n
    by (simp add: sint_signed_drop_bit_eq drop_bit_eq_div)
  then show ?thesis
    by (simp add: int_arith_shr_def int_exact_def)
qed

lemma word_of_int_bitops:
  "(word_of_int (sint a AND sint b) :: i64) = a AND b"
  "(word_of_int (sint a OR sint b) :: i64) = a OR b"
  "(word_of_int (sint a XOR sint b) :: i64) = a XOR b"
  by (simp_all add: sint_bitops[symmetric])

lemma in_i64_bitops [simp]:
  "in_i64 (sint a AND sint b)" "in_i64 (sint a OR sint b)" "in_i64 (sint a XOR sint b)"
  for a b :: i64
  by (simp_all only: sint_bitops[symmetric] sint_in_i64)

text \<open>C18: exact or trap. Every binary \<open>int\<close> operator other than \<open>Shl\<close> computes the mathematical result of its
  signed operands (truncating division and remainder, power, flooring right shift, bitwise operators) when that
  result fits 64 bits, and otherwise traps: division and remainder by zero, a negative exponent, a
  shift count outside 0..63, and overflow in every other case. A left shift by 0..63 never traps: it is the
  product with the power of two modulo \<open>2 ^ 64\<close>, the bits shifted out being dropped.\<close>

theorem arith_int_refines:
  "arith_int op a b = fit_i64 op (int_exact op (sint a) (sint b))"
proof (cases op)
  case IntAdd
  then show ?thesis
    by (simp add: fit_i64_def arith_int_def int_arith_add_def checked_add_def int_exact_def)
next
  case IntSub
  then show ?thesis
    by (simp add: fit_i64_def arith_int_def int_arith_sub_def checked_sub_def int_exact_def)
next
  case IntMul
  then show ?thesis
    by (simp add: fit_i64_def arith_int_def int_arith_mul_def checked_mul_def int_exact_def)
qed (simp_all add: fit_i64_def arith_int_def int_arith_div_exact int_arith_rem_exact int_arith_pow_exact
    int_arith_shl_exact int_arith_shr_exact, simp_all add: int_exact_def word_of_int_bitops)

end
