(* ===== verification/Runtime_Value.thy ===== *)
theory Runtime_Value
  imports Coil_Prelude
begin

text \<open>
  Untagged runtime words, after \<^verbatim>\<open>common/src/value.rs\<close>, and the comparison operators of
  \<^verbatim>\<open>machine/src/arith.rs\<close>. A \<open>value\<close> is its 64 bits: an \<open>int\<close> is read with \<open>sint\<close>, a
  \<open>float\<close> by its IEEE 754 bit pattern, a \<open>bool\<close> by its low byte, a heap reference by the
  word with the low bit cleared. Comparisons go through \<open>partial_cmp\<close>, which for a float is
  computed on the bit pattern: no result when an operand is a NaN, and both zeros equal.
\<close>

unbundle bit_operations_syntax

type_synonym "value" = u64

section \<open>Boxing tags\<close>

datatype value_tag = TagInt | TagFloat | TagBool | TagString | TagEnum | TagInstance | TagTuple
  | TagArray | TagRecord | TagCoroutine | TagPtr | TagUnit | TagPolyFn

definition value_tag_u16 :: "value_tag \<Rightarrow> u16" where
  "value_tag_u16 t = (case t of TagInt \<Rightarrow> 0 | TagFloat \<Rightarrow> 1 | TagBool \<Rightarrow> 2 | TagString \<Rightarrow> 3
     | TagEnum \<Rightarrow> 4 | TagInstance \<Rightarrow> 5 | TagTuple \<Rightarrow> 6 | TagArray \<Rightarrow> 7 | TagRecord \<Rightarrow> 8
     | TagCoroutine \<Rightarrow> 9 | TagPtr \<Rightarrow> 10 | TagUnit \<Rightarrow> 11 | TagPolyFn \<Rightarrow> 12)"

definition value_tag_from_u16 :: "u16 \<Rightarrow> value_tag option" where
  "value_tag_from_u16 v = (if v = 0 then Some TagInt else if v = 1 then Some TagFloat
     else if v = 2 then Some TagBool else if v = 3 then Some TagString
     else if v = 4 then Some TagEnum else if v = 5 then Some TagInstance
     else if v = 6 then Some TagTuple else if v = 7 then Some TagArray
     else if v = 8 then Some TagRecord else if v = 9 then Some TagCoroutine
     else if v = 10 then Some TagPtr else if v = 11 then Some TagUnit
     else if v = 12 then Some TagPolyFn else None)"

definition stringify_operand :: "value_tag \<Rightarrow> u32" where
  "stringify_operand t = 1 + ucast (value_tag_u16 t)"

definition stringify_tag :: "u32 \<Rightarrow> value_tag option" where
  "stringify_tag operand =
     (if operand = 0 then None
      else (let raw = operand - 1 in
        if unat raw < 2 ^ 16 then value_tag_from_u16 (ucast raw) else None))"

section \<open>Words\<close>

definition as_int :: "value \<Rightarrow> i64" where
  "as_int v = v"

definition as_bool :: "value \<Rightarrow> bool" where
  "as_bool v \<longleftrightarrow> (ucast v :: u8) = 1"

definition from_int :: "i64 \<Rightarrow> value" where
  "from_int v = v"

definition from_bool :: "bool \<Rightarrow> value" where
  "from_bool b = (if b then 1 else 0)"

definition from_i32 :: "i32 \<Rightarrow> value" where
  "from_i32 v = scast v"

definition heap_addr :: "value \<Rightarrow> u64" where
  "heap_addr v = v AND NOT 1"

lemma as_int_from_int [simp]: "as_int (from_int v) = v"
  by (simp add: as_int_def from_int_def)

lemma as_bool_from_bool [simp]: "as_bool (from_bool b) = b"
  by (simp add: as_bool_def from_bool_def)

lemma value_tag_from_u16_u16 [simp]: "value_tag_from_u16 (value_tag_u16 t) = Some t"
  by (cases t) (simp_all add: value_tag_from_u16_def value_tag_u16_def)

lemma value_tag_from_u16_Some:
  "value_tag_from_u16 v = Some t \<longleftrightarrow> v = value_tag_u16 t"
  by (cases t) (auto simp: value_tag_from_u16_def value_tag_u16_def split: if_splits)

section \<open>Ordering\<close>

datatype ordering = Less | Equal | Greater

datatype cmp = CmpLt | CmpLe | CmpGt | CmpGe | CmpEq | CmpNe

definition arith_cmp :: "('a \<Rightarrow> 'a \<Rightarrow> ordering option) \<Rightarrow> cmp \<Rightarrow> 'a \<Rightarrow> 'a \<Rightarrow> bool" where
  "arith_cmp partial_cmp op a b = (case op of
     CmpLt \<Rightarrow> partial_cmp a b = Some Less
   | CmpLe \<Rightarrow> partial_cmp a b = Some Less \<or> partial_cmp a b = Some Equal
   | CmpGt \<Rightarrow> partial_cmp a b = Some Greater
   | CmpGe \<Rightarrow> partial_cmp a b = Some Greater \<or> partial_cmp a b = Some Equal
   | CmpEq \<Rightarrow> partial_cmp a b = Some Equal
   | CmpNe \<Rightarrow> partial_cmp a b \<noteq> Some Equal)"

definition compare_int :: "int \<Rightarrow> int \<Rightarrow> ordering" where
  "compare_int x y = (if x < y then Less else if x = y then Equal else Greater)"

definition i64_partial_cmp :: "i64 \<Rightarrow> i64 \<Rightarrow> ordering option" where
  "i64_partial_cmp a b = Some (compare_int (sint a) (sint b))"

definition i32_partial_cmp :: "i32 \<Rightarrow> i32 \<Rightarrow> ordering option" where
  "i32_partial_cmp a b = Some (compare_int (sint a) (sint b))"

text \<open>
  A binary64 pattern is a NaN when its exponent is all ones and its fraction is not zero.
  Other patterns are ordered by sign and magnitude; the two zeros have the same key.
\<close>

definition f64_is_nan :: "u64 \<Rightarrow> bool" where
  "f64_is_nan b \<longleftrightarrow> 0x7FF0000000000000 < take_bit 63 (uint b)"

definition f64_key :: "u64 \<Rightarrow> int" where
  "f64_key b = (if bit b 63 then - take_bit 63 (uint b) else take_bit 63 (uint b))"

definition f64_partial_cmp :: "u64 \<Rightarrow> u64 \<Rightarrow> ordering option" where
  "f64_partial_cmp a b =
     (if f64_is_nan a \<or> f64_is_nan b then None else Some (compare_int (f64_key a) (f64_key b)))"

definition f32_is_nan :: "u32 \<Rightarrow> bool" where
  "f32_is_nan b \<longleftrightarrow> 0x7F800000 < take_bit 31 (uint b)"

definition f32_key :: "u32 \<Rightarrow> int" where
  "f32_key b = (if bit b 31 then - take_bit 31 (uint b) else take_bit 31 (uint b))"

definition f32_partial_cmp :: "u32 \<Rightarrow> u32 \<Rightarrow> ordering option" where
  "f32_partial_cmp a b =
     (if f32_is_nan a \<or> f32_is_nan b then None else Some (compare_int (f32_key a) (f32_key b)))"

definition f64_neg :: "u64 \<Rightarrow> u64" where
  "f64_neg b = b XOR push_bit 63 1"

definition f64_eq :: "u64 \<Rightarrow> u64 \<Rightarrow> bool" where
  "f64_eq a b \<longleftrightarrow> arith_cmp f64_partial_cmp CmpEq a b"

lemma stringify_tag_operand: "stringify_tag (stringify_operand t) = Some t"
  by (cases t) (simp_all add: stringify_tag_def stringify_operand_def value_tag_from_u16_def
      value_tag_u16_def)

lemma stringify_tag_0: "stringify_tag 0 = None"
  by (simp add: stringify_tag_def)

lemma stringify_tag_SomeD:
  assumes "stringify_tag w = Some t"
  shows "w = stringify_operand t"
proof -
  have w: "w \<noteq> 0" "unat (w - 1) < 2 ^ 16" "(ucast (w - 1) :: u16) = value_tag_u16 t"
    using assms by (auto simp: stringify_tag_def Let_def value_tag_from_u16_Some split: if_splits)
  have "take_bit 16 (w - 1) = ucast (ucast (w - 1) :: u16)"
    by (rule bit_word_eqI) (auto simp: bit_simps)
  moreover have "take_bit 16 (w - 1) = w - 1"
    using w(2) by (metis take_bit_nat_eq_self unsigned_take_bit_eq word_unat_eq_iff)
  ultimately have "w - 1 = ucast (value_tag_u16 t)"
    using w(3) by simp
  then show ?thesis
    by (simp add: stringify_operand_def) (metis add.commute diff_add_cancel)
qed

text \<open>Boxing and stringify tags. The tag byte of every boxed type decodes to that type, the
  stringify operand of every type decodes to it and to nothing else, and operand 0 names no
  type.\<close>

theorem value_tags_roundtrip:
  "value_tag_from_u16 (value_tag_u16 t) = Some t
   \<and> (stringify_tag w = Some t \<longleftrightarrow> w = stringify_operand t)
   \<and> stringify_tag 0 = None"
  using stringify_tag_operand stringify_tag_SomeD by (auto simp: stringify_tag_0)

lemma f64_zeros_equal: "f64_partial_cmp 0 0x8000000000000000 = Some Equal"
  by (simp add: f64_partial_cmp_def f64_is_nan_def f64_key_def compare_int_def)

text \<open>Float order. On words that are not NaNs the six comparison operators are a total
  preorder with both zeros equal; with a NaN operand every operator is false except the
  inequality.\<close>

theorem f64_compare_ieee:
  "arith_cmp f64_partial_cmp op a b =
     (if f64_is_nan a \<or> f64_is_nan b then op = CmpNe
      else (case op of CmpLt \<Rightarrow> f64_key a < f64_key b | CmpLe \<Rightarrow> f64_key a \<le> f64_key b
        | CmpGt \<Rightarrow> f64_key b < f64_key a | CmpGe \<Rightarrow> f64_key b \<le> f64_key a
        | CmpEq \<Rightarrow> f64_key a = f64_key b | CmpNe \<Rightarrow> f64_key a \<noteq> f64_key b))
   \<and> f64_partial_cmp 0 0x8000000000000000 = Some Equal"
  by (rule conjI, cases op)
    (auto simp: f64_zeros_equal, auto simp: arith_cmp_def f64_partial_cmp_def compare_int_def
      split: if_splits)

end
