(* ===== verification/Value_Eq.thy ===== *)
theory Value_Eq
  imports Runtime_Value
begin

text \<open>
  Structural equality of runtime values, after \<^verbatim>\<open>machine/src/value_eq.rs\<close> and the fast path
  of \<^verbatim>\<open>machine/src/fused.rs\<close>. The heap is the part of it these functions read: the objects by
  address, and the span of addresses the slab has mapped. \<open>values_eq_rec\<close> walks two graphs
  while keeping a bijection of the addresses visited so far; it and \<open>flat_eq\<close> recurse along
  heap links, so they take fuel, and the theorems give the fuel that is enough.
\<close>

unbundle bit_operations_syntax

section \<open>Heap objects\<close>

datatype array_data = Bytes "u8 list" | Words "value list"

datatype member = MemberValue "value" | MemberObject u64

datatype object =
    ObjString "u8 list"
  | ObjInstance u32 "value list option"
  | ObjEnum u32 "value list"
  | ObjTuple "value list"
  | ObjArray array_data
  | ObjBoxed member
  | ObjOther u8

record heap =
  objects :: "(u64 \<times> object) list"
  slab_lo :: u64
  slab_hi :: u64

definition find_object_by_addr :: "heap \<Rightarrow> u64 \<Rightarrow> object option" where
  "find_object_by_addr h addr = (if addr = 0 then None else map_of (objects h) addr)"

definition may_be_ref :: "heap \<Rightarrow> value \<Rightarrow> bool" where
  "may_be_ref h v =
     (let addr = heap_addr v in addr \<noteq> 0 \<and> slab_lo h \<le> addr \<and> addr < slab_hi h)"

definition is_record_type_id :: "u32 \<Rightarrow> bool" where
  "is_record_type_id type_id \<longleftrightarrow>
     (0x8000 \<le> type_id \<and> type_id < 0xFF00) \<or> type_id = 0xFFFC \<or> type_id = 0xFFFB"

definition array_elems :: "array_data \<Rightarrow> value list" where
  "array_elems d = (case d of Bytes bs \<Rightarrow> map ucast bs | Words ws \<Rightarrow> ws)"

definition member_word :: "member \<Rightarrow> value" where
  "member_word m = (case m of MemberValue v \<Rightarrow> v | MemberObject addr \<Rightarrow> addr)"

definition record_slots ::
    "u32 \<times> value list option \<Rightarrow> u32 \<times> value list option \<Rightarrow> (value list \<times> value list) option" where
  "record_slots a b =
     (if \<not> is_record_type_id (fst a) \<or> \<not> is_record_type_id (fst b) then None
      else (case (snd a, snd b) of
          (Some sa, Some sb) \<Rightarrow> if length sa = length sb then Some (sa, sb) else None
        | _ \<Rightarrow> None))"

section \<open>The walk\<close>

text \<open>
  One arm of the match on two objects: either the answer, or the pairs of words whose
  equality decides it, in order.
\<close>

datatype eq_step = Decided bool | Children "(value \<times> value) list"

definition objects_step :: "object \<Rightarrow> object \<Rightarrow> eq_step" where
  "objects_step oa ob = (case (oa, ob) of
     (ObjArray da, ObjArray db) \<Rightarrow>
       (if length (array_elems da) \<noteq> length (array_elems db) then Decided False
        else (case (da, db) of
            (Bytes x, Bytes y) \<Rightarrow> Decided (x = y)
          | _ \<Rightarrow> Children (zip (array_elems da) (array_elems db))))
   | (ObjTuple ea, ObjTuple eb) \<Rightarrow>
       (if length ea \<noteq> length eb then Decided False else Children (zip ea eb))
   | (ObjString ga, ObjString gb) \<Rightarrow> Decided (ga = gb)
   | (ObjEnum ta pa, ObjEnum tb pb) \<Rightarrow>
       (if ta \<noteq> tb \<or> length pa \<noteq> length pb then Decided False else Children (zip pa pb))
   | (ObjBoxed ma, ObjBoxed mb) \<Rightarrow> Children [(member_word ma, member_word mb)]
   | (ObjInstance ia sa, ObjInstance ib sb) \<Rightarrow>
       (case record_slots (ia, sa) (ib, sb) of
          Some (xs, ys) \<Rightarrow> Children (zip xs ys)
        | None \<Rightarrow> Decided False)
   | _ \<Rightarrow> Decided False)"

type_synonym eq_maps = "(u64 \<rightharpoonup> u64) \<times> (u64 \<rightharpoonup> u64)"

fun values_eq_rec :: "nat \<Rightarrow> heap \<Rightarrow> value \<Rightarrow> value \<Rightarrow> eq_maps \<Rightarrow> (bool \<times> eq_maps) option"
  and values_eq_all :: "nat \<Rightarrow> heap \<Rightarrow> (value \<times> value) list \<Rightarrow> eq_maps \<Rightarrow> (bool \<times> eq_maps) option"
where
  "values_eq_rec 0 h a b st = None"
| "values_eq_rec (Suc n) h a b st =
     (if a = b then Some (True, st)
      else if a = 0 \<or> b = 0 then Some (False, st)
      else if a AND 1 \<noteq> b AND 1 then Some (False, st)
      else if a AND 1 \<noteq> 0 then values_eq_rec n h (a AND NOT 1) (b AND NOT 1) st
      else case fst st a of
        Some mapped \<Rightarrow> Some (mapped = b, st)
      | None \<Rightarrow> (case snd st b of
          Some mapped \<Rightarrow> Some (mapped = a, st)
        | None \<Rightarrow>
            (let st' = ((fst st)(a \<mapsto> b), (snd st)(b \<mapsto> a)) in
             case find_object_by_addr h a of
               None \<Rightarrow> Some (False, st')
             | Some oa \<Rightarrow> (case find_object_by_addr h b of
                 None \<Rightarrow> Some (False, st')
               | Some ob \<Rightarrow> (case objects_step oa ob of
                   Decided r \<Rightarrow> Some (r, st')
                 | Children ps \<Rightarrow> values_eq_all n h ps st')))))"
| "values_eq_all n h [] st = Some (True, st)"
| "values_eq_all n h (p # ps) st =
     (case values_eq_rec n h (fst p) (snd p) st of
        None \<Rightarrow> None
      | Some (False, st') \<Rightarrow> Some (False, st')
      | Some (True, st') \<Rightarrow> values_eq_all n h ps st')"

text \<open>
  \<open>flat_eq\<close> answers without the maps; \<open>None\<close> inside the result asks for the full walk, the
  outer \<open>None\<close> is exhausted fuel.
\<close>

fun flat_eq :: "nat \<Rightarrow> heap \<Rightarrow> value \<Rightarrow> value \<Rightarrow> bool option option" where
  "flat_eq 0 h a b = None"
| "flat_eq (Suc n) h a b =
     (if a = b then Some (Some True)
      else if a = 0 \<or> b = 0 \<or> a AND 1 \<noteq> b AND 1 then Some (Some False)
      else if a AND 1 \<noteq> 0 then flat_eq n h (a AND NOT 1) (b AND NOT 1)
      else (case (find_object_by_addr h a, find_object_by_addr h b) of
          (Some oa, Some ob) \<Rightarrow>
            (case (oa, ob) of
               (ObjString ga, ObjString gb) \<Rightarrow> Some (Some (ga = gb))
             | (ObjEnum ta pa, ObjEnum tb pb) \<Rightarrow>
                 (if ta \<noteq> tb \<or> length pa \<noteq> length pb then Some (Some False)
                  else (case (pa, pb) of
                      ([], _) \<Rightarrow> Some (Some True)
                    | ([x], [y]) \<Rightarrow> flat_eq n h x y
                    | _ \<Rightarrow> Some None))
             | (ObjArray _, _) \<Rightarrow> Some None
             | (ObjTuple _, _) \<Rightarrow> Some None
             | (ObjBoxed _, _) \<Rightarrow> Some None
             | (ObjInstance ia sa, ObjInstance ib sb) \<Rightarrow>
                 (if record_slots (ia, sa) (ib, sb) \<noteq> None then Some None else Some (Some False))
             | _ \<Rightarrow> Some (Some False))
        | _ \<Rightarrow> Some (Some False)))"

definition walk_fuel :: "heap \<Rightarrow> nat" where
  "walk_fuel h = 2 * length (objects h) + 2"

definition values_eq :: "heap \<Rightarrow> value \<Rightarrow> value \<Rightarrow> bool option" where
  "values_eq h a b = (case flat_eq (walk_fuel h) h a b of
     None \<Rightarrow> None
   | Some (Some eq) \<Rightarrow> Some eq
   | Some None \<Rightarrow>
       map_option fst (values_eq_rec (walk_fuel h) h a b (Map.empty, Map.empty)))"

definition eq_values :: "heap \<Rightarrow> value \<Rightarrow> value \<Rightarrow> bool option" where
  "eq_values h lhs rhs =
     (if lhs = rhs then Some True
      else if \<not> may_be_ref h lhs \<or> \<not> may_be_ref h rhs then Some False
      else values_eq h lhs rhs)"

section \<open>Isomorphic heap graphs\<close>

text \<open>
  Two words are related when they are the same word, or both reference objects (with the same
  \<open>Err\<close> tag bit) that are paired. A set of address pairs is an isomorphism of heap graphs when
  it is one-to-one and the objects of every pair match with their children related.
\<close>

definition related :: "(u64 \<times> u64) set \<Rightarrow> value \<Rightarrow> value \<Rightarrow> bool" where
  "related R a b \<longleftrightarrow> a = b
     \<or> (a \<noteq> 0 \<and> b \<noteq> 0 \<and> a AND 1 = b AND 1 \<and> (a AND NOT 1, b AND NOT 1) \<in> R)"

definition objects_match :: "(u64 \<times> u64) set \<Rightarrow> object \<Rightarrow> object \<Rightarrow> bool" where
  "objects_match R oa ob \<longleftrightarrow> (case objects_step oa ob of
     Decided r \<Rightarrow> r | Children ps \<Rightarrow> \<forall>p \<in> set ps. related R (fst p) (snd p))"

definition node_ok :: "heap \<Rightarrow> (u64 \<times> u64) set \<Rightarrow> u64 \<Rightarrow> u64 \<Rightarrow> bool" where
  "node_ok h R x y \<longleftrightarrow> (\<exists>oa ob. find_object_by_addr h x = Some oa
     \<and> find_object_by_addr h y = Some ob \<and> objects_match R oa ob)"

definition heap_isomorphism :: "heap \<Rightarrow> (u64 \<times> u64) set \<Rightarrow> bool" where
  "heap_isomorphism h R \<longleftrightarrow> single_valued R \<and> single_valued (R\<inverse>) \<and> (\<forall>p \<in> R. node_ok h R (fst p) (snd p))"

lemma related_mono: "related R a b \<Longrightarrow> R \<subseteq> S \<Longrightarrow> related S a b"
  by (auto simp: related_def)

lemma objects_match_mono: "objects_match R oa ob \<Longrightarrow> R \<subseteq> S \<Longrightarrow> objects_match S oa ob"
  by (auto simp: objects_match_def intro: related_mono split: eq_step.splits)

lemma node_ok_mono: "node_ok h R x y \<Longrightarrow> R \<subseteq> S \<Longrightarrow> node_ok h S x y"
  by (auto simp: node_ok_def dest: objects_match_mono)

lemma untag_even: "(a :: u64) AND 1 = 0 \<Longrightarrow> a AND - 2 = a"
proof -
  assume "a AND 1 = 0"
  moreover have "a = (a AND 1) OR (a AND NOT 1)"
    by (simp only: bit.conj_disj_distrib[symmetric] bit.disj_cancel_right bit.conj_one_right)
  ultimately show ?thesis by simp
qed

lemma untag_untag [simp]: "(a AND - 2) AND - 2 = (a AND - 2 :: u64)"
  by (simp add: and.assoc)

lemma untag_even' [simp]: "(a AND - 2) AND 1 = (0 :: u64)"
  by (simp add: and.assoc)

lemma untag_inj:
  assumes "a AND 1 = (b AND 1 :: u64)" and "a AND - 2 = b AND - 2"
  shows "a = b"
proof -
  have "x = (x AND 1) OR (x AND NOT 1)" for x :: u64
    by (simp only: bit.conj_disj_distrib[symmetric] bit.disj_cancel_right bit.conj_one_right)
  then have "x = (x AND 1) OR (x AND - 2)" for x :: u64
    by simp
  then show ?thesis using assms by metis
qed

lemma find_object_zero [simp]: "find_object_by_addr h 0 = None"
  by (simp add: find_object_by_addr_def)

subsection \<open>What the walk has checked when it says yes\<close>

definition inverse_maps :: "eq_maps \<Rightarrow> bool" where
  "inverse_maps st \<longleftrightarrow> (\<forall>x y. fst st x = Some y \<longleftrightarrow> snd st y = Some x)"

text \<open>The pairs added since \<open>st\<close> are matched within the pairs of \<open>st'\<close>.\<close>

definition extends :: "heap \<Rightarrow> eq_maps \<Rightarrow> eq_maps \<Rightarrow> bool" where
  "extends h st st' \<longleftrightarrow> fst st \<subseteq>\<^sub>m fst st' \<and> inverse_maps st'
     \<and> (\<forall>x y. fst st' x = Some y \<longrightarrow> fst st x = None \<longrightarrow> node_ok h (Map.graph (fst st')) x y)"

lemma graph_mono: "f \<subseteq>\<^sub>m g \<Longrightarrow> Map.graph f \<subseteq> Map.graph g"
  by (auto simp: map_le_def Map.graph_def dom_def)

lemma extends_refl: "inverse_maps st \<Longrightarrow> extends h st st"
  by (simp add: extends_def)

lemma extends_trans:
  assumes "extends h st st'" and "extends h st' st''"
  shows "extends h st st''"
proof -
  have sub: "Map.graph (fst st') \<subseteq> Map.graph (fst st'')"
    using assms(2) by (simp add: extends_def graph_mono)
  have "node_ok h (Map.graph (fst st'')) x y" if "fst st'' x = Some y" "fst st x = None" for x y
  proof (cases "fst st' x")
    case None
    then show ?thesis using assms(2) that by (simp add: extends_def)
  next
    case (Some z)
    then have "z = y"
      using assms(2) that by (auto simp: extends_def map_le_def dom_def)
    then show ?thesis
      using assms(1) Some that sub by (auto simp: extends_def intro: node_ok_mono)
  qed
  then show ?thesis
    using assms by (auto simp: extends_def intro: map_le_trans)
qed

lemma inverse_maps_insert:
  "inverse_maps st \<Longrightarrow> fst st a = None \<Longrightarrow> snd st b = None \<Longrightarrow>
     inverse_maps ((fst st)(a \<mapsto> b), (snd st)(b \<mapsto> a))"
  by (auto simp: inverse_maps_def) (metis option.distinct(1))+

lemma graph_insert:
  "f a = None \<Longrightarrow> Map.graph (f(a \<mapsto> b)) = insert (a, b) (Map.graph f)"
  by (auto simp: Map.graph_def split: if_splits)

text \<open>The new pair of an object whose children the walk accepted.\<close>

lemma extends_node:
  assumes "inverse_maps st" and "fst st a = None" and "snd st b = None"
    and "extends h ((fst st)(a \<mapsto> b), (snd st)(b \<mapsto> a)) st'"
    and "node_ok h (Map.graph (fst st')) a b"
  shows "extends h st st'"
proof -
  let ?st = "((fst st)(a \<mapsto> b), (snd st)(b \<mapsto> a))"
  have le: "fst ?st \<subseteq>\<^sub>m fst st'"
    using assms(4) by (simp add: extends_def)
  have ab: "fst st' a = Some b"
    using le by (auto simp: map_le_def dom_def)
  have "fst st \<subseteq>\<^sub>m fst st'"
    using le assms(2) by (auto simp: map_le_def dom_def)
  moreover have "node_ok h (Map.graph (fst st')) x y"
    if "fst st' x = Some y" "fst st x = None" for x y
    using that assms(4,5) ab by (cases "x = a") (auto simp: extends_def)
  ultimately show ?thesis
    using assms(4) by (simp add: extends_def)
qed

definition accepts :: "heap \<Rightarrow> eq_maps \<Rightarrow> (value \<times> value) set \<Rightarrow> eq_maps \<Rightarrow> bool" where
  "accepts h st ps st' \<longleftrightarrow> extends h st st' \<and> (\<forall>p \<in> ps. related (Map.graph (fst st')) (fst p) (snd p))"

lemma values_eq_all_accepts:
  assumes "\<And>a b st st'. inverse_maps st \<Longrightarrow> values_eq_rec n h a b st = Some (True, st') \<Longrightarrow>
      accepts h st {(a, b)} st'"
    and "inverse_maps st" and "values_eq_all n h ps st = Some (True, st')"
  shows "accepts h st (set ps) st'"
  using assms(2,3)
proof (induction ps arbitrary: st)
  case Nil
  then show ?case by (simp add: accepts_def extends_refl)
next
  case (Cons p ps)
  obtain st1 where 1: "values_eq_rec n h (fst p) (snd p) st = Some (True, st1)"
    and 2: "values_eq_all n h ps st1 = Some (True, st')"
    using Cons.prems(2) by (auto split: option.splits bool.splits prod.splits)
  have a1: "accepts h st {p} st1"
    using assms(1)[OF Cons.prems(1) 1] by simp
  then have "inverse_maps st1"
    by (simp add: accepts_def extends_def)
  then have a2: "accepts h st1 (set ps) st'"
    using Cons.IH 2 by blast
  have "Map.graph (fst st1) \<subseteq> Map.graph (fst st')"
    using a2 by (simp add: accepts_def extends_def graph_mono)
  then show ?case
    using a1 a2 by (auto simp: accepts_def intro: extends_trans related_mono)
qed

lemma values_eq_rec_accepts:
  "inverse_maps st \<Longrightarrow> values_eq_rec n h a b st = Some (True, st') \<Longrightarrow> accepts h st {(a, b)} st'"
proof (induction n arbitrary: a b st st')
  case 0
  then show ?case by simp
next
  case (Suc n)
  note inv = Suc.prems(1)
  have mirror: "fst st a = Some b" if "snd st b = Some a"
    using inv that by (simp add: inverse_maps_def)
  consider (same) "a = b" "st' = st"
    | (err) "a \<noteq> b" "a \<noteq> 0" "b \<noteq> 0" "a AND 1 = b AND 1"
        "values_eq_rec n h (a AND NOT 1) (b AND NOT 1) st = Some (True, st')"
    | (seen) "a \<noteq> 0" "b \<noteq> 0" "a AND 1 = 0" "b AND 1 = 0" "fst st a = Some b" "st' = st"
    | (node) oa ob where "a \<noteq> 0" "b \<noteq> 0" "a AND 1 = 0" "b AND 1 = 0" "fst st a = None"
        "snd st b = None" "find_object_by_addr h a = Some oa" "find_object_by_addr h b = Some ob"
        "case objects_step oa ob of
           Decided r \<Rightarrow> r \<and> st' = ((fst st)(a \<mapsto> b), (snd st)(b \<mapsto> a))
         | Children ps \<Rightarrow> values_eq_all n h ps ((fst st)(a \<mapsto> b), (snd st)(b \<mapsto> a)) = Some (True, st')"
    using Suc.prems(2) mirror
    by (auto simp: Let_def split: if_splits option.splits eq_step.splits)
  then show ?case
  proof cases
    case same
    then show ?thesis using inv by (simp add: accepts_def extends_refl related_def)
  next
    case err
    then show ?thesis
      using Suc.IH[OF inv err(5)] untag_inj[of a b]
      by (auto simp: accepts_def related_def)
  next
    case seen
    then show ?thesis
      using inv by (simp add: accepts_def extends_refl related_def untag_even Map.graph_def)
  next
    case node
    let ?st = "((fst st)(a \<mapsto> b), (snd st)(b \<mapsto> a))"
    have inv': "inverse_maps ?st"
      using inv node by (simp add: inverse_maps_insert)
    have ext: "extends h ?st st'" and ok: "node_ok h (Map.graph (fst st')) a b"
      using node values_eq_all_accepts[OF Suc.IH inv']
      by (auto simp: node_ok_def objects_match_def accepts_def extends_refl[OF inv']
          split: eq_step.splits)
    then have "fst st' a = Some b"
      by (auto simp: extends_def map_le_def dom_def)
    then show ?thesis
      using extends_node[OF inv node(5,6) ext ok] node
      by (simp add: accepts_def related_def untag_even Map.graph_def)
  qed
qed

subsection \<open>The walk accepts every isomorphism\<close>

definition within :: "(u64 \<times> u64) set \<Rightarrow> eq_maps \<Rightarrow> bool" where
  "within R st \<longleftrightarrow> inverse_maps st \<and> Map.graph (fst st) \<subseteq> R"

lemma isomorphism_nodeD:
  assumes "heap_isomorphism h R" and "(x, y) \<in> R"
  obtains oa ob where "find_object_by_addr h x = Some oa" "find_object_by_addr h y = Some ob"
    "objects_match R oa ob" "x \<noteq> 0" "y \<noteq> 0"
proof -
  have "node_ok h R x y"
    using assms by (force simp: heap_isomorphism_def)
  then show ?thesis
    using that by (force simp: node_ok_def)
qed

lemma values_eq_all_complete:
  assumes "\<And>a b st r st'. related R a b \<Longrightarrow> within R st \<Longrightarrow>
      values_eq_rec n h a b st = Some (r, st') \<Longrightarrow> r \<and> within R st'"
    and "\<forall>p \<in> set ps. related R (fst p) (snd p)" and "within R st"
    and "values_eq_all n h ps st = Some (r, st')"
  shows "r \<and> within R st'"
  using assms(2-)
proof (induction ps arbitrary: st)
  case Nil
  then show ?case by simp
next
  case (Cons p ps)
  obtain r1 st1 where 1: "values_eq_rec n h (fst p) (snd p) st = Some (r1, st1)"
    using Cons.prems(3) by (auto split: option.splits)
  then have w: "r1" "within R st1"
    using assms(1)[OF _ Cons.prems(2) 1] Cons.prems(1) by simp_all
  then have "values_eq_all n h ps st1 = Some (r, st')"
    using Cons.prems(3) 1 by simp
  then show ?case
    using Cons.IH[OF _ w(2)] Cons.prems(1) by simp
qed

lemma values_eq_rec_complete:
  assumes iso: "heap_isomorphism h R"
  shows "related R a b \<Longrightarrow> within R st \<Longrightarrow> values_eq_rec n h a b st = Some (r, st') \<Longrightarrow>
    r \<and> within R st'"
proof (induction n arbitrary: a b st r st')
  case 0
  then show ?case by simp
next
  case (Suc n)
  show ?case
  proof (cases "a = b")
    case True
    then show ?thesis using Suc.prems by simp
  next
    case False
    then have ab: "a \<noteq> 0" "b \<noteq> 0" "a AND 1 = b AND 1" "(a AND - 2, b AND - 2) \<in> R"
      using Suc.prems(1) by (auto simp: related_def)
    from iso ab(4) obtain oa ob where
      o: "find_object_by_addr h (a AND - 2) = Some oa" "find_object_by_addr h (b AND - 2) = Some ob"
        "objects_match R oa ob" "a AND - 2 \<noteq> 0" "b AND - 2 \<noteq> 0"
      by (rule isomorphism_nodeD)
    show ?thesis
    proof (cases "a AND 1 = 0")
      case False
      have "related R (a AND - 2) (b AND - 2)"
        using ab o by (simp add: related_def)
      moreover have "values_eq_rec n h (a AND - 2) (b AND - 2) st = Some (r, st')"
        using Suc.prems(3) \<open>a \<noteq> b\<close> False ab by simp
      ultimately show ?thesis
        using Suc.IH Suc.prems(2) by blast
    next
      case True
      then have even: "a AND - 2 = a" "b AND - 2 = b"
        using ab(3) by (simp_all add: untag_even)
      have fwd: "fst st a = Some m \<Longrightarrow> m = b" for m
        using Suc.prems(2) ab(4) iso even
        by (auto simp: within_def Map.graph_def heap_isomorphism_def single_valued_def)
      have rev: "snd st b = Some m \<Longrightarrow> m = a" for m
      proof -
        assume "snd st b = Some m"
        then have "(m, b) \<in> R"
          using Suc.prems(2) by (auto simp: within_def inverse_maps_def Map.graph_def)
        then show "m = a"
          using ab(4) iso even by (auto simp: heap_isomorphism_def single_valued_def)
      qed
      let ?st = "((fst st)(a \<mapsto> b), (snd st)(b \<mapsto> a))"
      have new: "within R ?st" if "fst st a = None" "snd st b = None"
        using Suc.prems(2) ab(4) even that by (auto simp: within_def inverse_maps_insert graph_insert simp del: graph_map_upd)
      have all: "r \<and> within R st'" if "values_eq_all n h ps ?st = Some (r, st')"
        "objects_step oa ob = Children ps" "fst st a = None" "snd st b = None" for ps
      proof (rule values_eq_all_complete[OF Suc.IH])
        show "\<forall>p \<in> set ps. related R (fst p) (snd p)"
          using o(3) that(2) by (simp add: objects_match_def)
      qed (use that new in auto)
      show ?thesis
        using Suc.prems(2,3) \<open>a \<noteq> b\<close> ab True o even fwd rev all new
        by (auto simp: objects_match_def Let_def split: option.splits eq_step.splits)
    qed
  qed
qed

subsection \<open>The walk ends\<close>

definition unseen :: "heap \<Rightarrow> eq_maps \<Rightarrow> nat" where
  "unseen h st = card (fst ` set (objects h) - dom (fst st))"

lemma unseen_mono: "dom (fst st) \<subseteq> dom (fst st') \<Longrightarrow> unseen h st' \<le> unseen h st"
  unfolding unseen_def by (intro card_mono) auto

lemma unseen_insert:
  assumes "find_object_by_addr h a = Some oa" and "fst st a = None"
  shows "Suc (unseen h ((fst st)(a \<mapsto> b), s)) = unseen h st"
proof -
  have "a \<in> fst ` set (objects h)"
    using assms(1) by (auto simp: find_object_by_addr_def weak_map_of_SomeI dom_map_of_conv_image_fst[symmetric]
        split: if_splits)
  then have "a \<in> fst ` set (objects h) - dom (fst st)"
    using assms(2) by auto
  moreover have "fst ` set (objects h) - dom ((fst st)(a \<mapsto> b)) =
      fst ` set (objects h) - dom (fst st) - {a}"
    by auto
  ultimately show ?thesis
    unfolding unseen_def fst_conv by (metis List.finite_set card_Suc_Diff1 finite_Diff finite_imageI)
qed

lemma values_eq_all_dom_grows:
  assumes "\<And>a b st r st'. values_eq_rec n h a b st = Some (r, st') \<Longrightarrow> dom (fst st) \<subseteq> dom (fst st')"
    and "values_eq_all n h ps st = Some (r, st')"
  shows "dom (fst st) \<subseteq> dom (fst st')"
  using assms(2)
proof (induction ps arbitrary: st)
  case (Cons p ps)
  obtain r1 st1 where 1: "values_eq_rec n h (fst p) (snd p) st = Some (r1, st1)"
    using Cons.prems by (auto split: option.splits)
  have "dom (fst st1) \<subseteq> dom (fst st')"
    using Cons.prems Cons.IH[of st1] 1 by (cases r1) simp_all
  then show ?case
    using assms(1)[OF 1] by blast
qed simp

lemma values_eq_rec_dom_grows:
  "values_eq_rec n h a b st = Some (r, st') \<Longrightarrow> dom (fst st) \<subseteq> dom (fst st')"
proof (induction n arbitrary: a b st r st')
  case (Suc n)
  have all: "dom (fst st) \<subseteq> dom (fst st')"
    if "values_eq_all n h ps ((fst st)(a \<mapsto> b), (snd st)(b \<mapsto> a)) = Some (r, st')" for ps
    using values_eq_all_dom_grows[OF Suc.IH that] by auto
  show ?case
    using Suc.prems Suc.IH all
    by (auto simp: Let_def split: if_splits option.splits eq_step.splits)
qed simp

lemma values_eq_all_returns:
  assumes "\<And>a b st. 2 * unseen h st + 2 \<le> n \<Longrightarrow> values_eq_rec n h a b st \<noteq> None"
    and "2 * unseen h st + 2 \<le> n"
  shows "values_eq_all n h ps st \<noteq> None"
  using assms(2)
proof (induction ps arbitrary: st)
  case (Cons p ps)
  obtain r st1 where 1: "values_eq_rec n h (fst p) (snd p) st = Some (r, st1)"
    using assms(1)[OF Cons.prems] by fastforce
  then have "2 * unseen h st1 + 2 \<le> n"
    using unseen_mono[OF values_eq_rec_dom_grows[OF 1], of h] Cons.prems by linarith
  then show ?case
    using Cons.IH 1 by (auto split: bool.splits)
qed simp

lemma values_eq_rec_returns:
  "2 * unseen h st + (if a AND 1 = 0 then 1 else 2) \<le> n \<Longrightarrow> values_eq_rec n h a b st \<noteq> None"
proof (induction n arbitrary: a b st)
  case 0
  then show ?case by (simp split: if_splits)
next
  case (Suc n)
  have untag: "values_eq_rec n h (a AND - 2) (b AND - 2) st \<noteq> None" if "a AND 1 \<noteq> 0"
    using Suc.IH[of st "a AND - 2"] Suc.prems that by simp
  have all: "values_eq_all n h ps ((fst st)(a \<mapsto> b), (snd st)(b \<mapsto> a)) \<noteq> None"
    if "find_object_by_addr h a = Some oa" "fst st a = None" for ps oa
  proof (rule values_eq_all_returns)
    show "values_eq_rec n h x y s \<noteq> None" if "2 * unseen h s + 2 \<le> n" for x y s
      using Suc.IH[of s x y] that by simp
    show "2 * unseen h ((fst st)(a \<mapsto> b), (snd st)(b \<mapsto> a)) + 2 \<le> n"
      using unseen_insert[of h a _ st b "(snd st)(b \<mapsto> a)"] that Suc.prems by (auto split: if_splits)
  qed
  show ?case
    using untag all
    by (auto simp: Let_def simp del: not_None_eq split: option.splits eq_step.splits)
qed

subsection \<open>The walk decides isomorphism\<close>

definition isomorphic :: "heap \<Rightarrow> value \<Rightarrow> value \<Rightarrow> bool" where
  "isomorphic h a b \<longleftrightarrow> (\<exists>R. heap_isomorphism h R \<and> related R a b)"

lemma inverse_maps_graph:
  assumes "inverse_maps st"
  shows "single_valued (Map.graph (fst st))" "single_valued ((Map.graph (fst st))\<inverse>)"
  using assms by (auto simp: single_valued_def Map.graph_def inverse_maps_def) (metis option.inject)

lemma walk_decides:
  assumes "values_eq_rec n h a b (Map.empty, Map.empty) = Some (r, st')"
  shows "r \<longleftrightarrow> isomorphic h a b"
proof
  have inv: "inverse_maps (Map.empty, Map.empty)"
    by (simp add: inverse_maps_def)
  assume r
  then have "accepts h (Map.empty, Map.empty) {(a, b)} st'"
    using assms values_eq_rec_accepts[OF inv] by simp
  then have "heap_isomorphism h (Map.graph (fst st'))" "related (Map.graph (fst st')) a b"
    using inverse_maps_graph[of st']
    by (auto simp: accepts_def extends_def heap_isomorphism_def Map.graph_def)
  then show "isomorphic h a b"
    by (auto simp: isomorphic_def)
next
  assume "isomorphic h a b"
  then obtain R where "heap_isomorphism h R" "related R a b"
    by (auto simp: isomorphic_def)
  then show r
    using values_eq_rec_complete[OF _ _ _ assms] by (simp add: within_def inverse_maps_def)
qed

lemma walk_returns: "\<exists>r st'. values_eq_rec (walk_fuel h) h a b (Map.empty, Map.empty) = Some (r, st')"
proof -
  have "unseen h (Map.empty, Map.empty) \<le> length (objects h)"
    by (simp add: unseen_def) (metis card_image_le card_length order_trans List.finite_set)
  then have "values_eq_rec (walk_fuel h) h a b (Map.empty, Map.empty) \<noteq> None"
    by (intro values_eq_rec_returns) (simp add: walk_fuel_def)
  then show ?thesis by auto
qed

text \<open>
  Enum values are built from values that already exist and are never written, so the chains
  that \<open>flat_eq\<close> follows descend: some rank of addresses falls along every one-word payload.
\<close>

definition enum_ranked :: "heap \<Rightarrow> (u64 \<Rightarrow> nat) \<Rightarrow> bool" where
  "enum_ranked h rank \<longleftrightarrow> (\<forall>a t x. find_object_by_addr h a = Some (ObjEnum t [x]) \<longrightarrow>
     rank (x AND NOT 1) < rank a)"

text \<open>The maps of a walk that has gone through addresses of higher rank only.\<close>

definition above :: "(u64 \<Rightarrow> nat) \<Rightarrow> nat \<Rightarrow> nat \<Rightarrow> eq_maps \<Rightarrow> bool" where
  "above rank k l st \<longleftrightarrow> (\<forall>x \<in> dom (fst st). k < rank x) \<and> (\<forall>y \<in> dom (snd st). l < rank y)"

lemma above_fresh:
  "above rank (rank a) (rank b) st \<Longrightarrow> fst st a = None \<and> snd st b = None"
  by (auto simp: above_def dom_def)

lemma above_insert:
  assumes "above rank (rank a) (rank b) st" and "k < rank a" and "l < rank b"
  shows "above rank k l ((fst st)(a \<mapsto> b), (snd st)(b \<mapsto> a))"
  using assms unfolding above_def by (auto dest: order_less_trans)

lemma flat_eq_step:
  assumes "flat_eq (Suc n) h a b = Some (Some r)"
    and "a \<noteq> b" "a \<noteq> 0" "b \<noteq> 0" "a AND 1 = 0" "b AND 1 = 0"
    and "find_object_by_addr h a = Some oa" "find_object_by_addr h b = Some ob"
  shows "objects_step oa ob = Decided r \<or> (objects_step oa ob = Children [] \<and> r)
    \<or> (\<exists>t x y. oa = ObjEnum t [x] \<and> ob = ObjEnum t [y] \<and> objects_step oa ob = Children [(x, y)]
         \<and> flat_eq n h x y = Some (Some r))"
  using assms
  by (cases oa; cases ob) (auto simp: objects_step_def length_Suc_conv split: if_splits list.splits option.splits)

lemma flat_eq_walk:
  assumes ranked: "enum_ranked h rank"
  shows "flat_eq n h a b = Some (Some r) \<Longrightarrow>
    above rank (rank (a AND - 2)) (rank (b AND - 2)) st \<Longrightarrow>
    \<exists>st'. values_eq_rec n h a b st = Some (r, st')"
proof (induction n arbitrary: a b r st)
  case 0
  then show ?case by simp
next
  case (Suc n)
  show ?case
  proof (cases "a = b \<or> a = 0 \<or> b = 0 \<or> a AND 1 \<noteq> b AND 1 \<or> a AND 1 \<noteq> 0")
    case True
    then show ?thesis
      using Suc by (auto split: if_splits)
  next
    case False
    then have even: "a AND - 2 = a" "b AND - 2 = b" and bits: "a AND 1 = 0" "b AND 1 = 0"
      by (simp_all add: untag_even)
    then have fresh: "fst st a = None" "snd st b = None"
      using Suc.prems(2) above_fresh[of rank a b st] by simp_all
    show ?thesis
    proof (cases "find_object_by_addr h a = None \<or> find_object_by_addr h b = None")
      case True
      then show ?thesis
        using Suc.prems(1) False fresh by (auto simp: Let_def split: option.splits)
    next
      case found: False
      then obtain oa ob where o: "find_object_by_addr h a = Some oa" "find_object_by_addr h b = Some ob"
        by auto
      let ?st = "((fst st)(a \<mapsto> b), (snd st)(b \<mapsto> a))"
      have chain: "\<exists>st'. values_eq_rec n h x y ?st = Some (r, st')"
        if "oa = ObjEnum t [x]" "ob = ObjEnum t [y]" "flat_eq n h x y = Some (Some r)" for t x y
      proof (rule Suc.IH[OF that(3)])
        show "above rank (rank (x AND - 2)) (rank (y AND - 2)) ?st"
          using Suc.prems(2) ranked o that(1,2) even by (intro above_insert) (auto simp: enum_ranked_def)
      qed
      show ?thesis
        using flat_eq_step[OF Suc.prems(1) _ _ _ bits o] False o fresh chain
        by (fastforce simp: Let_def split: bool.splits)
    qed
  qed
qed

subsection \<open>The flat test ends\<close>

definition below :: "heap \<Rightarrow> (u64 \<Rightarrow> nat) \<Rightarrow> value \<Rightarrow> nat" where
  "below h rank a = card {x \<in> fst ` set (objects h). rank x < rank (a AND NOT 1)}"

lemma below_less:
  assumes "find_object_by_addr h (x AND - 2) \<noteq> None" and "rank (x AND - 2) < rank (a AND - 2)"
  shows "below h rank x < below h rank a"
proof -
  have "x AND - 2 \<in> fst ` set (objects h)"
    using assms(1) by (auto simp: find_object_by_addr_def dom_map_of_conv_image_fst[symmetric]
        split: if_splits)
  then show ?thesis
    using assms(2) unfolding below_def by (intro psubset_card_mono) auto
qed

lemma flat_eq_untag:
  "a AND 1 \<noteq> 0 \<Longrightarrow> flat_eq n h (a AND - 2) (b AND - 2) \<noteq> None \<Longrightarrow> flat_eq (Suc n) h a b \<noteq> None"
  by (simp del: not_None_eq)

lemma flat_eq_missing:
  assumes "find_object_by_addr h (a AND - 2) = None"
  shows "flat_eq (Suc (Suc n)) h a b \<noteq> None"
proof (cases "a AND 1 = 0")
  case True
  then show ?thesis
    using assms by (simp add: untag_even del: not_None_eq)
next
  case False
  then show ?thesis
    using assms by (intro flat_eq_untag[OF False]) (simp del: not_None_eq)
qed

lemma flat_eq_NoneD:
  assumes "flat_eq (Suc n) h a b = None" and "a AND 1 = 0"
  shows "\<exists>t x y. find_object_by_addr h a = Some (ObjEnum t [x]) \<and> flat_eq n h x y = None"
proof -
  obtain oa ob where o: "find_object_by_addr h a = Some oa" "find_object_by_addr h b = Some ob"
    using assms by (auto split: if_splits option.splits)
  then show ?thesis
    using assms by (cases oa; cases ob) (auto split: if_splits list.splits)
qed

lemma flat_eq_returns:
  assumes ranked: "enum_ranked h rank"
  shows "find_object_by_addr h (a AND - 2) \<noteq> None \<Longrightarrow>
    2 * below h rank a + (if a AND 1 = 0 then 3 else 4) \<le> n \<Longrightarrow> flat_eq n h a b \<noteq> None"
proof (induction n arbitrary: a b)
  case 0
  then show ?case by (simp split: if_splits)
next
  case (Suc n)
  show ?case
  proof (cases "a AND 1 = 0")
    case False
    have "flat_eq n h (a AND - 2) (b AND - 2) \<noteq> None"
      using Suc.prems False by (intro Suc.IH) (auto simp: below_def)
    then show ?thesis by (rule flat_eq_untag[OF False])
  next
    case True
    then have even: "a AND - 2 = a" by (rule untag_even)
    have "flat_eq n h x y \<noteq> None" if "find_object_by_addr h a = Some (ObjEnum t [x])" for t x y
    proof (cases "find_object_by_addr h (x AND - 2) = None")
      case None: True
      have "n = Suc (Suc (n - 2))"
        using Suc.prems(2) True by simp
      then show ?thesis
        using flat_eq_missing[OF None, of "n - 2" y] by metis
    next
      case found: False
      have "rank (x AND - 2) < rank (a AND - 2)"
        using ranked that even by (auto simp: enum_ranked_def)
      then have "below h rank x < below h rank a"
        by (rule below_less[OF found])
      then have "2 * below h rank x + (if x AND 1 = 0 then 3 else 4) \<le> n"
        using Suc.prems(2) True by simp
      then show ?thesis
        by (rule Suc.IH[OF found])
    qed
    then show ?thesis
      using flat_eq_NoneD[OF _ True] by blast
  qed
qed

lemma flat_eq_fuel:
  assumes "enum_ranked h rank"
  shows "\<exists>r. flat_eq (walk_fuel h) h a b = Some r"
proof (cases "find_object_by_addr h (a AND - 2) = None")
  case True
  then show ?thesis
    using flat_eq_missing[OF True, of "2 * length (objects h)" b]
    by (simp add: walk_fuel_def del: flat_eq.simps)
next
  case False
  let ?A = "fst ` set (objects h)"
  have "a AND - 2 \<in> ?A"
    using False by (auto simp: find_object_by_addr_def dom_map_of_conv_image_fst[symmetric]
        split: if_splits)
  then have "below h rank a < card ?A"
    unfolding below_def by (intro psubset_card_mono) auto
  also have "\<dots> \<le> length (objects h)"
    by (metis card_image_le card_length order_trans List.finite_set)
  finally show ?thesis
    using flat_eq_returns[OF assms False, of "walk_fuel h" b] by (fastforce simp: walk_fuel_def)
qed

lemma values_eq_decides:
  assumes "enum_ranked h rank"
  shows "values_eq h a b = Some (isomorphic h a b)"
proof -
  obtain f where f: "flat_eq (walk_fuel h) h a b = Some f"
    using flat_eq_fuel[OF assms] by blast
  obtain r st' where w: "values_eq_rec (walk_fuel h) h a b (Map.empty, Map.empty) = Some (r, st')"
    using walk_returns by blast
  have "f = Some q \<Longrightarrow> q = r" for q
    using flat_eq_walk[OF assms, of "walk_fuel h" a b q "(Map.empty, Map.empty)"] f w
    by (auto simp: above_def)
  then show ?thesis
    using f w walk_decides[OF w] by (cases f) (auto simp: values_eq_def)
qed

text \<open>Unfolding the recursions on a literal fuel.\<close>

lemmas fuel_numeral =
  flat_eq.simps(2)[of "pred_numeral k" for k, folded numeral_eq_Suc]
  values_eq_rec.simps(2)[of "pred_numeral k" for k, folded numeral_eq_Suc]

text \<open>C16: structural equality. On a heap whose enum chains descend, \<open>values_eq\<close> always answers,
  and it says yes exactly when the two words are the same or reference isomorphic object graphs:
  there is a one-to-one pairing of addresses under which paired objects have the same shape and
  their words are again the same or paired (cycles included).\<close>

theorem values_eq_isomorphic:
  assumes "enum_ranked h rank"
  shows "values_eq h a b = Some (\<exists>R. heap_isomorphism h R \<and> related R a b)"
  using values_eq_decides[OF assms] by (simp add: isomorphic_def)

theorem values_eq_isomorphic_witness:
  "values_eq \<lparr>objects = [(8, ObjString [104]), (16, ObjString [104])], slab_lo = 8, slab_hi = 32\<rparr> 8 16
     = Some True
   \<and> (\<exists>R. heap_isomorphism \<lparr>objects = [(8, ObjString [104]), (16, ObjString [104])],
         slab_lo = 8, slab_hi = 32\<rparr> R \<and> related R 8 16)"
proof -
  let ?h = "\<lparr>objects = [(8, ObjString [104]), (16, ObjString [104])], slab_lo = 8, slab_hi = 32\<rparr> :: heap"
  have ranked: "enum_ranked ?h (\<lambda>_. 0)"
    by (simp add: enum_ranked_def find_object_by_addr_def)
  have "values_eq ?h 8 16 = Some True"
    by (simp add: values_eq_def walk_fuel_def find_object_by_addr_def fuel_numeral)
  then show ?thesis
    using values_eq_isomorphic[OF ranked, of 8 16] by simp
qed

section \<open>The span test in front of it\<close>

definition slab_spans :: "heap \<Rightarrow> bool" where
  "slab_spans h \<longleftrightarrow> (\<forall>x \<in> fst ` set (objects h). slab_lo h \<le> x \<and> x < slab_hi h)"

lemma find_object_may_be_ref:
  assumes "slab_spans h" and "find_object_by_addr h (v AND - 2) \<noteq> None"
  shows "may_be_ref h v"
proof -
  have "v AND - 2 \<noteq> 0" "v AND - 2 \<in> fst ` set (objects h)"
    using assms(2) by (auto simp: find_object_by_addr_def dom_map_of_conv_image_fst[symmetric]
        split: if_splits)
  then show ?thesis
    using assms(1) by (auto simp: may_be_ref_def slab_spans_def heap_addr_def)
qed

lemma isomorphic_refl: "isomorphic h a a"
  unfolding isomorphic_def by (rule exI[of _ "{}"]) (simp add: heap_isomorphism_def related_def)

lemma isomorphic_may_be_ref:
  assumes "slab_spans h" and "isomorphic h a b" and "a \<noteq> b"
  shows "may_be_ref h a \<and> may_be_ref h b"
proof -
  obtain R where R: "heap_isomorphism h R" "(a AND - 2, b AND - 2) \<in> R"
    using assms(2,3) by (auto simp: isomorphic_def related_def)
  then obtain oa ob where "find_object_by_addr h (a AND - 2) = Some oa"
    "find_object_by_addr h (b AND - 2) = Some ob"
    by (blast elim: isomorphism_nodeD)
  then show ?thesis
    using find_object_may_be_ref[OF assms(1)] by simp
qed

text \<open>The equality fast path. The \<open>EQ\<close> and \<open>NEQ\<close> handlers answer an unequal pair from the
  slab's address span alone; when every object lies in that span this gives the same answer as
  the full structural equality, for every pair of words.\<close>

theorem eq_values_fast_path:
  assumes "slab_spans h" and "enum_ranked h rank"
  shows "eq_values h a b = values_eq h a b"
  using isomorphic_may_be_ref[OF assms(1), of a b] values_eq_decides[OF assms(2), of a b]
  by (auto simp: eq_values_def isomorphic_refl)

theorem eq_values_fast_path_witness:
  "eq_values \<lparr>objects = [(8, ObjString [104])], slab_lo = 8, slab_hi = 32\<rparr> 8 5000 =
     values_eq \<lparr>objects = [(8, ObjString [104])], slab_lo = 8, slab_hi = 32\<rparr> 8 5000"
proof (rule eq_values_fast_path)
  show "slab_spans \<lparr>objects = [(8, ObjString [104])], slab_lo = 8, slab_hi = 32\<rparr>"
    by (simp add: slab_spans_def)
  show "enum_ranked \<lparr>objects = [(8, ObjString [104])], slab_lo = 8, slab_hi = 32\<rparr> (\<lambda>_. 0)"
    by (simp add: enum_ranked_def find_object_by_addr_def)
qed

text \<open>C39: shared elements. The pairing is of addresses, strings included, so an array that holds
  one string twice is not equal to an array of two separate copies of it, although the arrays have
  the same length and their elements are equal position by position.\<close>

theorem values_eq_shared_elements:
  "\<exists>h xs ys. find_object_by_addr h 8 = Some (ObjArray (Words xs))
     \<and> find_object_by_addr h 16 = Some (ObjArray (Words ys)) \<and> length xs = length ys
     \<and> list_all2 (\<lambda>x y. values_eq h x y = Some True) xs ys
     \<and> values_eq h 8 16 = Some False"
proof -
  let ?h = "\<lparr>objects = [(8, ObjArray (Words [24, 24])), (16, ObjArray (Words [32, 40])),
      (24, ObjString [120]), (32, ObjString [120]), (40, ObjString [120])],
      slab_lo = 8, slab_hi = 48\<rparr> :: heap"
  have "values_eq ?h 24 32 = Some True" "values_eq ?h 24 40 = Some True"
    by (simp_all add: values_eq_def walk_fuel_def find_object_by_addr_def fuel_numeral)
  moreover have "values_eq ?h 8 16 = Some False"
    by (simp add: values_eq_def walk_fuel_def find_object_by_addr_def objects_step_def
        array_elems_def Let_def fuel_numeral)
  ultimately show ?thesis
    by (intro exI[of _ ?h] exI[of _ "[24, 24]"] exI[of _ "[32, 40]"])
      (simp add: find_object_by_addr_def)
qed

end
