(* ===== verification/Vm_Ops.thy ===== *)
theory Vm_Ops
  imports Bytecode Int_Arith Value_Eq
begin

text \<open>
  The scalar operators of the VM, after \<^verbatim>\<open>machine/src/dense.rs\<close> and \<^verbatim>\<open>machine/src/fused.rs\<close>.
  Both dispatch an operator byte to \<open>arith_int\<close>, the float operators and \<open>arith_cmp\<close>. Binary
  floating point arithmetic is the target's: its operations on bit patterns are the fields of
  \<open>float_arith\<close>, an argument of the definitions. \<open>EQ\<close> and \<open>NEQ\<close> read the heap through
  \<open>eq_values\<close>; a walk that does not return is \<open>Panicked\<close> (the Rust code overflows its stack).
\<close>

unbundle bit_operations_syntax

record float_arith =
  f64_add :: "u64 \<Rightarrow> u64 \<Rightarrow> u64"
  f64_sub :: "u64 \<Rightarrow> u64 \<Rightarrow> u64"
  f64_mul :: "u64 \<Rightarrow> u64 \<Rightarrow> u64"
  f64_div :: "u64 \<Rightarrow> u64 \<Rightarrow> u64"
  f64_rem :: "u64 \<Rightarrow> u64 \<Rightarrow> u64"
  f64_powf :: "u64 \<Rightarrow> u64 \<Rightarrow> u64"
  f32_add :: "u32 \<Rightarrow> u32 \<Rightarrow> u32"
  f32_sub :: "u32 \<Rightarrow> u32 \<Rightarrow> u32"
  f32_mul :: "u32 \<Rightarrow> u32 \<Rightarrow> u32"
  f32_div :: "u32 \<Rightarrow> u32 \<Rightarrow> u32"
  f32_rem :: "u32 \<Rightarrow> u32 \<Rightarrow> u32"
  i64_to_f64 :: "i64 \<Rightarrow> u64"
  f64_to_i64 :: "u64 \<Rightarrow> i64"

datatype float_op = FloatAdd | FloatSub | FloatMul | FloatDiv | FloatRem | FloatPow

definition arith_float :: "float_arith \<Rightarrow> float_op \<Rightarrow> u64 \<Rightarrow> u64 \<Rightarrow> u64" where
  "arith_float fa op a b = (case op of
     FloatAdd \<Rightarrow> f64_add fa a b
   | FloatSub \<Rightarrow> f64_sub fa a b
   | FloatMul \<Rightarrow> f64_mul fa a b
   | FloatDiv \<Rightarrow> f64_div fa a b
   | FloatRem \<Rightarrow> f64_rem fa a b
   | FloatPow \<Rightarrow> f64_powf fa a b)"

definition arith_and :: "value \<Rightarrow> value \<Rightarrow> bool" where
  "arith_and a b \<longleftrightarrow> as_bool a \<and> as_bool b"

definition arith_or :: "value \<Rightarrow> value \<Rightarrow> bool" where
  "arith_or a b \<longleftrightarrow> as_bool a \<or> as_bool b"

section \<open>Dense kernels\<close>

definition in_i32 :: "int \<Rightarrow> bool" where
  "in_i32 x \<longleftrightarrow> - (2 ^ 31) \<le> x \<and> x < 2 ^ 31"

definition i32_checked :: "int \<Rightarrow> i32 option" where
  "i32_checked x = (if in_i32 x then Some (word_of_int x) else None)"

definition i32_bin :: "(i32 \<Rightarrow> i32 \<Rightarrow> i32 option) \<Rightarrow> value \<Rightarrow> value \<Rightarrow> (int_trap, value) result" where
  "i32_bin f a b =
     (let x = ucast (as_int a); y = ucast (as_int b) in
      case f x y of
        Some r \<Rightarrow> Ok (from_int (scast r))
      | None \<Rightarrow> if y = 0 then Err DivByZero else Err Overflow)"

definition f32_bin :: "(u32 \<Rightarrow> u32 \<Rightarrow> u32) \<Rightarrow> value \<Rightarrow> value \<Rightarrow> value" where
  "f32_bin f a b = ucast (f (ucast (as_int a)) (ucast (as_int b)))"

definition dense_eval_bin :: "float_arith \<Rightarrow> u8 \<Rightarrow> value \<Rightarrow> value \<Rightarrow> (int_trap, value) result" where
  "dense_eval_bin fa kind a b =
     (let i64_op = (\<lambda>op. rmap from_int (arith_int op (as_int a) (as_int b)));
          f64_op = (\<lambda>op. Ok (arith_float fa op a b)) in
      if kind = 0 then i64_op IntAdd
      else if kind = 1 then i64_op IntSub
      else if kind = 2 then i64_op IntMul
      else if kind = 3 then i64_op IntDiv
      else if kind = 4 then i64_op IntRem
      else if kind = 5 then i64_op IntBitAnd
      else if kind = 6 then i64_op IntBitOr
      else if kind = 7 then i64_op IntXor
      else if kind = 8 then i64_op IntShl
      else if kind = 9 then i64_op IntShr
      else if kind = 10 then f64_op FloatAdd
      else if kind = 11 then f64_op FloatSub
      else if kind = 12 then f64_op FloatMul
      else if kind = 13 then f64_op FloatDiv
      else if kind = 14 then f64_op FloatRem
      else if kind = 25 then i64_op IntPow
      else if kind = 26 then f64_op FloatPow
      else if kind = 15 then i32_bin (\<lambda>x y. i32_checked (sint x + sint y)) a b
      else if kind = 16 then i32_bin (\<lambda>x y. i32_checked (sint x - sint y)) a b
      else if kind = 17 then i32_bin (\<lambda>x y. i32_checked (sint x * sint y)) a b
      else if kind = 18 then
        i32_bin (\<lambda>x y. if y = 0 then None else i32_checked (sint x sdiv sint y)) a b
      else if kind = 19 then
        i32_bin (\<lambda>x y. if y = 0 then None else Some (word_of_int (sint x smod sint y))) a b
      else if kind = 20 then Ok (f32_bin (f32_add fa) a b)
      else if kind = 21 then Ok (f32_bin (f32_sub fa) a b)
      else if kind = 22 then Ok (f32_bin (f32_mul fa) a b)
      else if kind = 23 then Ok (f32_bin (f32_div fa) a b)
      else if kind = 24 then Ok (f32_bin (f32_rem fa) a b)
      else Ok (from_int 0))"

definition cmp_pred :: "u8 \<Rightarrow> cmp option" where
  "cmp_pred pred =
     (if pred = 0 then Some CmpLt else if pred = 1 then Some CmpLe
      else if pred = 2 then Some CmpGt else if pred = 3 then Some CmpGe
      else if pred = 4 then Some CmpEq else if pred = 5 then Some CmpNe else None)"

definition dense_eval_cmp :: "u8 \<Rightarrow> value \<Rightarrow> value \<Rightarrow> value" where
  "dense_eval_cmp kind a b =
     (let (lane, pred) = unpack_cmp kind in
      case cmp_pred pred of
        None \<Rightarrow> from_bool False
      | Some c \<Rightarrow> from_bool
          (if lane = 0 then arith_cmp i64_partial_cmp c (as_int a) (as_int b)
           else if lane = 1 then arith_cmp f64_partial_cmp c a b
           else if lane = 2 then arith_cmp i32_partial_cmp c (ucast (as_int a)) (ucast (as_int b))
           else if lane = 3 then arith_cmp f32_partial_cmp c (ucast (as_int a)) (ucast (as_int b))
           else False))"

definition trailing_zeros :: "i64 \<Rightarrow> nat" where
  "trailing_zeros x = length (takeWhile (\<lambda>i. \<not> bit x i) [0..<64])"

definition dense_eval_unary :: "u8 \<Rightarrow> value \<Rightarrow> (int_trap, value) result" where
  "dense_eval_unary kind src =
     (if kind = 0 then rmap from_int (int_arith_neg (as_int src))
      else if kind = 2 then Ok (f64_neg src)
      else if kind = 1 then Ok (from_bool (\<not> (as_int src \<noteq> 0)))
      else if kind = 3 then Ok (from_int (of_nat (trailing_zeros (as_int src))))
      else if kind = 4 then Ok (from_int (as_int src AND (as_int src - 1)))
      else Ok src)"

definition dense_eval_cast :: "float_arith \<Rightarrow> u8 \<Rightarrow> value \<Rightarrow> value" where
  "dense_eval_cast fa kind src =
     (if kind = 0 then i64_to_f64 fa (as_int src)
      else if kind = 1 then from_int (scast (ucast (as_int src) :: i32))
      else if kind = 2 then from_int (f64_to_i64 fa src)
      else src)"

definition dense_eval_const :: "u8 \<Rightarrow> u64 \<Rightarrow> value" where
  "dense_eval_const ty raw =
     (if ty = 0 then from_int (scast (ucast raw :: i32))
      else if ty = 4 then from_bool (raw \<noteq> 0)
      else if ty = 2 then ucast (ucast raw :: u32)
      else raw)"

section \<open>Fused operators\<close>

definition eq_result :: "bool option \<Rightarrow> (int_trap, bool) result" where
  "eq_result r = (case r of Some b \<Rightarrow> Ok b | None \<Rightarrow> Panicked)"

definition fused_eval_bin ::
    "float_arith \<Rightarrow> heap \<Rightarrow> u8 \<Rightarrow> value \<Rightarrow> value \<Rightarrow> (int_trap, value) result" where
  "fused_eval_bin fa h op lhs rhs =
     (let i = (\<lambda>op. rmap from_int (arith_int op (as_int lhs) (as_int rhs)));
          f = (\<lambda>op. Ok (arith_float fa op lhs rhs));
          icmp = (\<lambda>c. Ok (from_bool (arith_cmp i64_partial_cmp c (as_int lhs) (as_int rhs))));
          fcmp = (\<lambda>c. Ok (from_bool (arith_cmp f64_partial_cmp c lhs rhs))) in
      if op = I_ADD then i IntAdd
      else if op = I_SUB then i IntSub
      else if op = I_MUL then i IntMul
      else if op = I_DIV then i IntDiv
      else if op = I_MOD then i IntRem
      else if op = I_Pow then i IntPow
      else if op = I_BITAND then i IntBitAnd
      else if op = I_BITOR then i IntBitOr
      else if op = I_SHL then i IntShl
      else if op = I_SHR then i IntShr
      else if op = I_XOR then i IntXor
      else if op = I_AND then Ok (from_bool (arith_and lhs rhs))
      else if op = I_OR then Ok (from_bool (arith_or lhs rhs))
      else if op = I_LE then icmp CmpLt
      else if op = I_LEQ then icmp CmpLe
      else if op = I_GT then icmp CmpGt
      else if op = I_GEQ then icmp CmpGe
      else if op = I_EQ then rmap from_bool (eq_result (eq_values h lhs rhs))
      else if op = I_NEQ then rmap (\<lambda>b. from_bool (\<not> b)) (eq_result (eq_values h lhs rhs))
      else if op = I_IEQ then icmp CmpEq
      else if op = I_INEQ then icmp CmpNe
      else if op = I_ADDF then f FloatAdd
      else if op = I_SUBF then f FloatSub
      else if op = I_MULF then f FloatMul
      else if op = I_DIVF then f FloatDiv
      else if op = I_MODF then f FloatRem
      else if op = I_LEF then fcmp CmpLt
      else if op = I_LEQF then fcmp CmpLe
      else if op = I_EQF then fcmp CmpEq
      else if op = I_NEQF then fcmp CmpNe
      else if op = I_GTF then fcmp CmpGt
      else if op = I_GEQF then fcmp CmpGe
      else if op = I_PowF then f FloatPow
      else Ok 0)"

definition fused_eval_cmp :: "heap \<Rightarrow> u8 \<Rightarrow> value \<Rightarrow> value \<Rightarrow> (int_trap, bool) result" where
  "fused_eval_cmp h op lhs rhs =
     (let icmp = (\<lambda>c. Ok (arith_cmp i64_partial_cmp c (as_int lhs) (as_int rhs)));
          fcmp = (\<lambda>c. Ok (arith_cmp f64_partial_cmp c lhs rhs));
          bits = (\<lambda>op. Ok (case arith_int op (as_int lhs) (as_int rhs) of
                     Ok r \<Rightarrow> as_bool (from_int r) | _ \<Rightarrow> False)) in
      if op = I_LE then icmp CmpLt
      else if op = I_LEQ then icmp CmpLe
      else if op = I_GT then icmp CmpGt
      else if op = I_GEQ then icmp CmpGe
      else if op = I_EQ then eq_result (eq_values h lhs rhs)
      else if op = I_NEQ then rmap Not (eq_result (eq_values h lhs rhs))
      else if op = I_IEQ then icmp CmpEq
      else if op = I_INEQ then icmp CmpNe
      else if op = I_LEF then fcmp CmpLt
      else if op = I_LEQF then fcmp CmpLe
      else if op = I_EQF then fcmp CmpEq
      else if op = I_NEQF then fcmp CmpNe
      else if op = I_GTF then fcmp CmpGt
      else if op = I_GEQF then fcmp CmpGe
      else if op = I_AND then Ok (arith_and lhs rhs)
      else if op = I_OR then Ok (arith_or lhs rhs)
      else if op = I_BITAND then bits IntBitAnd
      else if op = I_BITOR then bits IntBitOr
      else if op = I_XOR then bits IntXor
      else Ok False)"

section \<open>The paths agree\<close>

text \<open>The operator bytes of the 64-bit dense lanes and the instructions they stand for.\<close>

definition dense_lanes :: "(u8 \<times> instruction) list" where
  "dense_lanes = [(0, I_ADD), (1, I_SUB), (2, I_MUL), (3, I_DIV), (4, I_MOD), (5, I_BITAND),
     (6, I_BITOR), (7, I_XOR), (8, I_SHL), (9, I_SHR), (25, I_Pow), (10, I_ADDF), (11, I_SUBF),
     (12, I_MULF), (13, I_DIVF), (14, I_MODF), (26, I_PowF)]"

definition int_compares :: "(u8 \<times> instruction) list" where
  "int_compares = [(0, I_LE), (1, I_LEQ), (2, I_GT), (3, I_GEQ), (4, I_IEQ), (5, I_INEQ)]"

definition float_compares :: "(u8 \<times> instruction) list" where
  "float_compares = [(0, I_LEF), (1, I_LEQF), (2, I_GTF), (3, I_GEQF), (4, I_EQF), (5, I_NEQF)]"

definition branch_ops :: "instruction list" where
  "branch_ops = [I_LE, I_LEQ, I_GT, I_GEQ, I_EQ, I_NEQ, I_IEQ, I_INEQ, I_LEF, I_LEQF, I_EQF,
     I_NEQF, I_GTF, I_GEQF, I_AND, I_OR, I_BITAND, I_BITOR, I_XOR]"

lemma dense_lanes_agree:
  "list_all (\<lambda>(kind, op). dense_eval_bin fa kind a b = fused_eval_bin fa h op a b) dense_lanes"
  by (simp add: dense_lanes_def dense_eval_bin_def fused_eval_bin_def Let_def)

lemma cmp_pred_simps [simp]:
  "cmp_pred 0 = Some CmpLt" "cmp_pred 1 = Some CmpLe" "cmp_pred 2 = Some CmpGt"
  "cmp_pred 3 = Some CmpGe" "cmp_pred 4 = Some CmpEq" "cmp_pred 5 = Some CmpNe"
  by (simp_all add: cmp_pred_def)

lemma dense_eval_cmp_packed:
  "dense_eval_cmp (pack_cmp lane pred) a b =
     (case cmp_pred (take_bit 4 pred) of None \<Rightarrow> from_bool False
      | Some c \<Rightarrow> from_bool
          (if take_bit 4 lane = 0 then arith_cmp i64_partial_cmp c (as_int a) (as_int b)
           else if take_bit 4 lane = 1 then arith_cmp f64_partial_cmp c a b
           else if take_bit 4 lane = 2 then
             arith_cmp i32_partial_cmp c (ucast (as_int a)) (ucast (as_int b))
           else if take_bit 4 lane = 3 then
             arith_cmp f32_partial_cmp c (ucast (as_int a)) (ucast (as_int b))
           else False))"
  by (simp add: dense_eval_cmp_def cmp_kind_rt)

lemma int_compares_agree:
  "list_all (\<lambda>(pred, op). Ok (dense_eval_cmp (pack_cmp 0 pred) a b) = fused_eval_bin fa h op a b
     \<and> fused_eval_cmp h op a b = Ok (as_bool (dense_eval_cmp (pack_cmp 0 pred) a b))) int_compares"
  by (simp add: int_compares_def dense_eval_cmp_packed fused_eval_bin_def fused_eval_cmp_def Let_def)

lemma float_compares_agree:
  "list_all (\<lambda>(pred, op). Ok (dense_eval_cmp (pack_cmp 1 pred) a b) = fused_eval_bin fa h op a b
     \<and> fused_eval_cmp h op a b = Ok (as_bool (dense_eval_cmp (pack_cmp 1 pred) a b))) float_compares"
  by (simp add: float_compares_def dense_eval_cmp_packed fused_eval_bin_def fused_eval_cmp_def Let_def)

lemma branch_ops_agree:
  "list_all (\<lambda>op. fused_eval_cmp h op a b = rmap as_bool (fused_eval_bin fa h op a b)) branch_ops"
  by (simp add: branch_ops_def fused_eval_bin_def fused_eval_cmp_def Let_def arith_int_def
      eq_result_def split: option.splits)

text \<open>C29: one arithmetic. Every 64-bit dense kernel gives the result of the fused (and plain)
  instruction it stands for, traps included; the dense compares agree with the fused ones on ints
  and floats; and a fused compare-and-branch takes the branch that the pushed word of the same
  instruction would take, for every comparison, boolean and bitwise instruction.\<close>

theorem dense_fused_agree:
  "list_all (\<lambda>(kind, op). dense_eval_bin fa kind a b = fused_eval_bin fa h op a b) dense_lanes
   \<and> list_all (\<lambda>(pred, op). Ok (dense_eval_cmp (pack_cmp 0 pred) a b) = fused_eval_bin fa h op a b
       \<and> fused_eval_cmp h op a b = Ok (as_bool (dense_eval_cmp (pack_cmp 0 pred) a b))) int_compares
   \<and> list_all (\<lambda>(pred, op). Ok (dense_eval_cmp (pack_cmp 1 pred) a b) = fused_eval_bin fa h op a b
       \<and> fused_eval_cmp h op a b = Ok (as_bool (dense_eval_cmp (pack_cmp 1 pred) a b))) float_compares
   \<and> list_all (\<lambda>op. fused_eval_cmp h op a b = rmap as_bool (fused_eval_bin fa h op a b)) branch_ops"
  by (intro conjI dense_lanes_agree int_compares_agree float_compares_agree branch_ops_agree)

section \<open>Unary kernels and narrow lanes\<close>

lemma dense_neg: "dense_eval_unary 0 a = rmap from_int (int_arith_neg (as_int a))"
  by (simp add: dense_eval_unary_def)

lemma int_arith_neg_exact: "int_arith_neg a = narrow_i64 (Ok (- sint a))"
  by (simp add: int_arith_neg_def checked_neg_def)

lemma trailing_zeros_le: "trailing_zeros x \<le> 64"
  unfolding trailing_zeros_def by (metis length_takeWhile_le length_upt minus_nat.diff_0)

lemma trailing_zeros_zero: "trailing_zeros 0 = 64"
  unfolding trailing_zeros_def by (subst takeWhile_eq_all_conv[THEN iffD2]) simp_all

lemma trailing_zeros_below: "i < trailing_zeros x \<Longrightarrow> \<not> bit x i"
  unfolding trailing_zeros_def
  by (metis (no_types, lifting) add_0 length_takeWhile_le length_upt minus_nat.diff_0 nth_length_takeWhile
      nth_upt order_less_le_trans partition_point_def partition_point_nth)

lemma trailing_zeros_bit:
  assumes "x \<noteq> 0"
  shows "bit x (trailing_zeros x)"
proof (rule ccontr)
  assume no: "\<not> bit x (trailing_zeros x)"
  have "trailing_zeros x = 64"
  proof (rule ccontr)
    assume "trailing_zeros x \<noteq> 64"
    then have "trailing_zeros x < 64" using trailing_zeros_le[of x] by simp
    then show False
      using no nth_length_takeWhile[of "\<lambda>i. \<not> bit x i" "[0..<64]"] by (simp add: trailing_zeros_def)
  qed
  then have "\<forall>i < 64. \<not> bit x i"
    using trailing_zeros_below[of _ x] by simp
  then show False
    using assms by (auto simp: word_eq_iff_bits)
qed

lemma clear_lowest_bit:
  assumes "bit (x :: i64) k" and "\<forall>i < k. \<not> bit x i"
  shows "x AND (x - 1) = unset_bit k x"
proof -
  have k: "k < 64" using assms(1) bit_imp_le_length by fastforce
  have "unset_bit k x + mask k = unset_bit k x OR mask k"
    by (rule disjunctive_add_eq_or, rule bit_word_eqI) (use assms(2) in \<open>auto simp: bit_simps\<close>)
  moreover have "unset_bit k x + 2 ^ k = x"
  proof -
    have "unset_bit k x + 2 ^ k = unset_bit k x OR 2 ^ k"
      by (rule disjunctive_add_eq_or, rule bit_word_eqI) (auto simp: bit_simps)
    also have "\<dots> = x"
      by (rule bit_word_eqI) (use assms(1) in \<open>auto simp: bit_simps\<close>)
    finally show ?thesis .
  qed
  ultimately have "x - 1 = unset_bit k x OR mask k"
    by (simp add: mask_eq_exp_minus_1) (metis add_diff_eq)
  then show ?thesis
    using assms k by (intro bit_word_eqI) (auto simp: bit_simps)
qed

text \<open>Unary kernels. Negation is exact or traps on the least int; logical not is the zero
  test; the trailing-zero count of a nonzero int is the index of its lowest set bit (64 for zero);
  and the lowest-bit-clear kernel clears exactly that bit.\<close>

theorem dense_unary_correct:
  "dense_eval_unary 0 a = narrow_i64 (Ok (- sint a))
   \<and> dense_eval_unary 1 a = Ok (from_bool (a = 0))
   \<and> dense_eval_unary 3 0 = Ok 64
   \<and> (a \<noteq> 0 \<longrightarrow> (\<exists>k < 64. bit a k \<and> (\<forall>i < k. \<not> bit a i)
        \<and> dense_eval_unary 3 a = Ok (of_nat k) \<and> dense_eval_unary 4 a = Ok (unset_bit k a)))"
proof (intro conjI impI)
  show "dense_eval_unary 0 a = narrow_i64 (Ok (- sint a))"
    by (simp add: dense_eval_unary_def int_arith_neg_exact as_int_def from_int_def)
  show "dense_eval_unary 1 a = Ok (from_bool (a = 0))"
    by (simp add: dense_eval_unary_def as_int_def)
  show "dense_eval_unary 3 0 = Ok 64"
    by (simp add: dense_eval_unary_def as_int_def from_int_def trailing_zeros_zero)
  assume "a \<noteq> 0"
  then have k: "bit a (trailing_zeros a)" "\<forall>i < trailing_zeros a. \<not> bit a i"
    using trailing_zeros_bit trailing_zeros_below by blast+
  then have "dense_eval_unary 4 a = Ok (unset_bit (trailing_zeros a) a)"
    by (simp add: dense_eval_unary_def as_int_def from_int_def clear_lowest_bit)
  moreover have "trailing_zeros a < 64"
    using k(1) bit_imp_le_length by fastforce
  ultimately show "\<exists>k < 64. bit a k \<and> (\<forall>i < k. \<not> bit a i)
      \<and> dense_eval_unary 3 a = Ok (of_nat k) \<and> dense_eval_unary 4 a = Ok (unset_bit k a)"
    using k by (intro exI[of _ "trailing_zeros a"])
      (simp add: dense_eval_unary_def as_int_def from_int_def)
qed

theorem dense_unary_correct_witness:
  "\<exists>k < 64. bit (12 :: i64) k \<and> dense_eval_unary 3 12 = Ok (of_nat k)"
  using dense_unary_correct[of 12] by auto

end
