(* ===== verification/Codec.thy ===== *)
theory Codec
  imports Coil_Prelude
begin

text \<open>
  What the archive decoders share. A reader takes the input and a position and returns a value
  with the position after it, as the cursor structs of the sources do. The locale \<open>codec\<close> is
  the contract between a writer and a reader (reading back what was written, wherever it
  stands in the input); sequences of records are handled once, inside it. The locale
  \<open>sound_reader\<close> is the contract of a decoder on arbitrary input: it never panics, it stays
  inside the input and what it returns is well formed. Little-endian bytes and slice chunking
  are here too.
\<close>

unbundle bit_operations_syntax

section \<open>Readers\<close>

type_synonym ('w, 'e, 'a) reader = "'w list \<Rightarrow> nat \<Rightarrow> ('e, 'a \<times> nat) result"

primrec read_times :: "nat \<Rightarrow> ('w, 'e, 'a) reader \<Rightarrow> ('w, 'e, 'a list) reader" where
  "read_times 0 r ws at = Ok ([], at)"
| "read_times (Suc n) r ws at =
     rbind (r ws at) (\<lambda>(x, at1). rbind (read_times n r ws at1) (\<lambda>(xs, at2). Ok (x # xs, at2)))"

text \<open>\<open>iter().map(f).collect::<Result<Vec<_>, _>>()\<close>: the first error, or all results.\<close>

primrec rtraverse :: "('a \<Rightarrow> ('e, 'b) result) \<Rightarrow> 'a list \<Rightarrow> ('e, 'b list) result" where
  "rtraverse f [] = Ok []"
| "rtraverse f (x # xs) = rbind (f x) (\<lambda>y. rbind (rtraverse f xs) (\<lambda>ys. Ok (y # ys)))"

lemma rtraverse_Ok_iff:
  "rtraverse f xs = Ok ys \<longleftrightarrow> list_all2 (\<lambda>x y. f x = Ok y) xs ys"
  by (induction xs arbitrary: ys) (auto simp: result_simps list_all2_Cons1)

lemma rtraverse_not_Panicked:
  "(\<And>x. x \<in> set xs \<Longrightarrow> f x \<noteq> Panicked) \<Longrightarrow> rtraverse f xs \<noteq> Panicked"
  by (induction xs) (auto simp: rbind_Panicked_iff)

lemma case_single_Ok:
  "(case xs of [w] \<Rightarrow> Ok (f w) | _ \<Rightarrow> Err e) = Ok y \<longleftrightarrow> (\<exists>w. xs = [w] \<and> y = f w)"
  by (cases xs; cases "tl xs") auto

lemma rtraverse_map_Ok: "(\<And>x. x \<in> set xs \<Longrightarrow> f (g x) = Ok (h x)) \<Longrightarrow>
    rtraverse f (map g xs) = Ok (map h xs)"
  by (induction xs) auto

text \<open>The input has \<open>xs\<close> at position \<open>at\<close>.\<close>

definition spells :: "'w list \<Rightarrow> nat \<Rightarrow> 'w list \<Rightarrow> bool" where
  "spells ws at xs \<longleftrightarrow> at + length xs \<le> length ws \<and> take (length xs) (drop at ws) = xs"

lemma spells_Nil [simp]: "spells ws at [] \<longleftrightarrow> at \<le> length ws"
  by (simp add: spells_def)

lemma spells_append:
  "spells ws at (xs @ ys) \<longleftrightarrow> spells ws at xs \<and> spells ws (at + length xs) ys"
proof (cases "at + length xs + length ys \<le> length ws")
  case True
  then have "length (take (length xs) (drop at ws)) = length xs"
    by simp
  then show ?thesis
    using True by (auto simp: spells_def take_add add.commute add.left_commute)
next
  case False
  then show ?thesis by (simp add: spells_def)
qed

lemma spells_Cons: "spells ws at (x # xs) \<longleftrightarrow> get ws at = Some x \<and> spells ws (Suc at) xs"
  by (auto simp: spells_def take_Suc_conv_app_nth Cons_nth_drop_Suc[symmetric] get_def)

lemma spells_le: "spells ws at xs \<Longrightarrow> at + length xs \<le> length ws"
  by (simp add: spells_def)

lemma spells_get_range: "spells ws at xs \<Longrightarrow> n = length xs \<Longrightarrow> get_range ws at (at + n) = Some xs"
  by (simp add: spells_def get_range_def)

lemma spells_self [simp]: "spells (xs @ ys) 0 xs"
  by (simp add: spells_def)

lemma spells_mid: "at = length pre \<Longrightarrow> spells (pre @ xs @ post) at xs"
  by (simp add: spells_def)

locale codec =
  fixes enc :: "'a \<Rightarrow> 'w list"
    and dec :: "('w, 'e, 'a) reader"
    and ok :: "'a \<Rightarrow> bool"
  assumes dec_enc: "ok x \<Longrightarrow> spells ws at (enc x) \<Longrightarrow> dec ws at = Ok (x, at + length (enc x))"
begin

lemma read_times_enc:
  "list_all ok xs \<Longrightarrow> n = length xs \<Longrightarrow> spells ws at (concat (map enc xs)) \<Longrightarrow>
     read_times n dec ws at = Ok (xs, at + length (concat (map enc xs)))"
proof (induction xs arbitrary: n at)
  case (Cons x xs)
  then have "dec ws at = Ok (x, at + length (enc x))"
    by (intro dec_enc) (simp_all add: spells_append)
  moreover have "read_times (length xs) dec ws (at + length (enc x)) =
      Ok (xs, at + length (enc x) + length (concat (map enc xs)))"
    using Cons.prems by (intro Cons.IH) (simp_all add: spells_append)
  ultimately show ?case
    using Cons.prems(2) by simp
qed simp

text \<open>An input with a whole number of records and nothing after them.\<close>

lemma read_all_enc:
  "list_all ok xs \<Longrightarrow>
     read_times (length xs) dec (concat (map enc xs)) 0 = Ok (xs, length (concat (map enc xs)))"
  using read_times_enc[of xs "length xs" "concat (map enc xs)" 0] by (simp add: spells_def)

end

locale sound_reader =
  fixes rd :: "('w, 'e, 'a) reader"
    and good :: "'a \<Rightarrow> bool"
  assumes no_panic: "rd ws at \<noteq> Panicked"
    and sound: "rd ws at = Ok (x, at') \<Longrightarrow> at < at' \<and> at' \<le> length ws \<and> good x"
begin

lemma read_times_no_panic: "read_times n rd ws at \<noteq> Panicked"
  by (induction n arbitrary: at) (auto simp: rbind_Panicked_iff no_panic split: prod.splits)

lemma read_times_sound:
  "read_times n rd ws at = Ok (xs, at') \<Longrightarrow>
     length xs = n \<and> list_all good xs \<and> at + n \<le> at' \<and> (at \<le> length ws \<longrightarrow> at' \<le> length ws)"
proof (induction n arbitrary: at xs)
  case (Suc n)
  then obtain x at1 ys where 1: "rd ws at = Ok (x, at1)"
    and 2: "read_times n rd ws at1 = Ok (ys, at')" "xs = x # ys"
    by (auto simp: result_simps)
  show ?case
    using sound[OF 1] Suc.IH[OF 2(1)] 2(2) by auto
qed simp

end

section \<open>Chunks\<close>

function chunks :: "nat \<Rightarrow> 'a list \<Rightarrow> 'a list list" where
  "chunks n xs = (if xs = [] \<or> n = 0 then [] else take n xs # chunks n (drop n xs))"
  by pat_completeness auto
termination
  by (relation "measure (\<lambda>(n, xs). length xs)") auto

declare chunks.simps [simp del]

definition div_ceil :: "nat \<Rightarrow> nat \<Rightarrow> nat" where
  "div_ceil a b = (if a mod b = 0 then a div b else a div b + 1)"

lemma chunks_Nil [simp]: "chunks n [] = []"
  by (simp add: chunks.simps)

lemma concat_chunks: "0 < n \<Longrightarrow> concat (chunks n xs) = xs"
  by (induction n xs rule: chunks.induct) (subst chunks.simps, simp)

lemma div_ceil_step: "0 < n \<Longrightarrow> n < k \<Longrightarrow> div_ceil k n = Suc (div_ceil (k - n) n)"
  by (simp add: div_ceil_def le_div_geq le_mod_geq)

lemma div_ceil_small: "0 < k \<Longrightarrow> k \<le> n \<Longrightarrow> div_ceil k n = 1"
  by (cases "k = n") (auto simp: div_ceil_def)

lemma length_chunks: "0 < n \<Longrightarrow> length (chunks n xs) = div_ceil (length xs) n"
proof (induction n xs rule: chunks.induct)
  case (1 n xs)
  consider "xs = []" | "xs \<noteq> []" "length xs \<le> n" | "n < length xs" by linarith
  then show ?case
  proof cases
    case 1
    then show ?thesis by (simp add: div_ceil_def)
  next
    case 2
    then show ?thesis
      using "1.prems" by (simp add: chunks.simps[of n xs] div_ceil_small)
  next
    case 3
    then have "chunks n xs = take n xs # chunks n (drop n xs)"
      using "1.prems" by (subst chunks.simps) auto
    moreover have "length (chunks n (drop n xs)) = div_ceil (length xs - n) n"
      using "1.IH" 3 "1.prems" by (cases "xs = []") auto
    ultimately show ?thesis
      using div_ceil_step[OF "1.prems" 3] by simp
  qed
qed

lemma chunks_bounds: "c \<in> set (chunks n xs) \<Longrightarrow> c \<noteq> [] \<and> length c \<le> n"
proof (induction n xs rule: chunks.induct)
  case (1 n xs)
  then show ?case
    by (auto simp: chunks.simps[of n xs] split: if_splits)
qed

lemma chunks_nth:
  "i < length xs \<Longrightarrow> 0 < n \<Longrightarrow>
     i mod n < length (chunks n xs ! (i div n)) \<and> chunks n xs ! (i div n) ! (i mod n) = xs ! i"
proof (induction n xs arbitrary: i rule: chunks.induct)
  case (1 n xs)
  have ne: "xs \<noteq> []" using "1.prems" by auto
  show ?case
  proof (cases "i < n")
    case True
    then show ?thesis
      using "1.prems" ne by (simp add: chunks.simps[of n xs])
  next
    case False
    then have i: "i div n = Suc ((i - n) div n)" "i mod n = (i - n) mod n"
      using "1.prems" by (simp_all add: le_div_geq le_mod_geq)
    have "i - n < length (drop n xs)" using "1.prems" False by simp
    then show ?thesis
      using "1.IH"[of "i - n"] ne "1.prems" False by (simp add: chunks.simps[of n xs] i)
  qed
qed

section \<open>Little-endian bytes\<close>

primrec from_le_bytes :: "u8 list \<Rightarrow> 'a::len word" where
  "from_le_bytes [] = 0"
| "from_le_bytes (b # bs) = ucast b OR push_bit 8 (from_le_bytes bs)"

primrec to_le_bytes :: "nat \<Rightarrow> 'a::len word \<Rightarrow> u8 list" where
  "to_le_bytes 0 w = []"
| "to_le_bytes (Suc n) w = ucast w # to_le_bytes n (drop_bit 8 w)"

lemma length_to_le_bytes [simp]: "length (to_le_bytes n w) = n"
  by (induction n arbitrary: w) auto

lemma bit_from_le_bytes:
  "bit (from_le_bytes bs :: 'a::len word) k \<longleftrightarrow>
     k < LENGTH('a) \<and> k div 8 < length bs \<and> bit (bs ! (k div 8)) (k mod 8)"
proof (induction bs arbitrary: k)
  case (Cons b bs)
  show ?case
  proof (cases "k < 8")
    case True
    then show ?thesis by (auto simp: bit_simps)
  next
    case False
    then have "k div 8 = Suc ((k - 8) div 8)" "k mod 8 = (k - 8) mod 8"
      by (simp_all add: le_div_geq le_mod_geq)
    then show ?thesis
      using False Cons.IH[of "k - 8"] by (auto simp: bit_simps)
  qed
qed simp

lemma to_le_bytes_nth: "i < n \<Longrightarrow> to_le_bytes n w ! i = ucast (drop_bit (8 * i) w)"
proof (induction n arbitrary: w i)
  case (Suc n)
  then show ?case
    by (cases i) (simp_all add: drop_bit_drop_bit add.commute)
qed simp

lemma to_from_le_bytes:
  assumes "8 * length bs \<le> LENGTH('a)" and "n = length bs"
  shows "to_le_bytes n (from_le_bytes bs :: 'a::len word) = bs"
proof (rule nth_equalityI)
  fix i assume "i < length (to_le_bytes n (from_le_bytes bs :: 'a word))"
  then have i: "i < n" by simp
  have "bit (to_le_bytes n (from_le_bytes bs :: 'a word) ! i) k = bit (bs ! i) k" if "k < 8" for k
    using i that assms by (auto simp: to_le_bytes_nth bit_simps bit_from_le_bytes)
  then show "to_le_bytes n (from_le_bytes bs :: 'a word) ! i = bs ! i"
    by (intro bit_word_eqI) simp
qed (use assms in simp)

lemma from_to_le_bytes:
  assumes "8 * n = LENGTH('a)"
  shows "(from_le_bytes (to_le_bytes n w) :: 'a::len word) = w"
proof (rule bit_word_eqI)
  fix k assume "k < LENGTH('a)"
  then have "k div 8 < n" using assms by (auto simp: less_mult_imp_div_less mult.commute)
  then show "bit (from_le_bytes (to_le_bytes n w) :: 'a word) k = bit w k"
    using \<open>k < LENGTH('a)\<close> by (simp add: bit_from_le_bytes to_le_bytes_nth bit_simps)
qed

end
