(* ===== verification/Union_Find.thy ===== *)
theory Union_Find
  imports Coil_Prelude
begin

text \<open>
  The disjoint sets of \<^verbatim>\<open>common/src/frame_bound.rs\<close> (\<open>find\<close> with path halving, \<open>union\<close> by
  smaller index). The locale \<open>partition\<close> is what a client needs of them; merging the edges
  of a graph one by one is done once inside it, and gives the connected components. The
  functions take fuel, since the loop of \<open>find\<close> ends only because parents never point up; the
  theorems show that the fuel given is enough.
\<close>

section \<open>Connected components\<close>

definition conn :: "(nat \<times> nat) set \<Rightarrow> (nat \<times> nat) set" where
  "conn E = (E \<union> E\<inverse>)\<^sup>*"

lemma conn_refl [simp]: "(a, a) \<in> conn E"
  by (simp add: conn_def)

lemma conn_sym: "(a, b) \<in> conn E \<Longrightarrow> (b, a) \<in> conn E"
proof -
  have "(E \<union> E\<inverse>)\<inverse> = E \<union> E\<inverse>" by auto
  then show "(a, b) \<in> conn E \<Longrightarrow> (b, a) \<in> conn E"
    unfolding conn_def by (metis converse_iff rtrancl_converse)
qed

lemma conn_trans: "(a, b) \<in> conn E \<Longrightarrow> (b, c) \<in> conn E \<Longrightarrow> (a, c) \<in> conn E"
  unfolding conn_def by (rule rtrancl_trans)

lemma conn_mono: "E \<subseteq> F \<Longrightarrow> conn E \<subseteq> conn F"
  unfolding conn_def by (rule rtrancl_mono) auto

lemma conn_edge: "(a, b) \<in> E \<Longrightarrow> (a, b) \<in> conn E"
  unfolding conn_def by auto

lemma conn_insert:
  "(a, b) \<in> conn (insert (x, y) E) \<longleftrightarrow>
     (a, b) \<in> conn E \<or> ((a, x) \<in> conn E \<and> (y, b) \<in> conn E) \<or> ((a, y) \<in> conn E \<and> (x, b) \<in> conn E)"
proof
  assume "(a, b) \<in> conn (insert (x, y) E)"
  then show "(a, b) \<in> conn E \<or> ((a, x) \<in> conn E \<and> (y, b) \<in> conn E)
      \<or> ((a, y) \<in> conn E \<and> (x, b) \<in> conn E)"
    unfolding conn_def[of "insert (x, y) E"]
  proof (induction rule: rtrancl_induct)
    case (step u v)
    then have "(u, v) \<in> conn E \<or> (u = x \<and> v = y) \<or> (u = y \<and> v = x)"
      by (auto intro: conn_edge conn_sym)
    then show ?case
      using step.IH by (blast intro: conn_trans conn_sym conn_refl)
  qed simp
next
  have sub: "conn E \<subseteq> conn (insert (x, y) E)"
    by (rule conn_mono) auto
  have xy: "(x, y) \<in> conn (insert (x, y) E)"
    by (rule conn_edge) simp
  assume "(a, b) \<in> conn E \<or> ((a, x) \<in> conn E \<and> (y, b) \<in> conn E)
      \<or> ((a, y) \<in> conn E \<and> (x, b) \<in> conn E)"
  then show "(a, b) \<in> conn (insert (x, y) E)"
    using sub xy conn_sym[OF xy] by (blast intro: conn_trans)
qed

section \<open>The interface\<close>

locale partition =
  fixes inv :: "'s \<Rightarrow> bool"
    and size_of :: "'s \<Rightarrow> nat"
    and cls :: "'s \<Rightarrow> nat \<Rightarrow> nat"
    and merge :: "nat \<Rightarrow> nat \<Rightarrow> 's \<Rightarrow> 's option"
  assumes cls_le: "inv s \<Longrightarrow> x < size_of s \<Longrightarrow> cls s x \<le> x"
    and cls_idem: "inv s \<Longrightarrow> x < size_of s \<Longrightarrow> cls s (cls s x) = cls s x"
    and merge_ok: "inv s \<Longrightarrow> a < size_of s \<Longrightarrow> b < size_of s \<Longrightarrow>
      \<exists>s'. merge a b s = Some s' \<and> inv s' \<and> size_of s' = size_of s \<and>
        (\<forall>x < size_of s. \<forall>y < size_of s. cls s' x = cls s' y \<longleftrightarrow>
           cls s x = cls s y \<or> (cls s x = cls s a \<and> cls s b = cls s y)
             \<or> (cls s x = cls s b \<and> cls s a = cls s y))"
begin

primrec merge_all :: "(nat \<times> nat) list \<Rightarrow> 's \<Rightarrow> 's option" where
  "merge_all [] s = Some s"
| "merge_all (e # es) s = Option.bind (merge (fst e) (snd e) s) (merge_all es)"

definition represents :: "'s \<Rightarrow> nat \<Rightarrow> (nat \<times> nat) set \<Rightarrow> bool" where
  "represents s n E \<longleftrightarrow> inv s \<and> size_of s = n
     \<and> (\<forall>x < n. \<forall>y < n. cls s x = cls s y \<longleftrightarrow> (x, y) \<in> conn E)"

lemma merge_represents:
  assumes "represents s n E" and "a < n" and "b < n"
  shows "\<exists>s'. merge a b s = Some s' \<and> represents s' n (insert (a, b) E)"
proof -
  obtain s' where "merge a b s = Some s'" "inv s'" "size_of s' = n"
    and c: "\<forall>x < n. \<forall>y < n. cls s' x = cls s' y \<longleftrightarrow>
           cls s x = cls s y \<or> (cls s x = cls s a \<and> cls s b = cls s y)
             \<or> (cls s x = cls s b \<and> cls s a = cls s y)"
    using merge_ok[of s a b] assms by (auto simp: represents_def)
  moreover have "represents s' n (insert (a, b) E)"
    unfolding represents_def conn_insert using assms c calculation by (auto simp: represents_def)
  ultimately show ?thesis by blast
qed

lemma merge_all_represents:
  "represents s n E \<Longrightarrow> \<forall>e \<in> set es. fst e < n \<and> snd e < n \<Longrightarrow>
     \<exists>s'. merge_all es s = Some s' \<and> represents s' n (E \<union> set es)"
proof (induction es arbitrary: s E)
  case (Cons e es)
  obtain s1 where 1: "merge (fst e) (snd e) s = Some s1" "represents s1 n (insert e E)"
    using merge_represents[OF Cons.prems(1), of "fst e" "snd e"] Cons.prems(2) by auto
  then show ?case
    using Cons.IH[OF 1(2)] Cons.prems(2) by simp
qed simp

text \<open>The class of an element is the least element it is connected to.\<close>

lemma represents_Least:
  assumes "represents s n E" and "x < n"
  shows "cls s x = (LEAST y. y < n \<and> (x, y) \<in> conn E)"
proof (rule sym, rule Least_equality)
  have le: "cls s x \<le> x"
    using assms by (auto simp: represents_def intro: cls_le)
  then have n: "cls s x < n" using assms(2) by simp
  have "cls s (cls s x) = cls s x"
    using assms by (auto simp: represents_def intro: cls_idem)
  then show "cls s x < n \<and> (x, cls s x) \<in> conn E"
    using assms n by (auto simp: represents_def intro: conn_sym)
next
  fix y assume y: "y < n \<and> (x, y) \<in> conn E"
  then have "cls s x = cls s y"
    using assms by (auto simp: represents_def)
  moreover have "cls s y \<le> y"
    using cls_le[of s y] assms y by (simp add: represents_def)
  ultimately show "cls s x \<le> y" by simp
qed

end

section \<open>The parent array\<close>

fun find_loop :: "nat \<Rightarrow> nat list \<Rightarrow> nat \<Rightarrow> (nat list \<times> nat) option" where
  "find_loop 0 parent x = None"
| "find_loop (Suc k) parent x =
     (if parent ! x = x then Some (parent, x)
      else
        (let parent' = parent[x := parent ! (parent ! x)]
         in find_loop k parent' (parent' ! x)))"

definition uf_find :: "nat list \<Rightarrow> nat \<Rightarrow> (nat list \<times> nat) option" where
  "uf_find parent x = (if x < length parent then find_loop (length parent) parent x else None)"

definition uf_union :: "nat \<Rightarrow> nat \<Rightarrow> nat list \<Rightarrow> nat list option" where
  "uf_union a b parent =
     Option.bind (uf_find parent a) (\<lambda>(parent1, ra).
     Option.bind (uf_find parent1 b) (\<lambda>(parent2, rb).
       Some (if ra \<noteq> rb then parent2[max ra rb := min ra rb] else parent2)))"

text \<open>Parents never point up, so following them ends at a root.\<close>

definition uf_ok :: "nat list \<Rightarrow> bool" where
  "uf_ok parent \<longleftrightarrow> (\<forall>i < length parent. parent ! i \<le> i)"

function rep :: "nat list \<Rightarrow> nat \<Rightarrow> nat" where
  "rep parent x = (if x < length parent \<and> parent ! x < x then rep parent (parent ! x) else x)"
  by pat_completeness auto
termination
  by (relation "measure snd") auto

declare rep.simps [simp del]

lemma rep_le: "rep parent x \<le> x"
  by (induction parent x rule: rep.induct) (subst rep.simps, auto)

lemma rep_root: "uf_ok parent \<Longrightarrow> x < length parent \<Longrightarrow> parent ! rep parent x = rep parent x"
proof (induction parent x rule: rep.induct)
  case (1 parent x)
  show ?case
  proof (cases "parent ! x < x")
    case True
    then show ?thesis
      using 1 by (simp add: rep.simps[of parent x])
  next
    case False
    then have "parent ! x = x" using 1(2,3) by (auto simp: uf_ok_def intro: le_antisym)
    then show ?thesis by (simp add: rep.simps[of parent x])
  qed
qed

lemma rep_self: "parent ! x = x \<Longrightarrow> rep parent x = x"
  by (simp add: rep.simps)

lemma rep_parent: "uf_ok parent \<Longrightarrow> x < length parent \<Longrightarrow> rep parent (parent ! x) = rep parent x"
  by (cases "parent ! x < x") (auto simp: rep.simps[of parent x] uf_ok_def dest: le_antisym intro: rep_self)

text \<open>Redirecting \<open>x\<close> to a lower element of its own class changes no class.\<close>

lemma rep_shortcut:
  assumes "uf_ok parent" and "x < length parent" and "z < x" and "rep parent z = rep parent x"
  shows "y < length parent \<Longrightarrow> rep (parent[x := z]) y = rep parent y"
proof (induction y rule: less_induct)
  case (less y)
  let ?p = "parent[x := z]"
  consider "y = x" | "y \<noteq> x" "parent ! y < y" | "y \<noteq> x" "parent ! y = y"
    using assms(1) less.prems by (auto simp: uf_ok_def intro: le_antisym) (metis le_neq_implies_less)
  then show ?case
  proof cases
    case 1
    then have "rep ?p y = rep ?p z"
      using assms(2,3) by (simp add: rep.simps[of ?p x])
    then show ?thesis
      using less.IH[of z] 1 assms(3,4) less.prems by simp
  next
    case 2
    then show ?thesis
      using less.IH[of "parent ! y"] less.prems
      by (simp add: rep.simps[of ?p y] rep.simps[of parent y])
  next
    case 3
    then show ?thesis by (simp add: rep.simps[of ?p y] rep.simps[of parent y])
  qed
qed

lemma find_loop_spec:
  "uf_ok parent \<Longrightarrow> x < length parent \<Longrightarrow> x < k \<Longrightarrow>
     \<exists>p'. find_loop k parent x = Some (p', rep parent x) \<and> uf_ok p' \<and> length p' = length parent
       \<and> (\<forall>y < length parent. rep p' y = rep parent y)"
proof (induction k arbitrary: parent x)
  case (Suc k)
  show ?case
  proof (cases "parent ! x = x")
    case True
    then show ?thesis
      using Suc.prems by (simp add: rep_self)
  next
    case False
    let ?z = "parent ! (parent ! x)"
    let ?p = "parent[x := ?z]"
    have lt: "parent ! x < x"
      using Suc.prems False by (auto simp: uf_ok_def le_neq_implies_less)
    then have "?z \<le> parent ! x"
      using Suc.prems by (auto simp: uf_ok_def)
    then have z: "?z < x" using lt by simp
    have same: "rep parent ?z = rep parent x"
      using rep_parent[of parent] Suc.prems lt by simp
    have ok: "uf_ok ?p"
      using Suc.prems(1,2) z by (auto simp: uf_ok_def nth_list_update)
    have keep: "\<forall>y < length parent. rep ?p y = rep parent y"
      using rep_shortcut[OF Suc.prems(1,2) z same] by simp
    have "\<exists>p'. find_loop k ?p ?z = Some (p', rep ?p ?z) \<and> uf_ok p' \<and> length p' = length ?p
        \<and> (\<forall>y < length ?p. rep p' y = rep ?p y)"
      using Suc.prems z by (intro Suc.IH[OF ok]) simp_all
    then show ?thesis
      using False Suc.prems(2) keep same z by (auto simp: Let_def)
  qed
qed simp

lemma uf_find_spec:
  "uf_ok parent \<Longrightarrow> x < length parent \<Longrightarrow>
     \<exists>p'. uf_find parent x = Some (p', rep parent x) \<and> uf_ok p' \<and> length p' = length parent
       \<and> (\<forall>y < length parent. rep p' y = rep parent y)"
  using find_loop_spec[of parent x "length parent"] by (simp add: uf_find_def)

lemma rep_link:
  assumes "uf_ok parent" and "r < length parent" and "parent ! r = r" and "m < r" and "parent ! m = m"
  shows "y < length parent \<Longrightarrow>
    rep (parent[r := m]) y = (if rep parent y = r then m else rep parent y)"
proof (induction y rule: less_induct)
  case (less y)
  let ?p = "parent[r := m]"
  have m: "rep ?p m = m" "rep parent m = m"
    using assms by (auto intro: rep_self)
  consider "y = r" | "y \<noteq> r" "parent ! y < y" | "y \<noteq> r" "parent ! y = y"
    using assms(1) less.prems by (auto simp: uf_ok_def intro: le_antisym) (metis le_neq_implies_less)
  then show ?case
  proof cases
    case 1
    then show ?thesis
      using assms m by (simp add: rep.simps[of ?p r] rep_self)
  next
    case 2
    then show ?thesis
      using less.IH[of "parent ! y"] less.prems
      by (simp add: rep.simps[of ?p y] rep.simps[of parent y])
  next
    case 3
    then show ?thesis
      by (simp add: rep_self)
  qed
qed

lemma uf_union_spec:
  assumes ok: "uf_ok parent" and a: "a < length parent" and b: "b < length parent"
  shows "\<exists>p'. uf_union a b parent = Some p' \<and> uf_ok p' \<and> length p' = length parent
    \<and> (\<forall>y < length parent. rep p' y =
        (if rep parent y = max (rep parent a) (rep parent b) then min (rep parent a) (rep parent b)
         else rep parent y))"
proof -
  obtain p1 where 1: "uf_find parent a = Some (p1, rep parent a)" "uf_ok p1"
      "length p1 = length parent" "\<forall>y < length parent. rep p1 y = rep parent y"
    using uf_find_spec[OF ok a] by blast
  obtain p2 where 2: "uf_find p1 b = Some (p2, rep p1 b)" "uf_ok p2"
      "length p2 = length parent" "\<forall>y < length parent. rep p2 y = rep parent y"
    using uf_find_spec[OF 1(2), of b] 1(3,4) b by auto
  let ?ra = "rep parent a" and ?rb = "rep parent b"
  have rb: "rep p1 b = ?rb" using 1(4) b by simp
  have root: "p2 ! ?ra = ?ra" "p2 ! ?rb = ?rb"
    using rep_root[OF 2(2), of a] rep_root[OF 2(2), of b] 2(3,4) a b by simp_all
  have lt: "?ra < length parent" "?rb < length parent"
    using rep_le[of parent a] rep_le[of parent b] a b by simp_all
  let ?p = "if ?ra \<noteq> ?rb then p2[max ?ra ?rb := min ?ra ?rb] else p2"
  have "uf_union a b parent = Some ?p"
    using 1(1) 2(1) rb by (simp add: uf_union_def)
  moreover have "uf_ok ?p"
    using 2(2,3) lt by (auto simp: uf_ok_def nth_list_update min_def max_def)
  moreover have "rep ?p y = (if rep parent y = max ?ra ?rb then min ?ra ?rb else rep parent y)"
    if "y < length parent" for y
    using rep_link[OF 2(2), of "max ?ra ?rb" "min ?ra ?rb" y] 2(3,4) root lt that
    by (cases "?ra < ?rb"; cases "?rb < ?ra") (auto simp: max_def min_def)
  ultimately show ?thesis
    using 2(3) by auto
qed

interpretation frames: partition uf_ok length rep uf_union
proof
  fix parent :: "nat list" and x
  assume "uf_ok parent" "x < length parent"
  then show "rep parent x \<le> x" "rep parent (rep parent x) = rep parent x"
    by (auto intro: rep_le rep_self rep_root)
next
  fix parent :: "nat list" and a b
  assume "uf_ok parent" "a < length parent" "b < length parent"
  then obtain p' where "uf_union a b parent = Some p'" "uf_ok p'" "length p' = length parent"
    and r: "\<forall>y < length parent. rep p' y =
        (if rep parent y = max (rep parent a) (rep parent b) then min (rep parent a) (rep parent b)
         else rep parent y)"
    using uf_union_spec by blast
  moreover have "rep p' x = rep p' y \<longleftrightarrow> rep parent x = rep parent y
      \<or> (rep parent x = rep parent a \<and> rep parent b = rep parent y)
      \<or> (rep parent x = rep parent b \<and> rep parent a = rep parent y)"
    if "x < length parent" "y < length parent" for x y
    using r that by (auto simp: max_def min_def)
  ultimately show "\<exists>s'. uf_union a b parent = Some s' \<and> uf_ok s' \<and> length s' = length parent \<and>
      (\<forall>x < length parent. \<forall>y < length parent. rep s' x = rep s' y \<longleftrightarrow>
         rep parent x = rep parent y \<or> (rep parent x = rep parent a \<and> rep parent b = rep parent y)
           \<or> (rep parent x = rep parent b \<and> rep parent a = rep parent y))"
    by blast
qed

text \<open>\<open>(0..n).collect()\<close>: every element its own class.\<close>

lemma rep_initial: "x < n \<Longrightarrow> rep [0..<n] x = x"
  by (rule rep_self) simp

lemma initial_represents: "frames.represents [0..<n] n {}"
  unfolding frames.represents_def by (simp add: uf_ok_def rep_initial conn_def)

text \<open>Reading every class, halving paths on the way.\<close>

primrec find_all :: "nat list \<Rightarrow> nat list \<Rightarrow> nat list option" where
  "find_all parent [] = Some []"
| "find_all parent (x # xs) =
     Option.bind (uf_find parent x) (\<lambda>(parent', r). map_option ((#) r) (find_all parent' xs))"

lemma find_all_spec:
  "uf_ok parent \<Longrightarrow> \<forall>x \<in> set xs. x < length parent \<Longrightarrow> find_all parent xs = Some (map (rep parent) xs)"
proof (induction xs arbitrary: parent)
  case (Cons x xs)
  obtain p' where "uf_find parent x = Some (p', rep parent x)" "uf_ok p'" "length p' = length parent"
      "\<forall>y < length parent. rep p' y = rep parent y"
    using uf_find_spec[of parent x] Cons.prems by auto
  then show ?case
    using Cons.IH[of p'] Cons.prems by simp
qed simp

end
