(* ===== verification/Frame_Bound.thy ===== *)
theory Frame_Bound
  imports Bytecode Codec Union_Find "HOL-Library.Transitive_Closure_Table"
begin

text \<open>
  The static bound on a frame's operand stack, after \<^verbatim>\<open>common/src/frame_bound.rs\<close>. \<open>frame_step\<close>
  classifies one code word: the most words it pushes, the highest frame slot it names, where it
  branches and whether control falls through. \<open>frame_roots\<close> groups the code into frames by
  merging along these links, and \<open>frame_reserve\<close> bounds each frame. A word that makes
  \<open>load_store_slot_at\<close> panic makes these functions panic.
\<close>

unbundle bit_operations_syntax

section \<open>One code word\<close>

datatype jump = NoJump | JumpTo nat | JumpUnknown

record step =
  step_push :: nat
  step_slots :: nat
  step_jump :: jump
  step_falls :: bool

definition hi :: "nat list \<Rightarrow> nat" where
  "hi xs = (if xs = [] then 0 else Max (set xs) + 1)"

definition pool_target :: "u64 option \<Rightarrow> jump" where
  "pool_target e = (case e of None \<Rightarrow> JumpUnknown | Some v \<Rightarrow> JumpTo (unat (drop_bit 32 v)))"

definition direct_or_pool :: "u64 list \<Rightarrow> nat \<Rightarrow> bool \<Rightarrow> jump" where
  "direct_or_pool pool t is_pool =
     (if is_pool then (case get pool t of None \<Rightarrow> JumpUnknown | Some v \<Rightarrow> JumpTo (unat v))
      else JumpTo t)"

definition load_store_slots :: "byte \<Rightarrow> (unit, nat list) result" where
  "load_store_slots b =
     rtraverse (\<lambda>i. rmap unat (load_store_slot_at b i)) [0..<load_store_count b]"

abbreviation (input) leaves :: "instruction list" where
  "leaves \<equiv> [I_HALT, I_RETURN, I_LoadReturnSlot, I_ConstReturnImm, I_BinReturn, I_ReturnPair,
     I_MakeEnumReturn, I_MakeEnumReturnK, I_TailCall, I_Panic, I_SET, I_OptionNicheToHeap,
     I_HeapOptionToNiche, I_PairJumpIfTag, I_PairToHeap, I_HeapToPair, I_HostInvokeNiche,
     I_FloatChainStore, I_BinSlotSlotConstJmpf]"

abbreviation (input) pushes_one :: "instruction list" where
  "pushes_one \<equiv> [I_DUPLICATE, I_CONST, I_STRING, I_CodePtr, I_INIT, I_InitTyped, I_MakeEnum,
     I_MakeEnumK, I_MakeTuple, I_MakeTupleK, I_MakeArray, I_MakeArrayK, I_MakeDict, I_MakePolyFn,
     I_MakePolyFnCapture, I_MakeFn, I_LoadStatic, I_FfiLoad, I_FfiInvoke, I_DeclareFFI,
     I_HostInvoke]"

definition step0 :: step where
  "step0 = \<lparr>step_push = 0, step_slots = 0, step_jump = NoJump, step_falls = True\<rparr>"

definition low_slot :: "u64 option \<Rightarrow> nat" where
  "low_slot e = (case e of None \<Rightarrow> 0 | Some v \<Rightarrow> unat (v AND 0xFF))"

definition frame_step :: "byte \<Rightarrow> u64 list \<Rightarrow> nat \<Rightarrow> (unit, step) result" where
  "frame_step b pool match_payload =
     (let op = bytecode b in
      if op \<in> set leaves then
        Ok (step0\<lparr>step_falls := False,
          step_slots := (if op = I_LoadReturnSlot then hi [unat (operand_u32 b)]
             else if op = I_TailCall then hi [fst (call_parts b)] else 0)\<rparr>)
      else if op = I_JMP then
        Ok (step0\<lparr>step_falls := False, step_jump := JumpTo (unat (operand_u32 b))\<rparr>)
      else if op \<in> {I_JMPF, I_JMPT} then Ok (step0\<lparr>step_jump := JumpTo (unat (operand_u32 b))\<rparr>)
      else if op \<in> {I_CmpJmpf, I_CmpJmpt} then
        Ok (step0\<lparr>step_jump := direct_or_pool pool (snd (cmp_jmpf_parts b)) (cmp_jmpf_is_pool b)\<rparr>)
      else if op \<in> {I_LogNotJmpf, I_LogNotJmpt} then
        Ok (step0\<lparr>step_jump := direct_or_pool pool (log_not_jmpf_target b) (log_not_jmpf_is_pool b)\<rparr>)
      else if op \<in> {I_BinSlotImmJmpf, I_BinSlotImmJmpt} then
        (let (_, slot, idx) = bin_slot_imm_jmpf_parts b in
         Ok (step0\<lparr>step_slots := hi [slot], step_jump := pool_target (get pool idx)\<rparr>))
      else if op \<in> {I_BinSlotSlotJmpf, I_BinSlotSlotJmpt} then
        (let (_, a, idx) = bin_slot_slot_jmpf_parts b in
         Ok (step0\<lparr>step_slots := hi [a, low_slot (get pool idx)],
               step_jump := pool_target (get pool idx)\<rparr>))
      else if op = I_BinSlotSlotConstJmpt then
        (let (_, a, idx) = bin_slot_slot_const_jmpf_parts b in
         Ok (step0\<lparr>step_slots := hi [a, low_slot (get pool idx)],
               step_jump := pool_target (get pool idx)\<rparr>))
      else if op = I_JumpIfMatch then
        Ok (step0\<lparr>step_push := match_payload,
          step_jump := (case get pool (unat (operand_u32 b AND 0xFFFF)) of
             None \<Rightarrow> JumpUnknown | Some t \<Rightarrow> JumpTo (unat t))\<rparr>)
      else if op \<in> {I_CALL, I_CallIndirect} then Ok (step0\<lparr>step_push := 2\<rparr>)
      else if op \<in> {I_MakeCoro, I_ResumeCoro, I_YieldFromCoro} then Ok (step0\<lparr>step_push := 1\<rparr>)
      else if op = I_LOAD then
        rmap (\<lambda>xs. step0\<lparr>step_push := load_store_count b, step_slots := hi xs\<rparr>) (load_store_slots b)
      else if op \<in> {I_STORE, I_StorePop} then
        rmap (\<lambda>xs. step0\<lparr>step_slots := hi xs\<rparr>) (load_store_slots b)
      else if op = I_Seek then Ok (step0\<lparr>step_slots := unat (operand_u32 b)\<rparr>)
      else if op \<in> {I_INC, I_DEC} then
        Ok (step0\<lparr>step_push := 1, step_slots := hi [fst (inc_dec_parts b)]\<rparr>)
      else if op = I_BinSlotImm then
        Ok (step0\<lparr>step_push := 1, step_slots := hi [fst (snd (bin_slot_imm_parts b))]\<rparr>)
      else if op = I_BinSlotSlot then
        (let (_, a, c) = bin_slot_slot_parts b in
         Ok (step0\<lparr>step_push := 1, step_slots := hi [a, c]\<rparr>))
      else if op = I_BinSlotImmStore then
        (let (_, src, idx) = bin_slot_imm_store_parts b;
             dest = (case get pool idx of None \<Rightarrow> 0 | Some v \<Rightarrow> unat (drop_bit 32 v)) in
         Ok (step0\<lparr>step_slots := hi [src, dest]\<rparr>))
      else if op = I_BinSlotSlotStore then
        (let (_, a, c, dest) = bin_slot_slot_store_parts b in
         Ok (step0\<lparr>step_slots := hi [a, c, dest]\<rparr>))
      else if op = I_UnpackAt then
        (let o' = operand_u32 b in
         Ok (step0\<lparr>step_slots := unat (o' AND 0xFFFF) + unat (drop_bit 16 o')\<rparr>))
      else if op = I_Unpack then Ok (step0\<lparr>step_push := unat (operand_u32 b)\<rparr>)
      else if op \<in> {I_ArrayPin, I_IndexPin, I_IndexPinUnchecked, I_StoreIndexPin,
          I_StoreIndexPinUnchecked} then
        Ok (step0\<lparr>step_slots := hi [unat (operand_u32 b)]\<rparr>)
      else if op \<in> {I_DenseBin, I_DenseBin2, I_DenseBinJmpf, I_DenseCmp, I_DenseIndex,
          I_DenseIndexJmpf, I_DenseStoreIndex, I_DenseFieldLoad, I_DenseFieldStore,
          I_DenseArrayPush} then
        (let (_, d, x, y) = dense_abc_parts b in Ok (step0\<lparr>step_slots := hi [d, x, y]\<rparr>))
      else if op = I_DenseMake then
        (let (_, dest, arity, base) = dense_abc_parts b in
         Ok (step0\<lparr>step_slots := hi [dest, base + max arity 1 - 1]\<rparr>))
      else if op = I_DenseMakeK then
        Ok (case dense_make_k_parts b pool of
              Some (_, dest, arity, base, _) \<Rightarrow>
                step0\<lparr>step_slots := hi [dest, base + max arity 1 - 1]\<rparr>
            | None \<Rightarrow> step0)
      else if op = I_DenseMakeObject then
        Ok (step0\<lparr>step_slots := hi [unat (fst (unpack_make_object (operand_u32 b)))]\<rparr>)
      else if op = I_DenseHostCall then
        Ok (case dense_host_call_parts b pool of
              Some (dest, _, _, base, arity) \<Rightarrow>
                step0\<lparr>step_slots := hi [dest, base + max arity 1 - 1]\<rparr>
            | None \<Rightarrow> step0)
      else if op = I_DenseConst then Ok (step0\<lparr>step_slots := hi [fst (snd (dense_const_parts b))]\<rparr>)
      else if op \<in> {I_DenseMove, I_DenseArrayLen} then
        (let (d, x) = dense_move_parts b in Ok (step0\<lparr>step_slots := hi [d, x]\<rparr>))
      else if op \<in> {I_DenseUnary, I_DenseCast} then
        (let (_, d, x) = dense_unary_parts b in Ok (step0\<lparr>step_slots := hi [d, x]\<rparr>))
      else if op = I_DensePush then
        (let (arity, base) = dense_move_parts b in
         Ok (step0\<lparr>step_push := arity, step_slots := base + arity\<rparr>))
      else if op \<in> {I_VLoad, I_VStore} then
        (let (_, _, arr, idx) = dense_abc_parts b in Ok (step0\<lparr>step_slots := hi [arr, idx]\<rparr>))
      else if op = I_VBin then
        (let (_, _, x, _) = dense_abc_parts b in Ok (step0\<lparr>step_slots := hi [x]\<rparr>))
      else if op = I_VReduce then
        (let (_, d, _, _) = dense_abc_parts b in Ok (step0\<lparr>step_slots := hi [d]\<rparr>))
      else if op = I_VMask then Ok (step0\<lparr>step_slots := hi [fst (dense_move_parts b)]\<rparr>)
      else if op \<in> {I_VScan, I_VLoop} then
        (let (_, d, from, h) = dense_abc_parts b in Ok (step0\<lparr>step_slots := hi [d, from, h]\<rparr>))
      else if op \<in> set pushes_one then Ok (step0\<lparr>step_push := 1\<rparr>)
      else Ok step0)"

section \<open>Frames\<close>

fun roots_loop :: "nat \<Rightarrow> (nat \<times> step) list \<Rightarrow> nat list \<Rightarrow> (unit, nat list) result" where
  "roots_loop n [] parent = Ok parent"
| "roots_loop n ((pc, s) # rest) parent =
     (case (if step_falls s \<and> pc + 1 < n then uf_union pc (pc + 1) parent else Some parent) of
        None \<Rightarrow> Panicked
      | Some parent1 \<Rightarrow>
          (case step_jump s of
             JumpTo t \<Rightarrow>
               (if t < n then
                  (case uf_union pc t parent1 of
                     None \<Rightarrow> Panicked | Some parent2 \<Rightarrow> roots_loop n rest parent2)
                else roots_loop n rest parent1)
           | NoJump \<Rightarrow> roots_loop n rest parent1
           | JumpUnknown \<Rightarrow> Err ()))"

text \<open>\<open>Err ()\<close> is the \<open>None\<close> of the source: a branch whose target cannot be decoded.\<close>

definition roots :: "step list \<Rightarrow> (unit, nat list) result" where
  "roots steps =
     (let n = length steps in
      rbind (roots_loop n (zip [0..<n] steps) [0..<n]) (\<lambda>parent.
        case find_all parent [0..<n] of None \<Rightarrow> Panicked | Some rs \<Rightarrow> Ok rs))"

definition frame_roots :: "byte list \<Rightarrow> u64 list \<Rightarrow> (unit, nat list) result" where
  "frame_roots code pool = rbind (rtraverse (\<lambda>b. frame_step b pool 0) code) roots"

definition jump_targets :: "byte list \<Rightarrow> u64 list \<Rightarrow> (unit, bool list) result" where
  "jump_targets code pool =
     foldl (\<lambda>acc b. rbind acc (\<lambda>out. rbind (frame_step b pool 0) (\<lambda>s.
         case step_jump s of
           JumpTo t \<Rightarrow> Ok (if t < length out then out[t := True] else out)
         | NoJump \<Rightarrow> Ok out
         | JumpUnknown \<Rightarrow> Err ())))
       (Ok (replicate (length code) False)) code"

section \<open>Bounds\<close>

definition sat_add_u64 :: "nat \<Rightarrow> nat \<Rightarrow> nat" where
  "sat_add_u64 a b = min (a + b) (2 ^ 64 - 1)"

record bound =
  bound_push :: nat
  bound_slots :: nat

definition bound0 :: bound where
  "bound0 = \<lparr>bound_push = 0, bound_slots = 0\<rparr>"

definition bound_add :: "bound \<Rightarrow> step \<Rightarrow> bound" where
  "bound_add bd s = \<lparr>bound_push = sat_add_u64 (bound_push bd) (step_push s),
     bound_slots = max (bound_slots bd) (step_slots s)\<rparr>"

definition bound_words :: "bound \<Rightarrow> nat" where
  "bound_words bd = sat_add_u64 (bound_push bd) (bound_slots bd)"

definition whole_program :: "step list \<Rightarrow> nat" where
  "whole_program steps = bound_words (foldl bound_add bound0 steps)"

definition frame_words :: "byte list \<Rightarrow> u64 list \<Rightarrow> nat \<Rightarrow> (unit, nat) result" where
  "frame_words code pool match_payload =
     rbind (rtraverse (\<lambda>b. frame_step b pool match_payload) code) (\<lambda>steps.
       case roots steps of
         Panicked \<Rightarrow> Panicked
       | Err _ \<Rightarrow> Ok (whole_program steps)
       | Ok rs \<Rightarrow>
           (let per_root = foldl (\<lambda>bs (s, r). bs[r := bound_add (bs ! r) s])
                  (replicate (length steps) bound0) (zip steps rs)
            in Ok (foldl max 0 (map bound_words per_root))))"

definition widest_payload :: "byte list \<Rightarrow> u64 list \<Rightarrow> nat" where
  "widest_payload code pool =
     max 2 (foldl max 0 (map (\<lambda>b.
       let op = bytecode b in
       if op \<in> {I_MakeEnum, I_MakeEnumReturn, I_MakeEnumK, I_MakeEnumReturnK} then unat (make_arity b)
       else if op = I_DenseMake then
         (let (kind, _, arity, _) = dense_abc_parts b in if MAKE_ENUM \<le> kind then arity else 0)
       else if op = I_DenseMakeK then
         (case dense_make_k_parts b pool of
            Some (kind, _, arity, _, _) \<Rightarrow> if MAKE_ENUM \<le> kind then arity else 0
          | None \<Rightarrow> 0)
       else 0) code))"

record frame_reserve_t =
  reserve_words :: nat
  reserve_match_payload :: nat

definition frame_reserve :: "byte list \<Rightarrow> u64 list \<Rightarrow> (unit, frame_reserve_t) result" where
  "frame_reserve code pool =
     (let match_payload = widest_payload code pool;
          args = foldl max 0 (map (\<lambda>b. fst (call_parts b))
            (filter (\<lambda>b. bytecode b \<in> {I_CALL, I_TailCall}) code)) in
      rmap (\<lambda>w. \<lparr>reserve_words = max 1 (min (w + args) (2 ^ 64 - 1)),
                   reserve_match_payload = match_payload\<rparr>)
        (frame_words code pool match_payload))"

section \<open>Where a word branches\<close>

text \<open>The branch of \<open>frame_step\<close>, instruction by instruction.\<close>

definition branch_of :: "byte \<Rightarrow> u64 list \<Rightarrow> jump" where
  "branch_of b pool =
     (let op = bytecode b in
      if op \<in> {I_JMP, I_JMPF, I_JMPT} then JumpTo (unat (operand_u32 b))
      else if op \<in> {I_CmpJmpf, I_CmpJmpt} then
        direct_or_pool pool (snd (cmp_jmpf_parts b)) (cmp_jmpf_is_pool b)
      else if op \<in> {I_LogNotJmpf, I_LogNotJmpt} then
        direct_or_pool pool (log_not_jmpf_target b) (log_not_jmpf_is_pool b)
      else if op \<in> {I_BinSlotImmJmpf, I_BinSlotImmJmpt} then
        pool_target (get pool (snd (snd (bin_slot_imm_jmpf_parts b))))
      else if op \<in> {I_BinSlotSlotJmpf, I_BinSlotSlotJmpt} then
        pool_target (get pool (snd (snd (bin_slot_slot_jmpf_parts b))))
      else if op = I_BinSlotSlotConstJmpt then
        pool_target (get pool (snd (snd (bin_slot_slot_const_jmpf_parts b))))
      else if op = I_JumpIfMatch then
        (case get pool (unat (operand_u32 b AND 0xFFFF)) of None \<Rightarrow> JumpUnknown | Some t \<Rightarrow> JumpTo (unat t))
      else NoJump)"

definition jumps_as :: "jump \<Rightarrow> (unit, step) result \<Rightarrow> bool" where
  "jumps_as j r \<longleftrightarrow> (\<forall>s. r = Ok s \<longrightarrow> step_jump s = j)"

lemma jumps_as_if: "(c \<Longrightarrow> jumps_as j x) \<Longrightarrow> (\<not> c \<Longrightarrow> jumps_as j y) \<Longrightarrow> jumps_as j (if c then x else y)"
  by simp

lemma jumps_as_simps:
  "jumps_as j (Ok s) \<longleftrightarrow> step_jump s = j"
  "jumps_as j (rmap f r) \<longleftrightarrow> (\<forall>x. r = Ok x \<longrightarrow> step_jump (f x) = j)"
  by (auto simp: jumps_as_def result_simps)

lemma frame_step_jump: "jumps_as (branch_of b pool) (frame_step b pool m)"
  unfolding frame_step_def Let_def
  by (intro jumps_as_if)
    (auto simp: jumps_as_simps branch_of_def step0_def Let_def split: prod.splits option.splits)

section \<open>Frames are connected components\<close>

definition link_edges :: "nat \<Rightarrow> nat \<times> step \<Rightarrow> (nat \<times> nat) list" where
  "link_edges n = (\<lambda>(pc, s).
     (if step_falls s \<and> pc + 1 < n then [(pc, pc + 1)] else [])
     @ (case step_jump s of JumpTo t \<Rightarrow> if t < n then [(pc, t)] else [] | _ \<Rightarrow> []))"

text \<open>The links of a program: falling through, and jumping, inside the code.\<close>

definition frame_links :: "step list \<Rightarrow> (nat \<times> nat) set" where
  "frame_links steps = (let n = length steps in
     \<Union> (set ` set (map (link_edges n) (zip [0..<n] steps))))"

definition frame_of :: "step list \<Rightarrow> nat \<Rightarrow> nat" where
  "frame_of steps pc = (LEAST y. y < length steps \<and> (pc, y) \<in> conn (frame_links steps))"

lemma link_edges_range:
  "pc < n \<Longrightarrow> e \<in> set (link_edges n (pc, s)) \<Longrightarrow> fst e = pc \<and> snd e < n"
  by (auto simp: link_edges_def split: if_splits jump.splits)

lemma roots_loop_Cons:
  "step_jump s \<noteq> JumpUnknown \<Longrightarrow> roots_loop n ((pc, s) # rest) parent =
     (case frames.merge_all (link_edges n (pc, s)) parent of
        None \<Rightarrow> Panicked | Some p \<Rightarrow> roots_loop n rest p)"
  by (auto simp: link_edges_def split: option.splits jump.splits)

definition undecodable :: "step list \<Rightarrow> bool" where
  "undecodable steps \<longleftrightarrow> list_ex (\<lambda>s. step_jump s = JumpUnknown) steps"

lemma roots_loop_step:
  assumes "frames.represents parent n E" and "pc < n" and "step_jump s \<noteq> JumpUnknown"
  obtains p where "frames.represents p n (E \<union> set (link_edges n (pc, s)))"
    "roots_loop n ((pc, s) # xs) parent = roots_loop n xs p"
proof -
  have "\<forall>e \<in> set (link_edges n (pc, s)). fst e < n \<and> snd e < n"
    using link_edges_range[of pc n _ s] assms(2) by auto
  then obtain p where "frames.merge_all (link_edges n (pc, s)) parent = Some p"
      "frames.represents p n (E \<union> set (link_edges n (pc, s)))"
    using frames.merge_all_represents[OF assms(1)] by blast
  then show ?thesis
    using that roots_loop_Cons[OF assms(3)] by simp
qed

lemma roots_loop_undecodable:
  "frames.represents parent n E \<Longrightarrow> \<forall>p \<in> set xs. fst p < n \<Longrightarrow> undecodable (map snd xs) \<Longrightarrow>
     roots_loop n xs parent = Err ()"
proof (induction xs arbitrary: parent E)
  case (Cons x xs)
  obtain pc s where x: "x = (pc, s)" by (cases x)
  show ?case
  proof (cases "step_jump s = JumpUnknown")
    case True
    have "\<exists>p1. (if step_falls s \<and> pc + 1 < n then uf_union pc (pc + 1) parent else Some parent) = Some p1"
      using frames.merge_represents[OF Cons.prems(1), of pc "pc + 1"] by (auto split: if_splits)
    then show ?thesis
      using True by (auto simp: x)
  next
    case False
    have "pc < n" using Cons.prems(2) x by simp
    then obtain p where p: "frames.represents p n (E \<union> set (link_edges n (pc, s)))"
        "roots_loop n (x # xs) parent = roots_loop n xs p"
      using roots_loop_step[OF Cons.prems(1) _ False, of pc xs] x by metis
    then show ?thesis
      using Cons.IH[OF p(1)] Cons.prems(2,3) False x by (simp add: undecodable_def)
  qed
qed (simp add: undecodable_def)

lemma roots_loop_links:
  "frames.represents parent n E \<Longrightarrow> \<forall>p \<in> set xs. fst p < n \<Longrightarrow> \<not> undecodable (map snd xs) \<Longrightarrow>
     \<exists>p. roots_loop n xs parent = Ok p
       \<and> frames.represents p n (E \<union> \<Union> (set ` set (map (link_edges n) xs)))"
proof (induction xs arbitrary: parent E)
  case Nil
  then show ?case by simp
next
  case (Cons x xs)
  obtain pc s where x: "x = (pc, s)" by (cases x)
  have s: "step_jump s \<noteq> JumpUnknown" "pc < n" "\<not> undecodable (map snd xs)"
    using Cons.prems(2,3) x by (simp_all add: undecodable_def)
  then obtain p where p: "frames.represents p n (E \<union> set (link_edges n (pc, s)))"
      "roots_loop n (x # xs) parent = roots_loop n xs p"
    using roots_loop_step[OF Cons.prems(1), of pc s xs] x by metis
  then show ?case
    using Cons.IH[OF p(1) _ s(3)] Cons.prems(2) x by (simp add: Un_assoc)
qed

lemma roots_spec:
  "roots steps = (if undecodable steps then Err ()
     else Ok (map (frame_of steps) [0..<length steps]))"
proof -
  let ?n = "length steps" and ?xs = "zip [0..<length steps] steps"
  have m: "map snd ?xs = steps" and r: "\<forall>p \<in> set ?xs. fst p < ?n"
    by (auto dest: set_zip_leftD)
  show ?thesis
  proof (cases "undecodable steps")
    case True
    then show ?thesis
      using roots_loop_undecodable[OF initial_represents r] m by (simp add: roots_def Let_def)
  next
    case False
    then obtain p where p: "roots_loop ?n ?xs [0..<?n] = Ok p"
        "frames.represents p ?n (frame_links steps)"
      using roots_loop_links[OF initial_represents r] m by (auto simp: frame_links_def Let_def)
    then have "find_all p [0..<?n] = Some (map (rep p) [0..<?n])"
      by (intro find_all_spec) (auto simp: frames.represents_def)
    moreover have "rep p x = frame_of steps x" if "x < ?n" for x
      using frames.represents_Least[OF p(2) that] by (simp add: frame_of_def)
    ultimately show ?thesis
      using False p(1) by (simp add: roots_def Let_def)
  qed
qed

lemma rtraverse_length: "rtraverse f xs = Ok ys \<Longrightarrow> length ys = length xs"
  by (auto simp: rtraverse_Ok_iff dest: list_all2_lengthD)

text \<open>Frames. When every word decodes, \<open>frame_roots\<close> always answers: nothing when some branch
  has an undecodable target, and otherwise, for each position of the code, the lowest position it
  is connected to by falling through and jumping. The union-find with path halving inside never
  loops or leaves its array.\<close>

theorem frame_roots_components:
  assumes "rtraverse (\<lambda>b. frame_step b pool 0) code = Ok steps"
  shows "frame_roots code pool =
    (if undecodable steps then Err ()
     else Ok (map (\<lambda>pc. LEAST y. y < length code \<and> (pc, y) \<in> conn (frame_links steps)) [0..<length code]))"
  using rtraverse_length[OF assms] assms
  by (simp add: frame_roots_def roots_spec frame_of_def[abs_def])

theorem frame_roots_components_witness:
  "frame_roots [\<lparr>bytecode = I_HALT, operands = 0\<rparr>] [] =
     Ok (map (\<lambda>pc. LEAST y. y < length [\<lparr>bytecode = I_HALT, operands = 0\<rparr> :: byte] \<and>
        (pc, y) \<in> conn (frame_links [step0\<lparr>step_falls := False\<rparr>])) [0..<1])"
  using frame_roots_components[of "[]" "[\<lparr>bytecode = I_HALT, operands = 0\<rparr>]" "[step0\<lparr>step_falls := False\<rparr>]"]
  by (simp add: frame_step_def step0_def undecodable_def)

section \<open>The reserve covers every height\<close>

definition u64_top :: nat where
  "u64_top = 2 ^ 64 - 1"

lemma foldl_max_ge: "x \<in> set xs \<Longrightarrow> x \<le> foldl max a xs" "a \<le> foldl max a xs" for a :: nat
proof (induction xs arbitrary: a)
  case (Cons y ys)
  { case 1
    then show ?case
      using Cons.IH(1)[of "max a y"] Cons.IH(2)[of "max a y"] by auto
  next
    case 2
    then show ?case
      using Cons.IH(2)[of "max a y"] by auto }
qed simp_all

definition slots_max :: "step list \<Rightarrow> nat" where
  "slots_max xs = foldl max 0 (map step_slots xs)"

definition push_sum :: "step list \<Rightarrow> nat" where
  "push_sum xs = sum_list (map step_push xs)"

lemma foldl_bound_add:
  "bound_push b0 \<le> u64_top \<Longrightarrow>
     foldl bound_add b0 xs = \<lparr>bound_push = min (bound_push b0 + push_sum xs) u64_top,
       bound_slots = foldl max (bound_slots b0) (map step_slots xs)\<rparr>"
  by (induction xs arbitrary: b0)
    (auto simp: push_sum_def bound_add_def sat_add_u64_def u64_top_def min_def)

lemma bound_words_steps:
  "bound_words (foldl bound_add bound0 xs) = min (push_sum xs + slots_max xs) u64_top"
  by (auto simp: foldl_bound_add bound0_def bound_words_def sat_add_u64_def slots_max_def u64_top_def
      min_def)

text \<open>What the accumulation leaves in one entry.\<close>

lemma per_root_entry:
  "r < length bs \<Longrightarrow> \<forall>p \<in> set srs. snd p < length bs \<Longrightarrow>
     foldl (\<lambda>bs (s, r). bs[r := bound_add (bs ! r) s]) bs srs ! r =
       foldl bound_add (bs ! r) (map fst (filter (\<lambda>p. snd p = r) srs))"
  by (induction srs arbitrary: bs) (auto simp: nth_list_update split: prod.splits)

lemma per_root_length:
  "length (foldl (\<lambda>bs (s, r). bs[r := bound_add (bs ! r) s]) bs srs) = length bs"
  by (induction srs arbitrary: bs) (auto split: prod.splits)

lemma zip_index: "length rs = length xs \<Longrightarrow> zip xs rs = map (\<lambda>i. (xs ! i, rs ! i)) [0..<length xs]"
  by (rule nth_equalityI) simp_all

lemma selected_push:
  assumes "length rs = length xs"
  shows "push_sum (map fst (filter (\<lambda>p. snd p = r) (zip xs rs))) =
    (\<Sum>i | i < length xs \<and> rs ! i = r. step_push (xs ! i))"
proof -
  have "push_sum (map fst (filter (\<lambda>p. snd p = r) (zip xs rs))) =
      sum_list (map (\<lambda>i. step_push (xs ! i)) (filter (\<lambda>i. rs ! i = r) [0..<length xs]))"
    by (simp add: push_sum_def zip_index[OF assms] filter_map comp_def)
  also have "\<dots> = (\<Sum>i \<in> set (filter (\<lambda>i. rs ! i = r) [0..<length xs]). step_push (xs ! i))"
    by (intro sum_list_distinct_conv_sum_set) simp
  also have "\<dots> = (\<Sum>i | i < length xs \<and> rs ! i = r. step_push (xs ! i))"
    by (intro sum.cong) auto
  finally show ?thesis .
qed

lemma selected_slots:
  assumes "length rs = length xs" and "i < length xs" and "rs ! i = r"
  shows "step_slots (xs ! i) \<le> slots_max (map fst (filter (\<lambda>p. snd p = r) (zip xs rs)))"
  using assms unfolding slots_max_def
  by (intro foldl_max_ge) (force simp: zip_index)

lemma push_sum_all: "push_sum xs = (\<Sum>i < length xs. step_push (xs ! i))"
  by (simp add: push_sum_def sum_list_sum_nth atLeast0LessThan)

lemma slots_max_nth: "i < length xs \<Longrightarrow> step_slots (xs ! i) \<le> slots_max xs"
  unfolding slots_max_def by (intro foldl_max_ge) simp

lemma frame_of_le: "pc < length steps \<Longrightarrow> frame_of steps pc \<le> pc"
  unfolding frame_of_def by (rule Least_le) simp

text \<open>The bound of a frame counts every push of the frame, and any slot it names.\<close>

lemma frame_words_ge:
  assumes "rtraverse (\<lambda>b. frame_step b pool m) code = Ok steps" and "frame_words code pool m = Ok w"
    and "C \<subseteq> {pc. pc < length steps \<and> frame_of steps pc = r}"
    and "q < length steps" and "frame_of steps q = r"
  shows "min ((\<Sum>pc \<in> C. step_push (steps ! pc)) + step_slots (steps ! q)) u64_top \<le> w"
proof (cases "undecodable steps")
  case True
  then have w: "w = min (push_sum steps + slots_max steps) u64_top"
    using assms(1,2) by (simp add: frame_words_def roots_spec whole_program_def bound_words_steps)
  have "(\<Sum>pc \<in> C. step_push (steps ! pc)) \<le> push_sum steps"
    unfolding push_sum_all using assms(3) by (intro sum_mono2) auto
  then show ?thesis
    using slots_max_nth[OF assms(4)] w by simp
next
  case False
  let ?n = "length steps"
  let ?rs = "map (frame_of steps) [0..<?n]"
  let ?per = "foldl (\<lambda>bs (s, r). bs[r := bound_add (bs ! r) s]) (replicate ?n bound0) (zip steps ?rs)"
  let ?sel = "map fst (filter (\<lambda>p. snd p = r) (zip steps ?rs))"
  have w: "w = foldl max 0 (map bound_words ?per)"
    using assms(1,2) False by (simp add: frame_words_def roots_spec Let_def)
  have r: "r < ?n"
    using frame_of_le[OF assms(4)] assms(4,5) by simp
  have "\<forall>p \<in> set (zip steps ?rs). snd p < ?n"
    using frame_of_le[of _ steps] by (auto dest!: set_zip_rightD) (meson le_less_trans)
  then have "?per ! r = foldl bound_add bound0 ?sel"
    using per_root_entry[of r "replicate ?n bound0" "zip steps ?rs"] r by simp
  moreover have "bound_words (?per ! r) \<le> w"
    unfolding w using r by (intro foldl_max_ge) (simp add: per_root_length)
  ultimately have "min (push_sum ?sel + slots_max ?sel) u64_top \<le> w"
    by (simp add: bound_words_steps)
  moreover have "(\<Sum>pc \<in> C. step_push (steps ! pc)) \<le> push_sum ?sel"
    unfolding selected_push[of ?rs steps r, simplified] using assms(3)
    by (intro sum_mono2) auto
  moreover have "step_slots (steps ! q) \<le> slots_max ?sel"
    using assms(4,5) by (intro selected_slots) simp_all
  ultimately show ?thesis by simp
qed

subsection \<open>Heights along a frame\<close>

lemma conn_frame_of:
  assumes "(p, q) \<in> conn (frame_links steps)"
  shows "frame_of steps p = frame_of steps q"
proof -
  have "(p, y) \<in> conn (frame_links steps) \<longleftrightarrow> (q, y) \<in> conn (frame_links steps)" for y
    using assms conn_trans conn_sym by metis
  then show ?thesis by (simp add: frame_of_def)
qed

lemma frame_links_range:
  "(p, q) \<in> frame_links steps \<Longrightarrow> p < length steps \<and> q < length steps"
  using link_edges_range by (fastforce simp: frame_links_def Let_def dest!: set_zip_leftD)

text \<open>
  What the compiler promises of the stack height at each position: along every link the next
  position is entered no higher than the op left the cursor.
\<close>

definition heights_ok :: "step list \<Rightarrow> (nat \<Rightarrow> nat) \<Rightarrow> bool" where
  "heights_ok steps height \<longleftrightarrow> (\<forall>p q. (p, q) \<in> frame_links steps \<longrightarrow>
     height q \<le> max (height p + step_push (steps ! p)) (step_slots (steps ! p)))"

lemma path_height:
  assumes "rtrancl_path (\<lambda>p q. (p, q) \<in> frame_links steps) x xs z" and "heights_ok steps height"
    and "height x \<le> B" and "\<forall>p \<in> set (x # xs). step_slots (steps ! p) \<le> S"
  shows "height z + step_push (steps ! z) \<le> max B S + sum_list (map (\<lambda>p. step_push (steps ! p)) (x # xs))"
  using assms(1,3,4)
proof (induction arbitrary: B rule: rtrancl_path.induct)
  case (step x y ys z)
  have "height y \<le> max (height x + step_push (steps ! x)) (step_slots (steps ! x))"
    using assms(2) step.hyps(1) by (simp add: heights_ok_def)
  then have "height y \<le> max B S + step_push (steps ! x)"
    using step.prems by auto
  moreover have "max (max B S + step_push (steps ! x)) S = max B S + step_push (steps ! x)"
    by simp
  ultimately show ?case
    using step.IH[of "max B S + step_push (steps ! x)"] step.prems(2) by simp
qed simp

definition max_call_arity :: "byte list \<Rightarrow> nat" where
  "max_call_arity code = foldl max 0 (map (\<lambda>b. fst (call_parts b))
     (filter (\<lambda>b. bytecode b \<in> {I_CALL, I_TailCall}) code))"

lemma frame_reserveD:
  assumes "frame_reserve code pool = Ok r"
  obtains w where "frame_words code pool (reserve_match_payload r) = Ok w"
    "reserve_words r = max 1 (min (w + max_call_arity code) u64_top)"
  using assms by (auto simp: frame_reserve_def Let_def result_simps max_call_arity_def u64_top_def)

lemma frame_height_bound:
  assumes steps: "rtraverse (\<lambda>b. frame_step b pool m) code = Ok steps"
    and words: "frame_words code pool m = Ok w"
    and heights: "heights_ok steps height" and e: "e < length steps" "height e \<le> A"
    and reach: "(e, pc) \<in> (frame_links steps)\<^sup>*"
  shows "max (height pc + step_push (steps ! pc)) (step_slots (steps ! pc)) \<le> w + A \<or> u64_top \<le> w"
proof -
  let ?r = "\<lambda>p q. (p, q) \<in> frame_links steps"
  have "?r\<^sup>*\<^sup>* e pc"
    using reach by (simp add: rtrancl_def)
  then obtain ys where "rtrancl_path ?r e ys pc"
    by (auto simp: rtranclp_eq_rtrancl_path)
  then obtain xs where path: "rtrancl_path ?r e xs pc" and dist: "distinct (e # xs)"
    by (rule rtrancl_path_distinct)
  have on_path: "\<forall>p \<in> set (e # xs). p < length steps \<and> frame_of steps p = frame_of steps e"
    using path e(1)
  proof (induction rule: rtrancl_path.induct)
    case (step x y ys z)
    then show ?case
      using conn_frame_of[OF conn_edge[OF step.hyps(1)]] frame_links_range[OF step.hyps(1)] by auto
  qed simp
  have pc: "pc \<in> set (e # xs)"
    using path by (induction rule: rtrancl_path.induct) auto
  let ?P = "\<Sum>p \<in> set (e # xs). step_push (steps ! p)"
  have ge: "min (?P + step_slots (steps ! q)) u64_top \<le> w" if "q \<in> set (e # xs)" for q
  proof (rule frame_words_ge[OF steps words])
    show "set (e # xs) \<subseteq> {p. p < length steps \<and> frame_of steps p = frame_of steps e}"
      using on_path by blast
    show "q < length steps" "frame_of steps q = frame_of steps e"
      using on_path that by blast+
  qed
  define S where "S = Max ((\<lambda>p. step_slots (steps ! p)) ` set (e # xs))"
  have S: "\<forall>p \<in> set (e # xs). step_slots (steps ! p) \<le> S"
    unfolding S_def by simp
  obtain q where q: "q \<in> set (e # xs)" "step_slots (steps ! q) = S"
  proof -
    have "S \<in> (\<lambda>p. step_slots (steps ! p)) ` set (e # xs)"
      unfolding S_def by (rule Max_in) auto
    then show ?thesis using that by blast
  qed
  have "sum_list (map (\<lambda>p. step_push (steps ! p)) (e # xs)) = ?P"
    using dist by (intro sum_list_distinct_conv_sum_set)
  then have "height pc + step_push (steps ! pc) \<le> max A S + ?P"
    using path_height[OF path heights e(2) S] by simp
  then show ?thesis
    using ge[OF q(1)] q(2) S pc by (auto simp: min_def split: if_splits)
qed

text \<open>C3: the stack reserve. Take any assignment of stack heights to code positions that never
  rises along a fall-through or jump by more than the op pushes or the slots it names. Then in every
  frame entered with no more words than the widest call passes, every op, before and after it runs,
  stays within the words that \<open>frame_reserve\<close> makes the VM keep free (unless that number saturated
  at the top of a 64-bit word).\<close>

theorem frame_reserve_covers:
  assumes "frame_reserve code pool = Ok r"
    and "rtraverse (\<lambda>b. frame_step b pool (reserve_match_payload r)) code = Ok steps"
    and "heights_ok steps height" and "e < length steps" and "height e \<le> max_call_arity code"
    and "(e, pc) \<in> (frame_links steps)\<^sup>*"
  shows "max (height pc + step_push (steps ! pc)) (step_slots (steps ! pc)) \<le> reserve_words r
    \<or> reserve_words r = 2 ^ 64 - 1"
proof -
  obtain w where w: "frame_words code pool (reserve_match_payload r) = Ok w"
    "reserve_words r = max 1 (min (w + max_call_arity code) u64_top)"
    using frame_reserveD[OF assms(1)] by blast
  show ?thesis
    using frame_height_bound[OF assms(2) w(1) assms(3,4,5,6)] w(2)
    by (auto simp: u64_top_def min_def split: if_splits)
qed

theorem frame_reserve_covers_witness:
  "frame_reserve [\<lparr>bytecode = I_DUPLICATE, operands = 0\<rparr>, \<lparr>bytecode = I_HALT, operands = 0\<rparr>] [] =
     Ok \<lparr>reserve_words = 1, reserve_match_payload = 2\<rparr> \<and> max (1 + 0) 0 \<le> (1 :: nat)"
proof -
  let ?code = "[\<lparr>bytecode = I_DUPLICATE, operands = 0\<rparr>, \<lparr>bytecode = I_HALT, operands = 0\<rparr>] :: byte list"
  let ?steps = "[step0\<lparr>step_push := 1\<rparr>, step0\<lparr>step_falls := False\<rparr>]"
  let ?r = "\<lparr>reserve_words = 1, reserve_match_payload = 2\<rparr>"
  have s: "rtraverse (\<lambda>b. frame_step b [] 2) ?code = Ok ?steps"
    by (simp add: frame_step_def step0_def)
  have "roots ?steps = Ok [0, 0]"
    by (simp add: roots_def step0_def uf_union_def uf_find_def upt_rec Let_def)
  then have "frame_words ?code [] 2 = Ok 1"
    unfolding frame_words_def s
    by (simp add: step0_def bound_add_def bound0_def bound_words_def sat_add_u64_def Let_def)
  moreover have "widest_payload ?code [] = 2"
    by (simp add: widest_payload_def)
  ultimately have r: "frame_reserve ?code [] = Ok ?r"
    by (simp add: frame_reserve_def)
  have s': "rtraverse (\<lambda>b. frame_step b [] (reserve_match_payload ?r)) ?code = Ok ?steps"
    using s by simp
  have l: "frame_links ?steps = {(0, 1)}"
    by (simp add: frame_links_def link_edges_def step0_def)
  then have "heights_ok ?steps (\<lambda>pc. pc)"
    by (simp add: heights_ok_def step0_def)
  then have "max (1 + step_push (?steps ! 1)) (step_slots (?steps ! 1)) \<le> reserve_words ?r
      \<or> reserve_words ?r = 2 ^ 64 - 1"
    using frame_reserve_covers[OF r s', of "\<lambda>pc. pc" 0 1] l by (simp add: r_into_rtrancl)
  then show ?thesis
    using r by (simp add: step0_def)
qed


section \<open>Branch targets\<close>

definition mark_targets :: "step list \<Rightarrow> bool list \<Rightarrow> bool list" where
  "mark_targets steps out = map (\<lambda>t. out ! t \<or> (\<exists>s \<in> set steps. step_jump s = JumpTo t)) [0..<length out]"

lemma mark_targets_Cons:
  "mark_targets (s # steps) out = mark_targets steps
     (case step_jump s of JumpTo t \<Rightarrow> if t < length out then out[t := True] else out | _ \<Rightarrow> out)"
  unfolding mark_targets_def
  by (rule nth_equalityI) (auto simp: nth_list_update split: jump.splits)

lemma jump_targets_fold_Err: 
  "foldl (\<lambda>acc b. rbind acc (\<lambda>out. rbind (f b) (g out))) (Err e) bs = Err e"
  by (induction bs) auto

lemma jump_targets_fold:
  "rtraverse (\<lambda>b. frame_step b pool 0) bs = Ok steps \<Longrightarrow>
     foldl (\<lambda>acc b. rbind acc (\<lambda>out. rbind (frame_step b pool 0) (\<lambda>s.
         case step_jump s of
           JumpTo t \<Rightarrow> Ok (if t < length out then out[t := True] else out)
         | NoJump \<Rightarrow> Ok out
         | JumpUnknown \<Rightarrow> Err ()))) (Ok out) bs =
       (if undecodable steps then Err () else Ok (mark_targets steps out))"
proof (induction bs arbitrary: steps out)
  case Nil
  then show ?case
    by (auto simp: undecodable_def mark_targets_def intro: nth_equalityI)
next
  case (Cons b bs)
  then obtain s ss where s: "frame_step b pool 0 = Ok s" "rtraverse (\<lambda>b. frame_step b pool 0) bs = Ok ss"
      "steps = s # ss"
    by (auto simp: result_simps)
  then show ?case
    using Cons.IH[OF s(2)]
    by (auto simp: undecodable_def mark_targets_Cons jump_targets_fold_Err split: jump.splits)
qed

text \<open>Branch targets. When every word decodes, \<open>jump_targets\<close> marks exactly the positions some
  branch of the code can land on, and gives up only on an undecodable branch.\<close>

theorem jump_targets_exact:
  assumes "rtraverse (\<lambda>b. frame_step b pool 0) code = Ok steps"
  shows "jump_targets code pool =
    (if undecodable steps then Err ()
     else Ok (map (\<lambda>t. \<exists>s \<in> set steps. step_jump s = JumpTo t) [0..<length code]))"
  unfolding jump_targets_def jump_targets_fold[OF assms]
  by (auto simp: mark_targets_def intro: nth_equalityI)

theorem jump_targets_exact_witness:
  "jump_targets [\<lparr>bytecode = I_JMP, operands = 0\<rparr>] [] = Ok [True]"
  using jump_targets_exact[of "[]" "[\<lparr>bytecode = I_JMP, operands = 0\<rparr>]"
      "[step0\<lparr>step_falls := False, step_jump := JumpTo 0\<rparr>]"]
  by (simp add: frame_step_def step0_def undecodable_def operand_u32_def)

end
