(* ===== verification/Snapshot.thy ===== *)
theory Snapshot
  imports Codec
begin

text \<open>
  Heap snapshots in the constant pool, after \<^verbatim>\<open>common/src/snapshot.rs\<close>: the object graph of a
  compile-time value as a table of objects and the static slots that hold its roots, encoded
  as 64-bit words. A Rust \<open>String\<close> is its bytes, which \<open>valid_utf8\<close> tests as \<open>from_utf8\<close>
  does. Indexing that the source does without a check is \<open>Panicked\<close> out of range.
\<close>

unbundle bit_operations_syntax

section \<open>UTF-8\<close>

definition is_cont :: "u8 \<Rightarrow> bool" where
  "is_cont b \<longleftrightarrow> 0x80 \<le> b \<and> b \<le> 0xBF"

text \<open>The well-formed byte sequences of the Unicode standard (what \<open>String::from_utf8\<close> accepts).\<close>

fun valid_utf8 :: "u8 list \<Rightarrow> bool" where
  "valid_utf8 [] = True"
| "valid_utf8 (a # rest) =
     (if a \<le> 0x7F then valid_utf8 rest
      else if 0xC2 \<le> a \<and> a \<le> 0xDF then
        (case rest of b # rest' \<Rightarrow> is_cont b \<and> valid_utf8 rest' | _ \<Rightarrow> False)
      else if 0xE0 \<le> a \<and> a \<le> 0xEF then
        (case rest of b # c # rest' \<Rightarrow>
           (if a = 0xE0 then 0xA0 \<le> b \<and> b \<le> 0xBF
            else if a = 0xED then 0x80 \<le> b \<and> b \<le> 0x9F else is_cont b)
           \<and> is_cont c \<and> valid_utf8 rest'
         | _ \<Rightarrow> False)
      else if 0xF0 \<le> a \<and> a \<le> 0xF4 then
        (case rest of b # c # d # rest' \<Rightarrow>
           (if a = 0xF0 then 0x90 \<le> b \<and> b \<le> 0xBF
            else if a = 0xF4 then 0x80 \<le> b \<and> b \<le> 0x8F else is_cont b)
           \<and> is_cont c \<and> is_cont d \<and> valid_utf8 rest'
         | _ \<Rightarrow> False)
      else False)"

section \<open>Snapshots\<close>

datatype snap_word = Raw u64 | Ref u32 bool | UnitEnum u32 bool | EmptyTuple bool

datatype snap_object =
    SnapString "u8 list"
  | SnapBytes "u8 list"
  | SnapArray u8 "snap_word list"
  | SnapTuple u8 "snap_word list"
  | SnapEnum u32 u32 u8 "snap_word list"
  | SnapInstance u32 "snap_word list"
  | SnapBoxed u16 snap_word

record heap_snapshot =
  snap_objects :: "snap_object list"
  snap_statics :: "(u32 \<times> snap_word) list"

datatype snapshot_decode_error =
  BadMagic | Truncated | Length | BadObjectKind u64 | BadRef u32 | BadUtf8

definition SNAPSHOT_MAGIC :: u64 where
  "SNAPSHOT_MAGIC = 0x534e4150434f494c"

section \<open>Writing\<close>

definition snap_tag :: "snap_word \<Rightarrow> u64" where
  "snap_tag w = (case w of Raw _ \<Rightarrow> 0 | Ref _ _ \<Rightarrow> 1 | UnitEnum _ _ \<Rightarrow> 2 | EmptyTuple _ \<Rightarrow> 3)"

definition with_err_bit :: "u64 \<Rightarrow> bool \<Rightarrow> u64" where
  "with_err_bit x err_bit = push_bit 1 x OR of_bool err_bit"

definition snap_payload :: "snap_word \<Rightarrow> u64" where
  "snap_payload w = (case w of
     Raw raw \<Rightarrow> raw
   | Ref index err_bit \<Rightarrow> with_err_bit (ucast index) err_bit
   | UnitEnum tag err_bit \<Rightarrow> with_err_bit (ucast tag) err_bit
   | EmptyTuple err_bit \<Rightarrow> of_bool err_bit)"

definition tag_word :: "snap_word list \<Rightarrow> u64" where
  "tag_word chunk =
     foldl (\<lambda>tags (i, w). tags OR push_bit (2 * i) (snap_tag w)) 0 (zip [0..<length chunk] chunk)"

definition encode_words :: "snap_word list \<Rightarrow> u64 list" where
  "encode_words ws = of_nat (length ws) # map tag_word (chunks 32 ws) @ map snap_payload ws"

definition encode_bytes :: "u8 list \<Rightarrow> u64 list" where
  "encode_bytes bs = of_nat (length bs) #
     map (\<lambda>chunk. from_le_bytes (chunk @ replicate (8 - length chunk) 0)) (chunks 8 bs)"

definition object_header :: "u64 \<Rightarrow> u64 \<Rightarrow> u64 \<Rightarrow> u64" where
  "object_header kind aux extra = kind OR push_bit 8 aux OR push_bit 32 extra"

definition encode_object :: "snap_object \<Rightarrow> u64 list" where
  "encode_object ob = (case ob of
     SnapString s \<Rightarrow> object_header 0 0 0 # encode_bytes s
   | SnapBytes b \<Rightarrow> object_header 1 0 0 # encode_bytes b
   | SnapArray elem_kind ws \<Rightarrow> object_header 2 (ucast elem_kind) 0 # encode_words ws
   | SnapTuple kinds ws \<Rightarrow> object_header 3 (ucast kinds) 0 # encode_words ws
   | SnapEnum tag type_id kinds ws \<Rightarrow>
       object_header 4 (ucast kinds) (ucast tag) # ucast type_id # encode_words ws
   | SnapInstance type_id ws \<Rightarrow> object_header 5 0 (ucast type_id) # encode_words ws
   | SnapBoxed tag w \<Rightarrow> object_header 6 0 (ucast tag) # encode_words [w])"

definition snapshot_encode :: "heap_snapshot \<Rightarrow> u64 list" where
  "snapshot_encode s =
     (let out = [SNAPSHOT_MAGIC, 0, of_nat (length (snap_objects s)), of_nat (length (snap_statics s))]
            @ map (\<lambda>(slot, _). ucast slot) (snap_statics s)
            @ encode_words (map snd (snap_statics s))
            @ concat (map encode_object (snap_objects s))
      in out[1 := of_nat (length out)])"

definition encoded_len :: "u64 list \<Rightarrow> nat option" where
  "encoded_len ws = (case ws of
     magic # len # _ \<Rightarrow> if magic = SNAPSHOT_MAGIC then Some (unat len) else None
   | _ \<Rightarrow> None)"

section \<open>Reading\<close>

definition rd_next :: "(u64, snapshot_decode_error, u64) reader" where
  "rd_next ws at = (case get ws at of Some w \<Rightarrow> Ok (w, at + 1) | None \<Rightarrow> Err Truncated)"

text \<open>An end that overflows \<^verbatim>\<open>usize\<close> is past every slice, so it is the same error as a range that
  is too long.\<close>

definition rd_take :: "nat \<Rightarrow> (u64, snapshot_decode_error, u64 list) reader" where
  "rd_take n ws at =
     (case get_range ws at (at + n) of Some xs \<Rightarrow> Ok (xs, at + n) | None \<Rightarrow> Err Truncated)"

definition rd_len :: "(u64, snapshot_decode_error, nat) reader" where
  "rd_len ws at = rmap (\<lambda>(w, at1). (unat w, at1)) (rd_next ws at)"

definition rd_bytes :: "(u64, snapshot_decode_error, u8 list) reader" where
  "rd_bytes ws at =
     rbind (rd_len ws at) (\<lambda>(len, at1).
     rbind (rd_take (div_ceil len 8) ws at1) (\<lambda>(packed, at2).
       Ok (take len (concat (map (to_le_bytes 8) packed)), at2)))"

definition rd_word :: "u64 list \<Rightarrow> nat \<times> u64 \<Rightarrow> (snapshot_decode_error, snap_word) result" where
  "rd_word tags = (\<lambda>(i, raw).
     case get tags (i div 32) of
       None \<Rightarrow> Panicked
     | Some t \<Rightarrow>
         (let tag = drop_bit (2 * (i mod 32)) t AND 3 in
          if tag = 0 then Ok (Raw raw)
          else if tag = 1 then
            (if unat (drop_bit 1 raw) < 2 ^ 32
             then Ok (Ref (ucast (drop_bit 1 raw)) (raw AND 1 \<noteq> 0)) else Err (BadRef (- 1)))
          else if tag = 2 then Ok (UnitEnum (ucast (drop_bit 1 raw)) (raw AND 1 \<noteq> 0))
          else Ok (EmptyTuple (raw AND 1 \<noteq> 0))))"

definition rd_words :: "(u64, snapshot_decode_error, snap_word list) reader" where
  "rd_words ws at =
     rbind (rd_len ws at) (\<lambda>(len, at1).
     rbind (rd_take (div_ceil len 32) ws at1) (\<lambda>(tags, at2).
     rbind (rd_take len ws at2) (\<lambda>(payload, at3).
       rmap (\<lambda>xs. (xs, at3)) (rtraverse (rd_word tags) (zip [0..<length payload] payload)))))"

definition rd_object_body ::
    "u64 \<Rightarrow> u8 \<Rightarrow> u32 \<Rightarrow> (u64, snapshot_decode_error, snap_object) reader" where
  "rd_object_body kind aux extra ws at =
     (if kind = 0 then rbind (rd_bytes ws at) (\<lambda>(bs, at1).
        if valid_utf8 bs then Ok (SnapString bs, at1) else Err BadUtf8)
      else if kind = 1 then rmap (\<lambda>(bs, at1). (SnapBytes bs, at1)) (rd_bytes ws at)
      else if kind = 2 then rmap (\<lambda>(xs, at1). (SnapArray aux xs, at1)) (rd_words ws at)
      else if kind = 3 then rmap (\<lambda>(xs, at1). (SnapTuple aux xs, at1)) (rd_words ws at)
      else if kind = 4 then rbind (rd_next ws at) (\<lambda>(type_id, at1).
        rmap (\<lambda>(xs, at2). (SnapEnum extra (ucast type_id) aux xs, at2)) (rd_words ws at1))
      else if kind = 5 then rmap (\<lambda>(xs, at1). (SnapInstance extra xs, at1)) (rd_words ws at)
      else if kind = 6 then rbind (rd_words ws at) (\<lambda>(xs, at1).
        case xs of [w] \<Rightarrow> Ok (SnapBoxed (ucast extra) w, at1) | _ \<Rightarrow> Err Length)
      else Err (BadObjectKind kind))"

definition rd_object :: "(u64, snapshot_decode_error, snap_object) reader" where
  "rd_object ws at =
     rbind (rd_next ws at) (\<lambda>(header, at1).
       rd_object_body (header AND 0xFF) (ucast (drop_bit 8 header)) (ucast (drop_bit 32 header)) ws at1)"

definition check_ref :: "nat \<Rightarrow> snap_word \<Rightarrow> (snapshot_decode_error, unit) result" where
  "check_ref n w = (case w of
     Ref index _ \<Rightarrow> if n \<le> unat index then Err (BadRef index) else Ok ()
   | _ \<Rightarrow> Ok ())"

definition object_words :: "snap_object \<Rightarrow> snap_word list" where
  "object_words ob = (case ob of
     SnapString _ \<Rightarrow> [] | SnapBytes _ \<Rightarrow> []
   | SnapArray _ ws \<Rightarrow> ws | SnapTuple _ ws \<Rightarrow> ws | SnapEnum _ _ _ ws \<Rightarrow> ws
   | SnapInstance _ ws \<Rightarrow> ws | SnapBoxed _ w \<Rightarrow> [w])"

definition check_refs :: "heap_snapshot \<Rightarrow> (snapshot_decode_error, unit) result" where
  "check_refs s =
     (let n = length (snap_objects s) in
      rbind (rtraverse (check_ref n) (map snd (snap_statics s))) (\<lambda>_.
      rmap (\<lambda>_. ()) (rtraverse (\<lambda>ob. rtraverse (check_ref n) (object_words ob)) (snap_objects s))))"

definition slot_u32 :: "u64 \<times> snap_word \<Rightarrow> (snapshot_decode_error, u32 \<times> snap_word) result" where
  "slot_u32 = (\<lambda>(slot, w). if unat slot < 2 ^ 32 then Ok (ucast slot, w) else Err Length)"

definition snapshot_decode :: "u64 list \<Rightarrow> (snapshot_decode_error, heap_snapshot) result" where
  "snapshot_decode input =
     (if get input 0 \<noteq> Some SNAPSHOT_MAGIC then Err BadMagic
      else if length input < 4 then Err Truncated
      else (case get_range input 0 (unat (input ! 1)) of
        None \<Rightarrow> Err Truncated
      | Some ws \<Rightarrow>
        (if length ws < 4 then Panicked
         else
           (let total = length ws; n_objects = unat (ws ! 2); n_statics = unat (ws ! 3) in
            rbind (rd_take n_statics ws 4) (\<lambda>(slots, at1).
            rbind (rd_words ws at1) (\<lambda>(roots, at2).
            if length roots \<noteq> n_statics then Err Length
            else rbind (rtraverse slot_u32 (zip slots roots)) (\<lambda>statics.
            if length ws < n_objects then Err Length
            else rbind (read_times n_objects rd_object ws at2) (\<lambda>(objs, at3).
            if at3 \<noteq> total then Err Length
            else
              (let s = \<lparr>snap_objects = objs, snap_statics = statics\<rparr> in
               rbind (check_refs s) (\<lambda>_. Ok s)))))))))) "

section \<open>Reading back what was written\<close>

lemma rd_next_spells: "get ws at = Some w \<Longrightarrow> rd_next ws at = Ok (w, Suc at)"
  by (simp add: rd_next_def del: get_Some_iff)

lemma rd_take_spells: "spells ws at xs \<Longrightarrow> n = length xs \<Longrightarrow> rd_take n ws at = Ok (xs, at + n)"
  by (simp add: rd_take_def spells_get_range)

lemma rd_len_spells: "get ws at = Some (of_nat n) \<Longrightarrow> n < 2 ^ 64 \<Longrightarrow> rd_len ws at = Ok (n, Suc at)"
  by (simp add: rd_len_def rd_next_spells unsigned_of_nat take_bit_nat_eq_self del: get_Some_iff)

lemma tag_word_snoc:
  "tag_word (xs @ [w]) = tag_word xs OR push_bit (2 * length xs) (snap_tag w)"
  by (simp add: tag_word_def)

lemma snap_tag_take: "take_bit 2 (snap_tag w) = snap_tag w"
  by (cases w) (simp_all add: snap_tag_def)

lemma bit_snap_tag: "bit (snap_tag w) k \<Longrightarrow> k < 2"
  by (metis bit_take_bit_iff snap_tag_take)

lemma bit_tag_word_bound: "bit (tag_word xs) k \<Longrightarrow> k < 2 * length xs"
proof (induction xs rule: rev_induct)
  case Nil
  then show ?case by (simp add: tag_word_def)
next
  case (snoc w xs)
  then show ?case
    by (auto simp: tag_word_snoc bit_simps dest: bit_snap_tag)
qed

lemma tag_word_field:
  "i < length xs \<Longrightarrow> length xs \<le> 32 \<Longrightarrow> drop_bit (2 * i) (tag_word xs) AND 3 = snap_tag (xs ! i)"
proof (induction xs rule: rev_induct)
  case (snoc w xs)
  show ?case
  proof (cases "i < length xs")
    case True
    have "drop_bit (2 * i) (tag_word (xs @ [w])) AND 3 = drop_bit (2 * i) (tag_word xs) AND 3"
      using True unfolding and_mask_lit
      by (intro bit_word_eqI) (auto simp: tag_word_snoc bit_simps)
    then show ?thesis
      using snoc True by (simp add: nth_append)
  next
    case False
    then have i: "i = length xs" using snoc.prems by simp
    have "drop_bit (2 * i) (tag_word (xs @ [w])) AND 3 = snap_tag w"
      using snoc.prems i unfolding and_mask_lit
      by (intro bit_word_eqI)
        (auto simp: tag_word_snoc bit_simps dest: bit_snap_tag bit_tag_word_bound)
    then show ?thesis
      using i by simp
  qed
qed simp

lemma with_err_bit_fields:
  fixes index :: u32
  shows "ucast (drop_bit 1 (with_err_bit (ucast index) e)) = index"
    "unat (drop_bit 1 (with_err_bit (ucast index) e)) < 2 ^ 32"
    "with_err_bit (ucast index) e AND 1 \<noteq> 0 \<longleftrightarrow> e"
proof -
  have d: "drop_bit 1 (with_err_bit (ucast index) e) = ucast index"
    unfolding with_err_bit_def
    by (rule bit_word_eqI) (auto simp: bit_simps simp del: push_bit_Suc drop_bit_Suc)
  show "ucast (drop_bit 1 (with_err_bit (ucast index) e)) = index"
    unfolding d by (rule bit_word_eqI) (auto simp: bit_simps)
  show "unat (drop_bit 1 (with_err_bit (ucast index) e)) < 2 ^ 32"
    unfolding d by (simp add: unat_ucast_lits)
  have "bit (with_err_bit (ucast index) e) 0 \<longleftrightarrow> e"
    unfolding with_err_bit_def by (simp add: bit_simps del: push_bit_Suc)
  then show "with_err_bit (ucast index) e AND 1 \<noteq> 0 \<longleftrightarrow> e"
    by (simp add: and_one_eq bit_0 odd_iff_mod_2_eq_one)
qed

lemma of_bool_low: "(of_bool e :: u64) AND 1 \<noteq> 0 \<longleftrightarrow> e"
  by simp

lemma rd_word_payload:
  assumes "i < length ws"
  shows "rd_word (map tag_word (chunks 32 ws)) (i, snap_payload (ws ! i)) = Ok (ws ! i)"
proof -
  have c: "i mod 32 < length (chunks 32 ws ! (i div 32))" "chunks 32 ws ! (i div 32) ! (i mod 32) = ws ! i"
    using chunks_nth[OF assms, of 32] by simp_all
  have n: "i div 32 < length (chunks 32 ws)"
  proof -
    have "i div 32 < div_ceil (length ws) 32"
      using assms by (auto simp: div_ceil_def)
    then show ?thesis by (simp add: length_chunks)
  qed
  have tag: "drop_bit (2 * (i mod 32)) (tag_word (chunks 32 ws ! (i div 32))) AND 3 = snap_tag (ws ! i)"
    using tag_word_field[OF c(1)] c(2) chunks_bounds[OF nth_mem[OF n]] by simp
  have g: "get (map tag_word (chunks 32 ws)) (i div 32) = Some (tag_word (chunks 32 ws ! (i div 32)))"
    using n by simp
  show ?thesis
    unfolding rd_word_def prod.case g option.case tag Let_def
    by (cases "ws ! i") (simp_all add: snap_tag_def snap_payload_def with_err_bit_fields[simplified])
qed

lemma rd_words_codec: "codec encode_words rd_words (\<lambda>ws. length ws < 2 ^ 64)"
proof
  fix xs :: "snap_word list" and ws at
  assume len: "length xs < 2 ^ 64" and sp: "spells ws at (encode_words xs)"
  let ?tags = "map tag_word (chunks 32 xs)"
  have t: "length ?tags = div_ceil (length xs) 32"
    by (simp add: length_chunks)
  have g: "get ws at = Some (of_nat (length xs))" and s1: "spells ws (Suc at) ?tags"
    and s2: "spells ws (Suc at + length ?tags) (map snap_payload xs)"
    using sp by (simp_all add: encode_words_def spells_Cons spells_append del: get_Some_iff)
  have "zip [0..<length xs] (map snap_payload xs) =
      map (\<lambda>i. (i, snap_payload (xs ! i))) [0..<length xs]"
    by (rule nth_equalityI) simp_all
  then have "rtraverse (rd_word ?tags) (zip [0..<length xs] (map snap_payload xs)) =
      Ok (map ((!) xs) [0..<length xs])"
    using rtraverse_map_Ok[of "[0..<length xs]" "rd_word ?tags" "\<lambda>i. (i, snap_payload (xs ! i))" "(!) xs"]
    by (simp add: rd_word_payload)
  then show "rd_words ws at = Ok (xs, at + length (encode_words xs))"
    using rd_len_spells[OF g len] rd_take_spells[OF s1 t[symmetric]] rd_take_spells[OF s2]
    by (simp add: rd_words_def map_nth encode_words_def length_chunks)
qed

interpretation snap_words: codec encode_words rd_words "\<lambda>ws. length ws < 2 ^ 64"
  by (rule rd_words_codec)

lemma to_le_bytes_chunk:
  "length c \<le> 8 \<Longrightarrow> to_le_bytes 8 (from_le_bytes (c @ replicate (8 - length c) 0) :: u64) =
     c @ replicate (8 - length c) 0"
  by (rule to_from_le_bytes) simp_all

lemma take_concat_padded:
  assumes "0 < n"
  shows "take (length xs) (concat (map (\<lambda>c. c @ replicate (n - length c) z) (chunks n xs))) = xs"
  using assms
proof (induction n xs rule: chunks.induct)
  case (1 n xs)
  show ?case
  proof (cases "xs = []")
    case False
    then show ?thesis
      using 1 by (cases "n \<le> length xs") (simp_all add: chunks.simps[of n xs])
  qed simp
qed

lemma rd_bytes_codec: "codec encode_bytes rd_bytes (\<lambda>bs. length bs < 2 ^ 64)"
proof
  fix xs :: "u8 list" and ws at
  assume len: "length xs < 2 ^ 64" and sp: "spells ws at (encode_bytes xs)"
  let ?packed = "map (\<lambda>c. from_le_bytes (c @ replicate (8 - length c) 0)) (chunks 8 xs) :: u64 list"
  have t: "length ?packed = div_ceil (length xs) 8"
    by (simp add: length_chunks)
  have g: "get ws at = Some (of_nat (length xs))" and s1: "spells ws (Suc at) ?packed"
    using sp by (simp_all add: encode_bytes_def spells_Cons del: get_Some_iff)
  have "map (to_le_bytes 8) ?packed = map (\<lambda>c. c @ replicate (8 - length c) 0) (chunks 8 xs)"
    using chunks_bounds[of _ 8 xs] by (simp add: to_le_bytes_chunk)
  then have "take (length xs) (concat (map (to_le_bytes 8) ?packed)) = xs"
    by (simp only: take_concat_padded[of 8 xs 0, simplified])
  then show "rd_bytes ws at = Ok (xs, at + length (encode_bytes xs))"
    using rd_len_spells[OF g len] rd_take_spells[OF s1 t[symmetric]]
    by (simp add: rd_bytes_def encode_bytes_def length_chunks)
qed

interpretation snap_bytes: codec encode_bytes rd_bytes "\<lambda>bs. length bs < 2 ^ 64"
  by (rule rd_bytes_codec)

definition snap_object_ok :: "snap_object \<Rightarrow> bool" where
  "snap_object_ok ob = (case ob of
     SnapString s \<Rightarrow> length s < 2 ^ 64 \<and> valid_utf8 s
   | SnapBytes b \<Rightarrow> length b < 2 ^ 64
   | _ \<Rightarrow> length (object_words ob) < 2 ^ 64)"

lemma bit_kind: "(kind :: u64) \<le> 6 \<Longrightarrow> bit kind n \<Longrightarrow> n < 3"
proof -
  assume "kind \<le> 6" and b: "bit kind n"
  then have "unat kind < 2 ^ 3" by (simp add: word_le_nat_alt)
  then have "take_bit 3 kind = kind"
    by (metis take_bit_nat_eq_self unsigned_take_bit_eq word_unat_eq_iff)
  then show ?thesis using b by (metis bit_take_bit_iff)
qed

lemma object_header_fields:
  fixes aux :: u8 and extra :: u32
  assumes "kind \<le> 6"
  shows "object_header kind (ucast aux) (ucast extra) AND 0xFF = kind"
    "ucast (drop_bit 8 (object_header kind (ucast aux) (ucast extra))) = aux"
    "ucast (drop_bit 32 (object_header kind (ucast aux) (ucast extra))) = extra"
  unfolding and_mask_lit object_header_def
  by (rule bit_word_eqI; auto simp: bit_simps dest: bit_kind[OF assms])+

lemma object_header_u16: "object_header k 0 (ucast (tag :: u16)) = object_header k 0 (ucast (ucast tag :: u32))"
  unfolding object_header_def by (rule bit_word_eqI) (auto simp: bit_simps)

lemma rd_object_header:
  assumes "get ws at = Some (object_header kind (ucast aux) (ucast extra))" and "kind \<le> 6"
  shows "rd_object ws at = rd_object_body kind aux extra ws (Suc at)"
  unfolding rd_object_def rd_next_spells[OF assms(1)] rbind.simps prod.case
    object_header_fields[OF assms(2), of aux extra] ..

text \<open>The headers \<open>encode_object\<close> writes, with their absent fields zero.\<close>

lemmas rd_object_headers =
  rd_object_header[of _ _ _ 0 0, unfolded unsigned_0]
  rd_object_header[of _ _ _ _ 0, unfolded unsigned_0]
  rd_object_header[of _ _ _ 0, unfolded unsigned_0] rd_object_header
  rd_object_header[of _ _ _ 0 "ucast (tag :: u16)" for tag, unfolded unsigned_0, folded object_header_u16]

lemma ucast_back:
  "ucast (ucast (x :: u32) :: u64) = x" "ucast (ucast (y :: u16) :: u32) = y"
  by (rule bit_word_eqI; auto simp: bit_simps)+

lemma rd_words_single:
  "spells ws at (encode_words [w]) \<Longrightarrow> rd_words ws at = Ok ([w], at + length (encode_words [w]))"
  by (rule snap_words.dec_enc) simp_all

lemma rd_object_codec: "codec encode_object rd_object snap_object_ok"
proof
  fix ob :: snap_object and ws at
  assume "snap_object_ok ob" and "spells ws at (encode_object ob)"
  then show "rd_object ws at = Ok (ob, at + length (encode_object ob))"
    by (cases ob)
      (auto simp: encode_object_def snap_object_ok_def object_words_def
        spells_Cons rd_object_headers rd_object_body_def snap_bytes.dec_enc snap_words.dec_enc
        rd_words_single rd_next_spells ucast_back simp del: get_Some_iff)
qed

interpretation snap_object: codec encode_object rd_object snap_object_ok
  by (rule rd_object_codec)

section \<open>Whole snapshots\<close>

definition ref_ok :: "nat \<Rightarrow> snap_word \<Rightarrow> bool" where
  "ref_ok n w = (case w of Ref index _ \<Rightarrow> unat index < n | _ \<Rightarrow> True)"

definition refs_ok :: "heap_snapshot \<Rightarrow> bool" where
  "refs_ok s \<longleftrightarrow>
     (let n = length (snap_objects s) in
      list_all (ref_ok n) (map snd (snap_statics s))
      \<and> list_all (\<lambda>ob. list_all (ref_ok n) (object_words ob)) (snap_objects s))"

definition snapshot_wf :: "heap_snapshot \<Rightarrow> bool" where
  "snapshot_wf s \<longleftrightarrow> refs_ok s \<and> list_all snap_object_ok (snap_objects s)"

lemma check_ref_Ok_iff: "check_ref n w = Ok () \<longleftrightarrow> ref_ok n w"
  by (cases w) (auto simp: check_ref_def ref_ok_def)

lemma check_ref_not_Panicked: "check_ref n w \<noteq> Panicked"
  by (cases w) (auto simp: check_ref_def)

lemma rtraverse_unit_Ok: "(\<exists>us. rtraverse (f :: 'a \<Rightarrow> ('e, unit) result) xs = Ok us) \<longleftrightarrow> (\<forall>x \<in> set xs. f x = Ok ())"
  by (induction xs) (auto simp: result_simps)

lemma rtraverse_ex_Ok: "(\<exists>ys. rtraverse f xs = Ok ys) \<longleftrightarrow> (\<forall>x \<in> set xs. \<exists>y. f x = Ok y)"
  by (induction xs) (auto simp: result_simps)

lemma check_refs_Ok_iff: "check_refs s = Ok () \<longleftrightarrow> refs_ok s"
proof -
  let ?n = "length (snap_objects s)"
  have "check_refs s = Ok () \<longleftrightarrow> (\<exists>us. rtraverse (check_ref ?n) (map snd (snap_statics s)) = Ok us)
      \<and> (\<exists>us. rtraverse (\<lambda>ob. rtraverse (check_ref ?n) (object_words ob)) (snap_objects s) = Ok us)"
    by (auto simp: check_refs_def Let_def result_simps)
  also have "\<dots> \<longleftrightarrow> refs_ok s"
    unfolding rtraverse_unit_Ok rtraverse_ex_Ok
    by (auto simp: refs_ok_def Let_def list_all_iff check_ref_Ok_iff)
  finally show ?thesis .
qed

lemma check_refs_not_Panicked: "check_refs s \<noteq> Panicked"
  by (simp add: check_refs_def Let_def rbind_Panicked_iff rtraverse_not_Panicked check_ref_not_Panicked)

lemma encode_object_ne: "encode_object ob \<noteq> []"
  by (cases ob) (simp_all add: encode_object_def)

lemma length_concat_ge: "(\<And>x. x \<in> set xs \<Longrightarrow> f x \<noteq> []) \<Longrightarrow> length xs \<le> length (concat (map f xs))"
proof (induction xs)
  case (Cons x xs)
  then have "f x \<noteq> []" "length xs \<le> length (concat (map f xs))" by simp_all
  then show ?case by (cases "f x") simp_all
qed simp

lemma slots_roundtrip:
  "rtraverse slot_u32 (zip (map (\<lambda>(slot, _). ucast slot) st) (map snd st)) = Ok st"
proof -
  have "zip (map (\<lambda>(slot, _). ucast slot) st) (map snd st) =
      map (\<lambda>p. (ucast (fst p) :: u64, snd p)) st"
    by (induction st) (auto split: prod.splits)
  moreover have "slot_u32 (ucast (fst p), snd p) = Ok p" for p
    by (cases p) (simp add: slot_u32_def unat_ucast_lits ucast_back)
  ultimately show ?thesis
    using rtraverse_map_Ok[of st slot_u32 "\<lambda>p. (ucast (fst p), snd p)" id] by simp
qed

lemma snapshot_encode_alt:
  "snapshot_encode s =
     SNAPSHOT_MAGIC # of_nat (length (snapshot_encode s)) # of_nat (length (snap_objects s))
       # of_nat (length (snap_statics s)) # map (\<lambda>(slot, _). ucast slot) (snap_statics s)
       @ encode_words (map snd (snap_statics s)) @ concat (map encode_object (snap_objects s))"
  by (simp add: snapshot_encode_def Let_def)

lemma snapshot_counts:
  assumes "length (snapshot_encode s) < 2 ^ 64"
  shows "length (snap_objects s) < 2 ^ 64" "length (snap_statics s) < 2 ^ 64"
    "length (snap_objects s) \<le> length (snapshot_encode s)"
proof -
  have "length (snap_objects s) + length (snap_statics s) \<le> length (snapshot_encode s)"
    using length_concat_ge[of "snap_objects s" encode_object] encode_object_ne
    by (subst snapshot_encode_alt) simp
  then show "length (snap_objects s) < 2 ^ 64" "length (snap_statics s) < 2 ^ 64"
    "length (snap_objects s) \<le> length (snapshot_encode s)"
    using assms by simp_all
qed

lemma unat_of_nat_u64: "n < 2 ^ 64 \<Longrightarrow> unat (of_nat n :: u64) = n"
  by (simp add: unsigned_of_nat take_bit_nat_eq_self)

lemma snapshot_roundtrip_aux:
  assumes wf: "snapshot_wf s" and len: "length (snapshot_encode s) < 2 ^ 64"
  shows "snapshot_decode (snapshot_encode s @ rest) = Ok s"
proof -
  let ?ws = "snapshot_encode s" and ?st = "snap_statics s" and ?obs = "snap_objects s"
  let ?slots = "map (\<lambda>(slot, _). ucast slot) ?st :: u64 list"
  note c = snapshot_counts[OF len]
  have hd: "get ?ws 0 = Some SNAPSHOT_MAGIC" "get ?ws 1 = Some (of_nat (length ?ws))"
    "get ?ws 2 = Some (of_nat (length ?obs))" "get ?ws 3 = Some (of_nat (length ?st))"
    by (subst snapshot_encode_alt, simp)+
  have 4: "4 \<le> length ?ws"
    by (subst snapshot_encode_alt) simp
  have sp: "spells ?ws 4 (?slots @ encode_words (map snd ?st) @ concat (map encode_object ?obs))"
    by (subst (1) snapshot_encode_alt) (simp add: spells_def)
  then have s1: "spells ?ws 4 ?slots" and s2: "spells ?ws (4 + length ?st) (encode_words (map snd ?st))"
    and s3: "spells ?ws (4 + length ?st + length (encode_words (map snd ?st)))
        (concat (map encode_object ?obs))"
    by (simp_all add: spells_append)
  have total: "4 + length ?st + length (encode_words (map snd ?st)) + length (concat (map encode_object ?obs))
      = length ?ws"
    by (subst snapshot_encode_alt) simp
  have range: "get_range (?ws @ rest) 0 (length ?ws) = Some ?ws"
    by (simp add: get_range_def)
  have r1: "rd_take (length ?st) ?ws 4 = Ok (?slots, 4 + length ?st)"
    using rd_take_spells[OF s1] by simp
  have r2: "rd_words ?ws (4 + length ?st) =
      Ok (map snd ?st, 4 + length ?st + length (encode_words (map snd ?st)))"
    using snap_words.dec_enc[OF _ s2] c by simp
  have r3: "read_times (length ?obs) rd_object ?ws (4 + length ?st + length (encode_words (map snd ?st)))
      = Ok (?obs, length ?ws)"
    using snap_object.read_times_enc[OF _ refl s3] wf total by (simp add: snapshot_wf_def)
  have "check_refs s = Ok ()"
    using wf by (simp add: snapshot_wf_def check_refs_Ok_iff)
  then have chk: "rbind (check_refs \<lparr>snap_objects = ?obs, snap_statics = ?st\<rparr>)
      (\<lambda>_. Ok \<lparr>snap_objects = ?obs, snap_statics = ?st\<rparr>) = Ok s"
    by (cases s) simp
  have nth: "(?ws @ rest) ! 1 = of_nat (length ?ws)" "?ws ! 2 = of_nat (length ?obs)"
    "?ws ! 3 = of_nat (length ?st)" "get (?ws @ rest) 0 = Some SNAPSHOT_MAGIC"
    using hd 4 by (simp_all add: nth_append)
  show ?thesis
    unfolding snapshot_decode_def nth
    using 4 c r1 r2 r3 chk range len
    by (simp add: unat_of_nat_u64 Let_def slots_roundtrip nth(2,3))
qed

text \<open>C14: snapshots come back. A snapshot whose references name its objects and whose strings are
  UTF-8 decodes from its encoding to itself, whatever follows it in the constant pool.\<close>

theorem snapshot_roundtrip:
  assumes "snapshot_wf s" and "length (snapshot_encode s) < 2 ^ 64"
  shows "snapshot_decode (snapshot_encode s @ rest) = Ok s
    \<and> encoded_len (snapshot_encode s @ rest) = Some (length (snapshot_encode s))"
  using snapshot_roundtrip_aux[OF assms] assms(2)
  by (subst (2) snapshot_encode_alt) (simp add: encoded_len_def unat_of_nat_u64)

theorem snapshot_roundtrip_witness:
  "snapshot_decode (snapshot_encode \<lparr>snap_objects = [SnapString [104, 105], SnapTuple 3 [Ref 0 True, Raw 7]],
       snap_statics = [(4, Ref 1 False)]\<rparr> @ [99]) =
     Ok \<lparr>snap_objects = [SnapString [104, 105], SnapTuple 3 [Ref 0 True, Raw 7]],
       snap_statics = [(4, Ref 1 False)]\<rparr>"
proof -
  let ?s = "\<lparr>snap_objects = [SnapString [104, 105], SnapTuple 3 [Ref 0 True, Raw 7]],
       snap_statics = [(4, Ref 1 False)]\<rparr> :: heap_snapshot"
  have "snapshot_wf ?s"
    by (simp add: snapshot_wf_def refs_ok_def ref_ok_def object_words_def snap_object_ok_def)
  moreover have "length (snapshot_encode ?s) < 2 ^ 64"
    by (simp add: snapshot_encode_def encode_object_def encode_words_def encode_bytes_def
        length_chunks div_ceil_def)
  ultimately show ?thesis
    using snapshot_roundtrip[of ?s "[99]"] by blast
qed

section \<open>Decoding arbitrary words\<close>

lemma rd_next_OkD: "rd_next ws at = Ok (w, at') \<Longrightarrow> at' = Suc at \<and> at' \<le> length ws"
  by (auto simp: rd_next_def split: option.splits)

lemma rd_take_OkD: "rd_take n ws at = Ok (xs, at') \<Longrightarrow> length xs = n \<and> at' = at + n \<and> at' \<le> length ws"
  by (auto simp: rd_take_def get_range_def split: option.splits if_splits)

lemma rd_len_OkD: "rd_len ws at = Ok (n, at') \<Longrightarrow> n < 2 ^ 64 \<and> at' = Suc at \<and> at' \<le> length ws"
  by (auto simp: rd_len_def result_simps dest!: rd_next_OkD)

lemma rd_no_panic [simp]:
  "rd_next ws at \<noteq> Panicked" "rd_take n ws at \<noteq> Panicked" "rd_len ws at \<noteq> Panicked"
  by (auto simp: rd_next_def rd_take_def rd_len_def split: option.splits)

lemma rd_bytes_reader: "sound_reader rd_bytes (\<lambda>bs. length bs < 2 ^ 64)"
proof
  fix ws at
  show "rd_bytes ws at \<noteq> Panicked"
    by (auto simp: rd_bytes_def rbind_Panicked_iff split: prod.splits)
next
  fix ws at bs at'
  assume "rd_bytes ws at = Ok (bs, at')"
  then show "at < at' \<and> at' \<le> length ws \<and> length bs < 2 ^ 64"
    by (auto simp: rd_bytes_def result_simps dest!: rd_len_OkD rd_take_OkD)
qed

interpretation snap_bytes_reader: sound_reader rd_bytes "\<lambda>bs. length bs < 2 ^ 64"
  by (rule rd_bytes_reader)

lemma rd_word_no_panic: "i div 32 < length tags \<Longrightarrow> rd_word tags (i, raw) \<noteq> Panicked"
  by (auto simp: rd_word_def get_def Let_def)

lemma rd_words_reader: "sound_reader rd_words (\<lambda>xs. length xs < 2 ^ 64)"
proof
  fix ws at
  have "i div 32 < div_ceil n 32" if "i < n" for i n
    using that by (auto simp: div_ceil_def)
  then show "rd_words ws at \<noteq> Panicked"
    by (auto simp: rd_words_def rbind_Panicked_iff intro!: rtraverse_not_Panicked rd_word_no_panic
        dest!: rd_take_OkD set_zip_leftD split: prod.splits)
next
  fix ws at xs at'
  assume "rd_words ws at = Ok (xs, at')"
  then show "at < at' \<and> at' \<le> length ws \<and> length xs < 2 ^ 64"
    by (auto simp: rd_words_def result_simps rtraverse_Ok_iff dest!: rd_len_OkD rd_take_OkD
        list_all2_lengthD)
qed

interpretation snap_words_reader: sound_reader rd_words "\<lambda>xs. length xs < 2 ^ 64"
  by (rule rd_words_reader)

lemma rd_object_body_sound:
  assumes "rd_object_body kind aux extra ws at = Ok (ob, at')"
  shows "at < at' \<and> at' \<le> length ws \<and> snap_object_ok ob"
  using assms unfolding rd_object_body_def
  by (auto simp: result_simps snap_object_ok_def object_words_def case_single_Ok split: if_splits
      dest!: snap_bytes_reader.sound snap_words_reader.sound rd_next_OkD)

lemma rd_object_reader: "sound_reader rd_object snap_object_ok"
proof
  fix ws at
  have "rd_object_body kind aux extra ws at1 \<noteq> Panicked" for kind aux extra at1
    by (auto simp: rd_object_body_def rbind_Panicked_iff snap_bytes_reader.no_panic
        snap_words_reader.no_panic split: prod.splits list.splits)
  then show "rd_object ws at \<noteq> Panicked"
    by (auto simp: rd_object_def rbind_Panicked_iff split: prod.splits)
next
  fix ws at ob at'
  assume "rd_object ws at = Ok (ob, at')"
  then show "at < at' \<and> at' \<le> length ws \<and> snap_object_ok ob"
    by (auto simp: rd_object_def result_simps dest!: rd_object_body_sound rd_next_OkD)
qed

interpretation snap_object_reader: sound_reader rd_object snap_object_ok
  by (rule rd_object_reader)

lemma snapshot_decode_wf:
  assumes "snapshot_decode ws = Ok s"
  shows "snapshot_wf s"
proof -
  have "check_refs s = Ok ()" "list_all snap_object_ok (snap_objects s)"
    using assms
    by (auto simp: snapshot_decode_def result_simps Let_def split: if_splits option.splits
        dest!: snap_object_reader.read_times_sound)
  then show ?thesis
    by (simp add: snapshot_wf_def check_refs_Ok_iff)
qed

text \<open>C15: what a decoded snapshot promises. Whatever words are decoded, an accepted snapshot has
  only references to objects of its own table, and valid strings: the restorer, which follows them
  without a check, cannot leave the table.\<close>

theorem snapshot_decode_sound:
  assumes "snapshot_decode ws = Ok s"
  shows "snapshot_wf s"
  using assms by (rule snapshot_decode_wf)

theorem snapshot_decode_sound_witness:
  "snapshot_wf \<lparr>snap_objects = [], snap_statics = []\<rparr>"
proof (rule snapshot_decode_sound)
  show "snapshot_decode [SNAPSHOT_MAGIC, 5, 0, 0, 0] = Ok \<lparr>snap_objects = [], snap_statics = []\<rparr>"
    by (simp add: snapshot_decode_def get_def get_range_def rd_take_def rd_words_def rd_len_def
        rd_next_def check_refs_def div_ceil_def Let_def)
qed

lemma snapshot_decode_panics:
  "snapshot_decode ws = Panicked \<longleftrightarrow>
     4 \<le> length ws \<and> ws ! 0 = SNAPSHOT_MAGIC \<and> unat (ws ! 1) < 4"
proof -
  have slots: "rtraverse slot_u32 xs \<noteq> Panicked" for xs
    by (rule rtraverse_not_Panicked) (auto simp: slot_u32_def split: prod.splits)
  have body: "rbind (rd_take n w 4) (\<lambda>(slots, at1). rbind (rd_words w at1) (\<lambda>(roots, at2).
            if length roots \<noteq> n then Err Length
            else rbind (rtraverse slot_u32 (zip slots roots)) (\<lambda>statics.
            if l < k then Err Length
            else rbind (read_times k rd_object w at2) (\<lambda>(objs, at3).
            if at3 \<noteq> t then Err Length
            else (let s = \<lparr>snap_objects = objs, snap_statics = statics\<rparr> in
              rbind (check_refs s) (\<lambda>_. Ok s)))))) \<noteq> Panicked" for n w k l t
    by (auto simp: Let_def rbind_Panicked_iff slots snap_words_reader.no_panic
        snap_object_reader.read_times_no_panic check_refs_not_Panicked split: prod.splits if_splits)
  show ?thesis
    by (auto simp: snapshot_decode_def Let_def[of "length _"] Let_def[of "unat _"] body get_def
        get_range_def split: option.splits)
qed

text \<open>C37: a short length word. Decoding panics exactly on an input that starts with the magic word,
  has at least four words and claims a total length below four: the words past the claimed length
  are cut off before the counts are read from them. Every other input is decoded or refused with an
  error.\<close>

theorem snapshot_decode_panics_iff:
  "snapshot_decode ws = Panicked \<longleftrightarrow>
     4 \<le> length ws \<and> ws ! 0 = SNAPSHOT_MAGIC \<and> unat (ws ! 1) < 4"
  by (rule snapshot_decode_panics)

end
