(* ===== verification/Verify.thy ===== *)
theory Verify
  imports Frame_Bound Snapshot
begin

text \<open>
  Load-time bytecode verification, after \<^verbatim>\<open>common/src/verify.rs\<close>. The VM reads operands without
  a test at run time, so everything it trusts is checked here: \<open>verify_op\<close> is the check of
  one word, \<open>verify_calls\<close> the check that direct calls expect the number of words their callee
  leaves. The formatted reason of an error is the value it is formatted from.
\<close>

unbundle bit_operations_syntax

section \<open>Errors and limits\<close>

datatype verify_reason =
    JumpPastEnd string nat nat
  | EntryOutOfRange string nat nat
  | PoolOutOfRange string nat nat
  | InnerOutOfRange string u8
  | RetiredOpcode u8
  | StringOutOfRange u32 nat
  | BadSnapshot u32 snapshot_decode_error
  | SnapshotSlotOutOfRange u32 nat
  | StaticSlotOutOfRange u32 nat
  | CallWidth nat nat nat

record bytecode_error =
  err_pc :: nat
  err_reason :: verify_reason

record verify_limits =
  lim_strings :: nat
  lim_static_slots :: nat

definition is_retired :: "instruction \<Rightarrow> bool" where
  "is_retired op \<longleftrightarrow> op \<in> {I_DATA, I_SET, I_OptionNicheToHeap, I_HeapOptionToNiche, I_PairJumpIfTag,
     I_PairToHeap, I_HeapToPair, I_ReturnPair, I_HostInvokeNiche, I_FloatChainStore,
     I_BinSlotSlotConstJmpf}"

text \<open>
  The opcodes that the VM stops on with the message \<open>retired opcode\<close>, in the order of the arms of its dispatch. The list of
  \<open>is_retired\<close> is not the same: it has \<open>DATA\<close> and \<open>SET\<close>, which the VM calls unknown, and leaves out the last ten.
\<close>

definition stops_retired_pair :: "instruction \<Rightarrow> bool" where
  "stops_retired_pair op \<longleftrightarrow> op \<in> {I_OptionNicheToHeap, I_HeapOptionToNiche, I_PairJumpIfTag, I_PairToHeap, I_HeapToPair, I_ReturnPair}"

definition stops_retired_fused :: "instruction \<Rightarrow> bool" where
  "stops_retired_fused op \<longleftrightarrow> op \<in> {I_HostInvokeNiche, I_FloatChainStore, I_BinSlotSlotConstJmpf, I_BinSlotSlotConstJmpt}"

definition stops_retired_dyn :: "instruction \<Rightarrow> bool" where
  "stops_retired_dyn op \<longleftrightarrow> op \<in> {I_DynAdd, I_DynSub, I_DynMul, I_DynDiv, I_DynMod, I_DynCmp, I_DynEq, I_DynNe, I_DynPrint}"

section \<open>One word\<close>

definition fail :: "nat \<Rightarrow> verify_reason \<Rightarrow> (bytecode_error, 'a) result" where
  "fail pc reason = Err \<lparr>err_pc = pc, err_reason = reason\<rparr>"

definition check_jump :: "nat \<Rightarrow> nat \<Rightarrow> nat \<Rightarrow> string \<Rightarrow> (bytecode_error, unit) result" where
  "check_jump len pc target what =
     (if len < target then fail pc (JumpPastEnd what target len) else Ok ())"

definition check_entry :: "nat \<Rightarrow> nat \<Rightarrow> nat \<Rightarrow> string \<Rightarrow> (bytecode_error, unit) result" where
  "check_entry len pc target what =
     (if len \<le> target then fail pc (EntryOutOfRange what target len) else Ok ())"

definition check_pool :: "u64 list \<Rightarrow> nat \<Rightarrow> nat \<Rightarrow> string \<Rightarrow> (bytecode_error, u64) result" where
  "check_pool constants pc idx what =
     ok_or (get constants idx) \<lparr>err_pc = pc, err_reason = PoolOutOfRange what idx (length constants)\<rparr>"

definition check_inner :: "nat \<Rightarrow> u8 \<Rightarrow> string \<Rightarrow> (bytecode_error, unit) result" where
  "check_inner pc code what =
     (if instruction_last < code then fail pc (InnerOutOfRange what code) else Ok ())"

definition check_snapshot ::
    "u64 list \<Rightarrow> verify_limits \<Rightarrow> nat \<Rightarrow> u32 \<Rightarrow> (bytecode_error, unit) result" where
  "check_snapshot constants limits pc operand =
     (case (case get_range constants (unat operand) (length constants) of
              None \<Rightarrow> Err Truncated | Some ws \<Rightarrow> snapshot_decode ws) of
        Panicked \<Rightarrow> Panicked
      | Err e \<Rightarrow> fail pc (BadSnapshot operand e)
      | Ok s \<Rightarrow>
          (case find (\<lambda>p. lim_static_slots limits \<le> unat (fst p)) (snap_statics s) of
             Some (slot, _) \<Rightarrow> fail pc (SnapshotSlotOutOfRange slot (lim_static_slots limits))
           | None \<Rightarrow> Ok ()))"

definition verify_op ::
    "nat \<Rightarrow> u64 list \<Rightarrow> verify_limits \<Rightarrow> nat \<times> byte \<Rightarrow> (bytecode_error, unit) result" where
  "verify_op len constants limits = (\<lambda>(pc, b).
     (let op = bytecode b; operand = operand_u32 b in
      if is_retired op then fail pc (RetiredOpcode op)
      else if op \<in> {I_JMP, I_JMPF, I_JMPT} then check_jump len pc (unat operand) ''jump''
      else if op \<in> {I_CALL, I_TailCall, I_MakeCoro} then
        check_entry len pc (snd (call_parts b)) ''call''
      else if op \<in> {I_CodePtr, I_MakePolyFn} then check_entry len pc (unat operand) ''function''
      else if op = I_CONST \<and> operand AND POOL_FLAG \<noteq> 0 then
        rmap (\<lambda>_. ()) (check_pool constants pc (unat (operand AND NOT POOL_FLAG)) ''CONST'')
      else if op = I_DenseConst \<and> operand AND push_bit 31 1 \<noteq> 0 then
        rmap (\<lambda>_. ()) (check_pool constants pc (unat (operand AND 0xFFFF)) ''DenseConst'')
      else if op = I_STRING \<and> lim_strings limits \<le> unat operand then
        fail pc (StringOutOfRange operand (lim_strings limits))
      else if op = I_RestoreSnapshot then check_snapshot constants limits pc operand
      else if op \<in> {I_LoadStatic, I_StoreStatic} \<and> lim_static_slots limits \<le> unat operand then
        fail pc (StaticSlotOutOfRange operand (lim_static_slots limits))
      else if op = I_JumpIfMatch then
        rbind (check_pool constants pc (unat (operand AND 0xFFFF)) ''JumpIfMatch'') (\<lambda>target.
          check_jump len pc (unat target) ''JumpIfMatch'')
      else if op = I_BinSlotImm then check_inner pc (fst (bin_slot_imm_parts b)) ''BinSlotImm''
      else if op = I_BinSlotSlot then check_inner pc (fst (bin_slot_slot_parts b)) ''BinSlotSlot''
      else if op = I_BinSlotSlotStore then
        check_inner pc (fst (bin_slot_slot_store_parts b)) ''BinSlotSlotStore''
      else if op = I_BinReturn then check_inner pc (bin_return_op b) ''BinReturn''
      else if op \<in> {I_CmpJmpf, I_CmpJmpt} then
        (let (cmp, t) = cmp_jmpf_parts b in
         rbind (check_inner pc cmp ''CmpJmp'') (\<lambda>_.
         rbind (if cmp_jmpf_is_pool b then rmap unat (check_pool constants pc t ''CmpJmp'') else Ok t)
           (\<lambda>target. check_jump len pc target ''CmpJmp'')))
      else if op \<in> {I_LogNotJmpf, I_LogNotJmpt} then
        (let t = log_not_jmpf_target b in
         rbind (if log_not_jmpf_is_pool b then rmap unat (check_pool constants pc t ''LogNotJmp'') else Ok t)
           (\<lambda>target. check_jump len pc target ''LogNotJmp''))
      else if op \<in> {I_BinSlotImmJmpf, I_BinSlotImmJmpt} then
        (let (cmp, _, idx) = bin_slot_imm_jmpf_parts b in
         rbind (check_inner pc cmp ''BinSlotImmJmp'') (\<lambda>_.
         rbind (check_pool constants pc idx ''BinSlotImmJmp'') (\<lambda>desc.
           check_jump len pc (unat (drop_bit 32 desc)) ''BinSlotImmJmp'')))
      else if op \<in> {I_BinSlotSlotJmpf, I_BinSlotSlotJmpt} then
        (let (cmp, _, idx) = bin_slot_slot_jmpf_parts b in
         rbind (check_inner pc cmp ''BinSlotSlotJmp'') (\<lambda>_.
         rbind (check_pool constants pc idx ''BinSlotSlotJmp'') (\<lambda>desc.
           check_jump len pc (unat (drop_bit 32 desc)) ''BinSlotSlotJmp'')))
      else if op = I_BinSlotSlotConstJmpt then
        (let (_, _, idx) = bin_slot_slot_const_jmpf_parts b in
         rbind (check_pool constants pc idx ''BinSlotSlotConstJmp'') (\<lambda>desc.
           let (_, _, float_idx, target) = unpack_bin_slot_slot_const_jmpf_desc desc in
           rbind (check_pool constants pc float_idx ''BinSlotSlotConstJmp float'') (\<lambda>_.
             check_jump len pc target ''BinSlotSlotConstJmp'')))
      else if op = I_BinSlotImmStore then
        (let (bin, _, idx) = bin_slot_imm_store_parts b in
         rbind (check_inner pc bin ''BinSlotImmStore'') (\<lambda>_.
           rmap (\<lambda>_. ()) (check_pool constants pc idx ''BinSlotImmStore'')))
      else if op = I_DenseMakeK then
        rmap (\<lambda>_. ()) (check_pool constants pc (unat (operand AND 0xFFFF)) ''DenseMakeK'')
      else if op = I_DenseHostCall then
        rmap (\<lambda>_. ()) (check_pool constants pc (unat (operand AND 0xFFFF)) ''DenseHostCall'')
      else Ok ()))"

section \<open>Return widths\<close>

definition returned_words :: "byte \<Rightarrow> nat option" where
  "returned_words b =
     (if bytecode b = I_RETURN then Some (return_words b)
      else if bytecode b \<in> {I_LoadReturnSlot, I_ConstReturnImm, I_BinReturn, I_MakeEnumReturn,
          I_MakeEnumReturnK} then Some 1
      else None)"

text \<open>The first loop: the widths each frame returns itself, and the tail calls between frames.\<close>

fun collect_widths :: "nat list \<Rightarrow> (nat \<times> byte) list \<Rightarrow> u8 list \<Rightarrow> (nat \<times> nat) list
    \<Rightarrow> (bytecode_error, u8 list \<times> (nat \<times> nat) list) result" where
  "collect_widths rs [] widths tails = Ok (widths, tails)"
| "collect_widths rs ((pc, b) # rest) widths tails =
     (case returned_words b of
        Some words \<Rightarrow>
          (case get rs pc of
             None \<Rightarrow> Panicked
           | Some r \<Rightarrow> (if r < length widths
               then collect_widths rs rest (widths[r := widths ! r OR push_bit words 1]) tails
               else Panicked))
      | None \<Rightarrow>
          (if bytecode b = I_TailCall \<and> snd (call_parts b) \<noteq> 0 then
             (case (get rs pc, get rs (snd (call_parts b))) of
                (Some from, Some to) \<Rightarrow> collect_widths rs rest widths (tails @ [(from, to)])
              | _ \<Rightarrow> Panicked)
           else collect_widths rs rest widths tails))"

text \<open>One pass of the second loop, with its \<open>changed\<close> flag.\<close>

fun tails_pass :: "(nat \<times> nat) list \<Rightarrow> bool \<Rightarrow> u8 list \<Rightarrow> bool \<times> u8 list" where
  "tails_pass [] changed widths = (changed, widths)"
| "tails_pass ((from, to) # rest) changed widths =
     (let merged = widths ! from OR widths ! to in
      if merged \<noteq> widths ! from then tails_pass rest True (widths[from := merged])
      else tails_pass rest changed widths)"

fun tails_loop :: "nat \<Rightarrow> (nat \<times> nat) list \<Rightarrow> u8 list \<Rightarrow> u8 list option" where
  "tails_loop 0 tails widths = None"
| "tails_loop (Suc k) tails widths =
     (case tails_pass tails False widths of
        (True, widths') \<Rightarrow> tails_loop k tails widths'
      | (False, widths') \<Rightarrow> Some widths')"

text \<open>Every pass but the last sets a bit of a width that was clear, and there are eight a frame.\<close>

definition tails_fuel :: "u8 list \<Rightarrow> nat" where
  "tails_fuel widths = Suc (8 * length widths)"

definition u8_trailing_zeros :: "u8 \<Rightarrow> nat" where
  "u8_trailing_zeros x = length (takeWhile (\<lambda>i. \<not> bit x i) [0..<8])"

definition check_call :: "nat list \<Rightarrow> u8 list \<Rightarrow> nat \<times> byte \<Rightarrow> (bytecode_error, unit) result" where
  "check_call rs widths = (\<lambda>(pc, b).
     if bytecode b \<noteq> I_CALL then Ok ()
     else
       (let target = snd (call_parts b) in
        if target = 0 then Ok ()
        else
          (case get rs target of
             None \<Rightarrow> Panicked
           | Some r \<Rightarrow>
             (case get widths r of
                None \<Rightarrow> Panicked
              | Some w \<Rightarrow>
                (let want = call_ret_words b; other = w AND NOT (push_bit want 1) in
                 if other \<noteq> 0 then fail pc (CallWidth target want (u8_trailing_zeros other))
                 else Ok ())))))"

definition verify_calls :: "byte list \<Rightarrow> u64 list \<Rightarrow> (bytecode_error, unit) result" where
  "verify_calls code constants =
     (case frame_roots code constants of
        Panicked \<Rightarrow> Panicked
      | Err _ \<Rightarrow> Ok ()
      | Ok rs \<Rightarrow>
          (let words = zip [0..<length code] code in
           rbind (collect_widths rs words (replicate (length code) 0) []) (\<lambda>(widths, tails).
             case tails_loop (tails_fuel widths) tails widths of
               None \<Rightarrow> Panicked
             | Some widths' \<Rightarrow> rmap (\<lambda>_. ()) (rtraverse (check_call rs widths') words))))"

definition verify_bytecode ::
    "byte list \<Rightarrow> u64 list \<Rightarrow> verify_limits \<Rightarrow> (bytecode_error, unit) result" where
  "verify_bytecode code constants limits =
     rbind (rtraverse (verify_op (length code) constants limits) (zip [0..<length code] code))
       (\<lambda>_. verify_calls code constants)"

section \<open>What an accepted word guarantees\<close>

lemma fail_not_Ok [simp]: "fail pc reason \<noteq> Ok x" "fail pc reason \<noteq> Panicked"
  by (simp_all add: fail_def)

lemma check_simps [result_simps]:
  "check_jump len pc t what = Ok u \<longleftrightarrow> t \<le> len"
  "check_entry len pc t what = Ok u \<longleftrightarrow> t < len"
  "check_pool constants pc i what = Ok v \<longleftrightarrow> get constants i = Some v"
  "check_inner pc c what = Ok u \<longleftrightarrow> c \<le> instruction_last"
  by (auto simp: check_jump_def check_entry_def check_pool_def check_inner_def ok_or_Ok_iff)

text \<open>The inner opcode byte of the fused ops that the VM turns back into an instruction.\<close>

definition fused_inner :: "byte \<Rightarrow> u8 option" where
  "fused_inner b =
     (if bytecode b \<in> {I_BinSlotImm, I_BinSlotSlot, I_BinSlotSlotStore, I_BinReturn, I_CmpJmpf,
          I_CmpJmpt, I_BinSlotImmJmpf, I_BinSlotImmJmpt, I_BinSlotSlotJmpf, I_BinSlotSlotJmpt,
          I_BinSlotImmStore}
      then Some (ucast (drop_bit 24 (operands b))) else None)"

definition word_ok :: "nat \<Rightarrow> u64 list \<Rightarrow> verify_limits \<Rightarrow> byte \<Rightarrow> bool" where
  "word_ok len constants limits b \<longleftrightarrow>
     bytecode b \<notin> {I_DATA, I_SET}
     \<and> (stops_retired_pair (bytecode b) \<or> stops_retired_fused (bytecode b) \<longrightarrow> bytecode b = I_BinSlotSlotConstJmpt)
     \<and> (\<forall>s m. frame_step b constants m = Ok s \<longrightarrow>
          (case step_jump s of NoJump \<Rightarrow> True | JumpTo t \<Rightarrow> t \<le> len | JumpUnknown \<Rightarrow> False))
     \<and> (bytecode b \<in> {I_CALL, I_TailCall, I_MakeCoro} \<longrightarrow> snd (call_parts b) < len)
     \<and> (bytecode b \<in> {I_CodePtr, I_MakePolyFn} \<longrightarrow> unat (operand_u32 b) < len)
     \<and> (bytecode b = I_CONST \<longrightarrow> byte_constant b constants \<noteq> None)
     \<and> (bytecode b = I_DenseConst \<longrightarrow> snd (snd (snd (dense_const_parts b))) \<longrightarrow>
          get constants (unat (fst (snd (snd (dense_const_parts b))))) \<noteq> None)
     \<and> (bytecode b = I_STRING \<longrightarrow> unat (operand_u32 b) < lim_strings limits)
     \<and> (bytecode b \<in> {I_LoadStatic, I_StoreStatic} \<longrightarrow> unat (operand_u32 b) < lim_static_slots limits)
     \<and> (bytecode b = I_JumpIfMatch \<longrightarrow> jump_if_match_target b constants \<noteq> None)
     \<and> (bytecode b = I_DenseMakeK \<longrightarrow> dense_make_k_parts b constants \<noteq> None)
     \<and> (bytecode b = I_DenseHostCall \<longrightarrow> dense_host_call_parts b constants \<noteq> None)
     \<and> (bytecode b = I_BinSlotImmStore \<longrightarrow>
          get constants (snd (snd (bin_slot_imm_store_parts b))) \<noteq> None)
     \<and> (bytecode b = I_BinSlotSlotConstJmpt \<longrightarrow> (\<exists>desc.
          get constants (snd (snd (bin_slot_slot_const_jmpf_parts b))) = Some desc
          \<and> get constants (fst (snd (snd (unpack_bin_slot_slot_const_jmpf_desc desc)))) \<noteq> None))
     \<and> (\<forall>c. fused_inner b = Some c \<longrightarrow> c \<le> instruction_last)
     \<and> (bytecode b = I_RestoreSnapshot \<longrightarrow>
          (\<exists>s. snapshot_decode (drop (unat (operand_u32 b)) constants) = Ok s \<and> snapshot_wf s
             \<and> list_all (\<lambda>p. unat (fst p) < lim_static_slots limits) (snap_statics s)))"

text \<open>The check of one word, instruction by instruction.\<close>

lemmas verify_op_unfold = verify_op_def is_retired_def Let_def case_prod_beta
  unpack_bin_slot_slot_const_jmpf_desc_def

lemma verify_op_branch:
  "bytecode b \<in> {I_JMP, I_JMPF, I_JMPT} \<Longrightarrow>
     verify_op len constants limits (pc, b) = check_jump len pc (unat (operand_u32 b)) ''jump''"
  "bytecode b \<in> {I_CmpJmpf, I_CmpJmpt} \<Longrightarrow> verify_op len constants limits (pc, b) =
     rbind (check_inner pc (fst (cmp_jmpf_parts b)) ''CmpJmp'') (\<lambda>_.
     rbind (if cmp_jmpf_is_pool b then rmap unat (check_pool constants pc (snd (cmp_jmpf_parts b)) ''CmpJmp'')
            else Ok (snd (cmp_jmpf_parts b)))
       (\<lambda>target. check_jump len pc target ''CmpJmp''))"
  "bytecode b \<in> {I_LogNotJmpf, I_LogNotJmpt} \<Longrightarrow> verify_op len constants limits (pc, b) =
     rbind (if log_not_jmpf_is_pool b
            then rmap unat (check_pool constants pc (log_not_jmpf_target b) ''LogNotJmp'')
            else Ok (log_not_jmpf_target b))
       (\<lambda>target. check_jump len pc target ''LogNotJmp'')"
  "bytecode b \<in> {I_BinSlotImmJmpf, I_BinSlotImmJmpt} \<Longrightarrow> verify_op len constants limits (pc, b) =
     rbind (check_inner pc (fst (bin_slot_imm_jmpf_parts b)) ''BinSlotImmJmp'') (\<lambda>_.
     rbind (check_pool constants pc (snd (snd (bin_slot_imm_jmpf_parts b))) ''BinSlotImmJmp'') (\<lambda>desc.
       check_jump len pc (unat (drop_bit 32 desc)) ''BinSlotImmJmp''))"
  "bytecode b \<in> {I_BinSlotSlotJmpf, I_BinSlotSlotJmpt} \<Longrightarrow> verify_op len constants limits (pc, b) =
     rbind (check_inner pc (fst (bin_slot_slot_jmpf_parts b)) ''BinSlotSlotJmp'') (\<lambda>_.
     rbind (check_pool constants pc (snd (snd (bin_slot_slot_jmpf_parts b))) ''BinSlotSlotJmp'') (\<lambda>desc.
       check_jump len pc (unat (drop_bit 32 desc)) ''BinSlotSlotJmp''))"
  "bytecode b = I_BinSlotSlotConstJmpt \<Longrightarrow> verify_op len constants limits (pc, b) =
     rbind (check_pool constants pc (snd (snd (bin_slot_slot_const_jmpf_parts b))) ''BinSlotSlotConstJmp'')
       (\<lambda>desc. rbind (check_pool constants pc (unat (drop_bit 16 desc AND 0xFFFF)) ''BinSlotSlotConstJmp float'')
         (\<lambda>_. check_jump len pc (unat (drop_bit 32 desc)) ''BinSlotSlotConstJmp''))"
  "bytecode b = I_JumpIfMatch \<Longrightarrow> verify_op len constants limits (pc, b) =
     rbind (check_pool constants pc (unat (operand_u32 b AND 0xFFFF)) ''JumpIfMatch'') (\<lambda>target.
       check_jump len pc (unat target) ''JumpIfMatch'')"
  subgoal by (elim insertE emptyE; simp add: verify_op_unfold)
  subgoal by (elim insertE emptyE; simp add: verify_op_unfold)
  subgoal by (elim insertE emptyE; simp add: verify_op_unfold)
  subgoal by (elim insertE emptyE; simp add: verify_op_unfold)
  subgoal by (elim insertE emptyE; simp add: verify_op_unfold)
  subgoal by (simp add: verify_op_unfold)
  subgoal by (simp add: verify_op_unfold)
  done

lemma branch_of_at:
  "bytecode b \<in> {I_JMP, I_JMPF, I_JMPT} \<Longrightarrow> branch_of b pool = JumpTo (unat (operand_u32 b))"
  "bytecode b \<in> {I_CmpJmpf, I_CmpJmpt} \<Longrightarrow>
     branch_of b pool = direct_or_pool pool (snd (cmp_jmpf_parts b)) (cmp_jmpf_is_pool b)"
  "bytecode b \<in> {I_LogNotJmpf, I_LogNotJmpt} \<Longrightarrow>
     branch_of b pool = direct_or_pool pool (log_not_jmpf_target b) (log_not_jmpf_is_pool b)"
  "bytecode b \<in> {I_BinSlotImmJmpf, I_BinSlotImmJmpt} \<Longrightarrow>
     branch_of b pool = pool_target (get pool (snd (snd (bin_slot_imm_jmpf_parts b))))"
  "bytecode b \<in> {I_BinSlotSlotJmpf, I_BinSlotSlotJmpt} \<Longrightarrow>
     branch_of b pool = pool_target (get pool (snd (snd (bin_slot_slot_jmpf_parts b))))"
  "bytecode b = I_BinSlotSlotConstJmpt \<Longrightarrow>
     branch_of b pool = pool_target (get pool (snd (snd (bin_slot_slot_const_jmpf_parts b))))"
  "bytecode b = I_JumpIfMatch \<Longrightarrow> branch_of b pool =
     (case get pool (unat (operand_u32 b AND 0xFFFF)) of None \<Rightarrow> JumpUnknown | Some t \<Rightarrow> JumpTo (unat t))"
  by (auto simp: branch_of_def Let_def)

lemma branch_accepted:
  assumes "verify_op len constants limits (pc, b) = Ok u"
  shows "case branch_of b constants of NoJump \<Rightarrow> True | JumpTo t \<Rightarrow> t \<le> len | JumpUnknown \<Rightarrow> False"
proof -
  have none: "branch_of b constants = NoJump" if "bytecode b \<notin> {I_JMP, I_JMPF, I_JMPT, I_CmpJmpf,
      I_CmpJmpt, I_LogNotJmpf, I_LogNotJmpt, I_BinSlotImmJmpf, I_BinSlotImmJmpt, I_BinSlotSlotJmpf,
      I_BinSlotSlotJmpt, I_BinSlotSlotConstJmpt, I_JumpIfMatch}"
    using that by (simp add: branch_of_def Let_def)
  consider (1) "bytecode b \<in> {I_JMP, I_JMPF, I_JMPT}" | (2) "bytecode b \<in> {I_CmpJmpf, I_CmpJmpt}"
    | (3) "bytecode b \<in> {I_LogNotJmpf, I_LogNotJmpt}"
    | (4) "bytecode b \<in> {I_BinSlotImmJmpf, I_BinSlotImmJmpt}"
    | (5) "bytecode b \<in> {I_BinSlotSlotJmpf, I_BinSlotSlotJmpt}" | (6) "bytecode b = I_BinSlotSlotConstJmpt"
    | (7) "bytecode b = I_JumpIfMatch" | (8) "branch_of b constants = NoJump"
    using none by blast
  then show ?thesis
    by cases (use assms in \<open>auto simp: verify_op_branch branch_of_at result_simps direct_or_pool_def
      pool_target_def simp del: get_Some_iff insert_iff split: if_splits\<close>)
qed

lemmas fused_parts_unfold = bin_slot_imm_parts_def bin_slot_slot_parts_def bin_slot_slot_store_parts_def
  bin_return_op_def cmp_jmpf_parts_def bin_slot_imm_jmpf_parts_def bin_slot_slot_jmpf_parts_def
  bin_slot_imm_store_parts_def

lemma unat_low_u16: "unat (ucast (w AND 0xFFFF) :: u16) = unat (w AND 0xFFFF)" for w :: u32
  by (simp add: pack_simps unsigned_ucast_eq unsigned_take_bit_eq)

lemma not_retired_iff: "\<not> is_retired op \<longleftrightarrow> op \<notin> {I_DATA, I_SET} \<and> (stops_retired_pair op \<or> stops_retired_fused op \<longrightarrow> op = I_BinSlotSlotConstJmpt)"
  by (auto simp: is_retired_def stops_retired_pair_def stops_retired_fused_def)

lemma accepted_operands:
  assumes ok: "verify_op len constants limits (pc, b) = Ok u"
  shows "bytecode b \<notin> {I_DATA, I_SET} \<and> (stops_retired_pair (bytecode b) \<or> stops_retired_fused (bytecode b) \<longrightarrow> bytecode b = I_BinSlotSlotConstJmpt)"
    and "bytecode b \<in> {I_CALL, I_TailCall, I_MakeCoro} \<Longrightarrow> snd (call_parts b) < len"
    and "bytecode b \<in> {I_CodePtr, I_MakePolyFn} \<Longrightarrow> unat (operand_u32 b) < len"
    and "bytecode b \<in> {I_LoadStatic, I_StoreStatic} \<Longrightarrow> unat (operand_u32 b) < lim_static_slots limits"
    and "bytecode b = I_STRING \<Longrightarrow> unat (operand_u32 b) < lim_strings limits"
    and "bytecode b = I_CONST \<Longrightarrow> byte_constant b constants \<noteq> None"
    and "bytecode b = I_DenseConst \<Longrightarrow> snd (snd (snd (dense_const_parts b))) \<Longrightarrow>
      get constants (unat (fst (snd (snd (dense_const_parts b))))) \<noteq> None"
    and "bytecode b = I_JumpIfMatch \<Longrightarrow> jump_if_match_target b constants \<noteq> None"
    and "bytecode b = I_DenseMakeK \<Longrightarrow> dense_make_k_parts b constants \<noteq> None"
    and "bytecode b = I_DenseHostCall \<Longrightarrow> dense_host_call_parts b constants \<noteq> None"
    and "bytecode b = I_BinSlotImmStore \<Longrightarrow> get constants (snd (snd (bin_slot_imm_store_parts b))) \<noteq> None"
    and "bytecode b = I_BinSlotSlotConstJmpt \<Longrightarrow> \<exists>desc. get constants (snd (snd (bin_slot_slot_const_jmpf_parts b))) = Some desc
      \<and> get constants (fst (snd (snd (unpack_bin_slot_slot_const_jmpf_desc desc)))) \<noteq> None"
  subgoal using ok not_retired_iff[of "bytecode b"] by (auto simp: verify_op_def Let_def)
  subgoal by (elim insertE emptyE; use ok in \<open>simp add: verify_op_unfold result_simps\<close>)
  subgoal by (elim insertE emptyE; use ok in \<open>simp add: verify_op_unfold result_simps\<close>)
  subgoal by (elim insertE emptyE; use ok in \<open>simp add: verify_op_unfold result_simps split: if_splits\<close>)
  subgoal using ok by (simp add: verify_op_unfold result_simps split: if_splits)
  subgoal using ok by (auto simp: verify_op_unfold result_simps byte_constant_def operand_u32_def)
  subgoal using ok by (auto simp: verify_op_unfold result_simps dense_const_parts_def operand_u32_def
      unat_low_u16)
  subgoal using ok by (auto simp: verify_op_unfold result_simps jump_if_match_target_def operand_u32_def)
  subgoal using ok by (auto simp: verify_op_unfold result_simps dense_make_k_parts_def operand_u32_def
      split: option.split)
  subgoal using ok by (auto simp: verify_op_unfold result_simps dense_host_call_parts_def operand_u32_def
      split: option.split)
  subgoal using ok by (auto simp: verify_op_unfold result_simps)
  subgoal using ok by (auto simp: verify_op_unfold result_simps)
  done

lemma accepted_inner:
  assumes ok: "verify_op len constants limits (pc, b) = Ok u" and c: "fused_inner b = Some c"
  shows "c \<le> instruction_last"
proof -
  have "bytecode b \<in> {I_BinSlotImm, I_BinSlotSlot, I_BinSlotSlotStore, I_BinReturn, I_CmpJmpf,
          I_CmpJmpt, I_BinSlotImmJmpf, I_BinSlotImmJmpt, I_BinSlotSlotJmpf, I_BinSlotSlotJmpt,
          I_BinSlotImmStore}" "c = ucast (drop_bit 24 (operands b))"
    using c by (simp_all add: fused_inner_def split: if_splits)
  then show ?thesis
    by (elim insertE emptyE; use ok in \<open>simp add: verify_op_unfold result_simps fused_parts_unfold\<close>)
qed

lemma accepted_snapshot:
  assumes ok: "verify_op len constants limits (pc, b) = Ok u" and b: "bytecode b = I_RestoreSnapshot"
  shows "\<exists>s. snapshot_decode (drop (unat (operand_u32 b)) constants) = Ok s \<and> snapshot_wf s
     \<and> list_all (\<lambda>p. unat (fst p) < lim_static_slots limits) (snap_statics s)"
proof -
  have "check_snapshot constants limits pc (operand_u32 b) = Ok u"
    using ok b by (simp add: verify_op_unfold)
  then obtain s where "snapshot_decode (drop (unat (operand_u32 b)) constants) = Ok s"
      "find (\<lambda>p. lim_static_slots limits \<le> unat (fst p)) (snap_statics s) = None"
    by (auto simp: check_snapshot_def get_range_def split: result.splits option.splits prod.splits if_splits)
  then show ?thesis
    by (auto simp: find_None_iff list_all_iff not_le intro: snapshot_decode_wf)
qed

lemma accepted_word:
  assumes "verify_op len constants limits (pc, b) = Ok u"
  shows "word_ok len constants limits b"
  unfolding word_ok_def
  using accepted_operands[OF assms] accepted_inner[OF assms] accepted_snapshot[OF assms]
    branch_accepted[OF assms] frame_step_jump[of b constants]
  by (simp only: jumps_as_def) metis

section \<open>The return-width analysis\<close>

text \<open>The width bits set for each frame.\<close>

definition wbits :: "u8 list \<Rightarrow> (nat \<times> nat) set" where
  "wbits ws = {(f, k). f < length ws \<and> bit (ws ! f) k}"

lemma wbits_update:
  "f < length ws \<Longrightarrow> wbits (ws[f := ws ! f OR v]) = wbits ws \<union> {(f, k) | k. bit v k}"
  by (auto simp: wbits_def nth_list_update bit_or_iff split: if_splits)

lemma wbits_finite: "finite (wbits ws)" "card (wbits ws) \<le> 8 * length ws"
proof -
  have "wbits ws \<subseteq> {..<length ws} \<times> {..<8}"
    by (auto simp: wbits_def dest: bit_imp_le_length)
  moreover have "finite ({..<length ws} \<times> {..<8 :: nat})" "card ({..<length ws} \<times> {..<8 :: nat}) = 8 * length ws"
    by (simp_all add: card_cartesian_product)
  ultimately show "finite (wbits ws)" "card (wbits ws) \<le> 8 * length ws"
    by (metis finite_subset, metis card_mono)
qed

lemma bit_single: "n < 8 \<Longrightarrow> bit (push_bit n 1 :: u8) k \<longleftrightarrow> k = n"
  by (auto simp: bit_exp_iff)

lemma returned_words_range: "returned_words b = Some w \<Longrightarrow> w < 8"
  by (auto simp: returned_words_def return_words_def split: if_splits)

text \<open>A direct tail call, and what the first loop gathers from a list of words.\<close>

definition tail_target :: "byte \<Rightarrow> nat option" where
  "tail_target b = (if bytecode b = I_TailCall \<and> snd (call_parts b) \<noteq> 0 then Some (snd (call_parts b)) else None)"

definition own_returns :: "nat list \<Rightarrow> (nat \<times> byte) list \<Rightarrow> (nat \<times> nat) set" where
  "own_returns rs xs = {(rs ! pc, w) | pc b w. (pc, b) \<in> set xs \<and> returned_words b = Some w}"

definition tail_edges :: "nat list \<Rightarrow> (nat \<times> byte) list \<Rightarrow> (nat \<times> nat) set" where
  "tail_edges rs xs = {(rs ! pc, rs ! t) | pc b t. (pc, b) \<in> set xs \<and> tail_target b = Some t}"

lemma returned_not_tail: "returned_words b = Some w \<Longrightarrow> tail_target b = None"
  by (auto simp: returned_words_def tail_target_def split: if_splits)

lemma gather_Cons:
  "own_returns rs ((pc, b) # xs) = own_returns rs xs \<union> {(rs ! pc, w) | w. returned_words b = Some w}"
  "tail_edges rs ((pc, b) # xs) = tail_edges rs xs \<union> {(rs ! pc, rs ! t) | t. tail_target b = Some t}"
  by (auto simp: own_returns_def tail_edges_def)

lemma collect_widths_spec:
  assumes "\<forall>r \<in> set rs. r < length widths"
    and "\<forall>(pc, b) \<in> set xs. pc < length rs \<and> (\<forall>t. tail_target b = Some t \<longrightarrow> t < length rs)"
  shows "\<exists>ws ts. collect_widths rs xs widths tails = Ok (ws, ts) \<and> length ws = length widths
     \<and> wbits ws = wbits widths \<union> own_returns rs xs \<and> set ts = set tails \<union> tail_edges rs xs"
  using assms
proof (induction rs xs widths tails rule: collect_widths.induct)
  case (1 rs widths tails)
  then show ?case by (auto simp: own_returns_def tail_edges_def)
next
  case (2 rs pc b rest widths tails)
  have pc: "get rs pc = Some (rs ! pc)" "rs ! pc < length widths" "pc < length rs"
    using 2(4,5) by (auto simp: get_def)
  show ?case
  proof (cases "returned_words b")
    case (Some w)
    have "wbits (widths[rs ! pc := widths ! (rs ! pc) OR push_bit w 1]) = wbits widths \<union> {(rs ! pc, w)}"
      using wbits_update[OF pc(2)] bit_single[OF returned_words_range[OF Some]] by auto
    then show ?thesis
      using 2(3)[OF Some pc(1,2)] 2(4,5) pc Some returned_not_tail[OF Some]
      by (auto simp: gather_Cons simp del: get_Some_iff)
  next
    case None
    show ?thesis
    proof (cases "tail_target b")
      case t: (Some t)
      then have "bytecode b = I_TailCall \<and> snd (call_parts b) \<noteq> 0" "t = snd (call_parts b)"
        by (auto simp: tail_target_def split: if_splits)
      moreover have "t < length rs" using 2(5) t by auto
      ultimately show ?thesis
        using 2(1)[OF None, of "get rs pc" "get rs t" "rs ! pc" "rs ! t"] 2(4,5) pc None t
        by (auto simp: gather_Cons get_def)
    next
      case t: None
      then show ?thesis
        using 2(2)[OF None] 2(4,5) None by (auto simp: gather_Cons tail_target_def split: if_splits)
    qed
  qed
qed

definition tail_closed :: "(nat \<times> nat) list \<Rightarrow> (nat \<times> nat) set \<Rightarrow> bool" where
  "tail_closed ts R \<longleftrightarrow> (\<forall>(src, dst) \<in> set ts. \<forall>k. (dst, k) \<in> R \<longrightarrow> (src, k) \<in> R)"

lemma tail_closed_Cons:
  "tail_closed ((src, dst) # ts) R \<longleftrightarrow> (\<forall>k. (dst, k) \<in> R \<longrightarrow> (src, k) \<in> R) \<and> tail_closed ts R"
  by (auto simp: tail_closed_def)

definition tails_in :: "(nat \<times> nat) list \<Rightarrow> nat \<Rightarrow> bool" where
  "tails_in ts n \<longleftrightarrow> (\<forall>(src, dst) \<in> set ts. src < n \<and> dst < n)"

lemma tails_in_Cons [simp]: "tails_in ((src, dst) # ts) n \<longleftrightarrow> src < n \<and> dst < n \<and> tails_in ts n"
  by (auto simp: tails_in_def)

lemma merge_bits:
  assumes "src < length ws" and "dst < length ws"
  shows "wbits (ws[src := ws ! src OR ws ! dst]) = wbits ws \<union> {(src, k) | k. (dst, k) \<in> wbits ws}"
    and "ws ! src OR ws ! dst = ws ! src \<longleftrightarrow> (\<forall>k. (dst, k) \<in> wbits ws \<longrightarrow> (src, k) \<in> wbits ws)"
  using wbits_update[OF assms(1)] assms
  by (auto simp: wbits_def bit_eq_iff[where 'a = u8] bit_or_iff dest: bit_imp_le_length)

lemma tails_pass_length: "length (snd (tails_pass ts ch ws)) = length ws"
  by (induction ts ch ws rule: tails_pass.induct) (auto simp: Let_def)

lemma tails_pass_mono: "tails_in ts (length ws) \<Longrightarrow> wbits ws \<subseteq> wbits (snd (tails_pass ts ch ws))"
  by (induction ts ch ws rule: tails_pass.induct) (auto simp: Let_def merge_bits(1))

lemma tails_pass_flag: "fst (tails_pass ts True ws)"
  by (induction ts arbitrary: ws) (auto simp: Let_def)

lemma tails_pass_stable:
  "\<not> fst (tails_pass ts ch ws) \<Longrightarrow> tails_in ts (length ws) \<Longrightarrow>
     snd (tails_pass ts ch ws) = ws \<and> tail_closed ts (wbits ws)"
proof (induction ts ch ws rule: tails_pass.induct)
  case (2 src dst rest ch ws)
  then have "ws ! src OR ws ! dst = ws ! src"
    using tails_pass_flag by (auto simp: Let_def split: if_splits)
  then show ?case
    using 2 merge_bits(2)[of src ws dst] by (auto simp: Let_def tail_closed_Cons)
qed (simp add: tail_closed_def)

lemma tails_pass_strict:
  "fst (tails_pass ts False ws) \<Longrightarrow> tails_in ts (length ws) \<Longrightarrow>
     wbits ws \<subset> wbits (snd (tails_pass ts False ws))"
proof (induction ts arbitrary: ws)
  case (Cons e ts)
  obtain src dst where e: "e = (src, dst)" by (cases e)
  let ?ws = "ws[src := ws ! src OR ws ! dst]"
  show ?case
  proof (cases "ws ! src OR ws ! dst = ws ! src")
    case False
    then have "wbits ws \<subset> wbits ?ws"
      using merge_bits[of src ws dst] Cons.prems(2) by (auto simp: e)
    also have "wbits ?ws \<subseteq> wbits (snd (tails_pass ts True ?ws))"
      using tails_pass_mono[of ts ?ws] Cons.prems(2) by (simp add: e)
    finally show ?thesis using False by (simp add: e Let_def)
  qed (use Cons in \<open>simp add: e Let_def\<close>)
qed simp

lemma tails_pass_below:
  "wbits ws \<subseteq> R \<Longrightarrow> tail_closed ts R \<Longrightarrow> tails_in ts (length ws) \<Longrightarrow>
     wbits (snd (tails_pass ts ch ws)) \<subseteq> R"
proof (induction ts ch ws rule: tails_pass.induct)
  case (2 src dst rest ch ws)
  have "wbits (ws[src := ws ! src OR ws ! dst]) \<subseteq> R"
    using 2(3-5) merge_bits(1)[of src ws dst] by (auto simp: tail_closed_Cons)
  then show ?case
    using 2 by (simp add: Let_def tail_closed_Cons)
qed simp

text \<open>The loop ends with the least closed set of width bits.\<close>

lemma tails_loop_spec:
  assumes "tails_in ts (length ws)" and "8 * length ws < fuel + card (wbits ws)"
  shows "\<exists>ws'. tails_loop fuel ts ws = Some ws' \<and> length ws' = length ws
     \<and> wbits ws \<subseteq> wbits ws' \<and> tail_closed ts (wbits ws')
     \<and> (\<forall>R. wbits ws \<subseteq> R \<longrightarrow> tail_closed ts R \<longrightarrow> wbits ws' \<subseteq> R)"
  using assms
proof (induction fuel arbitrary: ws)
  case 0
  then show ?case using wbits_finite(2)[of ws] by simp
next
  case (Suc fuel)
  obtain ch ws1 where p: "tails_pass ts False ws = (ch, ws1)" by fastforce
  then have l: "length ws1 = length ws"
    using tails_pass_length[of ts False ws] by simp
  show ?case
  proof (cases ch)
    case False
    then show ?thesis
      using tails_pass_stable[of ts False ws] p Suc.prems(1) by auto
  next
    case True
    then have s: "wbits ws \<subset> wbits ws1"
      using tails_pass_strict[of ts ws] p Suc.prems(1) by simp
    then have "card (wbits ws) < card (wbits ws1)"
      by (intro psubset_card_mono wbits_finite)
    then obtain ws' where w: "tails_loop fuel ts ws1 = Some ws'" "length ws' = length ws1"
        "wbits ws1 \<subseteq> wbits ws'" "tail_closed ts (wbits ws')"
        "\<forall>R. wbits ws1 \<subseteq> R \<longrightarrow> tail_closed ts R \<longrightarrow> wbits ws' \<subseteq> R"
      using Suc.IH[of ws1] Suc.prems l by auto
    moreover have "wbits ws1 \<subseteq> R" if "wbits ws \<subseteq> R" "tail_closed ts R" for R
      using tails_pass_below[of ws R ts False] that p Suc.prems(1) by simp
    ultimately show ?thesis
      using p True l s by auto
  qed
qed

section \<open>Acceptance and refusal of a whole program\<close>

subsection \<open>Decoding panics only on an overlong slot list\<close>

definition overlong_slots :: "byte \<Rightarrow> bool" where
  "overlong_slots b \<longleftrightarrow> bytecode b \<in> {I_LOAD, I_STORE, I_StorePop} \<and> 3 < load_store_n b"

lemma load_store_slots_total:
  "load_store_slots b = (if 3 < load_store_n b then Panicked
     else Ok (map (\<lambda>i. case rmap unat (load_store_slot_at b i) of Ok x \<Rightarrow> x | _ \<Rightarrow> 0) [0..<load_store_count b]))"
proof (cases "3 < load_store_n b")
  case True
  have n: "load_store_n b \<noteq> 0" using True by auto
  then have c: "load_store_count b = 4 + (load_store_count b - 4)"
    using True by (simp add: load_store_count_def word_less_nat_alt)
  have "rmap unat (load_store_slot_at b 3) = Panicked" "\<exists>x. rmap unat (load_store_slot_at b 0) = Ok x"
    "\<exists>x. rmap unat (load_store_slot_at b 1) = Ok x" "\<exists>x. rmap unat (load_store_slot_at b 2) = Ok x"
    using n by (simp_all add: load_store_slot_at_def)
  then have "rtraverse (\<lambda>i. rmap unat (load_store_slot_at b i)) ([0, 1, 2, 3] @ [4..<4 + k]) = Panicked" for k
    by auto
  moreover have "[0..<4 + k] = [0, 1, 2, 3] @ [4..<4 + k]" for k
    using upt_add_eq_append[of 0 4 k] by (simp add: upt_rec)
  ultimately show ?thesis
    unfolding load_store_slots_def using True c by metis
next
  case False
  have ok: "\<exists>x. load_store_slot_at b i = Ok x" if "i < load_store_count b" for i
  proof -
    have "i < 3 \<or> load_store_n b = 0"
      using that False by (auto simp: load_store_count_def word_less_nat_alt split: if_splits)
    then show ?thesis by (auto simp: load_store_slot_at_def less_Suc_eq numeral_eq_Suc)
  qed
  have "rtraverse (\<lambda>i. rmap unat (load_store_slot_at b i)) (map id [0..<load_store_count b]) =
      Ok (map (\<lambda>i. case rmap unat (load_store_slot_at b i) of Ok x \<Rightarrow> x | _ \<Rightarrow> 0) [0..<load_store_count b])"
    by (rule rtraverse_map_Ok) (use ok in fastforce)
  then show ?thesis using False by (simp add: load_store_slots_def)
qed

lemma is_ok_if: "(c \<Longrightarrow> is_ok x) \<Longrightarrow> (\<not> c \<Longrightarrow> is_ok y) \<Longrightarrow> is_ok (if c then x else y)"
  by simp

lemma frame_step_decodes: "bytecode b \<notin> {I_LOAD, I_STORE, I_StorePop} \<Longrightarrow> is_ok (frame_step b pool m)"
  unfolding frame_step_def Let_def
  by (intro is_ok_if) (auto split: prod.split)

lemma frame_step_outcome:
  "frame_step b pool m \<noteq> Err e" "frame_step b pool m = Panicked \<longleftrightarrow> overlong_slots b"
proof -
  consider "bytecode b \<notin> {I_LOAD, I_STORE, I_StorePop}" | "bytecode b = I_LOAD" | "bytecode b = I_STORE"
    | "bytecode b = I_StorePop" by blast
  then have "frame_step b pool m \<noteq> Err e \<and> (frame_step b pool m = Panicked \<longleftrightarrow> overlong_slots b)"
  proof cases
    case 1
    then show ?thesis using frame_step_decodes[OF 1, of pool m] by (auto simp: is_ok_iff overlong_slots_def)
  qed (simp_all add: frame_step_def load_store_slots_total overlong_slots_def)
  then show "frame_step b pool m \<noteq> Err e" "frame_step b pool m = Panicked \<longleftrightarrow> overlong_slots b" by auto
qed

text \<open>Conversely the check has no other reason to refuse a word.\<close>

lemma word_ok_branch:
  assumes "word_ok len constants limits b" and "bytecode b \<notin> {I_LOAD, I_STORE, I_StorePop}"
  shows "case branch_of b constants of NoJump \<Rightarrow> True | JumpTo t \<Rightarrow> t \<le> len | JumpUnknown \<Rightarrow> False"
proof -
  obtain s where s: "frame_step b constants 0 = Ok s"
    using frame_step_decodes[OF assms(2), of constants 0] by (auto simp: is_ok_iff)
  then have "step_jump s = branch_of b constants"
    using frame_step_jump[of b constants 0] by (simp add: jumps_as_def)
  then show ?thesis
    using assms(1) s unfolding word_ok_def by metis
qed

lemma word_ok_inner: "word_ok len constants limits b \<Longrightarrow> fused_inner b = Some c \<Longrightarrow> c \<le> instruction_last"
  by (simp add: word_ok_def)

lemma word_ok_jumps:
  assumes w: "word_ok len constants limits b"
    and b: "bytecode b \<in> {I_JMP, I_JMPF, I_JMPT, I_CmpJmpf, I_CmpJmpt, I_LogNotJmpf, I_LogNotJmpt, I_BinSlotImmJmpf, I_BinSlotImmJmpt,
      I_BinSlotSlotJmpf, I_BinSlotSlotJmpt, I_BinSlotSlotConstJmpt, I_JumpIfMatch}"
  shows "verify_op len constants limits (pc, b) = Ok ()"
proof -
  have br: "case branch_of b constants of NoJump \<Rightarrow> True | JumpTo t \<Rightarrow> t \<le> len | JumpUnknown \<Rightarrow> False"
    using b by (intro word_ok_branch[OF w]) auto
  have inner: "bytecode b \<in> {I_CmpJmpf, I_CmpJmpt} \<Longrightarrow> fst (cmp_jmpf_parts b) \<le> instruction_last"
    "bytecode b \<in> {I_BinSlotImmJmpf, I_BinSlotImmJmpt} \<Longrightarrow> fst (bin_slot_imm_jmpf_parts b) \<le> instruction_last"
    "bytecode b \<in> {I_BinSlotSlotJmpf, I_BinSlotSlotJmpt} \<Longrightarrow> fst (bin_slot_slot_jmpf_parts b) \<le> instruction_last"
    by (rule word_ok_inner[OF w], auto simp: fused_inner_def fused_parts_unfold Let_def)+
  consider (1) "bytecode b \<in> {I_JMP, I_JMPF, I_JMPT}" | (2) "bytecode b \<in> {I_CmpJmpf, I_CmpJmpt}"
    | (3) "bytecode b \<in> {I_LogNotJmpf, I_LogNotJmpt}"
    | (4) "bytecode b \<in> {I_BinSlotImmJmpf, I_BinSlotImmJmpt}"
    | (5) "bytecode b \<in> {I_BinSlotSlotJmpf, I_BinSlotSlotJmpt}" | (6) "bytecode b = I_BinSlotSlotConstJmpt"
    | (7) "bytecode b = I_JumpIfMatch"
    using b by blast
  then show ?thesis
  proof cases
    case 6
    then obtain desc x where d: "get constants (snd (snd (bin_slot_slot_const_jmpf_parts b))) = Some desc"
      "get constants (unat (drop_bit 16 desc AND 0xFFFF)) = Some x"
      using w by (auto simp: word_ok_def unpack_bin_slot_slot_const_jmpf_desc_def)
    then show ?thesis
      using br 6 by (auto simp: verify_op_branch branch_of_at result_simps pool_target_def simp del: get_Some_iff)
  qed (use br in \<open>auto simp: inner verify_op_branch branch_of_at result_simps direct_or_pool_def pool_target_def
      simp del: get_Some_iff insert_iff split: if_splits option.splits\<close>)
qed

lemma word_ok_accepted:
  assumes w: "word_ok len constants limits b"
  shows "verify_op len constants limits (pc, b) = Ok ()"
proof -
  have r: "\<not> is_retired (bytecode b)"
    using w unfolding not_retired_iff by (simp add: word_ok_def)
  define J I E P :: "instruction set" where sets: "J = {I_JMP, I_JMPF, I_JMPT, I_CmpJmpf, I_CmpJmpt, I_LogNotJmpf, I_LogNotJmpt, I_BinSlotImmJmpf,
      I_BinSlotImmJmpt, I_BinSlotSlotJmpf, I_BinSlotSlotJmpt, I_BinSlotSlotConstJmpt, I_JumpIfMatch}"
    "I = {I_BinSlotImm, I_BinSlotSlot, I_BinSlotSlotStore, I_BinReturn, I_BinSlotImmStore}"
    "E = {I_CALL, I_TailCall, I_MakeCoro, I_CodePtr, I_MakePolyFn, I_STRING, I_LoadStatic, I_StoreStatic}"
    "P = {I_CONST, I_DenseConst, I_DenseMakeK, I_DenseHostCall}"
  consider (jump) "bytecode b \<in> J" | (inner) "bytecode b \<in> I" | (entry) "bytecode b \<in> E" | (pool) "bytecode b \<in> P"
    | (snap) "bytecode b = I_RestoreSnapshot" | (other) "bytecode b \<notin> J" "bytecode b \<notin> I" "bytecode b \<notin> E" "bytecode b \<notin> P" "bytecode b \<noteq> I_RestoreSnapshot"
    by blast
  then show ?thesis
  proof cases
    case jump
    then show ?thesis
      unfolding sets by (rule word_ok_jumps[OF w])
  next
    case inner
    have "ucast (drop_bit 24 (operands b)) \<le> instruction_last"
      using inner by (intro word_ok_inner[OF w]) (auto simp: sets fused_inner_def)
    moreover have "bytecode b = I_BinSlotImmStore \<longrightarrow> get constants (snd (snd (bin_slot_imm_store_parts b))) \<noteq> None"
      using w by (simp add: word_ok_def)
    ultimately show ?thesis
      using inner unfolding sets by (elim insertE emptyE) (auto simp: verify_op_unfold result_simps fused_parts_unfold)
  next
    case entry
    then show ?thesis
      unfolding sets by (elim insertE emptyE; use w in \<open>simp add: verify_op_unfold result_simps word_ok_def\<close>)
  next
    case pool
    then show ?thesis
      unfolding sets by (elim insertE emptyE; use w in \<open>auto simp: verify_op_unfold result_simps word_ok_def byte_constant_def dense_const_parts_def
        dense_make_k_parts_def dense_host_call_parts_def operand_u32_def unat_low_u16 split: if_splits option.splits\<close>)
  next
    case snap
    then obtain s where s: "snapshot_decode (drop (unat (operand_u32 b)) constants) = Ok s"
      "list_all (\<lambda>p. unat (fst p) < lim_static_slots limits) (snap_statics s)"
      using w by (auto simp: word_ok_def)
    have "snapshot_decode [] \<noteq> Ok s"
      by (simp add: snapshot_decode_def)
    then have "get_range constants (unat (operand_u32 b)) (length constants) = Some (drop (unat (operand_u32 b)) constants)"
      using s(1) by (cases "unat (operand_u32 b) \<le> length constants") (auto simp: get_range_def)
    moreover have "find (\<lambda>p. lim_static_slots limits \<le> unat (fst p)) (snap_statics s) = None"
      using s(2) by (auto simp: find_None_iff list_all_iff)
    ultimately show ?thesis
      using snap s(1) by (simp add: verify_op_unfold check_snapshot_def)
  next
    case other
    then show ?thesis
      using r by (simp add: verify_op_def Let_def sets)
  qed
qed

subsection \<open>Return widths\<close>

text \<open>
  The words a frame can leave for its caller: at a return op of its own, or through a direct tail
  call into another frame. \<open>root\<close> names the frame of a code position.
\<close>

inductive frame_returns :: "byte list \<Rightarrow> (nat \<Rightarrow> nat) \<Rightarrow> nat \<Rightarrow> nat \<Rightarrow> bool" for code root where
  own: "pc < length code \<Longrightarrow> returned_words (code ! pc) = Some w \<Longrightarrow> frame_returns code root (root pc) w"
| tail: "pc < length code \<Longrightarrow> tail_target (code ! pc) = Some t \<Longrightarrow> frame_returns code root (root t) w \<Longrightarrow>
    frame_returns code root (root pc) w"

definition calls_agree :: "byte list \<Rightarrow> (nat \<Rightarrow> nat) \<Rightarrow> bool" where
  "calls_agree code root \<longleftrightarrow> (\<forall>pc < length code. \<forall>w. bytecode (code ! pc) = I_CALL \<longrightarrow>
     snd (call_parts (code ! pc)) \<noteq> 0 \<longrightarrow>
     frame_returns code root (root (snd (call_parts (code ! pc)))) w \<longrightarrow> w = call_ret_words (code ! pc))"

definition entries_in :: "byte list \<Rightarrow> bool" where
  "entries_in code \<longleftrightarrow> (\<forall>b \<in> set code. bytecode b \<in> {I_CALL, I_TailCall} \<longrightarrow> snd (call_parts b) < length code)"

lemma set_zip_upt: "(pc, b) \<in> set (zip [0..<length code] code) \<longleftrightarrow> pc < length code \<and> b = code ! pc"
  by (auto simp: set_zip intro!: exI[of _ pc])

lemma all_zip_upt: "(\<forall>x \<in> set (zip [0..<length code] code). P x) \<longleftrightarrow> (\<forall>pc < length code. P (pc, code ! pc))"
  using set_zip_upt by fastforce

lemma check_call_Ok_iff:
  assumes "get rs (snd (call_parts b)) = Some r" and "r < length ws"
  shows "check_call rs ws (pc, b) = Ok () \<longleftrightarrow>
    (bytecode b = I_CALL \<longrightarrow> snd (call_parts b) \<noteq> 0 \<longrightarrow> (\<forall>k. (r, k) \<in> wbits ws \<longrightarrow> k = call_ret_words b))"
    and "check_call rs ws (pc, b) \<noteq> Panicked"
proof -
  have "call_ret_words b < 8" by (simp add: call_ret_words_def)
  then have "ws ! r AND NOT (push_bit (call_ret_words b) 1) = 0 \<longleftrightarrow>
      (\<forall>k. bit (ws ! r) k \<longrightarrow> k = call_ret_words b)"
    using bit_single by (auto simp: bit_eq_iff[where 'a = u8] bit_and_iff bit_not_iff dest: bit_imp_le_length)
  moreover have "get ws r = Some (ws ! r)" using assms(2) by simp
  ultimately show "check_call rs ws (pc, b) = Ok () \<longleftrightarrow>
    (bytecode b = I_CALL \<longrightarrow> snd (call_parts b) \<noteq> 0 \<longrightarrow> (\<forall>k. (r, k) \<in> wbits ws \<longrightarrow> k = call_ret_words b))"
    "check_call rs ws (pc, b) \<noteq> Panicked"
    using assms by (auto simp: check_call_def Let_def wbits_def simp del: get_Some_iff push_bit_of_1)
qed

text \<open>The analysis computes exactly the words a frame can return.\<close>

lemma width_analysis:
  assumes entries: "entries_in code" and root: "\<And>pc. pc < length code \<Longrightarrow> root pc < length code"
    and rs: "rs = map root [0..<length code]"
  shows "\<exists>ws ts ws'. collect_widths rs (zip [0..<length code] code) (replicate (length code) 0) [] = Ok (ws, ts)
     \<and> tails_loop (tails_fuel ws) ts ws = Some ws' \<and> length ws' = length code
     \<and> wbits ws' = {(f, w). frame_returns code root f w}"
proof -
  let ?n = "length code" and ?xs = "zip [0..<length code] code"
  have t: "t < ?n" if "pc < ?n" "tail_target (code ! pc) = Some t" for pc t
    using entries that by (auto simp: entries_in_def tail_target_def split: if_splits)
  have rs_in: "\<forall>r \<in> set rs. r < length (replicate ?n 0)"
    using root by (auto simp: rs)
  have xs_in: "\<forall>(pc, b) \<in> set ?xs. pc < length rs \<and> (\<forall>t. tail_target b = Some t \<longrightarrow> t < length rs)"
    using t by (auto simp: set_zip_upt rs)
  have "wbits (replicate ?n 0) = {}" by (auto simp: wbits_def)
  then obtain ws ts where c: "collect_widths rs ?xs (replicate ?n 0) [] = Ok (ws, ts)" "length ws = ?n"
      and own: "wbits ws = own_returns rs ?xs" and edges: "set ts = tail_edges rs ?xs"
    using collect_widths_spec[OF rs_in xs_in, of "[]"] by auto
  have nth: "rs ! pc = root pc" if "pc < ?n" for pc using that by (simp add: rs)
  have "tails_in ts (length ws)"
    using c(2) root nth t by (fastforce simp: tails_in_def edges tail_edges_def set_zip_upt)
  then obtain ws' where w: "tails_loop (tails_fuel ws) ts ws = Some ws'" "length ws' = length ws"
      "wbits ws \<subseteq> wbits ws'" "tail_closed ts (wbits ws')"
      "\<forall>R. wbits ws \<subseteq> R \<longrightarrow> tail_closed ts R \<longrightarrow> wbits ws' \<subseteq> R"
    using tails_loop_spec[of ts ws "tails_fuel ws"] by (auto simp: tails_fuel_def)
  let ?R = "{(f, w). frame_returns code root f w}"
  have "wbits ws \<subseteq> ?R"
    unfolding own own_returns_def using nth by (auto simp: set_zip_upt intro: frame_returns.own)
  moreover have "tail_closed ts ?R"
    unfolding tail_closed_def edges tail_edges_def
    using nth t by (auto simp: set_zip_upt intro: frame_returns.tail)
  ultimately have "wbits ws' \<subseteq> ?R" using w(5) by blast
  moreover have "(f, k) \<in> wbits ws'" if "frame_returns code root f k" for f k
    using that
  proof induction
    case (own pc w')
    then have "(root pc, w') \<in> own_returns rs ?xs"
      using nth[of pc] by (auto simp: own_returns_def set_zip_upt) metis
    then show ?case using w(3) \<open>wbits ws = own_returns rs ?xs\<close> by blast
  next
    case (tail pc t' w')
    then have "(root pc, root t') \<in> set ts"
      using nth[of pc] nth[of t'] t[of pc t'] by (auto simp: edges tail_edges_def set_zip_upt) metis
    then show ?case using w(4) tail.IH by (auto simp: tail_closed_def)
  qed
  ultimately have "wbits ws' = ?R" by auto
  then show ?thesis using c w(1,2) by simp
qed

lemma verify_calls_spec:
  assumes steps: "rtraverse (\<lambda>b. frame_step b constants 0) code = Ok steps" and dec: "\<not> undecodable steps"
    and entries: "entries_in code"
  shows "verify_calls code constants \<noteq> Panicked"
    and "verify_calls code constants = Ok () \<longleftrightarrow> calls_agree code (frame_of steps)"
proof -
  let ?n = "length code" and ?xs = "zip [0..<length code] code" and ?rs = "map (frame_of steps) [0..<length code]"
  have n: "length steps = ?n" using rtraverse_length[OF steps] .
  have root: "frame_of steps pc < ?n" if "pc < ?n" for pc
    using frame_of_le[of pc steps] that n by simp
  obtain ws ts ws' where w: "collect_widths ?rs ?xs (replicate ?n 0) [] = Ok (ws, ts)"
      "tails_loop (tails_fuel ws) ts ws = Some ws'" "length ws' = ?n"
      "wbits ws' = {(f, w). frame_returns code (frame_of steps) f w}"
    using width_analysis[OF entries, of "frame_of steps" ?rs] root by blast
  have v: "verify_calls code constants = rmap (\<lambda>_. ()) (rtraverse (check_call ?rs ws') ?xs)"
    using steps dec n w(1,2) by (simp add: verify_calls_def frame_roots_def roots_spec Let_def)
  have c: "check_call ?rs ws' (pc, b) \<noteq> Panicked"
    "check_call ?rs ws' (pc, b) = Ok () \<longleftrightarrow> (bytecode b = I_CALL \<longrightarrow> snd (call_parts b) \<noteq> 0 \<longrightarrow>
       (\<forall>w. frame_returns code (frame_of steps) (frame_of steps (snd (call_parts b))) w \<longrightarrow> w = call_ret_words b))"
    if "b \<in> set code" for pc b
  proof -
    let ?t = "snd (call_parts b)"
    have no: "check_call ?rs ws' (pc, b) = Ok ()" if "bytecode b \<noteq> I_CALL"
      using that by (simp add: check_call_def)
    have "get ?rs ?t = Some (frame_of steps ?t) \<and> frame_of steps ?t < length ws'" if "bytecode b = I_CALL"
      using that entries root[of ?t] \<open>b \<in> set code\<close> w(3) by (simp add: entries_in_def)
    then have "check_call ?rs ws' (pc, b) \<noteq> Panicked \<and> (check_call ?rs ws' (pc, b) = Ok () \<longleftrightarrow> (?t \<noteq> 0 \<longrightarrow>
       (\<forall>w. frame_returns code (frame_of steps) (frame_of steps ?t) w \<longrightarrow> w = call_ret_words b)))"
      if "bytecode b = I_CALL"
      using check_call_Ok_iff[of ?rs b "frame_of steps ?t" ws' pc] that
      by (simp add: w(4) del: get_Some_iff)
    then show "check_call ?rs ws' (pc, b) \<noteq> Panicked"
      "check_call ?rs ws' (pc, b) = Ok () \<longleftrightarrow> (bytecode b = I_CALL \<longrightarrow> ?t \<noteq> 0 \<longrightarrow>
       (\<forall>w. frame_returns code (frame_of steps) (frame_of steps ?t) w \<longrightarrow> w = call_ret_words b))"
      using no by (metis result.distinct(3))+
  qed
  have "rtraverse (check_call ?rs ws') ?xs \<noteq> Panicked"
    using c(1) by (intro rtraverse_not_Panicked) (auto simp: set_zip_upt)
  then show "verify_calls code constants \<noteq> Panicked" by (simp add: v)
  have "verify_calls code constants = Ok () \<longleftrightarrow> (\<forall>x \<in> set ?xs. check_call ?rs ws' x = Ok ())"
    by (simp add: v rmap_Ok_iff rtraverse_unit_Ok)
  also have "\<dots> \<longleftrightarrow> calls_agree code (frame_of steps)"
    unfolding all_zip_upt calls_agree_def using c(2) by auto
  finally show "verify_calls code constants = Ok () \<longleftrightarrow> calls_agree code (frame_of steps)" .
qed

subsection \<open>The two passes together\<close>

abbreviation words_accepted :: "byte list \<Rightarrow> u64 list \<Rightarrow> verify_limits \<Rightarrow> bool" where
  "words_accepted code constants limits \<equiv>
     \<forall>pc < length code. verify_op (length code) constants limits (pc, code ! pc) = Ok ()"

lemma words_accepted_iff:
  "(\<exists>us. rtraverse (verify_op (length code) constants limits) (zip [0..<length code] code) = Ok us) \<longleftrightarrow>
     words_accepted code constants limits"
  by (simp add: rtraverse_unit_Ok all_zip_upt)

lemma accepted_entries: "words_accepted code constants limits \<Longrightarrow> entries_in code"
  using accepted_operands(2) by (fastforce simp: entries_in_def in_set_conv_nth)

lemma accepted_decodable:
  assumes "words_accepted code constants limits" and "rtraverse (\<lambda>b. frame_step b constants 0) code = Ok steps"
  shows "\<not> undecodable steps"
proof
  assume "undecodable steps"
  then obtain pc where pc: "pc < length steps" "step_jump (steps ! pc) = JumpUnknown"
    by (auto simp: undecodable_def list_ex_iff in_set_conv_nth)
  then have "frame_step (code ! pc) constants 0 = Ok (steps ! pc)" "pc < length code"
    using assms(2) by (auto simp: rtraverse_Ok_iff list_all2_conv_all_nth)
  then have "branch_of (code ! pc) constants = JumpUnknown"
    using frame_step_jump[of "code ! pc" constants 0] pc(2) by (simp add: jumps_as_def)
  then show False
    using branch_accepted[of "length code" constants limits pc "code ! pc"] assms(1) \<open>pc < length code\<close> by simp
qed

lemma decodes_or_panics:
  "(\<exists>steps. rtraverse (\<lambda>b. frame_step b constants 0) code = Ok steps) \<or>
   rtraverse (\<lambda>b. frame_step b constants 0) code = Panicked \<and> list_ex overlong_slots code"
proof (induction code)
  case (Cons b code)
  then show ?case
    using frame_step_outcome[of b constants 0] by (cases "frame_step b constants 0") auto
qed simp

lemma check_no_panic [simp]:
  "check_jump len pc t what \<noteq> Panicked" "check_entry len pc t what \<noteq> Panicked"
  "check_pool constants pc i what \<noteq> Panicked" "check_inner pc c what \<noteq> Panicked"
  by (simp_all add: check_jump_def check_entry_def check_pool_def check_inner_def)

lemma no_panic_if: "(c \<Longrightarrow> x \<noteq> Panicked) \<Longrightarrow> (\<not> c \<Longrightarrow> y \<noteq> Panicked) \<Longrightarrow> (if c then x else y) \<noteq> Panicked"
  by simp

lemma verify_op_no_panic:
  "bytecode b \<noteq> I_RestoreSnapshot \<Longrightarrow> verify_op len constants limits (pc, b) \<noteq> Panicked"
  unfolding verify_op_def Let_def prod.case case_prod_beta
  by (intro no_panic_if) (auto simp: rbind_Panicked_iff)

lemma verify_op_panics:
  assumes "verify_op len constants limits (pc, b) = Panicked"
  shows "bytecode b = I_RestoreSnapshot \<and> snapshot_decode (drop (unat (operand_u32 b)) constants) = Panicked"
proof -
  have b: "bytecode b = I_RestoreSnapshot"
    using verify_op_no_panic assms by metis
  then have "check_snapshot constants limits pc (operand_u32 b) = Panicked"
    using assms by (simp add: verify_op_unfold)
  then show ?thesis
    using b by (auto simp: check_snapshot_def get_range_def split: result.splits option.splits prod.splits if_splits)
qed

lemma verify_calls_panics:
  assumes "words_accepted code constants limits" and "verify_calls code constants = Panicked"
  shows "list_ex overlong_slots code"
  using decodes_or_panics[of constants code] verify_calls_spec(1) accepted_decodable[OF assms(1)]
    accepted_entries[OF assms(1)] assms(2) by metis

lemma verify_bytecode_Ok_aux:
  "verify_bytecode code constants limits = Ok () \<longleftrightarrow>
     words_accepted code constants limits \<and>
     (\<exists>steps. rtraverse (\<lambda>b. frame_step b constants 0) code = Ok steps \<and> calls_agree code (frame_of steps))"
proof (cases "words_accepted code constants limits")
  case True
  then obtain us where us: "rtraverse (verify_op (length code) constants limits) (zip [0..<length code] code) = Ok us"
    using words_accepted_iff by blast
  show ?thesis
  proof (cases "\<exists>steps. rtraverse (\<lambda>b. frame_step b constants 0) code = Ok steps")
    case ok: True
    then show ?thesis
      using us True verify_calls_spec(2)[OF _ accepted_decodable[OF True] accepted_entries[OF True]]
      by (auto simp: verify_bytecode_def)
  next
    case False
    then have "verify_calls code constants = Panicked"
      using decodes_or_panics[of constants code] by (auto simp: verify_calls_def frame_roots_def)
    then show ?thesis using us False by (simp add: verify_bytecode_def)
  qed
next
  case False
  then show ?thesis
    using words_accepted_iff[of code constants limits] by (auto simp: verify_bytecode_def rbind_Ok_iff)
qed

lemma word_accepted_iff: "verify_op len constants limits (pc, b) = Ok () \<longleftrightarrow> word_ok len constants limits b"
  using accepted_word word_ok_accepted by blast

text \<open>C1: what the check of operands means. The verifier accepts a program exactly when every word is in range and the check
  of return widths passes. A word is in range when its branch target is inside the program or just past it, its call,
  coroutine or function entry is inside it, its pool operands (the float of \<open>BinSlotSlotConstJmpt\<close> too), string,
  static slot and inner opcode are inside their tables, a snapshot operand points at a well-formed snapshot of existing
  static slots, and its opcode is neither \<open>DATA\<close> nor \<open>SET\<close> nor one that the VM stops on as retired, with ten exceptions
  that the verifier lets through: \<open>BinSlotSlotConstJmpt\<close> and the nine \<open>Dyn\<close> opcodes.\<close>

theorem verify_bytecode_words:
  "verify_bytecode code constants limits = Ok () \<longleftrightarrow>
     list_all (word_ok (length code) constants limits) code \<and> verify_calls code constants = Ok ()"
proof (cases "words_accepted code constants limits")
  case True
  then obtain us where "rtraverse (verify_op (length code) constants limits) (zip [0..<length code] code) = Ok us"
    using words_accepted_iff by blast
  then show ?thesis
    using True by (simp add: verify_bytecode_def list_all_length word_accepted_iff)
next
  case False
  then show ?thesis
    using verify_bytecode_Ok_aux[of code constants limits] by (auto simp: list_all_length word_accepted_iff)
qed

theorem verify_bytecode_words_witness:
  "list_all (word_ok 2 [] \<lparr>lim_strings = 0, lim_static_slots = 1\<rparr>)
     [\<lparr>bytecode = I_LoadStatic, operands = 0\<rparr>, \<lparr>bytecode = I_HALT, operands = 0\<rparr>]"
proof -
  let ?code = "[\<lparr>bytecode = I_LoadStatic, operands = 0\<rparr>, \<lparr>bytecode = I_HALT, operands = 0\<rparr>] :: byte list"
  have "frame_roots ?code [] = Ok [0, 0]"
    by (simp add: frame_roots_def frame_step_def roots_def step0_def uf_union_def uf_find_def upt_rec Let_def)
  then have "verify_bytecode ?code [] \<lparr>lim_strings = 0, lim_static_slots = 1\<rparr> = Ok ()"
    by (simp add: verify_bytecode_def verify_calls_def verify_op_unfold operand_u32_def returned_words_def
        tails_fuel_def check_call_def upt_rec)
  then show ?thesis
    using verify_bytecode_words[of ?code] by (simp add: numeral_2_eq_2)
qed

text \<open>C2: return widths. The verifier accepts a program exactly when each word passes its check, no load or store packs
  more than three slots (on such a word the verifier panics), and every direct call, other than one to entry 0, expects the number
  of words that the frame it calls can leave, at any return op of that frame or of the frames it reaches by tail
  calls to an entry other than 0. Calls and tail calls to entry 0 are exempt from the check.\<close>

theorem verify_bytecode_accepts_iff:
  "verify_bytecode code constants limits = Ok () \<longleftrightarrow>
     list_all (word_ok (length code) constants limits) code \<and> \<not> list_ex overlong_slots code \<and>
     (\<exists>steps. rtraverse (\<lambda>b. frame_step b constants 0) code = Ok steps \<and> calls_agree code (frame_of steps))"
proof -
  have "\<not> list_ex overlong_slots code" if "rtraverse (\<lambda>b. frame_step b constants 0) code = Ok steps" for steps
    using that frame_step_outcome(2)[of _ constants 0]
    by (auto simp: rtraverse_Ok_iff list_all2_conv_all_nth list_ex_length) (metis result.distinct(3))
  then show ?thesis
    unfolding verify_bytecode_Ok_aux by (auto simp: list_all_length word_accepted_iff)
qed

theorem verify_bytecode_accepts_iff_witness:
  "\<exists>steps. rtraverse (\<lambda>b. frame_step b [] 0)
      [\<lparr>bytecode = I_CALL, operands = 2\<rparr>, \<lparr>bytecode = I_HALT, operands = 0\<rparr>, \<lparr>bytecode = I_RETURN, operands = 0\<rparr>] = Ok steps
    \<and> calls_agree [\<lparr>bytecode = I_CALL, operands = 2\<rparr>, \<lparr>bytecode = I_HALT, operands = 0\<rparr>,
        \<lparr>bytecode = I_RETURN, operands = 0\<rparr>] (frame_of steps)"
proof -
  let ?code = "[\<lparr>bytecode = I_CALL, operands = 2\<rparr>, \<lparr>bytecode = I_HALT, operands = 0\<rparr>,
    \<lparr>bytecode = I_RETURN, operands = 0\<rparr>] :: byte list"
  have "frame_roots ?code [] = Ok [0, 0, 2]"
    by (simp add: frame_roots_def frame_step_def roots_def step0_def uf_union_def uf_find_def upt_rec Let_def)
  then have "verify_bytecode ?code [] \<lparr>lim_strings = 0, lim_static_slots = 0\<rparr> = Ok ()"
    by (simp add: verify_bytecode_def verify_calls_def verify_op_unfold operand_u32_def returned_words_def
        return_words_def call_parts_def call_ret_words_def tails_fuel_def check_call_def check_entry_def
        upt_rec get_def Let_def)
  then show ?thesis
    using verify_bytecode_accepts_iff[of ?code "[]" "\<lparr>lim_strings = 0, lim_static_slots = 0\<rparr>"] by blast
qed

text \<open>C36: when verification panics. The verifier answers \<open>Ok\<close> or an error on every program except
  one with a snapshot operand at a pool suffix that starts with the magic word and claims fewer than
  four words, or one with a load or store that packs more than three slots.\<close>

theorem verify_bytecode_panics:
  assumes "verify_bytecode code constants limits = Panicked"
  shows "(\<exists>b \<in> set code. bytecode b = I_RestoreSnapshot \<and>
      snapshot_decode (drop (unat (operand_u32 b)) constants) = Panicked) \<or> list_ex overlong_slots code"
proof (cases "words_accepted code constants limits")
  case True
  then obtain us where "rtraverse (verify_op (length code) constants limits) (zip [0..<length code] code) = Ok us"
    using words_accepted_iff by blast
  then show ?thesis
    using verify_calls_panics[OF True] assms by (simp add: verify_bytecode_def)
next
  case False
  then have "rtraverse (verify_op (length code) constants limits) (zip [0..<length code] code) = Panicked"
    using assms words_accepted_iff[of code constants limits]
    by (auto simp: verify_bytecode_def rbind_Panicked_iff)
  then obtain pc b where "b \<in> set code" "verify_op (length code) constants limits (pc, b) = Panicked"
    using rtraverse_not_Panicked[of "zip [0..<length code] code" "verify_op (length code) constants limits"]
    by (metis surj_pair set_zip_rightD)
  then show ?thesis
    using verify_op_panics by blast
qed

theorem verify_bytecode_panics_witness:
  "verify_bytecode [\<lparr>bytecode = I_LOAD, operands = 0x04000000\<rparr>] [] \<lparr>lim_strings = 0, lim_static_slots = 0\<rparr> = Panicked
   \<and> list_ex overlong_slots [\<lparr>bytecode = I_LOAD, operands = 0x04000000\<rparr>]"
proof -
  let ?code = "[\<lparr>bytecode = I_LOAD, operands = 0x04000000\<rparr>] :: byte list"
  let ?lim = "\<lparr>lim_strings = 0, lim_static_slots = 0\<rparr>"
  have "overlong_slots (hd ?code)"
    by (simp add: overlong_slots_def load_store_n_def)
  then have "frame_roots ?code [] = Panicked"
    using frame_step_outcome(2)[of "hd ?code" "[]" 0] by (simp add: frame_roots_def)
  then have p: "verify_bytecode ?code [] ?lim = Panicked"
    by (simp add: verify_bytecode_def verify_calls_def verify_op_unfold)
  then show ?thesis
    using verify_bytecode_panics[OF p] by simp
qed

end
