(* ===== verification/Mir_Types.thy ===== *)
theory Mir_Types
  imports Coil_Prelude
begin

text \<open>
  The type lattice of the mid-level IR, after \<^verbatim>\<open>compiler/src/mir/ty.rs\<close>, and the casts between
  its types (\<open>MirCastKind::allows\<close> of \<^verbatim>\<open>compiler/src/mir/inst.rs\<close>).
\<close>

section \<open>Types\<close>

datatype mir_ty = TBottom | TI64 | TF64 | TBool | THeapRef | TNicheOpt | TNicheRes | TValue

datatype mir_layout = Word | HeapNiche | TwoSlot

definition is_int :: "mir_ty \<Rightarrow> bool" where
  "is_int t \<longleftrightarrow> t = TI64"

definition is_float :: "mir_ty \<Rightarrow> bool" where
  "is_float t \<longleftrightarrow> t = TF64"

definition is_numeric :: "mir_ty \<Rightarrow> bool" where
  "is_numeric t \<longleftrightarrow> t \<in> {TI64, TF64, TBool}"

definition is_heap_word :: "mir_ty \<Rightarrow> bool" where
  "is_heap_word t \<longleftrightarrow> t \<in> {THeapRef, TNicheOpt, TNicheRes}"

definition is_word_lane :: "mir_ty \<Rightarrow> bool" where
  "is_word_lane t \<longleftrightarrow> is_numeric t \<or> is_heap_word t"

definition is_specialized :: "mir_ty \<Rightarrow> bool" where
  "is_specialized t \<longleftrightarrow> t \<notin> {TBottom, TValue}"

definition mir_layout_of :: "mir_ty \<Rightarrow> mir_layout" where
  "mir_layout_of t = (case t of TNicheOpt \<Rightarrow> HeapNiche | TNicheRes \<Rightarrow> HeapNiche | _ \<Rightarrow> Word)"

definition mir_join :: "mir_ty \<Rightarrow> mir_ty \<Rightarrow> mir_ty" where
  "mir_join s t =
     (if s = t then s
      else if s = TBottom then t
      else if t = TBottom then s
      else case (s, t) of
        (THeapRef, THeapRef) \<Rightarrow> THeapRef
      | (TNicheOpt, TNicheOpt) \<Rightarrow> TNicheOpt
      | (THeapRef, TNicheOpt) \<Rightarrow> TNicheOpt
      | (TNicheOpt, THeapRef) \<Rightarrow> TNicheOpt
      | (TNicheRes, TNicheRes) \<Rightarrow> TNicheRes
      | (THeapRef, TNicheRes) \<Rightarrow> TNicheRes
      | (TNicheRes, THeapRef) \<Rightarrow> TNicheRes
      | _ \<Rightarrow> TValue)"

definition mir_meet :: "mir_ty \<Rightarrow> mir_ty \<Rightarrow> mir_ty" where
  "mir_meet s t =
     (if s = t then s
      else if s = TValue then t
      else if t = TValue then s
      else if s = TBottom \<or> t = TBottom then TBottom
      else case (s, t) of
        (THeapRef, TNicheOpt) \<Rightarrow> THeapRef
      | (THeapRef, TNicheRes) \<Rightarrow> THeapRef
      | (TNicheOpt, THeapRef) \<Rightarrow> THeapRef
      | (TNicheRes, THeapRef) \<Rightarrow> THeapRef
      | _ \<Rightarrow> TBottom)"

definition mir_le :: "mir_ty \<Rightarrow> mir_ty \<Rightarrow> bool" where
  "mir_le s t \<longleftrightarrow> mir_join s t = t"

definition mir_ty_as_str :: "mir_ty \<Rightarrow> string" where
  "mir_ty_as_str t = (case t of TBottom \<Rightarrow> ''bottom'' | TI64 \<Rightarrow> ''i64'' | TF64 \<Rightarrow> ''f64'' | TBool \<Rightarrow> ''bool''
     | THeapRef \<Rightarrow> ''heapref'' | TNicheOpt \<Rightarrow> ''niche_opt'' | TNicheRes \<Rightarrow> ''niche_res'' | TValue \<Rightarrow> ''value'')"

definition mir_ty_parse :: "string \<Rightarrow> mir_ty option" where
  "mir_ty_parse s =
     (if s = ''bottom'' then Some TBottom else if s = ''i64'' then Some TI64
      else if s = ''f64'' then Some TF64 else if s = ''bool'' then Some TBool
      else if s = ''heapref'' then Some THeapRef else if s = ''niche_opt'' then Some TNicheOpt
      else if s = ''niche_res'' then Some TNicheRes else if s = ''value'' then Some TValue
      else if s = ''int'' then Some TI64 else if s = ''float'' then Some TF64 else None)"

datatype mir_cast_kind = IntToFloat | FloatToInt | WordCast

definition cast_allows :: "mir_cast_kind \<Rightarrow> mir_ty \<Rightarrow> mir_ty \<Rightarrow> bool" where
  "cast_allows kind from to = (case kind of
     IntToFloat \<Rightarrow> is_int from \<and> is_float to
   | FloatToInt \<Rightarrow> from = TF64 \<and> to = TI64
   | WordCast \<Rightarrow>
       (let niche = (\<lambda>t. t \<in> {TNicheOpt, TNicheRes}) in
        niche to \<and> from \<in> {TI64, THeapRef}
        \<or> niche from \<and> to \<in> {THeapRef, TI64}
        \<or> (from, to) \<in> {(TI64, THeapRef), (THeapRef, TI64)}
        \<or> (from, to) \<in> {(TBool, TI64), (TI64, TBool)}
        \<or> (from, to) \<in> {(TF64, TI64), (TI64, TF64)}))"

section \<open>The lattice\<close>

lemma all_mir_ty: "(\<forall>t. P t) \<longleftrightarrow>
    P TBottom \<and> P TI64 \<and> P TF64 \<and> P TBool \<and> P THeapRef \<and> P TNicheOpt \<and> P TNicheRes \<and> P TValue"
  by (metis mir_ty.exhaust)

lemma mir_join_commute: "mir_join s t = mir_join t s"
  by (cases s; cases t; simp add: mir_join_def)

lemma mir_join_assoc: "mir_join (mir_join r s) t = mir_join r (mir_join s t)"
  by (cases r; cases s; cases t; simp add: mir_join_def)

lemma mir_join_idem: "mir_join t t = t"
  by (simp add: mir_join_def)

lemma mir_join_bottom: "mir_join t TBottom = t" "mir_join TBottom t = t"
  by (simp_all add: mir_join_def)

interpretation mir_types: semilattice_neutr mir_join TBottom
  by unfold_locales (rule mir_join_assoc, rule mir_join_commute, rule mir_join_idem, rule mir_join_bottom(1))

interpretation mir_order: semilattice_neutr_order mir_join TBottom "\<lambda>s t. mir_le t s" "\<lambda>s t. mir_le t s \<and> s \<noteq> t"
  unfolding mir_le_def by unfold_locales (metis mir_join_commute)+

lemma mir_le_cases: "mir_le s t \<longleftrightarrow>
    s = t \<or> s = TBottom \<or> t = TValue \<or> s = THeapRef \<and> t \<in> {TNicheOpt, TNicheRes}"
  by (cases s; cases t; simp add: mir_le_def mir_join_def)

lemma mir_le_meet:
  "(\<forall>u. mir_le u (mir_meet s t) \<longleftrightarrow> mir_le u s \<and> mir_le u t) \<longleftrightarrow> {s, t} \<noteq> {TNicheOpt, TNicheRes}"
  by (cases s; cases t; simp add: mir_le_cases mir_meet_def all_mir_ty doubleton_eq_iff)

text \<open>C32: the type lattice. \<open>le\<close> is a partial order with \<open>Bottom\<close> least and \<open>Value\<close> greatest, \<open>join\<close> is
  its least upper bound, and joining two one-word types gives a one-word type or \<open>Value\<close>. \<open>meet\<close>, a
  function of test builds, is the greatest lower bound of every pair except \<open>NicheOpt\<close> and \<open>NicheRes\<close>, where it answers
  \<open>Bottom\<close> although \<open>HeapRef\<close> is below both. The printed name of a type parses back to it.\<close>

theorem mir_lattice:
  "mir_le s s \<and> (mir_le r s \<longrightarrow> mir_le s t \<longrightarrow> mir_le r t) \<and> (mir_le s t \<longrightarrow> mir_le t s \<longrightarrow> s = t)
   \<and> mir_le TBottom t \<and> mir_le t TValue
   \<and> (mir_le (mir_join s t) u \<longleftrightarrow> mir_le s u \<and> mir_le t u)
   \<and> (is_word_lane s \<longrightarrow> is_word_lane t \<longrightarrow> is_word_lane (mir_join s t) \<or> mir_join s t = TValue)
   \<and> ((\<forall>u. mir_le u (mir_meet s t) \<longleftrightarrow> mir_le u s \<and> mir_le u t) \<longleftrightarrow> {s, t} \<noteq> {TNicheOpt, TNicheRes})
   \<and> ({s, t} = {TNicheOpt, TNicheRes} \<longrightarrow> mir_meet s t = TBottom \<and> mir_le THeapRef s \<and> mir_le THeapRef t)
   \<and> mir_ty_parse (mir_ty_as_str t) = Some t"
proof (intro conjI)
  show "mir_le r s \<longrightarrow> mir_le s t \<longrightarrow> mir_le r t"
    using mir_order.trans by blast
  show "mir_le s t \<longrightarrow> mir_le t s \<longrightarrow> s = t"
    using mir_order.antisym by blast
  show "mir_le (mir_join s t) u \<longleftrightarrow> mir_le s u \<and> mir_le t u"
    by (rule mir_order.bounded_iff)
  show "is_word_lane s \<longrightarrow> is_word_lane t \<longrightarrow> is_word_lane (mir_join s t) \<or> mir_join s t = TValue"
    by (cases s; cases t; simp add: mir_join_def is_word_lane_def is_numeric_def is_heap_word_def)
  show "mir_ty_parse (mir_ty_as_str t) = Some t"
    by (cases t) (simp_all add: mir_ty_parse_def mir_ty_as_str_def)
  show "(\<forall>u. mir_le u (mir_meet s t) \<longleftrightarrow> mir_le u s \<and> mir_le u t) \<longleftrightarrow> {s, t} \<noteq> {TNicheOpt, TNicheRes}"
    by (rule mir_le_meet)
  show "{s, t} = {TNicheOpt, TNicheRes} \<longrightarrow> mir_meet s t = TBottom \<and> mir_le THeapRef s \<and> mir_le THeapRef t"
    by (auto simp: doubleton_eq_iff mir_meet_def mir_le_cases)
qed (simp_all add: mir_le_cases)

theorem mir_lattice_witness:
  "mir_meet TNicheOpt TNicheRes = TBottom \<and> mir_le THeapRef TNicheOpt \<and> mir_le THeapRef TNicheRes
   \<and> \<not> (\<forall>u. mir_le u (mir_meet TNicheOpt TNicheRes) \<longleftrightarrow> mir_le u TNicheOpt \<and> mir_le u TNicheRes)"
  using mir_lattice[of TNicheOpt THeapRef TNicheRes] by blast

end
