(* ===== verification/Mir_Inst.thy ===== *)
theory Mir_Inst
  imports Mir_Types
begin

text \<open>
  SSA instructions and terminators of the mid-level IR, after \<^verbatim>\<open>compiler/src/mir/inst.rs\<close>: the values an
  instruction defines and reads, and the renaming of the values it reads. A value, block, label or
  local id is the number its Rust newtype wraps.
\<close>

type_synonym value_id = nat
type_synonym block_id = nat
type_synonym local_id = nat
type_synonym label = nat

section \<open>Operators\<close>

datatype mir_const = CI64 i64 | CF64 u64 | CBool bool

definition mir_const_ty :: "mir_const \<Rightarrow> mir_ty" where
  "mir_const_ty c = (case c of CI64 _ \<Rightarrow> TI64 | CF64 _ \<Rightarrow> TF64 | CBool _ \<Rightarrow> TBool)"

datatype mir_bin_op = MAdd | MSub | MMul | MDiv | MRem | MBitAnd | MBitOr | MXor | MShl | MShr | MPow

definition bin_takes :: "mir_bin_op \<Rightarrow> mir_ty \<Rightarrow> bool" where
  "bin_takes op ty \<longleftrightarrow> op \<noteq> MPow \<or> is_float ty \<or> ty = TI64"

definition requires_int :: "mir_bin_op \<Rightarrow> bool" where
  "requires_int op \<longleftrightarrow> op \<in> {MBitAnd, MBitOr, MXor, MShl, MShr}"

datatype mir_cmp_op = MLt | MLe | MGt | MGe | MEq | MNe

datatype mir_unary_op = MNeg | MNot

datatype lane_val = Stream u8 | Scalar u8

datatype lane_expr =
    LConst bool
  | LCmp mir_cmp_op lane_val lane_val
  | LAnd lane_expr lane_expr
  | LOr (or_left: lane_expr) (or_right: lane_expr)
  | LNot lane_expr

datatype vec_expr =
    VSplat value_id u8
  | VIndex
  | VLoadLane value_id value_id u8
  | VBinLane u8 vec_expr vec_expr
  | VUnaryLane u8 vec_expr
  | VSelect vec_expr vec_expr vec_expr
  | VFma u8 vec_expr vec_expr vec_expr

primrec vec_values :: "vec_expr \<Rightarrow> value_id list" where
  "vec_values (VSplat v ty) = [v]"
| "vec_values VIndex = []"
| "vec_values (VLoadLane array off ty) = [array, off]"
| "vec_values (VBinLane kind lhs rhs) = vec_values lhs @ vec_values rhs"
| "vec_values (VUnaryLane kind src) = vec_values src"
| "vec_values (VSelect msk thn els) = vec_values msk @ vec_values thn @ vec_values els"
| "vec_values (VFma ty a b c) = vec_values a @ vec_values b @ vec_values c"

primrec vec_rewrite :: "(value_id \<Rightarrow> value_id) \<Rightarrow> vec_expr \<Rightarrow> vec_expr" where
  "vec_rewrite f (VSplat v ty) = VSplat (f v) ty"
| "vec_rewrite f VIndex = VIndex"
| "vec_rewrite f (VLoadLane array off ty) = VLoadLane (f array) (f off) ty"
| "vec_rewrite f (VBinLane kind lhs rhs) = VBinLane kind (vec_rewrite f lhs) (vec_rewrite f rhs)"
| "vec_rewrite f (VUnaryLane kind src) = VUnaryLane kind (vec_rewrite f src)"
| "vec_rewrite f (VSelect msk thn els) = VSelect (vec_rewrite f msk) (vec_rewrite f thn) (vec_rewrite f els)"
| "vec_rewrite f (VFma ty a b c) = VFma ty (vec_rewrite f a) (vec_rewrite f b) (vec_rewrite f c)"

primrec vec_uses_index :: "vec_expr \<Rightarrow> bool" where
  "vec_uses_index (VSplat v ty) = False"
| "vec_uses_index VIndex = True"
| "vec_uses_index (VLoadLane array off ty) = False"
| "vec_uses_index (VBinLane kind lhs rhs) = (vec_uses_index lhs \<or> vec_uses_index rhs)"
| "vec_uses_index (VUnaryLane kind src) = vec_uses_index src"
| "vec_uses_index (VSelect msk thn els) = (vec_uses_index msk \<or> vec_uses_index thn \<or> vec_uses_index els)"
| "vec_uses_index (VFma ty a b c) = (vec_uses_index a \<or> vec_uses_index b \<or> vec_uses_index c)"

type_synonym vec_store = "value_id \<times> value_id \<times> u8 \<times> vec_expr"

datatype vec_loop_kind =
    Reduce value_id u8 u8 vec_expr "vec_store list"
  | Store "vec_store list"
  | Push value_id u8 vec_expr

definition store_values :: "vec_store \<Rightarrow> value_id list" where
  "store_values = (\<lambda>(array, off, _, v). [array, off] @ vec_values v)"

definition store_rewrite :: "(value_id \<Rightarrow> value_id) \<Rightarrow> vec_store \<Rightarrow> vec_store" where
  "store_rewrite f = (\<lambda>(array, off, ty, v). (f array, f off, ty, vec_rewrite f v))"

definition store_uses_index :: "vec_store \<Rightarrow> bool" where
  "store_uses_index = (\<lambda>(_, _, _, v). vec_uses_index v)"

definition loop_values :: "vec_loop_kind \<Rightarrow> value_id list" where
  "loop_values k = (case k of
     Reduce init ty op term stores \<Rightarrow> [init] @ vec_values term @ concat (map store_values stores)
   | Store stores \<Rightarrow> concat (map store_values stores)
   | Push out ty v \<Rightarrow> [out] @ vec_values v)"

definition loop_rewrite :: "(value_id \<Rightarrow> value_id) \<Rightarrow> vec_loop_kind \<Rightarrow> vec_loop_kind" where
  "loop_rewrite f k = (case k of
     Reduce init ty op term stores \<Rightarrow>
       Reduce (f init) ty op (vec_rewrite f term) (map (store_rewrite f) stores)
   | Store stores \<Rightarrow> Store (map (store_rewrite f) stores)
   | Push out ty v \<Rightarrow> Push (f out) ty (vec_rewrite f v))"

definition loop_uses_index :: "vec_loop_kind \<Rightarrow> bool" where
  "loop_uses_index k = (case k of
     Reduce init ty op term stores \<Rightarrow> vec_uses_index term \<or> list_ex store_uses_index stores
   | Store stores \<Rightarrow> list_ex store_uses_index stores
   | Push out ty v \<Rightarrow> vec_uses_index v)"

datatype mir_ffi_op = FfiLoadOp | FfiDeclareOp | FfiInvokeOp

datatype mir_alloc_kind =
    AArray
  | ATuple
  | AObject u32 u32
  | AEnum u32
  | ADropEnum u32 u32
  | ACoro label
  | AFn label u32 u32
  | APolyFn label
  | APolyFnCapture label u32

datatype mir_deopt_kind = Stop | Leave

record debug_loc =
  loc_file :: u32
  loc_start :: u32
  loc_end :: u32

section \<open>Instructions\<close>

datatype mir_inst =
    Const value_id mir_const
  | Bin value_id mir_bin_op mir_ty value_id value_id
  | Cmp value_id mir_cmp_op mir_ty value_id value_id
  | Unary value_id mir_unary_op value_id
  | Cast value_id mir_cast_kind mir_ty value_id
  | Phi value_id mir_ty "(block_id \<times> value_id) list"
  | HostInvoke value_id u16 u8 "value_id list"
  | Ffi value_id mir_ffi_op u32 "value_id list"
  | Call value_id "value_id option" label "value_id list"
  | CallIndirect value_id value_id "value_id list" u32
  | MatchPayload value_id value_id u32
  | HeapFieldLoad value_id value_id u32
  | HeapFieldStore value_id value_id value_id u32
  | Index value_id value_id value_id bool
  | StoreIndex value_id value_id value_id value_id bool
  | ArrayLen value_id value_id
  | ResumeCoro value_id value_id "value_id option"
  | Yield value_id value_id bool bool
  | DoneCoro value_id value_id
  | LoadStatic value_id u32
  | StoreStatic value_id u32 value_id
  | HomeLoad value_id u16
  | HomeStore value_id u16 value_id
  | ClearWord value_id value_id
  | KeepAlive value_id value_id
  | PanicStore value_id value_id value_id u32
  | ArrayPush value_id value_id value_id
  | Alloc value_id mir_alloc_kind "value_id list" u8
  | GcBarrier value_id "value_id list"
  | Deopt value_id mir_deopt_kind debug_loc
  | StringInst value_id u32
  | CodePtr value_id label
  | Print value_id value_id
  | FreeEarly value_id value_id bool
  | PanicInst value_id value_id
  | Format value_id value_id "value_id list"
  | Stringify value_id value_id "u32 option"
  | Cow value_id value_id bool "u32 option"
  | StrEq value_id value_id value_id bool
  | ByteScan value_id value_id value_id bool bool "(value_id \<times> value_id) list" "value_id list" lane_expr
  | VecLoop value_id "value_id option" value_id value_id vec_loop_kind

fun inst_dest :: "mir_inst \<Rightarrow> value_id" where
  "inst_dest (Const d _) = d"
| "inst_dest (Bin d _ _ _ _) = d"
| "inst_dest (Cmp d _ _ _ _) = d"
| "inst_dest (Unary d _ _) = d"
| "inst_dest (Cast d _ _ _) = d"
| "inst_dest (Phi d _ _) = d"
| "inst_dest (HostInvoke d _ _ _) = d"
| "inst_dest (Ffi d _ _ _) = d"
| "inst_dest (Call d _ _ _) = d"
| "inst_dest (CallIndirect d _ _ _) = d"
| "inst_dest (MatchPayload d _ _) = d"
| "inst_dest (HeapFieldLoad d _ _) = d"
| "inst_dest (HeapFieldStore d _ _ _) = d"
| "inst_dest (Index d _ _ _) = d"
| "inst_dest (StoreIndex d _ _ _ _) = d"
| "inst_dest (ArrayLen d _) = d"
| "inst_dest (ResumeCoro d _ _) = d"
| "inst_dest (Yield d _ _ _) = d"
| "inst_dest (DoneCoro d _) = d"
| "inst_dest (LoadStatic d _) = d"
| "inst_dest (StoreStatic d _ _) = d"
| "inst_dest (HomeLoad d _) = d"
| "inst_dest (HomeStore d _ _) = d"
| "inst_dest (ClearWord d _) = d"
| "inst_dest (KeepAlive d _) = d"
| "inst_dest (PanicStore d _ _ _) = d"
| "inst_dest (ArrayPush d _ _) = d"
| "inst_dest (Alloc d _ _ _) = d"
| "inst_dest (GcBarrier d _) = d"
| "inst_dest (Deopt d _ _) = d"
| "inst_dest (StringInst d _) = d"
| "inst_dest (CodePtr d _) = d"
| "inst_dest (Print d _) = d"
| "inst_dest (FreeEarly d _ _) = d"
| "inst_dest (PanicInst d _) = d"
| "inst_dest (Format d _ _) = d"
| "inst_dest (Stringify d _ _) = d"
| "inst_dest (Cow d _ _ _) = d"
| "inst_dest (StrEq d _ _ _) = d"
| "inst_dest (ByteScan d _ _ _ _ _ _ _) = d"
| "inst_dest (VecLoop d _ _ _ _) = d"

definition inst_dest_hi :: "mir_inst \<Rightarrow> value_id option" where
  "inst_dest_hi i = (case i of Call _ hi _ _ \<Rightarrow> hi | VecLoop _ pos _ _ _ \<Rightarrow> pos | _ \<Rightarrow> None)"

definition inst_dests :: "mir_inst \<Rightarrow> value_id list" where
  "inst_dests i = inst_dest i # (case inst_dest_hi i of None \<Rightarrow> [] | Some h \<Rightarrow> [h])"

definition is_gc_edge :: "mir_inst \<Rightarrow> bool" where
  "is_gc_edge i = (case i of Alloc _ _ _ _ \<Rightarrow> True | ArrayPush _ _ _ \<Rightarrow> True | Format _ _ _ \<Rightarrow> True
     | Stringify _ _ _ \<Rightarrow> True | Cow _ _ _ _ \<Rightarrow> True | GcBarrier _ _ \<Rightarrow> True | _ \<Rightarrow> False)"

definition is_phi :: "mir_inst \<Rightarrow> bool" where
  "is_phi i = (case i of Phi _ _ _ \<Rightarrow> True | _ \<Rightarrow> False)"

fun inst_operands :: "mir_inst \<Rightarrow> value_id list" where
  "inst_operands (Const _ _) = []"
| "inst_operands (Bin _ _ _ lhs rhs) = [lhs, rhs]"
| "inst_operands (Cmp _ _ _ lhs rhs) = [lhs, rhs]"
| "inst_operands (StrEq _ lhs rhs _) = [lhs, rhs]"
| "inst_operands (Unary _ _ src) = [src]"
| "inst_operands (Cast _ _ _ src) = [src]"
| "inst_operands (Phi _ _ args) = map snd args"
| "inst_operands (HostInvoke _ _ _ args) = args"
| "inst_operands (Ffi _ _ _ args) = args"
| "inst_operands (Call _ _ _ args) = args"
| "inst_operands (CallIndirect _ callee args _) = args @ [callee]"
| "inst_operands (MatchPayload _ scrutinee _) = [scrutinee]"
| "inst_operands (HeapFieldLoad _ ob _) = [ob]"
| "inst_operands (HeapFieldStore _ ob v _) = [ob, v]"
| "inst_operands (PanicStore _ ob v _) = [ob, v]"
| "inst_operands (Index _ array index _) = [array, index]"
| "inst_operands (StoreIndex _ array index v _) = [array, index, v]"
| "inst_operands (ArrayLen _ array) = [array]"
| "inst_operands (ResumeCoro _ handle send) = handle # (case send of None \<Rightarrow> [] | Some s \<Rightarrow> [s])"
| "inst_operands (Yield _ v _ _) = [v]"
| "inst_operands (DoneCoro _ handle) = [handle]"
| "inst_operands (LoadStatic _ _) = []"
| "inst_operands (HomeLoad _ _) = []"
| "inst_operands (StoreStatic _ _ v) = [v]"
| "inst_operands (HomeStore _ _ v) = [v]"
| "inst_operands (ClearWord _ v) = [v]"
| "inst_operands (KeepAlive _ v) = [v]"
| "inst_operands (ArrayPush _ array v) = [array, v]"
| "inst_operands (Alloc _ _ elems _) = elems"
| "inst_operands (GcBarrier _ roots) = roots"
| "inst_operands (Deopt _ _ _) = []"
| "inst_operands (StringInst _ _) = []"
| "inst_operands (CodePtr _ _) = []"
| "inst_operands (Print _ src) = [src]"
| "inst_operands (FreeEarly _ src _) = [src]"
| "inst_operands (Stringify _ src _) = [src]"
| "inst_operands (Cow _ src _ _) = [src]"
| "inst_operands (PanicInst _ src) = [src]"
| "inst_operands (Format _ fmt args) = fmt # args"
| "inst_operands (ByteScan _ from bound _ _ streams scalars _) =
     [from, bound] @ concat (map (\<lambda>(a, i). [a, i]) streams) @ scalars"
| "inst_operands (VecLoop _ _ from to kind) = [from, to] @ loop_values kind"

fun inst_rewrite :: "(value_id \<Rightarrow> value_id) \<Rightarrow> mir_inst \<Rightarrow> mir_inst" where
  "inst_rewrite f (Const d c) = Const d c"
| "inst_rewrite f (Bin d op ty lhs rhs) = Bin d op ty (f lhs) (f rhs)"
| "inst_rewrite f (Cmp d op ty lhs rhs) = Cmp d op ty (f lhs) (f rhs)"
| "inst_rewrite f (StrEq d lhs rhs ne) = StrEq d (f lhs) (f rhs) ne"
| "inst_rewrite f (Unary d op src) = Unary d op (f src)"
| "inst_rewrite f (Cast d kind to src) = Cast d kind to (f src)"
| "inst_rewrite f (Phi d ty args) = Phi d ty (map (\<lambda>(b, v). (b, f v)) args)"
| "inst_rewrite f (HostInvoke d native layout args) = HostInvoke d native layout (map f args)"
| "inst_rewrite f (Ffi d op operand args) = Ffi d op operand (map f args)"
| "inst_rewrite f (Call d hi target args) = Call d hi target (map f args)"
| "inst_rewrite f (CallIndirect d callee args dicts) = CallIndirect d (f callee) (map f args) dicts"
| "inst_rewrite f (MatchPayload d scrutinee index) = MatchPayload d (f scrutinee) index"
| "inst_rewrite f (HeapFieldLoad d ob index) = HeapFieldLoad d (f ob) index"
| "inst_rewrite f (HeapFieldStore d ob v index) = HeapFieldStore d (f ob) (f v) index"
| "inst_rewrite f (PanicStore d ob v index) = PanicStore d (f ob) (f v) index"
| "inst_rewrite f (Index d array index u) = Index d (f array) (f index) u"
| "inst_rewrite f (StoreIndex d array index v u) = StoreIndex d (f array) (f index) (f v) u"
| "inst_rewrite f (ArrayLen d array) = ArrayLen d (f array)"
| "inst_rewrite f (ResumeCoro d handle send) = ResumeCoro d (f handle) (map_option f send)"
| "inst_rewrite f (Yield d v from receive) = Yield d (f v) from receive"
| "inst_rewrite f (DoneCoro d handle) = DoneCoro d (f handle)"
| "inst_rewrite f (LoadStatic d slot) = LoadStatic d slot"
| "inst_rewrite f (HomeLoad d home) = HomeLoad d home"
| "inst_rewrite f (StoreStatic d slot v) = StoreStatic d slot (f v)"
| "inst_rewrite f (HomeStore d home v) = HomeStore d home (f v)"
| "inst_rewrite f (ClearWord d v) = ClearWord d (f v)"
| "inst_rewrite f (KeepAlive d v) = KeepAlive d (f v)"
| "inst_rewrite f (ArrayPush d array v) = ArrayPush d (f array) (f v)"
| "inst_rewrite f (Alloc d kind elems kinds) = Alloc d kind (map f elems) kinds"
| "inst_rewrite f (GcBarrier d roots) = GcBarrier d (map f roots)"
| "inst_rewrite f (Deopt d kind loc) = Deopt d kind loc"
| "inst_rewrite f (StringInst d idx) = StringInst d idx"
| "inst_rewrite f (CodePtr d target) = CodePtr d target"
| "inst_rewrite f (Print d src) = Print d (f src)"
| "inst_rewrite f (FreeEarly d src deep) = FreeEarly d (f src) deep"
| "inst_rewrite f (Stringify d src tag) = Stringify d (f src) tag"
| "inst_rewrite f (Cow d src unique field) = Cow d (f src) unique field"
| "inst_rewrite f (PanicInst d msg) = PanicInst d (f msg)"
| "inst_rewrite f (Format d fmt args) = Format d (f fmt) (map f args)"
| "inst_rewrite f (ByteScan d from bound incl rv streams scalars ex) =
     ByteScan d (f from) (f bound) incl rv (map (\<lambda>(a, i). (f a, f i)) streams) (map f scalars) ex"
| "inst_rewrite f (VecLoop d pos from to kind) = VecLoop d pos (f from) (f to) (loop_rewrite f kind)"

section \<open>Terminators\<close>

datatype terminator =
    Jump block_id
  | Br value_id block_id block_id
  | JumpIfMatch value_id u32 "value_id list" block_id block_id
  | Return "value_id option" "value_id option"
  | Unreachable

definition term_targets :: "terminator \<Rightarrow> block_id \<Rightarrow> bool" where
  "term_targets t b = (case t of
     Jump d \<Rightarrow> d = b
   | Br _ taken not_taken \<Rightarrow> taken = b \<or> not_taken = b
   | JumpIfMatch _ _ _ taken not_taken \<Rightarrow> taken = b \<or> not_taken = b
   | Return _ _ \<Rightarrow> False
   | Unreachable \<Rightarrow> False)"

definition term_succs :: "terminator \<Rightarrow> block_id list" where
  "term_succs t = (case t of
     Jump d \<Rightarrow> [d]
   | Br _ taken not_taken \<Rightarrow> [taken, not_taken]
   | JumpIfMatch _ _ _ taken not_taken \<Rightarrow> [taken, not_taken]
   | Return _ _ \<Rightarrow> []
   | Unreachable \<Rightarrow> [])"

text \<open>\<open>rewrite_values\<close> of a terminator renames what it reads, and the payload words it binds.\<close>

definition term_rewrite :: "(value_id \<Rightarrow> value_id) \<Rightarrow> terminator \<Rightarrow> terminator" where
  "term_rewrite f t = (case t of
     Br cond taken not_taken \<Rightarrow> Br (f cond) taken not_taken
   | JumpIfMatch scrutinee tag payloads taken not_taken \<Rightarrow>
       JumpIfMatch (f scrutinee) tag (map f payloads) taken not_taken
   | Return lo hi \<Rightarrow> Return (map_option f lo) (map_option f hi)
   | _ \<Rightarrow> t)"

section \<open>Renaming\<close>

lemma vec_values_rewrite: "vec_values (vec_rewrite f e) = map f (vec_values e)"
  by (induction e) auto

lemma vec_rewrite_index: "vec_uses_index (vec_rewrite f e) = vec_uses_index e"
  by (induction e) auto

lemma store_rewrite_simps:
  "store_values (store_rewrite f s) = map f (store_values s)"
  "store_uses_index (store_rewrite f s) = store_uses_index s"
  by (simp_all add: store_values_def store_rewrite_def store_uses_index_def vec_values_rewrite
      vec_rewrite_index split: prod.split)

lemma loop_rewrite_simps:
  "loop_values (loop_rewrite f k) = map f (loop_values k)"
  "loop_uses_index (loop_rewrite f k) = loop_uses_index k"
  by (simp_all add: loop_values_def loop_rewrite_def loop_uses_index_def vec_values_rewrite vec_rewrite_index
      store_rewrite_simps map_concat list_ex_iff comp_def split: vec_loop_kind.split)

lemma vec_rewrite_comp: "vec_rewrite f (vec_rewrite g e) = vec_rewrite (f \<circ> g) e"
  by (induction e) auto

lemma store_rewrite_comp: "store_rewrite f (store_rewrite g s) = store_rewrite (f \<circ> g) s"
  by (simp add: store_rewrite_def vec_rewrite_comp split: prod.split)

lemma loop_rewrite_comp: "loop_rewrite f (loop_rewrite g k) = loop_rewrite (f \<circ> g) k"
  by (simp add: loop_rewrite_def vec_rewrite_comp store_rewrite_comp split: vec_loop_kind.split)

lemma succs_targets: "term_targets t b \<longleftrightarrow> b \<in> set (term_succs t)"
  by (auto simp: term_targets_def term_succs_def split: terminator.split)

text \<open>Renaming values. \<open>rewrite_values\<close> applies the map to exactly the values an instruction reads,
  in their order, keeps the values it defines and its kind (a phi stays a phi, a GC edge stays one),
  composes, and on a terminator keeps the successors; \<open>targets\<close> agrees with the successor list.\<close>

theorem rewrite_values_exact:
  "inst_operands (inst_rewrite f i) = map f (inst_operands i)
   \<and> inst_dests (inst_rewrite f i) = inst_dests i
   \<and> is_phi (inst_rewrite f i) = is_phi i \<and> is_gc_edge (inst_rewrite f i) = is_gc_edge i
   \<and> inst_rewrite f (inst_rewrite g i) = inst_rewrite (f \<circ> g) i
   \<and> term_succs (term_rewrite f t) = term_succs t
   \<and> (term_targets t b \<longleftrightarrow> b \<in> set (term_succs t))"
proof (intro conjI)
  show "inst_operands (inst_rewrite f i) = map f (inst_operands i)"
    by (cases i) (auto simp: loop_rewrite_simps map_concat comp_def case_prod_beta split: option.split)
  show "inst_dests (inst_rewrite f i) = inst_dests i"
    by (cases i) (simp_all add: inst_dests_def inst_dest_hi_def)
  show "is_phi (inst_rewrite f i) = is_phi i" "is_gc_edge (inst_rewrite f i) = is_gc_edge i"
    by (cases i; simp add: is_phi_def is_gc_edge_def)+
  show "inst_rewrite f (inst_rewrite g i) = inst_rewrite (f \<circ> g) i"
    by (cases i) (auto simp: loop_rewrite_comp option.map_comp)
  show "term_succs (term_rewrite f t) = term_succs t"
    by (simp add: term_succs_def term_rewrite_def split: terminator.split)
qed (rule succs_targets)

end
