(* ===== verification/Inst_Combine.thy ===== *)
theory Inst_Combine
  imports Mir_Inst Vm_Ops
begin

text \<open>
  Constant folding and algebraic rewrites on SSA instructions, after
  \<^verbatim>\<open>compiler/src/mir/instcombine.rs\<close>, against the words the VM computes for the code that
  \<^verbatim>\<open>compiler/src/mir/emit.rs\<close> selects (\<open>bin_kind\<close>, \<open>cmp_kind\<close>). Floating point arithmetic at
  compile time is the host's: the same argument \<open>fa\<close> as at run time.
\<close>

unbundle bit_operations_syntax

section \<open>Folding\<close>

abbreviation (input) F64_PLUS_ZERO :: u64 where "F64_PLUS_ZERO \<equiv> 0"
abbreviation (input) F64_PLUS_ONE :: u64 where "F64_PLUS_ONE \<equiv> 0x3FF0000000000000"
abbreviation (input) F64_PLUS_TWO :: u64 where "F64_PLUS_TWO \<equiv> 0x4000000000000000"
abbreviation (input) F64_MINUS_ONE :: u64 where "F64_MINUS_ONE \<equiv> 0xBFF0000000000000"
abbreviation (input) F64_MINUS_ZERO :: u64 where "F64_MINUS_ZERO \<equiv> 0x8000000000000000"

type_synonym const_map = "value_id \<rightharpoonup> mir_const"

definition f64_is_finite :: "u64 \<Rightarrow> bool" where
  "f64_is_finite b \<longleftrightarrow> take_bit 63 (uint b) < 0x7FF0000000000000"

definition is_plus_zero :: "mir_ty \<Rightarrow> mir_const option \<Rightarrow> bool" where
  "is_plus_zero ty c = (case (ty, c) of
     (TI64, Some (CI64 v)) \<Rightarrow> v = 0 | (TF64, Some (CF64 b)) \<Rightarrow> b = F64_PLUS_ZERO | _ \<Rightarrow> False)"

definition is_plus_one :: "mir_ty \<Rightarrow> mir_const option \<Rightarrow> bool" where
  "is_plus_one ty c = (case (ty, c) of
     (TI64, Some (CI64 v)) \<Rightarrow> v = 1 | (TF64, Some (CF64 b)) \<Rightarrow> b = F64_PLUS_ONE | _ \<Rightarrow> False)"

definition is_plus_two :: "mir_ty \<Rightarrow> mir_const option \<Rightarrow> bool" where
  "is_plus_two ty c = (case (ty, c) of
     (TI64, Some (CI64 v)) \<Rightarrow> v = 2 | (TF64, Some (CF64 b)) \<Rightarrow> b = F64_PLUS_TWO | _ \<Rightarrow> False)"

definition is_minus_one :: "mir_ty \<Rightarrow> mir_const option \<Rightarrow> bool" where
  "is_minus_one ty c = (case (ty, c) of (TF64, Some (CF64 b)) \<Rightarrow> b = F64_MINUS_ONE | _ \<Rightarrow> False)"

definition is_int_zero :: "mir_ty \<Rightarrow> mir_const option \<Rightarrow> bool" where
  "is_int_zero ty c \<longleftrightarrow> ty = TI64 \<and> c = Some (CI64 0)"

definition is_int_minus_one :: "mir_ty \<Rightarrow> mir_const option \<Rightarrow> bool" where
  "is_int_minus_one ty c \<longleftrightarrow> ty = TI64 \<and> c = Some (CI64 (- 1))"

definition ok_option :: "(int_trap, 'a) result \<Rightarrow> 'a option" where
  "ok_option r = (case r of Ok x \<Rightarrow> Some x | _ \<Rightarrow> None)"

definition eval_i64 :: "mir_bin_op \<Rightarrow> i64 \<Rightarrow> i64 \<Rightarrow> i64 option" where
  "eval_i64 op a b = (case op of
     MAdd \<Rightarrow> ok_option (int_arith_add a b)
   | MSub \<Rightarrow> ok_option (int_arith_sub a b)
   | MMul \<Rightarrow> ok_option (int_arith_mul a b)
   | MDiv \<Rightarrow> ok_option (int_arith_div a b)
   | MRem \<Rightarrow> ok_option (int_arith_rem a b)
   | MBitAnd \<Rightarrow> Some (a AND b)
   | MBitOr \<Rightarrow> Some (a OR b)
   | MXor \<Rightarrow> Some (a XOR b)
   | MShl \<Rightarrow> if 0 \<le> sint b \<and> sint b < 64 then Some (push_bit (nat (sint b)) a) else None
   | MShr \<Rightarrow> if 0 \<le> sint b \<and> sint b < 64 then Some (signed_drop_bit (nat (sint b)) a) else None
   | MPow \<Rightarrow> None)"

definition eval_f64 :: "float_arith \<Rightarrow> mir_bin_op \<Rightarrow> u64 \<Rightarrow> u64 \<Rightarrow> u64 option" where
  "eval_f64 fa op a b = (case op of
     MAdd \<Rightarrow> Some (f64_add fa a b)
   | MSub \<Rightarrow> Some (f64_sub fa a b)
   | MMul \<Rightarrow> Some (f64_mul fa a b)
   | MDiv \<Rightarrow> if \<not> f64_eq b F64_PLUS_ZERO then Some (f64_div fa a b) else None
   | MRem \<Rightarrow> if \<not> f64_eq b F64_PLUS_ZERO then Some (f64_rem fa a b) else None
   | _ \<Rightarrow> None)"

definition eval_bin :: "float_arith \<Rightarrow> mir_bin_op \<Rightarrow> mir_ty \<Rightarrow> mir_const \<Rightarrow> mir_const \<Rightarrow> mir_const option" where
  "eval_bin fa op ty a b = (case ty of
     TI64 \<Rightarrow> (case (a, b) of (CI64 x, CI64 y) \<Rightarrow> map_option CI64 (eval_i64 op x y) | _ \<Rightarrow> None)
   | TF64 \<Rightarrow> (case (a, b) of (CF64 x, CF64 y) \<Rightarrow> map_option CF64 (eval_f64 fa op x y) | _ \<Rightarrow> None)
   | _ \<Rightarrow> None)"

definition cmp_ord :: "mir_cmp_op \<Rightarrow> i64 \<Rightarrow> i64 \<Rightarrow> bool" where
  "cmp_ord op a b = (case op of
     MLt \<Rightarrow> a <s b | MLe \<Rightarrow> a \<le>s b | MGt \<Rightarrow> b <s a | MGe \<Rightarrow> b \<le>s a | MEq \<Rightarrow> a = b | MNe \<Rightarrow> a \<noteq> b)"

definition as_cmp :: "mir_cmp_op \<Rightarrow> cmp" where
  "as_cmp op = (case op of
     MLt \<Rightarrow> CmpLt | MLe \<Rightarrow> CmpLe | MGt \<Rightarrow> CmpGt | MGe \<Rightarrow> CmpGe | MEq \<Rightarrow> CmpEq | MNe \<Rightarrow> CmpNe)"

definition cmp_float :: "mir_cmp_op \<Rightarrow> u64 \<Rightarrow> u64 \<Rightarrow> bool option" where
  "cmp_float op a b = (case f64_partial_cmp a b of
     None \<Rightarrow> None | Some _ \<Rightarrow> Some (arith_cmp f64_partial_cmp (as_cmp op) a b))"

definition eval_cmp :: "mir_cmp_op \<Rightarrow> mir_ty \<Rightarrow> mir_const \<Rightarrow> mir_const \<Rightarrow> bool option" where
  "eval_cmp op ty a b = (case (ty, a, b) of
     (TI64, CI64 x, CI64 y) \<Rightarrow> Some (cmp_ord op x y)
   | (TF64, CF64 x, CF64 y) \<Rightarrow> cmp_float op x y
   | _ \<Rightarrow> None)"

definition eval_neg :: "mir_const \<Rightarrow> mir_const option" where
  "eval_neg c = (case c of
     CI64 v \<Rightarrow> map_option CI64 (checked_neg v) | CF64 b \<Rightarrow> Some (CF64 (f64_neg b)) | CBool _ \<Rightarrow> None)"

definition eval_cast :: "float_arith \<Rightarrow> mir_cast_kind \<Rightarrow> mir_ty \<Rightarrow> mir_const \<Rightarrow> mir_const option" where
  "eval_cast fa kind to c = (case (kind, to, c) of
     (IntToFloat, TF64, CI64 v) \<Rightarrow> Some (CF64 (i64_to_f64 fa v))
   | (FloatToInt, TI64, CF64 b) \<Rightarrow> Some (CI64 (f64_to_i64 fa b))
   | _ \<Rightarrow> None)"

definition identity :: "mir_bin_op \<Rightarrow> mir_ty \<Rightarrow> value_id \<Rightarrow> value_id \<Rightarrow> mir_const option \<Rightarrow> mir_const option
    \<Rightarrow> value_id option" where
  "identity op ty lhs rhs lc rc =
     (if op = MAdd \<and> is_plus_zero ty rc then Some lhs
      else if op = MAdd \<and> is_plus_zero ty lc then Some rhs
      else if op = MSub \<and> is_int_zero ty rc then Some lhs
      else if op = MMul \<and> is_plus_one ty rc then Some lhs
      else if op = MMul \<and> is_plus_one ty lc then Some rhs
      else if op = MDiv \<and> is_plus_one ty rc then Some lhs
      else if op \<in> {MBitOr, MXor, MShl, MShr} \<and> is_int_zero ty rc then Some lhs
      else if op = MBitAnd \<and> is_int_minus_one ty rc then Some lhs
      else if op = MBitAnd \<and> is_int_minus_one ty lc then Some rhs
      else None)"

definition zeroing :: "mir_bin_op \<Rightarrow> mir_ty \<Rightarrow> value_id \<Rightarrow> value_id \<Rightarrow> mir_const option \<Rightarrow> mir_const option
    \<Rightarrow> mir_const option" where
  "zeroing op ty lhs rhs lc rc =
     (if \<not> is_int ty then None
      else if op = MSub \<and> lhs = rhs then Some (CI64 0)
      else if op = MMul \<and> (is_int_zero ty lc \<or> is_int_zero ty rc) then Some (CI64 0)
      else if op = MBitAnd \<and> (is_int_zero ty lc \<or> is_int_zero ty rc) then Some (CI64 0)
      else if op = MRem \<and> is_plus_one ty rc then Some (CI64 0)
      else None)"

definition finite_fold :: "mir_bin_op \<Rightarrow> mir_ty \<Rightarrow> value_id \<Rightarrow> value_id \<Rightarrow> value_id set \<Rightarrow> value_id set
    \<Rightarrow> (value_id \<rightharpoonup> value_id) \<Rightarrow> mir_const option" where
  "finite_fold op ty lhs rhs fin nonzero neg_of =
     (if \<not> is_float ty then None
      else if op = MSub \<and> lhs = rhs \<and> lhs \<in> fin then Some (CF64 F64_PLUS_ZERO)
      else if op = MAdd \<and> (lhs \<in> fin \<and> neg_of rhs = Some lhs \<or> rhs \<in> fin \<and> neg_of lhs = Some rhs)
        then Some (CF64 F64_PLUS_ZERO)
      else if op = MDiv \<and> lhs = rhs \<and> lhs \<in> fin \<and> lhs \<in> nonzero then Some (CF64 F64_PLUS_ONE)
      else None)"

definition strength_mul2 :: "mir_bin_op \<Rightarrow> mir_ty \<Rightarrow> value_id \<Rightarrow> value_id \<Rightarrow> mir_const option
    \<Rightarrow> mir_const option \<Rightarrow> mir_inst \<Rightarrow> mir_inst option" where
  "strength_mul2 op ty lhs rhs lc rc inst =
     (if op \<noteq> MMul then None
      else case (if is_plus_two ty rc then Some lhs else if is_plus_two ty lc then Some rhs else None) of
        None \<Rightarrow> None
      | Some src \<Rightarrow> (case inst of Bin d _ t _ _ \<Rightarrow> Some (Bin d MAdd t src src) | _ \<Rightarrow> None))"

definition strength_mul_neg1 :: "mir_bin_op \<Rightarrow> mir_ty \<Rightarrow> value_id \<Rightarrow> value_id \<Rightarrow> mir_const option
    \<Rightarrow> mir_const option \<Rightarrow> mir_inst \<Rightarrow> mir_inst option" where
  "strength_mul_neg1 op ty lhs rhs lc rc inst =
     (if op \<noteq> MMul \<or> \<not> is_float ty then None
      else case (if is_minus_one ty rc then Some lhs else if is_minus_one ty lc then Some rhs else None) of
        None \<Rightarrow> None
      | Some src \<Rightarrow> Some (Unary (inst_dest inst) MNeg src))"

datatype fold = NoFold | Subst value_id | ToConst mir_const | Rewrite mir_inst

definition fold_bin :: "float_arith \<Rightarrow> mir_bin_op \<Rightarrow> mir_ty \<Rightarrow> value_id \<Rightarrow> value_id \<Rightarrow> const_map \<Rightarrow> value_id set
    \<Rightarrow> value_id set \<Rightarrow> (value_id \<rightharpoonup> value_id) \<Rightarrow> bool \<Rightarrow> mir_inst \<Rightarrow> fold" where
  "fold_bin fa op ty lhs rhs consts fin nonzero neg_of strength inst =
     (let lc = consts lhs; rc = consts rhs in
      case (case (lc, rc) of (Some a, Some b) \<Rightarrow> eval_bin fa op ty a b | _ \<Rightarrow> None) of
        Some c \<Rightarrow> ToConst c
      | None \<Rightarrow> (case identity op ty lhs rhs lc rc of
          Some keep \<Rightarrow> Subst keep
        | None \<Rightarrow> (case zeroing op ty lhs rhs lc rc of
            Some z \<Rightarrow> ToConst z
          | None \<Rightarrow> (case finite_fold op ty lhs rhs fin nonzero neg_of of
              Some c \<Rightarrow> ToConst c
            | None \<Rightarrow> if \<not> strength then NoFold
                else (case strength_mul2 op ty lhs rhs lc rc inst of
                  Some i \<Rightarrow> Rewrite i
                | None \<Rightarrow> (case strength_mul_neg1 op ty lhs rhs lc rc inst of
                    Some i \<Rightarrow> Rewrite i | None \<Rightarrow> NoFold))))))"

definition to_fold :: "mir_const option \<Rightarrow> fold" where
  "to_fold c = (case c of Some n \<Rightarrow> ToConst n | None \<Rightarrow> NoFold)"

definition fold_inst :: "float_arith \<Rightarrow> const_map \<Rightarrow> value_id set \<Rightarrow> value_id set \<Rightarrow> (value_id \<rightharpoonup> value_id)
    \<Rightarrow> bool \<Rightarrow> mir_inst \<Rightarrow> fold" where
  "fold_inst fa consts fin nonzero neg_of strength inst = (case inst of
     Bin _ op ty lhs rhs \<Rightarrow> fold_bin fa op ty lhs rhs consts fin nonzero neg_of strength inst
   | Cmp _ op ty lhs rhs \<Rightarrow> (case (consts lhs, consts rhs) of
       (Some a, Some b) \<Rightarrow> to_fold (map_option CBool (eval_cmp op ty a b))
     | _ \<Rightarrow> NoFold)
   | Unary _ MNeg src \<Rightarrow> (case neg_of src of
       Some inner \<Rightarrow> Subst inner
     | None \<Rightarrow> to_fold (Option.bind (consts src) eval_neg))
   | Unary _ MNot src \<Rightarrow> (case consts src of Some (CBool b) \<Rightarrow> ToConst (CBool (\<not> b)) | _ \<Rightarrow> NoFold)
   | Cast _ kind to src \<Rightarrow> to_fold (Option.bind (consts src) (eval_cast fa kind to))
   | _ \<Rightarrow> NoFold)"

definition const_of :: "float_arith \<Rightarrow> mir_inst \<Rightarrow> const_map \<Rightarrow> mir_const option" where
  "const_of fa inst consts = (case inst of
     Const _ c \<Rightarrow> Some c
   | _ \<Rightarrow> (case fold_inst fa consts {} {} Map.empty False inst of ToConst c \<Rightarrow> Some c | _ \<Rightarrow> None))"

definition exact_recip :: "float_arith \<Rightarrow> mir_const \<Rightarrow> mir_const option" where
  "exact_recip fa c = (case c of
     CF64 bits \<Rightarrow>
       (if \<not> f64_is_finite bits \<or> f64_eq bits F64_PLUS_ZERO then None
        else if bits AND (push_bit 52 1 - 1) \<noteq> 0 then None
        else (let r = f64_div fa F64_PLUS_ONE bits in
          if \<not> f64_is_finite r then None else Some (CF64 r)))
   | _ \<Rightarrow> None)"

section \<open>The words the VM computes\<close>

definition bin_kind :: "mir_bin_op \<Rightarrow> mir_ty \<Rightarrow> u8 option" where
  "bin_kind op ty0 =
     (let ty = (if ty0 \<in> {THeapRef, TNicheOpt, TNicheRes, TBool} then TI64 else ty0) in
      if ty = TI64 then Some (case op of MAdd \<Rightarrow> 0 | MSub \<Rightarrow> 1 | MMul \<Rightarrow> 2 | MDiv \<Rightarrow> 3 | MRem \<Rightarrow> 4 | MBitAnd \<Rightarrow> 5
        | MBitOr \<Rightarrow> 6 | MXor \<Rightarrow> 7 | MShl \<Rightarrow> 8 | MShr \<Rightarrow> 9 | MPow \<Rightarrow> 25)
      else if ty = TF64 then (case op of MAdd \<Rightarrow> Some 10 | MSub \<Rightarrow> Some 11 | MMul \<Rightarrow> Some 12 | MDiv \<Rightarrow> Some 13
        | MRem \<Rightarrow> Some 14 | MPow \<Rightarrow> Some 26 | _ \<Rightarrow> None)
      else None)"

definition cmp_kind :: "mir_cmp_op \<Rightarrow> mir_ty \<Rightarrow> u8 option" where
  "cmp_kind op ty =
     (let pred = (case op of MLt \<Rightarrow> 0 | MLe \<Rightarrow> 1 | MGt \<Rightarrow> 2 | MGe \<Rightarrow> 3 | MEq \<Rightarrow> 4 | MNe \<Rightarrow> 5) in
      if ty \<in> {TI64, THeapRef, TNicheOpt, TNicheRes} then Some (pack_cmp 0 pred)
      else if ty = TF64 then Some (pack_cmp 1 pred)
      else None)"

definition unary_kind :: "mir_unary_op \<Rightarrow> mir_ty \<Rightarrow> u8" where
  "unary_kind op t = (case op of MNot \<Rightarrow> 1 | MNeg \<Rightarrow> if is_float t then 2 else 0)"

definition const_word :: "mir_const \<Rightarrow> u64" where
  "const_word c = (case c of CI64 v \<Rightarrow> from_int v | CF64 b \<Rightarrow> b | CBool b \<Rightarrow> from_bool b)"

definition bin_result :: "float_arith \<Rightarrow> mir_bin_op \<Rightarrow> mir_ty \<Rightarrow> u64 \<Rightarrow> u64 \<Rightarrow> (int_trap, u64) result option" where
  "bin_result fa op ty a b = map_option (\<lambda>k. dense_eval_bin fa k a b) (bin_kind op ty)"

definition cmp_result :: "mir_cmp_op \<Rightarrow> mir_ty \<Rightarrow> u64 \<Rightarrow> u64 \<Rightarrow> u64 option" where
  "cmp_result op ty a b = map_option (\<lambda>k. dense_eval_cmp k a b) (cmp_kind op ty)"

text \<open>
  The word a scalar instruction leaves in its destination, from the words of its operands: \<open>None\<close>
  for an instruction that is not scalar or that the emitter refuses.
\<close>

definition scalar_result :: "float_arith \<Rightarrow> (value_id \<Rightarrow> mir_ty) \<Rightarrow> (value_id \<Rightarrow> u64) \<Rightarrow> mir_inst
    \<Rightarrow> (int_trap, u64) result option" where
  "scalar_result fa ty env inst = (case inst of
     Const _ c \<Rightarrow> Some (Ok (const_word c))
   | Bin _ op t lhs rhs \<Rightarrow> bin_result fa op t (env lhs) (env rhs)
   | Cmp _ op t lhs rhs \<Rightarrow> map_option Ok (cmp_result op t (env lhs) (env rhs))
   | Unary _ op src \<Rightarrow> Some (dense_eval_unary (unary_kind op (ty src)) (env src))
   | Cast _ kind to src \<Rightarrow> Some (Ok (case kind of
       IntToFloat \<Rightarrow> dense_eval_cast fa 0 (env src)
     | FloatToInt \<Rightarrow> dense_eval_cast fa 2 (env src)
     | WordCast \<Rightarrow> env src))
   | _ \<Rightarrow> None)"

lemma ok_option_Some [simp]: "ok_option r = Some x \<longleftrightarrow> r = Ok x"
  by (auto simp: ok_option_def split: result.split)

definition mir_int_op :: "mir_bin_op \<Rightarrow> int_op" where
  "mir_int_op op = (case op of MAdd \<Rightarrow> IntAdd | MSub \<Rightarrow> IntSub | MMul \<Rightarrow> IntMul | MDiv \<Rightarrow> IntDiv | MRem \<Rightarrow> IntRem
     | MBitAnd \<Rightarrow> IntBitAnd | MBitOr \<Rightarrow> IntBitOr | MXor \<Rightarrow> IntXor | MShl \<Rightarrow> IntShl | MShr \<Rightarrow> IntShr | MPow \<Rightarrow> IntPow)"

lemma bin_result_int: "bin_result fa op TI64 a b = Some (arith_int (mir_int_op op) a b)"
proof -
  have "rmap from_int r = r" for r :: "(int_trap, u64) result"
    by (cases r) (simp_all add: from_int_def)
  then show ?thesis
    by (cases op) (simp_all add: bin_result_def bin_kind_def dense_eval_bin_def mir_int_op_def as_int_def)
qed

lemma bin_result_float:
  "bin_result fa MAdd TF64 a b = Some (Ok (f64_add fa a b))" "bin_result fa MSub TF64 a b = Some (Ok (f64_sub fa a b))"
  "bin_result fa MMul TF64 a b = Some (Ok (f64_mul fa a b))" "bin_result fa MDiv TF64 a b = Some (Ok (f64_div fa a b))"
  "bin_result fa MRem TF64 a b = Some (Ok (f64_rem fa a b))"
  by (simp_all add: bin_result_def bin_kind_def dense_eval_bin_def arith_float_def)

lemma eval_i64_sound: "eval_i64 op a b = Some r \<Longrightarrow> arith_int (mir_int_op op) a b = Ok r"
  by (cases op) (auto simp: eval_i64_def mir_int_op_def arith_int_def int_arith_shl_def int_arith_shr_def
      split: if_splits)

lemma eval_f64_sound: "eval_f64 fa op a b = Some r \<Longrightarrow> bin_result fa op TF64 a b = Some (Ok r)"
  by (cases op) (auto simp: eval_f64_def bin_result_float split: if_splits)

lemma eval_bin_sound:
  "eval_bin fa op ty a b = Some c \<Longrightarrow>
     bin_result fa op ty (const_word a) (const_word b) = Some (Ok (const_word c)) \<and> mir_const_ty c = ty"
  by (auto simp: eval_bin_def const_word_def from_int_def mir_const_ty_def bin_result_int
      dest: eval_i64_sound eval_f64_sound split: mir_ty.splits mir_const.splits)

lemma cmp_ord_sound: "arith_cmp i64_partial_cmp (as_cmp op) a b = cmp_ord op a b"
  by (cases op) (auto simp: arith_cmp_def i64_partial_cmp_def compare_int_def as_cmp_def cmp_ord_def
      word_sless_alt word_sle_eq simp flip: sint_eq_iff)

lemma cmp_result_lane:
  "cmp_result op TI64 a b = Some (from_bool (cmp_ord op a b))"
  "cmp_result op TF64 a b = Some (from_bool (arith_cmp f64_partial_cmp (as_cmp op) a b))"
  by (cases op; simp add: cmp_result_def cmp_kind_def dense_eval_cmp_def cmp_kind_rt cmp_pred_def as_cmp_def
      cmp_ord_sound[symmetric] as_int_def)+

lemma eval_cmp_sound:
  "eval_cmp op ty a b = Some r \<Longrightarrow> cmp_result op ty (const_word a) (const_word b) = Some (from_bool r)"
  by (auto simp: eval_cmp_def const_word_def from_int_def cmp_result_lane cmp_float_def
      split: mir_ty.splits mir_const.splits option.splits)

lemma eval_neg_sound:
  "eval_neg c = Some n \<Longrightarrow> dense_eval_unary (unary_kind MNeg (mir_const_ty c)) (const_word c) = Ok (const_word n)
     \<and> mir_const_ty n = mir_const_ty c"
  by (auto simp: eval_neg_def const_word_def mir_const_ty_def dense_eval_unary_def unary_kind_def is_float_def
      from_int_def as_int_def int_arith_neg_def split: mir_const.splits)

lemma is_const_simps:
  "is_int_zero ty c \<longleftrightarrow> ty = TI64 \<and> c = Some (CI64 0)"
  "is_int_minus_one ty c \<longleftrightarrow> ty = TI64 \<and> c = Some (CI64 (- 1))"
  "is_plus_zero ty c \<longleftrightarrow> ty = TI64 \<and> c = Some (CI64 0) \<or> ty = TF64 \<and> c = Some (CF64 0)"
  "is_plus_one ty c \<longleftrightarrow> ty = TI64 \<and> c = Some (CI64 1) \<or> ty = TF64 \<and> c = Some (CF64 F64_PLUS_ONE)"
  "is_plus_two ty c \<longleftrightarrow> ty = TI64 \<and> c = Some (CI64 2) \<or> ty = TF64 \<and> c = Some (CF64 F64_PLUS_TWO)"
  "is_minus_one ty c \<longleftrightarrow> ty = TF64 \<and> c = Some (CF64 F64_MINUS_ONE)"
  by (auto simp: is_int_zero_def is_int_minus_one_def is_plus_zero_def is_plus_one_def is_plus_two_def
      is_minus_one_def split: mir_ty.splits option.splits mir_const.splits)

text \<open>Integer identities, for every word.\<close>

lemma in_i64_zero [simp]: "in_i64 0"
  by (simp add: in_i64_def)

lemma smod_one: "a smod 1 = 0" for a :: int
  by (simp add: signed_modulo_int_def)

lemma int_identities:
  "arith_int IntAdd x 0 = Ok x" "arith_int IntAdd 0 x = Ok x" "arith_int IntSub x 0 = Ok x"
  "arith_int IntMul x 1 = Ok x" "arith_int IntMul 1 x = Ok x" "arith_int IntDiv x 1 = Ok x"
  "arith_int IntBitOr x 0 = Ok x" "arith_int IntXor x 0 = Ok x" "arith_int IntShl x 0 = Ok x"
  "arith_int IntShr x 0 = Ok x" "arith_int IntBitAnd x (- 1) = Ok x" "arith_int IntBitAnd (- 1) x = Ok x"
  "arith_int IntSub x x = Ok 0" "arith_int IntMul x 0 = Ok 0" "arith_int IntMul 0 x = Ok 0"
  "arith_int IntBitAnd x 0 = Ok 0" "arith_int IntBitAnd 0 x = Ok 0" "arith_int IntRem x 1 = Ok 0"
  by (simp_all add: arith_int_def int_arith_add_def int_arith_sub_def int_arith_mul_def int_arith_div_def
      int_arith_shl_def int_arith_shr_def int_arith_rem_def checked_add_def checked_sub_def checked_mul_def
      checked_div_def wrapping_rem_def smod_one)

lemma int_double:
  "arith_int IntMul x 2 = arith_int IntAdd x x" "arith_int IntMul 2 x = arith_int IntAdd x x"
proof -
  have "x * 2 = x + x" "2 * x = x + x" "sint x * 2 = sint x + sint x" "2 * sint x = sint x + sint x"
    by (rule mult_2_right, rule mult_2, rule mult_2_right, rule mult_2)
  moreover have "sint (2 :: i64) = 2" by simp
  ultimately show "arith_int IntMul x 2 = arith_int IntAdd x x" "arith_int IntMul 2 x = arith_int IntAdd x x"
    unfolding arith_int_def int_arith_add_def int_arith_mul_def checked_add_def checked_mul_def int_op.case
    by metis+
qed

section \<open>Soundness of a fold\<close>

text \<open>
  What the folds rely on of binary floating point: IEEE 754 arithmetic, stated on bit patterns. The
  bits of a NaN result are not fixed by the standard.
\<close>

definition ieee :: "float_arith \<Rightarrow> bool" where
  "ieee fa \<longleftrightarrow>
     (\<forall>x y. f64_is_nan x \<or> f64_is_nan y \<longrightarrow>
        f64_is_nan (f64_add fa x y) \<and> f64_is_nan (f64_mul fa x y) \<and> f64_is_nan (f64_div fa x y))
     \<and> (\<forall>x. \<not> f64_is_nan x \<longrightarrow>
          (x \<noteq> F64_MINUS_ZERO \<longrightarrow> f64_add fa x 0 = x \<and> f64_add fa 0 x = x)
          \<and> f64_mul fa x F64_PLUS_ONE = x \<and> f64_mul fa F64_PLUS_ONE x = x \<and> f64_div fa x F64_PLUS_ONE = x
          \<and> f64_mul fa x F64_PLUS_TWO = f64_add fa x x \<and> f64_mul fa F64_PLUS_TWO x = f64_add fa x x
          \<and> f64_mul fa x F64_MINUS_ONE = f64_neg x \<and> f64_mul fa F64_MINUS_ONE x = f64_neg x)
     \<and> f64_add fa F64_MINUS_ZERO 0 = 0 \<and> f64_add fa 0 F64_MINUS_ZERO = 0
     \<and> (\<forall>x. f64_is_finite x \<longrightarrow> f64_sub fa x x = 0 \<and> f64_add fa x (f64_neg x) = 0 \<and> f64_add fa (f64_neg x) x = 0
          \<and> (\<not> f64_eq x 0 \<longrightarrow> f64_div fa x x = F64_PLUS_ONE))"

definition same_word :: "u64 \<Rightarrow> u64 \<Rightarrow> bool" where
  "same_word a b \<longleftrightarrow> a = b \<or> f64_is_nan a \<and> f64_is_nan b"

definition same_outcome :: "(int_trap, u64) result option \<Rightarrow> (int_trap, u64) result option \<Rightarrow> bool" where
  "same_outcome r s \<longleftrightarrow> r = s \<or> (\<exists>v w. r = Some (Ok v) \<and> s = Some (Ok w) \<and> same_word v w)"

text \<open>The one fold that is not exact: a float added to positive zero is replaced by the float.\<close>

definition drops_zero_sign :: "mir_inst \<Rightarrow> (value_id \<Rightarrow> u64) \<Rightarrow> value_id \<Rightarrow> bool" where
  "drops_zero_sign inst env keep \<longleftrightarrow> (\<exists>d lhs rhs. inst = Bin d MAdd TF64 lhs rhs) \<and> env keep = F64_MINUS_ZERO"

definition fold_ok :: "float_arith \<Rightarrow> (value_id \<Rightarrow> mir_ty) \<Rightarrow> (value_id \<Rightarrow> u64) \<Rightarrow> mir_inst \<Rightarrow> fold \<Rightarrow> bool" where
  "fold_ok fa ty env inst f = (case f of
     NoFold \<Rightarrow> True
   | Subst keep \<Rightarrow> drops_zero_sign inst env keep \<and> scalar_result fa ty env inst = Some (Ok 0)
       \<or> same_outcome (scalar_result fa ty env inst) (Some (Ok (env keep)))
   | ToConst c \<Rightarrow> same_outcome (scalar_result fa ty env inst) (Some (Ok (const_word c)))
   | Rewrite inst' \<Rightarrow> inst_dest inst' = inst_dest inst
       \<and> same_outcome (scalar_result fa ty env inst) (scalar_result fa ty env inst'))"

text \<open>What the analyses that feed the folds promise of the words at run time.\<close>

record combine_facts =
  cf_consts :: const_map
  cf_finite :: "value_id set"
  cf_nonzero :: "value_id set"
  cf_neg_of :: "value_id \<rightharpoonup> value_id"

definition facts_hold :: "(value_id \<Rightarrow> mir_ty) \<Rightarrow> (value_id \<Rightarrow> u64) \<Rightarrow> combine_facts \<Rightarrow> bool" where
  "facts_hold ty env fs \<longleftrightarrow>
     (\<forall>v c. cf_consts fs v = Some c \<longrightarrow> env v = const_word c \<and> ty v = mir_const_ty c)
     \<and> (\<forall>v \<in> cf_finite fs. f64_is_finite (env v))
     \<and> (\<forall>v \<in> cf_nonzero fs. \<not> f64_eq (env v) 0)
     \<and> (\<forall>d s. cf_neg_of fs d = Some s \<longrightarrow> env d = f64_neg (env s) \<and> is_float (ty d))"

definition operands_typed :: "(value_id \<Rightarrow> mir_ty) \<Rightarrow> mir_inst \<Rightarrow> bool" where
  "operands_typed ty inst = (case inst of
     Bin _ _ t lhs rhs \<Rightarrow> t = TF64 \<longrightarrow> ty lhs = TF64 \<and> ty rhs = TF64 | _ \<Rightarrow> True)"

lemma same_outcome_refl [simp]: "same_outcome r r"
  by (simp add: same_outcome_def)

lemma same_outcome_Ok [simp]: "same_outcome (Some (Ok v)) (Some (Ok w)) \<longleftrightarrow> same_word v w"
  by (auto simp: same_outcome_def same_word_def)

lemma f64_neg_neg [simp]: "f64_neg (f64_neg x) = x"
  by (simp add: f64_neg_def xor.assoc)

lemma f64_nan_neg [simp]: "f64_is_nan (f64_neg x) = f64_is_nan x"
  by (simp add: f64_is_nan_def f64_neg_def unsigned_xor_eq take_bit_xor)

lemma ieee_folds:
  assumes "ieee fa"
  shows "x = F64_MINUS_ZERO \<and> f64_add fa x 0 = 0 \<or> same_word (f64_add fa x 0) x"
    "x = F64_MINUS_ZERO \<and> f64_add fa 0 x = 0 \<or> same_word (f64_add fa 0 x) x"
    "same_word (f64_mul fa x F64_PLUS_ONE) x" "same_word (f64_mul fa F64_PLUS_ONE x) x"
    "same_word (f64_div fa x F64_PLUS_ONE) x"
    "same_word (f64_mul fa x F64_PLUS_TWO) (f64_add fa x x)" "same_word (f64_mul fa F64_PLUS_TWO x) (f64_add fa x x)"
    "same_word (f64_mul fa x F64_MINUS_ONE) (f64_neg x)" "same_word (f64_mul fa F64_MINUS_ONE x) (f64_neg x)"
  using assms unfolding ieee_def same_word_def by (metis f64_nan_neg)+

lemma identity_sound:
  assumes "ieee fa" and "facts_hold ty env fs"
    and "identity op t lhs rhs (cf_consts fs lhs) (cf_consts fs rhs) = Some keep"
  shows "fold_ok fa ty env (Bin d op t lhs rhs) (Subst keep)"
proof -
  have c: "env v = const_word c" if "cf_consts fs v = Some c" for v c
    using assms(2) that by (auto simp: facts_hold_def)
  show ?thesis
    using assms(3) ieee_folds[OF assms(1), of "env keep"]
    by (cases op) (auto simp: identity_def is_const_simps fold_ok_def scalar_result_def bin_result_int
        bin_result_float mir_int_op_def int_identities c const_word_def from_int_def drops_zero_sign_def
        split: if_splits)
qed

lemma zeroing_sound:
  assumes "zeroing op t lhs rhs lc rc = Some c"
    and "\<And>k. lc = Some k \<Longrightarrow> a = const_word k" and "\<And>k. rc = Some k \<Longrightarrow> b = const_word k"
    and "lhs = rhs \<Longrightarrow> a = b"
  shows "bin_result fa op t a b = Some (Ok (const_word c)) \<and> mir_const_ty c = t"
  using assms(1) assms(2)[of "CI64 0"] assms(3)[of "CI64 0"] assms(3)[of "CI64 1"] assms(4)
  by (cases op) (auto simp: zeroing_def is_int_def is_const_simps bin_result_int mir_int_op_def int_identities
      const_word_def from_int_def mir_const_ty_def split: if_splits)

lemma finite_fold_sound:
  assumes "ieee fa" and "facts_hold ty env fs"
    and "finite_fold op t lhs rhs (cf_finite fs) (cf_nonzero fs) (cf_neg_of fs) = Some c"
  shows "bin_result fa op t (env lhs) (env rhs) = Some (Ok (const_word c))"
  using assms
  by (cases op) (auto simp: finite_fold_def is_float_def bin_result_float const_word_def facts_hold_def ieee_def
      split: if_splits)

lemma strength_sound:
  assumes "ieee fa" and facts: "facts_hold ty env fs" and typed: "operands_typed ty (Bin d op t lhs rhs)"
  shows "strength_mul2 op t lhs rhs (cf_consts fs lhs) (cf_consts fs rhs) (Bin d op t lhs rhs) = Some i \<Longrightarrow>
      fold_ok fa ty env (Bin d op t lhs rhs) (Rewrite i)"
    and "strength_mul_neg1 op t lhs rhs (cf_consts fs lhs) (cf_consts fs rhs) (Bin d op t lhs rhs) = Some i \<Longrightarrow>
      fold_ok fa ty env (Bin d op t lhs rhs) (Rewrite i)"
proof -
  have c: "env v = const_word c" if "cf_consts fs v = Some c" for v c
    using facts that by (auto simp: facts_hold_def)
  note f = ieee_folds(6)[OF assms(1), of "env lhs"] ieee_folds(7)[OF assms(1), of "env rhs"]
    ieee_folds(8)[OF assms(1), of "env lhs"] ieee_folds(9)[OF assms(1), of "env rhs"]
  show "fold_ok fa ty env (Bin d op t lhs rhs) (Rewrite i)"
    if "strength_mul2 op t lhs rhs (cf_consts fs lhs) (cf_consts fs rhs) (Bin d op t lhs rhs) = Some i"
    using that f(1,2)
    by (cases "op = MMul") (auto simp: strength_mul2_def is_const_simps fold_ok_def scalar_result_def bin_result_int
        bin_result_float mir_int_op_def int_double c const_word_def from_int_def split: if_splits)
  show "fold_ok fa ty env (Bin d op t lhs rhs) (Rewrite i)"
    if "strength_mul_neg1 op t lhs rhs (cf_consts fs lhs) (cf_consts fs rhs) (Bin d op t lhs rhs) = Some i"
    using that f(3,4) typed
    by (cases "op = MMul") (auto simp: strength_mul_neg1_def is_const_simps fold_ok_def scalar_result_def operands_typed_def
        bin_result_float c const_word_def dense_eval_unary_def unary_kind_def is_float_def split: if_splits)
qed

lemma fold_ok_case:
  "(\<And>x. m = Some x \<Longrightarrow> fold_ok fa ty env i (f x)) \<Longrightarrow> (m = None \<Longrightarrow> fold_ok fa ty env i g) \<Longrightarrow>
     fold_ok fa ty env i (case m of None \<Rightarrow> g | Some x \<Rightarrow> f x)"
  by (cases m) auto

lemma fold_ok_if:
  "(c \<Longrightarrow> fold_ok fa ty env i f) \<Longrightarrow> (\<not> c \<Longrightarrow> fold_ok fa ty env i g) \<Longrightarrow> fold_ok fa ty env i (if c then f else g)"
  by simp

lemma fold_bin_sound:
  assumes "ieee fa" and "facts_hold ty env fs" and "operands_typed ty (Bin d op t lhs rhs)"
  shows "fold_ok fa ty env (Bin d op t lhs rhs) (fold_bin fa op t lhs rhs (cf_consts fs) (cf_finite fs)
    (cf_nonzero fs) (cf_neg_of fs) strength (Bin d op t lhs rhs))"
proof -
  have c: "env v = const_word c" if "cf_consts fs v = Some c" for v c
    using assms(2) that by (auto simp: facts_hold_def)
  have "fold_ok fa ty env (Bin d op t lhs rhs) (ToConst k)"
    if "bin_result fa op t (env lhs) (env rhs) = Some (Ok (const_word k))" for k
    using that by (simp add: fold_ok_def scalar_result_def)
  moreover have "bin_result fa op t (env lhs) (env rhs) = Some (Ok (const_word k))"
    if "cf_consts fs lhs = Some a" "cf_consts fs rhs = Some b" "eval_bin fa op t a b = Some k" for a b k
    using eval_bin_sound[OF that(3)] c[OF that(1)] c[OF that(2)] by simp
  moreover have "bin_result fa op t (env lhs) (env rhs) = Some (Ok (const_word k))"
    if "zeroing op t lhs rhs (cf_consts fs lhs) (cf_consts fs rhs) = Some k" for k
    using zeroing_sound[OF that] c by auto
  moreover have "fold_ok fa ty env (Bin d op t lhs rhs) NoFold"
    by (simp add: fold_ok_def)
  moreover have "fold_ok fa ty env (Bin d op t lhs rhs) (ToConst k)"
    if "(case (cf_consts fs lhs, cf_consts fs rhs) of (Some a, Some b) \<Rightarrow> eval_bin fa op t a b | _ \<Rightarrow> None) = Some k" for k
    using that calculation(1,2) by (auto split: option.splits)
  ultimately show ?thesis
    unfolding fold_bin_def Let_def
    using identity_sound[OF assms(1,2)] finite_fold_sound[OF assms(1,2)] strength_sound[OF assms]
    by (intro fold_ok_case fold_ok_if) blast+
qed

lemma neg_sound:
  assumes "facts_hold ty env fs"
  shows "fold_ok fa ty env (Unary d op src)
    (fold_inst fa (cf_consts fs) (cf_finite fs) (cf_nonzero fs) (cf_neg_of fs) strength (Unary d op src))"
proof (cases op)
  case MNeg
  have "dense_eval_unary (unary_kind MNeg (ty src)) (env src) = Ok (env inner)" if "cf_neg_of fs src = Some inner" for inner
    using assms that by (auto simp: facts_hold_def dense_eval_unary_def unary_kind_def)
  moreover have "dense_eval_unary (unary_kind MNeg (ty src)) (env src) = Ok (const_word n)"
    if "cf_consts fs src = Some c" "eval_neg c = Some n" for c n
    using assms that eval_neg_sound[OF that(2)] by (auto simp: facts_hold_def)
  ultimately show ?thesis
    using MNeg by (auto simp: fold_inst_def fold_ok_def to_fold_def scalar_result_def bind_eq_Some_conv
        split: option.split)
next
  case MNot
  have "env src = from_bool b" if "cf_consts fs src = Some (CBool b)" for b
    using assms that by (auto simp: facts_hold_def const_word_def)
  then show ?thesis
    using MNot by (auto simp: fold_inst_def fold_ok_def scalar_result_def dense_eval_unary_def unary_kind_def
        const_word_def from_bool_def as_int_def same_word_def split: option.split mir_const.split)
qed

lemma cmp_sound:
  assumes "facts_hold ty env fs"
  shows "fold_ok fa ty env (Cmp d op t lhs rhs)
    (fold_inst fa (cf_consts fs) (cf_finite fs) (cf_nonzero fs) (cf_neg_of fs) strength (Cmp d op t lhs rhs))"
proof -
  have "cmp_result op t (env lhs) (env rhs) = Some (const_word (CBool r))"
    if "cf_consts fs lhs = Some a" "cf_consts fs rhs = Some b" "eval_cmp op t a b = Some r" for a b r
    using assms that eval_cmp_sound[OF that(3)] by (auto simp: facts_hold_def const_word_def)
  then show ?thesis
    by (auto simp: fold_inst_def fold_ok_def to_fold_def scalar_result_def split: option.split)
qed

lemma cast_sound:
  assumes "facts_hold ty env fs"
  shows "fold_ok fa ty env (Cast d kind to src)
    (fold_inst fa (cf_consts fs) (cf_finite fs) (cf_nonzero fs) (cf_neg_of fs) strength (Cast d kind to src))"
proof -
  have "env src = const_word c" if "cf_consts fs src = Some c" for c
    using assms that by (auto simp: facts_hold_def)
  then have "scalar_result fa ty env (Cast d kind to src) = Some (Ok (const_word n))"
    if "Option.bind (cf_consts fs src) (eval_cast fa kind to) = Some n" for n
    using that by (auto simp: bind_eq_Some_conv scalar_result_def eval_cast_def const_word_def from_int_def
        as_int_def dense_eval_cast_def split: mir_cast_kind.splits mir_ty.splits mir_const.splits)
  then show ?thesis
    by (auto simp: fold_inst_def fold_ok_def to_fold_def split: option.split)
qed

text \<open>C17: folding one instruction. Under IEEE arithmetic, and with constants, finite values, non-zero
  values and negations as the analyses report them, replacing an instruction by the constant, operand or
  cheaper instruction that \<open>fold_inst\<close> chooses leaves the same word (the same NaN class) in its
  destination, and the same trap where it traps. The one exception is a float added to positive zero:
  replaced by the float, it keeps the sign of a negative zero where the addition gives positive zero.\<close>

theorem fold_inst_sound:
  assumes "ieee fa" and "facts_hold ty env fs" and "operands_typed ty inst"
  shows "fold_ok fa ty env inst
    (fold_inst fa (cf_consts fs) (cf_finite fs) (cf_nonzero fs) (cf_neg_of fs) strength inst)"
proof -
  consider d op t lhs rhs where "inst = Bin d op t lhs rhs" | d op t lhs rhs where "inst = Cmp d op t lhs rhs"
    | d op src where "inst = Unary d op src" | d kind to src where "inst = Cast d kind to src"
    | "fold_inst fa (cf_consts fs) (cf_finite fs) (cf_nonzero fs) (cf_neg_of fs) strength inst = NoFold"
    by (cases inst) (auto simp: fold_inst_def)
  then show ?thesis
  proof cases
    case 1
    then show ?thesis
      using fold_bin_sound[OF assms(1,2)] assms(3) by (simp add: fold_inst_def)
  next
    case 2
    then show ?thesis using cmp_sound[OF assms(2)] by simp
  next
    case 3
    then show ?thesis using neg_sound[OF assms(2)] by simp
  next
    case 4
    then show ?thesis using cast_sound[OF assms(2)] by simp
  next
    case 5
    then show ?thesis by (simp add: fold_ok_def)
  qed
qed

text \<open>An arithmetic that has the properties \<open>ieee\<close> asks for, to evaluate at.\<close>

definition sample_nan :: u64 where
  "sample_nan = 0x7FF8000000000000"

definition sample_add :: "u64 \<Rightarrow> u64 \<Rightarrow> u64" where
  "sample_add x y =
     (if f64_is_nan x \<or> f64_is_nan y then sample_nan
      else if y = 0 then (if x = F64_MINUS_ZERO then 0 else x)
      else if x = 0 then (if y = F64_MINUS_ZERO then 0 else y)
      else if y = f64_neg x then 0
      else if x = F64_PLUS_ONE \<and> y = F64_PLUS_ONE then F64_PLUS_TWO
      else if x = F64_MINUS_ONE \<and> y = F64_MINUS_ONE then f64_neg F64_PLUS_TWO
      else 0)"

definition sample_mul :: "u64 \<Rightarrow> u64 \<Rightarrow> u64" where
  "sample_mul x y =
     (if f64_is_nan x \<or> f64_is_nan y then sample_nan
      else if y = F64_PLUS_ONE then x else if x = F64_PLUS_ONE then y
      else if y = F64_MINUS_ONE then f64_neg x else if x = F64_MINUS_ONE then f64_neg y
      else if y = F64_PLUS_TWO then sample_add x x else if x = F64_PLUS_TWO then sample_add y y
      else 0)"

definition sample_div :: "u64 \<Rightarrow> u64 \<Rightarrow> u64" where
  "sample_div x y =
     (if f64_is_nan x \<or> f64_is_nan y then sample_nan
      else if y = F64_PLUS_ONE then x else if x = y then F64_PLUS_ONE else 0)"

definition sample_float :: float_arith where
  "sample_float = \<lparr>f64_add = sample_add, f64_sub = \<lambda>_ _. 0, f64_mul = sample_mul, f64_div = sample_div,
     f64_rem = \<lambda>_ _. 0, f64_powf = \<lambda>_ _. 0, f32_add = \<lambda>_ _. 0, f32_sub = \<lambda>_ _. 0, f32_mul = \<lambda>_ _. 0,
     f32_div = \<lambda>_ _. 0, f32_rem = \<lambda>_ _. 0, i64_to_f64 = \<lambda>_. 0, f64_to_i64 = \<lambda>_. 0\<rparr>"

lemma sample_constants:
  "f64_is_nan sample_nan" "\<not> f64_is_nan 0" "\<not> f64_is_nan F64_MINUS_ZERO" "\<not> f64_is_nan F64_PLUS_ONE"
  "\<not> f64_is_nan F64_PLUS_TWO" "\<not> f64_is_nan F64_MINUS_ONE"
  "f64_neg F64_PLUS_ONE = F64_MINUS_ONE" "f64_neg F64_MINUS_ONE = F64_PLUS_ONE" "f64_neg 0 = F64_MINUS_ZERO"
  "f64_neg F64_MINUS_ZERO = 0"
  by (simp_all add: f64_is_nan_def f64_neg_def sample_nan_def)

lemma finite_not_nan: "f64_is_finite x \<Longrightarrow> \<not> f64_is_nan x"
  by (simp add: f64_is_finite_def f64_is_nan_def)

lemma f64_neg_ne: "f64_neg x \<noteq> x"
proof
  assume "f64_neg x = x"
  then have "bit (x XOR push_bit 63 1) 63 = bit x 63" by (simp add: f64_neg_def)
  then show False by (simp add: bit_xor_iff bit_push_bit_iff)
qed

lemma f64_neg_zero: "f64_neg x = 0 \<longleftrightarrow> x = F64_MINUS_ZERO" "f64_neg x = F64_MINUS_ZERO \<longleftrightarrow> x = 0"
  by (metis f64_neg_neg sample_constants(9,10))+

lemma sample_add_facts:
  assumes "\<not> f64_is_nan x"
  shows "x \<noteq> F64_MINUS_ZERO \<Longrightarrow> sample_add x 0 = x" "x \<noteq> F64_MINUS_ZERO \<Longrightarrow> sample_add 0 x = x"
    "sample_add x (f64_neg x) = 0" "sample_add (f64_neg x) x = 0"
proof -
  show "sample_add x (f64_neg x) = 0"
    using assms by (cases "x = 0 \<or> x = F64_MINUS_ZERO") (auto simp: sample_add_def sample_constants f64_neg_zero)
  show "sample_add (f64_neg x) x = 0"
    using assms by (cases "x = 0 \<or> x = F64_MINUS_ZERO") (auto simp: sample_add_def sample_constants f64_neg_zero)
qed (use assms in \<open>simp_all add: sample_add_def sample_constants\<close>)

lemma sample_add_ones:
  "sample_add F64_PLUS_ONE F64_PLUS_ONE = F64_PLUS_TWO" "sample_add F64_MINUS_ONE F64_MINUS_ONE = f64_neg F64_PLUS_TWO"
  by (simp_all add: sample_add_def sample_constants)

lemma sample_mul_facts:
  assumes "\<not> f64_is_nan x"
  shows "sample_mul x F64_PLUS_ONE = x" "sample_mul F64_PLUS_ONE x = x"
    "sample_mul x F64_MINUS_ONE = f64_neg x" "sample_mul F64_MINUS_ONE x = f64_neg x"
    "sample_mul x F64_PLUS_TWO = sample_add x x" "sample_mul F64_PLUS_TWO x = sample_add x x"
  using assms by (auto simp: sample_mul_def sample_constants sample_add_ones)

lemma sample_nan_facts:
  "f64_is_nan x \<or> f64_is_nan y \<Longrightarrow> sample_add x y = sample_nan \<and> sample_mul x y = sample_nan \<and> sample_div x y = sample_nan"
  by (simp add: sample_add_def sample_mul_def sample_div_def)

lemma sample_float_ieee: "ieee sample_float"
  unfolding ieee_def
  by (intro conjI allI impI)
    (simp_all add: sample_float_def sample_add_facts sample_mul_facts sample_nan_facts sample_constants sample_div_def
      finite_not_nan, simp_all add: sample_add_def sample_constants)

theorem fold_inst_sound_witness:
  "fold_inst sample_float [1 \<mapsto> CI64 2] {} {} Map.empty True (Bin 2 MMul TI64 0 1) = Rewrite (Bin 2 MAdd TI64 0 0)
   \<and> fold_ok sample_float (\<lambda>_. TI64) (\<lambda>v. if v = 1 then 2 else 21) (Bin 2 MMul TI64 0 1) (Rewrite (Bin 2 MAdd TI64 0 0))"
proof -
  let ?fs = "\<lparr>cf_consts = [1 \<mapsto> CI64 2], cf_finite = {}, cf_nonzero = {}, cf_neg_of = Map.empty\<rparr>"
  have r: "fold_inst sample_float [1 \<mapsto> CI64 2] {} {} Map.empty True (Bin 2 MMul TI64 0 1) = Rewrite (Bin 2 MAdd TI64 0 0)"
    by (simp add: fold_inst_def fold_bin_def identity_def zeroing_def finite_fold_def strength_mul2_def is_const_simps
        is_int_def is_float_def)
  have "facts_hold (\<lambda>_. TI64) (\<lambda>v. if v = 1 then 2 else 21) ?fs"
    by (auto simp: facts_hold_def const_word_def from_int_def mir_const_ty_def split: if_splits)
  then show ?thesis
    using fold_inst_sound[OF sample_float_ieee, of "\<lambda>_. TI64" _ ?fs "Bin 2 MMul TI64 0 1" True] r
    by (simp add: operands_typed_def)
qed

text \<open>The sign of zero, the one exception above. Wherever one operand of a float addition is known to be \<open>0.0\<close> and the other, \<open>x\<close>, is not a known
  constant, the addition is replaced by \<open>x\<close>, on either side and whatever else the analyses report. The word the VM would have
  computed is kept exactly when \<open>x\<close> is not negative zero at run time; for negative zero the sum is positive zero.\<close>

lemma fold_add_zero_changes_sign:
  assumes "ieee fa" and "facts_hold ty env fs" and "cf_consts fs z = Some (CF64 0)" and "cf_consts fs x = None"
    and "inst = Bin d MAdd TF64 x z \<or> inst = Bin d MAdd TF64 z x"
  shows "fold_inst fa (cf_consts fs) (cf_finite fs) (cf_nonzero fs) (cf_neg_of fs) strength inst = Subst x
    \<and> (same_outcome (scalar_result fa ty env inst) (Some (Ok (env x))) \<longleftrightarrow> env x \<noteq> F64_MINUS_ZERO)"
proof -
  have z: "env z = 0"
    using assms(2,3) by (auto simp: facts_hold_def const_word_def)
  have "same_word (f64_add fa (env x) 0) (env x) \<longleftrightarrow> env x \<noteq> F64_MINUS_ZERO" "same_word (f64_add fa 0 (env x)) (env x) \<longleftrightarrow> env x \<noteq> F64_MINUS_ZERO"
    using assms(1) by (auto simp: ieee_def same_word_def sample_constants)
  moreover have "fold_inst fa (cf_consts fs) (cf_finite fs) (cf_nonzero fs) (cf_neg_of fs) strength inst = Subst x"
    using assms(3-5) by (auto simp: fold_inst_def fold_bin_def identity_def is_const_simps)
  ultimately show ?thesis
    using assms(5) z by (auto simp: scalar_result_def bin_result_float)
qed

section \<open>Constants for the propagation pass\<close>

text \<open>\<open>const_of\<close> folds only what is exact for any arithmetic.\<close>

lemma const_of_sound:
  assumes cs: "\<And>v c. cmap v = Some c \<Longrightarrow> env v = const_word c \<and> ty v = mir_const_ty c"
    and c: "const_of fa inst cmap = Some c"
  shows "scalar_result fa ty env inst = Some (Ok (const_word c))"
proof (cases inst)
  case (Bin d op t lhs rhs)
  then have f: "fold_bin fa op t lhs rhs cmap {} {} Map.empty False inst = ToConst c"
    using c by (auto simp: const_of_def fold_inst_def split: fold.splits)
  have fin: "finite_fold op t lhs rhs {} {} Map.empty = None"
    by (simp add: finite_fold_def)
  consider a b where "cmap lhs = Some a" "cmap rhs = Some b" "eval_bin fa op t a b = Some c"
    | "zeroing op t lhs rhs (cmap lhs) (cmap rhs) = Some c"
    using f by (auto simp: fold_bin_def Let_def fin split: option.splits)
  then show ?thesis
  proof cases
    case 1
    then show ?thesis using eval_bin_sound[OF 1(3)] cs Bin by (simp add: scalar_result_def)
  next
    case 2
    then show ?thesis
      using zeroing_sound[OF 2, of "env lhs" "env rhs" fa] cs Bin by (auto simp: scalar_result_def)
  qed
next
  case (Cmp d op t lhs rhs)
  then show ?thesis
    using c cs eval_cmp_sound
    by (fastforce simp: const_of_def fold_inst_def to_fold_def scalar_result_def const_word_def[of "CBool _"]
        split: option.splits fold.splits)
next
  case (Unary d op src)
  show ?thesis
  proof (cases op)
    case MNeg
    then obtain k where "cmap src = Some k" "eval_neg k = Some c"
      using c Unary by (auto simp: const_of_def fold_inst_def to_fold_def bind_eq_Some_conv split: option.splits fold.splits)
    then show ?thesis
      using cs[of src] eval_neg_sound Unary MNeg by (auto simp: scalar_result_def)
  next
    case MNot
    then obtain b where "cmap src = Some (CBool b)" "c = CBool (\<not> b)"
      using c Unary by (auto simp: const_of_def fold_inst_def split: option.splits fold.splits mir_const.splits)
    then show ?thesis
      using cs[of src] Unary MNot
      by (auto simp: scalar_result_def dense_eval_unary_def unary_kind_def const_word_def from_bool_def as_int_def)
  qed
next
  case (Cast d kind to src)
  then show ?thesis
    using c cs[of src]
    by (auto simp: const_of_def fold_inst_def to_fold_def scalar_result_def bind_eq_Some_conv eval_cast_def
        const_word_def from_int_def as_int_def dense_eval_cast_def
        split: option.splits fold.splits mir_cast_kind.splits mir_ty.splits mir_const.splits)
qed (use c in \<open>simp_all add: const_of_def fold_inst_def scalar_result_def\<close>)

end
