(* ===== verification/Mir_Func.thy ===== *)
theory Mir_Func
  imports Mir_Inst
begin

text \<open>
  Functions of the mid-level IR and their structural verifier, after
  \<^verbatim>\<open>compiler/src/mir/func.rs\<close> (\<open>MirFunc::verify\<close>, \<open>check_inst\<close>) and the types of host calls of
  \<^verbatim>\<open>compiler/src/mir/host_allow.rs\<close>. A function keeps the fields the verifier and the passes read; the
  table of host natives is an argument. An error is the value or block it names and its message.
\<close>

record mir_block =
  blk_id :: block_id
  blk_insts :: "mir_inst list"
  blk_term :: "terminator option"

record mir_func =
  fn_params :: "value_id list"
  fn_ret_ty :: "mir_ty option"
  fn_ret_hi_ty :: "mir_ty option"
  fn_ret_layout :: mir_layout
  fn_entry :: block_id
  fn_blocks :: "mir_block list"
  fn_types :: "mir_ty list"
  fn_homes :: "mir_ty list"

datatype mir_error = FuncError string | ValueError value_id string | BlockError block_id string

definition mir_ty_of :: "mir_func \<Rightarrow> value_id \<Rightarrow> mir_ty" where
  "mir_ty_of f v = (case get (fn_types f) v of Some t \<Rightarrow> t | None \<Rightarrow> TBottom)"

primrec rfold :: "('s \<Rightarrow> 'a \<Rightarrow> ('e, 's) result) \<Rightarrow> 's \<Rightarrow> 'a list \<Rightarrow> ('e, 's) result" where
  "rfold g s [] = Ok s"
| "rfold g s (x # xs) = rbind (g s x) (\<lambda>s'. rfold g s' xs)"

section \<open>Predecessors\<close>

definition preds_of :: "mir_func \<Rightarrow> block_id \<Rightarrow> block_id list" where
  "preds_of f b = map blk_id (filter (\<lambda>bl. case blk_term bl of Some t \<Rightarrow> term_targets t b | None \<Rightarrow> False) (fn_blocks f))"

text \<open>One pass over the blocks, pushing each block on the list of every successor in range.\<close>

definition mir_preds :: "mir_func \<Rightarrow> block_id list list" where
  "mir_preds f =
     foldl (\<lambda>ps bl. case blk_term bl of
         None \<Rightarrow> ps
       | Some t \<Rightarrow> foldl (\<lambda>ps s. if s < length ps then ps[s := ps ! s @ [blk_id bl]] else ps) ps (term_succs t))
       (replicate (length (fn_blocks f)) []) (fn_blocks f)"

section \<open>Host calls\<close>

record host_native =
  hn_name :: string
  hn_arity :: nat
  hn_id :: u16

record host_spec_t =
  hs_args :: "mir_ty list"
  hs_ret :: mir_ty

definition i64_args :: "nat \<Rightarrow> mir_ty list option" where
  "i64_args arity = (if arity \<le> 6 then Some (replicate arity TI64) else None)"

definition host_spec :: "host_native list \<Rightarrow> u16 \<Rightarrow> host_spec_t option" where
  "host_spec natives nid =
     Option.bind
       (if 102 \<le> nid \<and> nid \<le> 110 \<or> 125 \<le> nid \<and> nid \<le> 135 then
          Option.bind (get natives (unat nid)) (\<lambda>n.
            if hn_arity n = 1 then Some ([TF64], TF64)
            else if hn_arity n = 2 then Some ([TF64, TF64], TF64) else None)
        else if nid = 136 then Some ([TI64, TF64, TF64, TF64, TF64], TF64)
        else if nid = 87 then Some ([TI64, TI64, TI64], TF64)
        else if nid = 88 \<or> nid = 89 \<or> nid = 91 then Some ([TI64, TI64, TI64], TI64)
        else if nid = 90 then Some ([TI64, TI64], TI64)
        else None)
       (\<lambda>(args, ret). Option.bind (get natives (unat nid)) (\<lambda>_. Some \<lparr>hs_args = args, hs_ret = ret\<rparr>))"

definition embedder_native :: "host_native list \<Rightarrow> u16 \<Rightarrow> bool" where
  "embedder_native natives nid \<longleftrightarrow> length natives \<le> unat nid"

definition host_edge_spec :: "host_native list \<Rightarrow> u16 \<Rightarrow> host_spec_t option" where
  "host_edge_spec natives nid = (case host_spec natives nid of
     Some spec \<Rightarrow> Some spec
   | None \<Rightarrow>
       if embedder_native natives nid then Some \<lparr>hs_args = [], hs_ret = TI64\<rparr>
       else Option.bind (get natives (unat nid)) (\<lambda>n.
         if hn_id n \<noteq> nid then None
         else map_option (\<lambda>args. \<lparr>hs_args = args, hs_ret = TI64\<rparr>) (i64_args (hn_arity n))))"

definition host_variadic :: "host_native list \<Rightarrow> u16 \<Rightarrow> bool" where
  "host_variadic natives nid \<longleftrightarrow> embedder_native natives nid
     \<or> (case get natives (unat nid) of
          Some n \<Rightarrow> hn_name n \<in> {''thread_spawn'', ''thread_spawn_shared''} | None \<Rightarrow> False)"

definition host_arity_ok :: "host_native list \<Rightarrow> u16 \<Rightarrow> nat \<Rightarrow> nat \<Rightarrow> bool" where
  "host_arity_ok natives nid declared n \<longleftrightarrow>
     n = declared \<or> host_variadic natives nid \<and> declared < n \<or> nid = 91 \<and> n = 2"

definition packed_la :: "u16 \<Rightarrow> bool" where
  "packed_la nid \<longleftrightarrow> 87 \<le> nid \<and> nid \<le> 91"

definition host_arg_ok :: "host_native list \<Rightarrow> u16 \<Rightarrow> mir_ty \<Rightarrow> mir_ty \<Rightarrow> bool" where
  "host_arg_ok natives nid expected actual \<longleftrightarrow>
     actual = expected
     \<or> (host_spec natives nid = None \<or> packed_la nid) \<and> expected = TI64 \<and> is_heap_word actual
     \<or> host_spec natives nid = None \<and> expected = TI64 \<and> actual = TBool
     \<or> (packed_la nid \<or> embedder_native natives nid) \<and> expected = TI64 \<and> actual = TF64
     \<or> nid = 163 \<and> expected = TI64 \<and> actual = TF64"

definition host_result_ok :: "host_native list \<Rightarrow> u16 \<Rightarrow> mir_ty \<Rightarrow> mir_ty \<Rightarrow> bool" where
  "host_result_ok natives nid expected actual \<longleftrightarrow>
     host_arg_ok natives nid expected actual \<or> packed_la nid \<and> actual \<in> {TI64, TF64, THeapRef}"

section \<open>One instruction\<close>

definition check_bin :: "mir_func \<Rightarrow> value_id \<Rightarrow> mir_bin_op \<Rightarrow> mir_ty \<Rightarrow> value_id \<Rightarrow> value_id \<Rightarrow> (mir_error, unit) result" where
  "check_bin f d op ty lhs rhs =
     (let lt = mir_ty_of f lhs; rt = mir_ty_of f rhs;
          heap_bit = ((is_heap_word ty \<or> is_heap_word lt \<or> is_heap_word rt) \<and> op \<in> {MBitAnd, MBitOr, MXor}) in
      rbind
        (if heap_bit then
           (let ok = (\<lambda>t. is_heap_word t \<or> t = TI64) in
            if \<not> ok lt \<or> \<not> ok rt then Err (ValueError d ''heap bitwise operand type'') else Ok ())
         else if ty = TBool then
           (let logic = (op \<in> {MBitAnd, MBitOr}) in
            if \<not> logic \<or> lt \<noteq> TBool \<or> rt \<noteq> TBool then Err (ValueError d ''binop on type'') else Ok ())
         else if \<not> is_numeric ty then Err (ValueError d ''binop on type'')
         else if requires_int op \<and> \<not> is_int ty then Err (ValueError d ''bitwise on type'')
         else if \<not> bin_takes op ty then Err (ValueError d ''pow on type'')
         else if lt \<noteq> ty \<or> rt \<noteq> ty then Err (ValueError d ''binop operand type'')
         else Ok ())
        (\<lambda>_. if mir_ty_of f d \<noteq> ty then Err (ValueError d ''binop dest type'') else Ok ()))"

definition check_cmp :: "mir_func \<Rightarrow> value_id \<Rightarrow> mir_ty \<Rightarrow> value_id \<Rightarrow> value_id \<Rightarrow> (mir_error, unit) result" where
  "check_cmp f d ty lhs rhs =
     (let lt = mir_ty_of f lhs; rt = mir_ty_of f rhs in
      rbind
        (if is_heap_word ty then
           (let ok = (\<lambda>t. is_heap_word t \<or> t = TI64) in
            if \<not> ok lt \<or> \<not> ok rt then Err (ValueError d ''heap cmp operand type'') else Ok ())
         else if \<not> is_numeric ty \<or> ty = TBool then Err (ValueError d ''cmp on type'')
         else if lt \<noteq> ty \<or> rt \<noteq> ty then Err (ValueError d ''cmp operand type'')
         else Ok ())
        (\<lambda>_. if mir_ty_of f d \<noteq> TBool then Err (ValueError d ''cmp dest is not bool'') else Ok ()))"

definition check_unary :: "mir_func \<Rightarrow> value_id \<Rightarrow> mir_unary_op \<Rightarrow> value_id \<Rightarrow> (mir_error, unit) result" where
  "check_unary f d op src = (let t = mir_ty_of f src in
     case op of
       MNot \<Rightarrow> if mir_ty_of f d \<noteq> TBool then Err (ValueError d ''lnot dest is not bool'')
         else if t \<noteq> TBool \<and> \<not> is_int t \<and> \<not> is_heap_word t then Err (ValueError d ''lnot on type'') else Ok ()
     | MNeg \<Rightarrow> if \<not> is_int t \<and> \<not> is_float t then Err (ValueError d ''neg on type'')
         else if mir_ty_of f d \<noteq> t then Err (ValueError d ''neg dest type'') else Ok ())"

definition check_cast :: "mir_func \<Rightarrow> value_id \<Rightarrow> mir_cast_kind \<Rightarrow> mir_ty \<Rightarrow> value_id \<Rightarrow> (mir_error, unit) result" where
  "check_cast f d kind to src =
     (if \<not> cast_allows kind (mir_ty_of f src) to \<or> mir_ty_of f d \<noteq> to
      then Err (ValueError d ''illegal cast'') else Ok ())"

definition check_phi :: "mir_func \<Rightarrow> block_id list \<Rightarrow> value_id \<Rightarrow> mir_ty \<Rightarrow> (block_id \<times> value_id) list
    \<Rightarrow> (mir_error, unit) result" where
  "check_phi f preds d ty args =
     (if mir_ty_of f d \<noteq> ty then Err (ValueError d ''phi type'')
      else if \<not> is_specialized ty then Err (ValueError d ''phi is not specialized'')
      else if sort (map fst args) \<noteq> sort preds then Err (ValueError d ''phi preds'')
      else if list_ex (\<lambda>(_, v). mir_ty_of f v \<noteq> ty) args then Err (ValueError d ''phi arg type'')
      else Ok ())"

definition check_host :: "host_native list \<Rightarrow> mir_func \<Rightarrow> value_id \<Rightarrow> u16 \<Rightarrow> value_id list \<Rightarrow> (mir_error, unit) result" where
  "check_host natives f d native args = (case host_edge_spec natives native of
     None \<Rightarrow> Err (ValueError d ''host not a typed edge'')
   | Some spec \<Rightarrow>
       if \<not> host_arity_ok natives native (length (hs_args spec)) (length args)
         then Err (ValueError d ''host arity'')
       else if list_ex (\<lambda>(a, ty). \<not> host_arg_ok natives native ty (mir_ty_of f a)) (zip args (hs_args spec))
         then Err (ValueError d ''host arg type'')
       else if \<not> host_result_ok natives native (hs_ret spec) (mir_ty_of f d)
         then Err (ValueError d ''host dest type'')
       else Ok ())"

definition need :: "value_id \<Rightarrow> string \<Rightarrow> bool \<Rightarrow> (mir_error, unit) result" where
  "need d msg c = require c (ValueError d msg)"

definition check_call_inst :: "mir_func \<Rightarrow> mir_inst \<Rightarrow> (mir_error, unit) result" where
  "check_call_inst f inst = (let ty = mir_ty_of f in case inst of
     Ffi d _ _ args \<Rightarrow>
       rbind (need d ''ffi dest is not heapref'' (ty d = THeapRef)) (\<lambda>_.
         need d ''ffi arg is not a word lane'' (list_all (\<lambda>a. is_word_lane (ty a)) args))
   | CallIndirect d callee args dicts \<Rightarrow>
       rbind (need d ''CallIndirect dicts exceed args'' (unat dicts \<le> length args)) (\<lambda>_.
       rbind (need d ''CallIndirect dest is not a word lane'' (is_word_lane (ty d))) (\<lambda>_.
       rbind (need d ''CallIndirect callee is not heapref or a code pointer'' (ty callee \<in> {THeapRef, TI64})) (\<lambda>_.
         need d ''CallIndirect arg is not a word lane'' (list_all (\<lambda>a. is_word_lane (ty a)) args))))
   | Call d hi _ args \<Rightarrow>
       rbind (need d ''call dest is not a word lane'' (is_word_lane (ty d))) (\<lambda>_.
       rbind (case hi of None \<Rightarrow> Ok () | Some h \<Rightarrow> need h ''call hi dest is not a word lane'' (is_word_lane (ty h))) (\<lambda>_.
         need d ''call arg type'' (list_all (\<lambda>a. is_word_lane (ty a)) args)))
   | _ \<Rightarrow> Ok ())"

definition check_coro_inst :: "mir_func \<Rightarrow> mir_inst \<Rightarrow> (mir_error, unit) result" where
  "check_coro_inst f inst = (let ty = mir_ty_of f in case inst of
     ResumeCoro d handle send \<Rightarrow>
       rbind (need d ''ResumeCoro handle is not heapref'' (ty handle = THeapRef)) (\<lambda>_.
       rbind (need d ''ResumeCoro dest type'' (is_word_lane (ty d))) (\<lambda>_.
         case send of None \<Rightarrow> Ok () | Some s \<Rightarrow> need d ''ResumeCoro send type'' (is_word_lane (ty s))))
   | Yield d v from receive \<Rightarrow>
       rbind (need d ''Yield value type'' (is_word_lane (ty v) \<and> (from \<longrightarrow> ty v = THeapRef))) (\<lambda>_.
         need d ''Yield dest type'' (\<not> (from \<and> receive) \<and> (\<not> receive \<longrightarrow> ty d = TBool) \<and> is_word_lane (ty d)))
   | DoneCoro d handle \<Rightarrow>
       rbind (need d ''DoneCoro handle is not heapref'' (ty handle = THeapRef)) (\<lambda>_.
         need d ''DoneCoro dest type'' (ty d = TBool))
   | _ \<Rightarrow> Ok ())"

definition check_index_inst :: "mir_func \<Rightarrow> mir_inst \<Rightarrow> (mir_error, unit) result" where
  "check_index_inst f inst = (let ty = mir_ty_of f in case inst of
     Index d array index _ \<Rightarrow>
       rbind (need d ''Index array is not heapref'' (ty array = THeapRef)) (\<lambda>_.
       rbind (need d ''Index index type'' (is_int (ty index))) (\<lambda>_.
         need d ''Index dest type'' (is_word_lane (ty d))))
   | StoreIndex d array index v _ \<Rightarrow>
       rbind (need d ''StoreIndex array is not heapref'' (ty array = THeapRef)) (\<lambda>_.
       rbind (need d ''StoreIndex index type'' (is_int (ty index))) (\<lambda>_.
         need d ''StoreIndex value type'' (is_word_lane (ty v) \<and> ty d = ty v)))
   | ArrayLen d array \<Rightarrow>
       rbind (need d ''ArrayLen array is not heapref'' (ty array = THeapRef)) (\<lambda>_.
         need d ''ArrayLen dest type'' (ty d = TI64))
   | _ \<Rightarrow> Ok ())"

definition check_heap_inst :: "mir_func \<Rightarrow> mir_inst \<Rightarrow> (mir_error, unit) result" where
  "check_heap_inst f inst = (let ty = mir_ty_of f in case inst of
     LoadStatic d _ \<Rightarrow> need d ''LoadStatic dest type'' (is_word_lane (ty d))
   | HomeLoad d home \<Rightarrow> need d ''HomeLoad type'' (get (fn_homes f) (unat home) = Some (ty d))
   | HomeStore d home v \<Rightarrow>
       rbind (need d ''HomeStore dest is not bool'' (ty d = TBool)) (\<lambda>_.
         let want = (case get (fn_homes f) (unat home) of Some t \<Rightarrow> t | None \<Rightarrow> TBottom) in
         need d ''HomeStore value type'' (is_word_lane (ty v) \<and> is_heap_word (ty v) = is_heap_word want))
   | StoreStatic d _ v \<Rightarrow>
       rbind (need d ''StoreStatic dest is not bool'' (ty d = TBool)) (\<lambda>_.
         need d ''StoreStatic value type'' (is_word_lane (ty v)))
   | PanicStore d ob v _ \<Rightarrow>
       rbind (need d ''PanicStore types'' (ty d = TBool \<and> ty ob = THeapRef)) (\<lambda>_.
         need d ''PanicStore value type'' (is_word_lane (ty v)))
   | ClearWord d v \<Rightarrow>
       rbind (need d ''ClearWord dest is not bool'' (ty d = TBool)) (\<lambda>_.
         need d ''ClearWord value type'' (is_word_lane (ty v)))
   | KeepAlive d v \<Rightarrow>
       rbind (need d ''ClearWord dest is not bool'' (ty d = TBool)) (\<lambda>_.
         need d ''ClearWord value type'' (is_word_lane (ty v)))
   | ArrayPush d array v \<Rightarrow>
       rbind (need d ''ArrayPush array type'' (ty array = THeapRef \<and> ty d = THeapRef)) (\<lambda>_.
         need d ''ArrayPush value type'' (is_word_lane (ty v)))
   | MatchPayload d scrutinee _ \<Rightarrow>
       rbind (need d ''MatchPayload scrutinee type'' (is_specialized (ty scrutinee))) (\<lambda>_.
         need d ''MatchPayload dest type'' (is_specialized (ty d)))
   | HeapFieldLoad d ob _ \<Rightarrow>
       rbind (need d ''HeapFieldLoad object type'' (ty ob = THeapRef)) (\<lambda>_.
         need d ''HeapFieldLoad dest type'' (is_specialized (ty d)))
   | HeapFieldStore d ob v _ \<Rightarrow>
       rbind (need d ''HeapFieldStore object type'' (ty ob = THeapRef)) (\<lambda>_.
       rbind (need d ''HeapFieldStore value type'' (is_specialized (ty v))) (\<lambda>_.
         need d ''HeapFieldStore dest type'' (ty d = ty v)))
   | _ \<Rightarrow> Ok ())"

definition check_loop_inst :: "mir_func \<Rightarrow> mir_inst \<Rightarrow> (mir_error, unit) result" where
  "check_loop_inst f inst = (let ty = mir_ty_of f in case inst of
     ByteScan d from bound _ _ streams scalars _ \<Rightarrow>
       rbind (need d ''byte scan position is not i64'' (list_all (\<lambda>v. ty v = TI64) [d, from, bound])) (\<lambda>_.
         need d ''byte scan operand type''
           (list_all (\<lambda>(a, i). is_heap_word (ty a) \<and> ty i = TI64) streams \<and> list_all (\<lambda>k. ty k = TI64) scalars))
   | VecLoop d pos from to kind \<Rightarrow>
       rbind (need d ''vec loop range is not i64'' (list_all (\<lambda>v. ty v = TI64) ([from, to] @ (case pos of None \<Rightarrow> [] | Some p \<Rightarrow> [p])))) (\<lambda>_.
       rbind (need d ''vec loop dest type''
           (ty d = (case kind of Reduce init _ _ _ _ \<Rightarrow> ty init | Store _ \<Rightarrow> TI64 | Push out _ _ \<Rightarrow> ty out))) (\<lambda>_.
         need d ''vec loop position without an index, or none for one'' ((pos \<noteq> None) = loop_uses_index kind)))
   | _ \<Rightarrow> Ok ())"

definition check_object_inst :: "mir_func \<Rightarrow> mir_inst \<Rightarrow> (mir_error, unit) result" where
  "check_object_inst f inst = (let ty = mir_ty_of f in case inst of
     Alloc d _ elems _ \<Rightarrow>
       rbind (need d ''Alloc dest is not heapref'' (ty d = THeapRef)) (\<lambda>_.
         need d ''Alloc elem type'' (list_all (\<lambda>e. is_specialized (ty e)) elems))
   | GcBarrier d rs \<Rightarrow>
       rbind (need d ''GcBarrier dest is not heapref'' (ty d = THeapRef)) (\<lambda>_.
         need d ''GcBarrier root is not a heap word'' (list_all (\<lambda>r. is_heap_word (ty r)) rs))
   | Deopt d _ _ \<Rightarrow> need d ''Deopt dest is not bool'' (ty d = TBool)
   | StringInst d _ \<Rightarrow> need d ''String dest is not heapref'' (ty d = THeapRef)
   | CodePtr d _ \<Rightarrow> need d ''CodePtr dest is not i64'' (ty d = TI64)
   | FreeEarly d v _ \<Rightarrow>
       rbind (need d ''FreeEarly dest is not bool'' (ty d = TBool)) (\<lambda>_.
         need d ''FreeEarly value type'' (ty v \<in> {THeapRef, TNicheOpt, TNicheRes, TI64}))
   | Print d src \<Rightarrow>
       rbind (need d ''Print dest is not bool'' (ty d = TBool)) (\<lambda>_.
         need d ''Print src type'' (is_specialized (ty src)))
   | PanicInst d msg \<Rightarrow>
       rbind (need d ''Panic dest is not bool'' (ty d = TBool)) (\<lambda>_.
         need d ''Panic msg is not heapref'' (ty msg = THeapRef))
   | Format d fmt args \<Rightarrow>
       rbind (need d ''Format dest is not heapref'' (ty d = THeapRef)) (\<lambda>_.
       rbind (need d ''Format fmt type'' (ty fmt = THeapRef \<or> ty fmt = TValue)) (\<lambda>_.
         need d ''Format arg type'' (list_all (\<lambda>a. is_specialized (ty a)) args)))
   | Cow d src _ _ \<Rightarrow> need d ''Cow type'' (ty d = THeapRef \<and> ty src = THeapRef)
   | Stringify d src _ \<Rightarrow>
       rbind (need d ''Stringify dest is not heapref'' (ty d = THeapRef)) (\<lambda>_.
         need d ''Stringify src type'' (is_specialized (ty src)))
   | StrEq d lhs rhs _ \<Rightarrow>
       rbind (need d ''StrEq dest is not bool'' (ty d = TBool)) (\<lambda>_.
         need d ''StrEq operand type'' (ty lhs = THeapRef \<and> ty rhs = THeapRef))
   | _ \<Rightarrow> Ok ())"

definition check_inst :: "host_native list \<Rightarrow> mir_func \<Rightarrow> block_id list \<Rightarrow> mir_inst \<Rightarrow> (mir_error, unit) result" where
  "check_inst natives f preds inst = (case inst of
     Const d c \<Rightarrow> need d ''const type mismatch'' (mir_ty_of f d = mir_const_ty c)
   | Bin d op ty lhs rhs \<Rightarrow> check_bin f d op ty lhs rhs
   | Cmp d _ ty lhs rhs \<Rightarrow> check_cmp f d ty lhs rhs
   | Unary d op src \<Rightarrow> check_unary f d op src
   | Cast d kind to src \<Rightarrow> check_cast f d kind to src
   | Phi d ty args \<Rightarrow> check_phi f preds d ty args
   | HostInvoke d native _ args \<Rightarrow> check_host natives f d native args
   | _ \<Rightarrow> rbind (check_loop_inst f inst) (\<lambda>_. rbind (check_call_inst f inst) (\<lambda>_. rbind (check_index_inst f inst) (\<lambda>_.
       rbind (check_coro_inst f inst) (\<lambda>_. rbind (check_heap_inst f inst) (\<lambda>_. check_object_inst f inst))))))"

section \<open>The verifier\<close>

record ssa_state =
  ssa_defined :: "bool list"
  ssa_seen :: "bool list"

definition define_dest :: "mir_func \<Rightarrow> ssa_state \<Rightarrow> value_id \<Rightarrow> (mir_error, ssa_state) result" where
  "define_dest f s d =
     (if length (fn_types f) \<le> d then Err (ValueError d ''dest has no type'')
      else if ssa_seen s ! d then Err (ValueError d ''value defined twice'')
      else Ok \<lparr>ssa_defined = (ssa_defined s)[d := True], ssa_seen = (ssa_seen s)[d := True]\<rparr>)"

definition check_operand :: "mir_func \<Rightarrow> ssa_state \<Rightarrow> mir_inst \<Rightarrow> value_id \<Rightarrow> (mir_error, unit) result" where
  "check_operand f s inst v =
     (if length (fn_types f) \<le> v \<or> \<not> ssa_defined s ! v \<and> \<not> is_phi inst then
        (if \<not> is_phi inst then Err (ValueError (inst_dest inst) ''uses undefined value'') else Ok ())
      else Ok ())"

definition verify_inst :: "host_native list \<Rightarrow> mir_func \<Rightarrow> mir_block \<Rightarrow> block_id list \<Rightarrow> bool \<times> ssa_state \<Rightarrow> mir_inst
    \<Rightarrow> (mir_error, bool \<times> ssa_state) result" where
  "verify_inst natives f bl preds = (\<lambda>(saw_non_phi, s) inst.
     rbind (if is_phi inst then (if saw_non_phi then Err (BlockError (blk_id bl) ''phi after non-phi'') else Ok saw_non_phi)
            else Ok True) (\<lambda>saw.
     rbind (rfold (define_dest f) s (inst_dests inst)) (\<lambda>s'.
     rbind (check_inst natives f preds inst) (\<lambda>_.
     rbind (rfold (\<lambda>_ v. check_operand f s' inst v) () (inst_operands inst)) (\<lambda>_. Ok (saw, s'))))))"

definition verify_return :: "mir_func \<Rightarrow> value_id option \<Rightarrow> value_id option \<Rightarrow> (mir_error, unit) result" where
  "verify_return f lo hi =
     (let bad = (\<lambda>v rt. \<not> mir_le (mir_ty_of f v) rt \<and> mir_ty_of f v \<noteq> rt) in
      if hi \<noteq> None \<and> lo = None then Err (FuncError ''two-slot return missing payload word'')
      else rbind (case (lo, fn_ret_ty f) of (Some v, Some rt) \<Rightarrow> if bad v rt then Err (ValueError v ''return type'') else Ok ()
                  | _ \<Rightarrow> Ok ()) (\<lambda>_.
        case hi of None \<Rightarrow> Ok ()
        | Some v \<Rightarrow> if fn_ret_layout f \<noteq> TwoSlot then Err (FuncError ''hi return word requires twoslot layout'')
            else (case fn_ret_hi_ty f of
                Some rt \<Rightarrow> if bad v rt then Err (ValueError v ''return hi type'') else Ok ()
              | None \<Rightarrow> Ok ())))"

definition verify_term :: "mir_func \<Rightarrow> terminator \<Rightarrow> (mir_error, unit) result" where
  "verify_term f t = (case t of
     Br cond _ _ \<Rightarrow> if mir_ty_of f cond \<noteq> TBool then Err (ValueError cond ''br cond type'') else Ok ()
   | JumpIfMatch scrutinee _ payloads _ _ \<Rightarrow>
       if \<not> is_specialized (mir_ty_of f scrutinee) then Err (ValueError scrutinee ''JumpIfMatch scrutinee type'')
       else rfold (\<lambda>_ p. need p ''JumpIfMatch payload type'' (is_specialized (mir_ty_of f p))) () payloads
   | Return lo hi \<Rightarrow> verify_return f lo hi
   | _ \<Rightarrow> Ok ())"

definition verify_block :: "host_native list \<Rightarrow> mir_func \<Rightarrow> ssa_state \<Rightarrow> nat \<times> mir_block \<Rightarrow> (mir_error, ssa_state) result" where
  "verify_block natives f s = (\<lambda>(bi, bl).
     if blk_id bl \<noteq> bi then Err (FuncError ''block id mismatch'')
     else case blk_term bl of
       None \<Rightarrow> Err (BlockError (blk_id bl) ''has no terminator'')
     | Some t \<Rightarrow>
         rbind (rfold (verify_inst natives f bl (mir_preds f ! bi)) (False, s) (blk_insts bl)) (\<lambda>(_, s').
         rbind (verify_term f t) (\<lambda>_.
         rbind (rfold (\<lambda>_ succ. if length (fn_blocks f) \<le> succ then Err (BlockError (blk_id bl) ''jumps to missing block'')
                  else Ok ()) () (term_succs t)) (\<lambda>_. Ok s'))))"

definition verify_param :: "mir_func \<Rightarrow> bool list \<Rightarrow> value_id \<Rightarrow> (mir_error, bool list) result" where
  "verify_param f defined p =
     (if length (fn_types f) \<le> p then Err (ValueError p ''param has no type'')
      else if \<not> is_specialized (mir_ty_of f p) then Err (ValueError p ''param is not a specialized SSA type'')
      else Ok (defined[p := True]))"

definition mir_verify :: "host_native list \<Rightarrow> mir_func \<Rightarrow> (mir_error, unit) result" where
  "mir_verify natives f =
     (if fn_blocks f = [] then Err (FuncError ''function has no blocks'')
      else if length (fn_blocks f) \<le> fn_entry f then Err (FuncError ''entry block out of range'')
      else rbind (rfold (verify_param f) (replicate (length (fn_types f)) False) (fn_params f)) (\<lambda>defined.
        let seen = foldl (\<lambda>s p. s[p := True]) (replicate (length (fn_types f)) False) (fn_params f) in
        rmap (\<lambda>_. ()) (rfold (verify_block natives f) \<lparr>ssa_defined = defined, ssa_seen = seen\<rparr>
          (zip [0..<length (fn_blocks f)] (fn_blocks f)))))"

section \<open>What a verified function is\<close>

definition all_insts :: "mir_func \<Rightarrow> mir_inst list" where
  "all_insts f = concat (map blk_insts (fn_blocks f))"

definition all_dests :: "mir_inst list \<Rightarrow> value_id list" where
  "all_dests is = concat (map inst_dests is)"

definition phis_first :: "mir_inst list \<Rightarrow> bool" where
  "phis_first is = list_all (\<lambda>i. \<not> is_phi i) (dropWhile is_phi is)"

definition term_typed :: "mir_func \<Rightarrow> terminator \<Rightarrow> bool" where
  "term_typed f t = (let fits = (\<lambda>v ret. case ret of Some rt \<Rightarrow> mir_le (mir_ty_of f v) rt | None \<Rightarrow> True) in case t of
     Br cond _ _ \<Rightarrow> mir_ty_of f cond = TBool
   | JumpIfMatch scrutinee _ payloads _ _ \<Rightarrow> list_all (\<lambda>v. is_specialized (mir_ty_of f v)) (scrutinee # payloads)
   | Return (Some v) None \<Rightarrow> fits v (fn_ret_ty f)
   | Return (Some v) (Some w) \<Rightarrow> fits v (fn_ret_ty f) \<and> fits w (fn_ret_hi_ty f) \<and> fn_ret_layout f = TwoSlot
   | Return None (Some w) \<Rightarrow> False
   | _ \<Rightarrow> True)"

definition block_ok :: "host_native list \<Rightarrow> mir_func \<Rightarrow> nat \<Rightarrow> bool" where
  "block_ok natives f b = (let bl = fn_blocks f ! b in
     blk_id bl = b \<and> phis_first (blk_insts bl)
     \<and> list_all (\<lambda>i. check_inst natives f (mir_preds f ! b) i = Ok ()) (blk_insts bl)
     \<and> (case blk_term bl of None \<Rightarrow> False
        | Some t \<Rightarrow> term_typed f t \<and> (\<forall>s \<in> set (term_succs t). s < length (fn_blocks f))))"

text \<open>The dataflow part, instruction by instruction: \<open>D\<close> is what is defined so far.\<close>

primrec ssa_insts :: "mir_func \<Rightarrow> value_id set \<Rightarrow> mir_inst list \<Rightarrow> bool" where
  "ssa_insts f D [] = True"
| "ssa_insts f D (i # is) =
     (distinct (inst_dests i) \<and> set (inst_dests i) \<inter> D = {} \<and> (\<forall>d \<in> set (inst_dests i). d < length (fn_types f))
      \<and> (\<not> is_phi i \<longrightarrow> set (inst_operands i) \<subseteq> D \<union> set (inst_dests i))
      \<and> ssa_insts f (D \<union> set (inst_dests i)) is)"

lemma all_dests_simps [simp]:
  "all_dests [] = []" "all_dests (i # is) = inst_dests i @ all_dests is"
  "all_dests (xs @ ys) = all_dests xs @ all_dests ys"
  by (simp_all add: all_dests_def)

lemma ssa_insts_append [simp]:
  "ssa_insts f D (xs @ ys) \<longleftrightarrow> ssa_insts f D xs \<and> ssa_insts f (D \<union> set (all_dests xs)) ys"
  by (induction xs arbitrary: D) (auto simp: Un_assoc)

lemma ssa_insts_iff:
  "ssa_insts f D is \<longleftrightarrow>
     distinct (all_dests is) \<and> set (all_dests is) \<inter> D = {} \<and> (\<forall>d \<in> set (all_dests is). d < length (fn_types f))
     \<and> (\<forall>k < length is. \<not> is_phi (is ! k) \<longrightarrow>
          set (inst_operands (is ! k)) \<subseteq> D \<union> set (all_dests (take (Suc k) is)))"
proof (induction "is" arbitrary: D)
  case (Cons i js)
  show ?case
    unfolding ssa_insts.simps Cons.IH list.size(4) add_0_right add_Suc_right One_nat_def All_less_Suc2
    by (auto simp: Un_assoc)
qed simp


definition ssa_ok :: "mir_func \<Rightarrow> value_id set \<Rightarrow> ssa_state \<Rightarrow> bool" where
  "ssa_ok f D s \<longleftrightarrow> ssa_defined s = ssa_seen s \<and> length (ssa_seen s) = length (fn_types f)
     \<and> (\<forall>v < length (fn_types f). ssa_seen s ! v \<longleftrightarrow> v \<in> D) \<and> (\<forall>v \<in> D. v < length (fn_types f))"

text \<open>
  A check \<open>answers\<close> a condition: it succeeds, in a state that \<open>Q\<close> describes, exactly when the condition
  holds, and never panics. A loop of checks answers the conjunction of its steps' conditions.
\<close>

definition answers :: "('e, 's) result \<Rightarrow> bool \<Rightarrow> ('s \<Rightarrow> bool) \<Rightarrow> bool" where
  "answers r c Q = (case r of Ok s \<Rightarrow> c \<and> Q s | Err _ \<Rightarrow> \<not> c | Panicked \<Rightarrow> False)"

lemma answers_simps [simp]:
  "answers (Ok s) c Q \<longleftrightarrow> c \<and> Q s" "answers (Err e) c Q \<longleftrightarrow> \<not> c" "answers Panicked c Q \<longleftrightarrow> False"
  by (simp_all add: answers_def)

lemma answers_bind:
  "answers m c Q \<Longrightarrow> (\<And>x. Q x \<Longrightarrow> answers (g x) d R) \<Longrightarrow> answers (rbind m g) (c \<and> d) R"
  by (cases m) (auto simp: answers_def split: result.splits)

lemma answers_bind_Ok: "answers m c Q \<Longrightarrow> (\<And>x. Q x \<Longrightarrow> R (h x)) \<Longrightarrow> answers (rbind m (\<lambda>x. Ok (h x))) c R"
  by (cases m) auto

lemma answers_unless: "(x = y \<Longrightarrow> answers r c Q) \<Longrightarrow> answers (if x \<noteq> y then Err e else r) (x = y \<and> c) Q"
  by auto

lemma answers_mono: "answers r c Q \<Longrightarrow> c = d \<Longrightarrow> (\<And>s. Q s \<Longrightarrow> R s) \<Longrightarrow> answers r d R"
  by (cases r) auto

lemma answers_iff: "answers r c Q \<Longrightarrow> is_ok r \<longleftrightarrow> c"
  by (cases r) auto

locale checked_loop =
  fixes inv :: "'d \<Rightarrow> 's \<Rightarrow> bool" and step :: "'s \<Rightarrow> 'a \<Rightarrow> ('e, 's) result"
    and cond :: "'d \<Rightarrow> 'a \<Rightarrow> bool" and upd :: "'d \<Rightarrow> 'a \<Rightarrow> 'd"
  assumes step: "inv d s \<Longrightarrow> answers (step s x) (cond d x) (inv (upd d x))"
begin

primrec conds :: "'d \<Rightarrow> 'a list \<Rightarrow> bool" where
  "conds d [] = True"
| "conds d (x # xs) = (cond d x \<and> conds (upd d x) xs)"

lemma loop: "inv d s \<Longrightarrow> answers (rfold step s xs) (conds d xs) (inv (foldl upd d xs))"
proof (induction xs arbitrary: d s)
  case (Cons x xs)
  then show ?case
    by (auto intro!: answers_bind[OF step])
qed simp

end

interpretation guard: checked_loop "\<lambda>_ _. True" "\<lambda>_ x. if c x then Ok () else Err (e x)" "\<lambda>_. c" "\<lambda>_ _. ()"
  for c :: "'a \<Rightarrow> bool" and e :: "'a \<Rightarrow> 'e"
  by unfold_locales simp

interpretation dests: checked_loop "ssa_ok f" "define_dest f" "\<lambda>D d. d < length (fn_types f) \<and> d \<notin> D" "\<lambda>D d. insert d D"
  for f :: mir_func
proof
  show "answers (define_dest f s d) (d < length (fn_types f) \<and> d \<notin> D) (ssa_ok f (insert d D))" if "ssa_ok f D s" for D s d
    using that by (cases "d < length (fn_types f)") (auto simp: define_dest_def ssa_ok_def nth_list_update)
qed

lemma guard_conds: "guard.conds c u xs \<longleftrightarrow> list_all c xs"
  by (induction xs) auto

lemma dests_conds: "dests.conds f D ds \<longleftrightarrow>
    distinct ds \<and> set ds \<inter> D = {} \<and> (\<forall>d \<in> set ds. d < length (fn_types f))"
  by (induction ds arbitrary: D) auto

lemma foldl_insert: "foldl (\<lambda>D d. insert d D) D ds = D \<union> set ds"
  by (induction ds arbitrary: D) auto

lemma check_operand_guard:
  "check_operand f s i = (\<lambda>v. if is_phi i \<or> v < length (fn_types f) \<and> ssa_defined s ! v then Ok ()
     else Err (ValueError (inst_dest i) ''uses undefined value''))"
  by (auto simp: check_operand_def not_le)

lemma answers_guard: "answers (rfold (\<lambda>_ x. if c x then Ok () else Err (e x)) () xs) (list_all c xs) (\<lambda>_. True)"
  using guard.loop by (simp add: guard_conds)

lemma answers_no_panic: "r \<noteq> Panicked \<Longrightarrow> answers r (r = Ok ()) (\<lambda>_. True)"
  by (cases r) auto

text \<open>Each check of an instruction answers.\<close>

lemma need_answers: "need d msg c \<noteq> Panicked"
  by (simp add: need_def)

lemma rbind_no_panic: "m \<noteq> Panicked \<Longrightarrow> (\<And>x. g x \<noteq> Panicked) \<Longrightarrow> rbind m g \<noteq> Panicked"
  by (simp add: rbind_Panicked_iff)

lemma check_inst_no_panic: "check_inst natives f preds i \<noteq> Panicked"
proof -
  have "check_loop_inst f i \<noteq> Panicked" "check_call_inst f i \<noteq> Panicked" "check_index_inst f i \<noteq> Panicked"
    "check_coro_inst f i \<noteq> Panicked" "check_heap_inst f i \<noteq> Panicked" "check_object_inst f i \<noteq> Panicked"
    unfolding check_loop_inst_def check_call_inst_def check_index_inst_def check_coro_inst_def check_heap_inst_def
      check_object_inst_def Let_def
    by (simp_all add: rbind_Panicked_iff need_answers split: mir_inst.split option.split)
  note others = rbind_no_panic[OF this(1) rbind_no_panic[OF this(2) rbind_no_panic[OF this(3)
      rbind_no_panic[OF this(4) rbind_no_panic[OF this(5,6)]]]]]
  have "check_bin f d op ty l r \<noteq> Panicked" "check_cmp f d ty l r \<noteq> Panicked" for d op ty l r
    by (auto simp: check_bin_def check_cmp_def Let_def intro!: rbind_no_panic)
  moreover have "check_unary f d uop src \<noteq> Panicked" "check_cast f d kind to src \<noteq> Panicked"
    "check_phi f preds d ty args \<noteq> Panicked" "check_host natives f d native hargs \<noteq> Panicked"
    for d uop src kind to ty args native hargs
    by (auto simp: check_unary_def check_cast_def check_phi_def check_host_def Let_def
        split: mir_unary_op.split option.split)
  ultimately show ?thesis
    unfolding check_inst_def using others by (cases i) (simp_all add: need_answers)
qed

lemma ssa_operands:
  assumes "ssa_ok f D s"
  shows "list_all (\<lambda>v. is_phi i \<or> v < length (fn_types f) \<and> ssa_defined s ! v) vs \<longleftrightarrow> is_phi i \<or> set vs \<subseteq> D"
  using assms by (auto simp: ssa_ok_def list_all_iff)

definition inst_ok :: "host_native list \<Rightarrow> mir_func \<Rightarrow> block_id list \<Rightarrow> bool \<times> value_id set \<Rightarrow> mir_inst \<Rightarrow> bool" where
  "inst_ok natives f preds d i \<longleftrightarrow>
     (fst d \<longrightarrow> \<not> is_phi i) \<and> ssa_insts f (snd d) [i] \<and> check_inst natives f preds i = Ok ()"

lemma verify_inst_answers:
  assumes "ssa_ok f D s"
  shows "answers (verify_inst natives f bl preds (saw, s) i) (inst_ok natives f preds (saw, D) i)
    (\<lambda>st. fst st = (saw \<or> \<not> is_phi i) \<and> ssa_ok f (D \<union> set (inst_dests i)) (snd st))"
proof -
  let ?E = "D \<union> set (inst_dests i)"
  have "answers (verify_inst natives f bl preds (saw, s) i)
      ((saw \<longrightarrow> \<not> is_phi i) \<and> dests.conds f D (inst_dests i) \<and> check_inst natives f preds i = Ok ()
       \<and> (is_phi i \<or> set (inst_operands i) \<subseteq> ?E))
      (\<lambda>st. fst st = (saw \<or> \<not> is_phi i) \<and> ssa_ok f ?E (snd st))"
    unfolding verify_inst_def prod.case
  proof (rule answers_bind[where Q = "\<lambda>b. b = (saw \<or> \<not> is_phi i)"])
    fix b assume b: "b = (saw \<or> \<not> is_phi i)"
    show "answers (rbind (rfold (define_dest f) s (inst_dests i)) (\<lambda>s'. rbind (check_inst natives f preds i) (\<lambda>_.
        rbind (rfold (\<lambda>_ v. check_operand f s' i v) () (inst_operands i)) (\<lambda>_. Ok (b, s')))))
      (dests.conds f D (inst_dests i) \<and> check_inst natives f preds i = Ok ()
        \<and> (is_phi i \<or> set (inst_operands i) \<subseteq> ?E))
      (\<lambda>st. fst st = (saw \<or> \<not> is_phi i) \<and> ssa_ok f ?E (snd st))"
    proof (rule answers_bind[OF dests.loop[OF assms]], rule answers_bind[OF answers_no_panic[OF check_inst_no_panic]])
      fix s' assume s': "ssa_ok f (foldl (\<lambda>D d. insert d D) D (inst_dests i)) s'"
      note ops = answers_guard[of "\<lambda>v. is_phi i \<or> v < length (fn_types f) \<and> ssa_defined s' ! v"
          "\<lambda>_. ValueError (inst_dest i) ''uses undefined value''" "inst_operands i"]
      show "answers (rbind (rfold (\<lambda>_ v. check_operand f s' i v) () (inst_operands i)) (\<lambda>_. Ok (b, s')))
          ((is_phi i \<or> set (inst_operands i) \<subseteq> ?E))
          (\<lambda>st. fst st = (saw \<or> \<not> is_phi i) \<and> ssa_ok f ?E (snd st))"
        using s' ops by (auto intro!: answers_bind_Ok[where Q = "\<lambda>_. True"] simp: check_operand_guard ssa_operands foldl_insert b)
    qed
  qed auto
  then show ?thesis
    by (rule answers_mono) (auto simp: inst_ok_def dests_conds)
qed

interpretation insts: checked_loop "\<lambda>d st. fst st = fst d \<and> ssa_ok f (snd d) (snd st)" "verify_inst natives f bl preds"
  "inst_ok natives f preds" "\<lambda>d i. (fst d \<or> \<not> is_phi i, snd d \<union> set (inst_dests i))"
  for natives :: "host_native list" and f :: mir_func and bl :: mir_block and preds :: "block_id list"
proof
  show "answers (verify_inst natives f bl preds st i) (inst_ok natives f preds d i)
      (\<lambda>st. fst st = fst (fst d \<or> \<not> is_phi i, snd d \<union> set (inst_dests i))
         \<and> ssa_ok f (snd (fst d \<or> \<not> is_phi i, snd d \<union> set (inst_dests i))) (snd st))"
    if "fst st = fst d \<and> ssa_ok f (snd d) (snd st)" for d st i
    using verify_inst_answers[of f "snd d" "snd st" natives bl preds "fst d" i] that by (cases st) simp
qed

lemma insts_conds:
  "insts.conds natives f preds (saw, D) is \<longleftrightarrow>
     (if saw then list_all (\<lambda>i. \<not> is_phi i) is else phis_first is) \<and> ssa_insts f D is
     \<and> list_all (\<lambda>i. check_inst natives f preds i = Ok ()) is"
  by (induction "is" arbitrary: saw D) (auto simp: inst_ok_def phis_first_def)

lemma insts_upd: "foldl (\<lambda>d i. (fst d \<or> \<not> is_phi i, snd d \<union> set (inst_dests i))) (saw, D) is =
   (saw \<or> list_ex (\<lambda>i. \<not> is_phi i) is, D \<union> set (all_dests is))"
  by (induction "is" arbitrary: saw D) auto

lemma verify_term_answers: "answers (verify_term f t) (term_typed f t) (\<lambda>_. True)"
proof (cases t)
  case (JumpIfMatch scrutinee tag payloads taken not_taken)
  have "answers (rfold (\<lambda>_ p. need p ''JumpIfMatch payload type'' (is_specialized (mir_ty_of f p))) () payloads)
      (list_all (\<lambda>p. is_specialized (mir_ty_of f p)) payloads) (\<lambda>_. True)"
    using answers_guard[of "\<lambda>p. is_specialized (mir_ty_of f p)" "\<lambda>p. ValueError p ''JumpIfMatch payload type''" payloads]
    by (simp add: need_def require_def)
  then show ?thesis
    by (simp add: JumpIfMatch verify_term_def term_typed_def)
next
  case (Return lo hi)
  have "mir_le a a" for a
    by (rule mir_order.refl)
  then show ?thesis
    by (auto simp: Return verify_term_def term_typed_def verify_return_def Let_def split: option.split)
qed (simp_all add: verify_term_def term_typed_def)

lemma push_pred_simps:
  "length (foldl (\<lambda>ps s. if s < length ps then ps[s := ps ! s @ [x]] else ps) ps ss) = length ps"
  "b < length ps \<Longrightarrow> foldl (\<lambda>ps s. if s < length ps then ps[s := ps ! s @ [x]] else ps) ps ss ! b =
     ps ! b @ replicate (count_list ss b) x"
  by (induction ss arbitrary: ps) (auto simp: nth_list_update replicate_append_same)

lemma mir_preds_length: "length (mir_preds f) = length (fn_blocks f)"
proof -
  have "length (foldl (\<lambda>ps bl. case blk_term bl of None \<Rightarrow> ps | Some t \<Rightarrow>
      foldl (\<lambda>ps s. if s < length ps then ps[s := ps ! s @ [blk_id bl]] else ps) ps (term_succs t)) ps bls) = length ps"
    for bls :: "mir_block list" and ps
    by (induction bls arbitrary: ps) (auto simp: push_pred_simps split: option.split)
  then show ?thesis
    by (simp add: mir_preds_def)
qed

lemma mir_preds_nth:
  assumes "b < length (fn_blocks f)"
  shows "mir_preds f ! b = concat (map (\<lambda>bl. case blk_term bl of None \<Rightarrow> []
      | Some t \<Rightarrow> replicate (count_list (term_succs t) b) (blk_id bl)) (fn_blocks f))"
proof -
  have "foldl (\<lambda>ps bl. case blk_term bl of None \<Rightarrow> ps | Some t \<Rightarrow>
      foldl (\<lambda>ps s. if s < length ps then ps[s := ps ! s @ [blk_id bl]] else ps) ps (term_succs t)) ps bls ! b =
    ps ! b @ concat (map (\<lambda>bl. case blk_term bl of None \<Rightarrow> []
      | Some t \<Rightarrow> replicate (count_list (term_succs t) b) (blk_id bl)) bls)" if "b < length ps"
    for bls :: "mir_block list" and ps
    using that by (induction bls arbitrary: ps) (auto simp: push_pred_simps split: option.split)
  then show ?thesis
    using assms by (simp add: mir_preds_def)
qed

definition block_cond :: "host_native list \<Rightarrow> mir_func \<Rightarrow> value_id set \<Rightarrow> nat \<times> mir_block \<Rightarrow> bool" where
  "block_cond natives f D p = (case p of (b, bl) \<Rightarrow>
     blk_id bl = b \<and> (case blk_term bl of None \<Rightarrow> False
       | Some t \<Rightarrow> (phis_first (blk_insts bl) \<and> ssa_insts f D (blk_insts bl)
            \<and> list_all (\<lambda>i. check_inst natives f (mir_preds f ! b) i = Ok ()) (blk_insts bl))
          \<and> term_typed f t \<and> list_all (\<lambda>s. s < length (fn_blocks f)) (term_succs t)))"

interpretation blocks: checked_loop "ssa_ok f" "verify_block natives f" "block_cond natives f"
  "\<lambda>D p. D \<union> set (all_dests (blk_insts (snd p)))"
  for natives :: "host_native list" and f :: mir_func
proof
  fix D s and p :: "nat \<times> mir_block"
  assume s: "ssa_ok f D s"
  obtain b bl where p: "p = (b, bl)"
    by (cases p)
  show "answers (verify_block natives f s p) (block_cond natives f D p) (ssa_ok f (D \<union> set (all_dests (blk_insts (snd p)))))"
  proof (cases "blk_term bl")
    case (Some t)
    let ?bound = "\<lambda>s. s < length (fn_blocks f)"
    have guards: "(\<lambda>_ succ. if length (fn_blocks f) \<le> succ then Err (BlockError (blk_id bl) ''jumps to missing block'')
        else Ok ()) = (\<lambda>_ succ. if ?bound succ then Ok () else Err (BlockError (blk_id bl) ''jumps to missing block''))"
      by (intro ext) simp
    note succs = answers_guard[of ?bound "\<lambda>_. BlockError (blk_id bl) ''jumps to missing block''" "term_succs t"]
    have insts: "answers (rfold (verify_inst natives f bl (mir_preds f ! b)) (False, s) (blk_insts bl))
      (phis_first (blk_insts bl) \<and> ssa_insts f D (blk_insts bl)
        \<and> list_all (\<lambda>i. check_inst natives f (mir_preds f ! b) i = Ok ()) (blk_insts bl))
      (\<lambda>st. ssa_ok f (D \<union> set (all_dests (blk_insts bl))) (snd st))"
      by (rule answers_mono[OF insts.loop[of "(False, s)" "(False, D)" f natives bl "mir_preds f ! b" "blk_insts bl"]])
        (use s in \<open>simp_all add: insts_conds insts_upd\<close>)
    show ?thesis
      unfolding verify_block_def block_cond_def p prod.case Some option.case guards case_prod_unfold fst_conv snd_conv
      by (intro answers_unless answers_bind[OF insts] answers_bind[OF verify_term_answers] answers_bind_Ok[OF succs])
  qed (simp add: verify_block_def block_cond_def p)
qed

lemma blocks_conds:
  "blocks.conds natives f D ps \<longleftrightarrow>
     list_all (\<lambda>(b, bl). blk_id bl = b \<and> phis_first (blk_insts bl)
       \<and> list_all (\<lambda>i. check_inst natives f (mir_preds f ! b) i = Ok ()) (blk_insts bl)
       \<and> (case blk_term bl of None \<Rightarrow> False
          | Some t \<Rightarrow> term_typed f t \<and> (\<forall>s \<in> set (term_succs t). s < length (fn_blocks f)))) ps
     \<and> ssa_insts f D (concat (map (blk_insts \<circ> snd) ps))"
  by (induction ps arbitrary: D) (auto simp: block_cond_def list_all_iff split: option.splits)

interpretation params: checked_loop
  "\<lambda>D s. length s = length (fn_types f) \<and> (\<forall>v < length s. s ! v \<longleftrightarrow> v \<in> D) \<and> (\<forall>v \<in> D. v < length s)"
  "verify_param f" "\<lambda>_ p. p < length (fn_types f) \<and> is_specialized (mir_ty_of f p)" "\<lambda>D p. insert p D"
  for f :: mir_func
  by unfold_locales (auto simp: verify_param_def nth_list_update)

lemma params_conds: "params.conds f D ps \<longleftrightarrow> (\<forall>p \<in> set ps. p < length (fn_types f) \<and> is_specialized (mir_ty_of f p))"
  by (induction ps arbitrary: D) auto

lemma verify_params_seen:
  "rfold (verify_param f) s ps = Ok s' \<Longrightarrow> s' = foldl (\<lambda>s p. s[p := True]) s ps"
  by (induction ps arbitrary: s) (auto simp: verify_param_def rbind_Ok_iff split: if_splits)

lemma mir_verify_answers:
  "answers (mir_verify natives f)
     (fn_blocks f \<noteq> [] \<and> fn_entry f < length (fn_blocks f)
      \<and> (\<forall>p \<in> set (fn_params f). p < length (fn_types f) \<and> is_specialized (mir_ty_of f p))
      \<and> (\<forall>b < length (fn_blocks f). block_ok natives f b) \<and> ssa_insts f (set (fn_params f)) (all_insts f)) (\<lambda>_. True)"
proof -
  let ?n = "length (fn_types f)" and ?bs = "zip [0..<length (fn_blocks f)] (fn_blocks f)"
  let ?seen = "foldl (\<lambda>s p. s[p := True]) (replicate ?n False) (fn_params f)"
  have params: "answers (rfold (verify_param f) (replicate ?n False) (fn_params f))
      (\<forall>p \<in> set (fn_params f). p < ?n \<and> is_specialized (mir_ty_of f p))
      (\<lambda>s. ssa_ok f (set (fn_params f)) \<lparr>ssa_defined = s, ssa_seen = ?seen\<rparr>)"
    using params.loop[of "replicate ?n False" f "{}" "fn_params f"] verify_params_seen[of f "replicate ?n False" "fn_params f"]
    by (cases "rfold (verify_param f) (replicate ?n False) (fn_params f)") (auto simp: params_conds foldl_insert ssa_ok_def)
  have conds: "blocks.conds natives f D ?bs \<longleftrightarrow> (\<forall>b < length (fn_blocks f). block_ok natives f b) \<and> ssa_insts f D (all_insts f)" for D
    unfolding blocks_conds all_insts_def block_ok_def list_all_length Let_def
    by (simp add: map_map[symmetric] del: map_map)
  have blocks: "answers (rfold (verify_block natives f) s ?bs)
      ((\<forall>b < length (fn_blocks f). block_ok natives f b) \<and> ssa_insts f D (all_insts f)) (\<lambda>_. True)" if "ssa_ok f D s" for D s
    by (rule answers_mono[OF blocks.loop[OF that]]) (simp_all only: conds)
  have rmap: "rmap (\<lambda>_. ()) m = rbind m (\<lambda>_. Ok ())" for m :: "(mir_error, 'a) result"
    by (cases m) auto
  show ?thesis
    unfolding mir_verify_def Let_def rmap
    by (auto intro!: answers_bind[OF params] answers_bind_Ok[OF blocks])
qed

text \<open>C5: the MIR verifier. \<open>MirFunc::verify\<close> never panics, and it accepts a function exactly when the
  function is in SSA form: it has an entry among its blocks; parameters have specialised types; every block
  sits at the index of its id, ends in a well-typed terminator that jumps to existing blocks, starts with
  its phis and has only instructions \<open>check_inst\<close> accepts; no value is defined twice, nor defined over a
  parameter; and each operand of an instruction other than a phi is a parameter or is defined at or before
  that instruction, in the order of the blocks. (An instruction that reads its own result passes: the order
  is checked after its destinations are marked.)\<close>

theorem mir_verify_iff:
  "mir_verify natives f \<noteq> Panicked
   \<and> (is_ok (mir_verify natives f) \<longleftrightarrow>
       fn_entry f < length (fn_blocks f)
       \<and> (\<forall>p \<in> set (fn_params f). p < length (fn_types f) \<and> is_specialized (mir_ty_of f p))
       \<and> (\<forall>b < length (fn_blocks f). block_ok natives f b)
       \<and> distinct (all_dests (all_insts f)) \<and> set (all_dests (all_insts f)) \<inter> set (fn_params f) = {}
       \<and> (\<forall>d \<in> set (all_dests (all_insts f)). d < length (fn_types f))
       \<and> (\<forall>k < length (all_insts f). \<not> is_phi (all_insts f ! k) \<longrightarrow>
            set (inst_operands (all_insts f ! k)) \<subseteq> set (fn_params f) \<union> set (all_dests (take (Suc k) (all_insts f)))))"
  using mir_verify_answers[of natives f] answers_iff[OF mir_verify_answers[of natives f]]
  by (auto simp: ssa_insts_iff answers_def)

text \<open>Predecessor lists. \<open>preds\<close> lists a block once for each edge from it, in the order of the
  blocks, so it has the same blocks as \<open>preds_of\<close>; the two lists are equal when no terminator has both its
  arms on the block asked about.\<close>

theorem preds_agree:
  assumes "b < length (fn_blocks f)"
  shows "length (mir_preds f) = length (fn_blocks f)
    \<and> mir_preds f ! b = concat (map (\<lambda>bl. case blk_term bl of None \<Rightarrow> []
        | Some t \<Rightarrow> replicate (count_list (term_succs t) b) (blk_id bl)) (fn_blocks f))
    \<and> set (mir_preds f ! b) = set (preds_of f b)
    \<and> ((\<forall>bl \<in> set (fn_blocks f). \<forall>t. blk_term bl = Some t \<longrightarrow> count_list (term_succs t) b \<le> 1) \<longrightarrow>
        mir_preds f ! b = preds_of f b)"
proof -
  have once: "concat (map (\<lambda>bl. case blk_term bl of None \<Rightarrow> []
        | Some t \<Rightarrow> replicate (count_list (term_succs t) b) (blk_id bl)) bls) =
      map blk_id (filter (\<lambda>bl. case blk_term bl of Some t \<Rightarrow> term_targets t b | None \<Rightarrow> False) bls)"
    if "\<forall>bl \<in> set bls. \<forall>t. blk_term bl = Some t \<longrightarrow> count_list (term_succs t) b \<le> 1" for bls :: "mir_block list"
    using that
  proof (induction bls)
    case (Cons bl bls)
    have "count_list (term_succs t) b = (if term_targets t b then 1 else 0)" if "blk_term bl = Some t" for t
      using Cons.prems that count_list_0_iff[of "term_succs t" b] by (auto simp: succs_targets le_Suc_eq)
    with Cons show ?case
      by (auto split: option.split)
  qed simp
  have targets: "(case x of None \<Rightarrow> False | Some t \<Rightarrow> term_targets t b) \<longleftrightarrow> (\<exists>t. x = Some t \<and> b \<in> set (term_succs t))" for x
    by (simp add: succs_targets split: option.split)
  have "set (mir_preds f ! b) = set (preds_of f b)"
    unfolding mir_preds_nth[OF assms] preds_of_def set_map set_filter targets
    by (force simp: count_list_0_iff split: option.splits)
  then show ?thesis
    using once[of "fn_blocks f"] by (simp add: mir_preds_length mir_preds_nth[OF assms] preds_of_def)
qed

text \<open>A function that counts its parameter up to ten: a loop with a phi at its header.\<close>

definition sample_count :: mir_func where
  "sample_count = \<lparr>fn_params = [0], fn_ret_ty = Some TI64, fn_ret_hi_ty = None, fn_ret_layout = Word, fn_entry = 0,
     fn_blocks = [\<lparr>blk_id = 0, blk_insts = [Const 1 (CI64 10), Const 2 (CI64 1)], blk_term = Some (Jump 1)\<rparr>,
       \<lparr>blk_id = 1, blk_insts = [Phi 3 TI64 [(0, 0), (1, 4)], Bin 4 MAdd TI64 3 2, Cmp 5 MLt TI64 4 1],
        blk_term = Some (Br 5 1 2)\<rparr>,
       \<lparr>blk_id = 2, blk_insts = [], blk_term = Some (Return (Some 4) None)\<rparr>],
     fn_types = [TI64, TI64, TI64, TI64, TI64, TBool], fn_homes = []\<rparr>"

theorem mir_verify_iff_witness:
  "mir_verify [] sample_count = Ok () \<and> distinct (all_dests (all_insts sample_count))"
proof -
  have "mir_verify [] sample_count = Ok ()"
    by code_simp
  then show ?thesis
    using mir_verify_iff[of "[]" sample_count] by simp
qed

theorem preds_agree_witness: "mir_preds sample_count ! 1 = [0, 1] \<and> preds_of sample_count 1 = [0, 1]"
proof -
  have "mir_preds sample_count ! 1 = [0, 1]" "length (fn_blocks sample_count) = 3"
    "\<forall>bl \<in> set (fn_blocks sample_count). \<forall>t. blk_term bl = Some t \<longrightarrow> count_list (term_succs t) 1 \<le> 1"
    by (simp_all add: sample_count_def mir_preds_def term_succs_def)
  then show ?thesis
    using preds_agree[of 1 sample_count] by fastforce
qed

end
