(* ===== verification/Sccp.thy ===== *)
theory Sccp
  imports Inst_Combine Mir_Func
begin

text \<open>
  Sparse conditional constant propagation, after \<^verbatim>\<open>compiler/src/mir/sccp.rs\<close>: the lattice, the evaluation of
  an instruction over it and the sweeps of \<open>solve\<close>. The theorem is about runs of the function: whatever path
  a run takes, the blocks and edges it uses are among those the solver says run, and every word it computes
  is the constant the solver found for it, if it found one. A second theorem bounds the sweeps it needs.
\<close>

section \<open>The lattice\<close>

datatype lat = LTop | LConst mir_const | LBottom

definition lat_meet :: "lat \<Rightarrow> lat \<Rightarrow> lat" where
  "lat_meet a b = (case (a, b) of
     (LTop, x) \<Rightarrow> x
   | (x, LTop) \<Rightarrow> x
   | (LConst x, LConst y) \<Rightarrow> if x = y then a else LBottom
   | _ \<Rightarrow> LBottom)"

definition meet_down :: "lat \<Rightarrow> lat \<Rightarrow> lat" where
  "meet_down old new = (case (old, new) of
     (_, LTop) \<Rightarrow> old
   | (LTop, x) \<Rightarrow> x
   | (LConst a, LConst b) \<Rightarrow> if a = b then old else LBottom
   | _ \<Rightarrow> LBottom)"

section \<open>The solver\<close>

definition foldable :: "mir_inst \<Rightarrow> bool" where
  "foldable inst = (case inst of
     Bin _ _ _ _ _ \<Rightarrow> True | Cmp _ _ _ _ _ \<Rightarrow> True | Unary _ _ _ \<Rightarrow> True | Cast _ _ _ _ \<Rightarrow> True | Phi _ _ _ \<Rightarrow> True
   | _ \<Rightarrow> False)"

record sccp_state =
  sc_vals :: "lat list"
  sc_reached :: "block_id set"
  sc_edges :: "(block_id \<times> block_id) set"
  sc_changed :: bool

definition lat_of :: "lat list \<Rightarrow> value_id \<Rightarrow> lat" where
  "lat_of vals v = (case get vals v of Some l \<Rightarrow> l | None \<Rightarrow> LBottom)"

definition known_consts :: "lat list \<Rightarrow> value_id list \<Rightarrow> const_map" where
  "known_consts vals ops v = (if v \<in> set ops then (case lat_of vals v of LConst c \<Rightarrow> Some c | _ \<Rightarrow> None) else None)"

definition sccp_eval :: "float_arith \<Rightarrow> mir_inst \<Rightarrow> block_id \<Rightarrow> lat list \<Rightarrow> (block_id \<times> block_id) set \<Rightarrow> lat" where
  "sccp_eval fa inst block vals edges = (case inst of
     Const _ c \<Rightarrow> LConst c
   | Phi _ _ args \<Rightarrow> foldl (\<lambda>acc (_, v). lat_meet acc (lat_of vals v)) LTop (filter (\<lambda>(pred, _). (pred, block) \<in> edges) args)
   | _ \<Rightarrow>
       if foldable inst then
         (let ops = inst_operands inst in
          if list_ex (\<lambda>v. lat_of vals v = LTop) ops then LTop
          else (case const_of fa inst (known_consts vals ops) of Some c \<Rightarrow> LConst c | None \<Rightarrow> LBottom))
       else LBottom)"

definition sccp_dest :: "mir_inst \<Rightarrow> lat \<Rightarrow> sccp_state \<Rightarrow> value_id \<Rightarrow> sccp_state" where
  "sccp_dest inst new s d = (case get (sc_vals s) d of
     None \<Rightarrow> s
   | Some old \<Rightarrow>
       (let lowered = (if 1 < length (inst_dests inst) then LBottom else meet_down old new) in
        if lowered \<noteq> old then s\<lparr>sc_vals := (sc_vals s)[d := lowered], sc_changed := True\<rparr> else s))"

definition sccp_inst :: "float_arith \<Rightarrow> block_id \<Rightarrow> sccp_state \<Rightarrow> mir_inst \<Rightarrow> sccp_state" where
  "sccp_inst fa block s inst =
     foldl (sccp_dest inst (sccp_eval fa inst block (sc_vals s) (sc_edges s))) s (inst_dests inst)"

definition sccp_succs :: "lat list \<Rightarrow> terminator option \<Rightarrow> block_id list" where
  "sccp_succs vals term = (case term of
     Some (Br cond taken not_taken) \<Rightarrow> (case get vals cond of
         Some LTop \<Rightarrow> []
       | Some (LConst (CBool c)) \<Rightarrow> [if c then taken else not_taken]
       | _ \<Rightarrow> [taken, not_taken])
   | Some t \<Rightarrow> term_succs t
   | None \<Rightarrow> [])"

definition sccp_edge :: "block_id \<Rightarrow> sccp_state \<Rightarrow> block_id \<Rightarrow> sccp_state" where
  "sccp_edge block s succ =
     s\<lparr>sc_edges := insert (block, succ) (sc_edges s), sc_reached := insert succ (sc_reached s),
       sc_changed := sc_changed s \<or> (block, succ) \<notin> sc_edges s \<or> succ \<notin> sc_reached s\<rparr>"

definition sccp_block :: "float_arith \<Rightarrow> sccp_state \<Rightarrow> mir_block \<Rightarrow> sccp_state" where
  "sccp_block fa s bl =
     (if blk_id bl \<notin> sc_reached s then s
      else (let s' = foldl (sccp_inst fa (blk_id bl)) s (blk_insts bl) in
        foldl (sccp_edge (blk_id bl)) s' (sccp_succs (sc_vals s') (blk_term bl))))"

definition sccp_sweep :: "float_arith \<Rightarrow> mir_func \<Rightarrow> sccp_state \<Rightarrow> sccp_state" where
  "sccp_sweep fa f s = foldl (sccp_block fa) (s\<lparr>sc_changed := False\<rparr>) (fn_blocks f)"

definition sccp_init :: "mir_func \<Rightarrow> sccp_state" where
  "sccp_init f = \<lparr>
     sc_vals = foldl (\<lambda>vals d. if d < length vals then vals[d := LTop] else vals)
       (replicate (length (fn_types f)) LBottom) (concat (map inst_dests (concat (map blk_insts (fn_blocks f))))),
     sc_reached = {fn_entry f}, sc_edges = {}, sc_changed = False\<rparr>"

primrec sccp_sweeps :: "float_arith \<Rightarrow> mir_func \<Rightarrow> nat \<Rightarrow> sccp_state \<Rightarrow> sccp_state option" where
  "sccp_sweeps fa f 0 s = None"
| "sccp_sweeps fa f (Suc n) s =
     (let s' = sccp_sweep fa f s in if \<not> sc_changed s' then Some s' else sccp_sweeps fa f n s')"

definition MAX_SWEEPS :: nat where
  "MAX_SWEEPS = 64"

definition sccp_solve :: "float_arith \<Rightarrow> mir_func \<Rightarrow> (lat list \<times> block_id set \<times> (block_id \<times> block_id) set) option" where
  "sccp_solve fa f =
     map_option (\<lambda>s. (sc_vals s, sc_reached s, sc_edges s)) (sccp_sweeps fa f MAX_SWEEPS (sccp_init f))"

section \<open>Runs of a function\<close>

text \<open>
  A configuration is a block, the block it was entered from, the next instruction and the words computed so
  far. The phis of a block take their values together, from the edge it was entered by. A scalar
  instruction computes its word, or traps and the run stops; any other instruction leaves some word in each
  of its destinations. A value is read only once it is computed.
\<close>

record mir_config =
  cf_block :: block_id
  cf_pred :: "block_id option"
  cf_pc :: nat
  cf_env :: "value_id \<rightharpoonup> u64"

definition words_of :: "(value_id \<rightharpoonup> u64) \<Rightarrow> value_id \<Rightarrow> u64" where
  "words_of env v = (case env v of Some w \<Rightarrow> w | None \<Rightarrow> 0)"

definition block_phis :: "mir_block \<Rightarrow> mir_inst list" where
  "block_phis bl = takeWhile is_phi (blk_insts bl)"

definition enters :: "block_id \<Rightarrow> mir_inst list \<Rightarrow> (value_id \<rightharpoonup> u64) \<Rightarrow> (value_id \<rightharpoonup> u64) \<Rightarrow> bool" where
  "enters pred phis env env' \<longleftrightarrow>
     (\<forall>d. d \<notin> set (all_dests phis) \<longrightarrow> env' d = env d)
     \<and> (\<forall>d ty args. Phi d ty args \<in> set phis \<longrightarrow> (\<exists>v. (pred, v) \<in> set args \<and> env v \<noteq> None \<and> env' d = env v))"

definition starts :: "mir_func \<Rightarrow> mir_config \<Rightarrow> bool" where
  "starts f c \<longleftrightarrow> cf_block c = fn_entry f \<and> cf_pred c = None \<and> dom (cf_env c) = set (fn_params f)
     \<and> cf_pc c = length (block_phis (fn_blocks f ! fn_entry f))"

inductive leaves_to :: "terminator \<Rightarrow> (value_id \<rightharpoonup> u64) \<Rightarrow> block_id \<Rightarrow> (value_id \<rightharpoonup> u64) \<Rightarrow> bool" where
  jump: "leaves_to (Jump d) env d env"
| br: "env cond = Some w \<Longrightarrow> leaves_to (Br cond taken not_taken) env (if as_bool w then taken else not_taken) env"
| match: "length ws = length payloads \<Longrightarrow>
    leaves_to (JumpIfMatch scrutinee tag payloads taken not_taken) env taken (env ++ map_of (zip payloads ws))"
| no_match: "leaves_to (JumpIfMatch scrutinee tag payloads taken not_taken) env not_taken env"

inductive mir_step :: "float_arith \<Rightarrow> mir_func \<Rightarrow> mir_config \<Rightarrow> mir_config \<Rightarrow> bool" for fa f where
  scalar: "cf_block c < length (fn_blocks f) \<Longrightarrow> cf_pc c < length (blk_insts (fn_blocks f ! cf_block c)) \<Longrightarrow>
    inst = blk_insts (fn_blocks f ! cf_block c) ! cf_pc c \<Longrightarrow> set (inst_operands inst) \<subseteq> dom (cf_env c) \<Longrightarrow>
    scalar_result fa (mir_ty_of f) (words_of (cf_env c)) inst = Some (Ok w) \<Longrightarrow>
    mir_step fa f c (c\<lparr>cf_pc := Suc (cf_pc c), cf_env := (cf_env c)(inst_dest inst \<mapsto> w)\<rparr>)"
| effect: "cf_block c < length (fn_blocks f) \<Longrightarrow> cf_pc c < length (blk_insts (fn_blocks f ! cf_block c)) \<Longrightarrow>
    inst = blk_insts (fn_blocks f ! cf_block c) ! cf_pc c \<Longrightarrow> set (inst_operands inst) \<subseteq> dom (cf_env c) \<Longrightarrow>
    \<not> foldable inst \<Longrightarrow> (\<forall>d k. inst \<noteq> Const d k) \<Longrightarrow> length ws = length (inst_dests inst) \<Longrightarrow>
    mir_step fa f c (c\<lparr>cf_pc := Suc (cf_pc c), cf_env := cf_env c ++ map_of (zip (inst_dests inst) ws)\<rparr>)"
| edge: "cf_block c < length (fn_blocks f) \<Longrightarrow> cf_pc c = length (blk_insts (fn_blocks f ! cf_block c)) \<Longrightarrow>
    blk_term (fn_blocks f ! cf_block c) = Some t \<Longrightarrow> leaves_to t (cf_env c) b env \<Longrightarrow> b < length (fn_blocks f) \<Longrightarrow>
    enters (cf_block c) (block_phis (fn_blocks f ! b)) env env' \<Longrightarrow>
    mir_step fa f c \<lparr>cf_block = b, cf_pred = Some (cf_block c), cf_pc = length (block_phis (fn_blocks f ! b)), cf_env = env'\<rparr>"

inductive_cases leaves_toE: "leaves_to t env b env'"

text \<open>What a run says of a lattice value: a word was computed, so it is not \<open>LTop\<close>, and a constant is that word.\<close>

definition lat_agrees :: "lat \<Rightarrow> u64 \<Rightarrow> bool" where
  "lat_agrees l w = (case l of LTop \<Rightarrow> False | LConst c \<Rightarrow> w = const_word c | LBottom \<Rightarrow> True)"

definition payloads_fresh :: "mir_func \<Rightarrow> bool" where
  "payloads_fresh f \<longleftrightarrow> (\<forall>bl \<in> set (fn_blocks f). \<forall>scrutinee tag payloads taken not_taken.
     blk_term bl = Some (JumpIfMatch scrutinee tag payloads taken not_taken) \<longrightarrow>
     set payloads \<inter> set (all_dests (all_insts f)) = {})"

definition config_sound :: "lat list \<Rightarrow> block_id set \<Rightarrow> (block_id \<times> block_id) set \<Rightarrow> mir_config \<Rightarrow> bool" where
  "config_sound vals reached edges c \<longleftrightarrow> cf_block c \<in> reached
     \<and> (\<forall>p. cf_pred c = Some p \<longrightarrow> (p, cf_block c) \<in> edges)
     \<and> (\<forall>v w. cf_env c v = Some w \<longrightarrow> lat_agrees (lat_of vals v) w)"

section \<open>A sweep that changes nothing\<close>

locale quiet_step =
  fixes g :: "sccp_state \<Rightarrow> 'a \<Rightarrow> sccp_state" and settled :: "sccp_state \<Rightarrow> 'a \<Rightarrow> bool"
  assumes quiet: "\<not> sc_changed (g s x) \<Longrightarrow> g s x = s \<and> settled s x"
begin

lemma quiet_fold: "\<not> sc_changed (foldl g s xs) \<Longrightarrow> foldl g s xs = s \<and> (\<forall>x \<in> set xs. settled s x)"
proof (induction xs arbitrary: s)
  case (Cons x xs)
  then have "foldl g (g s x) xs = g s x" "\<forall>y \<in> set xs. settled (g s x) y"
    by auto
  with Cons.prems show ?case
    using quiet[of s x] by auto
qed simp

end

definition dest_settled :: "mir_inst \<Rightarrow> lat \<Rightarrow> sccp_state \<Rightarrow> value_id \<Rightarrow> bool" where
  "dest_settled inst new s d \<longleftrightarrow>
     (\<forall>old. get (sc_vals s) d = Some old \<longrightarrow> (if 1 < length (inst_dests inst) then LBottom else meet_down old new) = old)"

definition inst_settled :: "float_arith \<Rightarrow> block_id \<Rightarrow> sccp_state \<Rightarrow> mir_inst \<Rightarrow> bool" where
  "inst_settled fa b s inst \<longleftrightarrow>
     (\<forall>d \<in> set (inst_dests inst). dest_settled inst (sccp_eval fa inst b (sc_vals s) (sc_edges s)) s d)"

definition edge_settled :: "block_id \<Rightarrow> sccp_state \<Rightarrow> block_id \<Rightarrow> bool" where
  "edge_settled b s succ \<longleftrightarrow> (b, succ) \<in> sc_edges s \<and> succ \<in> sc_reached s"

definition block_settled :: "float_arith \<Rightarrow> sccp_state \<Rightarrow> mir_block \<Rightarrow> bool" where
  "block_settled fa s bl \<longleftrightarrow> (blk_id bl \<in> sc_reached s \<longrightarrow>
     (\<forall>inst \<in> set (blk_insts bl). inst_settled fa (blk_id bl) s inst)
     \<and> (\<forall>succ \<in> set (sccp_succs (sc_vals s) (blk_term bl)). edge_settled (blk_id bl) s succ))"

interpretation quiet_dests: quiet_step "sccp_dest inst new" "dest_settled inst new" for inst new
  by unfold_locales (auto simp: sccp_dest_def dest_settled_def Let_def split: option.splits if_splits)

interpretation quiet_insts: quiet_step "sccp_inst fa b" "inst_settled fa b" for fa b
  using quiet_dests.quiet_fold by unfold_locales (auto simp: sccp_inst_def inst_settled_def)

interpretation quiet_edges: quiet_step "sccp_edge b" "edge_settled b" for b
proof
  show "sccp_edge b s x = s \<and> edge_settled b s x" if "\<not> sc_changed (sccp_edge b s x)" for s x
    using that by (cases s) (auto simp: sccp_edge_def edge_settled_def insert_absorb)
qed

interpretation quiet_blocks: quiet_step "sccp_block fa" "block_settled fa" for fa
proof
  show "sccp_block fa s bl = s \<and> block_settled fa s bl" if "\<not> sc_changed (sccp_block fa s bl)" for s bl
  proof (cases "blk_id bl \<in> sc_reached s")
    case True
    let ?s = "foldl (sccp_inst fa (blk_id bl)) s (blk_insts bl)"
    have "\<not> sc_changed (foldl (sccp_edge (blk_id bl)) ?s (sccp_succs (sc_vals ?s) (blk_term bl)))"
      using that True by (simp add: sccp_block_def Let_def)
    from quiet_edges.quiet_fold[OF this] this show ?thesis
      using quiet_insts.quiet_fold[of fa "blk_id bl" s "blk_insts bl"] True
      by (simp add: sccp_block_def Let_def block_settled_def)
  qed (simp add: sccp_block_def block_settled_def)
qed

lemma sccp_sweeps_settled:
  assumes "sccp_sweeps fa f n s = Some s'"
  shows "\<forall>bl \<in> set (fn_blocks f). block_settled fa s' bl"
  using assms
proof (induction n arbitrary: s)
  case (Suc n)
  then show ?case
    using quiet_blocks.quiet_fold[of fa "s\<lparr>sc_changed := False\<rparr>" "fn_blocks f"]
    by (auto simp: Let_def sccp_sweep_def split: if_splits)
qed simp

section \<open>What every sweep keeps\<close>

lemma foldl_keeps:
  assumes "\<And>s x. x \<in> set xs \<Longrightarrow> I s \<Longrightarrow> I (g s x)" and "I s"
  shows "I (foldl g s xs)"
  using assms by (induction xs arbitrary: s) auto

definition lats_typed :: "mir_func \<Rightarrow> lat list \<Rightarrow> bool" where
  "lats_typed f vals \<longleftrightarrow> (\<forall>v c. lat_of vals v = LConst c \<longrightarrow> mir_ty_of f v = mir_const_ty c)"

definition sccp_inv :: "mir_func \<Rightarrow> sccp_state \<Rightarrow> bool" where
  "sccp_inv f s \<longleftrightarrow> lats_typed f (sc_vals s) \<and> length (sc_vals s) = length (fn_types f) \<and> fn_entry f \<in> sc_reached s
     \<and> (\<forall>v. v \<notin> set (all_dests (all_insts f)) \<longrightarrow> lat_of (sc_vals s) v = LBottom)"

lemma lat_of_update: "d < length vals \<Longrightarrow> lat_of (vals[d := l]) v = (if v = d then l else lat_of vals v)"
  by (simp add: lat_of_def get_def)

lemma const_of_typed:
  assumes "const_of fa inst cmap = Some c" and "\<And>v k. cmap v = Some k \<Longrightarrow> mir_ty_of f v = mir_const_ty k"
    and "check_inst natives f preds inst = Ok ()"
  shows "mir_ty_of f (inst_dest inst) = mir_const_ty c"
proof (cases inst)
  case (Const d k)
  then show ?thesis
    using assms by (simp add: const_of_def check_inst_def need_def result_simps)
next
  case (Bin d op t lhs rhs)
  then have "fold_bin fa op t lhs rhs cmap {} {} Map.empty False inst = ToConst c"
    using assms(1) by (auto simp: const_of_def fold_inst_def split: fold.splits)
  then have "t = mir_const_ty c"
    by (auto simp: fold_bin_def Let_def finite_fold_def eval_bin_def zeroing_def is_int_def mir_const_ty_def
        split: option.splits mir_ty.splits mir_const.splits if_splits)
  then show ?thesis
    using assms(3) Bin by (auto simp: check_inst_def check_bin_def Let_def rbind_Ok_iff split: if_splits)
next
  case (Cmp d op t lhs rhs)
  then show ?thesis
    using assms(1,3) by (auto simp: const_of_def fold_inst_def to_fold_def check_inst_def check_cmp_def Let_def rbind_Ok_iff
        mir_const_ty_def split: option.splits fold.splits if_splits)
next
  case (Unary d op src)
  then show ?thesis
    using assms by (cases op) (auto simp: const_of_def fold_inst_def to_fold_def check_inst_def check_unary_def Let_def
        mir_const_ty_def eval_neg_def bind_eq_Some_conv split: option.splits fold.splits if_splits mir_const.splits)
next
  case (Cast d kind to src)
  then obtain k where "eval_cast fa kind to k = Some c"
    using assms(1) by (auto simp: const_of_def fold_inst_def to_fold_def bind_eq_Some_conv split: option.splits)
  then have "to = mir_const_ty c"
    by (cases kind; cases to; cases k) (auto simp: eval_cast_def mir_const_ty_def)
  then show ?thesis
    using assms(3) Cast by (auto simp: check_inst_def check_cast_def split: if_splits)
qed (use assms(1) in \<open>simp_all add: const_of_def fold_inst_def\<close>)

lemma meets_const:
  assumes "foldl (\<lambda>acc (_, v). lat_meet acc (lat_of vals v)) a args = LConst c"
  shows "a = LConst c \<or> (\<exists>p v. (p, v) \<in> set args \<and> lat_of vals v = LConst c)"
  using assms
proof (induction args arbitrary: a)
  case (Cons x xs)
  have "lat_meet a l = LConst c \<Longrightarrow> a = LConst c \<or> l = LConst c" for l
    by (auto simp: lat_meet_def split: lat.splits if_splits)
  with Cons show ?case
    by (fastforce split: prod.splits)
qed simp

lemma sccp_eval_typed:
  assumes ok: "check_inst natives f preds inst = Ok ()" and typed: "lats_typed f vals"
    and c: "sccp_eval fa inst b vals edges = LConst c"
  shows "mir_ty_of f (inst_dest inst) = mir_const_ty c"
proof (cases "is_phi inst")
  case True
  then obtain d ty args where inst: "inst = Phi d ty args"
    by (cases inst) (auto simp: is_phi_def)
  then obtain p v where "(p, v) \<in> set args" "lat_of vals v = LConst c"
    using c meets_const[of vals LTop _ c] by (fastforce simp: sccp_eval_def)
  then show ?thesis
    using ok typed by (fastforce simp: inst check_inst_def check_phi_def lats_typed_def list_ex_iff split: if_splits)
next
  case False
  have "const_of fa inst (known_consts vals (inst_operands inst)) = Some c"
    using c False
    by (cases inst) (auto simp: sccp_eval_def Let_def is_phi_def foldable_def const_of_def split: if_splits option.splits)
  then show ?thesis
    using ok typed by (rule_tac const_of_typed) (auto simp: known_consts_def lats_typed_def split: if_splits lat.splits)
qed

lemma sccp_dest_inv:
  assumes "sccp_inv f s" and "d \<in> set (inst_dests inst)" and "inst \<in> set (all_insts f)"
    and "\<And>c. new = LConst c \<Longrightarrow> mir_ty_of f (inst_dest inst) = mir_const_ty c"
  shows "sccp_inv f (sccp_dest inst new s d)"
proof (cases "get (sc_vals s) d")
  case (Some old)
  let ?low = "if 1 < length (inst_dests inst) then LBottom else meet_down old new"
  have "old = LConst c \<or> new = LConst c \<and> d = inst_dest inst" if "?low = LConst c" for c
    using that assms(2)
    by (auto simp: meet_down_def inst_dests_def split: if_splits lat.splits option.splits)
  moreover have "mir_ty_of f d = mir_const_ty c" if "old = LConst c" for c
  proof -
    have "lat_of (sc_vals s) d = LConst c"
      using that Some by (simp add: lat_of_def del: get_Some_iff get_None_iff)
    then show ?thesis
      using assms(1) by (auto simp: sccp_inv_def lats_typed_def)
  qed
  ultimately have "mir_ty_of f d = mir_const_ty c" if "?low = LConst c" for c
    using that assms(4) by blast
  moreover have "d \<in> set (all_dests (all_insts f))"
    using assms(2,3) by (auto simp: all_dests_def)
  moreover have "d < length (sc_vals s)"
    using Some by simp
  moreover have "sccp_dest inst new s d = (if ?low \<noteq> old then s\<lparr>sc_vals := (sc_vals s)[d := ?low], sc_changed := True\<rparr> else s)"
    using Some by (simp add: sccp_dest_def Let_def del: get_Some_iff get_None_iff)
  ultimately show ?thesis
    using assms(1) by (auto simp: sccp_inv_def lats_typed_def lat_of_update)
qed (use assms(1) in \<open>simp add: sccp_dest_def del: get_None_iff\<close>)

definition insts_checked :: "mir_func \<Rightarrow> bool" where
  "insts_checked f \<longleftrightarrow> (\<forall>bl \<in> set (fn_blocks f). \<forall>inst \<in> set (blk_insts bl).
     \<exists>natives preds. check_inst natives f preds inst = Ok ())"

lemma sccp_sweep_inv:
  assumes checked: "insts_checked f" and "sccp_inv f s"
  shows "sccp_inv f (sccp_sweep fa f s)"
proof -
  have inst: "sccp_inv f (sccp_inst fa b s inst)"
    if "sccp_inv f s" "bl \<in> set (fn_blocks f)" "inst \<in> set (blk_insts bl)" for s bl inst b
  proof -
    obtain natives preds where "check_inst natives f preds inst = Ok ()"
      using checked[unfolded insts_checked_def] \<open>bl \<in> _\<close> \<open>inst \<in> _\<close> by blast
    then have "mir_ty_of f (inst_dest inst) = mir_const_ty c" if "sccp_eval fa inst b (sc_vals s) (sc_edges s) = LConst c" for c
      using sccp_eval_typed that \<open>sccp_inv f s\<close> by (auto simp: sccp_inv_def)
    then show ?thesis
      unfolding sccp_inst_def using that
      by (intro foldl_keeps[where I = "sccp_inv f"] sccp_dest_inv) (auto simp: all_insts_def)
  qed
  have edges: "sccp_inv f (foldl (sccp_edge b) s succs)" if "sccp_inv f s" for s b succs
    using that by (intro foldl_keeps[where I = "sccp_inv f"]) (auto simp: sccp_edge_def sccp_inv_def)
  have "sccp_inv f (sccp_block fa s bl)" if "sccp_inv f s" "bl \<in> set (fn_blocks f)" for s bl
    using that by (auto simp: sccp_block_def Let_def intro!: edges foldl_keeps[where I = "sccp_inv f"] inst)
  then show ?thesis
    unfolding sccp_sweep_def using assms(2) by (intro foldl_keeps[where I = "sccp_inv f"]) (auto simp: sccp_inv_def)
qed

lemma sccp_init_lats:
  "length (sc_vals (sccp_init f)) = length (fn_types f)"
  "lat_of (sc_vals (sccp_init f)) v =
     (if v < length (fn_types f) \<and> v \<in> set (all_dests (all_insts f)) then LTop else LBottom)"
proof -
  have *: "length (foldl (\<lambda>vals d. if d < length vals then vals[d := LTop] else vals) vals ds) = length vals"
    "lat_of (foldl (\<lambda>vals d. if d < length vals then vals[d := LTop] else vals) vals ds) v =
       (if v < length vals \<and> v \<in> set ds then LTop else lat_of vals v)" for vals ds
    by (induction ds arbitrary: vals) (auto simp: lat_of_update)
  show "length (sc_vals (sccp_init f)) = length (fn_types f)"
    "lat_of (sc_vals (sccp_init f)) v =
       (if v < length (fn_types f) \<and> v \<in> set (all_dests (all_insts f)) then LTop else LBottom)"
    by (simp_all add: sccp_init_def * all_dests_def all_insts_def) (simp add: lat_of_def get_def)
qed

lemma sccp_init_inv: "sccp_inv f (sccp_init f)"
  by (auto simp: sccp_inv_def lats_typed_def sccp_init_lats) (simp add: sccp_init_def)

lemma sccp_sweeps_inv:
  assumes "insts_checked f" and "sccp_inv f s" and "sccp_sweeps fa f n s = Some s'"
  shows "sccp_inv f s'"
  using assms(2,3)
proof (induction n arbitrary: s)
  case (Suc n)
  then show ?case
    using sccp_sweep_inv[OF assms(1)] by (auto simp: Let_def split: if_splits)
qed simp

section \<open>Runs agree with the solution\<close>

lemma meet_agrees:
  "lat_agrees l w \<Longrightarrow> lat_agrees (lat_meet a l) w" "lat_agrees a w \<Longrightarrow> lat_agrees (lat_meet a l) w"
  by (auto simp: lat_agrees_def lat_meet_def split: lat.splits)

lemma meets_agree:
  assumes "lat_agrees a w \<or> (\<exists>p v. (p, v) \<in> set args \<and> lat_agrees (lat_of vals v) w)"
  shows "lat_agrees (foldl (\<lambda>acc (_, v). lat_meet acc (lat_of vals v)) a args) w"
  using assms by (induction args arbitrary: a) (auto intro: meet_agrees)

lemma settled_agrees:
  assumes "inst_settled fa b s inst" and "d \<in> set (inst_dests inst)"
    and "1 < length (inst_dests inst) \<or> lat_agrees (sccp_eval fa inst b (sc_vals s) (sc_edges s)) w"
  shows "lat_agrees (lat_of (sc_vals s) d) w"
proof (cases "get (sc_vals s) d")
  case (Some old)
  then have "(if 1 < length (inst_dests inst) then LBottom
      else meet_down old (sccp_eval fa inst b (sc_vals s) (sc_edges s))) = old"
    using assms(1,2) by (auto simp: inst_settled_def dest_settled_def)
  then have "lat_agrees old w"
    using assms(3) by (auto simp: lat_agrees_def meet_down_def split: if_splits lat.splits)
  then show ?thesis
    using Some by (simp add: lat_of_def del: get_Some_iff get_None_iff)
qed (simp add: lat_of_def lat_agrees_def del: get_None_iff)

definition env_sound :: "lat list \<Rightarrow> (value_id \<rightharpoonup> u64) \<Rightarrow> bool" where
  "env_sound vals env \<longleftrightarrow> (\<forall>v w. env v = Some w \<longrightarrow> lat_agrees (lat_of vals v) w)"

lemma eval_scalar_agrees:
  assumes "lats_typed f vals" and "env_sound vals env" and "set (inst_operands inst) \<subseteq> dom env"
    and w: "scalar_result fa (mir_ty_of f) (words_of env) inst = Some (Ok w)"
  shows "lat_agrees (sccp_eval fa inst b vals edges) w"
proof -
  have ops: "\<exists>x. env v = Some x \<and> lat_agrees (lat_of vals v) x" if "v \<in> set (inst_operands inst)" for v
    using that assms(2,3) by (auto simp: env_sound_def)
  then have top: "\<not> list_ex (\<lambda>v. lat_of vals v = LTop) (inst_operands inst)"
    by (force simp: list_ex_iff lat_agrees_def)
  let ?cs = "known_consts vals (inst_operands inst)"
  have cs: "words_of env v = const_word c \<and> mir_ty_of f v = mir_const_ty c" if "?cs v = Some c" for v c
    using that ops[of v] assms(1)
    by (auto simp: known_consts_def words_of_def lat_agrees_def lats_typed_def split: if_splits lat.splits)
  have "lat_agrees (case const_of fa inst ?cs of Some c \<Rightarrow> LConst c | None \<Rightarrow> LBottom) w"
    using const_of_sound[where cmap = ?cs and env = "words_of env" and ty = "mir_ty_of f" and fa = fa and inst = inst, OF cs] w by (auto simp: lat_agrees_def split: option.split)
  then show ?thesis
    using w top by (cases inst) (auto simp: sccp_eval_def foldable_def scalar_result_def Let_def const_of_def)
qed

lemma eval_effect: "\<not> foldable inst \<Longrightarrow> \<forall>d k. inst \<noteq> Const d k \<Longrightarrow> sccp_eval fa inst b vals edges = LBottom"
  by (cases inst) (simp_all add: sccp_eval_def foldable_def)

lemma scalar_dests: "scalar_result fa ty env inst = Some r \<Longrightarrow> inst_dests inst = [inst_dest inst]"
  by (cases inst) (auto simp: scalar_result_def inst_dests_def inst_dest_hi_def)

lemma env_sound_update:
  assumes "env_sound vals env" and "\<And>d w. d \<in> set ds \<Longrightarrow> lat_agrees (lat_of vals d) w"
  shows "env_sound vals (env ++ map_of (zip ds ws))"
  using assms by (auto simp: env_sound_def map_add_def dest!: map_of_SomeD set_zip_leftD split: option.splits)

lemma leaves_to_succs:
  assumes "leaves_to t env b env'" and "env_sound vals env"
  shows "b \<in> set (sccp_succs vals (Some t))"
  using assms(1)
proof cases
  case (br cond w taken not_taken)
  have "lat_agrees (lat_of vals cond) w"
    using assms(2) br by (auto simp: env_sound_def)
  then show ?thesis
    using br
    by (auto simp: sccp_succs_def lat_of_def lat_agrees_def const_word_def simp del: get_Some_iff get_None_iff
        split: option.splits lat.splits mir_const.splits)
qed (auto simp: sccp_succs_def term_succs_def)

lemma leaves_to_sound:
  assumes "leaves_to t env b env'" and "env_sound vals env" and "sccp_inv f s" and "vals = sc_vals s"
    and "payloads_fresh f" and "bl \<in> set (fn_blocks f)" and "blk_term bl = Some t"
  shows "env_sound vals env'"
  using assms(1)
proof cases
  case (match ws payloads scrutinee tag not_taken)
  have "lat_of vals d = LBottom" if "d \<in> set payloads" for d
    using that match assms(3-7) unfolding payloads_fresh_def sccp_inv_def by blast
  then show ?thesis
    unfolding match using assms(2) by (intro env_sound_update) (auto simp: lat_agrees_def)
qed (use assms(2) in simp_all)

lemma enters_sound:
  assumes "enters pred (block_phis bl) env env'" and "env_sound (sc_vals s) env" and "block_settled fa s bl"
    and "edge_settled pred s (blk_id bl)"
  shows "env_sound (sc_vals s) env'"
  unfolding env_sound_def
proof (intro allI impI)
  fix d w assume w: "env' d = Some w"
  show "lat_agrees (lat_of (sc_vals s) d) w"
  proof (cases "d \<in> set (all_dests (block_phis bl))")
    case True
    then obtain inst where inst: "inst \<in> set (block_phis bl)" "d \<in> set (inst_dests inst)"
      by (auto simp: all_dests_def)
    then have "is_phi inst"
      by (auto simp: block_phis_def dest: set_takeWhileD)
    then obtain ty args where phi: "inst = Phi d ty args"
      using inst(2) by (cases inst rule: mir_inst.exhaust) (auto simp: is_phi_def inst_dests_def inst_dest_hi_def)
    then obtain v where v: "(pred, v) \<in> set args" "env v = Some w"
      using assms(1) inst(1) w unfolding enters_def by (metis (no_types, lifting))
    then have "lat_agrees (lat_of (sc_vals s) v) w"
      using assms(2) by (auto simp: env_sound_def)
    then have "lat_agrees (sccp_eval fa inst (blk_id bl) (sc_vals s) (sc_edges s)) w"
      using v(1) assms(4) by (auto simp: phi sccp_eval_def edge_settled_def intro!: meets_agree)
    moreover have "inst_settled fa (blk_id bl) s inst"
      using assms(3,4) inst(1) by (auto simp: block_settled_def edge_settled_def block_phis_def dest: set_takeWhileD)
    ultimately show ?thesis
      using inst(2) by (auto intro: settled_agrees)
  next
    case False
    then show ?thesis
      using assms(1,2) w by (auto simp: enters_def env_sound_def)
  qed
qed

lemma step_sound:
  assumes settled: "\<forall>bl \<in> set (fn_blocks f). block_settled fa s bl" and inv: "sccp_inv f s"
    and ids: "\<forall>b < length (fn_blocks f). blk_id (fn_blocks f ! b) = b" and fresh: "payloads_fresh f"
    and step: "mir_step fa f c c'" and sound: "config_sound (sc_vals s) (sc_reached s) (sc_edges s) c"
  shows "config_sound (sc_vals s) (sc_reached s) (sc_edges s) c'"
proof -
  let ?bl = "fn_blocks f ! cf_block c"
  have env: "env_sound (sc_vals s) (cf_env c)" and reached: "cf_block c \<in> sc_reached s"
    using sound by (auto simp: config_sound_def env_sound_def)
  have bl: "block_settled fa s ?bl" "blk_id ?bl = cf_block c" if "cf_block c < length (fn_blocks f)"
    using that settled ids by auto
  have inst: "inst_settled fa (cf_block c) s inst"
    if "cf_block c < length (fn_blocks f)" "inst \<in> set (blk_insts ?bl)" for inst
    using bl that reached by (auto simp: block_settled_def)
  show ?thesis
    using step
  proof cases
    case (scalar inst w)
    then have "lat_agrees (lat_of (sc_vals s) (inst_dest inst)) w"
      using settled_agrees[OF inst, of inst "inst_dest inst" w] scalar_dests[of fa _ _ inst]
        eval_scalar_agrees[OF _ env, of f inst fa w] inv by (auto simp: sccp_inv_def)
    with scalar sound show ?thesis
      by (auto simp: config_sound_def)
  next
    case (effect inst ws)
    then have "lat_agrees (lat_of (sc_vals s) d) w" if "d \<in> set (inst_dests inst)" for d w
      using that settled_agrees[OF inst, of inst d w] eval_effect[of inst fa] by (auto simp: lat_agrees_def)
    from env_sound_update[OF env this] effect sound show ?thesis
      by (auto simp: config_sound_def env_sound_def)
  next
    case (edge t b env' env'')
    then have "?bl \<in> set (fn_blocks f)" "fn_blocks f ! b \<in> set (fn_blocks f)" "blk_id (fn_blocks f ! b) = b"
      using ids by auto
    note here = this
    have "edge_settled (cf_block c) s b"
      using leaves_to_succs[OF edge(5) env] bl edge reached by (auto simp: block_settled_def)
    moreover from this have "env_sound (sc_vals s) env''"
      using leaves_to_sound[OF edge(5) env inv refl fresh here(1) edge(4)] edge(7) settled here
      by (auto intro: enters_sound)
    ultimately show ?thesis
      unfolding edge(1) by (auto simp: config_sound_def env_sound_def edge_settled_def)
  qed
qed

lemma verified_checked:
  assumes "mir_verify natives f = Ok ()"
  shows "insts_checked f" "\<forall>b < length (fn_blocks f). blk_id (fn_blocks f ! b) = b"
    "set (all_dests (all_insts f)) \<inter> set (fn_params f) = {}"
proof -
  have ok: "\<forall>b < length (fn_blocks f). block_ok natives f b" "ssa_insts f (set (fn_params f)) (all_insts f)"
    using answers_iff[OF mir_verify_answers[of natives f]] assms by simp_all
  show "insts_checked f"
    unfolding insts_checked_def
  proof (intro ballI)
    fix bl inst assume "bl \<in> set (fn_blocks f)" "inst \<in> set (blk_insts bl)"
    then show "\<exists>natives preds. check_inst natives f preds inst = Ok ()"
      using ok(1) by (fastforce simp: in_set_conv_nth block_ok_def Let_def list_all_iff)
  qed
  show "\<forall>b < length (fn_blocks f). blk_id (fn_blocks f ! b) = b"
    using ok(1) by (simp add: block_ok_def Let_def)
  show "set (all_dests (all_insts f)) \<inter> set (fn_params f) = {}"
    using ok(2) by (simp add: ssa_insts_iff)
qed

lemma start_sound:
  assumes "starts f c" and "sccp_inv f s" and "set (all_dests (all_insts f)) \<inter> set (fn_params f) = {}"
  shows "config_sound (sc_vals s) (sc_reached s) (sc_edges s) c"
  using assms by (fastforce simp: starts_def config_sound_def sccp_inv_def lat_agrees_def)

text \<open>C4: constant propagation is sound. For a function the verifier accepts (and whose match payloads no
  instruction defines), whatever \<open>solve\<close> returns holds of every run from the entry: a run is only ever in a
  block of \<open>reached\<close>, enters a block only by an edge of \<open>edges\<close>, never computes a word for a value still
  unknown, and computes for a value found constant exactly that constant.\<close>

theorem sccp_solve_sound:
  assumes "mir_verify natives f = Ok ()" and "payloads_fresh f"
    and "sccp_solve fa f = Some (vals, reached, edges)"
    and "starts f c0" and "(mir_step fa f)\<^sup>*\<^sup>* c0 c"
  shows "cf_block c \<in> reached \<and> (\<forall>p. cf_pred c = Some p \<longrightarrow> (p, cf_block c) \<in> edges)
    \<and> (\<forall>v w. cf_env c v = Some w \<longrightarrow> lat_of vals v \<noteq> LTop)
    \<and> (\<forall>v w k. cf_env c v = Some w \<and> lat_of vals v = LConst k \<longrightarrow> w = const_word k)"
proof -
  obtain s where s: "sccp_sweeps fa f MAX_SWEEPS (sccp_init f) = Some s"
    and sol: "vals = sc_vals s" "reached = sc_reached s" "edges = sc_edges s"
    using assms(3) by (auto simp: sccp_solve_def)
  note v = verified_checked[OF assms(1)]
  have inv: "sccp_inv f s"
    using sccp_sweeps_inv[OF v(1) sccp_init_inv s] .
  have "config_sound vals reached edges c"
    using assms(5)
  proof induction
    case base
    show ?case
      unfolding sol by (rule start_sound[OF assms(4) inv v(3)])
  next
    case (step c c')
    then show ?case
      unfolding sol by (blast intro: step_sound[OF sccp_sweeps_settled[OF s] inv v(2) assms(2)])
  qed
  then show ?thesis
    by (fastforce simp: config_sound_def lat_agrees_def)
qed

section \<open>How many sweeps it takes\<close>

definition lat_rank :: "lat \<Rightarrow> nat" where
  "lat_rank l = (case l of LTop \<Rightarrow> 2 | LConst _ \<Rightarrow> 1 | LBottom \<Rightarrow> 0)"

definition cfg_edges :: "mir_func \<Rightarrow> (block_id \<times> block_id) list" where
  "cfg_edges f = concat (map (\<lambda>bl. case blk_term bl of None \<Rightarrow> [] | Some t \<Rightarrow> map (Pair (blk_id bl)) (term_succs t)) (fn_blocks f))"

definition todo :: "mir_func \<Rightarrow> sccp_state \<Rightarrow> nat" where
  "todo f s = sum_list (map lat_rank (sc_vals s)) + card (set (cfg_edges f) - sc_edges s)
     + card (snd ` set (cfg_edges f) - sc_reached s)"

lemma meet_down_rank: "meet_down old new \<noteq> old \<Longrightarrow> lat_rank (meet_down old new) < lat_rank old"
  by (auto simp: meet_down_def lat_rank_def split: lat.splits if_splits)

lemma rank_update:
  assumes "d < length vals" and "lat_rank l < lat_rank (vals ! d)"
  shows "sum_list (map lat_rank (vals[d := l])) < sum_list (map lat_rank vals)"
  using assms elem_le_sum_list[of d "map lat_rank vals"] by (auto simp: map_update sum_list_update)

locale shrinking_step =
  fixes f :: mir_func and g :: "sccp_state \<Rightarrow> 'a \<Rightarrow> sccp_state" and ok :: "'a \<Rightarrow> bool"
  assumes shrinks: "ok x \<Longrightarrow> todo f (g s x) \<le> todo f s \<and> (sc_changed (g s x) \<longrightarrow> sc_changed s \<or> todo f (g s x) < todo f s)"
begin

lemma shrink_fold:
  "\<forall>x \<in> set xs. ok x \<Longrightarrow>
     todo f (foldl g s xs) \<le> todo f s \<and> (sc_changed (foldl g s xs) \<longrightarrow> sc_changed s \<or> todo f (foldl g s xs) < todo f s)"
proof (induction xs arbitrary: s)
  case (Cons x xs)
  have "todo f (g s x) \<le> todo f s \<and> (sc_changed (g s x) \<longrightarrow> sc_changed s \<or> todo f (g s x) < todo f s)"
    using shrinks Cons.prems by simp
  moreover have "todo f (foldl g (g s x) xs) \<le> todo f (g s x)
      \<and> (sc_changed (foldl g (g s x) xs) \<longrightarrow> sc_changed (g s x) \<or> todo f (foldl g (g s x) xs) < todo f (g s x))"
    using Cons by simp
  ultimately show ?case
    by auto
qed simp

end

interpretation shrink_dests: shrinking_step f "sccp_dest inst new" "\<lambda>_. True" for f inst new
proof
  fix s d
  show "todo f (sccp_dest inst new s d) \<le> todo f s
    \<and> (sc_changed (sccp_dest inst new s d) \<longrightarrow> sc_changed s \<or> todo f (sccp_dest inst new s d) < todo f s)"
  proof (cases "get (sc_vals s) d")
    case (Some old)
    let ?low = "if 1 < length (inst_dests inst) then LBottom else meet_down old new"
    have "?low \<noteq> old \<Longrightarrow> lat_rank ?low < lat_rank old"
      by (cases "1 < length (inst_dests inst)"; cases old) (simp_all add: meet_down_rank, simp_all add: lat_rank_def)
    then have "?low \<noteq> old \<Longrightarrow> sum_list (map lat_rank ((sc_vals s)[d := ?low])) < sum_list (map lat_rank (sc_vals s))"
      using Some by (intro rank_update) auto
    moreover have "sccp_dest inst new s d = (if ?low \<noteq> old then s\<lparr>sc_vals := (sc_vals s)[d := ?low], sc_changed := True\<rparr> else s)"
      using Some by (simp add: sccp_dest_def Let_def del: get_Some_iff get_None_iff)
    ultimately show ?thesis
      by (auto simp: todo_def)
  qed (simp add: sccp_dest_def del: get_None_iff)
qed

interpretation shrink_insts: shrinking_step f "sccp_inst fa b" "\<lambda>_. True" for f fa b
  using shrink_dests.shrink_fold by unfold_locales (simp add: sccp_inst_def)

lemma card_diff_insert:
  assumes "finite A" and "x \<in> A"
  shows "card (A - insert x B) \<le> card (A - B)" "x \<notin> B \<Longrightarrow> card (A - insert x B) < card (A - B)"
proof -
  show "card (A - insert x B) \<le> card (A - B)"
    using assms by (intro card_mono) auto
  show "card (A - insert x B) < card (A - B)" if "x \<notin> B"
    using assms that by (intro psubset_card_mono) auto
qed

interpretation shrink_edges: shrinking_step f "sccp_edge b" "\<lambda>succ. (b, succ) \<in> set (cfg_edges f)" for f b
proof
  fix succ s assume e: "(b, succ) \<in> set (cfg_edges f)"
  then have "succ \<in> snd ` set (cfg_edges f)"
    by force
  note cards = card_diff_insert[OF finite_set e, of "sc_edges s"] card_diff_insert[OF finite_imageI[OF finite_set] this, of "sc_reached s"]
  show "todo f (sccp_edge b s succ) \<le> todo f s
    \<and> (sc_changed (sccp_edge b s succ) \<longrightarrow> sc_changed s \<or> todo f (sccp_edge b s succ) < todo f s)"
    using cards(1,3) cards(2)[THEN add_less_le_mono, OF _ cards(3)] cards(4)[THEN add_le_less_mono[OF cards(1)]]
    by (auto simp: sccp_edge_def todo_def intro: add_mono)
qed

lemma sccp_succs_subset:
  assumes "succ \<in> set (sccp_succs vals t)"
  obtains u where "t = Some u" and "succ \<in> set (term_succs u)"
proof (cases t)
  case (Some u)
  have "set (sccp_succs vals (Some u)) \<subseteq> set (term_succs u)"
    by (cases u) (simp_all add: sccp_succs_def term_succs_def del: get_Some_iff get_None_iff
        split: option.split lat.split mir_const.split)
  then show ?thesis
    using that assms Some by blast
qed (use assms in \<open>simp add: sccp_succs_def\<close>)

interpretation shrink_blocks: shrinking_step f "sccp_block fa" "\<lambda>bl. bl \<in> set (fn_blocks f)" for f fa
proof
  fix bl s assume bl: "bl \<in> set (fn_blocks f)"
  let ?s = "foldl (sccp_inst fa (blk_id bl)) s (blk_insts bl)"
  let ?succs = "sccp_succs (sc_vals ?s) (blk_term bl)"
  have "\<forall>succ \<in> set ?succs. (blk_id bl, succ) \<in> set (cfg_edges f)"
  proof
    fix succ assume "succ \<in> set ?succs"
    then obtain u where "blk_term bl = Some u" "succ \<in> set (term_succs u)"
      by (rule sccp_succs_subset)
    then show "(blk_id bl, succ) \<in> set (cfg_edges f)"
      using bl by (force simp: cfg_edges_def)
  qed
  from shrink_edges.shrink_fold[OF this, of ?s] shrink_insts.shrink_fold[of "blk_insts bl" f fa "blk_id bl" s]
  show "todo f (sccp_block fa s bl) \<le> todo f s
    \<and> (sc_changed (sccp_block fa s bl) \<longrightarrow> sc_changed s \<or> todo f (sccp_block fa s bl) < todo f s)"
    by (auto simp: sccp_block_def Let_def)
qed

lemma sccp_sweeps_terminate: "todo f s < n \<Longrightarrow> sccp_sweeps fa f n s \<noteq> None"
proof (induction n arbitrary: s)
  case (Suc n)
  have "todo f (sccp_sweep fa f s) \<le> todo f s \<and> (sc_changed (sccp_sweep fa f s) \<longrightarrow> todo f (sccp_sweep fa f s) < todo f s)"
    using shrink_blocks.shrink_fold[of "fn_blocks f" f fa "s\<lparr>sc_changed := False\<rparr>"] by (simp add: sccp_sweep_def todo_def)
  then show ?case
    using Suc.IH[of "sccp_sweep fa f s"] Suc.prems by (auto simp: Let_def)
qed simp

lemma todo_init: "todo f (sccp_init f) \<le> 2 * length (all_dests (all_insts f)) + 2 * length (cfg_edges f)"
proof -
  let ?vals = "sc_vals (sccp_init f)" and ?ds = "set (all_dests (all_insts f))"
  have "lat_rank (?vals ! v) \<le> (if v \<in> ?ds then 2 else 0)" if "v < length ?vals" for v
    using that sccp_init_lats(2)[of f v] by (auto simp: lat_of_def get_def lat_rank_def sccp_init_lats(1) split: if_splits)
  then have "sum_list (map lat_rank ?vals) \<le> (\<Sum>v < length ?vals. if v \<in> ?ds then 2 else 0)"
    unfolding sum_list_sum_nth by (auto simp: atLeast0LessThan intro!: sum_mono)
  also have "\<dots> = 2 * card ({..<length ?vals} \<inter> ?ds)"
    by (simp add: sum.If_cases)
  also have "\<dots> \<le> 2 * length (all_dests (all_insts f))"
    by (intro mult_le_mono2 order.trans[OF card_mono card_length]) auto
  finally have "sum_list (map lat_rank ?vals) \<le> 2 * length (all_dests (all_insts f))" .
  moreover have "card (set (cfg_edges f) - sc_edges (sccp_init f)) \<le> length (cfg_edges f)"
    by (intro order.trans[OF card_mono card_length]) auto
  moreover have "card (snd ` set (cfg_edges f) - sc_reached (sccp_init f)) \<le> length (cfg_edges f)"
    by (intro order.trans[OF card_mono order.trans[OF card_image_le card_length]]) auto
  ultimately show ?thesis
    by (simp add: todo_def)
qed

text \<open>C30: the sweeps settle. Each sweep that changes anything lowers a value, or finds a new edge or block,
  so \<open>solve\<close> gives a solution within \<open>MAX_SWEEPS\<close> whenever twice the number of values the function
  defines and of its control-flow edges is below it, and a solution it gives is a fixpoint: one more sweep
  changes nothing.\<close>

theorem sccp_solve_settles:
  "(2 * length (all_dests (all_insts f)) + 2 * length (cfg_edges f) < MAX_SWEEPS \<longrightarrow> sccp_solve fa f \<noteq> None)
   \<and> (\<forall>vals reached edges. sccp_solve fa f = Some (vals, reached, edges) \<longrightarrow>
        sccp_sweep fa f \<lparr>sc_vals = vals, sc_reached = reached, sc_edges = edges, sc_changed = False\<rparr>
          = \<lparr>sc_vals = vals, sc_reached = reached, sc_edges = edges, sc_changed = False\<rparr>)"
proof (intro conjI impI allI)
  show "sccp_solve fa f \<noteq> None" if "2 * length (all_dests (all_insts f)) + 2 * length (cfg_edges f) < MAX_SWEEPS"
    using sccp_sweeps_terminate[of f "sccp_init f" MAX_SWEEPS fa] todo_init[of f] that by (auto simp: sccp_solve_def)
next
  fix vals reached edges
  assume "sccp_solve fa f = Some (vals, reached, edges)"
  then obtain s where s: "sccp_sweeps fa f MAX_SWEEPS (sccp_init f) = Some s" "vals = sc_vals s" "reached = sc_reached s"
    "edges = sc_edges s"
    by (auto simp: sccp_solve_def)
  have "sccp_sweep fa f s = s \<and> \<not> sc_changed s" if "sccp_sweeps fa f n s0 = Some s" for n s0
    using that
  proof (induction n arbitrary: s0)
    case (Suc n)
    show ?case
    proof (cases "sc_changed (sccp_sweep fa f s0)")
      case False
      then have "s = s0\<lparr>sc_changed := False\<rparr>" "sccp_sweep fa f s0 = s"
        using Suc.prems quiet_blocks.quiet_fold[of fa "s0\<lparr>sc_changed := False\<rparr>" "fn_blocks f"]
        by (auto simp: Let_def sccp_sweep_def)
      then show ?thesis
        by (auto simp: sccp_sweep_def)
    qed (use Suc in \<open>simp add: Let_def\<close>)
  qed simp
  from this[OF s(1)] show "sccp_sweep fa f \<lparr>sc_vals = vals, sc_reached = reached, sc_edges = edges, sc_changed = False\<rparr>
      = \<lparr>sc_vals = vals, sc_reached = reached, sc_edges = edges, sc_changed = False\<rparr>"
    by (cases s) (auto simp: s)
qed

text \<open>A function that compares two constants, branches on the result and adds them in the arm that runs.\<close>

definition sample_branch :: mir_func where
  "sample_branch = \<lparr>fn_params = [], fn_ret_ty = Some TI64, fn_ret_hi_ty = None, fn_ret_layout = Word, fn_entry = 0,
     fn_blocks = [
       \<lparr>blk_id = 0, blk_insts = [Const 0 (CI64 3), Const 1 (CI64 4), Cmp 2 MLt TI64 0 1], blk_term = Some (Br 2 1 2)\<rparr>,
       \<lparr>blk_id = 1, blk_insts = [Bin 3 MAdd TI64 0 1], blk_term = Some (Jump 3)\<rparr>,
       \<lparr>blk_id = 2, blk_insts = [Const 4 (CI64 0)], blk_term = Some (Jump 3)\<rparr>,
       \<lparr>blk_id = 3, blk_insts = [Phi 5 TI64 [(1, 3), (2, 4)]], blk_term = Some (Return (Some 5) None)\<rparr>],
     fn_types = [TI64, TI64, TBool, TI64, TI64, TI64], fn_homes = []\<rparr>"

lemma sample_run_solved:
  "mir_verify [] sample_branch = Ok ()"
  "sccp_solve sample_float sample_branch =
     Some ([LConst (CI64 3), LConst (CI64 4), LConst (CBool True), LConst (CI64 7), LTop, LConst (CI64 7)],
       {0, 1, 3}, {(0, 1), (1, 3)})"
  by code_simp+

lemma scalar_stepI:
  assumes "b < length (fn_blocks f)" and "i < length (blk_insts (fn_blocks f ! b))"
    and "set (inst_operands (blk_insts (fn_blocks f ! b) ! i)) \<subseteq> dom env"
    and "scalar_result fa (mir_ty_of f) (words_of env) (blk_insts (fn_blocks f ! b) ! i) = Some (Ok w)"
    and "env' = env(inst_dest (blk_insts (fn_blocks f ! b) ! i) \<mapsto> w)"
  shows "mir_step fa f \<lparr>cf_block = b, cf_pred = p, cf_pc = i, cf_env = env\<rparr>
    \<lparr>cf_block = b, cf_pred = p, cf_pc = Suc i, cf_env = env'\<rparr>"
  using mir_step.scalar[of "\<lparr>cf_block = b, cf_pred = p, cf_pc = i, cf_env = env\<rparr>" f _ fa w] assms by simp

lemma edge_stepI:
  assumes "b < length (fn_blocks f)" and "i = length (blk_insts (fn_blocks f ! b))"
    and "blk_term (fn_blocks f ! b) = Some t" and "leaves_to t env b' env" and "b' < length (fn_blocks f)"
    and "enters b (block_phis (fn_blocks f ! b')) env env'" and "i' = length (block_phis (fn_blocks f ! b'))"
  shows "mir_step fa f \<lparr>cf_block = b, cf_pred = p, cf_pc = i, cf_env = env\<rparr>
    \<lparr>cf_block = b', cf_pred = Some b, cf_pc = i', cf_env = env'\<rparr>"
  using mir_step.edge[of "\<lparr>cf_block = b, cf_pred = p, cf_pc = i, cf_env = env\<rparr>" f t b' env env' fa] assms by simp

lemma sample_run_reaches:
  "(mir_step sample_float sample_branch)\<^sup>*\<^sup>* \<lparr>cf_block = 0, cf_pred = None, cf_pc = 0, cf_env = Map.empty\<rparr>
     \<lparr>cf_block = 3, cf_pred = Some 1, cf_pc = 1, cf_env = [0 \<mapsto> 3, 1 \<mapsto> 4, 2 \<mapsto> 1, 3 \<mapsto> 7, 5 \<mapsto> 7]\<rparr>"
proof -
  note run = sample_branch_def scalar_result_def const_word_def from_int_def words_of_def
  note phis = block_phis_def is_phi_def enters_def all_dests_def inst_dests_def inst_dest_hi_def
  let ?step = "mir_step sample_float sample_branch"
  have add: "arith_int IntAdd 3 4 = Ok 7"
    by code_simp
  have 1: "?step \<lparr>cf_block = 0, cf_pred = None, cf_pc = 0, cf_env = Map.empty\<rparr>
      \<lparr>cf_block = 0, cf_pred = None, cf_pc = Suc 0, cf_env = [0 \<mapsto> 3]\<rparr>"
    by (rule scalar_stepI[where w = 3]) (simp_all add: run)
  have 2: "?step \<lparr>cf_block = 0, cf_pred = None, cf_pc = Suc 0, cf_env = [0 \<mapsto> 3]\<rparr>
      \<lparr>cf_block = 0, cf_pred = None, cf_pc = Suc (Suc 0), cf_env = [0 \<mapsto> 3, 1 \<mapsto> 4]\<rparr>"
    by (rule scalar_stepI[where w = 4]) (simp_all add: run)
  have 3: "?step \<lparr>cf_block = 0, cf_pred = None, cf_pc = Suc (Suc 0), cf_env = [0 \<mapsto> 3, 1 \<mapsto> 4]\<rparr>
      \<lparr>cf_block = 0, cf_pred = None, cf_pc = Suc (Suc (Suc 0)), cf_env = [0 \<mapsto> 3, 1 \<mapsto> 4, 2 \<mapsto> 1]\<rparr>"
    by (rule scalar_stepI[where w = 1]) (simp_all add: run cmp_result_lane cmp_ord_def from_bool_def)
  have 4: "?step \<lparr>cf_block = 0, cf_pred = None, cf_pc = Suc (Suc (Suc 0)), cf_env = [0 \<mapsto> 3, 1 \<mapsto> 4, 2 \<mapsto> 1]\<rparr>
      \<lparr>cf_block = 1, cf_pred = Some 0, cf_pc = 0, cf_env = [0 \<mapsto> 3, 1 \<mapsto> 4, 2 \<mapsto> 1]\<rparr>"
    using leaves_to.br[of "[0 \<mapsto> 3, 1 \<mapsto> 4, 2 \<mapsto> 1]" 2 1 1 2]
    by (intro edge_stepI[where t = "Br 2 1 2"]) (simp_all add: run phis as_bool_def)
  have 5: "?step \<lparr>cf_block = 1, cf_pred = Some 0, cf_pc = 0, cf_env = [0 \<mapsto> 3, 1 \<mapsto> 4, 2 \<mapsto> 1]\<rparr>
      \<lparr>cf_block = 1, cf_pred = Some 0, cf_pc = Suc 0, cf_env = [0 \<mapsto> 3, 1 \<mapsto> 4, 2 \<mapsto> 1, 3 \<mapsto> 7]\<rparr>"
    by (rule scalar_stepI[where w = 7]) (simp_all add: run bin_result_int mir_int_op_def add)
  have 6: "?step \<lparr>cf_block = 1, cf_pred = Some 0, cf_pc = Suc 0, cf_env = [0 \<mapsto> 3, 1 \<mapsto> 4, 2 \<mapsto> 1, 3 \<mapsto> 7]\<rparr>
      \<lparr>cf_block = 3, cf_pred = Some 1, cf_pc = 1, cf_env = [0 \<mapsto> 3, 1 \<mapsto> 4, 2 \<mapsto> 1, 3 \<mapsto> 7, 5 \<mapsto> 7]\<rparr>"
    by (rule edge_stepI[where t = "Jump 3"]) (simp_all add: run phis leaves_to.jump)
  show ?thesis
    using 1 2 3 4 5 6 by (meson converse_rtranclp_into_rtranclp rtranclp.rtrancl_refl)
qed

theorem sccp_solve_sound_witness:
  "sccp_solve sample_float sample_branch =
     Some ([LConst (CI64 3), LConst (CI64 4), LConst (CBool True), LConst (CI64 7), LTop, LConst (CI64 7)],
       {0, 1, 3}, {(0, 1), (1, 3)})
   \<and> (7 :: u64) = const_word (CI64 7)"
proof -
  let ?vals = "[LConst (CI64 3), LConst (CI64 4), LConst (CBool True), LConst (CI64 7), LTop, LConst (CI64 7)]"
  have "payloads_fresh sample_branch"
    by (auto simp: payloads_fresh_def sample_branch_def)
  moreover have "starts sample_branch \<lparr>cf_block = 0, cf_pred = None, cf_pc = 0, cf_env = Map.empty\<rparr>"
    by (simp add: starts_def sample_branch_def block_phis_def is_phi_def)
  ultimately have "\<forall>v w k. [0 \<mapsto> 3, 1 \<mapsto> 4, 2 \<mapsto> 1, 3 \<mapsto> 7, 5 \<mapsto> 7] v = Some w \<and> lat_of ?vals v = LConst k \<longrightarrow> w = const_word k"
    using sccp_solve_sound[OF sample_run_solved(1) _ sample_run_solved(2) _ sample_run_reaches] by simp
  from this[rule_format, of 5 7 "CI64 7"] show ?thesis
    using sample_run_solved(2) by (simp add: lat_of_def get_def)
qed

theorem sccp_solve_settles_witness: "sccp_solve sample_float sample_branch \<noteq> None"
proof -
  have "2 * length (all_dests (all_insts sample_branch)) + 2 * length (cfg_edges sample_branch) < MAX_SWEEPS"
    by code_simp
  then show ?thesis
    using sccp_solve_settles[of sample_branch sample_float] by blast
qed

end
