(* ===== verification/Slab.thy ===== *)
theory Slab
  imports Coil_Prelude "HOL-Library.Log_Nat" "HOL-Library.Multiset"
begin

unbundle bit_operations_syntax

text \<open>
  The slab that hands out the slots of heap objects, after \<^verbatim>\<open>machine/src/memory/slab.rs\<close>: chunks of one
  size class each, the table and directory that find the chunk of an address, the free lists and the walk of
  the sweep. Addresses are natural numbers; the only arithmetic on them that may wrap is the cursor's step
  below the first slot, which wraps modulo \<open>2 ^ 64\<close>. Where the operating system maps a chunk is an argument.
  The nursery's own allocation is not modelled: a nursery chunk is one the sweep skips.
\<close>

section \<open>Slot offsets\<close>

record page_meta =
  pm_slot_size :: u32
  pm_slot_align :: u32
  pm_first_off :: u32
  pm_slot_magic :: u64

definition page_meta_new :: "u32 \<Rightarrow> u32 \<Rightarrow> u32 \<Rightarrow> page_meta" where
  "page_meta_new slot_size slot_align first_off =
     \<lparr>pm_slot_size = slot_size, pm_slot_align = slot_align, pm_first_off = first_off,
      pm_slot_magic = (- 1) div ucast slot_size + 1\<rparr>"

definition is_slot_offset :: "page_meta \<Rightarrow> u32 \<Rightarrow> bool" where
  "is_slot_offset m rel \<longleftrightarrow> ucast rel * pm_slot_magic m \<le> pm_slot_magic m - 1"

text \<open>Multiplying by \<open>ceil (2 ^ 64 / d)\<close> instead of dividing by \<open>d\<close>.\<close>

lemma magic_divides:
  fixes n d :: nat
  assumes "1 < d" and "d < 2 ^ 32" and "n < 2 ^ 32"
  defines "m \<equiv> (2 ^ 64 - 1) div d + 1"
  shows "(n * m) mod 2 ^ 64 \<le> m - 1 \<longleftrightarrow> d dvd n"
proof -
  define r where "r = m * d - 2 ^ 64"
  have "(2 ^ 64 - 1) div d * d + (2 ^ 64 - 1) mod d = (2 ^ 64 - 1 :: nat)"
    by (rule div_mult_mod_eq)
  then have "m * d + (2 ^ 64 - 1) mod d = 2 ^ 64 - 1 + d"
    unfolding m_def by (simp add: distrib_right)
  moreover have "(2 ^ 64 - 1) mod d < d"
    using assms(1) by simp
  ultimately have md: "m * d = 2 ^ 64 + r" and "2 ^ 64 \<le> m * d" and r: "r < d"
    unfolding r_def by simp_all
  define a b where "a = n div d" and "b = n mod d"
  have n: "n = a * d + b" and b: "b < d"
    using assms(1) by (simp_all add: a_def b_def)
  define t where "t = a * r + b * m"
  have "n * m = a * (m * d) + b * m"
    by (simp add: n algebra_simps)
  also have "\<dots> = a * 2 ^ 64 + t"
    unfolding md t_def by (simp add: algebra_simps)
  finally have nm: "(n * m) mod 2 ^ 64 = t mod 2 ^ 64"
    by simp
  have "t * d = a * d * r + b * (m * d)"
    by (simp add: t_def algebra_simps)
  also have "\<dots> = n * r + b * 2 ^ 64"
    unfolding md n by (simp add: algebra_simps)
  also have "\<dots> < 2 ^ 64 + b * 2 ^ 64"
  proof -
    have "n * r < 2 ^ 32 * 2 ^ 32"
      using assms(2,3) r by (intro mult_strict_mono) auto
    then show ?thesis
      by simp
  qed
  also have "\<dots> \<le> 2 ^ 64 * d"
    using b by (metis Suc_leI mult.commute mult_Suc mult_le_mono2)
  finally have t: "t < 2 ^ 64"
    by simp
  have "2 ^ 32 * d < m * d"
    using assms(2) unfolding md by (simp add: trans_less_add1)
  then have m: "2 ^ 32 < m"
    by simp
  show ?thesis
  proof (cases "b = 0")
    case True
    have "a * r \<le> n"
      using r unfolding n by (intro trans_le_add1 mult_le_mono2) simp
    then have "t \<le> m - 1"
      using True m assms(3) by (simp add: t_def)
    then show ?thesis
      using True t unfolding nm by (simp add: b_def mod_eq_0_iff_dvd)
  next
    case False
    then have "m \<le> t"
      by (auto simp: t_def intro!: trans_le_add2)
    then show ?thesis
      using False t m unfolding nm by (simp add: b_def mod_eq_0_iff_dvd)
  qed
qed

lemma is_slot_offset_dvd:
  assumes "0 < sz"
  shows "is_slot_offset (page_meta_new sz a f) rel \<longleftrightarrow> unat sz dvd unat rel"
proof (cases "sz = 1")
  case False
  let ?m = "(- 1) div ucast sz + 1 :: u64"
  have sz: "1 < unat sz" "unat sz < 2 ^ 32" "unat rel < 2 ^ 32"
    using assms False unsigned_less[of sz, where 'a = nat] unsigned_less[of rel, where 'a = nat]
    by (auto simp: word_less_nat_alt word_unat_eq_iff)
  have div: "unat ((- 1) div ucast sz :: u64) = (2 ^ 64 - 1) div unat sz"
    by (simp add: unat_div_distrib unsigned_minus_1_eq_mask mask_eq_exp_minus_1 unat_ucast_lits)
  have "(2 ^ 64 - 1) div unat sz < 2 ^ 64 - (1 :: nat)"
    using sz(1) by (intro div_less_dividend) auto
  then have m: "unat ?m = (2 ^ 64 - 1) div unat sz + 1"
    using div by (simp add: unat_plus_if')
  have "unat (ucast rel * ?m) = (unat rel * ((2 ^ 64 - 1) div unat sz + 1)) mod 2 ^ 64"
    unfolding unat_word_ariths(2) m by (simp add: unat_ucast_lits)
  moreover have "unat (?m - 1) = (2 ^ 64 - 1) div unat sz + 1 - 1"
    using div by simp
  ultimately show ?thesis
    using magic_divides[OF sz] by (simp add: is_slot_offset_def page_meta_new_def word_le_nat_alt del: One_nat_def)
qed (simp add: is_slot_offset_def page_meta_new_def)

section \<open>The chunk table and its directory\<close>

definition CHUNK :: nat where
  "CHUNK = 65536"

record chunk =
  ck_ptr :: nat
  ck_meta :: page_meta

type_synonym chunk_dir = "nat \<times> nat \<Rightarrow> u64"

definition DIR_LEN :: nat where
  "DIR_LEN = 65536"

definition dir_split :: "nat \<Rightarrow> (nat \<times> nat) option" where
  "dir_split addr = (let key = drop_bit 16 addr; hi = drop_bit 16 key in
     if hi < DIR_LEN then Some (hi, key mod DIR_LEN) else None)"

text \<open>Bucket by bucket, from the one that holds the chunk's start.\<close>

function dir_insert_from :: "u64 \<Rightarrow> nat \<Rightarrow> nat \<Rightarrow> chunk_dir \<Rightarrow> chunk_dir" where
  "dir_insert_from tag stop key_addr dir =
     (if key_addr < stop then
        (case dir_split key_addr of
           None \<Rightarrow> dir
         | Some e \<Rightarrow>
             (let cur = dir e;
                  packed = (if cur AND 0xFFFFFFFF = 0 then cur OR tag else cur OR push_bit 32 tag) in
              dir_insert_from tag stop (key_addr + 65536) (dir(e := packed))))
      else dir)"
  by pat_completeness auto
termination
  by (relation "measure (\<lambda>(tag, stop, key_addr, dir). stop - key_addr)") auto

declare dir_insert_from.simps [simp del]

definition dir_insert :: "chunk_dir \<Rightarrow> nat \<Rightarrow> nat \<Rightarrow> chunk_dir" where
  "dir_insert dir start index = dir_insert_from (of_nat index + 1) (start + CHUNK) (start - start mod 65536) dir"

definition dir_candidates :: "chunk_dir \<Rightarrow> nat \<Rightarrow> nat list" where
  "dir_candidates dir addr =
     (let none = 2 ^ 64 - 1; index = (\<lambda>t :: u64. if t = 0 then none else unat t - 1) in
      case dir_split addr of
        None \<Rightarrow> [none, none]
      | Some e \<Rightarrow> [index (dir e AND 0xFFFFFFFF), index (drop_bit 32 (dir e))])"

record chunk_table =
  ct_chunks :: "chunk list"
  ct_dir :: chunk_dir
  ct_lo :: nat
  ct_hi :: nat

definition table_new :: chunk_table where
  "table_new = \<lparr>ct_chunks = [], ct_dir = (\<lambda>_. 0), ct_lo = 2 ^ 64 - 1, ct_hi = 0\<rparr>"

definition table_may_contain :: "chunk_table \<Rightarrow> nat \<Rightarrow> bool" where
  "table_may_contain t addr \<longleftrightarrow> ct_lo t \<le> addr \<and> addr < ct_hi t"

definition table_push :: "chunk_table \<Rightarrow> chunk \<Rightarrow> chunk_table" where
  "table_push t c = \<lparr>ct_chunks = ct_chunks t @ [c], ct_dir = dir_insert (ct_dir t) (ck_ptr c) (length (ct_chunks t)),
     ct_lo = min (ct_lo t) (ck_ptr c), ct_hi = max (ct_hi t) (ck_ptr c + CHUNK)\<rparr>"

definition in_chunk :: "chunk \<Rightarrow> nat \<Rightarrow> bool" where
  "in_chunk c addr \<longleftrightarrow> ck_ptr c \<le> addr \<and> addr < ck_ptr c + CHUNK"

definition table_position :: "chunk_table \<Rightarrow> nat \<Rightarrow> nat option" where
  "table_position t addr =
     find (\<lambda>i. case get (ct_chunks t) i of Some c \<Rightarrow> in_chunk c addr | None \<Rightarrow> False) (dir_candidates (ct_dir t) addr)"

text \<open>Segment \<open>k\<close> of the table holds \<open>SEG0 * 2 ^ k\<close> chunks; a chunk's place in it is fixed by its index.\<close>

definition SEG0 :: nat where
  "SEG0 = 64"

definition seg_of :: "nat \<Rightarrow> nat \<times> nat" where
  "seg_of i = (let k = floorlog 2 (i div SEG0 + 1) - 1 in (k, i - SEG0 * (2 ^ k - 1)))"

section \<open>Finding a chunk\<close>

definition meets_bucket :: "chunk \<Rightarrow> nat \<Rightarrow> bool" where
  "meets_bucket c key \<longleftrightarrow> ck_ptr c < 65536 * key + 65536 \<and> 65536 * key < ck_ptr c + CHUNK"

definition chunks_apart :: "chunk \<Rightarrow> chunk \<Rightarrow> bool" where
  "chunks_apart c d \<longleftrightarrow> ck_ptr c + CHUNK \<le> ck_ptr d \<or> ck_ptr d + CHUNK \<le> ck_ptr c"

definition bucket_tags :: "chunk_table \<Rightarrow> nat \<Rightarrow> nat list" where
  "bucket_tags t key = filter (\<lambda>i. meets_bucket (ct_chunks t ! i) key) [0..<length (ct_chunks t)]"

fun packed_tags :: "nat list \<Rightarrow> u64 \<Rightarrow> bool" where
  "packed_tags [] w \<longleftrightarrow> w = 0"
| "packed_tags [i] w \<longleftrightarrow> w = of_nat i + 1"
| "packed_tags [i, j] w \<longleftrightarrow> w = (of_nat i + 1) OR push_bit 32 (of_nat j + 1)"
| "packed_tags _ w \<longleftrightarrow> False"

definition table_ok :: "chunk_table \<Rightarrow> bool" where
  "table_ok t \<longleftrightarrow> length (ct_chunks t) < 2 ^ 32 - 1
     \<and> (\<forall>c \<in> set (ct_chunks t). ck_ptr c + CHUNK \<le> 2 ^ 48 \<and> ct_lo t \<le> ck_ptr c \<and> ck_ptr c + CHUNK \<le> ct_hi t)
     \<and> (\<forall>i < length (ct_chunks t). \<forall>j < i. chunks_apart (ct_chunks t ! i) (ct_chunks t ! j))
     \<and> (\<forall>key < 2 ^ 32. packed_tags (bucket_tags t key) (ct_dir t (key div 65536, key mod 65536)))"

lemma dir_split_key:
  "dir_split addr = (if addr < 2 ^ 48 then Some (addr div 65536 div 65536, addr div 65536 mod 65536) else None)"
  by (auto simp: dir_split_def DIR_LEN_def drop_bit_eq_div Let_def)

lemma at_most_two:
  assumes "chunks_apart a b" "chunks_apart a c" "chunks_apart b c"
  shows "\<not> (meets_bucket a key \<and> meets_bucket b key \<and> meets_bucket c key)"
  using assms by (auto simp: chunks_apart_def meets_bucket_def CHUNK_def)

definition pack_tag :: "u64 \<Rightarrow> u64 \<Rightarrow> u64" where
  "pack_tag tag cur = (if cur AND 0xFFFFFFFF = 0 then cur OR tag else cur OR push_bit 32 tag)"

lemma dir_insert_from_at:
  assumes "stop \<le> 2 ^ 48" and "key < 2 ^ 32"
  shows "dir_insert_from tag stop (65536 * k) dir (key div 65536, key mod 65536) =
    (if k \<le> key \<and> 65536 * key < stop then pack_tag tag (dir (key div 65536, key mod 65536))
     else dir (key div 65536, key mod 65536))"
proof (induction "stop - 65536 * k" arbitrary: k dir rule: less_induct)
  case less
  show ?case
  proof (cases "65536 * k < stop")
    case True
    let ?e = "(k div 65536, k mod 65536)"
    have "dir_split (65536 * k) = Some ?e"
      using True assms(1) by (simp add: dir_split_key)
    then have "dir_insert_from tag stop (65536 * k) dir = dir_insert_from tag stop (65536 * Suc k) (dir(?e := pack_tag tag (dir ?e)))"
      using True by (subst dir_insert_from.simps) (simp add: Let_def pack_tag_def algebra_simps)
    moreover have "(key div 65536, key mod 65536) = ?e \<longleftrightarrow> key = k"
      by (metis Pair_inject div_mult_mod_eq)
    ultimately show ?thesis
      using less.hyps[of "Suc k" "dir(?e := pack_tag tag (dir ?e))"] True by auto
  qed (subst dir_insert_from.simps, auto)
qed

lemma dir_insert_at:
  assumes "start + CHUNK \<le> 2 ^ 48" and "key < 2 ^ 32"
  shows "dir_insert dir start i (key div 65536, key mod 65536) =
    (if start < 65536 * key + 65536 \<and> 65536 * key < start + CHUNK
     then pack_tag (of_nat i + 1) (dir (key div 65536, key mod 65536)) else dir (key div 65536, key mod 65536))"
proof -
  have "start - start mod 65536 = 65536 * (start div 65536)"
    by (simp add: minus_mod_eq_mult_div)
  moreover have "start div 65536 \<le> key \<longleftrightarrow> start < 65536 * key + 65536"
    using div_mult_mod_eq[of start 65536] mod_less_divisor[of 65536 start] by linarith
  ultimately show ?thesis
    using dir_insert_from_at[OF assms, of "of_nat i + 1" "start div 65536" dir] by (simp add: dir_insert_def)
qed

lemma tag_word:
  assumes "i < 2 ^ 32 - 1"
  shows "unat (of_nat i + 1 :: u64) = Suc i" "(of_nat i + 1 :: u64) AND 0xFFFFFFFF = of_nat i + 1"
    "drop_bit 32 (of_nat i + 1 :: u64) = 0" "(of_nat i + 1 :: u64) \<noteq> 0"
proof -
  show u: "unat (of_nat i + 1 :: u64) = Suc i"
    using assms by (simp add: unat_plus_if' unat_of_nat)
  have "(of_nat i + 1 :: u64) AND 0xFFFFFFFF = take_bit 32 (of_nat i + 1)"
    by (simp add: take_bit_eq_mask mask_eq_exp_minus_1)
  then show "(of_nat i + 1 :: u64) AND 0xFFFFFFFF = of_nat i + 1"
    using assms u by (simp add: word_unat_eq_iff unsigned_take_bit_eq take_bit_nat_eq_self)
  show "drop_bit 32 (of_nat i + 1 :: u64) = 0"
    unfolding word_unat_eq_iff unsigned_drop_bit_eq u using assms by (simp add: drop_bit_eq_div take_bit_nat_eq_self)
  show "(of_nat i + 1 :: u64) \<noteq> 0"
    using u by (metis nat.distinct(1) unsigned_0)
qed

lemma tag_words:
  assumes "i < 2 ^ 32 - 1" "j < 2 ^ 32 - 1"
  shows "((of_nat i + 1) OR push_bit 32 (of_nat j + 1)) AND 0xFFFFFFFF = (of_nat i + 1 :: u64)"
    "drop_bit 32 (push_bit 32 (of_nat j + 1)) = (of_nat j + 1 :: u64)"
proof -
  have mask: "(w :: u64) AND 0xFFFFFFFF = take_bit 32 w" for w
    by (simp add: take_bit_eq_mask mask_eq_exp_minus_1)
  show "((of_nat i + 1) OR push_bit 32 (of_nat j + 1)) AND 0xFFFFFFFF = (of_nat i + 1 :: u64)"
    using tag_word(2)[OF assms(1)] by (simp add: mask take_bit_push_bit)
  have "take_bit 32 (of_nat j + 1 :: u64) = of_nat j + 1"
    using tag_word(2)[OF assms(2)] by (simp add: mask)
  moreover have "drop_bit 32 (push_bit 32 (of_nat j + 1 :: u64)) = take_bit 32 (of_nat j + 1)"
    by (rule bit_word_eqI) (auto simp: bit_simps)
  ultimately show "drop_bit 32 (push_bit 32 (of_nat j + 1)) = (of_nat j + 1 :: u64)"
    by simp
qed

lemma bucket_tags_push:
  "bucket_tags (table_push t c) key = bucket_tags t key @ (if meets_bucket c key then [length (ct_chunks t)] else [])"
  by (auto simp: bucket_tags_def table_push_def nth_append intro!: filter_cong)

lemma bucket_tags_few:
  assumes "\<forall>i < length (ct_chunks t). \<forall>j < i. chunks_apart (ct_chunks t ! i) (ct_chunks t ! j)"
    and "\<forall>d \<in> set (ct_chunks t). chunks_apart c d" and "meets_bucket c key"
  shows "length (bucket_tags t key) \<le> 1"
proof (rule ccontr)
  assume "\<not> length (bucket_tags t key) \<le> 1"
  then obtain i j rest where ij: "bucket_tags t key = i # j # rest"
    by (cases "bucket_tags t key" rule: remdups_adj.cases) auto
  have "sorted_wrt (<) (bucket_tags t key)" "set (bucket_tags t key) \<subseteq> {k. k < length (ct_chunks t) \<and> meets_bucket (ct_chunks t ! k) key}"
    by (auto simp: bucket_tags_def sorted_wrt_filter)
  then have "i < j" "j < length (ct_chunks t)" "meets_bucket (ct_chunks t ! i) key" "meets_bucket (ct_chunks t ! j) key"
    by (auto simp: ij)
  then show False
    using at_most_two[of c "ct_chunks t ! j" "ct_chunks t ! i" key] assms by auto
qed

lemma packed_tags_push:
  assumes "packed_tags ts cur" and "length ts \<le> 1" and "\<forall>i \<in> set ts. i < 2 ^ 32 - 1"
  shows "packed_tags (ts @ [n]) (pack_tag (of_nat n + 1) cur)"
proof (cases ts)
  case (Cons i rest)
  then show ?thesis
    using assms tag_word[of i] by (auto simp: pack_tag_def)
qed (use assms in \<open>simp add: pack_tag_def\<close>)

lemma table_push_ok:
  assumes "table_ok t" and "length (ct_chunks t) < 2 ^ 32 - 2" and "ck_ptr c + CHUNK \<le> 2 ^ 48"
    and "\<forall>d \<in> set (ct_chunks t). chunks_apart c d"
  shows "table_ok (table_push t c)"
proof -
  have apart: "\<forall>i < length (ct_chunks t). \<forall>j < i. chunks_apart (ct_chunks t ! i) (ct_chunks t ! j)"
    and dir: "\<forall>key < 2 ^ 32. packed_tags (bucket_tags t key) (ct_dir t (key div 65536, key mod 65536))"
    using assms(1) by (auto simp: table_ok_def)
  have "packed_tags (bucket_tags (table_push t c) key) (ct_dir (table_push t c) (key div 65536, key mod 65536))"
    if key: "key < 2 ^ 32" for key
  proof -
    have at: "ct_dir (table_push t c) (key div 65536, key mod 65536) =
        (if meets_bucket c key then pack_tag (of_nat (length (ct_chunks t)) + 1) (ct_dir t (key div 65536, key mod 65536))
         else ct_dir t (key div 65536, key mod 65536))"
      using dir_insert_at[OF assms(3) key] by (simp add: table_push_def meets_bucket_def)
    have "\<forall>i \<in> set (bucket_tags t key). i < 2 ^ 32 - 1"
      using assms(2) by (auto simp: bucket_tags_def)
    then show ?thesis
      using dir key bucket_tags_few[OF apart assms(4)] unfolding at bucket_tags_push by (auto intro: packed_tags_push)
  qed
  moreover have "chunks_apart (ct_chunks (table_push t c) ! i) (ct_chunks (table_push t c) ! j)"
    if "i < length (ct_chunks (table_push t c))" "j < i" for i j
    using that apart assms(4) by (auto simp: table_push_def nth_append less_Suc_eq)
  ultimately show ?thesis
    using assms by (auto simp: table_ok_def table_push_def)
qed

lemma table_new_ok: "table_ok table_new"
  by (simp add: table_ok_def table_new_def bucket_tags_def)

lemma dir_candidates_at:
  assumes "table_ok t" and "addr < 2 ^ 48"
  shows "i \<in> set (bucket_tags t (addr div 65536)) \<Longrightarrow> i \<in> set (dir_candidates (ct_dir t) addr)"
    and "i \<in> set (dir_candidates (ct_dir t) addr) \<Longrightarrow> i < length (ct_chunks t) \<Longrightarrow> i \<in> set (bucket_tags t (addr div 65536))"
proof -
  let ?ts = "bucket_tags t (addr div 65536)" and ?w = "ct_dir t (addr div 65536 div 65536, addr div 65536 mod 65536)"
  have len: "length (ct_chunks t) < 2 ^ 32 - 1"
    using assms(1) by (simp add: table_ok_def)
  have "packed_tags ?ts ?w"
    using assms by (auto simp: table_ok_def)
  moreover have "\<forall>i \<in> set ?ts. i < 2 ^ 32 - 1"
    using len by (auto simp: bucket_tags_def)
  ultimately have "dir_candidates (ct_dir t) addr = (case ?ts of [] \<Rightarrow> [2 ^ 64 - 1, 2 ^ 64 - 1] | [i] \<Rightarrow> [i, 2 ^ 64 - 1] | i # j # _ \<Rightarrow> [i, j])
      \<and> length ?ts \<le> 2"
    using assms(2) by (cases "(?ts, ?w)" rule: packed_tags.cases)
      (auto simp: dir_candidates_def dir_split_key Let_def tag_word tag_words)
  then show "i \<in> set ?ts \<Longrightarrow> i \<in> set (dir_candidates (ct_dir t) addr)"
    "i \<in> set (dir_candidates (ct_dir t) addr) \<Longrightarrow> i < length (ct_chunks t) \<Longrightarrow> i \<in> set ?ts"
    using len by (auto split: list.splits)
qed

lemma find_unique:
  assumes "\<And>x y. x \<in> set xs \<Longrightarrow> y \<in> set xs \<Longrightarrow> P x \<Longrightarrow> P y \<Longrightarrow> x = y"
  shows "find P xs = Some i \<longleftrightarrow> i \<in> set xs \<and> P i"
  using assms by (induction xs) auto

lemma table_position_iff:
  assumes "table_ok t"
  shows "table_position t addr = Some i \<longleftrightarrow> i < length (ct_chunks t) \<and> in_chunk (ct_chunks t ! i) addr"
proof -
  have one: "i = j" if "i < length (ct_chunks t)" "j < length (ct_chunks t)" "in_chunk (ct_chunks t ! i) addr"
    "in_chunk (ct_chunks t ! j) addr" for i j
    using assms that by (cases i j rule: linorder_cases) (fastforce simp: table_ok_def chunks_apart_def in_chunk_def)+
  have hit: "i \<in> set (dir_candidates (ct_dir t) addr)" if "i < length (ct_chunks t)" "in_chunk (ct_chunks t ! i) addr" for i
  proof -
    have "ct_chunks t ! i \<in> set (ct_chunks t)"
      using that by simp
    then have "addr < 2 ^ 48"
      using assms that(2) by (fastforce simp: table_ok_def in_chunk_def)
    moreover have "i \<in> set (bucket_tags t (addr div 65536))"
      using that by (auto simp: bucket_tags_def meets_bucket_def in_chunk_def CHUNK_def)
    ultimately show ?thesis
      using dir_candidates_at(1)[OF assms] by simp
  qed
  show ?thesis
    unfolding table_position_def by (subst find_unique) (auto split: option.splits intro: one hit)
qed

section \<open>The slab\<close>

type_synonym slot_class = "u32 \<times> u32"

record free_class =
  fc_key :: slot_class
  fc_slots :: "nat list"
  fc_low_water :: nat

record slab =
  sb_table :: chunk_table
  sb_free :: "free_class list"
  sb_released :: "(slot_class \<times> nat list) list"
  sb_released_mask :: "bool list"
  sb_young_mask :: "bool list"
  sb_cycles_since_scan :: nat

abbreviation sb_chunks :: "slab \<Rightarrow> chunk list" where
  "sb_chunks s \<equiv> ct_chunks (sb_table s)"

definition chunk_class :: "chunk \<Rightarrow> slot_class" where
  "chunk_class c = (pm_slot_size (ck_meta c), pm_slot_align (ck_meta c))"

definition is_released :: "slab \<Rightarrow> nat \<Rightarrow> bool" where
  "is_released s i = (case get (sb_released_mask s) i of Some b \<Rightarrow> b | None \<Rightarrow> False)"

definition is_young_chunk :: "slab \<Rightarrow> nat \<Rightarrow> bool" where
  "is_young_chunk s i = (case get (sb_young_mask s) i of Some b \<Rightarrow> b | None \<Rightarrow> False)"

definition slab_new :: slab where
  "slab_new = \<lparr>sb_table = table_new, sb_free = [], sb_released = [], sb_released_mask = [], sb_young_mask = [],
     sb_cycles_since_scan = 0\<rparr>"

text \<open>\<open>chunk_for\<close> looks in a cache of recent answers first; the cache holds chunk indices.\<close>

type_synonym recent_cache = "nat \<Rightarrow> nat option"

definition recent_index :: "nat \<Rightarrow> nat" where
  "recent_index addr = drop_bit 16 addr mod 64"

definition chunk_for_slow :: "slab \<Rightarrow> recent_cache \<Rightarrow> nat \<Rightarrow> chunk option \<times> recent_cache" where
  "chunk_for_slow s recent addr =
     (case Option.bind (table_position (sb_table s) addr) (\<lambda>i. map_option (Pair i) (get (sb_chunks s) i)) of
        None \<Rightarrow> (None, recent)
      | Some (i, c) \<Rightarrow> (Some c, recent(recent_index addr := Some i)))"

definition chunk_for :: "slab \<Rightarrow> recent_cache \<Rightarrow> nat \<Rightarrow> chunk option \<times> recent_cache" where
  "chunk_for s recent addr =
     (let miss = (if \<not> table_may_contain (sb_table s) addr then (None, recent) else chunk_for_slow s recent addr) in
      case Option.bind (recent (recent_index addr)) (get (sb_chunks s)) of
        Some c \<Rightarrow> if in_chunk c addr then (Some c, recent) else miss
      | None \<Rightarrow> miss)"

definition contains_slot :: "slab \<Rightarrow> recent_cache \<Rightarrow> nat \<Rightarrow> bool" where
  "contains_slot s recent addr = (case fst (chunk_for s recent addr) of
     None \<Rightarrow> False
   | Some c \<Rightarrow>
       (let off = addr - ck_ptr c; first_off = unat (pm_first_off (ck_meta c)) in
        if off < first_off then False
        else is_slot_offset (ck_meta c) (of_nat (off - first_off))
          \<and> off + unat (pm_slot_size (ck_meta c)) \<le> CHUNK))"

section \<open>The walk over every slot\<close>

record slot_cursor =
  cu_started :: bool
  cu_chunk :: nat
  cu_remaining :: nat
  cu_next :: nat
  cu_slot_size :: nat
  cu_class :: slot_class
  cu_skip_young :: bool
  cu_free_class :: nat

definition cursor_default :: slot_cursor where
  "cursor_default = \<lparr>cu_started = False, cu_chunk = 0, cu_remaining = 0, cu_next = 0, cu_slot_size = 0,
     cu_class = (0, 0), cu_skip_young = False, cu_free_class = 0\<rparr>"

definition cursor_sweep :: slot_cursor where
  "cursor_sweep = cursor_default\<lparr>cu_skip_young := True\<rparr>"

definition wrapping_sub :: "nat \<Rightarrow> nat \<Rightarrow> nat" where
  "wrapping_sub a b = (a + (2 ^ 64 - b mod 2 ^ 64)) mod 2 ^ 64"

definition walk_skips :: "slab \<Rightarrow> slot_cursor \<Rightarrow> nat \<Rightarrow> bool" where
  "walk_skips s cur i \<longleftrightarrow> is_released s i \<or> cu_skip_young cur \<and> is_young_chunk s i"

primrec enter_chunk :: "slab \<Rightarrow> slot_cursor \<Rightarrow> nat \<Rightarrow> nat option \<times> slot_cursor" where
  "enter_chunk s cur 0 = (None, cur\<lparr>cu_chunk := 0\<rparr>)"
| "enter_chunk s cur (Suc i) = (case get (sb_chunks s) i of
     None \<Rightarrow> enter_chunk s cur i
   | Some c \<Rightarrow>
       if walk_skips s cur i then enter_chunk s cur i
       else (let base = ck_ptr c; size = unat (pm_slot_size (ck_meta c)); first = base + unat (pm_first_off (ck_meta c));
                 slots = (base + CHUNK - first) div size in
         if slots = 0 then enter_chunk s cur i
         else (let top = first + (slots - 1) * size in
           (Some top, cur\<lparr>cu_chunk := i, cu_slot_size := size, cu_class := chunk_class c, cu_free_class := 0,
              cu_remaining := slots - 1, cu_next := wrapping_sub top size\<rparr>))))"

definition enter_next_chunk :: "slab \<Rightarrow> slot_cursor \<Rightarrow> nat option \<times> slot_cursor" where
  "enter_next_chunk s cur =
     (let cur' = (if \<not> cu_started cur then cur\<lparr>cu_started := True, cu_chunk := length (sb_chunks s)\<rparr> else cur) in
      enter_chunk s cur' (cu_chunk cur'))"

definition next_slot :: "slab \<Rightarrow> slot_cursor \<Rightarrow> nat option \<times> slot_cursor" where
  "next_slot s cur =
     (if 0 < cu_remaining cur then
        (Some (cu_next cur), cur\<lparr>cu_next := wrapping_sub (cu_next cur) (cu_slot_size cur), cu_remaining := cu_remaining cur - 1\<rparr>)
      else enter_next_chunk s cur)"

definition walk_passed :: "slab \<Rightarrow> slot_cursor \<Rightarrow> nat \<Rightarrow> bool" where
  "walk_passed s cur addr =
     (if \<not> cu_started cur then False
      else case table_position (sb_table s) addr of
        None \<Rightarrow> False
      | Some i \<Rightarrow> cu_chunk cur < i \<or> i = cu_chunk cur \<and> (cu_remaining cur = 0 \<or> cu_next cur < addr))"

section \<open>Free lists\<close>

text \<open>A free list is a vector used as a stack: its back is the end of the list.\<close>

fun pop_class :: "slot_class \<Rightarrow> free_class list \<Rightarrow> (nat \<times> free_class list) option" where
  "pop_class key [] = None"
| "pop_class key (c # cs) =
     (if fc_key c = key then
        (if fc_slots c = [] then None
         else Some (last (fc_slots c), c\<lparr>fc_slots := butlast (fc_slots c),
                fc_low_water := min (fc_low_water c) (length (fc_slots c) - 1)\<rparr> # cs))
      else map_option (\<lambda>(p, cs'). (p, c # cs')) (pop_class key cs))"

fun append_class :: "slot_class \<Rightarrow> nat list \<Rightarrow> free_class list \<Rightarrow> free_class list" where
  "append_class key slots [] = (if slots = [] then [] else [\<lparr>fc_key = key, fc_slots = slots, fc_low_water = length slots\<rparr>])"
| "append_class key slots (c # cs) =
     (if fc_key c = key then c\<lparr>fc_slots := fc_slots c @ slots\<rparr> # cs else c # append_class key slots cs)"

fun free_in_class :: "slot_class \<Rightarrow> nat \<Rightarrow> free_class list \<Rightarrow> free_class list" where
  "free_in_class key p [] = [\<lparr>fc_key = key, fc_slots = [p], fc_low_water = 0\<rparr>]"
| "free_in_class key p (c # cs) =
     (if fc_key c = key then c\<lparr>fc_slots := fc_slots c @ [p]\<rparr> # cs else c # free_in_class key p cs)"

definition slab_free :: "slab \<Rightarrow> recent_cache \<Rightarrow> nat \<Rightarrow> slab" where
  "slab_free s recent p = (case fst (chunk_for s recent p) of
     None \<Rightarrow> s
   | Some c \<Rightarrow> s\<lparr>sb_free := free_in_class (chunk_class c) p (sb_free s)\<rparr>)"

text \<open>The cursor remembers where its class is in the free lists, plus one.\<close>

definition free_at_cursor :: "slab \<Rightarrow> slot_cursor \<Rightarrow> nat \<Rightarrow> slab \<times> slot_cursor" where
  "free_at_cursor s cur p =
     (if cu_free_class cur = 0 then
        (let free = free_in_class (cu_class cur) p (sb_free s) in
         (s\<lparr>sb_free := free\<rparr>,
          cur\<lparr>cu_free_class := 1 + length (takeWhile (\<lambda>c. fc_key c \<noteq> cu_class cur) free)\<rparr>))
      else
        (let i = cu_free_class cur - 1; c = sb_free s ! i in
         (s\<lparr>sb_free := (sb_free s)[i := c\<lparr>fc_slots := fc_slots c @ [p]\<rparr>]\<rparr>, cur)))"

definition give_back :: "slab \<Rightarrow> slot_class \<Rightarrow> nat list \<Rightarrow> slab" where
  "give_back s key slots = (if slots = [] then s else s\<lparr>sb_free := append_class key slots (sb_free s)\<rparr>)"

section \<open>Carving a chunk\<close>

definition align_up :: "u64 \<Rightarrow> u64 \<Rightarrow> u64" where
  "align_up addr align = (addr + align - 1) AND NOT (align - 1)"

text \<open>Slot by slot while one more fits; the slot size is not zero.\<close>

function carve_from :: "nat \<Rightarrow> nat \<Rightarrow> nat \<Rightarrow> nat list" where
  "carve_from slot_size stop p =
     (if 0 < slot_size \<and> p + slot_size \<le> stop then p # carve_from slot_size stop (p + slot_size) else [])"
  by pat_completeness auto
termination
  by (relation "measure (\<lambda>(slot_size, stop, p). stop - p)") auto

declare carve_from.simps [simp del]

definition set_released :: "slab \<Rightarrow> nat \<Rightarrow> bool \<Rightarrow> slab" where
  "set_released s i b =
     (let mask' = (if length (sb_released_mask s) \<le> i
        then sb_released_mask s @ replicate (i + 1 - length (sb_released_mask s)) False else sb_released_mask s) in
      s\<lparr>sb_released_mask := mask'[i := b]\<rparr>)"

text \<open>\<open>None\<close> is the panic on a chunk too small for one slot.\<close>

definition carve_slots :: "slab \<Rightarrow> nat \<Rightarrow> u32 \<Rightarrow> u32 \<Rightarrow> bool \<Rightarrow> (nat \<times> slab) option" where
  "carve_slots s ptr slot_size align new_chunk =
     (let first = unat (align_up (of_nat ptr) (ucast align)); first_off = first - ptr; key = (slot_size, align);
          slots = carve_from (unat slot_size) (ptr + CHUNK) first;
          s1 = s\<lparr>sb_free := append_class key (rev (tl slots)) (sb_free s)\<rparr>;
          s2 = (if new_chunk then s1\<lparr>sb_table := table_push (sb_table s1)
                  \<lparr>ck_ptr = ptr, ck_meta = page_meta_new slot_size align (of_nat first_off)\<rparr>\<rparr> else s1) in
      if slots = [] then None else Some (hd slots, s2))"

fun pop_released :: "slot_class \<Rightarrow> (slot_class \<times> nat list) list \<Rightarrow> (nat \<times> (slot_class \<times> nat list) list) option" where
  "pop_released key [] = None"
| "pop_released key ((k, l) # rs) =
     (if k = key then (if l = [] then None else Some (last l, (k, butlast l) # rs))
      else map_option (\<lambda>(i, rs'). (i, (k, l) # rs')) (pop_released key rs))"

text \<open>\<open>base\<close> is where the operating system would map a new chunk.\<close>

definition carve_page :: "slab \<Rightarrow> nat \<Rightarrow> u32 \<Rightarrow> u32 \<Rightarrow> (nat \<times> slab) option" where
  "carve_page s base slot_size align =
     (case pop_released (slot_size, align) (sb_released s) of
        None \<Rightarrow> carve_slots s base slot_size align True
      | Some (i, released) \<Rightarrow>
          (let s1 = s\<lparr>sb_released := released\<rparr> in
           case get (sb_chunks s1) i of
             None \<Rightarrow> carve_slots s1 base slot_size align True
           | Some c \<Rightarrow> carve_slots (set_released s1 i False) (ck_ptr c) slot_size align False))"

definition slab_alloc :: "slab \<Rightarrow> nat \<Rightarrow> u32 \<Rightarrow> u32 \<Rightarrow> (nat \<times> slab) option" where
  "slab_alloc s base slot_size align = (case pop_class (slot_size, align) (sb_free s) of
     Some (p, free) \<Rightarrow> Some (p, s\<lparr>sb_free := free\<rparr>)
   | None \<Rightarrow> carve_page s base slot_size align)"

section \<open>The slots of the chunks\<close>

definition chunk_slots :: "chunk \<Rightarrow> nat list" where
  "chunk_slots c = (let first = unat (pm_first_off (ck_meta c)); size = unat (pm_slot_size (ck_meta c)) in
     map (\<lambda>k. ck_ptr c + first + k * size) [0..<(CHUNK - first) div size])"

definition chunk_ok :: "chunk \<Rightarrow> bool" where
  "chunk_ok c \<longleftrightarrow> 0 < pm_slot_size (ck_meta c)
     \<and> unat (pm_first_off (ck_meta c)) + unat (pm_slot_size (ck_meta c)) \<le> CHUNK
     \<and> ck_meta c = page_meta_new (pm_slot_size (ck_meta c)) (pm_slot_align (ck_meta c)) (pm_first_off (ck_meta c))"

definition slab_ok :: "slab \<Rightarrow> bool" where
  "slab_ok s \<longleftrightarrow> table_ok (sb_table s) \<and> (\<forall>c \<in> set (sb_chunks s). chunk_ok c)"

lemma chunk_slots_iff:
  assumes "chunk_ok c"
  shows "addr \<in> set (chunk_slots c) \<longleftrightarrow> in_chunk c addr \<and> unat (pm_first_off (ck_meta c)) \<le> addr - ck_ptr c
    \<and> unat (pm_slot_size (ck_meta c)) dvd addr - ck_ptr c - unat (pm_first_off (ck_meta c))
    \<and> addr - ck_ptr c + unat (pm_slot_size (ck_meta c)) \<le> CHUNK"
proof -
  define p f z where "p = ck_ptr c" and "f = unat (pm_first_off (ck_meta c))" and "z = unat (pm_slot_size (ck_meta c))"
  have z: "0 < z" "f + z \<le> CHUNK"
    using assms by (simp_all add: chunk_ok_def z_def f_def word_less_nat_alt)
  have "k < (CHUNK - f) div z \<longleftrightarrow> f + k * z + z \<le> CHUNK" for k
    using z less_eq_div_iff_mult_less_eq[of z "Suc k" "CHUNK - f"] by (auto simp: Suc_le_eq)
  then have "addr \<in> set (chunk_slots c) \<longleftrightarrow> (\<exists>k. addr = p + f + k * z \<and> f + k * z + z \<le> CHUNK)"
    by (auto simp: chunk_slots_def Let_def p_def f_def z_def)
  also have "\<dots> \<longleftrightarrow> p \<le> addr \<and> addr < p + CHUNK \<and> f \<le> addr - p \<and> z dvd addr - p - f \<and> addr - p + z \<le> CHUNK"
  proof
    assume a: "p \<le> addr \<and> addr < p + CHUNK \<and> f \<le> addr - p \<and> z dvd addr - p - f \<and> addr - p + z \<le> CHUNK"
    then obtain k where "addr - p - f = k * z"
      by (auto simp: dvd_def mult.commute)
    then show "\<exists>k. addr = p + f + k * z \<and> f + k * z + z \<le> CHUNK"
      using a by (intro exI[of _ k]) linarith
  qed (use z in auto)
  finally show ?thesis
    by (auto simp: in_chunk_def p_def f_def z_def)
qed

lemma chunk_for_answer:
  assumes "slab_ok s"
  shows "fst (chunk_for s recent addr) = Some c \<longleftrightarrow> c \<in> set (sb_chunks s) \<and> in_chunk c addr"
proof -
  have t: "table_ok (sb_table s)"
    using assms by (simp add: slab_ok_def)
  have "fst (chunk_for_slow s recent addr) = Option.bind (table_position (sb_table s) addr) (get (sb_chunks s))"
    by (simp add: chunk_for_slow_def get_def split: option.split Option.bind_split)
  then have slow: "fst (chunk_for_slow s recent addr) = Some c \<longleftrightarrow> c \<in> set (sb_chunks s) \<and> in_chunk c addr" for c
    by (auto simp: bind_eq_Some_conv table_position_iff[OF t] in_set_conv_nth)
  have one: "c = d" if "c \<in> set (sb_chunks s)" "in_chunk c addr" "d \<in> set (sb_chunks s)" "in_chunk d addr" for c d
    using slow[of c] slow[of d] that by simp
  have bounds: "table_may_contain (sb_table s) addr" if "c \<in> set (sb_chunks s)" "in_chunk c addr" for c
    using t that by (fastforce simp: table_ok_def table_may_contain_def in_chunk_def)
  let ?miss = "if \<not> table_may_contain (sb_table s) addr then (None, recent) else chunk_for_slow s recent addr"
  have miss: "fst ?miss = Some c \<longleftrightarrow> c \<in> set (sb_chunks s) \<and> in_chunk c addr" for c
    using slow bounds by auto
  show ?thesis
  proof (cases "Option.bind (recent (recent_index addr)) (get (sb_chunks s))")
    case (Some d)
    then have "d \<in> set (sb_chunks s)"
      by (auto simp: bind_eq_Some_conv)
    then show ?thesis
      using miss one by (cases "in_chunk d addr") (auto simp: chunk_for_def Some)
  qed (use miss in \<open>simp add: chunk_for_def\<close>)
qed

lemma contains_slot_iff:
  assumes "slab_ok s"
  shows "contains_slot s recent addr \<longleftrightarrow> (\<exists>c \<in> set (sb_chunks s). addr \<in> set (chunk_slots c))"
proof -
  have off: "is_slot_offset (ck_meta c) (of_nat (addr - ck_ptr c - unat (pm_first_off (ck_meta c)))) \<longleftrightarrow>
      unat (pm_slot_size (ck_meta c)) dvd addr - ck_ptr c - unat (pm_first_off (ck_meta c))"
    if "chunk_ok c" "in_chunk c addr" for c
  proof -
    have "addr - ck_ptr c - unat (pm_first_off (ck_meta c)) < 2 ^ 32"
      using that(2) by (auto simp: in_chunk_def CHUNK_def)
    then have "unat (of_nat (addr - ck_ptr c - unat (pm_first_off (ck_meta c))) :: u32) = addr - ck_ptr c - unat (pm_first_off (ck_meta c))"
      by (simp add: unat_of_nat)
    then show ?thesis
      using that(1) is_slot_offset_dvd[of "pm_slot_size (ck_meta c)" "pm_slot_align (ck_meta c)" "pm_first_off (ck_meta c)"]
      by (simp add: chunk_ok_def)
  qed
  have ok: "chunk_ok c" if "c \<in> set (sb_chunks s)" for c
    using assms that by (simp add: slab_ok_def)
  have "contains_slot s recent addr \<longleftrightarrow> (\<exists>c. fst (chunk_for s recent addr) = Some c \<and> addr \<in> set (chunk_slots c))"
  proof (cases "fst (chunk_for s recent addr)")
    case (Some c)
    then have "chunk_ok c" "in_chunk c addr"
      using chunk_for_answer[OF assms] ok by auto
    then show ?thesis
      using off by (auto simp: contains_slot_def Some Let_def chunk_slots_iff)
  qed (simp add: contains_slot_def)
  also have "\<dots> \<longleftrightarrow> (\<exists>c \<in> set (sb_chunks s). addr \<in> set (chunk_slots c))"
    using chunk_slots_iff ok by (auto simp: chunk_for_answer[OF assms])
  finally show ?thesis .
qed

section \<open>What a walk visits\<close>

definition walk_chunks :: "slab \<Rightarrow> slot_cursor \<Rightarrow> nat \<Rightarrow> nat list" where
  "walk_chunks s cur n = concat (map (\<lambda>i. rev (chunk_slots (sb_chunks s ! i))) (filter (\<lambda>i. \<not> walk_skips s cur i) (rev [0..<n])))"

definition walk_rest :: "slab \<Rightarrow> slot_cursor \<Rightarrow> nat list" where
  "walk_rest s cur =
     (if cu_started cur
      then rev (take (cu_remaining cur) (chunk_slots (sb_chunks s ! cu_chunk cur))) @ walk_chunks s cur (cu_chunk cur)
      else walk_chunks s cur (length (sb_chunks s)))"

definition cursor_ok :: "slab \<Rightarrow> slot_cursor \<Rightarrow> bool" where
  "cursor_ok s cur \<longleftrightarrow> cu_chunk cur \<le> length (sb_chunks s) \<and> (0 < cu_remaining cur \<longrightarrow>
     cu_started cur \<and> cu_chunk cur < length (sb_chunks s) \<and> \<not> walk_skips s cur (cu_chunk cur)
     \<and> cu_remaining cur \<le> length (chunk_slots (sb_chunks s ! cu_chunk cur))
     \<and> cu_slot_size cur = unat (pm_slot_size (ck_meta (sb_chunks s ! cu_chunk cur)))
     \<and> cu_next cur = chunk_slots (sb_chunks s ! cu_chunk cur) ! (cu_remaining cur - 1))"

lemma wrapping_sub_le: "b \<le> a \<Longrightarrow> a < 2 ^ 64 \<Longrightarrow> wrapping_sub a b = a - b"
proof -
  assume "b \<le> a" "a < 2 ^ 64"
  then have "a + (2 ^ 64 - b mod 2 ^ 64) = 2 ^ 64 + (a - b)"
    by simp
  then show "wrapping_sub a b = a - b"
    using \<open>a < 2 ^ 64\<close> by (simp add: wrapping_sub_def)
qed

lemma chunk_slots_nth:
  "k < length (chunk_slots c) \<Longrightarrow>
     chunk_slots c ! k = ck_ptr c + unat (pm_first_off (ck_meta c)) + k * unat (pm_slot_size (ck_meta c))"
  "length (chunk_slots c) = (CHUNK - unat (pm_first_off (ck_meta c))) div unat (pm_slot_size (ck_meta c))"
  by (simp_all add: chunk_slots_def Let_def)

lemma slot_below:
  assumes "slab_ok s" and "i < length (sb_chunks s)" and "Suc k < length (chunk_slots (sb_chunks s ! i))"
  shows "wrapping_sub (chunk_slots (sb_chunks s ! i) ! Suc k) (unat (pm_slot_size (ck_meta (sb_chunks s ! i))))
    = chunk_slots (sb_chunks s ! i) ! k"
proof -
  let ?c = "sb_chunks s ! i"
  have "?c \<in> set (sb_chunks s)"
    using assms(2) by simp
  then have "chunk_ok ?c" "ck_ptr ?c + CHUNK \<le> 2 ^ 48"
    using assms(1) by (auto simp: slab_ok_def table_ok_def)
  moreover have "chunk_slots ?c ! Suc k \<in> set (chunk_slots ?c)"
    using assms(3) by simp
  ultimately have "chunk_slots ?c ! Suc k < 2 ^ 64"
    by (auto simp: chunk_slots_iff in_chunk_def)
  then show ?thesis
    using assms(3) by (subst wrapping_sub_le) (auto simp: chunk_slots_nth)
qed

lemma enter_chunk_walk:
  assumes "slab_ok s" and "n \<le> length (sb_chunks s)" and "cu_started cur"
  shows "case enter_chunk s cur n of
      (Some a, cur') \<Rightarrow> walk_chunks s cur n = a # walk_rest s cur' \<and> cursor_ok s cur' \<and> cu_skip_young cur' = cu_skip_young cur
        \<and> cu_started cur'
    | (None, cur') \<Rightarrow> walk_chunks s cur n = []"
  using assms(2)
proof (induction n)
  case (Suc n)
  let ?c = "sb_chunks s ! n"
  have c: "get (sb_chunks s) n = Some ?c"
    using Suc.prems by simp
  have split: "walk_chunks s cur (Suc n) = (if walk_skips s cur n then [] else rev (chunk_slots ?c)) @ walk_chunks s cur n"
    by (simp add: walk_chunks_def)
  show ?case
  proof (cases "walk_skips s cur n \<or> length (chunk_slots ?c) = 0")
    case True
    then have "walk_chunks s cur (Suc n) = walk_chunks s cur n"
      by (auto simp: split)
    moreover have "enter_chunk s cur (Suc n) = enter_chunk s cur n"
      using True c unfolding chunk_slots_nth(2) by (auto simp: Let_def simp del: get_Some_iff)
    ultimately show ?thesis
      using Suc by (simp only: Suc_leD)
  next
    case False
    then obtain m where m: "length (chunk_slots ?c) = Suc m"
      by (cases "length (chunk_slots ?c)") auto
    define cur' where "cur' = cur\<lparr>cu_chunk := n, cu_slot_size := unat (pm_slot_size (ck_meta ?c)), cu_class := chunk_class ?c,
      cu_free_class := 0, cu_remaining := m, cu_next := wrapping_sub (chunk_slots ?c ! m) (unat (pm_slot_size (ck_meta ?c)))\<rparr>"
    have "enter_chunk s cur (Suc n) = (Some (chunk_slots ?c ! m), cur')"
      using c False m chunk_slots_nth(1)[of m ?c] chunk_slots_nth(2)[of ?c] by (simp add: Let_def cur'_def del: get_Some_iff)
    moreover have "cursor_ok s cur'"
      using Suc.prems m False slot_below[OF assms(1), of n "m - 1"] assms(3) by (auto simp: cursor_ok_def cur'_def walk_skips_def)
    moreover have "rev (chunk_slots ?c) = chunk_slots ?c ! m # rev (take m (chunk_slots ?c))"
      using m take_Suc_conv_app_nth[of m "chunk_slots ?c"] by simp
    then have "walk_chunks s cur (Suc n) = chunk_slots ?c ! m # walk_rest s cur'"
      using False assms(3) by (simp add: split walk_rest_def cur'_def walk_chunks_def walk_skips_def)
    ultimately show ?thesis
      using assms(3) by (simp add: cur'_def)
  qed
qed (simp add: walk_chunks_def)

lemma next_slot_walk:
  assumes "slab_ok s" and "cursor_ok s cur"
  shows "case next_slot s cur of
      (Some a, cur') \<Rightarrow> walk_rest s cur = a # walk_rest s cur' \<and> cursor_ok s cur' \<and> cu_skip_young cur' = cu_skip_young cur
    | (None, cur') \<Rightarrow> walk_rest s cur = []"
proof (cases "cu_remaining cur")
  case 0
  let ?cur = "if \<not> cu_started cur then cur\<lparr>cu_started := True, cu_chunk := length (sb_chunks s)\<rparr> else cur"
  have "walk_rest s cur = walk_chunks s ?cur (cu_chunk ?cur)"
    using 0 by (simp add: walk_rest_def walk_chunks_def walk_skips_def)
  moreover have "next_slot s cur = enter_chunk s ?cur (cu_chunk ?cur)"
    using 0 by (simp add: next_slot_def enter_next_chunk_def Let_def)
  ultimately show ?thesis
    using enter_chunk_walk[OF assms(1), of "cu_chunk ?cur" ?cur] assms(2)
    by (auto simp: cursor_ok_def split: prod.splits option.splits if_splits)
next
  case (Suc m)
  let ?c = "sb_chunks s ! cu_chunk cur"
  have cur: "cu_started cur" "m < length (chunk_slots ?c)" "cu_next cur = chunk_slots ?c ! m" "cu_chunk cur < length (sb_chunks s)"
    "cu_slot_size cur = unat (pm_slot_size (ck_meta ?c))"
    using assms(2) Suc by (auto simp: cursor_ok_def)
  then have "rev (take (Suc m) (chunk_slots ?c)) = chunk_slots ?c ! m # rev (take m (chunk_slots ?c))"
    by (simp add: take_Suc_conv_app_nth)
  moreover have "wrapping_sub (chunk_slots ?c ! m) (cu_slot_size cur) = chunk_slots ?c ! (m - 1)" if "0 < m"
    using slot_below[OF assms(1) cur(4), of "m - 1"] cur that by simp
  ultimately show ?thesis
    using Suc cur assms(2) by (auto simp: next_slot_def walk_rest_def walk_chunks_def walk_skips_def cursor_ok_def)
qed

text \<open>The slots a walk may visit: those of every resident chunk it does not skip.\<close>

definition walk_slots :: "slab \<Rightarrow> slot_cursor \<Rightarrow> nat list" where
  "walk_slots s cur = concat (map (\<lambda>i. chunk_slots (sb_chunks s ! i)) (filter (\<lambda>i. \<not> walk_skips s cur i) [0..<length (sb_chunks s)]))"

lemma chunk_slots_sorted: "chunk_ok c \<Longrightarrow> sorted_wrt (<) (chunk_slots c)"
  by (auto simp: chunk_slots_def Let_def sorted_wrt_map sorted_wrt_upt chunk_ok_def word_less_nat_alt
      intro!: sorted_wrt_mono_rel[of _ "(<)"])

lemma walk_chunks_rev: "walk_chunks s cur (length (sb_chunks s)) = rev (walk_slots s cur)"
  by (simp add: walk_chunks_def walk_slots_def rev_concat rev_map comp_def flip: rev_filter)

lemma slot_chunk:
  assumes "slab_ok s" and "i < length (sb_chunks s)" and "addr \<in> set (chunk_slots (sb_chunks s ! i))"
  shows "table_position (sb_table s) addr = Some i"
  using assms chunk_slots_iff by (auto simp: slab_ok_def table_position_iff)

lemma chunk_slots_apart:
  assumes "slab_ok s" and "i < length (sb_chunks s)" and "j < length (sb_chunks s)" and "i \<noteq> j"
  shows "set (chunk_slots (sb_chunks s ! i)) \<inter> set (chunk_slots (sb_chunks s ! j)) = {}"
  using slot_chunk[OF assms(1,2)] slot_chunk[OF assms(1,3)] assms(4) by fastforce

lemma walk_chunks_iff:
  assumes "slab_ok s" and "i < length (sb_chunks s)" and "addr \<in> set (chunk_slots (sb_chunks s ! i))" and "\<not> walk_skips s cur i"
    and "n \<le> length (sb_chunks s)"
  shows "addr \<in> set (walk_chunks s cur n) \<longleftrightarrow> i < n"
proof -
  have "j = i" if "j < n" "addr \<in> set (chunk_slots (sb_chunks s ! j))" for j
    using slot_chunk[OF assms(1-3)] slot_chunk[OF assms(1) _ that(2)] that(1) assms(5) by simp
  then show ?thesis
    using assms(3,4) by (auto simp: walk_chunks_def)
qed

lemma sorted_take_iff:
  assumes "sorted_wrt (<) (xs :: nat list)" and "x \<in> set xs" and "0 < r" and "r \<le> length xs"
  shows "x \<in> set (take r xs) \<longleftrightarrow> x \<le> xs ! (r - 1)"
proof -
  obtain k where k: "k < length xs" "x = xs ! k"
    using assms(2) by (auto simp: in_set_conv_nth)
  have mono: "xs ! i < xs ! j" if "i < j" "j < length xs" for i j
    using assms(1) that by (simp add: sorted_wrt_nth_less)
  have r: "r - 1 < length xs"
    using assms(3,4) by simp
  have "x \<in> set (take r xs) \<longleftrightarrow> k < r"
    using k assms(4) mono by (auto simp: in_set_conv_nth) (metis linorder_neqE_nat nat_neq_iff order.strict_trans)
  also have "\<dots> \<longleftrightarrow> x \<le> xs ! (r - 1)"
    using k r assms(3,4) mono[of k "r - 1"] mono[of "r - 1" k]
    by (cases k "r - 1" rule: linorder_cases) (auto simp del: One_nat_def intro: less_imp_le)
  finally show ?thesis .
qed

lemma walk_passed_iff:
  assumes "slab_ok s" and "cursor_ok s cur" and "addr \<in> set (walk_slots s cur)"
  shows "walk_passed s cur addr \<longleftrightarrow> addr \<notin> set (walk_rest s cur)"
proof -
  obtain i where i: "i < length (sb_chunks s)" "addr \<in> set (chunk_slots (sb_chunks s ! i))" "\<not> walk_skips s cur i"
    using assms(3) by (auto simp: walk_slots_def)
  note pos = slot_chunk[OF assms(1) i(1,2)]
  note chunks = walk_chunks_iff[OF assms(1) i]
  have n: "cu_chunk cur \<le> length (sb_chunks s)"
    using assms(2) by (simp add: cursor_ok_def)
  show ?thesis
  proof (cases "cu_started cur")
    case True
    let ?here = "take (cu_remaining cur) (chunk_slots (sb_chunks s ! cu_chunk cur))"
    have here: "addr \<in> set ?here \<longleftrightarrow> i = cu_chunk cur \<and> 0 < cu_remaining cur \<and> addr \<le> cu_next cur"
    proof (cases "0 < cu_remaining cur \<and> i = cu_chunk cur")
      case True
      moreover have "sorted_wrt (<) (chunk_slots (sb_chunks s ! i))"
        using assms(1) i(1) by (intro chunk_slots_sorted) (auto simp: slab_ok_def)
      ultimately show ?thesis
        using assms(2) i sorted_take_iff[of "chunk_slots (sb_chunks s ! i)" addr "cu_remaining cur"] by (auto simp: cursor_ok_def)
    next
      case False
      have "addr \<notin> set ?here" if "0 < cu_remaining cur" "i \<noteq> cu_chunk cur"
        using assms(2) that pos slot_chunk[OF assms(1), of "cu_chunk cur" addr] by (auto simp: cursor_ok_def dest: in_set_takeD)
      with False show ?thesis
        by (cases "0 < cu_remaining cur") auto
    qed
    show ?thesis
      using True pos chunks[OF n] here by (auto simp: walk_passed_def walk_rest_def)
  qed (use i chunks in \<open>simp add: walk_passed_def walk_rest_def\<close>)
qed

section \<open>Handing out slots\<close>

definition free_slots :: "slab \<Rightarrow> nat list" where
  "free_slots s = concat (map fc_slots (sb_free s))"

definition old_slots :: "slab \<Rightarrow> nat set" where
  "old_slots s = (\<Union>i \<in> {i. i < length (sb_chunks s) \<and> \<not> is_released s i \<and> \<not> is_young_chunk s i}. set (chunk_slots (sb_chunks s ! i)))"

definition slot_has_class :: "slab \<Rightarrow> slot_class \<Rightarrow> nat \<Rightarrow> bool" where
  "slot_has_class s key p \<longleftrightarrow> (\<exists>c \<in> set (sb_chunks s). p \<in> set (chunk_slots c) \<and> chunk_class c = key)"

definition chunk_carved :: "chunk \<Rightarrow> bool" where
  "chunk_carved c \<longleftrightarrow> (let first = unat (align_up (of_nat (ck_ptr c)) (ucast (pm_slot_align (ck_meta c)))) in
     ck_ptr c \<le> first \<and> unat (pm_first_off (ck_meta c)) = first - ck_ptr c)"

definition slab_inv :: "slab \<Rightarrow> nat set \<Rightarrow> bool" where
  "slab_inv s live \<longleftrightarrow> slab_ok s \<and> (\<forall>c \<in> set (sb_chunks s). chunk_carved c)
     \<and> distinct (free_slots s) \<and> set (free_slots s) \<inter> live = {} \<and> set (free_slots s) \<union> live = old_slots s
     \<and> (\<forall>fc \<in> set (sb_free s). \<forall>p \<in> set (fc_slots fc). slot_has_class s (fc_key fc) p)
     \<and> (\<forall>(key, l) \<in> set (sb_released s). \<forall>i \<in> set l. i < length (sb_chunks s) \<and> is_released s i
          \<and> \<not> is_young_chunk s i \<and> chunk_class (sb_chunks s ! i) = key)
     \<and> distinct (concat (map snd (sb_released s)))
     \<and> length (sb_released_mask s) \<le> length (sb_chunks s) \<and> length (sb_young_mask s) \<le> length (sb_chunks s)"

lemma carve_from_eq:
  assumes "0 < z"
  shows "carve_from z stop p = map (\<lambda>k. p + k * z) [0..<(stop - p) div z]"
proof (induction "stop - p" arbitrary: p rule: less_induct)
  case less
  show ?case
  proof (cases "p + z \<le> stop")
    case True
    then have "(stop - p) div z = Suc ((stop - (p + z)) div z)"
      using assms by (simp add: le_div_geq)
    moreover have "carve_from z stop (p + z) = map (\<lambda>k. p + z + k * z) [0..<(stop - (p + z)) div z]"
      using True assms by (intro less) auto
    ultimately show ?thesis
      using True assms by (subst carve_from.simps) (simp add: upt_conv_Cons map_Suc_upt[symmetric] comp_def add.assoc del: upt_Suc)
  next
    case False
    then have "(stop - p) div z = 0"
      using assms by (intro div_less) linarith
    then show ?thesis
      using False by (subst carve_from.simps) simp
  qed
qed

lemma pop_class_Some:
  assumes "pop_class key free = Some (p, free')"
  shows "mset (concat (map fc_slots free)) = add_mset p (mset (concat (map fc_slots free')))"
    "\<exists>fc \<in> set free. fc_key fc = key \<and> p \<in> set (fc_slots fc)"
    "\<forall>fc' \<in> set free'. \<exists>fc \<in> set free. fc_key fc' = fc_key fc \<and> set (fc_slots fc') \<subseteq> set (fc_slots fc)"
proof -
  have "mset (concat (map fc_slots free)) = add_mset p (mset (concat (map fc_slots free')))
    \<and> (\<exists>fc \<in> set free. fc_key fc = key \<and> p \<in> set (fc_slots fc))
    \<and> (\<forall>fc' \<in> set free'. \<exists>fc \<in> set free. fc_key fc' = fc_key fc \<and> set (fc_slots fc') \<subseteq> set (fc_slots fc))"
    using assms
  proof (induction key free arbitrary: free' rule: pop_class.induct)
    case (2 key c cs)
    show ?case
    proof (cases "fc_key c = key")
      case True
      then obtain ys y where "fc_slots c = ys @ [y]"
        using 2 by (cases "fc_slots c" rule: rev_cases) auto
      then show ?thesis
        using 2 True by auto
    next
      case False
      then show ?thesis
        using 2 by fastforce
    qed
  qed simp
  then show "mset (concat (map fc_slots free)) = add_mset p (mset (concat (map fc_slots free')))"
    "\<exists>fc \<in> set free. fc_key fc = key \<and> p \<in> set (fc_slots fc)"
    "\<forall>fc' \<in> set free'. \<exists>fc \<in> set free. fc_key fc' = fc_key fc \<and> set (fc_slots fc') \<subseteq> set (fc_slots fc)"
    by blast+
qed

lemma append_class_slots:
  "mset (concat (map fc_slots (append_class key slots free))) = mset slots + mset (concat (map fc_slots free))"
  "fc \<in> set (append_class key slots free) \<Longrightarrow> p \<in> set (fc_slots fc) \<Longrightarrow>
     fc_key fc = key \<and> p \<in> set slots \<or> (\<exists>fc' \<in> set free. fc_key fc' = fc_key fc \<and> p \<in> set (fc_slots fc'))"
  by (induction key slots free rule: append_class.induct) (auto split: if_splits)

lemma free_in_class_append: "free_in_class key p free = append_class key [p] free \<or> key \<notin> fc_key ` set free"
  by (induction key p free rule: free_in_class.induct) auto

lemma free_in_class_slots:
  "mset (concat (map fc_slots (free_in_class key p free))) = add_mset p (mset (concat (map fc_slots free)))"
  "fc \<in> set (free_in_class key p free) \<Longrightarrow> q \<in> set (fc_slots fc) \<Longrightarrow>
     fc_key fc = key \<and> q = p \<or> (\<exists>fc' \<in> set free. fc_key fc' = fc_key fc \<and> q \<in> set (fc_slots fc'))"
  by (induction key p free rule: free_in_class.induct) (auto split: if_splits)

lemma carved_slots:
  assumes "chunk_ok c" and "chunk_carved c"
  shows "carve_from (unat (pm_slot_size (ck_meta c))) (ck_ptr c + CHUNK)
      (unat (align_up (of_nat (ck_ptr c)) (ucast (pm_slot_align (ck_meta c))))) = chunk_slots c"
    and "chunk_slots c \<noteq> []" and "distinct (chunk_slots c)"
proof -
  have z: "0 < unat (pm_slot_size (ck_meta c))" and f: "unat (pm_first_off (ck_meta c)) + unat (pm_slot_size (ck_meta c)) \<le> CHUNK"
    using assms(1) by (auto simp: chunk_ok_def word_less_nat_alt)
  show "carve_from (unat (pm_slot_size (ck_meta c))) (ck_ptr c + CHUNK)
      (unat (align_up (of_nat (ck_ptr c)) (ucast (pm_slot_align (ck_meta c))))) = chunk_slots c"
    using assms(2) z by (subst carve_from_eq) (auto simp: chunk_slots_def chunk_carved_def Let_def add.commute)
  have "0 < (CHUNK - unat (pm_first_off (ck_meta c))) div unat (pm_slot_size (ck_meta c))"
    using z f by (simp add: div_greater_zero_iff)
  then show "chunk_slots c \<noteq> []"
    using chunk_slots_nth(2)[of c] by auto
  show "distinct (chunk_slots c)"
    using chunk_slots_sorted[OF assms(1)] by (simp add: strict_sorted_iff)
qed

text \<open>The free lists and the live slots change by one slot at a time.\<close>

lemma slot_has_class_mono:
  "slot_has_class s key p \<Longrightarrow> set (sb_chunks s) \<subseteq> set (sb_chunks s') \<Longrightarrow> slot_has_class s' key p"
  by (auto simp: slot_has_class_def)

lemma slab_pop:
  assumes inv: "slab_inv s live" and pop: "pop_class key (sb_free s) = Some (p, free)"
  shows "p \<notin> live" "slot_has_class s key p" "slab_inv (s\<lparr>sb_free := free\<rparr>) (insert p live)"
proof -
  have m: "mset (free_slots s) = add_mset p (mset (concat (map fc_slots free)))"
    using pop_class_Some(1)[OF pop] by (simp add: free_slots_def)
  then have p: "p \<in> set (free_slots s)" "set (free_slots s) = insert p (set (concat (map fc_slots free)))"
    by (metis set_mset_mset union_single_eq_member, metis set_mset_add_mset_insert set_mset_mset)
  have d: "distinct (concat (map fc_slots free))" "p \<notin> set (concat (map fc_slots free))"
  proof -
    have "distinct (p # concat (map fc_slots free))"
      using inv m mset_eq_imp_distinct_iff[of "p # concat (map fc_slots free)" "free_slots s"] by (simp add: slab_inv_def)
    then show "distinct (concat (map fc_slots free))" "p \<notin> set (concat (map fc_slots free))"
      by simp_all
  qed
  show "p \<notin> live"
    using inv p(1) by (auto simp: slab_inv_def)
  show "slot_has_class s key p"
    using inv pop_class_Some(2)[OF pop] by (auto simp: slab_inv_def)
  have "slot_has_class s (fc_key fc) q" if "fc \<in> set free" "q \<in> set (fc_slots fc)" for fc q
    using that pop_class_Some(3)[OF pop] inv unfolding slab_inv_def by (metis subsetD)
  then show "slab_inv (s\<lparr>sb_free := free\<rparr>) (insert p live)"
    using inv p d by (auto simp: slab_inv_def free_slots_def slab_ok_def old_slots_def is_released_def is_young_chunk_def
        slot_has_class_def)
qed

lemma slab_carve:
  assumes inv: "slab_inv s live" and c: "c \<in> set (sb_chunks s')" "chunk_class c = key"
    and free: "sb_free s' = append_class key (rev (tl (chunk_slots c))) (sb_free s)"
    and old: "old_slots s' = old_slots s \<union> set (chunk_slots c)" "set (chunk_slots c) \<inter> old_slots s = {}"
    and s': "slab_ok s'" "\<forall>c \<in> set (sb_chunks s'). chunk_carved c" "set (sb_chunks s) \<subseteq> set (sb_chunks s')"
      "\<forall>(key, l) \<in> set (sb_released s'). \<forall>i \<in> set l. i < length (sb_chunks s') \<and> is_released s' i
          \<and> \<not> is_young_chunk s' i \<and> chunk_class (sb_chunks s' ! i) = key"
      "distinct (concat (map snd (sb_released s')))"
      "length (sb_released_mask s') \<le> length (sb_chunks s')" "length (sb_young_mask s') \<le> length (sb_chunks s')"
  shows "hd (chunk_slots c) \<notin> live \<and> slot_has_class s' key (hd (chunk_slots c)) \<and> slab_inv s' (insert (hd (chunk_slots c)) live)"
proof -
  let ?slots = "chunk_slots c"
  have "chunk_ok c" "chunk_carved c"
    using c s'(1,2) by (auto simp: slab_ok_def)
  note slots = carved_slots(2,3)[OF this]
  have m: "mset (free_slots s') = mset (tl ?slots) + mset (free_slots s)"
    using append_class_slots(1)[of key "rev (tl ?slots)" "sb_free s"] by (simp add: free free_slots_def)
  have d: "distinct (tl ?slots @ free_slots s)"
    using inv slots old(2) by (auto simp: slab_inv_def distinct_tl dest: list.set_sel(2))
  have set: "set (free_slots s') = set (tl ?slots) \<union> set (free_slots s)"
    using m by (metis set_append set_mset_mset mset_append)
  have dist: "distinct (free_slots s')"
    using m d mset_eq_imp_distinct_iff[of "free_slots s'" "tl ?slots @ free_slots s"] by simp
  have split: "set ?slots = insert (hd ?slots) (set (tl ?slots))" "hd ?slots \<notin> set (tl ?slots)" "hd ?slots \<in> set ?slots"
    using slots by (cases ?slots; simp)+
  have live: "live \<subseteq> old_slots s" "set (free_slots s) \<union> live = old_slots s" "set (free_slots s) \<inter> live = {}"
    using inv by (auto simp: slab_inv_def)
  have cls: "slot_has_class s' (fc_key fc) q" if "fc \<in> set (sb_free s')" "q \<in> set (fc_slots fc)" for fc q
  proof -
    have "fc_key fc = key \<and> q \<in> set (tl ?slots) \<or> (\<exists>fc' \<in> set (sb_free s). fc_key fc' = fc_key fc \<and> q \<in> set (fc_slots fc'))"
      using append_class_slots(2)[of fc key "rev (tl ?slots)" "sb_free s" q] that by (simp add: free)
    moreover have "slot_has_class s (fc_key fc') q" if "fc' \<in> set (sb_free s)" "q \<in> set (fc_slots fc')" for fc'
      using that inv by (auto simp: slab_inv_def)
    ultimately show ?thesis
      using c split(1) slot_has_class_mono[OF _ s'(3)] by (metis insertCI slot_has_class_def)
  qed
  have "hd ?slots \<notin> live"
    using split(3) live(1) old(2) by auto
  moreover have "slot_has_class s' key (hd ?slots)"
    using c split(3) by (auto simp: slot_has_class_def)
  moreover have "set (free_slots s') \<inter> insert (hd ?slots) live = {}" "set (free_slots s') \<union> insert (hd ?slots) live = old_slots s'"
    using set split live old by auto
  ultimately show ?thesis
    using s' dist cls by (auto simp: slab_inv_def)
qed

lemma pop_released_Some:
  assumes "pop_released key rel = Some (i, rel')"
  shows "\<exists>l. (key, l) \<in> set rel \<and> i \<in> set l" "mset (concat (map snd rel)) = add_mset i (mset (concat (map snd rel')))"
    "\<forall>(k, l) \<in> set rel'. \<exists>l'. (k, l') \<in> set rel \<and> set l \<subseteq> set l'"
proof -
  have "(\<exists>l. (key, l) \<in> set rel \<and> i \<in> set l) \<and> mset (concat (map snd rel)) = add_mset i (mset (concat (map snd rel')))
    \<and> (\<forall>(k, l) \<in> set rel'. \<exists>l'. (k, l') \<in> set rel \<and> set l \<subseteq> set l')"
    using assms
  proof (induction key rel arbitrary: rel' rule: pop_released.induct)
    case (2 key k l rs)
    show ?case
    proof (cases "k = key")
      case True
      then obtain ys y where "l = ys @ [y]"
        using 2 by (cases l rule: rev_cases) auto
      then show ?thesis
        using 2 True by fastforce
    next
      case False
      then show ?thesis
        using 2 by fastforce
    qed
  qed simp
  then show "\<exists>l. (key, l) \<in> set rel \<and> i \<in> set l" "mset (concat (map snd rel)) = add_mset i (mset (concat (map snd rel')))"
    "\<forall>(k, l) \<in> set rel'. \<exists>l'. (k, l') \<in> set rel \<and> set l \<subseteq> set l'"
    by blast+
qed

lemma set_released_simps:
  "is_released (set_released s i b) j = (if j = i then b else is_released s j)"
  "length (sb_released_mask (set_released s i b)) = max (length (sb_released_mask s)) (Suc i)"
  "sb_table (set_released s i b) = sb_table s" "sb_free (set_released s i b) = sb_free s"
  "sb_young_mask (set_released s i b) = sb_young_mask s" "sb_released (set_released s i b) = sb_released s"
  by (auto simp: set_released_def is_released_def Let_def get_def nth_append nth_list_update)

lemma slab_recarve:
  assumes inv: "slab_inv s live" and pop: "pop_released (z, al) (sb_released s) = Some (i, rel)"
    and carve: "carve_slots (set_released (s\<lparr>sb_released := rel\<rparr>) i False) (ck_ptr (sb_chunks s ! i)) z al False = r"
  shows "i < length (sb_chunks s)
    \<and> (\<exists>p s'. r = Some (p, s') \<and> p \<notin> live \<and> slot_has_class s' (z, al) p \<and> slab_inv s' (insert p live))"
proof -
  let ?c = "sb_chunks s ! i" and ?s1 = "set_released (s\<lparr>sb_released := rel\<rparr>) i False"
  define s' where "s' = ?s1\<lparr>sb_free := append_class (z, al) (rev (tl (chunk_slots ?c))) (sb_free s)\<rparr>"
  have i: "i < length (sb_chunks s)" "is_released s i" "\<not> is_young_chunk s i" "chunk_class ?c = (z, al)"
    using inv pop_released_Some(1)[OF pop] by (auto simp: slab_inv_def)
  then have c: "?c \<in> set (sb_chunks s)" "chunk_ok ?c" "chunk_carved ?c" and ok: "slab_ok s"
    using inv by (auto simp: slab_inv_def slab_ok_def)
  note slots = carved_slots[OF c(2,3)]
  have "carve_slots ?s1 (ck_ptr ?c) z al False = Some (hd (chunk_slots ?c), s')"
    using slots i(4) by (simp add: carve_slots_def Let_def s'_def set_released_simps chunk_class_def)
  moreover have "hd (chunk_slots ?c) \<notin> live \<and> slot_has_class s' (z, al) (hd (chunk_slots ?c)) \<and> slab_inv s' (insert (hd (chunk_slots ?c)) live)"
  proof (rule slab_carve[OF inv])
    have rel: "is_released s' j = (if j = i then False else is_released s j)" "is_young_chunk s' j = is_young_chunk s j"
      "sb_chunks s' = sb_chunks s" "sb_released s' = rel" for j
      by (simp_all add: s'_def set_released_simps is_released_def is_young_chunk_def)
        (simp_all add: set_released_def is_released_def get_def nth_append nth_list_update Let_def)
    show "?c \<in> set (sb_chunks s')" "chunk_class ?c = (z, al)" "sb_free s' = append_class (z, al) (rev (tl (chunk_slots ?c))) (sb_free s)"
      "slab_ok s'" "\<forall>c \<in> set (sb_chunks s'). chunk_carved c" "set (sb_chunks s) \<subseteq> set (sb_chunks s')"
      using c i inv by (auto simp: s'_def set_released_simps slab_ok_def slab_inv_def)
    show "old_slots s' = old_slots s \<union> set (chunk_slots ?c)"
      using i unfolding old_slots_def rel by (auto split: if_splits)
    show "set (chunk_slots ?c) \<inter> old_slots s = {}"
      using i chunk_slots_apart[OF ok i(1)] by (auto simp: old_slots_def disjoint_iff)
    have dist: "distinct (concat (map snd rel))" "i \<notin> set (concat (map snd rel))"
      using inv pop_released_Some(2)[OF pop] mset_eq_imp_distinct_iff[of "i # concat (map snd rel)" "concat (map snd (sb_released s))"]
      by (auto simp: slab_inv_def)
    then show "distinct (concat (map snd (sb_released s')))"
      by (simp add: rel)
    show "\<forall>(key, l) \<in> set (sb_released s'). \<forall>j \<in> set l. j < length (sb_chunks s') \<and> is_released s' j
        \<and> \<not> is_young_chunk s' j \<and> chunk_class (sb_chunks s' ! j) = key"
      using inv pop_released_Some(3)[OF pop] dist(2) unfolding rel slab_inv_def by fastforce
    show "length (sb_released_mask s') \<le> length (sb_chunks s')" "length (sb_young_mask s') \<le> length (sb_chunks s')"
      using inv i(1) by (auto simp: s'_def set_released_simps slab_inv_def)
  qed
  ultimately show ?thesis
    using i(1) carve by auto
qed

definition chunk_fits :: "slab \<Rightarrow> nat \<Rightarrow> u32 \<Rightarrow> u32 \<Rightarrow> bool" where
  "chunk_fits s base z al \<longleftrightarrow> length (sb_chunks s) < 2 ^ 32 - 2 \<and> base + CHUNK \<le> 2 ^ 48 \<and> 0 < z
     \<and> (\<forall>c \<in> set (sb_chunks s). base + CHUNK \<le> ck_ptr c \<or> ck_ptr c + CHUNK \<le> base)
     \<and> (let first = unat (align_up (of_nat base) (ucast al)) in base \<le> first \<and> first + unat z \<le> base + CHUNK)"

lemma slab_map:
  assumes inv: "slab_inv s live" and fits: "chunk_fits s base z al"
  shows "\<exists>p s'. carve_slots s base z al True = Some (p, s') \<and> p \<notin> live \<and> slot_has_class s' (z, al) p \<and> slab_inv s' (insert p live)"
proof -
  define first where "first = unat (align_up (of_nat base) (ucast al))"
  define c where "c = \<lparr>ck_ptr = base, ck_meta = page_meta_new z al (of_nat (first - base))\<rparr>"
  define s' where "s' = s\<lparr>sb_free := append_class (z, al) (rev (tl (chunk_slots c))) (sb_free s), sb_table := table_push (sb_table s) c\<rparr>"
  have first: "base \<le> first" "first + unat z \<le> base + CHUNK" "0 < z"
    using fits by (auto simp: chunk_fits_def first_def Let_def)
  have off: "unat (of_nat (first - base) :: u32) = first - base"
  proof -
    have "first - base < 2 ^ 32"
      using first by (simp add: CHUNK_def)
    then show ?thesis
      by (simp add: unat_of_nat del: of_nat_diff)
  qed
  have c: "chunk_ok c" "chunk_carved c" "chunk_class c = (z, al)"
    using first off by (auto simp: chunk_ok_def chunk_carved_def chunk_class_def c_def page_meta_new_def first_def Let_def)
  note slots = carved_slots[OF c(1,2)]
  have ok: "slab_ok s'"
    using inv fits c(1) table_push_ok[of "sb_table s" c]
    by (auto simp: slab_inv_def slab_ok_def s'_def table_push_def chunk_fits_def c_def chunks_apart_def)
  have "carve_slots s base z al True = Some (hd (chunk_slots c), s')"
    using slots by (simp add: carve_slots_def Let_def s'_def c_def first_def page_meta_new_def)
  moreover have "hd (chunk_slots c) \<notin> live \<and> slot_has_class s' (z, al) (hd (chunk_slots c)) \<and> slab_inv s' (insert (hd (chunk_slots c)) live)"
  proof (rule slab_carve[OF inv])
    have chunks: "sb_chunks s' = sb_chunks s @ [c]" and marks: "is_released s' j = is_released s j" "is_young_chunk s' j = is_young_chunk s j" for j
      by (simp_all add: s'_def table_push_def is_released_def is_young_chunk_def)
    have new: "\<not> is_released s (length (sb_chunks s))" "\<not> is_young_chunk s (length (sb_chunks s))"
      using inv by (auto simp: slab_inv_def is_released_def is_young_chunk_def get_def)
    show "c \<in> set (sb_chunks s')" "chunk_class c = (z, al)" "sb_free s' = append_class (z, al) (rev (tl (chunk_slots c))) (sb_free s)"
      "slab_ok s'" "\<forall>c \<in> set (sb_chunks s'). chunk_carved c" "set (sb_chunks s) \<subseteq> set (sb_chunks s')"
      using c ok inv by (auto simp: chunks slab_inv_def) (simp add: s'_def)
    show old: "old_slots s' = old_slots s \<union> set (chunk_slots c)"
      using new unfolding old_slots_def marks chunks by (auto simp: nth_append less_Suc_eq split: if_splits)
    have "set (chunk_slots c) \<inter> set (chunk_slots (sb_chunks s ! j)) = {}" if "j < length (sb_chunks s)" for j
      using chunk_slots_apart[OF ok, of "length (sb_chunks s)" j] that by (simp add: chunks nth_append)
    then show "set (chunk_slots c) \<inter> old_slots s = {}"
      by (auto simp: old_slots_def)
    show "\<forall>(key, l) \<in> set (sb_released s'). \<forall>j \<in> set l. j < length (sb_chunks s') \<and> is_released s' j
        \<and> \<not> is_young_chunk s' j \<and> chunk_class (sb_chunks s' ! j) = key"
      using inv unfolding marks chunks slab_inv_def by (fastforce simp: nth_append s'_def)
    show "distinct (concat (map snd (sb_released s')))" "length (sb_released_mask s') \<le> length (sb_chunks s')"
      "length (sb_young_mask s') \<le> length (sb_chunks s')"
      using inv by (auto simp: slab_inv_def chunks) (auto simp: s'_def)
  qed
  ultimately show ?thesis
    by blast
qed

lemma slab_alloc_inv:
  assumes "slab_inv s live" and "chunk_fits s base z al"
  shows "\<exists>p s'. slab_alloc s base z al = Some (p, s') \<and> p \<notin> live \<and> slot_has_class s' (z, al) p \<and> slab_inv s' (insert p live)"
proof (cases "pop_class (z, al) (sb_free s)")
  case (Some a)
  then obtain p free where pop: "pop_class (z, al) (sb_free s) = Some (p, free)"
    by (cases a) auto
  have "slot_has_class (s\<lparr>sb_free := free\<rparr>) (z, al) p"
    using slab_pop(2)[OF assms(1) pop] by (simp add: slot_has_class_def)
  then show ?thesis
    using slab_pop(1,3)[OF assms(1) pop] by (simp add: slab_alloc_def pop)
next
  case None
  show ?thesis
  proof (cases "pop_released (z, al) (sb_released s)")
    case None
    then show ?thesis
      using slab_map[OF assms] \<open>pop_class (z, al) (sb_free s) = None\<close> by (simp add: slab_alloc_def carve_page_def)
  next
    case (Some a)
    then obtain i rel where pop: "pop_released (z, al) (sb_released s) = Some (i, rel)"
      by (cases a) auto
    note re = slab_recarve[OF assms(1) pop refl]
    then have "get (sb_chunks s) i = Some (sb_chunks s ! i)"
      by simp
    then show ?thesis
      using re None by (simp add: slab_alloc_def carve_page_def pop Let_def del: get_Some_iff)
  qed
qed

lemma slab_give:
  assumes inv: "slab_inv s live" and p: "p \<in> live" and c: "slot_has_class s key p"
    and m: "mset (concat (map fc_slots free)) = add_mset p (mset (free_slots s))"
    and classes: "\<And>fc q. fc \<in> set free \<Longrightarrow> q \<in> set (fc_slots fc) \<Longrightarrow>
      fc_key fc = key \<and> q = p \<or> (\<exists>fc' \<in> set (sb_free s). fc_key fc' = fc_key fc \<and> q \<in> set (fc_slots fc'))"
  shows "slab_inv (s\<lparr>sb_free := free\<rparr>) (live - {p})"
proof -
  let ?s = "s\<lparr>sb_free := free\<rparr>"
  have m: "mset (free_slots ?s) = add_mset p (mset (free_slots s))"
    using m by (simp add: free_slots_def)
  have "set (free_slots ?s) = insert p (set (free_slots s))"
    using m by (metis set_mset_add_mset_insert set_mset_mset)
  moreover have "distinct (free_slots ?s)"
    using m mset_eq_imp_distinct_iff[of "free_slots ?s" "p # free_slots s"] inv p by (auto simp: slab_inv_def)
  moreover have "slot_has_class s (fc_key fc) q" if "fc \<in> set free" "q \<in> set (fc_slots fc)" for fc q
    using classes[OF that] c inv by (auto simp: slab_inv_def)
  ultimately show ?thesis
    using inv p by (auto simp: slab_inv_def slab_ok_def old_slots_def is_released_def is_young_chunk_def slot_has_class_def)
qed

lemma slab_free_inv:
  assumes inv: "slab_inv s live" and p: "p \<in> live"
  shows "slab_inv (slab_free s recent p) (live - {p})"
proof -
  have ok: "slab_ok s"
    using inv by (simp add: slab_inv_def)
  have "p \<in> old_slots s"
    using inv p by (auto simp: slab_inv_def)
  then obtain c where c: "c \<in> set (sb_chunks s)" "p \<in> set (chunk_slots c)"
    using nth_mem by (fastforce simp: old_slots_def)
  then have "in_chunk c p"
    using ok chunk_slots_iff by (auto simp: slab_ok_def)
  then have "slab_free s recent p = s\<lparr>sb_free := free_in_class (chunk_class c) p (sb_free s)\<rparr>"
    using chunk_for_answer[OF ok, of recent p c] c(1) by (simp add: slab_free_def)
  then show ?thesis
    using c free_in_class_slots(2)[of _ "chunk_class c" p "sb_free s"]
    by (simp, intro slab_give[OF inv p, of "chunk_class c"]) (auto simp: slot_has_class_def free_slots_def free_in_class_slots(1))
qed

text \<open>The sweep frees the slot its walk stands at; the class of that slot is the cursor's.\<close>

definition free_class_ok :: "slab \<Rightarrow> slot_cursor \<Rightarrow> bool" where
  "free_class_ok s cur \<longleftrightarrow> cu_free_class cur = 0
     \<or> cu_free_class cur \<le> length (sb_free s) \<and> fc_key (sb_free s ! (cu_free_class cur - 1)) = cu_class cur"

lemma free_in_class_found:
  "length (takeWhile (\<lambda>c. fc_key c \<noteq> key) (free_in_class key p free)) < length (free_in_class key p free)"
  "fc_key (free_in_class key p free ! length (takeWhile (\<lambda>c. fc_key c \<noteq> key) (free_in_class key p free))) = key"
  by (induction key p free rule: free_in_class.induct) auto

lemma concat_update_snoc:
  assumes "i < length fs"
  shows "mset (concat (map fc_slots (fs[i := (fs ! i)\<lparr>fc_slots := fc_slots (fs ! i) @ [p]\<rparr>]))) = add_mset p (mset (concat (map fc_slots fs)))"
  using assms
proof (induction fs arbitrary: i)
  case (Cons f fs)
  then show ?case
    by (cases i) auto
qed simp

lemma free_at_cursor_inv:
  assumes inv: "slab_inv s live" and p: "p \<in> live" and c: "slot_has_class s (cu_class cur) p"
    and ok: "free_class_ok s cur" and f: "free_at_cursor s cur p = (s', cur')"
  shows "slab_inv s' (live - {p})" and "free_class_ok s' cur'"
    and "\<exists>free. s' = s\<lparr>sb_free := free\<rparr>" and "\<exists>i. cur' = cur\<lparr>cu_free_class := i\<rparr>"
proof -
  let ?key = "cu_class cur"
  have "slab_inv s' (live - {p}) \<and> free_class_ok s' cur' \<and> (\<exists>free. s' = s\<lparr>sb_free := free\<rparr>) \<and> (\<exists>i. cur' = cur\<lparr>cu_free_class := i\<rparr>)"
  proof (cases "cu_free_class cur = 0")
    case True
    then have s': "s' = s\<lparr>sb_free := free_in_class ?key p (sb_free s)\<rparr>"
      and cur': "cur' = cur\<lparr>cu_free_class := 1 + length (takeWhile (\<lambda>c. fc_key c \<noteq> ?key) (free_in_class ?key p (sb_free s)))\<rparr>"
      using f by (auto simp: free_at_cursor_def Let_def)
    have "slab_inv s' (live - {p})"
      unfolding s' using free_in_class_slots(2)[of _ ?key p "sb_free s"]
      by (intro slab_give[OF inv p c]) (auto simp: free_slots_def free_in_class_slots(1))
    moreover have "free_class_ok s' cur'"
      using free_in_class_found[of ?key p "sb_free s"] by (auto simp: free_class_ok_def s' cur' Suc_le_eq)
    ultimately show ?thesis
      by (auto simp: s' cur')
  next
    case False
    define i where "i = cu_free_class cur - 1"
    then have i: "i < length (sb_free s)" "fc_key (sb_free s ! i) = ?key"
      using ok False by (auto simp: free_class_ok_def)
    let ?free = "(sb_free s)[i := (sb_free s ! i)\<lparr>fc_slots := fc_slots (sb_free s ! i) @ [p]\<rparr>]"
    have s': "s' = s\<lparr>sb_free := ?free\<rparr>" and cur': "cur' = cur"
      using f False by (auto simp: free_at_cursor_def Let_def i_def)
    have "slab_inv s' (live - {p})"
      unfolding s'
    proof (rule slab_give[OF inv p c])
      show "mset (concat (map fc_slots ?free)) = add_mset p (mset (free_slots s))"
        using concat_update_snoc[OF i(1)] by (simp add: free_slots_def)
      show "fc_key fc = ?key \<and> q = p \<or> (\<exists>fc' \<in> set (sb_free s). fc_key fc' = fc_key fc \<and> q \<in> set (fc_slots fc'))"
        if "fc \<in> set ?free" "q \<in> set (fc_slots fc)" for fc q
        using set_update_subset_insert[of "sb_free s" i] that i nth_mem[OF i(1)] by fastforce
    qed
    moreover have "free_class_ok s' cur'"
      using ok i by (auto simp: free_class_ok_def s' cur' i_def nth_list_update)
    moreover have "cur = cur\<lparr>cu_free_class := cu_free_class cur\<rparr>"
      by simp
    ultimately show ?thesis
      unfolding s' cur' by blast
  qed
  then show "slab_inv s' (live - {p})" "free_class_ok s' cur'" "\<exists>free. s' = s\<lparr>sb_free := free\<rparr>" "\<exists>i. cur' = cur\<lparr>cu_free_class := i\<rparr>"
    by blast+
qed

text \<open>
  What a heap asks of the store of its slots: a slot handed out is not in use, and a slot given back leaves
  the others in use.
\<close>

datatype 'a slot_op = TakeSlot 'a | GiveSlot nat

locale slot_store =
  fixes inv :: "'s \<Rightarrow> nat set \<Rightarrow> bool" and can :: "'s \<Rightarrow> 'a \<Rightarrow> bool"
    and take_slot :: "'s \<Rightarrow> 'a \<Rightarrow> (nat \<times> 's) option" and give_slot :: "'s \<Rightarrow> nat \<Rightarrow> 's"
  assumes take_slot: "inv s live \<Longrightarrow> can s a \<Longrightarrow> \<exists>p s'. take_slot s a = Some (p, s') \<and> p \<notin> live \<and> inv s' (insert p live)"
    and give_slot: "inv s live \<Longrightarrow> p \<in> live \<Longrightarrow> inv (give_slot s p) (live - {p})"
begin

text \<open>A history of requests: it goes on while each asks for what can be had and gives back what it holds.\<close>

fun history :: "'s \<Rightarrow> nat set \<Rightarrow> 'a slot_op list \<Rightarrow> ('s \<times> nat set) option" where
  "history s live [] = Some (s, live)"
| "history s live (TakeSlot a # ops) =
     (if can s a then (case take_slot s a of None \<Rightarrow> None | Some (p, s') \<Rightarrow> if p \<in> live then None else history s' (insert p live) ops)
      else Some (s, live))"
| "history s live (GiveSlot p # ops) = (if p \<in> live then history (give_slot s p) (live - {p}) ops else Some (s, live))"

lemma history_inv: "inv s live \<Longrightarrow> \<exists>s' live'. history s live ops = Some (s', live') \<and> inv s' live'"
proof (induction ops arbitrary: s live)
  case (Cons op ops)
  show ?case
  proof (cases op)
    case (TakeSlot a)
    then show ?thesis
      using Cons take_slot[OF Cons.prems, of a] by (cases "can s a") fastforce+
  next
    case (GiveSlot p)
    then show ?thesis
      using Cons give_slot[OF Cons.prems, of p] by auto
  qed
qed simp

end

interpretation slab_slots: slot_store slab_inv "\<lambda>s (base, z, al). chunk_fits s base z al"
  "\<lambda>s (base, z, al). slab_alloc s base z al" "\<lambda>s. slab_free s (\<lambda>_. None)"
  using slab_alloc_inv slab_free_inv by unfold_locales fastforce+

lemma slab_new_inv: "slab_inv slab_new {}"
  by (simp add: slab_inv_def slab_new_def slab_ok_def table_new_ok free_slots_def old_slots_def is_released_def)
    (simp add: table_new_def)

section \<open>The properties\<close>

text \<open>Addresses in the order a walk returns them, for at most \<open>n\<close> steps.\<close>

primrec walk_from :: "nat \<Rightarrow> slab \<Rightarrow> slot_cursor \<Rightarrow> nat list" where
  "walk_from 0 s cur = []"
| "walk_from (Suc n) s cur = (case next_slot s cur of (None, _) \<Rightarrow> [] | (Some a, cur') \<Rightarrow> a # walk_from n s cur')"

lemma walk_from_rest: "slab_ok s \<Longrightarrow> cursor_ok s cur \<Longrightarrow> walk_from n s cur = take n (walk_rest s cur)"
proof (induction n arbitrary: cur)
  case (Suc n)
  then show ?case
    using next_slot_walk[OF Suc.prems] by (auto split: prod.splits option.splits)
qed simp

lemma distinct_concat_map:
  assumes "distinct is" and "\<And>i. i \<in> set is \<Longrightarrow> distinct (g i)"
    and "\<And>i j. i \<in> set is \<Longrightarrow> j \<in> set is \<Longrightarrow> i \<noteq> j \<Longrightarrow> set (g i) \<inter> set (g j) = {}"
  shows "distinct (concat (map g is))"
  using assms by (induction "is") fastforce+

lemma cursor_fresh_ok: "\<not> cu_started cur \<Longrightarrow> cu_remaining cur = 0 \<Longrightarrow> cu_chunk cur = 0 \<Longrightarrow> cursor_ok s cur"
  by (simp add: cursor_ok_def)

lemma seg_of_place:
  assumes "seg_of i = (k, off)"
  shows "i = SEG0 * (2 ^ k - 1) + off" "off < SEG0 * 2 ^ k"
proof -
  let ?q = "i div 64 + 1"
  have k: "k = floorlog 2 ?q - 1" and off: "off = i - 64 * (2 ^ k - 1)"
    using assms by (auto simp: seg_of_def SEG0_def Let_def)
  have "floorlog 2 ?q = k + 1"
    unfolding k using floorlog_eq_zero_iff[of 2 ?q] by simp
  then have "2 ^ k \<le> ?q" "?q < 2 ^ (k + 1)"
    using floorlog_bounds[of ?q 2] by simp_all
  then show "i = SEG0 * (2 ^ k - 1) + off" "off < SEG0 * 2 ^ k"
    using div_mult_mod_eq[of i 64] mod_less_divisor[of 64 i] unfolding off SEG0_def by (simp_all add: diff_mult_distrib2)
qed

text \<open>C25: finding a slot. The multiplication by \<open>slot_magic\<close> that replaces a division is exact for every slot size
  and offset. In a slab whose chunks are disjoint the directory finds the one chunk that holds an address,
  whatever the cache of recent answers holds, so \<open>contains_slot\<close> accepts exactly the addresses of slots of
  mapped chunks; and mapping one more disjoint chunk keeps this (no bucket of the directory ever needs more
  than its two entries).\<close>

theorem contains_slot_exact:
  assumes "slab_ok s"
  shows "(\<forall>z al off rel. 0 < z \<longrightarrow> (is_slot_offset (page_meta_new z al off) rel \<longleftrightarrow> unat z dvd unat rel))
    \<and> (table_position (sb_table s) addr = Some i \<longleftrightarrow> i < length (sb_chunks s) \<and> in_chunk (sb_chunks s ! i) addr)
    \<and> (contains_slot s recent addr \<longleftrightarrow> (\<exists>c \<in> set (sb_chunks s). addr \<in> set (chunk_slots c)))
    \<and> (\<forall>c. chunk_ok c \<and> ck_ptr c + CHUNK \<le> 2 ^ 48 \<and> length (sb_chunks s) < 2 ^ 32 - 2
         \<and> (\<forall>d \<in> set (sb_chunks s). chunks_apart c d) \<longrightarrow> slab_ok (s\<lparr>sb_table := table_push (sb_table s) c\<rparr>))
    \<and> (\<forall>j k off. seg_of j = (k, off) \<longrightarrow> j = SEG0 * (2 ^ k - 1) + off \<and> off < SEG0 * 2 ^ k)"
proof -
  have "slab_ok (s\<lparr>sb_table := table_push (sb_table s) c\<rparr>)"
    if "chunk_ok c \<and> ck_ptr c + CHUNK \<le> 2 ^ 48 \<and> length (sb_chunks s) < 2 ^ 32 - 2 \<and> (\<forall>d \<in> set (sb_chunks s). chunks_apart c d)" for c
    using that assms table_push_ok[of "sb_table s" c] by (auto simp: slab_ok_def table_push_def)
  then show ?thesis
    using is_slot_offset_dvd contains_slot_iff[OF assms] table_position_iff[of "sb_table s"] seg_of_place assms
    by (auto simp: slab_ok_def)
qed

text \<open>C24: the sweep's walk. From a fresh cursor it returns every slot of every resident chunk it does not skip,
  exactly once, from the highest down, and then ends; part of the way through, \<open>walk_passed\<close> says of a slot
  whether it is still to come.\<close>

theorem walk_visits_slots:
  assumes "slab_ok s" and "cur = cursor_sweep \<or> cur = cursor_default"
  shows "walk_from (Suc (length (walk_slots s cur))) s cur = rev (walk_slots s cur) \<and> distinct (walk_slots s cur)
    \<and> (\<forall>cur' addr. cursor_ok s cur' \<and> addr \<in> set (walk_slots s cur') \<longrightarrow>
         (walk_passed s cur' addr \<longleftrightarrow> addr \<notin> set (walk_from (Suc (length (walk_rest s cur'))) s cur')))"
proof -
  have fresh: "\<not> cu_started cur" "cu_remaining cur = 0" "cu_chunk cur = 0"
    using assms(2) by (auto simp: cursor_sweep_def cursor_default_def)
  then have "walk_rest s cur = rev (walk_slots s cur)"
    by (simp add: walk_rest_def walk_chunks_rev)
  then have "walk_from (Suc (length (walk_slots s cur))) s cur = rev (walk_slots s cur)"
    using walk_from_rest[OF assms(1) cursor_fresh_ok[OF fresh]] by simp
  moreover have "distinct (walk_slots s cur)"
    unfolding walk_slots_def
  proof (rule distinct_concat_map)
    show "distinct (chunk_slots (sb_chunks s ! i))" if "i \<in> set (filter (\<lambda>i. \<not> walk_skips s cur i) [0..<length (sb_chunks s)])" for i
      using that assms(1) chunk_slots_sorted[of "sb_chunks s ! i"] by (auto simp: slab_ok_def strict_sorted_iff)
  qed (use chunk_slots_apart[OF assms(1)] in auto)
  moreover have "walk_passed s cur' addr \<longleftrightarrow> addr \<notin> set (walk_from (Suc (length (walk_rest s cur'))) s cur')"
    if "cursor_ok s cur'" "addr \<in> set (walk_slots s cur')" for cur' addr
    using walk_passed_iff[OF assms(1) that] walk_from_rest[OF assms(1) that(1)] by simp
  ultimately show ?thesis
    by blast
qed

text \<open>C19: handing out slots. Free and live slots together are always the slots of the resident chunks, each once. An
  allocation that has room for one more chunk never fails, returns a slot of the size class asked for that is
  not in use, and keeps this; giving a slot in use back keeps it too. An empty slab has it, so no sequence of
  requests is ever handed a slot that is in use.\<close>

theorem slab_slots_unique:
  "slab_inv slab_new {}
   \<and> (slab_inv s live \<and> chunk_fits s base z al \<longrightarrow> (\<exists>p s'. slab_alloc s base z al = Some (p, s') \<and> p \<notin> live
        \<and> slot_has_class s' (z, al) p \<and> slab_inv s' (insert p live)))
   \<and> (slab_inv s live \<and> q \<in> live \<longrightarrow> slab_inv (slab_free s recent q) (live - {q}))
   \<and> slab_slots.history slab_new {} ops \<noteq> None"
  using slab_new_inv slab_alloc_inv[of s live base z al] slab_free_inv[of s live q recent]
    slab_slots.history_inv[OF slab_new_inv, of ops] by auto

text \<open>A slab with one chunk of four slots, the first of them in use.\<close>

lemma align_up_aligned:
  assumes "k < 64" and "2 ^ k dvd b"
  shows "align_up b (2 ^ k) = b"
proof -
  have z: "b AND mask k = 0"
    using assms(2) by (simp add: take_bit_eq_mask[symmetric] take_bit_eq_0_iff)
  have "b + 2 ^ k - 1 = b + mask k"
    by (simp add: mask_eq_exp_minus_1)
  also have "\<dots> = b OR mask k"
    using z by (simp add: disjunctive_add_eq_or)
  finally have "align_up b (2 ^ k) = (b OR mask k) AND NOT (mask k)"
    by (simp add: align_up_def mask_eq_exp_minus_1)
  also have "\<dots> = b AND NOT (mask k)"
    by (simp add: bit.conj_disj_distrib2)
  also have "\<dots> = b"
  proof (rule bit_word_eqI)
    fix n assume "n < LENGTH(64)"
    then show "bit (b AND NOT (mask k)) n = bit b n"
      using arg_cong[OF z, of "\<lambda>w. bit w n"] by (auto simp: bit_simps)
  qed
  finally show ?thesis .
qed

definition sample_slab :: slab where
  "sample_slab = snd (the (slab_alloc slab_new 0x100000 16384 8))"

lemma sample_align: "unat (align_up 0x100000 8) = 0x100000"
proof -
  have "(2 :: u64) ^ 3 dvd 0x100000"
    unfolding dvd_def by (rule exI[where x = "0x20000"]) simp
  from align_up_aligned[OF _ this] show ?thesis
    by simp
qed

lemma sample_fits: "chunk_fits slab_new 0x100000 16384 8"
  by (simp add: chunk_fits_def slab_new_def table_new_def CHUNK_def sample_align Let_def)

lemma upt_4: "[0..<4] = [0, 1, 2, 3 :: nat]"
  by code_simp

lemma sample_slab_alloc:
  "slab_alloc slab_new 0x100000 16384 8 = Some (0x100000, sample_slab)"
  "sb_chunks sample_slab = [\<lparr>ck_ptr = 0x100000, ck_meta = page_meta_new 16384 8 0\<rparr>]"
  "\<not> walk_skips sample_slab cursor_sweep 0"
  by (simp_all add: sample_slab_def slab_alloc_def carve_page_def carve_slots_def slab_new_def table_new_def table_push_def
      CHUNK_def sample_align carve_from_eq Let_def upt_4 get_def walk_skips_def is_released_def is_young_chunk_def cursor_sweep_def)

lemma sample_slots:
  "chunk_slots \<lparr>ck_ptr = 0x100000, ck_meta = page_meta_new 16384 8 0\<rparr> = [0x100000, 0x104000, 0x108000, 0x10C000]"
  by (simp add: chunk_slots_def page_meta_new_def CHUNK_def Let_def upt_4)

lemma sample_slab_ok: "slab_ok sample_slab"
  using slab_alloc_inv[OF slab_new_inv sample_fits] sample_slab_alloc(1) by (simp add: slab_inv_def)

theorem contains_slot_exact_witness:
  "contains_slot sample_slab (\<lambda>_. None) 0x104000 \<and> \<not> contains_slot sample_slab (\<lambda>_. Some 3) 0x104008"
  using contains_slot_exact[OF sample_slab_ok] by (simp add: sample_slab_alloc sample_slots)

theorem walk_visits_slots_witness: "walk_from 5 sample_slab cursor_sweep = [0x10C000, 0x108000, 0x104000, 0x100000]"
proof -
  have "walk_slots sample_slab cursor_sweep = [0x100000, 0x104000, 0x108000, 0x10C000]"
    by (simp add: walk_slots_def sample_slab_alloc sample_slots)
  moreover from this have n: "Suc (length (walk_slots sample_slab cursor_sweep)) = 5"
    by simp
  ultimately show ?thesis
    using walk_visits_slots[OF sample_slab_ok, of cursor_sweep, unfolded n] by simp
qed

theorem slab_slots_unique_witness:
  "\<exists>p s'. slab_alloc slab_new 0x100000 16384 8 = Some (p, s') \<and> p \<notin> {} \<and> slot_has_class s' (16384, 8) p \<and> slab_inv s' {p}"
  using slab_slots_unique[where s = slab_new and live = "{}" and base = "0x100000" and z = "16384" and al = "8"] slab_new_inv sample_fits
  by simp

end
