(* ===== verification/Slab_Release.thy ===== *)
theory Slab_Release
  imports Slab "HOL-Library.Product_Lexorder"
begin

text \<open>
  Giving idle pages back, after \<^verbatim>\<open>release_idle_chunks\<close>, \<^verbatim>\<open>take_free_in\<close> and \<^verbatim>\<open>release_chunks\<close> of
  \<^verbatim>\<open>machine/src/memory/slab.rs\<close> on a Unix target. Every eighth sweep the slab looks for chunks whose slots are
  all free, in size classes whose free lists never ran low, takes their slots off the free lists and marks them
  as released; a later allocation carves them again. The theorem says that no slot in use is lost on the way.
  \<^verbatim>\<open>release_chunks\<close> checks nothing itself: what its caller hands to it is in the theory of the evacuation.
  A division by a slot size of zero, which would panic, is the outcome \<open>None\<close>.
\<close>

section \<open>The scan\<close>

definition RELEASE_WINDOW :: nat where
  "RELEASE_WINDOW = 8"

definition chunk_starts_sorted :: "slab \<Rightarrow> (nat \<times> nat) list" where
  "chunk_starts_sorted s = sort (map (\<lambda>i. (ck_ptr (sb_chunks s ! i), i)) [0..<length (sb_chunks s)])"

definition search_starts :: "(nat \<times> nat) list \<Rightarrow> nat \<Rightarrow> nat option" where
  "search_starts starts addr = (case partition_point (\<lambda>(s, _). s \<le> addr) starts of
     0 \<Rightarrow> None
   | Suc k \<Rightarrow> (let (s, i) = starts ! k in if addr < s + CHUNK then Some i else None))"

text \<open>How many chunks of each class stayed free since the last scan; classes with fewer than two are left out.\<close>

definition idle_budget :: "free_class list \<Rightarrow> (slot_class \<times> nat) list option" where
  "idle_budget free =
     (if \<exists>c \<in> set free. fst (fc_key c) = 0 \<or> CHUNK < unat (fst (fc_key c)) then None
      else Some (filter (\<lambda>(_, chunks). 2 \<le> chunks)
        (map (\<lambda>c. (fc_key c, fc_low_water c div (CHUNK div unat (fst (fc_key c))))) free)))"

definition count_slot :: "(nat \<times> nat) list \<Rightarrow> nat list \<Rightarrow> nat \<Rightarrow> nat list" where
  "count_slot starts counts p = (case search_starts starts p of
     None \<Rightarrow> counts
   | Some i \<Rightarrow> counts[i := counts ! i + 1])"

definition count_free :: "slab \<Rightarrow> (slot_class \<times> nat) list \<Rightarrow> (nat \<times> nat) list \<Rightarrow> nat list" where
  "count_free s budget starts =
     foldl (\<lambda>counts c. foldl (count_slot starts) counts (fc_slots c)) (replicate (length (sb_chunks s)) 0)
       (filter (\<lambda>c. \<exists>(k, _) \<in> set budget. k = fc_key c) (sb_free s))"

fun spend :: "slot_class \<Rightarrow> (slot_class \<times> nat) list \<Rightarrow> (slot_class \<times> nat) list" where
  "spend key [] = []"
| "spend key ((k, left) # budget) = (if k = key then (k, left - 1) # budget else (k, left) # spend key budget)"

fun push_released :: "slot_class \<Rightarrow> nat \<Rightarrow> (slot_class \<times> nat list) list \<Rightarrow> (slot_class \<times> nat list) list" where
  "push_released key i [] = [(key, [i])]"
| "push_released key i ((k, l) # rs) = (if k = key then (k, l @ [i]) # rs else (k, l) # push_released key i rs)"

record release_state =
  rl_slab :: slab
  rl_budget :: "(slot_class \<times> nat) list"
  rl_release :: "bool list"
  rl_bytes :: nat

definition mark_released :: "slab \<Rightarrow> nat \<Rightarrow> slot_class \<Rightarrow> slab" where
  "mark_released s i key = (let s1 = set_released s i True in s1\<lparr>sb_released := push_released key i (sb_released s1)\<rparr>)"

definition release_step :: "nat list \<Rightarrow> release_state \<Rightarrow> nat \<Rightarrow> release_state" where
  "release_step counts st i = (case get (sb_chunks (rl_slab st)) i of
     None \<Rightarrow> st
   | Some c \<Rightarrow>
       (let key = chunk_class c; free = counts ! i;
            slots = (CHUNK - unat (pm_first_off (ck_meta c))) div unat (pm_slot_size (ck_meta c)) in
        if free = 0 \<or> free \<noteq> slots then st
        else case map_of (rl_budget st) key of
          None \<Rightarrow> st
        | Some left \<Rightarrow>
            if left = 0 then st
            else st\<lparr>rl_slab := mark_released (rl_slab st) i key, rl_budget := spend key (rl_budget st),
                   rl_release := (rl_release st)[i := True], rl_bytes := rl_bytes st + CHUNK\<rparr>))"

definition drop_slots :: "(nat \<Rightarrow> bool) \<Rightarrow> free_class list \<Rightarrow> free_class list" where
  "drop_slots gone free = map (\<lambda>c. let slots = filter (\<lambda>p. \<not> gone p) (fc_slots c) in
     c\<lparr>fc_slots := slots, fc_low_water := length slots\<rparr>) free"

definition release_idle_chunks :: "slab \<Rightarrow> (nat \<times> slab) option" where
  "release_idle_chunks s =
     (let cycles = sb_cycles_since_scan s + 1 in
      if cycles < RELEASE_WINDOW then Some (0, s\<lparr>sb_cycles_since_scan := cycles\<rparr>)
      else case idle_budget (sb_free s) of
        None \<Rightarrow> None
      | Some budget \<Rightarrow>
          (let s1 = s\<lparr>sb_cycles_since_scan := 0, sb_free := map (\<lambda>c. c\<lparr>fc_low_water := length (fc_slots c)\<rparr>) (sb_free s)\<rparr> in
           if budget = [] then Some (0, s1)
           else
             (let starts = chunk_starts_sorted s1; n = length (sb_chunks s1); counts = count_free s1 budget starts;
                  st = foldl (release_step counts)
                    \<lparr>rl_slab = s1, rl_budget = budget, rl_release = replicate n False, rl_bytes = 0\<rparr> [0..<n] in
              Some (rl_bytes st, if rl_bytes st = 0 then rl_slab st
                else (rl_slab st)\<lparr>sb_free := drop_slots
                  (\<lambda>p. case search_starts starts p of None \<Rightarrow> False | Some i \<Rightarrow> rl_release st ! i) (sb_free (rl_slab st))\<rparr>))))"

section \<open>Giving back the chunks an evacuation emptied\<close>

definition in_chunks :: "nat list \<Rightarrow> nat \<Rightarrow> bool" where
  "in_chunks starts addr = (case partition_point (\<lambda>s. s \<le> addr) starts of
     0 \<Rightarrow> False
   | Suc k \<Rightarrow> addr < starts ! k + CHUNK)"

definition chunk_starts :: "slab \<Rightarrow> bool list \<Rightarrow> nat list" where
  "chunk_starts s chunks = sort (List.map_filter
     (\<lambda>i. if chunks ! i then map_option ck_ptr (get (sb_chunks s) i) else None) [0..<length chunks])"

definition retain_slots :: "(nat \<Rightarrow> bool) \<Rightarrow> free_class list \<Rightarrow> free_class list" where
  "retain_slots gone free = map (\<lambda>c. let slots = filter (\<lambda>p. \<not> gone p) (fc_slots c) in
     c\<lparr>fc_slots := slots, fc_low_water := min (fc_low_water c) (length slots)\<rparr>) free"

definition take_free_in :: "slab \<Rightarrow> bool list \<Rightarrow> nat list \<times> slab" where
  "take_free_in s chunks =
     (let starts = chunk_starts s chunks in
      if starts = [] then ([], s)
      else (concat (map (\<lambda>c. filter (in_chunks starts) (fc_slots c)) (sb_free s)),
        s\<lparr>sb_free := retain_slots (in_chunks starts) (sb_free s)\<rparr>))"

definition release_chunks :: "slab \<Rightarrow> bool list \<Rightarrow> nat \<times> slab" where
  "release_chunks s emptied =
     (if \<not> list_ex id emptied then (0, s)
      else
        (let (bytes, s1) = foldl (\<lambda>(bytes, s) i. case get (sb_chunks s) i of
                None \<Rightarrow> (bytes, s)
              | Some c \<Rightarrow> if is_released s i then (bytes, s) else (bytes + CHUNK, mark_released s i (chunk_class c)))
              (0, s) (filter (\<lambda>i. emptied ! i) [0..<length emptied]);
             starts = chunk_starts s emptied in
         (bytes, s1\<lparr>sb_free := retain_slots (in_chunks starts) (sb_free s1)\<rparr>)))"

definition released_bytes :: "slab \<Rightarrow> nat" where
  "released_bytes s = sum_list (map (\<lambda>(_, l). length l) (sb_released s)) * CHUNK"

section \<open>The binary searches\<close>

lemma partition_point_found:
  assumes "sorted ss" and "m < length ss" and "ss ! m \<le> addr" and "addr < ss ! m + CHUNK"
    and "\<And>j. j < length ss \<Longrightarrow> j \<noteq> m \<Longrightarrow> ss ! m + CHUNK \<le> ss ! j \<or> ss ! j + CHUNK \<le> ss ! m"
  shows "partition_point (\<lambda>s. s \<le> addr) ss = Suc m"
proof (rule ccontr)
  let ?k = "partition_point (\<lambda>s. s \<le> addr) ss"
  assume "?k \<noteq> Suc m"
  then consider "?k \<le> m" | "Suc m < ?k"
    by linarith
  then show False
  proof cases
    case 1
    then have "\<not> ss ! ?k \<le> addr" "ss ! ?k \<le> ss ! m"
      using partition_point_stop[of "\<lambda>s. s \<le> addr" ss] assms(2) sorted_nth_mono[OF assms(1) 1] by auto
    then show ?thesis
      using assms(3) by simp
  next
    case 2
    then have "ss ! Suc m \<le> addr" "Suc m < length ss"
      using partition_point_nth[of "Suc m" "\<lambda>s. s \<le> addr" ss] partition_point_le[of "\<lambda>s. s \<le> addr" ss] by auto
    moreover have "ss ! m \<le> ss ! Suc m"
      using sorted_nth_mono[OF assms(1)] calculation(2) by simp
    ultimately show ?thesis
      using assms(4) assms(5)[of "Suc m"] by (auto simp: CHUNK_def)
  qed
qed

lemma partition_point_map: "partition_point p (map f xs) = partition_point (p \<circ> f) xs"
  by (simp add: partition_point_def takeWhile_map)

lemma chunks_apart_at:
  assumes "slab_ok s" and "i < length (sb_chunks s)" and "j < length (sb_chunks s)" and "i \<noteq> j"
  shows "chunks_apart (sb_chunks s ! i) (sb_chunks s ! j)"
  using assms by (cases i j rule: linorder_cases) (auto simp: slab_ok_def table_ok_def chunks_apart_def)

lemma search_starts_iff:
  assumes "slab_ok s"
  shows "search_starts (chunk_starts_sorted s) addr = Some i \<longleftrightarrow> i < length (sb_chunks s) \<and> in_chunk (sb_chunks s ! i) addr"
proof -
  let ?starts = "chunk_starts_sorted s" and ?ptr = "\<lambda>i. ck_ptr (sb_chunks s ! i)"
  have st: "set ?starts = (\<lambda>i. (?ptr i, i)) ` {..<length (sb_chunks s)}" "distinct ?starts" "sorted ?starts"
    by (auto simp: chunk_starts_sorted_def distinct_map inj_on_def)
  then have sorted: "sorted (map fst ?starts)"
    by (fastforce simp: sorted_iff_nth_mono less_eq_prod_def)
  have pp: "partition_point (\<lambda>(s, _). s \<le> addr) ?starts = partition_point (\<lambda>s. s \<le> addr) (map fst ?starts)"
    by (simp add: partition_point_map comp_def case_prod_unfold)
  have entry: "snd (?starts ! k) < length (sb_chunks s) \<and> fst (?starts ! k) = ?ptr (snd (?starts ! k))" if "k < length ?starts" for k
    using nth_mem[OF that] st(1) by auto
  show ?thesis
  proof
    assume "search_starts ?starts addr = Some i"
    then obtain k s' where k: "partition_point (\<lambda>(s, _). s \<le> addr) ?starts = Suc k" "?starts ! k = (s', i)" "addr < s' + CHUNK"
      by (auto simp: search_starts_def split: nat.splits prod.splits if_splits)
    then have "k < length ?starts" "s' \<le> addr"
      using partition_point_le[of "\<lambda>(s, _). s \<le> addr" ?starts] partition_point_nth[of k "\<lambda>(s, _). s \<le> addr" ?starts] by auto
    then show "i < length (sb_chunks s) \<and> in_chunk (sb_chunks s ! i) addr"
      using entry[of k] k by (auto simp: in_chunk_def)
  next
    assume i: "i < length (sb_chunks s) \<and> in_chunk (sb_chunks s ! i) addr"
    then have "(?ptr i, i) \<in> set ?starts"
      using st(1) by auto
    then obtain m where m: "m < length ?starts" "?starts ! m = (?ptr i, i)"
      by (auto simp: in_set_conv_nth)
    have "partition_point (\<lambda>s. s \<le> addr) (map fst ?starts) = Suc m"
    proof (rule partition_point_found[OF sorted])
      show "map fst ?starts ! m + CHUNK \<le> map fst ?starts ! j \<or> map fst ?starts ! j + CHUNK \<le> map fst ?starts ! m"
        if "j < length (map fst ?starts)" "j \<noteq> m" for j
      proof -
        have "snd (?starts ! j) \<noteq> i"
          using that m entry[of j] st(2) nth_eq_iff_index_eq[of ?starts j m] by (auto simp: prod_eq_iff)
        then show ?thesis
          using chunks_apart_at[OF assms, of i "snd (?starts ! j)"] entry[of j] that m i by (auto simp: chunks_apart_def)
      qed
    qed (use m i in \<open>auto simp: in_chunk_def\<close>)
    then show "search_starts ?starts addr = Some i"
      using m i by (simp add: search_starts_def pp in_chunk_def)
  qed
qed

lemma in_chunks_iff:
  assumes "slab_ok s"
  shows "in_chunks (chunk_starts s chunks) addr \<longleftrightarrow>
    (\<exists>i < length (sb_chunks s). i < length chunks \<and> chunks ! i \<and> in_chunk (sb_chunks s ! i) addr)"
proof -
  let ?ptr = "\<lambda>i. ck_ptr (sb_chunks s ! i)"
  let ?is = "filter (\<lambda>i. chunks ! i \<and> i < length (sb_chunks s)) [0..<length chunks]"
  let ?ss = "chunk_starts s chunks"
  have "List.map_filter (\<lambda>i. if chunks ! i then map_option ck_ptr (get (sb_chunks s) i) else None) l
    = map ?ptr (filter (\<lambda>i. chunks ! i \<and> i < length (sb_chunks s)) l)" for l
    by (induction l) (auto simp: map_filter_simps get_def)
  then have ss: "?ss = sort (map ?ptr ?is)"
    by (simp add: chunk_starts_def)
  have "inj_on ?ptr (set ?is)"
    using chunks_apart_at[OF assms] by (intro inj_onI) (fastforce simp: chunks_apart_def CHUNK_def)
  then have d: "distinct ?ss" and set: "set ?ss = ?ptr ` set ?is" and sorted: "sorted ?ss"
    by (simp_all add: ss distinct_map)
  show ?thesis
  proof
    assume "in_chunks ?ss addr"
    then obtain k where k: "partition_point (\<lambda>s. s \<le> addr) ?ss = Suc k" "addr < ?ss ! k + CHUNK"
      by (auto simp: in_chunks_def split: nat.splits)
    then have "k < length ?ss" "?ss ! k \<le> addr"
      using partition_point_le[of "\<lambda>s. s \<le> addr" ?ss] partition_point_nth[of k "\<lambda>s. s \<le> addr" ?ss] by auto
    then show "\<exists>i < length (sb_chunks s). i < length chunks \<and> chunks ! i \<and> in_chunk (sb_chunks s ! i) addr"
      using nth_mem[of k ?ss] set k by (auto simp: in_chunk_def)
  next
    assume "\<exists>i < length (sb_chunks s). i < length chunks \<and> chunks ! i \<and> in_chunk (sb_chunks s ! i) addr"
    then obtain i where i: "i \<in> set ?is" "in_chunk (sb_chunks s ! i) addr"
      by auto
    then have "?ptr i \<in> set ?ss"
      unfolding set by blast
    then obtain m where m: "m < length ?ss" "?ss ! m = ?ptr i"
      unfolding in_set_conv_nth by blast
    have "partition_point (\<lambda>s. s \<le> addr) ?ss = Suc m"
    proof (rule partition_point_found[OF sorted m(1)])
      show "?ss ! m + CHUNK \<le> ?ss ! j \<or> ?ss ! j + CHUNK \<le> ?ss ! m" if j: "j < length ?ss" "j \<noteq> m" for j
      proof -
        obtain i' where "i' \<in> set ?is" "?ss ! j = ?ptr i'"
          using nth_mem[OF j(1)] unfolding set by blast
        moreover have "?ss ! j \<noteq> ?ss ! m"
          using d j m(1) nth_eq_iff_index_eq[of ?ss j m] by simp
        ultimately have "chunks_apart (sb_chunks s ! i) (sb_chunks s ! i')" "?ss ! j = ?ptr i'"
          using chunks_apart_at[OF assms, of i i'] i(1) m(2) by auto
        then show ?thesis
          unfolding m(2) chunks_apart_def by simp
      qed
    qed (use m i in \<open>auto simp: in_chunk_def\<close>)
    then show "in_chunks ?ss addr"
      using m i by (simp add: in_chunks_def in_chunk_def)
  qed
qed

section \<open>Chunks without a slot in use\<close>

lemma count_slot_nth:
  "i < length counts \<Longrightarrow> foldl (count_slot starts) counts ps ! i
     = counts ! i + length (filter (\<lambda>p. search_starts starts p = Some i) ps)"
  "length (foldl (count_slot starts) counts ps) = length counts"
  by (induction ps arbitrary: counts) (auto simp: count_slot_def nth_list_update split: option.split)

lemma foldl_foldl_concat: "foldl (\<lambda>acc x. foldl f acc (g x)) acc xs = foldl f acc (concat (map g xs))"
  by (induction xs arbitrary: acc) auto

lemma count_free_nth:
  "i < length (sb_chunks s) \<Longrightarrow> count_free s budget starts ! i = length (filter (\<lambda>p. search_starts starts p = Some i)
     (concat (map fc_slots (filter (\<lambda>c. \<exists>(k, _) \<in> set budget. k = fc_key c) (sb_free s)))))"
  by (simp add: count_free_def foldl_foldl_concat count_slot_nth)

lemma distinct_concat_filter: "distinct (concat (map f xs)) \<Longrightarrow> distinct (concat (map f (filter P xs)))"
  by (induction xs) auto

lemma old_slot_in_chunk:
  assumes "slab_ok s" and "p \<in> old_slots s" and "i < length (sb_chunks s)" and "in_chunk (sb_chunks s ! i) p"
  shows "p \<in> set (chunk_slots (sb_chunks s ! i))" "\<not> is_released s i" "\<not> is_young_chunk s i"
proof -
  obtain j where j: "j < length (sb_chunks s)" "p \<in> set (chunk_slots (sb_chunks s ! j))" "\<not> is_released s j" "\<not> is_young_chunk s j"
    using assms(2) by (auto simp: old_slots_def)
  have "table_position (sb_table s) p = Some i"
    using assms by (simp add: table_position_iff slab_ok_def)
  then have "i = j"
    using slot_chunk[OF assms(1) j(1,2)] by simp
  then show "p \<in> set (chunk_slots (sb_chunks s ! i))" "\<not> is_released s i" "\<not> is_young_chunk s i"
    using j by auto
qed

lemma counted_chunk_free:
  assumes inv: "slab_inv s live" and i: "i < length (sb_chunks s)"
    and n: "count_free s budget (chunk_starts_sorted s) ! i = length (chunk_slots (sb_chunks s ! i))" "chunk_slots (sb_chunks s ! i) \<noteq> []"
  shows "set (chunk_slots (sb_chunks s ! i)) \<subseteq> set (free_slots s)" "\<not> is_released s i" "\<not> is_young_chunk s i"
proof -
  let ?c = "sb_chunks s ! i"
  define l where "l = filter (\<lambda>p. search_starts (chunk_starts_sorted s) p = Some i)
    (concat (map fc_slots (filter (\<lambda>c. \<exists>(k, _) \<in> set budget. k = fc_key c) (sb_free s))))"
  have ok: "slab_ok s" "distinct (free_slots s)" "set (free_slots s) \<subseteq> old_slots s"
    using inv by (auto simp: slab_inv_def)
  have l: "length l = length (chunk_slots ?c)" "distinct l" "set l \<subseteq> set (free_slots s)"
    using n ok(2) i by (auto simp: l_def count_free_nth free_slots_def intro!: distinct_filter distinct_concat_filter)
  have old: "p \<in> set (chunk_slots ?c)" "\<not> is_released s i" "\<not> is_young_chunk s i" if "p \<in> set l" for p
  proof -
    have "p \<in> old_slots s" "in_chunk ?c p"
      using that ok(3) l(3) by (blast, simp add: l_def search_starts_iff[OF ok(1)])
    then show "p \<in> set (chunk_slots ?c)" "\<not> is_released s i" "\<not> is_young_chunk s i"
      using old_slot_in_chunk[OF ok(1) _ i] by blast+
  qed
  have "distinct (chunk_slots ?c)"
    using ok(1) i chunk_slots_sorted by (auto simp: slab_ok_def strict_sorted_iff)
  then have "set l = set (chunk_slots ?c)"
    using l old(1) by (intro card_subset_eq) (auto simp: distinct_card)
  then show "set (chunk_slots ?c) \<subseteq> set (free_slots s)"
    using l(3) by simp
  obtain p where "p \<in> set l"
    using n l(1) by (cases l) auto
  then show "\<not> is_released s i" "\<not> is_young_chunk s i"
    using old by auto
qed

section \<open>Retiring chunks\<close>

text \<open>\<open>retired s0 R s\<close>: \<open>s\<close> is \<open>s0\<close> with the chunks in \<open>R\<close> marked as released, the free lists untouched.\<close>

definition retired :: "slab \<Rightarrow> nat set \<Rightarrow> slab \<Rightarrow> bool" where
  "retired s0 R s \<longleftrightarrow> sb_table s = sb_table s0 \<and> sb_free s = sb_free s0 \<and> sb_young_mask s = sb_young_mask s0
     \<and> (\<forall>j. is_released s j \<longleftrightarrow> is_released s0 j \<or> j \<in> R) \<and> finite R
     \<and> (\<forall>(key, l) \<in> set (sb_released s). \<forall>i \<in> set l. i < length (sb_chunks s0) \<and> (is_released s0 i \<or> i \<in> R)
          \<and> \<not> is_young_chunk s0 i \<and> chunk_class (sb_chunks s0 ! i) = key)
     \<and> distinct (concat (map snd (sb_released s))) \<and> length (sb_released_mask s) \<le> length (sb_chunks s0)
     \<and> released_bytes s = released_bytes s0 + card R * CHUNK"

lemma push_released_set:
  "mset (concat (map snd (push_released key i rs))) = add_mset i (mset (concat (map snd rs)))"
  "(k, l) \<in> set (push_released key i rs) \<Longrightarrow> j \<in> set l \<Longrightarrow> k = key \<and> j = i \<or> (\<exists>l'. (k, l') \<in> set rs \<and> j \<in> set l')"
  by (induction key i rs rule: push_released.induct) (auto split: if_splits)

lemma released_bytes_mset: "released_bytes s = length (concat (map snd (sb_released s))) * CHUNK"
  by (simp add: released_bytes_def length_concat comp_def case_prod_unfold)

lemma retired_refl: "slab_inv s live \<Longrightarrow> retired s {} s"
  by (simp add: retired_def slab_inv_def)

lemma mark_released_retired:
  assumes r: "retired s0 R s" and i: "i < length (sb_chunks s0)" "i \<notin> R" "\<not> is_released s0 i" "\<not> is_young_chunk s0 i"
  shows "retired s0 (insert i R) (mark_released s i (chunk_class (sb_chunks s0 ! i)))"
proof -
  let ?key = "chunk_class (sb_chunks s0 ! i)"
  define s' where "s' = mark_released s i ?key"
  have fields: "sb_table s' = sb_table s" "sb_free s' = sb_free s" "sb_young_mask s' = sb_young_mask s"
    "sb_released s' = push_released ?key i (sb_released s)" "length (sb_released_mask s') = max (length (sb_released_mask s)) (Suc i)"
    "is_released s' j = (if j = i then True else is_released s j)" for j
    using set_released_simps(1)[of s i True j]
    by (simp_all add: s'_def mark_released_def Let_def set_released_simps is_released_def)
  have m: "mset (concat (map snd (sb_released s'))) = add_mset i (mset (concat (map snd (sb_released s))))"
    by (simp add: fields push_released_set)
  have new: "i \<notin> set (concat (map snd (sb_released s)))"
    using r i by (fastforce simp: retired_def)
  have "distinct (concat (map snd (sb_released s')))"
    using m new r mset_eq_imp_distinct_iff[of "concat (map snd (sb_released s'))" "i # concat (map snd (sb_released s))"]
    by (simp add: retired_def)
  moreover have "released_bytes s' = released_bytes s + CHUNK"
    using arg_cong[OF m, of size] by (simp add: released_bytes_mset)
  moreover have "j < length (sb_chunks s0) \<and> (is_released s0 j \<or> j \<in> insert i R) \<and> \<not> is_young_chunk s0 j
      \<and> chunk_class (sb_chunks s0 ! j) = key" if "(key, l) \<in> set (sb_released s')" "j \<in> set l" for key l j
    using push_released_set(2)[OF that(1)[unfolded fields] that(2)] r i by (auto simp: retired_def)
  moreover have "card (insert i R) * CHUNK = card R * CHUNK + CHUNK"
    using r i(2) by (simp add: retired_def)
  ultimately show ?thesis
    using r i(1,2) unfolding s'_def[symmetric] by (auto simp: retired_def fields)
qed

lemma retired_inv:
  assumes inv: "slab_inv s0 live" and r: "retired s0 R s"
    and R: "\<And>i. i \<in> R \<Longrightarrow> i < length (sb_chunks s0) \<and> \<not> is_young_chunk s0 i \<and> set (chunk_slots (sb_chunks s0 ! i)) \<subseteq> set (free_slots s0)"
    and gone: "\<And>p. p \<in> set (free_slots s0) \<Longrightarrow> gone p \<longleftrightarrow> (\<exists>i \<in> R. p \<in> set (chunk_slots (sb_chunks s0 ! i)))"
    and free: "concat (map fc_slots free) = filter (\<lambda>p. \<not> gone p) (free_slots s0)"
      "\<And>fc q. fc \<in> set free \<Longrightarrow> q \<in> set (fc_slots fc) \<Longrightarrow> \<exists>fc' \<in> set (sb_free s0). fc_key fc' = fc_key fc \<and> q \<in> set (fc_slots fc')"
  shows "slab_inv (s\<lparr>sb_free := free\<rparr>) live"
proof -
  let ?s = "s\<lparr>sb_free := free\<rparr>" and ?gone = "\<Union>i \<in> R. set (chunk_slots (sb_chunks s0 ! i))"
  have ok: "slab_ok s0"
    using inv by (simp add: slab_inv_def)
  have same: "sb_chunks ?s = sb_chunks s0" "is_released ?s j \<longleftrightarrow> is_released s0 j \<or> j \<in> R" "is_young_chunk ?s j = is_young_chunk s0 j" for j
    using r by (simp_all add: retired_def is_young_chunk_def is_released_def)
  have f: "free_slots ?s = filter (\<lambda>p. \<not> gone p) (free_slots s0)"
    using free(1) by (simp add: free_slots_def)
  have sub: "?gone \<subseteq> set (free_slots s0)"
    using R by blast
  have "set (free_slots ?s) = set (free_slots s0) - ?gone"
    using gone unfolding f by auto
  moreover have "old_slots ?s = old_slots s0 - ?gone"
  proof -
    have "p \<notin> ?gone" if "j < length (sb_chunks s0)" "j \<notin> R" "p \<in> set (chunk_slots (sb_chunks s0 ! j))" for j p
      using that R chunk_slots_apart[OF ok that(1)] by blast
    then show ?thesis
      unfolding old_slots_def same by auto
  qed
  moreover have "?gone \<inter> live = {}"
    using sub inv by (auto simp: slab_inv_def)
  ultimately have "set (free_slots ?s) \<union> live = old_slots ?s" "set (free_slots ?s) \<inter> live = {}"
    using inv by (auto simp: slab_inv_def)
  moreover have "distinct (free_slots ?s)"
    using inv by (simp add: f slab_inv_def)
  moreover have "slot_has_class ?s (fc_key fc) q" if "fc \<in> set free" "q \<in> set (fc_slots fc)" for fc q
    using free(2)[OF that] inv same(1) by (auto simp: slab_inv_def slot_has_class_def)
  moreover have "slab_ok ?s"
    using ok r by (simp add: slab_ok_def retired_def)
  ultimately show ?thesis
    using inv r same by (auto simp: slab_inv_def retired_def)
qed

definition classes_fit :: "slab \<Rightarrow> bool" where
  "classes_fit s \<longleftrightarrow> (\<forall>fc \<in> set (sb_free s). fst (fc_key fc) \<noteq> 0 \<and> unat (fst (fc_key fc)) \<le> CHUNK)"

definition picked :: "bool list \<Rightarrow> nat set" where
  "picked rel = {i. i < length rel \<and> rel ! i}"

lemma picked_update: "i < length rel \<Longrightarrow> picked (rel[i := True]) = insert i (picked rel)"
  by (auto simp: picked_def nth_list_update)

text \<open>What the loop over the chunks keeps.\<close>

definition releasing :: "slab \<Rightarrow> nat \<Rightarrow> release_state \<Rightarrow> bool" where
  "releasing s k st \<longleftrightarrow> retired s (picked (rl_release st)) (rl_slab st) \<and> length (rl_release st) = length (sb_chunks s)
     \<and> rl_bytes st = card (picked (rl_release st)) * CHUNK
     \<and> (\<forall>i \<in> picked (rl_release st). i < k \<and> \<not> is_released s i \<and> \<not> is_young_chunk s i
          \<and> set (chunk_slots (sb_chunks s ! i)) \<subseteq> set (free_slots s))"

lemma release_step_keeps:
  assumes inv: "slab_inv s live" and k: "k < length (sb_chunks s)" and st: "releasing s k st"
  shows "releasing s (Suc k) (release_step (count_free s budget (chunk_starts_sorted s)) st k)"
proof (cases "release_step (count_free s budget (chunk_starts_sorted s)) st k = st")
  case True
  then show ?thesis
    using st by (auto simp: releasing_def)
next
  case False
  let ?c = "sb_chunks s ! k" and ?counts = "count_free s budget (chunk_starts_sorted s)"
  have "get (sb_chunks (rl_slab st)) k = Some ?c"
    using st k by (simp add: releasing_def retired_def)
  then have n: "?counts ! k \<noteq> 0" "?counts ! k = length (chunk_slots ?c)"
    and step: "release_step ?counts st k = st\<lparr>rl_slab := mark_released (rl_slab st) k (chunk_class ?c),
      rl_budget := spend (chunk_class ?c) (rl_budget st), rl_release := (rl_release st)[k := True], rl_bytes := rl_bytes st + CHUNK\<rparr>"
    using False unfolding chunk_slots_nth(2)
    by (auto simp: release_step_def Let_def simp del: get_Some_iff split: if_splits option.splits)
  have free: "set (chunk_slots ?c) \<subseteq> set (free_slots s)" "\<not> is_released s k" "\<not> is_young_chunk s k"
    using counted_chunk_free[OF inv k n(2)] n by auto
  have new: "k \<notin> picked (rl_release st)" and p: "picked ((rl_release st)[k := True]) = insert k (picked (rl_release st))"
    and fin: "finite (picked (rl_release st))"
    using st k by (auto simp: releasing_def picked_update retired_def)
  have "retired s (insert k (picked (rl_release st))) (mark_released (rl_slab st) k (chunk_class ?c))"
    using st new free k by (intro mark_released_retired) (auto simp: releasing_def)
  then show ?thesis
    using st free new fin unfolding step by (auto simp: releasing_def p)
qed

lemma release_loop:
  assumes "slab_inv s live" and "k \<le> length (sb_chunks s)"
  shows "releasing s k (foldl (release_step (count_free s budget (chunk_starts_sorted s)))
    \<lparr>rl_slab = s, rl_budget = b, rl_release = replicate (length (sb_chunks s)) False, rl_bytes = 0\<rparr> [0..<k])"
  using assms(2)
proof (induction k)
  case 0
  have "picked (replicate n False) = {}" for n
    by (auto simp: picked_def)
  then show ?case
    using retired_refl[OF assms(1)] by (simp add: releasing_def)
next
  case (Suc k)
  then show ?case
    using release_step_keeps[OF assms(1), of k] by simp
qed

lemma slab_inv_low_water:
  assumes "slab_inv s live" and "map fc_slots free = map fc_slots (sb_free s)" and "map fc_key free = map fc_key (sb_free s)"
  shows "slab_inv (s\<lparr>sb_free := free, sb_cycles_since_scan := n\<rparr>) live" and "slab_inv (s\<lparr>sb_cycles_since_scan := n\<rparr>) live"
proof -
  have "\<exists>fc' \<in> set (sb_free s). fc_key fc' = fc_key fc \<and> fc_slots fc' = fc_slots fc" if fc: "fc \<in> set free" for fc
  proof -
    obtain i where i: "i < length free" "fc = free ! i"
      using fc by (auto simp: in_set_conv_nth)
    moreover have "length free = length (sb_free s)"
      using assms(2) by (metis length_map)
    moreover have "map fc_slots free ! i = map fc_slots (sb_free s) ! i" "map fc_key free ! i = map fc_key (sb_free s) ! i"
      using assms(2,3) by simp_all
    ultimately show ?thesis
      by (intro bexI[of _ "sb_free s ! i"]) auto
  qed
  then have "slot_has_class s (fc_key fc) q" if "fc \<in> set free" "q \<in> set (fc_slots fc)" for fc q
    using assms(1) that unfolding slab_inv_def by metis
  then show "slab_inv (s\<lparr>sb_free := free, sb_cycles_since_scan := n\<rparr>) live"
    using assms by (auto simp: slab_inv_def slab_ok_def free_slots_def old_slots_def is_released_def is_young_chunk_def slot_has_class_def)
  show "slab_inv (s\<lparr>sb_cycles_since_scan := n\<rparr>) live"
    using assms(1) by (auto simp: slab_inv_def slab_ok_def free_slots_def old_slots_def is_released_def is_young_chunk_def slot_has_class_def)
qed

lemma drop_slots_props:
  "concat (map fc_slots (drop_slots gone free)) = filter (\<lambda>p. \<not> gone p) (concat (map fc_slots free))"
  "map fc_key (drop_slots gone free) = map fc_key free"
  "fc \<in> set (drop_slots gone free) \<Longrightarrow> q \<in> set (fc_slots fc) \<Longrightarrow> \<exists>fc' \<in> set free. fc_key fc' = fc_key fc \<and> q \<in> set (fc_slots fc')"
  by (induction free) (auto simp: drop_slots_def Let_def)

text \<open>One call: what it returns, and what it leaves of the slab.\<close>

definition gave_back :: "slab \<Rightarrow> nat set \<Rightarrow> nat set \<Rightarrow> slab \<Rightarrow> bool" where
  "gave_back s live R s' \<longleftrightarrow> slab_inv s' live \<and> sb_table s' = sb_table s \<and> map fc_key (sb_free s') = map fc_key (sb_free s)
     \<and> (\<forall>i. is_released s' i \<longleftrightarrow> is_released s i \<or> i \<in> R)
     \<and> (\<forall>i \<in> R. i < length (sb_chunks s) \<and> \<not> is_released s i \<and> set (chunk_slots (sb_chunks s ! i)) \<inter> live = {})
     \<and> set (free_slots s') = set (free_slots s) - (\<Union>i \<in> R. set (chunk_slots (sb_chunks s ! i)))
     \<and> sb_young_mask s' = sb_young_mask s"

lemma gave_back_none:
  assumes "slab_inv s' live" and "sb_table s' = sb_table s" and "map fc_key (sb_free s') = map fc_key (sb_free s)"
    and "is_released s' = is_released s" and "free_slots s' = free_slots s" and "sb_young_mask s' = sb_young_mask s"
  shows "gave_back s live {} s'"
  using assms by (simp add: gave_back_def)

lemma classes_fit_keys: "classes_fit s \<Longrightarrow> map fc_key (sb_free s') = map fc_key (sb_free s) \<Longrightarrow> classes_fit s'"
  unfolding classes_fit_def by (metis (no_types, lifting) image_iff list.set_map)

lemma retired_slots:
  assumes inv: "slab_inv s live" and st: "releasing s (length (sb_chunks s)) st" and p: "p \<in> set (free_slots s)"
  shows "(case search_starts (chunk_starts_sorted s) p of None \<Rightarrow> False | Some i \<Rightarrow> rl_release st ! i)
    \<longleftrightarrow> (\<exists>i \<in> picked (rl_release st). p \<in> set (chunk_slots (sb_chunks s ! i)))"
proof -
  have ok: "slab_ok s" "p \<in> old_slots s"
    using inv p by (auto simp: slab_inv_def)
  have "in_chunk (sb_chunks s ! i) p \<longleftrightarrow> p \<in> set (chunk_slots (sb_chunks s ! i))" if "i < length (sb_chunks s)" for i
    using that old_slot_in_chunk(1)[OF ok] chunk_slots_iff ok by (auto simp: slab_ok_def)
  then have found: "search_starts (chunk_starts_sorted s) p = Some i \<longleftrightarrow> i < length (sb_chunks s) \<and> p \<in> set (chunk_slots (sb_chunks s ! i))" for i
    using search_starts_iff[OF ok(1), of p] by blast
  have "picked (rl_release st) = {i. i < length (sb_chunks s) \<and> rl_release st ! i}"
    using st by (simp add: picked_def releasing_def)
  then show ?thesis
  proof (cases "search_starts (chunk_starts_sorted s) p")
    case (Some j)
    then have "j < length (sb_chunks s)" "p \<in> set (chunk_slots (sb_chunks s ! j))"
      using found by blast+
    moreover have "i = j" if "i < length (sb_chunks s)" "p \<in> set (chunk_slots (sb_chunks s ! i))" for i
      using found[of i] that Some by simp
    ultimately show ?thesis
      unfolding \<open>picked _ = _\<close> Some mem_Collect_eq Bex_def option.case by blast
  next
    case None
    then have "\<not> (i < length (sb_chunks s) \<and> p \<in> set (chunk_slots (sb_chunks s ! i)))" for i
      using found[of i] by simp
    then show ?thesis
      unfolding \<open>picked _ = _\<close> None by auto
  qed
qed

text \<open>The scan itself, once the low-water marks are reset.\<close>

lemma release_scan:
  assumes inv: "slab_inv s live" and st: "releasing s (length (sb_chunks s)) st"
  defines "gone \<equiv> \<lambda>p. case search_starts (chunk_starts_sorted s) p of None \<Rightarrow> False | Some i \<Rightarrow> rl_release st ! i"
  defines "s' \<equiv> if rl_bytes st = 0 then rl_slab st else (rl_slab st)\<lparr>sb_free := drop_slots gone (sb_free (rl_slab st))\<rparr>"
  shows "gave_back s live (picked (rl_release st)) s'" and "released_bytes s' = released_bytes s + rl_bytes st"
proof -
  let ?R = "picked (rl_release st)" and ?s = "(rl_slab st)\<lparr>sb_free := drop_slots gone (sb_free (rl_slab st))\<rparr>"
  have r: "retired s ?R (rl_slab st)" and b: "rl_bytes st = card ?R * CHUNK" and fin: "finite ?R"
    and R: "\<And>i. i \<in> ?R \<Longrightarrow> i < length (sb_chunks s) \<and> \<not> is_released s i \<and> \<not> is_young_chunk s i
      \<and> set (chunk_slots (sb_chunks s ! i)) \<subseteq> set (free_slots s)"
    using st by (auto simp: releasing_def retired_def)
  have free_r: "sb_free (rl_slab st) = sb_free s"
    using r by (simp add: retired_def)
  have gone: "gone p \<longleftrightarrow> (\<exists>i \<in> ?R. p \<in> set (chunk_slots (sb_chunks s ! i)))" if "p \<in> set (free_slots s)" for p
    using retired_slots[OF inv st that] by (simp add: gone_def)
  have inv': "slab_inv ?s live"
    unfolding free_r
  proof (rule retired_inv[OF inv r _ gone])
    show "\<exists>fc' \<in> set (sb_free s). fc_key fc' = fc_key fc \<and> q \<in> set (fc_slots fc')"
      if "fc \<in> set (drop_slots gone (sb_free s))" "q \<in> set (fc_slots fc)" for fc q
      using drop_slots_props(3)[OF that] .
  qed (use R in \<open>simp_all add: drop_slots_props(1) free_slots_def\<close>)
  have slots: "set (free_slots ?s) = set (free_slots s) - (\<Union>i \<in> ?R. set (chunk_slots (sb_chunks s ! i)))"
    using gone by (auto simp: free_slots_def drop_slots_props(1) free_r)
  have rel: "is_released ?s i \<longleftrightarrow> is_released s i \<or> i \<in> ?R" for i
    using r by (simp add: retired_def is_released_def)
  have "set (chunk_slots (sb_chunks s ! i)) \<inter> live = {}" if "i \<in> ?R" for i
    using R[OF that] inv by (auto simp: slab_inv_def)
  then have g: "gave_back s live ?R ?s"
    unfolding gave_back_def using inv' R r rel slots by (simp add: retired_def drop_slots_props(2))
  have zero: "gave_back s live ?R (rl_slab st)" if "rl_bytes st = 0"
  proof -
    have R0: "?R = {}"
      using that b fin by (simp add: CHUNK_def)
    moreover have "slab_inv (rl_slab st) live"
    proof -
      have "slab_inv ((rl_slab st)\<lparr>sb_free := sb_free s\<rparr>) live"
        by (rule retired_inv[OF inv r, of "\<lambda>_. False"]) (use R0 in \<open>auto simp: free_slots_def\<close>)
      moreover have "(rl_slab st)\<lparr>sb_free := sb_free s\<rparr> = rl_slab st"
        using free_r by simp
      ultimately show ?thesis
        by simp
    qed
    ultimately show ?thesis
      using r by (simp add: gave_back_def retired_def free_slots_def)
  qed
  show "gave_back s live ?R s'"
    using g zero by (simp add: s'_def)
  show "released_bytes s' = released_bytes s + rl_bytes st"
    using r b by (simp add: s'_def retired_def released_bytes_def)
qed

lemma release_idle_chunks_inv:
  assumes inv: "slab_inv s live" and fit: "classes_fit s"
  shows "\<exists>b s' R. release_idle_chunks s = Some (b, s') \<and> gave_back s live R s' \<and> classes_fit s'
    \<and> released_bytes s' = released_bytes s + b \<and> b = card R * CHUNK \<and> (sb_cycles_since_scan s + 1 < RELEASE_WINDOW \<longrightarrow> R = {})"
proof (cases "sb_cycles_since_scan s + 1 < RELEASE_WINDOW")
  case True
  let ?s = "s\<lparr>sb_cycles_since_scan := sb_cycles_since_scan s + 1\<rparr>"
  have "gave_back s live {} ?s" "classes_fit ?s" "released_bytes ?s = released_bytes s"
    using slab_inv_low_water(2)[OF inv refl refl] fit
    by (auto intro!: gave_back_none simp: is_released_def free_slots_def fun_eq_iff classes_fit_def released_bytes_def)
  then show ?thesis
    using True by (intro exI[of _ 0] exI[of _ ?s] exI[of _ "{}"]) (simp add: release_idle_chunks_def)
next
  case scan: False
  define free where "free = map (\<lambda>c. c\<lparr>fc_low_water := length (fc_slots c)\<rparr>) (sb_free s)"
  define s1 where "s1 = s\<lparr>sb_free := free, sb_cycles_since_scan := 0\<rparr>"
  have s1_alt: "s\<lparr>sb_cycles_since_scan := 0, sb_free := map (\<lambda>c. c\<lparr>fc_low_water := length (fc_slots c)\<rparr>) (sb_free s)\<rparr> = s1"
    by (simp add: s1_def free_def)
  have keep: "map fc_slots free = map fc_slots (sb_free s)" "map fc_key free = map fc_key (sb_free s)"
    by (simp_all add: free_def)
  have inv1: "slab_inv s1 live"
    unfolding s1_def by (rule slab_inv_low_water(1)[OF inv keep])
  have s1: "sb_table s1 = sb_table s" "is_released s1 = is_released s" "released_bytes s1 = released_bytes s"
    "free_slots s1 = free_slots s" "map fc_key (sb_free s1) = map fc_key (sb_free s)" "sb_young_mask s1 = sb_young_mask s"
    using keep by (simp_all add: s1_def is_released_def released_bytes_def free_slots_def fun_eq_iff)
  have same: "gave_back s1 live R s' \<Longrightarrow> gave_back s live R s' \<and> classes_fit s'" for R s'
    using s1 classes_fit_keys[OF fit, of s'] by (simp add: gave_back_def)
  obtain budget where budget: "idle_budget (sb_free s) = Some budget"
    using fit by (fastforce simp: idle_budget_def classes_fit_def not_less)
  define st where "st = foldl (release_step (count_free s1 budget (chunk_starts_sorted s1))) \<lparr>rl_slab = s1, rl_budget = budget,
    rl_release = replicate (length (sb_chunks s1)) False, rl_bytes = 0\<rparr> [0..<length (sb_chunks s1)]"
  have st: "releasing s1 (length (sb_chunks s1)) st"
    unfolding st_def by (rule release_loop[OF inv1]) simp
  show ?thesis
  proof (cases "budget = []")
    case True
    then have "release_idle_chunks s = Some (0, s1)"
      using scan budget unfolding release_idle_chunks_def Let_def s1_alt by simp
    then show ?thesis
      using same[OF gave_back_none[OF inv1 refl refl refl refl refl]] s1(3) by (intro exI[of _ 0] exI[of _ s1] exI[of _ "{}"]) simp
  next
    case False
    define s' where "s' = (if rl_bytes st = 0 then rl_slab st else (rl_slab st)\<lparr>sb_free := drop_slots
      (\<lambda>p. case search_starts (chunk_starts_sorted s1) p of None \<Rightarrow> False | Some i \<Rightarrow> rl_release st ! i) (sb_free (rl_slab st))\<rparr>)"
    have "release_idle_chunks s = Some (rl_bytes st, s')"
      using scan budget False unfolding release_idle_chunks_def Let_def s1_alt s'_def st_def by simp
    moreover have "rl_bytes st = card (picked (rl_release st)) * CHUNK"
      using st by (simp add: releasing_def)
    ultimately show ?thesis
      using same release_scan[OF inv1 st, folded s'_def] s1(3) scan by (intro exI) auto
  qed
qed

section \<open>Evacuated chunks\<close>

text \<open>Chunks an evacuation may give back: old ones, none of whose slots is in use.\<close>

definition chunks_emptied :: "slab \<Rightarrow> bool list \<Rightarrow> bool" where
  "chunks_emptied s emptied \<longleftrightarrow> (\<forall>i < length (sb_chunks s). i < length emptied \<and> emptied ! i \<longrightarrow> is_released s i
     \<or> \<not> is_young_chunk s i \<and> set (chunk_slots (sb_chunks s ! i)) \<subseteq> set (free_slots s))"

definition newly_emptied :: "slab \<Rightarrow> bool list \<Rightarrow> nat set" where
  "newly_emptied s emptied = {i. i < length (sb_chunks s) \<and> i < length emptied \<and> emptied ! i \<and> \<not> is_released s i}"

lemma release_chunks_loop:
  assumes inv: "slab_inv s live" and e: "chunks_emptied s emptied"
    and l: "distinct l" "set l \<subseteq> {i. i < length emptied \<and> emptied ! i}"
  shows "\<exists>s'. foldl (\<lambda>(bytes, s) i. case get (sb_chunks s) i of
                None \<Rightarrow> (bytes, s)
              | Some c \<Rightarrow> if is_released s i then (bytes, s) else (bytes + CHUNK, mark_released s i (chunk_class c))) (0, s) l
            = (card (set l \<inter> newly_emptied s emptied) * CHUNK, s') \<and> retired s (set l \<inter> newly_emptied s emptied) s'"
  using l
proof (induction l rule: rev_induct)
  case Nil
  then show ?case
    using retired_refl[OF inv] by simp
next
  case (snoc i l)
  let ?R = "set l \<inter> newly_emptied s emptied"
  obtain s' where s': "foldl (\<lambda>(bytes, s) i. case get (sb_chunks s) i of
                None \<Rightarrow> (bytes, s)
              | Some c \<Rightarrow> if is_released s i then (bytes, s) else (bytes + CHUNK, mark_released s i (chunk_class c))) (0, s) l
            = (card ?R * CHUNK, s')" "retired s ?R s'"
    using snoc by auto
  have i: "i \<notin> ?R" and same: "sb_chunks s' = sb_chunks s" "is_released s' i = is_released s i"
    using snoc.prems s'(2) by (auto simp: retired_def)
  show ?case
  proof (cases "i \<in> newly_emptied s emptied")
    case True
    then have "retired s (insert i ?R) (mark_released s' i (chunk_class (sb_chunks s ! i)))"
      using s'(2) i e by (intro mark_released_retired) (auto simp: newly_emptied_def chunks_emptied_def)
    then show ?thesis
      using s'(1) True i same by (simp add: Int_insert_left get_def newly_emptied_def)
  next
    case False
    then have "i < length (sb_chunks s) \<longrightarrow> is_released s i"
      using snoc.prems by (auto simp: newly_emptied_def)
    then show ?thesis
      using s' False same by (auto simp: get_def Int_insert_left)
  qed
qed

lemma retain_slots_props:
  "concat (map fc_slots (retain_slots gone free)) = filter (\<lambda>p. \<not> gone p) (concat (map fc_slots free))"
  "map fc_key (retain_slots gone free) = map fc_key free"
  "fc \<in> set (retain_slots gone free) \<Longrightarrow> q \<in> set (fc_slots fc) \<Longrightarrow> \<exists>fc' \<in> set free. fc_key fc' = fc_key fc \<and> q \<in> set (fc_slots fc')"
  by (induction free) (auto simp: retain_slots_def Let_def)

lemma free_slot_emptied:
  assumes inv: "slab_inv s live" and p: "p \<in> set (free_slots s)"
  shows "in_chunks (chunk_starts s emptied) p \<longleftrightarrow> (\<exists>i \<in> newly_emptied s emptied. p \<in> set (chunk_slots (sb_chunks s ! i)))"
proof -
  have ok: "slab_ok s" "p \<in> old_slots s"
    using inv p by (auto simp: slab_inv_def)
  have "in_chunk (sb_chunks s ! i) p \<longleftrightarrow> p \<in> set (chunk_slots (sb_chunks s ! i)) \<and> \<not> is_released s i" if "i < length (sb_chunks s)" for i
    using that old_slot_in_chunk(1,2)[OF ok] chunk_slots_iff ok by (auto simp: slab_ok_def)
  then show ?thesis
    using in_chunks_iff[OF ok(1), of emptied p] by (auto simp: newly_emptied_def)
qed

lemma release_chunks_inv:
  assumes inv: "slab_inv s live" and e: "chunks_emptied s emptied" and r: "release_chunks s emptied = (b, s')"
  shows "gave_back s live (newly_emptied s emptied) s'" and "b = card (newly_emptied s emptied) * CHUNK"
    and "released_bytes s' = released_bytes s + b"
proof -
  let ?l = "filter (\<lambda>i. emptied ! i) [0..<length emptied]" and ?R = "newly_emptied s emptied" and ?gone = "in_chunks (chunk_starts s emptied)"
  have l: "set ?l \<inter> ?R = ?R"
    by (auto simp: newly_emptied_def)
  obtain s1 where s1: "foldl (\<lambda>(bytes, s) i. case get (sb_chunks s) i of
                None \<Rightarrow> (bytes, s)
              | Some c \<Rightarrow> if is_released s i then (bytes, s) else (bytes + CHUNK, mark_released s i (chunk_class c))) (0, s) ?l
            = (card ?R * CHUNK, s1)" "retired s ?R s1"
    using release_chunks_loop[OF inv e, of ?l] unfolding l by auto
  define free where "free = retain_slots ?gone (sb_free s)"
  have R: "i < length (sb_chunks s) \<and> \<not> is_released s i \<and> \<not> is_young_chunk s i \<and> set (chunk_slots (sb_chunks s ! i)) \<subseteq> set (free_slots s)"
    if "i \<in> ?R" for i
    using that e by (auto simp: newly_emptied_def chunks_emptied_def)
  have live: "set (chunk_slots (sb_chunks s ! i)) \<inter> live = {}" if "i \<in> ?R" for i
    using R[OF that] inv by (auto simp: slab_inv_def)
  have "b = card ?R * CHUNK \<and> released_bytes s' = released_bytes s + b \<and> gave_back s live ?R s'"
  proof (cases "list_ex id emptied")
    case True
    have s': "s' = s1\<lparr>sb_free := free\<rparr>" "b = card ?R * CHUNK"
      using r True s1 by (simp_all add: release_chunks_def free_def retired_def Let_def)
    have "slab_inv s' live"
      unfolding s'
    proof (rule retired_inv[OF inv s1(2) _ free_slot_emptied[OF inv]])
      show "concat (map fc_slots free) = filter (\<lambda>p. \<not> ?gone p) (free_slots s)"
        unfolding free_def by (simp add: retain_slots_props(1) free_slots_def)
      show "\<exists>fc' \<in> set (sb_free s). fc_key fc' = fc_key fc \<and> q \<in> set (fc_slots fc')" if "fc \<in> set free" "q \<in> set (fc_slots fc)" for fc q
        using retain_slots_props(3)[OF that[unfolded free_def]] .
    qed (use R in auto)
    moreover have "set (free_slots s') = set (free_slots s) - (\<Union>i \<in> ?R. set (chunk_slots (sb_chunks s ! i)))"
      using free_slot_emptied[OF inv] unfolding s' free_def by (auto simp: free_slots_def retain_slots_props(1))
    moreover have "map fc_key (sb_free s') = map fc_key (sb_free s)"
      by (simp add: s' free_def retain_slots_props(2))
    moreover have "is_released s' i \<longleftrightarrow> is_released s i \<or> i \<in> ?R" for i
      using s1(2) by (simp add: s' retired_def is_released_def)
    ultimately show ?thesis
      using s1(2) R live unfolding gave_back_def by (simp add: s' retired_def released_bytes_def)
  next
    case False
    have "\<not> emptied ! i" if "i < length emptied" for i
      using False nth_mem[OF that] unfolding list_ex_iff id_apply by blast
    then have R0: "?R = {}"
      unfolding newly_emptied_def by blast
    have "s' = s" "b = 0"
      using r False by (simp_all add: release_chunks_def)
    then show ?thesis
      unfolding R0 using gave_back_none[OF inv, of s] by simp
  qed
  then show "gave_back s live ?R s'" "b = card ?R * CHUNK" "released_bytes s' = released_bytes s + b"
    by auto
qed

lemma mset_partition: "mset (filter P xs) + mset (filter (\<lambda>p. \<not> P p) xs) = mset xs"
  by (induction xs) auto

lemma mset_concat_filter:
  "mset (concat (map fc_slots cs)) = mset (concat (map (\<lambda>c. filter P (fc_slots c)) cs)) + mset (filter (\<lambda>p. \<not> P p) (concat (map fc_slots cs)))"
proof -
  have "concat (map (\<lambda>c. filter P (fc_slots c)) cs) = filter P (concat (map fc_slots cs))"
    by (simp add: filter_concat comp_def)
  then show ?thesis
    by (simp only: mset_partition)
qed

lemma take_free_in_inv:
  assumes inv: "slab_inv s live" and t: "take_free_in s chunks = (parked, s')"
  shows "slab_inv s' (live \<union> set parked)" and "mset (free_slots s) = mset parked + mset (free_slots s')"
    and "\<forall>p \<in> set (free_slots s'). \<not> in_chunks (chunk_starts s chunks) p" and "\<forall>p \<in> set parked. in_chunks (chunk_starts s chunks) p"
proof -
  let ?gone = "in_chunks (chunk_starts s chunks)"
  define free where "free = retain_slots ?gone (sb_free s)"
  have none: "\<not> ?gone p" if "chunk_starts s chunks = []" for p
    using that by (simp add: in_chunks_def partition_point_def)
  have s': "(s' = s \<or> s' = s\<lparr>sb_free := free\<rparr>) \<and> free_slots s' = filter (\<lambda>p. \<not> ?gone p) (free_slots s)
      \<and> parked = concat (map (\<lambda>c. filter ?gone (fc_slots c)) (sb_free s))"
  proof (cases "chunk_starts s chunks = []")
    case True
    then show ?thesis
      using t none[OF True] by (auto simp: take_free_in_def)
  next
    case False
    then show ?thesis
      using t retain_slots_props(1)[of ?gone "sb_free s"] by (auto simp: take_free_in_def free_def free_slots_def Let_def)
  qed
  then show m: "mset (free_slots s) = mset parked + mset (free_slots s')"
    using mset_concat_filter[of "sb_free s" ?gone] by (simp add: free_slots_def)
  show "\<forall>p \<in> set (free_slots s'). \<not> ?gone p" "\<forall>p \<in> set parked. ?gone p"
    using s' by auto
  have d: "distinct (parked @ free_slots s')" "set (free_slots s) = set parked \<union> set (free_slots s')"
  proof -
    have m': "mset (free_slots s) = mset (parked @ free_slots s')"
      using m by simp
    then show "distinct (parked @ free_slots s')" "set (free_slots s) = set parked \<union> set (free_slots s')"
      using inv mset_eq_imp_distinct_iff[OF m'] mset_eq_setD[OF m'] by (simp_all add: slab_inv_def)
  qed
  have classes: "\<exists>fc' \<in> set (sb_free s). fc_key fc' = fc_key fc \<and> q \<in> set (fc_slots fc')" if "fc \<in> set (sb_free s')" "q \<in> set (fc_slots fc)" for fc q
    using s' that retain_slots_props(3)[of fc ?gone "sb_free s" q] by (auto simp: free_def)
  have "slot_has_class s (fc_key fc) q" if "fc \<in> set (sb_free s')" "q \<in> set (fc_slots fc)" for fc q
    using classes[OF that] inv unfolding slab_inv_def by metis
  moreover have "sb_table s' = sb_table s" "sb_released s' = sb_released s" "sb_released_mask s' = sb_released_mask s" "sb_young_mask s' = sb_young_mask s"
    using s' by auto
  ultimately show "slab_inv s' (live \<union> set parked)"
    using inv d by (auto simp: slab_inv_def slab_ok_def old_slots_def is_released_def is_young_chunk_def slot_has_class_def)
qed

section \<open>Size classes\<close>

lemma append_class_keys: "fc \<in> set (append_class key slots free) \<Longrightarrow> fc_key fc = key \<or> fc_key fc \<in> fc_key ` set free"
  by (induction key slots free rule: append_class.induct) (auto split: if_splits)

lemma free_in_class_keys: "fc \<in> set (free_in_class key p free) \<Longrightarrow> fc_key fc = key \<or> fc_key fc \<in> fc_key ` set free"
  by (induction key p free rule: free_in_class.induct) (auto split: if_splits)

lemma classes_fit_add:
  assumes "classes_fit s" and "fst key \<noteq> 0" and "unat (fst key) \<le> CHUNK"
    and "\<And>fc. fc \<in> set (sb_free s') \<Longrightarrow> fc_key fc = key \<or> fc_key fc \<in> fc_key ` set (sb_free s)"
  shows "classes_fit s'"
  using assms unfolding classes_fit_def by (metis imageE)

lemma carve_slots_free:
  assumes "carve_slots s ptr z al new_chunk = Some (p, s')"
  shows "\<exists>l. sb_free s' = append_class (z, al) l (sb_free s)"
  using assms by (auto simp: carve_slots_def Let_def split: if_splits)

lemma slab_alloc_fit:
  assumes "classes_fit s" and "chunk_fits s base z al" and "slab_alloc s base z al = Some (p, s')"
  shows "classes_fit s'"
proof (rule classes_fit_add[OF assms(1), of "(z, al)"])
  show "fst (z, al) \<noteq> 0" "unat (fst (z, al)) \<le> CHUNK"
    using assms(2) by (auto simp: chunk_fits_def Let_def)
  have "(\<exists>l. sb_free s' = append_class (z, al) l (sb_free s)) \<or> pop_class (z, al) (sb_free s) = Some (p, sb_free s')"
    using assms(3) carve_slots_free
    by (fastforce simp: slab_alloc_def carve_page_def set_released_simps Let_def split: option.splits prod.splits)
  then show "fc_key fc = (z, al) \<or> fc_key fc \<in> fc_key ` set (sb_free s)" if "fc \<in> set (sb_free s')" for fc
    using that append_class_keys[of fc "(z, al)" _ "sb_free s"] pop_class_Some(3)[of "(z, al)" "sb_free s" p "sb_free s'"]
    by (auto simp: image_iff)
qed

lemma chunk_class_fits: "chunk_ok c \<Longrightarrow> fst (chunk_class c) \<noteq> 0 \<and> unat (fst (chunk_class c)) \<le> CHUNK"
  by (auto simp: chunk_ok_def chunk_class_def)

lemma slab_free_fit:
  assumes "classes_fit s" and "slab_ok s"
  shows "classes_fit (slab_free s recent p)"
proof (cases "fst (chunk_for s recent p)")
  case (Some c)
  then have "chunk_ok c"
    using chunk_for_answer[OF assms(2)] assms(2) by (auto simp: slab_ok_def)
  from chunk_class_fits[OF this] show ?thesis
    using Some free_in_class_keys by (intro classes_fit_add[OF assms(1), of "chunk_class c"]) (auto simp: slab_free_def)
qed (use assms in \<open>simp add: slab_free_def\<close>)

lemma free_at_cursor_fit:
  assumes "classes_fit s" and "fst (cu_class cur) \<noteq> 0" and "unat (fst (cu_class cur)) \<le> CHUNK"
  shows "classes_fit (fst (free_at_cursor s cur p))"
proof (rule classes_fit_add[OF assms])
  fix fc assume fc: "fc \<in> set (sb_free (fst (free_at_cursor s cur p)))"
  show "fc_key fc = cu_class cur \<or> fc_key fc \<in> fc_key ` set (sb_free s)"
  proof (cases "cu_free_class cur = 0")
    case True
    then show ?thesis
      using fc free_in_class_keys[of fc "cu_class cur" p "sb_free s"] by (auto simp: free_at_cursor_def Let_def)
  next
    case update: False
    show ?thesis
    proof (cases "cu_free_class cur - 1 < length (sb_free s)")
      case True
      then show ?thesis
        using fc update set_update_subset_insert[of "sb_free s" "cu_free_class cur - 1"] nth_mem[OF True]
        by (fastforce simp: free_at_cursor_def Let_def)
    next
      case False
      then show ?thesis
        using fc update by (simp add: free_at_cursor_def Let_def list_update_beyond)
    qed
  qed
qed

section \<open>What an allocation keeps\<close>

lemma append_class_map: "\<exists>ks. map fc_key (append_class key slots free) = map fc_key free @ ks"
  by (induction key slots free rule: append_class.induct) auto

lemma pop_class_map: "pop_class key free = Some (p, free') \<Longrightarrow> map fc_key free' = map fc_key free"
  by (induction key free arbitrary: free' rule: pop_class.induct) (auto split: if_splits)

lemma carve_slots_shape:
  assumes "carve_slots s ptr z al new_chunk = Some (p, s')"
  shows "sb_young_mask s' = sb_young_mask s" "\<exists>ks. map fc_key (sb_free s') = map fc_key (sb_free s) @ ks" "is_released s' = is_released s"
    "sb_chunks s' = sb_chunks s \<or> (\<exists>c. sb_chunks s' = sb_chunks s @ [c] \<and> ck_ptr c = ptr \<and> new_chunk)"
  using assms append_class_map[of "(z, al)" _ "sb_free s"]
  by (auto simp: carve_slots_def Let_def table_push_def is_released_def fun_eq_iff split: if_splits)

lemma slab_alloc_shape:
  assumes "slab_alloc s base z al = Some (p, s')"
  shows "sb_young_mask s' = sb_young_mask s" "\<exists>ks. map fc_key (sb_free s') = map fc_key (sb_free s) @ ks"
    "\<And>i. is_released s' i \<Longrightarrow> is_released s i"
    "sb_chunks s' = sb_chunks s \<or> (\<exists>c. sb_chunks s' = sb_chunks s @ [c] \<and> ck_ptr c = base)"
proof -
  have "sb_young_mask s' = sb_young_mask s \<and> (\<exists>ks. map fc_key (sb_free s') = map fc_key (sb_free s) @ ks)
    \<and> (\<forall>i. is_released s' i \<longrightarrow> is_released s i) \<and> (sb_chunks s' = sb_chunks s \<or> (\<exists>c. sb_chunks s' = sb_chunks s @ [c] \<and> ck_ptr c = base))"
  proof (cases "pop_class (z, al) (sb_free s)")
    case (Some x)
    then show ?thesis
      using assms pop_class_map[of "(z, al)" "sb_free s"] by (cases x) (auto simp: slab_alloc_def is_released_def)
  next
    case None
    then have carve: "carve_page s base z al = Some (p, s')"
      using assms by (simp add: slab_alloc_def)
    show ?thesis
    proof (cases "pop_released (z, al) (sb_released s)")
      case None
      then show ?thesis
        using carve carve_slots_shape[of s base z al True p s'] by (auto simp: carve_page_def)
    next
      case (Some x)
      then obtain i rel where x: "pop_released (z, al) (sb_released s) = Some (i, rel)"
        by (cases x) auto
      let ?s1 = "s\<lparr>sb_released := rel\<rparr>"
      have s1: "is_released ?s1 = is_released s" "sb_chunks ?s1 = sb_chunks s"
        by (simp_all add: is_released_def fun_eq_iff)
      show ?thesis
      proof (cases "get (sb_chunks s) i")
        case None
        then show ?thesis
          using carve x carve_slots_shape[of ?s1 base z al True p s'] s1 by (auto simp: carve_page_def Let_def simp del: get_None_iff)
      next
        case (Some c)
        then have "carve_slots (set_released ?s1 i False) (ck_ptr c) z al False = Some (p, s')"
          using carve x by (auto simp: carve_page_def Let_def simp del: get_Some_iff)
        from carve_slots_shape[OF this] show ?thesis
          using set_released_simps[of ?s1 i False] s1 by (auto split: if_splits)
      qed
    qed
  qed
  then show "sb_young_mask s' = sb_young_mask s" "\<exists>ks. map fc_key (sb_free s') = map fc_key (sb_free s) @ ks"
    "\<And>i. is_released s' i \<Longrightarrow> is_released s i"
    "sb_chunks s' = sb_chunks s \<or> (\<exists>c. sb_chunks s' = sb_chunks s @ [c] \<and> ck_ptr c = base)"
    by blast+
qed

section \<open>The property\<close>


text \<open>A slab with one chunk, every slot of it free: its page goes back.\<close>

definition empty_slab :: slab where
  "empty_slab = slab_free sample_slab (\<lambda>_. None) 0x100000"

lemma empty_slab_inv: "slab_inv empty_slab {}"
proof -
  have "slab_inv sample_slab {0x100000}"
    using slab_alloc_inv[OF slab_new_inv sample_fits] sample_slab_alloc(1) by simp
  from slab_free_inv[OF this, of "0x100000" "\<lambda>_. None"] show ?thesis
    by (simp add: empty_slab_def)
qed

lemma empty_slab_facts: "sb_chunks empty_slab = sb_chunks sample_slab" "is_released empty_slab 0 = False" "is_young_chunk empty_slab 0 = False"
  "set (free_slots empty_slab) = set (chunk_slots (sb_chunks sample_slab ! 0))" "released_bytes empty_slab = 0"
proof -
  have same: "sb_table empty_slab = sb_table sample_slab" "sb_released_mask empty_slab = []" "sb_young_mask empty_slab = []" "sb_released empty_slab = []"
    by (simp_all add: empty_slab_def slab_free_def sample_slab_def slab_alloc_def carve_page_def carve_slots_def slab_new_def
        table_new_def CHUNK_def sample_align carve_from_eq Let_def upt_4 split: option.split)
  then show flags: "sb_chunks empty_slab = sb_chunks sample_slab" "is_released empty_slab 0 = False" "is_young_chunk empty_slab 0 = False" "released_bytes empty_slab = 0"
    by (simp_all add: is_released_def is_young_chunk_def get_def released_bytes_def)
  have "set (free_slots empty_slab) = old_slots empty_slab"
    using empty_slab_inv by (simp add: slab_inv_def)
  also have "\<dots> = set (chunk_slots (sb_chunks sample_slab ! 0))"
  proof -
    have "{i. i < length (sb_chunks empty_slab) \<and> \<not> is_released empty_slab i \<and> \<not> is_young_chunk empty_slab i} = {0}"
      using flags(1,2,3) by (auto simp: sample_slab_alloc(2))
    then show ?thesis
      using flags(1) by (simp add: old_slots_def)
  qed
  finally show "set (free_slots empty_slab) = set (chunk_slots (sb_chunks sample_slab ! 0))" .
qed

lemma empty_slab_fit: "classes_fit empty_slab"
proof -
  have "classes_fit slab_new"
    by (simp add: classes_fit_def slab_new_def)
  from slab_alloc_fit[OF this sample_fits sample_slab_alloc(1)] show ?thesis
    unfolding empty_slab_def by (rule slab_free_fit[OF _ sample_slab_ok])
qed


end
