(* ===== verification/Gc_Mark.thy ===== *)
theory Gc_Mark
  imports Slab_Release Value_Eq
begin

text \<open>
  The mark phase of the collector, after \<^verbatim>\<open>machine/src/memory/heap.rs\<close>: the heap's state, its objects, what each
  kind of object keeps alive, and the loop over the gray list. Objects live in the slots of the slab; a slot with
  kind 0 has no cell. The gray list is a vector whose back is the end of the list; the code takes it out of the heap
  while it marks and puts it back, here it stays in place. A handle of the code is the address of its cell; marking
  through a handle whose cell is gone, which the code never does, is left without effect.
  The nursery is off, as it is in a new heap.

  The theorems say that marking ends and leaves exactly the objects reachable from the roots marked, and changes
  nothing else that a program can see.
\<close>

unbundle bit_operations_syntax

section \<open>Objects\<close>

datatype instance_storage = StTable "(nat \<times> member) list" | StInline "value list" | StSpill "value list"

datatype coro_state = CoSuspended | CoDone

record coroutine =
  co_state :: coro_state
  co_saved_stack :: "value list"
  co_saved_live_mask :: u64
  co_pending_send :: "value"
  co_yield_from :: "nat option"
  co_delegator :: "nat option"
  co_closeable :: bool

datatype gc_object =
    GString "u8 list"
  | GInstance u32 bool instance_storage
  | GEnum u32 u32 bool u8 "value list"
  | GLibrary
  | GTuple u8 "value list"
  | GArray array_data bool u8
  | GCoroutine coroutine
  | GBoxed member
  | GRoot "member option"
  | GWeak "value" bool
  | GFn "value list" "value list" "member option list option"
  | GStream
  | GThread
  | GSender
  | GReceiver
  | GMutex
  | GRwLock

text \<open>A cell: the header's mark and fresh bits, the bytes \<open>size\<close> reports, and the object.\<close>

record gc_cell =
  cell_marked :: bool
  cell_fresh :: bool
  cell_size :: nat
  cell_obj :: gc_object

datatype gc_phase = Idle | Marking | Sweeping

record gc_heap =
  hp_alloc_bytes :: nat
  hp_next_threshold :: nat
  hp_byte_cap :: nat
  hp_growth_factor :: nat
  hp_sweep_start_bytes :: nat
  hp_sweep_freed :: nat
  hp_strings :: "nat list"
  hp_slab :: slab
  hp_recent :: recent_cache
  hp_live_count :: nat
  hp_class_kinds :: "u8 list list"
  hp_weaks :: "nat list"
  hp_finalizer_types :: "u64 list"
  hp_finalizable :: "nat list"
  hp_immortal_enums :: "(u32 \<times> nat) list"
  hp_empty_tuple :: "nat option"
  hp_immortal_fns :: "((u32 \<times> u32 \<times> bool) \<times> nat) list"
  hp_gray :: "nat list"
  hp_freed_early :: bool
  hp_phase :: gc_phase
  hp_cursor :: "slot_cursor option"
  hp_epoch_stw :: bool
  hp_cells :: "nat \<rightharpoonup> gc_cell"

definition heap_find :: "gc_heap \<Rightarrow> nat \<Rightarrow> gc_object option" where
  "heap_find h addr = (if addr = 0 \<or> \<not> contains_slot (hp_slab h) (hp_recent h) addr then None else map_option cell_obj (hp_cells h addr))"

definition heap_may_be_ref :: "gc_heap \<Rightarrow> value \<Rightarrow> bool" where
  "heap_may_be_ref h v = (let addr = unat (heap_addr v) in addr \<noteq> 0 \<and> table_may_contain (sb_table (hp_slab h)) addr)"

section \<open>Word kinds\<close>

definition WORD_UNKNOWN :: u8 where
  "WORD_UNKNOWN = 0"

definition WORD_SCALAR :: u8 where
  "WORD_SCALAR = 1"

definition WORD_POINTER :: u8 where
  "WORD_POINTER = 2"

definition PACKED_KIND_WORDS :: nat where
  "PACKED_KIND_WORDS = 4"

definition packed_word_kind :: "u8 \<Rightarrow> nat \<Rightarrow> u8" where
  "packed_word_kind kinds i = (if i < PACKED_KIND_WORDS then drop_bit (2 * i) kinds AND 3 else WORD_UNKNOWN)"

definition type_kinds_index :: "u32 \<Rightarrow> nat" where
  "type_kinds_index type_id =
     (if 0x8000 \<le> type_id \<and> type_id < 0xFF00 then unat (type_id - 0x8000) * 2 + 1 else unat type_id * 2)"

definition class_field_kinds :: "gc_heap \<Rightarrow> u32 \<Rightarrow> u8 list" where
  "class_field_kinds h type_id = (case get (hp_class_kinds h) (type_kinds_index type_id) of None \<Rightarrow> [] | Some row \<Rightarrow> row)"

section \<open>Marking\<close>

text \<open>\<open>GcData::mark\<close> on the cell at an address, and whether it was unmarked before.\<close>

definition cell_mark :: "gc_heap \<Rightarrow> nat \<Rightarrow> bool \<times> gc_heap" where
  "cell_mark h a = (case hp_cells h a of
     None \<Rightarrow> (False, h)
   | Some c \<Rightarrow> if cell_marked c then (False, h) else (True, h\<lparr>hp_cells := (hp_cells h)(a \<mapsto> c\<lparr>cell_marked := True\<rparr>)\<rparr>))"

definition object_mark :: "gc_heap \<Rightarrow> nat \<Rightarrow> gc_heap" where
  "object_mark h a = (case cell_mark h a of (marked, h1) \<Rightarrow> if marked then h1\<lparr>hp_gray := hp_gray h1 @ [a]\<rparr> else h1)"

definition mark_value :: "gc_heap \<Rightarrow> value \<Rightarrow> gc_heap" where
  "mark_value h v =
     (let addr = unat (heap_addr v) in
      if addr = 0 then h
      else case heap_find h addr of None \<Rightarrow> h | Some _ \<Rightarrow> object_mark h addr)"

definition mark_member :: "gc_heap \<Rightarrow> member \<Rightarrow> gc_heap" where
  "mark_member h m = (case m of
     MemberObject a \<Rightarrow> if hp_freed_early h then mark_value h a else object_mark h (unat a)
   | MemberValue v \<Rightarrow> mark_value h v)"

definition mark_kinded_words :: "gc_heap \<Rightarrow> value list \<Rightarrow> u8 \<Rightarrow> gc_heap" where
  "mark_kinded_words h words kinds =
     foldl (\<lambda>h (i, v). if packed_word_kind kinds i \<noteq> WORD_SCALAR then mark_value h v else h) h (enumerate 0 words)"

definition storage_slots :: "instance_storage \<Rightarrow> value list option" where
  "storage_slots st = (case st of StTable _ \<Rightarrow> None | StInline slots \<Rightarrow> Some slots | StSpill slots \<Rightarrow> Some slots)"

definition mark_members :: "gc_heap \<Rightarrow> u32 \<Rightarrow> instance_storage \<Rightarrow> gc_heap" where
  "mark_members h type_id st = (case st of
     StTable table \<Rightarrow> foldl (\<lambda>h (k, m). mark_member (snd (cell_mark h k)) m) h table
   | _ \<Rightarrow> (case storage_slots st of
       None \<Rightarrow> h
     | Some slots \<Rightarrow>
         (let kinds = class_field_kinds h type_id in
          foldl (\<lambda>h (i, v). if (case get kinds i of None \<Rightarrow> WORD_UNKNOWN | Some k \<Rightarrow> k) \<noteq> WORD_SCALAR then mark_value h v else h)
            h (enumerate 0 slots))))"

text \<open>An array scanned without finding a reference is not scanned again until it is written.\<close>

definition array_hit :: "gc_heap \<Rightarrow> u8 \<Rightarrow> value \<Rightarrow> bool" where
  "array_hit h elem_kind v =
     (let pointers = elem_kind = WORD_POINTER in pointers \<and> heap_addr v \<noteq> 0 \<or> \<not> pointers \<and> heap_may_be_ref h v)"

definition array_words :: "array_data \<Rightarrow> value list" where
  "array_words d = (case d of Words w \<Rightarrow> w | Bytes _ \<Rightarrow> [])"

definition clear_may_hold_refs :: "gc_heap \<Rightarrow> nat \<Rightarrow> gc_heap" where
  "clear_may_hold_refs h a = (case hp_cells h a of
     Some c \<Rightarrow> (case cell_obj c of
         GArray d _ k \<Rightarrow> h\<lparr>hp_cells := (hp_cells h)(a \<mapsto> c\<lparr>cell_obj := GArray d False k\<rparr>)\<rparr>
       | _ \<Rightarrow> h)
   | None \<Rightarrow> h)"

definition mark_array :: "gc_heap \<Rightarrow> nat \<Rightarrow> array_data \<Rightarrow> bool \<Rightarrow> u8 \<Rightarrow> gc_heap" where
  "mark_array h a d may_hold_refs elem_kind =
     (if may_hold_refs then
        (let (any, h1) = foldl (\<lambda>(any, h) v. if array_hit h elem_kind v then (True, mark_value h v) else (any, h)) (False, h) (array_words d) in
         if any then h1 else clear_may_hold_refs h1 a)
      else h)"

definition mark_coroutine :: "gc_heap \<Rightarrow> coroutine \<Rightarrow> gc_heap" where
  "mark_coroutine h co =
     (let msk = co_saved_live_mask co;
          h1 = foldl (\<lambda>h (i, v). if msk \<noteq> 0 \<and> i < 64 \<and> msk AND push_bit i 1 = 0 then h else mark_value h v) h (enumerate 0 (co_saved_stack co));
          h2 = mark_value h1 (co_pending_send co) in
      foldl object_mark h2 (List.map_filter (\<lambda>l. l) [co_yield_from co, co_delegator co]))"

definition mark_fn :: "gc_heap \<Rightarrow> value list \<Rightarrow> value list \<Rightarrow> member option list option \<Rightarrow> gc_heap" where
  "mark_fn h captures captured_args dicts =
     foldl mark_member (foldl mark_value h (captures @ captured_args))
       (List.map_filter (\<lambda>m. m) (case dicts of None \<Rightarrow> [] | Some ds \<Rightarrow> ds))"

definition mark_references :: "gc_heap \<Rightarrow> nat \<Rightarrow> gc_heap" where
  "mark_references h a = (case hp_cells h a of
     None \<Rightarrow> h
   | Some c \<Rightarrow> (case cell_obj c of
       GString _ \<Rightarrow> h
     | GInstance type_id _ st \<Rightarrow> mark_members h type_id st
     | GEnum _ _ _ kinds payload \<Rightarrow> mark_kinded_words h payload kinds
     | GLibrary \<Rightarrow> h
     | GTuple kinds elements \<Rightarrow> mark_kinded_words h elements kinds
     | GArray d may_hold_refs elem_kind \<Rightarrow> mark_array h a d may_hold_refs elem_kind
     | GCoroutine co \<Rightarrow> mark_coroutine h co
     | GBoxed payload \<Rightarrow> mark_member h payload
     | GRoot payload \<Rightarrow> (case payload of None \<Rightarrow> h | Some m \<Rightarrow> mark_member h m)
     | GWeak _ _ \<Rightarrow> h
     | GFn captures captured_args dicts \<Rightarrow> mark_fn h captures captured_args dicts
     | GStream \<Rightarrow> h
     | GThread \<Rightarrow> h
     | GSender \<Rightarrow> h
     | GReceiver \<Rightarrow> h
     | GMutex \<Rightarrow> h
     | GRwLock \<Rightarrow> h))"

section \<open>The gray list\<close>

function mark_loop :: "nat \<Rightarrow> nat \<Rightarrow> gc_heap \<Rightarrow> gc_heap" where
  "mark_loop i n h =
     (if i < n \<and> hp_gray h \<noteq> []
      then mark_loop (i + 1) n (mark_references (h\<lparr>hp_gray := butlast (hp_gray h)\<rparr>) (last (hp_gray h)))
      else h)"
  by pat_completeness auto
termination
  by (relation "measure (\<lambda>(i, n, h). n - i)") auto

declare mark_loop.simps [simp del]

definition mark_quantum :: "gc_heap \<Rightarrow> nat \<Rightarrow> bool \<times> gc_heap" where
  "mark_quantum h n = (let h1 = mark_loop 0 n h in (hp_gray h1 = [], h1))"

definition USIZE_MAX :: nat where
  "USIZE_MAX = 2 ^ 64 - 1"

text \<open>\<open>while !mark_quantum(usize::MAX) {}\<close>; \<open>None\<close> would be a loop that never ends.\<close>

partial_function (option) mark_drain :: "gc_heap \<Rightarrow> gc_heap option" where
  "mark_drain h = (case mark_quantum h USIZE_MAX of (finished, h1) \<Rightarrow> if finished then Some h1 else mark_drain h1)"

definition shade_object :: "gc_heap \<Rightarrow> nat \<Rightarrow> gc_heap" where
  "shade_object h a = object_mark h a"

definition shade_value :: "gc_heap \<Rightarrow> value \<Rightarrow> gc_heap" where
  "shade_value h v =
     (let addr = unat (heap_addr v) in
      if addr = 0 then h
      else case heap_find h addr of None \<Rightarrow> h | Some _ \<Rightarrow> shade_object h addr)"

definition shade_for_finalizer :: "gc_heap \<Rightarrow> nat \<Rightarrow> gc_heap" where
  "shade_for_finalizer h a = (if hp_phase h = Marking then shade_object h a else h)"

definition resurrect_during_mark :: "gc_heap \<Rightarrow> value \<Rightarrow> gc_heap option" where
  "resurrect_during_mark h v = (if hp_phase h = Marking then mark_drain (shade_value h v) else Some h)"

definition remark_roots :: "gc_heap \<Rightarrow> u64 list \<Rightarrow> gc_heap" where
  "remark_roots h root_addrs =
     foldl (\<lambda>h addr. let addr = unat (addr AND NOT 1) in
        if addr = 0 then h
        else case heap_find h addr of None \<Rightarrow> h | Some _ \<Rightarrow> object_mark h addr) h root_addrs"

definition begin_mark :: "gc_heap \<Rightarrow> u64 list \<Rightarrow> gc_heap" where
  "begin_mark h root_addrs =
     (if hp_phase h \<noteq> Idle then h
      else remark_roots (h\<lparr>hp_phase := Marking, hp_gray := []\<rparr>) root_addrs)"

definition mark_from_roots :: "gc_heap \<Rightarrow> u64 list \<Rightarrow> gc_heap option" where
  "mark_from_roots h root_addrs = mark_drain (remark_roots (h\<lparr>hp_gray := []\<rparr>) root_addrs)"

definition take_gc_roots :: "gc_heap \<Rightarrow> u64 list" where
  "take_gc_roots h = map of_nat (map snd (hp_immortal_enums h)
     @ (case hp_empty_tuple h of None \<Rightarrow> [] | Some a \<Rightarrow> [a]) @ map snd (hp_immortal_fns h))"

section \<open>What an object keeps alive\<close>

text \<open>
  The marks that \<open>mark_references\<close> sets, in order: \<open>True\<close> for a mark that also makes the object gray, \<open>False\<close> for
  the keys of a table, which are strings.
\<close>

definition value_marks :: "gc_heap \<Rightarrow> value \<Rightarrow> (bool \<times> nat) list" where
  "value_marks h v = (let a = unat (heap_addr v) in if a \<noteq> 0 \<and> heap_find h a \<noteq> None then [(True, a)] else [])"

definition member_marks :: "gc_heap \<Rightarrow> member \<Rightarrow> (bool \<times> nat) list" where
  "member_marks h m = (case m of
     MemberObject a \<Rightarrow> if hp_freed_early h then value_marks h a else [(True, unat a)]
   | MemberValue v \<Rightarrow> value_marks h v)"

definition kinded_marks :: "gc_heap \<Rightarrow> (nat \<Rightarrow> bool) \<Rightarrow> value list \<Rightarrow> (bool \<times> nat) list" where
  "kinded_marks h scanned words = concat (map (\<lambda>(i, v). if scanned i then value_marks h v else []) (enumerate 0 words))"

definition object_marks :: "gc_heap \<Rightarrow> gc_object \<Rightarrow> (bool \<times> nat) list" where
  "object_marks h obj = (case obj of
     GInstance type_id _ st \<Rightarrow> (case storage_slots st of
         None \<Rightarrow> (case st of StTable table \<Rightarrow> concat (map (\<lambda>(k, m). (False, k) # member_marks h m) table) | _ \<Rightarrow> [])
       | Some slots \<Rightarrow> kinded_marks h (\<lambda>i. (case get (class_field_kinds h type_id) i of None \<Rightarrow> WORD_UNKNOWN | Some k \<Rightarrow> k) \<noteq> WORD_SCALAR) slots)
   | GEnum _ _ _ kinds payload \<Rightarrow> kinded_marks h (\<lambda>i. packed_word_kind kinds i \<noteq> WORD_SCALAR) payload
   | GTuple kinds elements \<Rightarrow> kinded_marks h (\<lambda>i. packed_word_kind kinds i \<noteq> WORD_SCALAR) elements
   | GArray d may_hold_refs elem_kind \<Rightarrow>
       if may_hold_refs then concat (map (\<lambda>v. if array_hit h elem_kind v then value_marks h v else []) (array_words d)) else []
   | GCoroutine co \<Rightarrow>
       kinded_marks h (\<lambda>i. \<not> (co_saved_live_mask co \<noteq> 0 \<and> i < 64 \<and> co_saved_live_mask co AND push_bit i 1 = 0)) (co_saved_stack co)
         @ value_marks h (co_pending_send co) @ map (Pair True) (List.map_filter (\<lambda>l. l) [co_yield_from co, co_delegator co])
   | GBoxed payload \<Rightarrow> member_marks h payload
   | GRoot payload \<Rightarrow> (case payload of None \<Rightarrow> [] | Some m \<Rightarrow> member_marks h m)
   | GFn captures captured_args dicts \<Rightarrow> concat (map (value_marks h) (captures @ captured_args))
       @ concat (map (member_marks h) (List.map_filter (\<lambda>m. m) (case dicts of None \<Rightarrow> [] | Some ds \<Rightarrow> ds)))
   | _ \<Rightarrow> [])"

definition cell_refs :: "gc_heap \<Rightarrow> nat \<Rightarrow> (bool \<times> nat) list" where
  "cell_refs h a = (case hp_cells h a of None \<Rightarrow> [] | Some c \<Rightarrow> object_marks h (cell_obj c))"

definition marked :: "gc_heap \<Rightarrow> nat set" where
  "marked h = {a. \<exists>c. hp_cells h a = Some c \<and> cell_marked c}"

definition mark_one :: "gc_heap \<Rightarrow> bool \<times> nat \<Rightarrow> gc_heap" where
  "mark_one h ga = (if fst ga then object_mark h (snd ga) else snd (cell_mark h (snd ga)))"

abbreviation mark_all :: "gc_heap \<Rightarrow> (bool \<times> nat) list \<Rightarrow> gc_heap" where
  "mark_all \<equiv> foldl mark_one"

text \<open>The part of a heap that decides which addresses resolve.\<close>

definition mark_env :: "gc_heap \<Rightarrow> slab \<times> recent_cache \<times> nat set \<times> u8 list list \<times> bool" where
  "mark_env h = (hp_slab h, hp_recent h, dom (hp_cells h), hp_class_kinds h, hp_freed_early h)"

lemma mark_one_cells:
  "hp_cells (mark_one h ga) = (hp_cells h)(snd ga := map_option (\<lambda>c. c\<lparr>cell_marked := True\<rparr>) (hp_cells h (snd ga)))"
  "hp_gray (mark_one h ga) = hp_gray h @ (if fst ga \<and> snd ga \<in> dom (hp_cells h) - marked h then [snd ga] else [])"
  "mark_env (mark_one h ga) = mark_env h"
  "(mark_one h ga)\<lparr>hp_cells := m, hp_gray := g\<rparr> = h\<lparr>hp_cells := m, hp_gray := g\<rparr>"
proof -
  have cell: "c\<lparr>cell_marked := True\<rparr> = c" if "cell_marked c" for c :: gc_cell
    using that by (cases c) simp
  show "hp_cells (mark_one h ga) = (hp_cells h)(snd ga := map_option (\<lambda>c. c\<lparr>cell_marked := True\<rparr>) (hp_cells h (snd ga)))"
    "hp_gray (mark_one h ga) = hp_gray h @ (if fst ga \<and> snd ga \<in> dom (hp_cells h) - marked h then [snd ga] else [])"
    "(mark_one h ga)\<lparr>hp_cells := m, hp_gray := g\<rparr> = h\<lparr>hp_cells := m, hp_gray := g\<rparr>"
    by (auto simp: mark_one_def object_mark_def cell_mark_def marked_def cell fun_eq_iff split: option.splits)
  show "mark_env (mark_one h ga) = mark_env h"
    by (auto simp: mark_one_def object_mark_def cell_mark_def mark_env_def split: option.splits)
qed

lemma marks_of_env:
  assumes "mark_env h = mark_env h'"
  shows "heap_find h a = None \<longleftrightarrow> heap_find h' a = None" and "value_marks h v = value_marks h' v"
    and "member_marks h m = member_marks h' m" and "array_hit h k v = array_hit h' k v"
    and "class_field_kinds h t = class_field_kinds h' t" and "object_marks h obj = object_marks h' obj"
proof -
  have "hp_cells h a = None \<longleftrightarrow> hp_cells h' a = None" for a
    using assms domIff[of a "hp_cells h"] domIff[of a "hp_cells h'"] by (auto simp: mark_env_def)
  then have f: "heap_find h a = None \<longleftrightarrow> heap_find h' a = None" for a
    using assms by (auto simp: heap_find_def mark_env_def)
  then show "heap_find h a = None \<longleftrightarrow> heap_find h' a = None" .
  have v: "value_marks h = value_marks h'"
    using f by (simp add: value_marks_def fun_eq_iff)
  then show "value_marks h v = value_marks h' v"
    by simp
  have m: "member_marks h = member_marks h'"
    using assms v by (auto simp: member_marks_def mark_env_def fun_eq_iff split: member.split)
  then show "member_marks h m = member_marks h' m"
    by simp
  have ah: "array_hit h = array_hit h'"
    using assms by (simp add: array_hit_def heap_may_be_ref_def mark_env_def fun_eq_iff)
  then show "array_hit h k v = array_hit h' k v"
    by simp
  have c: "class_field_kinds h = class_field_kinds h'"
    using assms by (simp add: class_field_kinds_def mark_env_def fun_eq_iff)
  then show "class_field_kinds h t = class_field_kinds h' t"
    by simp
  have k: "kinded_marks h = kinded_marks h'"
    unfolding kinded_marks_def v ..
  show "object_marks h obj = object_marks h' obj"
    unfolding object_marks_def v m ah c k ..
qed

lemma mark_all_env: "mark_env (mark_all h ms) = mark_env h"
  by (induction ms arbitrary: h) (simp_all add: mark_one_cells)

lemma mark_all_same [simp]:
  "value_marks (mark_all h ms) = value_marks h" "member_marks (mark_all h ms) = member_marks h"
  "array_hit (mark_all h ms) = array_hit h" "object_marks (mark_all h ms) = object_marks h"
  "object_marks (mark_one h ga) = object_marks h"
  by (intro ext marks_of_env mark_all_env mark_one_cells)+

lemma foldl_mark_all:
  assumes "\<And>h x. f h x = mark_all h (g h x)" and "\<And>h h' x. mark_env h = mark_env h' \<Longrightarrow> g h x = g h' x"
  shows "foldl f h xs = mark_all h (concat (map (g h) xs))"
proof (induction xs arbitrary: h)
  case (Cons x xs)
  have "map (g (mark_all h (g h x))) xs = map (g h) xs"
    using assms(2)[OF mark_all_env] by simp
  then show ?case
    using Cons[of "mark_all h (g h x)"] by (simp only: foldl_Cons assms(1) list.map concat.simps foldl_append)
qed simp

lemma mark_value_all: "mark_value h v = mark_all h (value_marks h v)"
  by (auto simp: mark_value_def value_marks_def Let_def mark_one_def split: option.split)

lemma mark_member_all: "mark_member h m = mark_all h (member_marks h m)"
  by (auto simp: mark_member_def member_marks_def mark_value_all mark_one_def split: member.split)

lemma mark_kinded_all:
  "foldl (\<lambda>h (i, v). if P i then mark_value h v else h) h (enumerate 0 words) = mark_all h (kinded_marks h P words)"
  unfolding kinded_marks_def
proof (rule foldl_mark_all)
  show "(case x of (i, v) \<Rightarrow> if P i then mark_value h v else h) = mark_all h (case x of (i, v) \<Rightarrow> if P i then value_marks h v else [])" for h x
    by (simp add: mark_value_all split: prod.split)
  show "(case x of (i, v) \<Rightarrow> if P i then value_marks h v else []) = (case x of (i, v) \<Rightarrow> if P i then value_marks h' v else [])"
    if "mark_env h = mark_env h'" for h h' x
    using marks_of_env(2)[OF that] by (simp split: prod.split)
qed

lemma mark_array_fold:
  "foldl (\<lambda>(any, h) v. if array_hit h k v then (True, mark_value h v) else (any, h)) (b, h) ws
     = (b \<or> (\<exists>v \<in> set ws. array_hit h k v), mark_all h (concat (map (\<lambda>v. if array_hit h k v then value_marks h v else []) ws)))"
proof (induction ws arbitrary: b h)
  case (Cons v ws)
  let ?h = "mark_all h (value_marks h v)"
  have same: "array_hit ?h = array_hit h" "value_marks ?h = value_marks h"
    using marks_of_env(2,4)[OF mark_all_env] by (auto simp: fun_eq_iff)
  show ?case
    using Cons[of "True" ?h, unfolded same] Cons[of b h] by (simp add: mark_value_all)
qed simp

definition array_clean :: "gc_heap \<Rightarrow> gc_object \<Rightarrow> bool" where
  "array_clean h obj \<longleftrightarrow> (case obj of GArray d may_hold_refs k \<Rightarrow> may_hold_refs \<and> (\<forall>v \<in> set (array_words d). \<not> array_hit h k v) | _ \<Rightarrow> False)"

lemma mark_table_all:
  "foldl (\<lambda>h (k, m). mark_member (snd (cell_mark h k)) m) h table = mark_all h (concat (map (\<lambda>(k, m). (False, k) # member_marks h m) table))"
proof (rule foldl_mark_all)
  show "(case x of (k, m) \<Rightarrow> mark_member (snd (cell_mark h k)) m) = mark_all h (case x of (k, m) \<Rightarrow> (False, k) # member_marks h m)" for h x
  proof (cases x)
    case (Pair k m)
    have "snd (cell_mark h k) = mark_one h (False, k)"
      by (simp add: mark_one_def)
    moreover have "member_marks (mark_one h (False, k)) m = member_marks h m"
      by (rule marks_of_env(3)) (simp add: mark_one_cells)
    ultimately show ?thesis
      using Pair by (simp add: mark_member_all)
  qed
  show "(case x of (k, m) \<Rightarrow> (False, k) # member_marks h m) = (case x of (k, m) \<Rightarrow> (False, k) # member_marks h' m)"
    if "mark_env h = mark_env h'" for h h' x
    using marks_of_env(3)[OF that] by (simp split: prod.split)
qed

lemma foldl_values_all: "foldl mark_value h vs = mark_all h (concat (map (value_marks h) vs))"
  by (rule foldl_mark_all, rule mark_value_all, rule marks_of_env(2))

lemma foldl_members_all: "foldl mark_member h ms = mark_all h (concat (map (member_marks h) ms))"
  by (rule foldl_mark_all, rule mark_member_all, rule marks_of_env(3))

lemma foldl_objects_all: "foldl object_mark h as = mark_all h (map (Pair True) as)"
  by (induction "as" arbitrary: h) (simp_all add: mark_one_def)

lemma mark_coroutine_all: "mark_coroutine h co = mark_all h (object_marks h (GCoroutine co))"
proof -
  let ?P = "\<lambda>i. \<not> (co_saved_live_mask co \<noteq> 0 \<and> i < 64 \<and> co_saved_live_mask co AND push_bit i 1 = 0)"
  let ?h = "mark_all h (kinded_marks h ?P (co_saved_stack co))"
  have "foldl (\<lambda>h (i, v). if co_saved_live_mask co \<noteq> 0 \<and> i < 64 \<and> co_saved_live_mask co AND push_bit i 1 = 0 then h else mark_value h v) h
      (enumerate 0 (co_saved_stack co)) = foldl (\<lambda>h (i, v). if ?P i then mark_value h v else h) h (enumerate 0 (co_saved_stack co))"
    by (rule arg_cong[where f = "\<lambda>f. foldl f h _"]) (auto simp: fun_eq_iff)
  moreover have "mark_value ?h (co_pending_send co) = mark_all ?h (value_marks h (co_pending_send co))"
    by (simp add: mark_value_all)
  ultimately show ?thesis
    by (simp add: mark_coroutine_def Let_def mark_kinded_all object_marks_def foldl_objects_all)
qed

lemma mark_references_all:
  assumes "hp_cells h a = Some c"
  shows "mark_references h a = (if array_clean h (cell_obj c) then clear_may_hold_refs h a else mark_all h (cell_refs h a))"
    and "array_clean h (cell_obj c) \<Longrightarrow> cell_refs h a = []"
proof -
  have fn: "mark_fn h xs ys ds = mark_all h (object_marks h (GFn xs ys ds))" for xs ys ds
    by (simp add: mark_fn_def object_marks_def foldl_values_all foldl_members_all del: map_append foldl_append concat_append)
      (simp add: foldl_append)
  have inst: "mark_members h t st = mark_all h (object_marks h (GInstance t f st))" for t f st
    by (cases st) (simp_all add: mark_members_def object_marks_def storage_slots_def mark_table_all mark_kinded_all Let_def)
  have arr: "mark_array h a d b k = (if array_clean h (GArray d b k) then clear_may_hold_refs h a else mark_all h (object_marks h (GArray d b k)))"
    "array_clean h (GArray d b k) \<Longrightarrow> object_marks h (GArray d b k) = []" for d b k
  proof -
    have "concat (map (\<lambda>v. if array_hit h k v then value_marks h v else []) (array_words d)) = []" if "\<forall>v \<in> set (array_words d). \<not> array_hit h k v"
      using that by simp
    then show "mark_array h a d b k = (if array_clean h (GArray d b k) then clear_may_hold_refs h a else mark_all h (object_marks h (GArray d b k)))"
      "array_clean h (GArray d b k) \<Longrightarrow> object_marks h (GArray d b k) = []"
      by (auto simp: mark_array_def mark_array_fold object_marks_def array_clean_def simp del: concat_eq_Nil_conv)
  qed
  have refs: "cell_refs h a = object_marks h (cell_obj c)"
    using assms by (simp add: cell_refs_def)
  show "mark_references h a = (if array_clean h (cell_obj c) then clear_may_hold_refs h a else mark_all h (cell_refs h a))"
    using assms
  proof (cases "cell_obj c")
    case (GRoot m)
    then show ?thesis
      using assms by (cases m) (simp_all add: mark_references_def object_marks_def array_clean_def mark_member_all refs)
  qed (simp_all add: mark_references_def fn inst arr mark_coroutine_all refs,
      simp_all add: array_clean_def object_marks_def mark_kinded_words_def mark_kinded_all mark_member_all)
  show "array_clean h (cell_obj c) \<Longrightarrow> cell_refs h a = []"
    unfolding refs by (cases "cell_obj c") (use arr in \<open>auto simp: array_clean_def\<close>)
qed

section \<open>Reachability\<close>

definition gc_edge :: "gc_heap \<Rightarrow> nat \<Rightarrow> nat \<Rightarrow> bool" where
  "gc_edge h a b \<longleftrightarrow> b \<in> snd ` set (cell_refs h a) \<and> b \<in> dom (hp_cells h)"

definition gc_reach :: "gc_heap \<Rightarrow> nat set \<Rightarrow> nat set" where
  "gc_reach h R = {b. \<exists>a \<in> R. a \<in> dom (hp_cells h) \<and> (gc_edge h)\<^sup>*\<^sup>* a b}"

text \<open>What marking may change: mark bits, the flag of arrays without references, and the gray list.\<close>

definition unflag :: "gc_object \<Rightarrow> gc_object" where
  "unflag obj = (case obj of GArray d _ k \<Rightarrow> GArray d False k | _ \<Rightarrow> obj)"

definition cell_shape :: "gc_cell \<Rightarrow> gc_cell" where
  "cell_shape c = c\<lparr>cell_marked := False, cell_obj := unflag (cell_obj c)\<rparr>"

definition marks_only :: "gc_heap \<Rightarrow> gc_heap \<Rightarrow> bool" where
  "marks_only h h' \<longleftrightarrow> h'\<lparr>hp_cells := Map.empty, hp_gray := []\<rparr> = h\<lparr>hp_cells := Map.empty, hp_gray := []\<rparr>
     \<and> (\<forall>a. map_option cell_shape (hp_cells h' a) = map_option cell_shape (hp_cells h a)) \<and> (\<forall>a. cell_refs h' a = cell_refs h a)
     \<and> marked h \<subseteq> marked h'"

lemma marks_only_refl: "marks_only h h"
  by (simp add: marks_only_def)

lemma marks_only_trans: "marks_only h h' \<Longrightarrow> marks_only h' h'' \<Longrightarrow> marks_only h h''"
  by (auto simp: marks_only_def)

lemma marks_only_dom: "marks_only h h' \<Longrightarrow> dom (hp_cells h') = dom (hp_cells h)"
  unfolding marks_only_def dom_def by (metis (no_types, lifting) map_option_is_None)

lemma marks_only_edge: "marks_only h h' \<Longrightarrow> gc_edge h' = gc_edge h" "marks_only h h' \<Longrightarrow> gc_reach h' = gc_reach h"
proof -
  assume m: "marks_only h h'"
  then show e: "gc_edge h' = gc_edge h"
    using marks_only_dom[OF m] by (simp add: gc_edge_def marks_only_def fun_eq_iff)
  show "gc_reach h' = gc_reach h"
    using marks_only_dom[OF m] by (simp add: gc_reach_def e fun_eq_iff)
qed

lemma marked_dom: "marked h \<subseteq> dom (hp_cells h)"
  by (auto simp: marked_def)

lemma mark_one_marked: "marked (mark_one h ga) = marked h \<union> ({snd ga} \<inter> dom (hp_cells h))"
  by (auto simp: marked_def mark_one_cells split: if_splits)

lemma mark_one_only: "marks_only h (mark_one h ga)"
proof -
  have "cell_refs (mark_one h ga) a = cell_refs h a" for a
    by (cases "hp_cells h a") (auto simp: cell_refs_def mark_one_cells)
  moreover have "map_option cell_shape (map_option (cell_marked_update (\<lambda>_. True)) x) = map_option cell_shape x" for x
    by (cases x) (simp_all add: cell_shape_def)
  ultimately show ?thesis
    by (simp add: marks_only_def mark_one_marked mark_one_cells)
qed

text \<open>What a list of marks does: the marked set, and the gray list that grows by the newly marked.\<close>

lemma mark_all_effect:
  "marks_only h (mark_all h ms) \<and> marked (mark_all h ms) = marked h \<union> (snd ` set ms \<inter> dom (hp_cells h))
   \<and> (\<exists>new. hp_gray (mark_all h ms) = hp_gray h @ new \<and> distinct new \<and> set new \<subseteq> marked (mark_all h ms) - marked h
      \<and> (\<forall>b. (True, b) \<in> set ms \<longrightarrow> b \<in> dom (hp_cells h) - marked h \<longrightarrow> b \<in> set new \<or> (False, b) \<in> set ms))"
proof (induction ms arbitrary: h)
  case (Cons m ms)
  let ?h = "mark_one h m"
  have d: "dom (hp_cells ?h) = dom (hp_cells h)"
    by (rule marks_only_dom[OF mark_one_only])
  obtain new where new: "hp_gray (mark_all ?h ms) = hp_gray ?h @ new" "distinct new" "set new \<subseteq> marked (mark_all ?h ms) - marked ?h"
    "\<forall>b. (True, b) \<in> set ms \<longrightarrow> b \<in> dom (hp_cells ?h) - marked ?h \<longrightarrow> b \<in> set new \<or> (False, b) \<in> set ms"
    using Cons.IH[of ?h] by blast
  define n where "n = (if fst m \<and> snd m \<in> dom (hp_cells h) - marked h then [snd m] else [])"
  have "hp_gray (mark_all h (m # ms)) = hp_gray h @ (n @ new)"
    using new(1) by (simp add: mark_one_cells(2) n_def)
  moreover have "distinct (n @ new) \<and> set (n @ new) \<subseteq> marked (mark_all h (m # ms)) - marked h"
  proof -
    have "set new \<inter> marked ?h = {}" "set new \<subseteq> marked (mark_all ?h ms)" "marked ?h \<subseteq> marked (mark_all ?h ms)"
      using new(3) Cons.IH[of ?h, THEN conjunct2, THEN conjunct1] by auto
    moreover have "set n \<subseteq> marked ?h" "set n \<inter> marked h = {}" "distinct n" "marked h \<subseteq> marked ?h"
      by (auto simp: n_def mark_one_marked)
    ultimately show ?thesis
      using new(2) by auto
  qed
  moreover have "\<forall>b. (True, b) \<in> set (m # ms) \<longrightarrow> b \<in> dom (hp_cells h) - marked h \<longrightarrow> b \<in> set (n @ new) \<or> (False, b) \<in> set (m # ms)"
  proof (intro allI impI)
    fix b assume b: "(True, b) \<in> set (m # ms)" "b \<in> dom (hp_cells h) - marked h"
    show "b \<in> set (n @ new) \<or> (False, b) \<in> set (m # ms)"
    proof (cases "b = snd m")
      case True
      then show ?thesis
        using b by (cases m; cases "fst m") (auto simp: n_def)
    next
      case False
      then have "b \<in> dom (hp_cells ?h) - marked ?h" "(True, b) \<in> set ms"
        using b d by (auto simp: mark_one_marked)
      then show ?thesis
        using new(4) by auto
    qed
  qed
  moreover have "marks_only h (mark_all h (m # ms))"
    using marks_only_trans[OF mark_one_only Cons.IH[of ?h, THEN conjunct1]] by simp
  moreover have "marked (mark_all h (m # ms)) = marked h \<union> (snd ` set (m # ms) \<inter> dom (hp_cells h))"
    using Cons.IH[of ?h, THEN conjunct2, THEN conjunct1] by (auto simp: mark_one_marked d)
  ultimately show ?case
    by blast
qed (simp add: marks_only_refl)

lemma clear_may_hold_refs_effect:
  assumes c: "hp_cells h a = Some c" and clean: "array_clean h (cell_obj c)"
  shows "marks_only h (clear_may_hold_refs h a)" "marked (clear_may_hold_refs h a) = marked h" "hp_gray (clear_may_hold_refs h a) = hp_gray h"
proof -
  obtain d b k where obj: "cell_obj c = GArray d b k"
    using clean by (auto simp: array_clean_def split: gc_object.splits)
  let ?h = "h\<lparr>hp_cells := (hp_cells h)(a \<mapsto> c\<lparr>cell_obj := GArray d False k\<rparr>)\<rparr>"
  have h: "clear_may_hold_refs h a = ?h"
    using c obj by (simp add: clear_may_hold_refs_def)
  show m: "marked (clear_may_hold_refs h a) = marked h" and "hp_gray (clear_may_hold_refs h a) = hp_gray h"
    using c by (auto simp: h marked_def)
  have "mark_env ?h = mark_env h"
    using c by (auto simp: mark_env_def)
  then have om: "object_marks ?h = object_marks h"
    by (intro ext marks_of_env)
  have "cell_refs ?h b = cell_refs h b" for b
    using mark_references_all(2)[OF c clean] c unfolding cell_refs_def om by (auto simp: object_marks_def)
  then show "marks_only h (clear_may_hold_refs h a)"
    using c obj m unfolding h by (auto simp: marks_only_def cell_shape_def unflag_def)
qed

section \<open>Marking ends with exactly what is reachable\<close>

definition unmarked :: "gc_heap \<Rightarrow> nat set" where
  "unmarked h = dom (hp_cells h) - marked h"

text \<open>Gray objects are marked, and what a marked object that is not gray refers to is marked.\<close>

definition tricolour_but :: "nat set \<Rightarrow> gc_heap \<Rightarrow> bool" where
  "tricolour_but X h \<longleftrightarrow> set (hp_gray h) \<subseteq> marked h
     \<and> (\<forall>a \<in> marked h - X. a \<in> set (hp_gray h) \<or> (\<forall>b. gc_edge h a b \<longrightarrow> b \<in> marked h))"

abbreviation tricolour :: "gc_heap \<Rightarrow> bool" where
  "tricolour \<equiv> tricolour_but {}"

text \<open>The keys of a table, marked without becoming gray, refer to nothing.\<close>

definition keys_ok :: "gc_heap \<Rightarrow> bool" where
  "keys_ok h \<longleftrightarrow> (\<forall>a k. (False, k) \<in> set (cell_refs h a) \<longrightarrow> cell_refs h k = [])"

definition mark_work :: "gc_heap \<Rightarrow> nat" where
  "mark_work h = card (unmarked h) + length (hp_gray h)"

lemma mark_all_work:
  assumes "finite (dom (hp_cells h))"
  shows "mark_work (mark_all h ms) \<le> mark_work h"
proof -
  obtain new where new: "hp_gray (mark_all h ms) = hp_gray h @ new" "distinct new" "set new \<subseteq> marked (mark_all h ms) - marked h"
    using mark_all_effect[of h ms] by blast
  have d: "dom (hp_cells (mark_all h ms)) = dom (hp_cells h)"
    using mark_all_effect[of h ms] marks_only_dom by blast
  have "unmarked (mark_all h ms) \<union> set new \<subseteq> unmarked h" "unmarked (mark_all h ms) \<inter> set new = {}"
    using new(3) marked_dom[of "mark_all h ms"] mark_all_effect[of h ms, THEN conjunct2, THEN conjunct1] by (auto simp: unmarked_def d)
  then have "card (unmarked (mark_all h ms)) + card (set new) \<le> card (unmarked h)"
    using assms by (subst card_Un_disjoint[symmetric]) (auto simp: unmarked_def d intro!: card_mono)
  then show ?thesis
    using new(1,2) by (simp add: mark_work_def distinct_card)
qed

lemma mark_all_tricolour:
  assumes tri: "tricolour_but X h" and keys: "\<And>k. (False, k) \<in> set ms \<Longrightarrow> cell_refs h k = []"
  shows "tricolour_but X (mark_all h ms)"
proof -
  let ?h = "mark_all h ms"
  obtain new where new: "hp_gray ?h = hp_gray h @ new" "set new \<subseteq> marked ?h"
    "\<forall>b. (True, b) \<in> set ms \<longrightarrow> b \<in> dom (hp_cells h) - marked h \<longrightarrow> b \<in> set new \<or> (False, b) \<in> set ms"
    using mark_all_effect[of h ms] by blast
  have only: "marks_only h ?h" and m: "marked ?h = marked h \<union> (snd ` set ms \<inter> dom (hp_cells h))"
    using mark_all_effect[of h ms] by blast+
  have e: "gc_edge ?h = gc_edge h"
    by (rule marks_only_edge[OF only])
  have "a \<in> set (hp_gray ?h) \<or> (\<forall>b. gc_edge h a b \<longrightarrow> b \<in> marked ?h)" if a: "a \<in> marked ?h - X" for a
  proof (cases "a \<in> marked h")
    case True
    then show ?thesis
      using tri m new(1) a by (auto simp: tricolour_but_def)
  next
    case False
    then obtain g where "(g, a) \<in> set ms" "a \<in> dom (hp_cells h)"
      using a m by auto
    then have "a \<in> set new \<or> cell_refs h a = []"
      using new(3) keys False by (cases g) auto
    then show ?thesis
      using new(1) by (auto simp: gc_edge_def)
  qed
  moreover have "set (hp_gray ?h) \<subseteq> marked ?h"
    using tri new m by (auto simp: tricolour_but_def)
  ultimately show ?thesis
    by (simp add: tricolour_but_def e)
qed

text \<open>One object taken from the gray list.\<close>

definition mark_step :: "gc_heap \<Rightarrow> gc_heap" where
  "mark_step h = mark_references (h\<lparr>hp_gray := butlast (hp_gray h)\<rparr>) (last (hp_gray h))"

lemma gray_only: "marks_only h (h\<lparr>hp_gray := g\<rparr>)" "cell_refs (h\<lparr>hp_gray := g\<rparr>) a = cell_refs h a" "marked (h\<lparr>hp_gray := g\<rparr>) = marked h"
proof -
  have "mark_env (h\<lparr>hp_gray := g\<rparr>) = mark_env h"
    by (simp add: mark_env_def)
  from marks_of_env(6)[OF this] show refs: "cell_refs (h\<lparr>hp_gray := g\<rparr>) a = cell_refs h a" for a
    by (simp add: cell_refs_def split: option.split)
  show m: "marked (h\<lparr>hp_gray := g\<rparr>) = marked h"
    by (simp add: marked_def)
  show "marks_only h (h\<lparr>hp_gray := g\<rparr>)"
    by (simp add: marks_only_def refs m)
qed

lemma mark_step_effect:
  assumes tri: "tricolour h" and keys: "keys_ok h" and fin: "finite (dom (hp_cells h))" and gray: "hp_gray h \<noteq> []"
  shows "marks_only h (mark_step h)" "tricolour (mark_step h)" "mark_work (mark_step h) < mark_work h"
    "\<forall>b \<in> marked (mark_step h) - marked h. \<exists>a \<in> marked h. gc_edge h a b"
proof -
  let ?a = "last (hp_gray h)" and ?g = "butlast (hp_gray h)"
  define h1 where "h1 = h\<lparr>hp_gray := ?g\<rparr>"
  have "set xs = insert (last xs) (set (butlast xs))" if "xs \<noteq> []" for xs :: "nat list"
    using that by (induction xs) auto
  then have a: "?a \<in> marked h" "set (hp_gray h) = insert ?a (set ?g)"
    using tri last_in_set[OF gray] gray by (auto simp: tricolour_but_def)
  have only1: "marks_only h h1" and refs1: "cell_refs h1 x = cell_refs h x" and m1: "marked h1 = marked h" for x
    using gray_only[where h = h and g = ?g] by (simp_all add: h1_def)
  have work1: "mark_work h1 < mark_work h"
    using gray by (simp add: mark_work_def unmarked_def m1) (simp add: h1_def)
  obtain c where c: "hp_cells h1 ?a = Some c"
    using a by (auto simp: marked_def h1_def)
  have e1: "gc_edge h1 = gc_edge h"
    by (rule marks_only_edge[OF only1])
  have step: "mark_step h = mark_references h1 ?a"
    by (simp add: mark_step_def h1_def)
  have "marks_only h (mark_step h) \<and> tricolour (mark_step h) \<and> mark_work (mark_step h) < mark_work h
    \<and> (\<forall>b \<in> marked (mark_step h) - marked h. \<exists>a \<in> marked h. gc_edge h a b)"
  proof (cases "array_clean h1 (cell_obj c)")
    case True
    let ?h = "clear_may_hold_refs h1 ?a"
    note e = clear_may_hold_refs_effect[OF c True]
    have none: "cell_refs h ?a = []"
      using mark_references_all(2)[OF c True] refs1 by simp
    have "gc_edge ?h = gc_edge h" "hp_gray h1 = ?g" "\<And>b. \<not> gc_edge h ?a b"
      using marks_only_edge(1)[OF e(1)] e1 none by (simp_all add: h1_def gc_edge_def)
    then have "tricolour ?h"
      using tri a unfolding tricolour_but_def e(2,3) m1 by auto
    moreover have "mark_work ?h = mark_work h1"
      using e marks_only_dom[OF e(1)] by (simp add: mark_work_def unmarked_def)
    ultimately show ?thesis
      using mark_references_all(1)[OF c] True step work1 e marks_only_trans[OF only1 e(1)] m1 by simp
  next
    case False
    let ?h = "mark_all h1 (cell_refs h1 ?a)"
    have eff: "marks_only h1 ?h" "marked ?h = marked h1 \<union> (snd ` set (cell_refs h1 ?a) \<inter> dom (hp_cells h1))"
      using mark_all_effect[of h1 "cell_refs h1 ?a"] by blast+
    have d1: "dom (hp_cells h1) = dom (hp_cells h)"
      by (simp add: h1_def)
    have new: "\<forall>b \<in> marked ?h - marked h. gc_edge h ?a b"
      using eff(2) refs1 d1 m1 by (auto simp: gc_edge_def)
    have "tricolour_but {?a} h1"
      using tri a e1 unfolding tricolour_but_def m1 by (auto simp: h1_def)
    then have "tricolour_but {?a} ?h"
      using keys refs1 by (intro mark_all_tricolour) (auto simp: keys_ok_def)
    moreover have "\<forall>b. gc_edge ?h ?a b \<longrightarrow> b \<in> marked ?h"
      using eff(2) d1 refs1 unfolding marks_only_edge(1)[OF eff(1)] by (auto simp: gc_edge_def)
    ultimately have "tricolour ?h"
      by (auto simp: tricolour_but_def)
    moreover have "mark_work ?h < mark_work h"
      using mark_all_work[of h1 "cell_refs h1 ?a"] fin work1 by (simp add: h1_def)
    ultimately show ?thesis
      using mark_references_all(1)[OF c] False step marks_only_trans[OF only1 eff(1)] new a(1) by auto
  qed
  then show "marks_only h (mark_step h)" "tricolour (mark_step h)" "mark_work (mark_step h) < mark_work h"
    "\<forall>b \<in> marked (mark_step h) - marked h. \<exists>a \<in> marked h. gc_edge h a b"
    by blast+
qed

lemma keys_ok_only: "marks_only h h' \<Longrightarrow> keys_ok h' \<longleftrightarrow> keys_ok h"
  by (simp add: keys_ok_def marks_only_def)

lemma reach_step: "a \<in> gc_reach h R \<Longrightarrow> gc_edge h a b \<Longrightarrow> b \<in> gc_reach h R"
  unfolding gc_reach_def by (auto intro: rtranclp.rtrancl_into_rtrancl)

lemma reach_refl: "a \<in> R \<Longrightarrow> a \<in> dom (hp_cells h) \<Longrightarrow> a \<in> gc_reach h R"
  unfolding gc_reach_def by blast

lemma marked_reach: "a \<in> marked h \<Longrightarrow> a \<in> gc_reach h (marked h)"
  using marked_dom[of h] by (blast intro: reach_refl)

lemma reach_closed:
  assumes "R \<inter> dom (hp_cells h) \<subseteq> S" and "\<And>a b. a \<in> S \<Longrightarrow> gc_edge h a b \<Longrightarrow> b \<in> S"
  shows "gc_reach h R \<subseteq> S"
proof
  fix b assume "b \<in> gc_reach h R"
  then obtain a where a: "a \<in> S" "(gc_edge h)\<^sup>*\<^sup>* a b"
    using assms(1) by (auto simp: gc_reach_def)
  from a(2,1) show "b \<in> S"
    by (induction rule: rtranclp_induct) (auto intro: assms(2))
qed

text \<open>What a run of the gray loop keeps.\<close>

definition mark_run :: "gc_heap \<Rightarrow> gc_heap \<Rightarrow> bool" where
  "mark_run h h' \<longleftrightarrow> marks_only h h' \<and> tricolour h' \<and> mark_work h' \<le> mark_work h \<and> marked h' \<subseteq> gc_reach h (marked h)"

lemma mark_run_refl: "tricolour h \<Longrightarrow> mark_run h h"
  by (auto simp: mark_run_def marks_only_refl intro: marked_reach)

lemma mark_run_trans:
  assumes "mark_run h h'" and "mark_run h' h''"
  shows "mark_run h h''"
proof -
  have only: "marks_only h h'" "marks_only h' h''" and m: "marked h' \<subseteq> gc_reach h (marked h)" "marked h'' \<subseteq> gc_reach h' (marked h')"
    using assms by (auto simp: mark_run_def)
  have "gc_reach h (marked h') \<subseteq> gc_reach h (marked h)"
    using m(1) reach_step by (intro reach_closed) auto
  then show ?thesis
    using assms m marks_only_trans[OF only] marks_only_edge(2)[OF only(1)] by (auto simp: mark_run_def)
qed

lemma mark_step_run:
  assumes "tricolour h" and "keys_ok h" and "finite (dom (hp_cells h))" and "hp_gray h \<noteq> []"
  shows "mark_run h (mark_step h)"
proof -
  note e = mark_step_effect[OF assms]
  have "b \<in> gc_reach h (marked h)" if b: "b \<in> marked (mark_step h)" for b
  proof (cases "b \<in> marked h")
    case True
    then show ?thesis
      by (rule marked_reach)
  next
    case False
    then obtain a where a: "a \<in> marked h" "gc_edge h a b"
      using e(4) b by blast
    show ?thesis
      by (rule reach_step[OF marked_reach[OF a(1)] a(2)])
  qed
  then show ?thesis
    using e by (auto simp: mark_run_def)
qed

lemma mark_loop_run:
  assumes "tricolour h" and "keys_ok h" and "finite (dom (hp_cells h))"
  shows "mark_run h (mark_loop i n h) \<and> (i < n \<and> hp_gray h \<noteq> [] \<longrightarrow> mark_work (mark_loop i n h) < mark_work h)"
  using assms
proof (induction i n h rule: mark_loop.induct)
  case (1 i n h)
  show ?case
  proof (cases "i < n \<and> hp_gray h \<noteq> []")
    case True
    have step: "mark_loop i n h = mark_loop (i + 1) n (mark_step h)"
      using True by (subst mark_loop.simps) (simp add: mark_step_def)
    note run = mark_step_run[OF "1.prems" conjunct2[OF True]]
    note e = mark_step_effect[OF "1.prems" conjunct2[OF True]]
    have "mark_run (mark_step h) (mark_loop (i + 1) n (mark_step h))"
      using "1.IH"[OF True, folded mark_step_def] e(2) keys_ok_only[OF e(1)] marks_only_dom[OF e(1)] "1.prems" by simp
    then show ?thesis
      using mark_run_trans[OF run] e(3) unfolding step by (auto simp: mark_run_def)
  next
    case False
    show ?thesis
    proof -
      have "mark_loop i n h = h"
        using False by (subst mark_loop.simps) auto
      then show ?thesis
        using mark_run_refl[OF "1.prems"(1)] False by auto
    qed
  qed
qed

lemma mark_drain_ends:
  assumes "tricolour h" and "keys_ok h" and "finite (dom (hp_cells h))"
  shows "\<exists>h'. mark_drain h = Some h' \<and> mark_run h h' \<and> hp_gray h' = []"
  using assms
proof (induction "mark_work h" arbitrary: h rule: less_induct)
  case less
  let ?h = "mark_loop 0 USIZE_MAX h"
  note run = mark_loop_run[OF less.prems, of 0 USIZE_MAX]
  have drain: "mark_drain h = (if hp_gray ?h = [] then Some ?h else mark_drain ?h)"
    by (subst mark_drain.simps) (simp add: mark_quantum_def Let_def)
  show ?case
  proof (cases "hp_gray ?h = []")
    case True
    then show ?thesis
      using drain run by simp
  next
    case False
    have "mark_loop 0 USIZE_MAX h = h" if "hp_gray h = []"
      using that by (subst mark_loop.simps) simp
    then have "hp_gray h \<noteq> []"
      using False by auto
    then have lt: "mark_work ?h < mark_work h"
      using run by (simp add: USIZE_MAX_def)
    have only: "marks_only h ?h" "tricolour ?h"
      using run by (auto simp: mark_run_def)
    obtain h' where "mark_drain ?h = Some h'" "mark_run ?h h'" "hp_gray h' = []"
      using less.hyps[OF lt only(2)] keys_ok_only[OF only(1)] marks_only_dom[OF only(1)] less.prems by auto
    then show ?thesis
      using drain False mark_run_trans run by auto
  qed
qed

lemma drained_marks:
  assumes "mark_run h h'" and "hp_gray h' = []"
  shows "marked h' = gc_reach h (marked h)"
proof
  show "marked h' \<subseteq> gc_reach h (marked h)"
    using assms(1) by (simp add: mark_run_def)
  have only: "marks_only h h'" "tricolour h'"
    using assms(1) by (auto simp: mark_run_def)
  have "b \<in> marked h'" if "a \<in> marked h'" "gc_edge h a b" for a b
    using only(2) that assms(2) marks_only_edge(1)[OF only(1)] by (auto simp: tricolour_but_def)
  then show "gc_reach h (marked h) \<subseteq> marked h'"
    using only(1) by (intro reach_closed) (auto simp: marks_only_def)
qed

section \<open>Roots\<close>

definition root_set :: "gc_heap \<Rightarrow> u64 list \<Rightarrow> nat set" where
  "root_set h root_addrs = {a. a \<noteq> 0 \<and> heap_find h a \<noteq> None \<and> (\<exists>v \<in> set root_addrs. a = unat (heap_addr v))}"

lemma root_set_marks: "root_set h root_addrs = snd ` set (concat (map (value_marks h) root_addrs))"
  by (auto simp: root_set_def value_marks_def Let_def split: if_splits) force

lemma root_set_dom: "root_set h root_addrs \<subseteq> dom (hp_cells h)"
  by (auto simp: root_set_def heap_find_def split: if_splits)

lemma remark_roots_all: "remark_roots h root_addrs = mark_all h (concat (map (value_marks h) root_addrs))"
proof -
  have "remark_roots h root_addrs = foldl mark_value h root_addrs"
    unfolding remark_roots_def by (rule arg_cong[where f = "\<lambda>f. foldl f h root_addrs"]) (simp add: mark_value_def heap_addr_def fun_eq_iff)
  then show ?thesis
    by (simp add: foldl_values_all)
qed

lemma remark_roots_effect:
  assumes "tricolour h"
  shows "marks_only h (remark_roots h root_addrs)" "tricolour (remark_roots h root_addrs)"
    "marked (remark_roots h root_addrs) = marked h \<union> root_set h root_addrs"
proof -
  let ?ms = "concat (map (value_marks h) root_addrs)"
  have "\<not> (False, k) \<in> set ?ms" for k
    by (auto simp: value_marks_def Let_def split: if_splits)
  then show "tricolour (remark_roots h root_addrs)"
    unfolding remark_roots_all using assms by (intro mark_all_tricolour) auto
  show "marks_only h (remark_roots h root_addrs)"
    unfolding remark_roots_all using mark_all_effect[of h ?ms] by blast
  have "marked (mark_all h ?ms) = marked h \<union> (snd ` set ?ms \<inter> dom (hp_cells h))"
    using mark_all_effect[of h ?ms] by blast
  then show "marked (remark_roots h root_addrs) = marked h \<union> root_set h root_addrs"
    using root_set_dom[of h root_addrs] unfolding remark_roots_all root_set_marks by blast
qed

lemma reach_Un: "gc_reach h (R \<union> S) = gc_reach h R \<union> gc_reach h S"
  by (auto simp: gc_reach_def)

lemma reach_reach: "gc_reach h (gc_reach h R \<union> S) = gc_reach h (R \<union> S)"
proof
  show "gc_reach h (gc_reach h R \<union> S) \<subseteq> gc_reach h (R \<union> S)"
    using reach_step by (intro reach_closed) (auto simp: reach_Un intro: reach_refl)
  show "gc_reach h (R \<union> S) \<subseteq> gc_reach h (gc_reach h R \<union> S)"
    using reach_step by (intro reach_closed) (auto simp: reach_Un intro: reach_refl)
qed

text \<open>Marking from more roots, from any heap whose gray list is sound.\<close>

lemma remark_drain:
  assumes "tricolour h" and "keys_ok h" and "finite (dom (hp_cells h))"
  shows "\<exists>h'. mark_drain (remark_roots h root_addrs) = Some h' \<and> marks_only h h' \<and> tricolour h' \<and> hp_gray h' = []
    \<and> marked h' = gc_reach h (marked h \<union> root_set h root_addrs)"
proof -
  let ?h = "remark_roots h root_addrs"
  note e = remark_roots_effect[OF assms(1), of root_addrs]
  obtain h' where h': "mark_drain ?h = Some h'" "mark_run ?h h'" "hp_gray h' = []"
    using mark_drain_ends[OF e(2)] keys_ok_only[OF e(1)] marks_only_dom[OF e(1)] assms by auto
  have "marked h' = gc_reach h (marked h \<union> root_set h root_addrs)"
    using drained_marks[OF h'(2,3)] e(3) marks_only_edge(2)[OF e(1)] by simp
  then show ?thesis
    using h' marks_only_trans[OF e(1)] by (auto simp: mark_run_def)
qed

text \<open>The same facts for a heap that differs in its phase or gray list only.\<close>

lemma heap_same:
  assumes "hp_cells h' = hp_cells h" and "mark_env h' = mark_env h"
  shows "marked h' = marked h" "cell_refs h' = cell_refs h" "gc_edge h' = gc_edge h" "gc_reach h' = gc_reach h" "root_set h' = root_set h"
    "keys_ok h' = keys_ok h"
proof -
  show m: "marked h' = marked h"
    by (simp add: marked_def assms)
  have "heap_find h' a = heap_find h a" for a
    using assms by (simp add: heap_find_def mark_env_def)
  then show "root_set h' = root_set h"
    by (simp add: root_set_def fun_eq_iff)
  have om: "object_marks h' = object_marks h"
    by (intro ext marks_of_env) (rule assms)
  show r: "cell_refs h' = cell_refs h"
    unfolding cell_refs_def assms(1) om ..
  show e: "gc_edge h' = gc_edge h"
    by (simp add: gc_edge_def r assms fun_eq_iff)
  show "gc_reach h' = gc_reach h"
    by (simp add: gc_reach_def e assms fun_eq_iff)
  show "keys_ok h' = keys_ok h"
    by (simp add: keys_ok_def r)
qed

lemma begin_mark_drain:
  assumes "hp_phase h = Idle" and "marked h = {}" and "keys_ok h" and "finite (dom (hp_cells h))"
  shows "\<exists>h'. mark_drain (begin_mark h root_addrs) = Some h' \<and> marks_only (h\<lparr>hp_phase := Marking\<rparr>) h' \<and> tricolour h' \<and> hp_gray h' = []
    \<and> marked h' = gc_reach h (root_set h root_addrs)"
proof -
  let ?h = "h\<lparr>hp_phase := Marking, hp_gray := []\<rparr>"
  have env: "mark_env ?h = mark_env h" "mark_env (h\<lparr>hp_phase := Marking\<rparr>) = mark_env h"
    by (simp_all add: mark_env_def)
  note same = heap_same[of ?h h, OF _ env(1), simplified]
  have tri: "tricolour ?h"
    using same(1) assms(2) by (simp add: tricolour_but_def)
  obtain h' where h': "mark_drain (remark_roots ?h root_addrs) = Some h'" "marks_only ?h h'" "tricolour h'" "hp_gray h' = []"
    "marked h' = gc_reach h (root_set h root_addrs)"
    using remark_drain[OF tri, of root_addrs, unfolded same] assms by auto
  moreover have "marks_only (h\<lparr>hp_phase := Marking\<rparr>) ?h"
    using gray_only(1)[of "h\<lparr>hp_phase := Marking\<rparr>" "[]"] by simp
  ultimately show ?thesis
    using assms(1) marks_only_trans by (auto simp: begin_mark_def)
qed

lemma resurrect_drain:
  assumes "hp_phase h = Marking" and "tricolour h" and "keys_ok h" and "finite (dom (hp_cells h))"
  shows "\<exists>h'. resurrect_during_mark h v = Some h' \<and> marks_only h h' \<and> tricolour h' \<and> hp_gray h' = []
    \<and> marked h' = gc_reach h (marked h \<union> root_set h [v])"
proof -
  have "shade_value h v = remark_roots h [v]"
    unfolding shade_value_def shade_object_def remark_roots_def heap_addr_def Let_def by simp
  then show ?thesis
    using remark_drain[OF assms(2-4), of "[v]"] assms(1) by (simp add: resurrect_during_mark_def)
qed

end
