(* ===== verification/Gc.thy ===== *)
theory Gc
  imports Gc_Mark
begin

text \<open>
  A collection cycle, after \<^verbatim>\<open>machine/src/memory/heap.rs\<close>: allocation in each phase, the clearing of dead weak
  handles, the lazy sweep with its quantum, the byte budget, and \<open>collect\<close>. The nursery is off, so a sweep has
  no young chunk to skip. The address at which the operating system maps a new chunk is an argument of an allocation,
  as are the size class of the object and the bytes its \<open>size\<close> reports.

  The theorems: the sweep frees exactly what is neither marked nor fresh and ends; \<open>collect\<close> keeps exactly what is
  reachable; and over every interleaving of a program with marking and lazy sweeping, nothing the program can get
  at is freed.
\<close>

unbundle bit_operations_syntax

definition GC_NEXT_THRESHOLD :: nat where
  "GC_NEXT_THRESHOLD = 1024 * 1024"

definition GC_GROWTH_FACTOR :: nat where
  "GC_GROWTH_FACTOR = 2"

definition GC_GROWTH_FACTOR_SURVIVING :: nat where
  "GC_GROWTH_FACTOR_SURVIVING = 4"

definition GC_SWEEP_QUANTUM :: nat where
  "GC_SWEEP_QUANTUM = 128"

definition sat_mul :: "nat \<Rightarrow> nat \<Rightarrow> nat" where
  "sat_mul a b = min (a * b) USIZE_MAX"

definition heap_default :: gc_heap where
  "heap_default = \<lparr>hp_alloc_bytes = 0, hp_next_threshold = GC_NEXT_THRESHOLD, hp_byte_cap = USIZE_MAX, hp_growth_factor = GC_GROWTH_FACTOR,
     hp_sweep_start_bytes = 0, hp_sweep_freed = 0, hp_strings = [], hp_slab = slab_new, hp_recent = (\<lambda>_. None), hp_live_count = 0,
     hp_class_kinds = [], hp_weaks = [], hp_finalizer_types = [], hp_finalizable = [], hp_immortal_enums = [], hp_empty_tuple = None,
     hp_immortal_fns = [], hp_gray = [], hp_freed_early = False, hp_phase = Idle, hp_cursor = None, hp_epoch_stw = False,
     hp_cells = Map.empty\<rparr>"

section \<open>Allocation\<close>

definition has_finalizer :: "gc_heap \<Rightarrow> u32 \<Rightarrow> bool" where
  "has_finalizer h type_id = (case get (hp_finalizer_types h) (unat type_id div 64) of
     None \<Rightarrow> False
   | Some w \<Rightarrow> w AND push_bit (unat type_id mod 64) 1 \<noteq> 0)"

definition finalizer_type_of :: "gc_object \<Rightarrow> u32 option" where
  "finalizer_type_of obj = (case obj of GInstance type_id _ _ \<Rightarrow> Some type_id | GEnum _ type_id _ _ _ \<Rightarrow> Some type_id | _ \<Rightarrow> None)"

datatype side_list = SideWeak | SideFinalizable

definition side_list_of :: "gc_heap \<Rightarrow> gc_object \<Rightarrow> side_list option" where
  "side_list_of h obj = (case obj of
     GWeak _ _ \<Rightarrow> Some SideWeak
   | _ \<Rightarrow> if hp_finalizer_types h \<noteq> [] \<and> (case finalizer_type_of obj of None \<Rightarrow> False | Some t \<Rightarrow> has_finalizer h t)
          then Some SideFinalizable else None)"

definition heap_alloc :: "gc_heap \<Rightarrow> nat \<Rightarrow> u32 \<Rightarrow> u32 \<Rightarrow> nat \<Rightarrow> gc_object \<Rightarrow> (nat \<times> gc_heap) option" where
  "heap_alloc h base z al bytes obj = (case slab_alloc (hp_slab h) base z al of
     None \<Rightarrow> None
   | Some (a, slab') \<Rightarrow>
       (let weaks = (if side_list_of h obj = Some SideWeak then hp_weaks h @ [a] else hp_weaks h);
            finalizable = (if side_list_of h obj = Some SideFinalizable then hp_finalizable h @ [a] else hp_finalizable h);
            black = (hp_phase h = Marking);
            fresh = (hp_phase h = Sweeping \<and> (case hp_cursor h of None \<Rightarrow> False | Some cur \<Rightarrow> \<not> walk_passed slab' cur a)) in
        Some (a, h\<lparr>hp_slab := slab', hp_alloc_bytes := hp_alloc_bytes h + bytes, hp_live_count := hp_live_count h + 1,
          hp_weaks := weaks, hp_finalizable := finalizable,
          hp_cells := (hp_cells h)(a \<mapsto> \<lparr>cell_marked = black, cell_fresh = fresh, cell_size = bytes, cell_obj = obj\<rparr>)\<rparr>)))"

text \<open>\<open>intern_str\<close>: the string of the intern table with the same bytes, or a new one that joins the table.\<close>

definition intern_find :: "gc_heap \<Rightarrow> u8 list \<Rightarrow> nat option" where
  "intern_find h s = List.find (\<lambda>a. map_option cell_obj (hp_cells h a) = Some (GString s)) (hp_strings h)"

definition intern_str :: "gc_heap \<Rightarrow> nat \<Rightarrow> u32 \<Rightarrow> u32 \<Rightarrow> nat \<Rightarrow> u8 list \<Rightarrow> (nat \<times> gc_heap) option" where
  "intern_str h base z al bytes s = (case intern_find h s of
     Some a \<Rightarrow> Some (a, h)
   | None \<Rightarrow> (case heap_alloc h base z al bytes (GString s) of
       None \<Rightarrow> None
     | Some (a, h1) \<Rightarrow> Some (a, h1\<lparr>hp_strings := hp_strings h1 @ [a]\<rparr>)))"

section \<open>The end of marking\<close>

definition is_marked :: "gc_heap \<Rightarrow> nat \<Rightarrow> bool" where
  "is_marked h a = (case hp_cells h a of None \<Rightarrow> False | Some c \<Rightarrow> cell_marked c)"

definition clear_weak :: "gc_heap \<Rightarrow> nat \<Rightarrow> gc_heap" where
  "clear_weak h a = h\<lparr>hp_cells := (hp_cells h)(a := map_option (\<lambda>c. c\<lparr>cell_obj := GWeak 0 True\<rparr>) (hp_cells h a))\<rparr>"

definition retain_weak :: "gc_heap \<times> nat list \<Rightarrow> nat \<Rightarrow> gc_heap \<times> nat list" where
  "retain_weak st addr = (case st of (h, kept) \<Rightarrow> (case heap_find h addr of
     Some (GWeak target cleared) \<Rightarrow>
       if cleared then (h, kept)
       else (let t = unat (heap_addr target) in
         if t \<noteq> 0 \<and> heap_find h t \<noteq> None \<and> \<not> is_marked h t then (clear_weak h addr, kept) else (h, kept @ [addr]))
   | _ \<Rightarrow> (h, kept)))"

definition clear_dead_weaks :: "gc_heap \<Rightarrow> gc_heap" where
  "clear_dead_weaks h =
     (if hp_weaks h = [] then h
      else case foldl retain_weak (h, []) (remdups_adj (sort (hp_weaks h))) of (h1, kept) \<Rightarrow> h1\<lparr>hp_weaks := kept\<rparr>)"

definition unlink_unmarked_interns :: "gc_heap \<Rightarrow> gc_heap" where
  "unlink_unmarked_interns h = h\<lparr>hp_strings := filter (is_marked h) (hp_strings h)\<rparr>"

text \<open>The objects that still owe their \<open>drop\<close>, and those the mark left unmarked.\<close>

definition retain_finalizable :: "gc_heap \<Rightarrow> nat list \<times> nat list \<Rightarrow> nat \<Rightarrow> nat list \<times> nat list" where
  "retain_finalizable h st addr = (case st of (out, kept) \<Rightarrow> (case heap_find h addr of
     None \<Rightarrow> (out, kept)
   | Some (GCoroutine co) \<Rightarrow>
       (let open = co_closeable co \<and> co_state co = CoSuspended in
        (if open \<and> \<not> is_marked h addr then out @ [addr] else out, if open then kept @ [addr] else kept))
   | Some (GInstance type_id finalized _) \<Rightarrow>
       if finalized \<or> \<not> has_finalizer h type_id then (out, kept)
       else (if \<not> is_marked h addr then out @ [addr] else out, kept @ [addr])
   | Some (GEnum _ type_id finalized _ _) \<Rightarrow>
       if finalized \<or> \<not> has_finalizer h type_id then (out, kept)
       else (if \<not> is_marked h addr then out @ [addr] else out, kept @ [addr])
   | Some _ \<Rightarrow> (out, kept)))"

definition unmarked_finalizable :: "gc_heap \<Rightarrow> nat list \<times> gc_heap" where
  "unmarked_finalizable h =
     (if hp_finalizable h = [] then ([], h)
      else case foldl (retain_finalizable h) ([], []) (remdups_adj (sort (hp_finalizable h))) of
        (out, kept) \<Rightarrow> (out, h\<lparr>hp_finalizable := kept\<rparr>))"

section \<open>The sweep\<close>

definition begin_sweep :: "gc_heap \<Rightarrow> gc_heap" where
  "begin_sweep h =
     (if hp_phase h = Sweeping then h
      else (unlink_unmarked_interns h)\<lparr>hp_phase := Sweeping, hp_sweep_start_bytes := hp_alloc_bytes h, hp_sweep_freed := 0,
              hp_cursor := Some cursor_sweep\<rparr>)"

definition dealloc_swept :: "gc_heap \<Rightarrow> nat \<Rightarrow> nat \<Rightarrow> slot_cursor \<Rightarrow> gc_heap \<times> slot_cursor" where
  "dealloc_swept h a bytes cur = (case free_at_cursor (hp_slab h) cur a of (slab', cur') \<Rightarrow>
     (h\<lparr>hp_alloc_bytes := hp_alloc_bytes h - bytes, hp_sweep_freed := hp_sweep_freed h + bytes, hp_live_count := hp_live_count h - 1,
        hp_slab := slab', hp_cells := (hp_cells h)(a := None)\<rparr>, cur'))"

text \<open>The next slot of the walk that holds an object.\<close>

partial_function (option) sweep_next :: "slab \<Rightarrow> (nat \<rightharpoonup> gc_cell) \<Rightarrow> slot_cursor \<Rightarrow> (nat \<times> slot_cursor) option option" where
  "sweep_next s cells cur = (case next_slot s cur of
     (None, _) \<Rightarrow> Some None
   | (Some a, cur') \<Rightarrow> if cells a \<noteq> None then Some (Some (a, cur')) else sweep_next s cells cur')"

definition sweep_one :: "gc_heap \<Rightarrow> gc_heap option" where
  "sweep_one h = (case hp_cursor h of
     None \<Rightarrow> Some h
   | Some cur \<Rightarrow> (case sweep_next (hp_slab h) (hp_cells h) cur of
       None \<Rightarrow> None
     | Some None \<Rightarrow> Some (h\<lparr>hp_cursor := None\<rparr>)
     | Some (Some (a, cur1)) \<Rightarrow>
         (let c = the (hp_cells h a);
              h1 = h\<lparr>hp_cells := (hp_cells h)(a \<mapsto> c\<lparr>cell_marked := False, cell_fresh := False\<rparr>)\<rparr> in
          if \<not> cell_marked c \<and> \<not> cell_fresh c
          then (case dealloc_swept h1 a (cell_size c) cur1 of (h2, cur2) \<Rightarrow> Some (h2\<lparr>hp_cursor := Some cur2\<rparr>))
          else Some (h1\<lparr>hp_cursor := Some cur1\<rparr>))))"

text \<open>The nursery holds no bytes. \<open>None\<close> is a panic of the scan for idle chunks.\<close>

definition finish_sweep_cycle :: "gc_heap \<Rightarrow> gc_heap option" where
  "finish_sweep_cycle h =
     (let growth = (if hp_sweep_start_bytes h < sat_mul (hp_alloc_bytes h) 2
                    then max (hp_growth_factor h) GC_GROWTH_FACTOR_SURVIVING else hp_growth_factor h);
          survived = min (hp_sweep_start_bytes h - hp_sweep_freed h) (hp_alloc_bytes h) in
      case release_idle_chunks (hp_slab h) of
        None \<Rightarrow> None
      | Some (_, slab') \<Rightarrow>
          Some (h\<lparr>hp_next_threshold := min (max (sat_mul survived growth) GC_NEXT_THRESHOLD) (hp_byte_cap h),
                 hp_slab := slab', hp_phase := Idle, hp_cursor := None\<rparr>))"

fun sweep_times :: "nat \<Rightarrow> gc_heap \<Rightarrow> (bool \<times> gc_heap) option" where
  "sweep_times 0 h = (if hp_cursor h = None then map_option (Pair True) (finish_sweep_cycle h) else Some (False, h))"
| "sweep_times (Suc n) h =
     (if hp_cursor h = None then map_option (Pair True) (finish_sweep_cycle h) else Option.bind (sweep_one h) (sweep_times n))"

definition sweep_quantum :: "gc_heap \<Rightarrow> nat \<Rightarrow> (bool \<times> gc_heap) option" where
  "sweep_quantum h n = (if hp_phase h \<noteq> Sweeping then Some (True, h) else sweep_times n h)"

partial_function (option) sweep_all :: "gc_heap \<Rightarrow> gc_heap option" where
  "sweep_all h = (if hp_cursor h = None then Some h else Option.bind (sweep_one h) sweep_all)"

definition finish_sweep :: "gc_heap \<Rightarrow> gc_heap option" where
  "finish_sweep h = (if hp_phase h \<noteq> Sweeping then Some h else Option.bind (sweep_all h) finish_sweep_cycle)"

definition gc_sweep_quantum :: "gc_heap \<Rightarrow> nat" where
  "gc_sweep_quantum h = (if hp_next_threshold h < hp_alloc_bytes h then sat_mul GC_SWEEP_QUANTUM 2 else GC_SWEEP_QUANTUM)"

section \<open>A whole collection\<close>

definition collect :: "gc_heap \<Rightarrow> u64 list \<Rightarrow> gc_heap option" where
  "collect h extra_roots =
     (if hp_epoch_stw h then Some h
      else Option.bind (if hp_phase h = Sweeping then finish_sweep h else Some h) (\<lambda>h1.
        (let root_addrs = take_gc_roots h1 @ extra_roots in
         Option.bind (if hp_phase h1 = Idle then Some (begin_mark h1 root_addrs) else mark_from_roots h1 root_addrs) (\<lambda>h2.
         Option.bind (mark_drain h2) (\<lambda>h3. finish_sweep (begin_sweep (clear_dead_weaks h3)))))))"

section \<open>The cursor of a sweep\<close>

definition cursor_live :: "slab \<Rightarrow> slot_cursor \<Rightarrow> bool" where
  "cursor_live s cur \<longleftrightarrow> cursor_ok s cur \<and> free_class_ok s cur \<and> cu_skip_young cur
     \<and> (0 < cu_remaining cur \<longrightarrow> cu_class cur = chunk_class (sb_chunks s ! cu_chunk cur))"

lemma enter_chunk_class:
  assumes "n \<le> length (sb_chunks s)" and "enter_chunk s cur n = (Some a, cur')"
  shows "cu_chunk cur' < length (sb_chunks s)" "cu_class cur' = chunk_class (sb_chunks s ! cu_chunk cur')" "cu_free_class cur' = 0"
proof -
  have "cu_chunk cur' < length (sb_chunks s) \<and> cu_class cur' = chunk_class (sb_chunks s ! cu_chunk cur') \<and> cu_free_class cur' = 0"
    using assms
  proof (induction n)
    case (Suc n)
    then have "get (sb_chunks s) n = Some (sb_chunks s ! n)"
      by simp
    then show ?case
      using Suc by (auto simp: Let_def simp del: get_Some_iff split: if_splits)
  qed simp
  then show "cu_chunk cur' < length (sb_chunks s)" "cu_class cur' = chunk_class (sb_chunks s ! cu_chunk cur')" "cu_free_class cur' = 0"
    by blast+
qed

lemma enter_chunk_slot:
  assumes "slab_ok s" and "n \<le> length (sb_chunks s)" and "enter_chunk s cur n = (Some a, cur')"
  shows "a \<in> set (chunk_slots (sb_chunks s ! cu_chunk cur'))"
  using assms(2,3)
proof (induction n)
  case (Suc n)
  let ?c = "sb_chunks s ! n"
  have c: "get (sb_chunks s) n = Some ?c"
    using Suc.prems by simp
  have slots: "set (chunk_slots ?c) = (\<lambda>k. ck_ptr ?c + unat (pm_first_off (ck_meta ?c)) + k * unat (pm_slot_size (ck_meta ?c))) `
      {..<(CHUNK - unat (pm_first_off (ck_meta ?c))) div unat (pm_slot_size (ck_meta ?c))}"
    by (auto simp: chunk_slots_def Let_def)
  show ?case
    using Suc c by (auto simp: Let_def slots simp del: get_Some_iff split: if_splits intro!: imageI)
qed simp

lemma next_slot_live:
  assumes ok: "slab_ok s" and cur: "cursor_live s cur" and n: "next_slot s cur = (Some a, cur')"
  shows "cursor_live s cur'" "slot_has_class s (cu_class cur') a" "walk_rest s cur = a # walk_rest s cur'"
proof -
  have walk: "walk_rest s cur = a # walk_rest s cur'" "cursor_ok s cur'" "cu_skip_young cur'"
    using next_slot_walk[OF ok, of cur] cur n by (auto simp: cursor_live_def)
  then show "walk_rest s cur = a # walk_rest s cur'"
    by simp
  have "cursor_live s cur' \<and> slot_has_class s (cu_class cur') a"
  proof (cases "cu_remaining cur = 0")
    case True
    let ?cur = "if \<not> cu_started cur then cur\<lparr>cu_started := True, cu_chunk := length (sb_chunks s)\<rparr> else cur"
    have e: "enter_chunk s ?cur (cu_chunk ?cur) = (Some a, cur')" "cu_chunk ?cur \<le> length (sb_chunks s)"
      using n True cur by (auto simp: next_slot_def enter_next_chunk_def Let_def cursor_live_def cursor_ok_def)
    note c = enter_chunk_class[OF e(2,1)]
    have "slot_has_class s (cu_class cur') a"
      using c enter_chunk_slot[OF ok e(2,1)] by (auto simp: slot_has_class_def)
    then show ?thesis
      using c walk by (simp add: cursor_live_def free_class_ok_def)
  next
    case False
    then have same: "a = cu_next cur" "cur' = cur\<lparr>cu_next := wrapping_sub (cu_next cur) (cu_slot_size cur), cu_remaining := cu_remaining cur - 1\<rparr>"
      using n by (auto simp: next_slot_def)
    let ?c = "sb_chunks s ! cu_chunk cur"
    have "?c \<in> set (sb_chunks s)" "a \<in> set (chunk_slots ?c)" "cu_class cur = chunk_class ?c"
      using cur False same(1) by (auto simp: cursor_live_def cursor_ok_def)
    then show ?thesis
      using walk cur same by (auto simp: cursor_live_def slot_has_class_def free_class_ok_def)
  qed
  then show "cursor_live s cur'" "slot_has_class s (cu_class cur') a"
    by auto
qed

lemma sweep_next_live:
  assumes ok: "slab_ok s" and cur: "cursor_live s cur"
  shows "\<exists>r. sweep_next s cells cur = Some r \<and> (case r of
      None \<Rightarrow> set (walk_rest s cur) \<inter> dom cells = {}
    | Some (a, cur') \<Rightarrow> a \<in> dom cells \<and> cursor_live s cur' \<and> slot_has_class s (cu_class cur') a
        \<and> (\<exists>skip. walk_rest s cur = skip @ a # walk_rest s cur' \<and> set skip \<inter> dom cells = {}))"
  using cur
proof (induction "length (walk_rest s cur)" arbitrary: cur rule: less_induct)
  case less
  show ?case
  proof (cases "next_slot s cur")
    case (Pair r cur')
    show ?thesis
    proof (cases r)
      case None
      then have "walk_rest s cur = []"
        using next_slot_walk[OF ok, of cur] less.prems Pair by (simp add: cursor_live_def)
      then show ?thesis
        using Pair None by (subst sweep_next.simps) simp
    next
      case (Some a)
      note n = next_slot_live[OF ok less.prems, of a cur'] Pair[unfolded Some]
      show ?thesis
      proof (cases "a \<in> dom cells")
        case True
        then have "sweep_next s cells cur = Some (Some (a, cur'))"
          using n(4) by (subst sweep_next.simps) auto
        then show ?thesis
          using n True by (intro exI[of _ "Some (a, cur')"]) auto
      next
        case False
        have "sweep_next s cells cur = sweep_next s cells cur'"
          using n(4) False by (subst sweep_next.simps) (auto simp: domIff)
        moreover obtain r' where "sweep_next s cells cur' = Some r'" and r': "case r' of
            None \<Rightarrow> set (walk_rest s cur') \<inter> dom cells = {}
          | Some (b, cur'') \<Rightarrow> b \<in> dom cells \<and> cursor_live s cur'' \<and> slot_has_class s (cu_class cur'') b
              \<and> (\<exists>skip. walk_rest s cur' = skip @ b # walk_rest s cur'' \<and> set skip \<inter> dom cells = {})"
          using less.hyps[of cur'] n by auto
        moreover have "case r' of
            None \<Rightarrow> set (walk_rest s cur) \<inter> dom cells = {}
          | Some (b, cur'') \<Rightarrow> b \<in> dom cells \<and> cursor_live s cur'' \<and> slot_has_class s (cu_class cur'') b
              \<and> (\<exists>skip. walk_rest s cur = skip @ b # walk_rest s cur'' \<and> set skip \<inter> dom cells = {})"
        proof (cases r')
          case None
          then show ?thesis
            using r' n False by auto
        next
          case (Some p)
          then obtain b cur'' skip where p: "p = (b, cur'')" "walk_rest s cur' = skip @ b # walk_rest s cur''" "set skip \<inter> dom cells = {}"
            using r' by (cases p) auto
          then have "walk_rest s cur = (a # skip) @ b # walk_rest s cur''" "set (a # skip) \<inter> dom cells = {}"
            using n False by auto
          then show ?thesis
            using r' Some p by auto
        qed
        ultimately show ?thesis
          by auto
      qed
    qed
  qed
qed

lemma walk_chunks_distinct:
  assumes "slab_ok s" and "n \<le> length (sb_chunks s)"
  shows "distinct (walk_chunks s cur n)"
  unfolding walk_chunks_def
proof (rule distinct_concat_map)
  show "distinct (rev (chunk_slots (sb_chunks s ! i)))" if "i \<in> set (filter (\<lambda>i. \<not> walk_skips s cur i) (rev [0..<n]))" for i
    using that assms chunk_slots_sorted[of "sb_chunks s ! i"] by (auto simp: slab_ok_def strict_sorted_iff)
qed (use assms chunk_slots_apart[OF assms(1)] in auto)

lemma walk_rest_distinct:
  assumes ok: "slab_ok s" and cur: "cursor_ok s cur"
  shows "distinct (walk_rest s cur)"
proof (cases "cu_started cur \<and> 0 < cu_remaining cur")
  case True
  let ?c = "sb_chunks s ! cu_chunk cur"
  have c: "cu_chunk cur < length (sb_chunks s)"
    using True cur by (auto simp: cursor_ok_def)
  then have "distinct (chunk_slots ?c)"
    using ok chunk_slots_sorted[of ?c] by (auto simp: slab_ok_def strict_sorted_iff)
  moreover have "set (chunk_slots ?c) \<inter> set (walk_chunks s cur (cu_chunk cur)) = {}"
  proof -
    have "p \<notin> set (chunk_slots (sb_chunks s ! j))" if "p \<in> set (chunk_slots ?c)" "j < cu_chunk cur" for p j
      using that chunk_slots_apart[OF ok c, of j] c by auto
    then show ?thesis
      by (auto simp: walk_chunks_def)
  qed
  moreover have "set (take k (chunk_slots ?c)) \<subseteq> set (chunk_slots ?c)" for k
    by (rule set_take_subset)
  ultimately show ?thesis
    using True walk_chunks_distinct[OF ok, of "cu_chunk cur" cur] c unfolding walk_rest_def by auto
next
  case False
  then show ?thesis
    using walk_chunks_distinct[OF ok] cur by (auto simp: walk_rest_def cursor_ok_def)
qed

section \<open>What a sweep keeps\<close>

text \<open>The slots a sweep in progress has not come to, and the objects it will leave alone.\<close>

definition pending :: "gc_heap \<Rightarrow> nat set" where
  "pending h = (case hp_cursor h of None \<Rightarrow> {} | Some cur \<Rightarrow> set (walk_rest (hp_slab h) cur))"

definition guarded :: "gc_heap \<Rightarrow> nat set" where
  "guarded h = {a. \<exists>c. hp_cells h a = Some c \<and> (cell_marked c \<or> cell_fresh c)}"

definition kept :: "gc_heap \<Rightarrow> nat set" where
  "kept h = dom (hp_cells h) - (pending h - guarded h)"

definition heap_bytes :: "(nat \<rightharpoonup> gc_cell) \<Rightarrow> nat" where
  "heap_bytes cells = (\<Sum>a \<in> dom cells. cell_size (the (cells a)))"

definition heap_base :: "gc_heap \<Rightarrow> bool" where
  "heap_base h \<longleftrightarrow> slab_inv (hp_slab h) (dom (hp_cells h)) \<and> classes_fit (hp_slab h) \<and> (\<forall>i. \<not> is_young_chunk (hp_slab h) i)
     \<and> (\<forall>c \<in> set (sb_chunks (hp_slab h)). 0 < ck_ptr c)
     \<and> hp_alloc_bytes h = heap_bytes (hp_cells h) \<and> hp_live_count h = card (dom (hp_cells h)) \<and> finite (dom (hp_cells h))"

definition sweep_inv :: "gc_heap \<Rightarrow> bool" where
  "sweep_inv h \<longleftrightarrow> heap_base h \<and> hp_phase h = Sweeping \<and> guarded h \<subseteq> pending h
     \<and> (case hp_cursor h of None \<Rightarrow> True | Some cur \<Rightarrow> cursor_live (hp_slab h) cur)"

definition idle_inv :: "gc_heap \<Rightarrow> bool" where
  "idle_inv h \<longleftrightarrow> heap_base h \<and> hp_phase h = Idle \<and> guarded h = {} \<and> hp_cursor h = None"

definition settle :: "gc_cell \<Rightarrow> gc_cell" where
  "settle c = c\<lparr>cell_marked := False, cell_fresh := False\<rparr>"

text \<open>What a sweep leaves as it is.\<close>

definition swept :: "gc_heap \<Rightarrow> gc_heap \<Rightarrow> bool" where
  "swept h h' \<longleftrightarrow> kept h' = kept h \<and> (\<forall>a \<in> kept h. map_option settle (hp_cells h' a) = map_option settle (hp_cells h a))
     \<and> dom (hp_cells h') \<subseteq> dom (hp_cells h) \<and> (\<forall>a \<in> dom (hp_cells h'). map_option settle (hp_cells h' a) = map_option settle (hp_cells h a))
     \<and> sb_table (hp_slab h') = sb_table (hp_slab h)
     \<and> h'\<lparr>hp_cells := Map.empty, hp_slab := slab_new, hp_alloc_bytes := 0, hp_live_count := 0, hp_sweep_freed := 0, hp_cursor := None,
          hp_phase := Idle, hp_next_threshold := 0\<rparr>
       = h\<lparr>hp_cells := Map.empty, hp_slab := slab_new, hp_alloc_bytes := 0, hp_live_count := 0, hp_sweep_freed := 0, hp_cursor := None,
          hp_phase := Idle, hp_next_threshold := 0\<rparr>"

lemma swept_refl: "swept h h"
  by (simp add: swept_def)

lemma swept_trans:
  assumes "swept h h'" and "swept h' h''"
  shows "swept h h''"
proof -
  have "map_option settle (hp_cells h'' a) = map_option settle (hp_cells h a)" if "a \<in> dom (hp_cells h'')" for a
    using assms that unfolding swept_def by (metis (no_types, lifting) subsetD)
  then show ?thesis
    using assms unfolding swept_def by (metis (no_types, lifting) order_trans)
qed

lemma heap_base_ok: "heap_base h \<Longrightarrow> slab_ok (hp_slab h)"
  by (simp add: heap_base_def slab_inv_def)

lemma heap_bytes_remove:
  assumes "finite (dom cells)" and "cells a = Some c"
  shows "heap_bytes cells = cell_size c + heap_bytes (cells(a := None))"
proof -
  have "heap_bytes cells = cell_size c + (\<Sum>b \<in> dom cells - {a}. cell_size (the (cells b)))"
    unfolding heap_bytes_def using assms by (subst sum.remove[of _ a]) (auto simp: domIff)
  moreover have "(\<Sum>b \<in> dom cells - {a}. cell_size (the (cells b))) = heap_bytes (cells(a := None))"
    unfolding heap_bytes_def by (rule sum.cong) auto
  ultimately show ?thesis
    by simp
qed

lemma heap_bytes_settle:
  assumes "cells a = Some c" and "cell_size c' = cell_size c"
  shows "heap_bytes (cells(a \<mapsto> c')) = heap_bytes cells"
  unfolding heap_bytes_def using assms by (intro sum.cong) auto

lemma walk_rest_free:
  "walk_rest (s\<lparr>sb_free := f\<rparr>) (cur\<lparr>cu_free_class := i\<rparr>) = walk_rest s cur"
  "cursor_ok (s\<lparr>sb_free := f\<rparr>) (cur\<lparr>cu_free_class := i\<rparr>) = cursor_ok s cur"
  by (simp_all add: walk_rest_def walk_chunks_def cursor_ok_def walk_skips_def is_released_def is_young_chunk_def)

lemma sweep_one_end:
  assumes inv: "sweep_inv h" and cur: "hp_cursor h = Some cur" and n: "sweep_next (hp_slab h) (hp_cells h) cur = Some None"
    and rest: "set (walk_rest (hp_slab h) cur) \<inter> dom (hp_cells h) = {}"
  shows "sweep_one h = Some (h\<lparr>hp_cursor := None\<rparr>)" "sweep_inv (h\<lparr>hp_cursor := None\<rparr>)" "swept h (h\<lparr>hp_cursor := None\<rparr>)"
proof -
  show "sweep_one h = Some (h\<lparr>hp_cursor := None\<rparr>)"
    by (simp add: sweep_one_def cur n)
  have g: "guarded h = {}"
    using inv rest cur by (auto simp: sweep_inv_def pending_def guarded_def)
  have same: "guarded (h\<lparr>hp_cursor := None\<rparr>) = guarded h" "kept (h\<lparr>hp_cursor := None\<rparr>) = kept h"
    using rest cur by (auto simp: guarded_def kept_def pending_def)
  show "sweep_inv (h\<lparr>hp_cursor := None\<rparr>)"
    using inv g same by (simp add: sweep_inv_def heap_base_def)
  show "swept h (h\<lparr>hp_cursor := None\<rparr>)"
    by (simp add: swept_def same)
qed

text \<open>One object visited: unmarked when it is marked or fresh, freed otherwise.\<close>

lemma sweep_one_visit:
  assumes inv: "sweep_inv h" and cur: "hp_cursor h = Some cur" and n: "sweep_next (hp_slab h) (hp_cells h) cur = Some (Some (a, cur1))"
    and a: "hp_cells h a = Some c" and live: "cursor_live (hp_slab h) cur1" "slot_has_class (hp_slab h) (cu_class cur1) a"
    and rest: "walk_rest (hp_slab h) cur = skip @ a # walk_rest (hp_slab h) cur1" "set skip \<inter> dom (hp_cells h) = {}"
  shows "\<exists>h'. sweep_one h = Some h' \<and> sweep_inv h' \<and> swept h h'
    \<and> (\<exists>cur'. hp_cursor h' = Some cur' \<and> walk_rest (hp_slab h') cur' = walk_rest (hp_slab h) cur1)"
proof -
  let ?h1 = "h\<lparr>hp_cells := (hp_cells h)(a \<mapsto> settle c)\<rparr>"
  have base: "heap_base h" and g: "guarded h \<subseteq> pending h"
    using inv by (auto simp: sweep_inv_def)
  have "distinct (walk_rest (hp_slab h) cur)"
    using walk_rest_distinct[OF heap_base_ok[OF base]] inv cur by (auto simp: sweep_inv_def cursor_live_def)
  then have new: "a \<notin> set (walk_rest (hp_slab h) cur1)"
    using rest(1) by simp
  have pend: "pending h = set skip \<union> insert a (set (walk_rest (hp_slab h) cur1))"
    by (simp add: pending_def cur rest(1))
  have gdom: "guarded h \<subseteq> dom (hp_cells h)"
    by (auto simp: guarded_def)
  show ?thesis
  proof (cases "cell_marked c \<or> cell_fresh c")
    case True
    let ?h = "?h1\<lparr>hp_cursor := Some cur1\<rparr>"
    have "sweep_one h = Some ?h"
      using True a n cur by (auto simp: sweep_one_def Let_def settle_def)
    moreover have p: "pending ?h = set (walk_rest (hp_slab h) cur1)" and gd: "guarded ?h = guarded h - {a}"
      by (auto simp: pending_def guarded_def settle_def split: if_splits)
    moreover have k: "kept ?h = kept h"
      using pend p gd new rest(2) a True unfolding kept_def by (auto simp: guarded_def)
    moreover have "guarded ?h \<subseteq> pending ?h"
      using gd g gdom unfolding p pend using rest(2) by blast
    moreover have "heap_base ?h"
      using base heap_bytes_settle[of "hp_cells h" a c "settle c"] a by (simp add: heap_base_def insert_absorb domI settle_def)
    moreover have "sweep_inv ?h"
      using calculation inv live(1) by (simp add: sweep_inv_def)
    moreover have "swept h ?h"
      using a by (auto simp: swept_def k) (auto simp: settle_def)
    ultimately show ?thesis
      by auto
  next
    case False
    obtain s' cur' where f: "free_at_cursor (hp_slab h) cur1 a = (s', cur')"
      by fastforce
    have "a \<in> dom (hp_cells h)" "free_class_ok (hp_slab h) cur1" and inv0: "slab_inv (hp_slab h) (dom (hp_cells h))"
      using a live(1) base by (auto simp: cursor_live_def heap_base_def)
    note f' = free_at_cursor_inv[OF inv0 this(1) live(2) this(2) f]
    obtain free i where s': "s' = (hp_slab h)\<lparr>sb_free := free\<rparr>" "cur' = cur1\<lparr>cu_free_class := i\<rparr>"
      using f'(3,4) by blast
    let ?h = "h\<lparr>hp_alloc_bytes := hp_alloc_bytes h - cell_size c, hp_sweep_freed := hp_sweep_freed h + cell_size c,
        hp_live_count := hp_live_count h - 1, hp_slab := s', hp_cells := (hp_cells h)(a := None), hp_cursor := Some cur'\<rparr>"
    have "sweep_one h = Some ?h"
      using False a n cur f by (simp add: sweep_one_def dealloc_swept_def Let_def)
    moreover have rest': "walk_rest s' cur' = walk_rest (hp_slab h) cur1"
      unfolding s' by (rule walk_rest_free)
    moreover have p: "pending ?h = set (walk_rest (hp_slab h) cur1)" and gd: "guarded ?h = guarded h" and na: "a \<notin> guarded h"
      using rest' False a by (auto simp: pending_def guarded_def split: if_splits)
    moreover have k: "kept ?h = kept h"
      using pend p gd new rest(2) a na unfolding kept_def by auto
    moreover have "heap_base ?h"
    proof -
      have "fst (cu_class cur1) \<noteq> 0" "unat (fst (cu_class cur1)) \<le> CHUNK"
        using live(2) heap_base_ok[OF base] unfolding slot_has_class_def slab_ok_def by (metis chunk_class_fits)+
      then have "classes_fit s'"
        using free_at_cursor_fit[of "hp_slab h" cur1 a] base f by (simp add: heap_base_def)
      then show ?thesis
        using f'(1) base heap_bytes_remove[of "hp_cells h" a c] a domI[of "hp_cells h" a c]
        by (auto simp: heap_base_def s' is_young_chunk_def card_Diff_singleton)
    qed
    moreover have "cursor_live s' cur'"
      using live(1) f'(2) walk_rest_free(2)[where s = "hp_slab h" and f = free and cur = cur1 and i = i] by (simp add: cursor_live_def s')
    moreover have "guarded ?h \<subseteq> pending ?h"
      using g gdom na unfolding gd p pend using rest(2) by blast
    moreover have "sweep_inv ?h"
      using calculation inv by (simp add: sweep_inv_def)
    moreover have "swept h ?h"
      using k na a rest(1) cur by (auto simp: swept_def s' kept_def pending_def)
    ultimately show ?thesis
      by auto
  qed
qed

lemma sweep_one_step:
  assumes inv: "sweep_inv h" and cur: "hp_cursor h = Some cur"
  shows "\<exists>h'. sweep_one h = Some h' \<and> sweep_inv h' \<and> swept h h' \<and> (case hp_cursor h' of
      None \<Rightarrow> True
    | Some cur' \<Rightarrow> length (walk_rest (hp_slab h') cur') < length (walk_rest (hp_slab h) cur))"
proof -
  have ok: "slab_ok (hp_slab h)" "cursor_live (hp_slab h) cur"
    using inv cur heap_base_ok by (auto simp: sweep_inv_def)
  obtain r where n: "sweep_next (hp_slab h) (hp_cells h) cur = Some r" and r: "case r of
      None \<Rightarrow> set (walk_rest (hp_slab h) cur) \<inter> dom (hp_cells h) = {}
    | Some (a, cur') \<Rightarrow> a \<in> dom (hp_cells h) \<and> cursor_live (hp_slab h) cur' \<and> slot_has_class (hp_slab h) (cu_class cur') a
        \<and> (\<exists>skip. walk_rest (hp_slab h) cur = skip @ a # walk_rest (hp_slab h) cur' \<and> set skip \<inter> dom (hp_cells h) = {})"
    using sweep_next_live[OF ok] by blast
  show ?thesis
  proof (cases r)
    case None
    then show ?thesis
      using sweep_one_end[OF inv cur] n r by auto
  next
    case (Some p)
    then obtain a cur1 skip c where p: "p = (a, cur1)" "hp_cells h a = Some c" "cursor_live (hp_slab h) cur1"
      "slot_has_class (hp_slab h) (cu_class cur1) a" "walk_rest (hp_slab h) cur = skip @ a # walk_rest (hp_slab h) cur1"
      "set skip \<inter> dom (hp_cells h) = {}"
      using r by (cases p) auto
    obtain h' cur' where "sweep_one h = Some h'" "sweep_inv h'" "swept h h'" "hp_cursor h' = Some cur'"
      "walk_rest (hp_slab h') cur' = walk_rest (hp_slab h) cur1"
      using sweep_one_visit[OF inv cur n[unfolded Some p(1)] p(2-6)] by blast
    then show ?thesis
      using p(5) by (intro exI[of _ h']) simp
  qed
qed

text \<open>The sweep ends, whatever the number of objects a quantum visits.\<close>

lemma sweep_all_ends:
  assumes "sweep_inv h"
  shows "\<exists>h'. sweep_all h = Some h' \<and> sweep_inv h' \<and> swept h h' \<and> hp_cursor h' = None"
  using assms
proof (induction "case hp_cursor h of None \<Rightarrow> 0 | Some cur \<Rightarrow> Suc (length (walk_rest (hp_slab h) cur))" arbitrary: h rule: less_induct)
  case less
  show ?case
  proof (cases "hp_cursor h")
    case None
    then show ?thesis
      using less.prems swept_refl by (subst sweep_all.simps) simp
  next
    case (Some cur)
    obtain h1 where h1: "sweep_one h = Some h1" "sweep_inv h1" "swept h h1" "case hp_cursor h1 of
        None \<Rightarrow> True
      | Some cur' \<Rightarrow> length (walk_rest (hp_slab h1) cur') < length (walk_rest (hp_slab h) cur)"
      using sweep_one_step[OF less.prems Some] by blast
    then have "(case hp_cursor h1 of None \<Rightarrow> 0 | Some cur \<Rightarrow> Suc (length (walk_rest (hp_slab h1) cur)))
      < (case hp_cursor h of None \<Rightarrow> 0 | Some cur \<Rightarrow> Suc (length (walk_rest (hp_slab h) cur)))"
      using Some by (auto split: option.splits)
    from less.hyps[OF this h1(2)] obtain h' where "sweep_all h1 = Some h'" "sweep_inv h'" "swept h1 h'" "hp_cursor h' = None"
      by blast
    then show ?thesis
      using h1 Some swept_trans by (subst sweep_all.simps) auto
  qed
qed

lemma gave_back_fields:
  assumes "gave_back s live R s'"
  shows "sb_table s' = sb_table s" "is_young_chunk s' = is_young_chunk s" "slab_inv s' live"
  using assms by (auto simp: gave_back_def is_young_chunk_def fun_eq_iff)

lemma finish_sweep_cycle_inv:
  assumes inv: "sweep_inv h" and cur: "hp_cursor h = None"
  shows "\<exists>h'. finish_sweep_cycle h = Some h' \<and> idle_inv h' \<and> swept h h' \<and> dom (hp_cells h') = kept h
    \<and> hp_next_threshold h' \<le> hp_byte_cap h' \<and> (GC_NEXT_THRESHOLD \<le> hp_byte_cap h' \<longrightarrow> GC_NEXT_THRESHOLD \<le> hp_next_threshold h')"
proof -
  have base: "slab_inv (hp_slab h) (dom (hp_cells h))" "classes_fit (hp_slab h)"
    using inv by (auto simp: sweep_inv_def heap_base_def)
  obtain b s' R where r: "release_idle_chunks (hp_slab h) = Some (b, s')" "gave_back (hp_slab h) (dom (hp_cells h)) R s'" "classes_fit s'"
    using release_idle_chunks_inv[OF base] by blast
  note f = gave_back_fields[OF r(2)]
  define growth where "growth = (if hp_sweep_start_bytes h < sat_mul (hp_alloc_bytes h) 2
                    then max (hp_growth_factor h) GC_GROWTH_FACTOR_SURVIVING else hp_growth_factor h)"
  define survived where "survived = min (hp_sweep_start_bytes h - hp_sweep_freed h) (hp_alloc_bytes h)"
  let ?h = "h\<lparr>hp_next_threshold := min (max (sat_mul survived growth) GC_NEXT_THRESHOLD) (hp_byte_cap h),
    hp_slab := s', hp_phase := Idle, hp_cursor := None\<rparr>"
  have "finish_sweep_cycle h = Some ?h"
    by (simp add: finish_sweep_cycle_def Let_def r(1) growth_def survived_def)
  moreover have g: "guarded h = {}" "guarded ?h = {}"
    using inv cur by (auto simp: sweep_inv_def pending_def guarded_def)
  moreover have k: "kept h = dom (hp_cells h)" "kept ?h = kept h"
    using cur by (auto simp: kept_def pending_def)
  moreover have "idle_inv ?h"
    using inv f r(3) g by (simp add: idle_inv_def sweep_inv_def heap_base_def)
  moreover have "swept h ?h"
    using k f(1) by (simp add: swept_def)
  ultimately show ?thesis
    by (intro exI[of _ ?h]) simp
qed

lemma finish_sweep_ends:
  assumes "sweep_inv h"
  shows "\<exists>h'. finish_sweep h = Some h' \<and> idle_inv h' \<and> swept h h' \<and> dom (hp_cells h') = kept h
    \<and> hp_next_threshold h' \<le> hp_byte_cap h'"
proof -
  obtain h1 where h1: "sweep_all h = Some h1" "sweep_inv h1" "swept h h1" "hp_cursor h1 = None"
    using sweep_all_ends[OF assms] by blast
  obtain h' where h': "finish_sweep_cycle h1 = Some h'" "idle_inv h'" "swept h1 h'" "dom (hp_cells h') = kept h1" "hp_next_threshold h' \<le> hp_byte_cap h'"
    using finish_sweep_cycle_inv[OF h1(2,4)] by blast
  then have "finish_sweep h = Some h'" "kept h1 = kept h"
    using assms h1 by (auto simp: finish_sweep_def sweep_inv_def swept_def)
  then show ?thesis
    using h' swept_trans[OF h1(3)] by auto
qed

lemma sweep_times_inv:
  assumes "sweep_inv h"
  shows "\<exists>done h'. sweep_times n h = Some (done, h') \<and> swept h h' \<and> (if done then idle_inv h' \<and> dom (hp_cells h') = kept h else sweep_inv h')"
  using assms
proof (induction n arbitrary: h)
  case (Suc n)
  show ?case
  proof (cases "hp_cursor h")
    case None
    then show ?thesis
      using finish_sweep_cycle_inv[OF Suc.prems None] by auto
  next
    case (Some cur)
    obtain h1 where h1: "sweep_one h = Some h1" "sweep_inv h1" "swept h h1"
      using sweep_one_step[OF Suc.prems Some] by blast
    obtain d h' where h': "sweep_times n h1 = Some (d, h')" "swept h1 h'" "if d then idle_inv h' \<and> dom (hp_cells h') = kept h1 else sweep_inv h'"
      using Suc.IH[OF h1(2)] by blast
    have "sweep_times (Suc n) h = Some (d, h')" "kept h1 = kept h"
      using Some h1 h'(1) by (auto simp: swept_def)
    then show ?thesis
      using h' swept_trans[OF h1(3) h'(2)] by (intro exI[of _ d] exI[of _ h']) simp
  qed
next
  case 0
  then show ?case
    using finish_sweep_cycle_inv[OF "0"] swept_refl by (cases "hp_cursor h") auto
qed

section \<open>References of a sound heap\<close>

lemma heap_dom_slot:
  assumes "heap_base h" and "a \<in> dom (hp_cells h)"
  shows "a \<noteq> 0" "contains_slot (hp_slab h) recent a" "table_may_contain (sb_table (hp_slab h)) a" "a < 2 ^ 48"
proof -
  have ok: "slab_ok (hp_slab h)"
    by (rule heap_base_ok[OF assms(1)])
  have "a \<in> old_slots (hp_slab h)"
    using assms by (auto simp: heap_base_def slab_inv_def)
  then obtain c where c: "c \<in> set (sb_chunks (hp_slab h))" "a \<in> set (chunk_slots c)"
    using nth_mem by (fastforce simp: old_slots_def)
  then have in_c: "in_chunk c a" "0 < ck_ptr c" "ck_ptr c + CHUNK \<le> 2 ^ 48" "ct_lo (sb_table (hp_slab h)) \<le> ck_ptr c"
    "ck_ptr c + CHUNK \<le> ct_hi (sb_table (hp_slab h))"
    using ok assms(1) chunk_slots_iff by (auto simp: slab_ok_def table_ok_def heap_base_def)
  then show "a \<noteq> 0" "table_may_contain (sb_table (hp_slab h)) a" "a < 2 ^ 48"
    by (auto simp: in_chunk_def table_may_contain_def)
  show "contains_slot (hp_slab h) recent a"
    using contains_slot_iff[OF ok] c by blast
qed

lemma heap_find_base: "heap_base h \<Longrightarrow> heap_find h a = map_option cell_obj (hp_cells h a)"
  using heap_dom_slot[of h a] by (cases "hp_cells h a") (auto simp: heap_find_def domIff)

lemma value_marks_base: "heap_base h \<Longrightarrow> value_marks h v = (let a = unat (heap_addr v) in if a \<in> dom (hp_cells h) then [(True, a)] else [])"
  using heap_dom_slot(1)[of h "unat (heap_addr v)"] by (auto simp: value_marks_def heap_find_base Let_def domIff)

lemma array_hit_base:
  assumes "heap_base h"
  shows "(if array_hit h k v then value_marks h v else []) = value_marks h v"
proof (cases "unat (heap_addr v) \<in> dom (hp_cells h)")
  case True
  note d = heap_dom_slot[OF assms True]
  then have "array_hit h k v"
    by (auto simp: array_hit_def heap_may_be_ref_def Let_def unat_eq_zero unat_gt_0)
  then show ?thesis
    by simp
qed (simp add: value_marks_base[OF assms])

text \<open>Over two sound heaps with the same word kinds an object keeps the same things alive, as far as they exist.\<close>

lemma object_marks_transfer:
  assumes h: "heap_base h" "heap_base h'" and same: "hp_class_kinds h' = hp_class_kinds h" "hp_freed_early h' = hp_freed_early h"
    and m: "(g, b) \<in> set (object_marks h' obj)" and b: "b \<in> dom (hp_cells h') \<Longrightarrow> b \<in> dom (hp_cells h)"
  shows "(g, b) \<in> set (object_marks h obj)"
proof -
  have v: "(g, b) \<in> set (value_marks h v)" if "(g, b) \<in> set (value_marks h' v)" for v
    using that b by (auto simp: value_marks_base[OF h(1)] value_marks_base[OF h(2)] Let_def split: if_splits)
  have mm: "(g, b) \<in> set (member_marks h m)" if "(g, b) \<in> set (member_marks h' m)" for m
    using that v same by (auto simp: member_marks_def split: member.splits if_splits)
  have k: "(g, b) \<in> set (kinded_marks h P ws)" if "(g, b) \<in> set (kinded_marks h' P ws)" for P ws
    using that v by (fastforce simp: kinded_marks_def split: if_splits)
  have c: "class_field_kinds h' = class_field_kinds h"
    using same by (simp add: class_field_kinds_def fun_eq_iff)
  have t: "(g, b) \<in> set (concat (map (\<lambda>(k, m). (False, k) # member_marks h m) table))"
    if "(g, b) \<in> set (concat (map (\<lambda>(k, m). (False, k) # member_marks h' m) table))" for table
    using that mm by fastforce
  show ?thesis
  proof (cases obj)
    case (GInstance x1 x2 st)
    then show ?thesis
      using m k t c by (cases st) (auto simp: object_marks_def storage_slots_def simp del: set_concat set_map)
  next
    case (GArray d r x)
    then show ?thesis
      using m v array_hit_base[OF h(1)] array_hit_base[OF h(2)] by (auto simp: object_marks_def split: if_splits)
  next
    case (GRoot x)
    then show ?thesis
      using m mm by (cases x) (auto simp: object_marks_def)
  next
    case (GFn x y z)
    then show ?thesis
      using m v mm by (simp add: object_marks_def) blast
  qed (use m k v mm in \<open>auto simp: object_marks_def\<close>)
qed

lemma edge_dom: "gc_edge h a b \<Longrightarrow> a \<in> dom (hp_cells h) \<and> b \<in> dom (hp_cells h)"
  by (cases "hp_cells h a") (auto simp: gc_edge_def cell_refs_def)

definition string_at :: "gc_heap \<Rightarrow> nat \<Rightarrow> bool" where
  "string_at h k \<longleftrightarrow> (\<exists>c s. hp_cells h k = Some c \<and> cell_obj c = GString s)"

definition keys_strings :: "nat set \<Rightarrow> gc_heap \<Rightarrow> bool" where
  "keys_strings S h \<longleftrightarrow> (\<forall>a \<in> S. \<forall>k. (False, k) \<in> set (cell_refs h a) \<longrightarrow> string_at h k)"

lemma keys_strings_ok:
  assumes "keys_strings (dom (hp_cells h)) h"
  shows "keys_ok h"
  unfolding keys_ok_def
proof (intro allI impI)
  fix a k assume k: "(False, k) \<in> set (cell_refs h a)"
  then have "a \<in> dom (hp_cells h)"
    by (cases "hp_cells h a") (auto simp: cell_refs_def)
  then have "string_at h k"
    using assms k by (auto simp: keys_strings_def)
  then show "cell_refs h k = []"
    by (auto simp: string_at_def cell_refs_def object_marks_def)
qed

section \<open>Weak handles\<close>

definition weak_target :: "gc_heap \<Rightarrow> nat \<Rightarrow> nat option" where
  "weak_target h a = (case hp_cells h a of
     None \<Rightarrow> None
   | Some c \<Rightarrow> (case cell_obj c of GWeak t cleared \<Rightarrow> if cleared then None else Some (unat (heap_addr t)) | _ \<Rightarrow> None))"

definition dead_weak :: "gc_heap \<Rightarrow> nat \<Rightarrow> bool" where
  "dead_weak h a \<longleftrightarrow> (\<exists>t. weak_target h a = Some t \<and> t \<in> dom (hp_cells h) - marked h)"

definition clear_weaks :: "nat set \<Rightarrow> gc_heap \<Rightarrow> gc_heap" where
  "clear_weaks S h = h\<lparr>hp_cells := (\<lambda>a. if a \<in> S \<and> dead_weak h a then map_option (\<lambda>c. c\<lparr>cell_obj := GWeak 0 True\<rparr>) (hp_cells h a) else hp_cells h a)\<rparr>"

definition weaks_ok :: "gc_heap \<Rightarrow> bool" where
  "weaks_ok h \<longleftrightarrow> (\<forall>a t. weak_target h a = Some t \<longrightarrow> a \<in> set (hp_weaks h))"

lemma is_marked_iff: "is_marked h a \<longleftrightarrow> a \<in> marked h"
  by (auto simp: is_marked_def marked_def split: option.splits)

lemma clear_weaks_bits:
  "dom (hp_cells (clear_weaks S h)) = dom (hp_cells h)" "marked (clear_weaks S h) = marked h" "guarded (clear_weaks S h) = guarded h"
  "hp_slab (clear_weaks S h) = hp_slab h" "heap_bytes (hp_cells (clear_weaks S h)) = heap_bytes (hp_cells h)"
  "cell_refs (clear_weaks S h) a = cell_refs h a" "string_at (clear_weaks S h) a \<longleftrightarrow> string_at h a"
proof -
  let ?h = "clear_weaks S h"
  have cell: "hp_cells ?h a = (if a \<in> S \<and> dead_weak h a then map_option (\<lambda>c. c\<lparr>cell_obj := GWeak 0 True\<rparr>) (hp_cells h a) else hp_cells h a)" for a
    by (simp add: clear_weaks_def)
  show d: "dom (hp_cells ?h) = dom (hp_cells h)"
    using cell by (auto simp: dom_def)
  show "marked ?h = marked h" "guarded ?h = guarded h"
    by (auto simp: marked_def guarded_def cell)
  show slab: "hp_slab ?h = hp_slab h"
    by (simp add: clear_weaks_def)
  show "heap_bytes (hp_cells ?h) = heap_bytes (hp_cells h)"
    unfolding heap_bytes_def d by (rule sum.cong) (auto simp: cell)
  have "mark_env ?h = mark_env h"
    using d by (simp add: mark_env_def clear_weaks_def)
  from marks_of_env(6)[OF this] show "cell_refs ?h a = cell_refs h a"
    by (cases "hp_cells h a") (auto simp: cell_refs_def cell object_marks_def[of _ "GWeak _ _"] dead_weak_def weak_target_def split: gc_object.splits if_splits)
  show "string_at ?h a \<longleftrightarrow> string_at h a"
    by (auto simp: string_at_def cell dead_weak_def weak_target_def split: gc_object.splits if_splits option.splits)
qed

lemma clear_weaks_base: "heap_base (clear_weaks S h) \<longleftrightarrow> heap_base h"
  unfolding heap_base_def by (simp add: clear_weaks_bits) (simp add: clear_weaks_def)

lemma clear_weaks_target:
  "weak_target (clear_weaks S h) a = (if a \<in> S \<and> dead_weak h a then None else weak_target h a)"
  "dead_weak (clear_weaks S h) a \<longleftrightarrow> dead_weak h a \<and> a \<notin> S"
proof -
  show t: "weak_target (clear_weaks S h) a = (if a \<in> S \<and> dead_weak h a then None else weak_target h a)"
    by (cases "hp_cells h a") (auto simp: weak_target_def clear_weaks_def)
  show "dead_weak (clear_weaks S h) a \<longleftrightarrow> dead_weak h a \<and> a \<notin> S"
    unfolding dead_weak_def[of "clear_weaks S h"] clear_weaks_bits t by (auto simp: dead_weak_def)
qed

lemma clear_weaks_insert: "clear_weaks (insert a S) h = (if dead_weak h a \<and> a \<notin> S then clear_weak (clear_weaks S h) a else clear_weaks S h)"
proof -
  have "hp_cells (clear_weaks (insert a S) h) = hp_cells (if dead_weak h a \<and> a \<notin> S then clear_weak (clear_weaks S h) a else clear_weaks S h)"
    by (rule ext) (auto simp: clear_weaks_def clear_weak_def)
  then show ?thesis
    by (simp add: clear_weaks_def clear_weak_def)
qed

lemma retain_weak_step:
  assumes "heap_base h"
  shows "retain_weak (clear_weaks S h, ks) a
    = (clear_weaks (insert a S) h, if weak_target h a \<noteq> None \<and> \<not> dead_weak h a then ks @ [a] else ks)"
proof -
  let ?h = "clear_weaks S h"
  have find: "heap_find ?h b = map_option cell_obj (hp_cells ?h b)" for b
    using assms by (simp add: heap_find_base clear_weaks_base)
  have target: "t \<noteq> 0 \<and> heap_find ?h t \<noteq> None \<and> \<not> is_marked ?h t \<longleftrightarrow> t \<in> dom (hp_cells h) - marked h" for t
    using heap_dom_slot(1)[OF assms, of t] clear_weaks_bits(1)[of S h] by (auto simp: find is_marked_iff clear_weaks_bits(2) domIff set_eq_iff)
  show ?thesis
  proof (cases "weak_target ?h a")
    case None
    then have "retain_weak (?h, ks) a = (?h, ks)"
      by (auto simp: retain_weak_def find weak_target_def split: option.splits gc_object.splits if_splits)
    then show ?thesis
      using None by (auto simp: clear_weaks_target clear_weaks_insert dead_weak_def split: if_splits)
  next
    case (Some t)
    then obtain c v where c: "hp_cells ?h a = Some c" "cell_obj c = GWeak v False" "t = unat (heap_addr v)"
      by (auto simp: weak_target_def split: option.splits gc_object.splits if_splits)
    have "weak_target h a = Some t" and dead: "a \<in> S \<Longrightarrow> \<not> dead_weak h a"
      using Some by (auto simp: clear_weaks_target split: if_splits)
    moreover have "retain_weak (?h, ks) a = (if t \<in> dom (hp_cells h) - marked h then (clear_weak ?h a, ks) else (?h, ks @ [a]))"
      using c target[of t] by (simp add: retain_weak_def find Let_def)
    ultimately show ?thesis
      using clear_weaks_insert[of a S h] by (auto simp: dead_weak_def)
  qed
qed

lemma retain_weaks:
  assumes "heap_base h"
  shows "\<exists>ks. foldl retain_weak (clear_weaks S h, k) l = (clear_weaks (S \<union> set l) h, ks)
    \<and> set ks = set k \<union> {a \<in> set l. weak_target h a \<noteq> None \<and> \<not> dead_weak h a}"
proof (induction l arbitrary: S k)
  case (Cons a l)
  obtain ks where "foldl retain_weak (clear_weaks (insert a S) h, if weak_target h a \<noteq> None \<and> \<not> dead_weak h a then k @ [a] else k) l
      = (clear_weaks (insert a S \<union> set l) h, ks)"
    "set ks = set (if weak_target h a \<noteq> None \<and> \<not> dead_weak h a then k @ [a] else k) \<union> {a \<in> set l. weak_target h a \<noteq> None \<and> \<not> dead_weak h a}"
    using Cons by blast
  then show ?case
    by (auto simp: retain_weak_step[OF assms])
qed simp

lemma clear_dead_weaks_eq:
  assumes base: "heap_base h" and ok: "weaks_ok h"
  shows "\<exists>ks. clear_dead_weaks h = (clear_weaks UNIV h)\<lparr>hp_weaks := ks\<rparr> \<and> set ks = {a. weak_target h a \<noteq> None \<and> \<not> dead_weak h a}"
proof -
  have "a \<in> set (hp_weaks h) \<and> dead_weak h a \<longleftrightarrow> a \<in> UNIV \<and> dead_weak h a" for a
    using ok by (auto simp: weaks_ok_def dead_weak_def)
  then have all: "clear_weaks (set (hp_weaks h)) h = clear_weaks UNIV h" "clear_weaks {} h = h"
    unfolding clear_weaks_def by (simp_all add: fun_eq_iff)
  have listed: "{a \<in> set (hp_weaks h). weak_target h a \<noteq> None \<and> \<not> dead_weak h a} = {a. weak_target h a \<noteq> None \<and> \<not> dead_weak h a}"
    using ok by (auto simp: weaks_ok_def)
  show ?thesis
  proof (cases "hp_weaks h = []")
    case True
    then have "clear_dead_weaks h = (clear_weaks UNIV h)\<lparr>hp_weaks := []\<rparr>"
      using all by (simp add: clear_dead_weaks_def)
    then show ?thesis
      using listed True by (intro exI[of _ "[]"]) auto
  next
    case False
    obtain ks where k: "foldl retain_weak (clear_weaks {} h, []) (remdups_adj (sort (hp_weaks h)))
        = (clear_weaks (set (remdups_adj (sort (hp_weaks h)))) h, ks)"
      "set ks = {a \<in> set (remdups_adj (sort (hp_weaks h))). weak_target h a \<noteq> None \<and> \<not> dead_weak h a}"
      using retain_weaks[OF base, of "{}" "[]" "remdups_adj (sort (hp_weaks h))"] by auto
    then have "clear_dead_weaks h = (clear_weaks UNIV h)\<lparr>hp_weaks := ks\<rparr>"
      using False all by (simp add: clear_dead_weaks_def)
    then show ?thesis
      using k(2) listed by auto
  qed
qed

section \<open>From marking to sweeping\<close>

lemma cell_shape_eq:
  assumes "cell_shape c = cell_shape d"
  shows "cell_size c = cell_size d" "cell_fresh c = cell_fresh d" "unflag (cell_obj c) = unflag (cell_obj d)"
  using assms by (cases c; cases d; simp add: cell_shape_def)+

lemma marks_only_cell:
  assumes "marks_only h h'" and "hp_cells h' a = Some c'"
  obtains c where "hp_cells h a = Some c" "cell_size c' = cell_size c" "cell_fresh c' = cell_fresh c" "unflag (cell_obj c') = unflag (cell_obj c)"
proof -
  have "map_option cell_shape (hp_cells h' a) = map_option cell_shape (hp_cells h a)"
    using assms(1) by (simp add: marks_only_def)
  then obtain c where c: "hp_cells h a = Some c" "cell_shape c' = cell_shape c"
    using assms(2) by (cases "hp_cells h a") auto
  show thesis
    by (rule that[OF c(1) cell_shape_eq[OF c(2)]])
qed

lemma unflag_eq:
  "unflag o1 = GString s \<longleftrightarrow> o1 = GString s" "unflag o1 = GWeak t b \<longleftrightarrow> o1 = GWeak t b"
  by (cases o1; simp add: unflag_def)+

lemma marks_only_fields:
  assumes "marks_only h h'"
  shows "hp_slab h' = hp_slab h" "hp_alloc_bytes h' = hp_alloc_bytes h" "hp_live_count h' = hp_live_count h" "hp_weaks h' = hp_weaks h"
    "hp_strings h' = hp_strings h" "hp_phase h' = hp_phase h" "hp_cursor h' = hp_cursor h" "hp_class_kinds h' = hp_class_kinds h"
    "hp_freed_early h' = hp_freed_early h" "hp_epoch_stw h' = hp_epoch_stw h" "hp_recent h' = hp_recent h"
proof -
  have e: "h'\<lparr>hp_cells := Map.empty, hp_gray := []\<rparr> = h\<lparr>hp_cells := Map.empty, hp_gray := []\<rparr>"
    using assms by (simp add: marks_only_def)
  show "hp_slab h' = hp_slab h"
    using arg_cong[OF e, of hp_slab] by simp
  show "hp_alloc_bytes h' = hp_alloc_bytes h"
    using arg_cong[OF e, of hp_alloc_bytes] by simp
  show "hp_live_count h' = hp_live_count h"
    using arg_cong[OF e, of hp_live_count] by simp
  show "hp_weaks h' = hp_weaks h"
    using arg_cong[OF e, of hp_weaks] by simp
  show "hp_strings h' = hp_strings h"
    using arg_cong[OF e, of hp_strings] by simp
  show "hp_phase h' = hp_phase h"
    using arg_cong[OF e, of hp_phase] by simp
  show "hp_cursor h' = hp_cursor h"
    using arg_cong[OF e, of hp_cursor] by simp
  show "hp_class_kinds h' = hp_class_kinds h"
    using arg_cong[OF e, of hp_class_kinds] by simp
  show "hp_freed_early h' = hp_freed_early h"
    using arg_cong[OF e, of hp_freed_early] by simp
  show "hp_epoch_stw h' = hp_epoch_stw h"
    using arg_cong[OF e, of hp_epoch_stw] by simp
  show "hp_recent h' = hp_recent h"
    using arg_cong[OF e, of hp_recent] by simp
qed

lemma marks_only_base:
  assumes "marks_only h h'"
  shows "heap_base h' \<longleftrightarrow> heap_base h" "weak_target h' = weak_target h" "string_at h' = string_at h"
proof -
  have cells: "map_option cell_shape (hp_cells h' a) = map_option cell_shape (hp_cells h a)" for a
    using assms by (simp add: marks_only_def)
  have d: "dom (hp_cells h') = dom (hp_cells h)"
    by (rule marks_only_dom[OF assms])
  have "heap_bytes (hp_cells h') = heap_bytes (hp_cells h)"
    unfolding heap_bytes_def d
  proof (rule sum.cong)
    fix a assume "a \<in> dom (hp_cells h)"
    then obtain c' where "hp_cells h' a = Some c'"
      using d by auto
    then show "cell_size (the (hp_cells h' a)) = cell_size (the (hp_cells h a))"
      using marks_only_cell[OF assms] by (metis option.sel)
  qed simp
  then show "heap_base h' \<longleftrightarrow> heap_base h"
    unfolding heap_base_def d marks_only_fields[OF assms] by simp
  have obj: "unflag (cell_obj c') = unflag (cell_obj c)" if "hp_cells h' a = Some c'" "hp_cells h a = Some c" for a c c'
    using cells[of a] that by (intro cell_shape_eq(3)) simp
  have none: "hp_cells h' a = None \<longleftrightarrow> hp_cells h a = None" for a
    using cells[of a] by (cases "hp_cells h a"; cases "hp_cells h' a") simp_all
  have t: "weak_target h a = (case hp_cells h a of None \<Rightarrow> None | Some c \<Rightarrow>
      (case unflag (cell_obj c) of GWeak t cleared \<Rightarrow> if cleared then None else Some (unat (heap_addr t)) | _ \<Rightarrow> None))" for h :: gc_heap and a
    by (cases "hp_cells h a"; cases "cell_obj (the (hp_cells h a))") (simp_all add: weak_target_def unflag_def)
  show "weak_target h' = weak_target h"
  proof
    fix a show "weak_target h' a = weak_target h a"
      unfolding t[of h'] t[of h] using obj none[of a] by (cases "hp_cells h a"; cases "hp_cells h' a") auto
  qed
  have st: "string_at h a \<longleftrightarrow> (\<exists>c s. hp_cells h a = Some c \<and> unflag (cell_obj c) = GString s)" for h :: gc_heap and a
    by (simp add: string_at_def unflag_eq)
  show "string_at h' = string_at h"
  proof
    fix a show "string_at h' a = string_at h a"
      unfolding st[of h'] st[of h] using obj none[of a] by (cases "hp_cells h a"; cases "hp_cells h' a") auto
  qed
qed

definition fresh_cells :: "gc_heap \<Rightarrow> nat set" where
  "fresh_cells h = {a. \<exists>c. hp_cells h a = Some c \<and> cell_fresh c}"

lemma guarded_eq: "guarded h = marked h \<union> fresh_cells h"
  by (auto simp: guarded_def marked_def fresh_cells_def)

lemma marks_only_fresh: "marks_only h h' \<Longrightarrow> fresh_cells h' = fresh_cells h"
proof -
  assume m: "marks_only h h'"
  have e: "map_option cell_shape (hp_cells h' a) = map_option cell_shape (hp_cells h a)" for a
    using m by (simp add: marks_only_def)
  have "(\<exists>c. hp_cells h' a = Some c \<and> cell_fresh c) \<longleftrightarrow> (\<exists>c. hp_cells h a = Some c \<and> cell_fresh c)" for a
    using e[of a] by (cases "hp_cells h a"; cases "hp_cells h' a") (auto dest: cell_shape_eq(2))
  then show ?thesis
    by (simp add: fresh_cells_def)
qed

text \<open>Without young chunks the sweep of a new cursor visits every slot.\<close>

lemma sweep_cursor_rest:
  assumes "heap_base h"
  shows "cursor_live (hp_slab h) cursor_sweep" "set (walk_rest (hp_slab h) cursor_sweep) = old_slots (hp_slab h)"
proof -
  have young: "\<not> is_young_chunk (hp_slab h) i" for i
    using assms by (simp add: heap_base_def)
  show "cursor_live (hp_slab h) cursor_sweep"
    by (simp add: cursor_live_def cursor_ok_def free_class_ok_def cursor_sweep_def cursor_default_def)
  have "walk_rest (hp_slab h) cursor_sweep = rev (walk_slots (hp_slab h) cursor_sweep)"
    by (simp add: walk_rest_def walk_chunks_rev) (simp add: cursor_sweep_def cursor_default_def)
  then show "set (walk_rest (hp_slab h) cursor_sweep) = old_slots (hp_slab h)"
    using young by (auto simp: walk_slots_def old_slots_def walk_skips_def)
qed

lemma begin_sweep_inv:
  assumes base: "heap_base h" and phase: "hp_phase h \<noteq> Sweeping" and fresh: "fresh_cells h = {}"
  shows "sweep_inv (begin_sweep h)" "kept (begin_sweep h) = marked h"
    "hp_cells (begin_sweep h) = hp_cells h" "hp_slab (begin_sweep h) = hp_slab h" "hp_weaks (begin_sweep h) = hp_weaks h"
    "hp_class_kinds (begin_sweep h) = hp_class_kinds h" "hp_freed_early (begin_sweep h) = hp_freed_early h"
    "set (hp_strings (begin_sweep h)) = set (hp_strings h) \<inter> marked h" "hp_epoch_stw (begin_sweep h) = hp_epoch_stw h"
proof -
  let ?h = "begin_sweep h"
  show fields: "hp_cells ?h = hp_cells h" "hp_slab ?h = hp_slab h" "hp_weaks ?h = hp_weaks h"
    "hp_class_kinds ?h = hp_class_kinds h" "hp_freed_early ?h = hp_freed_early h" "set (hp_strings ?h) = set (hp_strings h) \<inter> marked h"
    "hp_epoch_stw ?h = hp_epoch_stw h"
    using phase by (auto simp: begin_sweep_def unlink_unmarked_interns_def is_marked_iff)
  have cur: "hp_cursor ?h = Some cursor_sweep" "hp_phase ?h = Sweeping" "hp_alloc_bytes ?h = hp_alloc_bytes h" "hp_live_count ?h = hp_live_count h"
    using phase by (simp_all add: begin_sweep_def unlink_unmarked_interns_def)
  have base': "heap_base ?h"
    using base by (simp add: heap_base_def fields cur)
  note rest = sweep_cursor_rest[OF base']
  have pend: "pending ?h = old_slots (hp_slab h)"
    using rest(2) by (simp add: pending_def cur fields)
  have sub: "dom (hp_cells h) \<subseteq> old_slots (hp_slab h)"
    using base by (auto simp: heap_base_def slab_inv_def)
  have g: "guarded ?h = marked h"
    using fresh guarded_eq[of h] fields(1) by (simp add: guarded_def)
  show "kept ?h = marked h"
    using sub marked_dom[of h] unfolding kept_def g pend fields by blast
  show "sweep_inv ?h"
    using base' cur rest(1) g pend sub marked_dom[of h] by (auto simp: sweep_inv_def fields)
qed

lemma swept_refs:
  assumes "swept h h'" and "heap_base h" and "heap_base h'" and "a \<in> dom (hp_cells h')"
  shows "set (cell_refs h' a) \<subseteq> set (cell_refs h a)" "map_option cell_obj (hp_cells h' a) = map_option cell_obj (hp_cells h a)"
proof -
  have e: "map_option settle (hp_cells h' a) = map_option settle (hp_cells h a)" and d: "dom (hp_cells h') \<subseteq> dom (hp_cells h)"
    using assms(1,4) by (auto simp: swept_def)
  have "map_option cell_obj (map_option settle x) = map_option cell_obj x" for x
    by (cases x) (simp_all add: settle_def)
  then show obj: "map_option cell_obj (hp_cells h' a) = map_option cell_obj (hp_cells h a)"
    using arg_cong[OF e, of "map_option cell_obj"] by simp
  let ?z = "\<lambda>h. h\<lparr>hp_cells := Map.empty, hp_slab := slab_new, hp_alloc_bytes := 0, hp_live_count := 0, hp_sweep_freed := 0, hp_cursor := None,
          hp_phase := Idle, hp_next_threshold := 0\<rparr> :: gc_heap"
  have "?z h' = ?z h"
    using assms(1) by (simp add: swept_def)
  from arg_cong[OF this, of hp_class_kinds] arg_cong[OF this, of hp_freed_early]
  have same: "hp_class_kinds h' = hp_class_kinds h" "hp_freed_early h' = hp_freed_early h"
    by simp_all
  show "set (cell_refs h' a) \<subseteq> set (cell_refs h a)"
  proof
    fix m assume m: "m \<in> set (cell_refs h' a)"
    obtain c' c where c: "hp_cells h' a = Some c'" "hp_cells h a = Some c" "cell_obj c' = cell_obj c"
      using assms(4) d obj by (cases "hp_cells h' a"; cases "hp_cells h a") auto
    show "m \<in> set (cell_refs h a)"
      using m object_marks_transfer[OF assms(2,3) same, of "fst m" "snd m" "cell_obj c"] d c by (auto simp: cell_refs_def)
  qed
qed

lemma swept_fields:
  assumes "swept h h'"
  shows "hp_weaks h' = hp_weaks h" "hp_strings h' = hp_strings h" "hp_class_kinds h' = hp_class_kinds h" "hp_freed_early h' = hp_freed_early h"
    "hp_epoch_stw h' = hp_epoch_stw h" "hp_byte_cap h' = hp_byte_cap h"
proof -
  let ?z = "\<lambda>h. h\<lparr>hp_cells := Map.empty, hp_slab := slab_new, hp_alloc_bytes := 0, hp_live_count := 0, hp_sweep_freed := 0, hp_cursor := None,
          hp_phase := Idle, hp_next_threshold := 0\<rparr> :: gc_heap"
  have e: "?z h' = ?z h"
    using assms by (simp add: swept_def)
  show "hp_weaks h' = hp_weaks h" using arg_cong[OF e, of hp_weaks] by simp
  show "hp_strings h' = hp_strings h" using arg_cong[OF e, of hp_strings] by simp
  show "hp_class_kinds h' = hp_class_kinds h" using arg_cong[OF e, of hp_class_kinds] by simp
  show "hp_freed_early h' = hp_freed_early h" using arg_cong[OF e, of hp_freed_early] by simp
  show "hp_epoch_stw h' = hp_epoch_stw h" using arg_cong[OF e, of hp_epoch_stw] by simp
  show "hp_byte_cap h' = hp_byte_cap h" using arg_cong[OF e, of hp_byte_cap] by simp
qed

section \<open>A whole collection\<close>

definition gc_idle :: "gc_heap \<Rightarrow> bool" where
  "gc_idle h \<longleftrightarrow> idle_inv h \<and> keys_strings (dom (hp_cells h)) h \<and> weaks_ok h \<and> set (hp_strings h) \<subseteq> dom (hp_cells h)"

text \<open>What the closing of a mark does: dead weak handles are cleared and the sweep starts.\<close>

lemma close_mark:
  assumes base: "heap_base h" and phase: "hp_phase h = Marking" and fresh: "fresh_cells h = {}" and w: "weaks_ok h"
  defines "h' \<equiv> begin_sweep (clear_dead_weaks h)"
  shows "sweep_inv h'" "kept h' = marked h" "weaks_ok h'" "hp_cells h' = hp_cells (clear_weaks UNIV h)" "hp_slab h' = hp_slab h"
    "hp_class_kinds h' = hp_class_kinds h" "hp_freed_early h' = hp_freed_early h" "set (hp_strings h') = set (hp_strings h) \<inter> marked h"
    "cell_refs h' = cell_refs h" "weak_target h' = (\<lambda>a. if dead_weak h a then None else weak_target h a)" "string_at h' = string_at h"
    "hp_epoch_stw h' = hp_epoch_stw h"
proof -
  obtain ks where ks: "clear_dead_weaks h = (clear_weaks UNIV h)\<lparr>hp_weaks := ks\<rparr>" "set ks = {a. weak_target h a \<noteq> None \<and> \<not> dead_weak h a}"
    using clear_dead_weaks_eq[OF base w] by blast
  let ?h1 = "clear_dead_weaks h"
  have cells1: "hp_cells ?h1 = hp_cells (clear_weaks UNIV h)"
    by (simp add: ks)
  have base1: "heap_base ?h1"
    using clear_weaks_base[of UNIV h] base unfolding heap_base_def by (simp add: ks)
  have same1: "hp_phase ?h1 = hp_phase h" "hp_slab ?h1 = hp_slab h" "hp_class_kinds ?h1 = hp_class_kinds h" "hp_freed_early ?h1 = hp_freed_early h"
    "hp_strings ?h1 = hp_strings h" "hp_recent ?h1 = hp_recent h" "hp_epoch_stw ?h1 = hp_epoch_stw h"
    by (simp_all add: ks clear_weaks_def)
  have marked1: "marked ?h1 = marked h"
    using clear_weaks_bits(2)[of UNIV h] by (simp add: marked_def cells1)
  have fresh1: "fresh_cells ?h1 = {}"
    using fresh by (auto simp: fresh_cells_def cells1 clear_weaks_def split: if_splits)
  note b = begin_sweep_inv[OF base1 _ fresh1, unfolded same1 marked1, folded h'_def]
  show "sweep_inv h'" "kept h' = marked h" "hp_slab h' = hp_slab h" "hp_class_kinds h' = hp_class_kinds h" "hp_freed_early h' = hp_freed_early h"
    "set (hp_strings h') = set (hp_strings h) \<inter> marked h" "hp_epoch_stw h' = hp_epoch_stw h"
    using b phase by simp_all
  show cells: "hp_cells h' = hp_cells (clear_weaks UNIV h)"
    using b(3) phase cells1 by simp
  show t: "weak_target h' = (\<lambda>a. if dead_weak h a then None else weak_target h a)"
  proof
    fix a show "weak_target h' a = (if dead_weak h a then None else weak_target h a)"
      using clear_weaks_target(1)[of UNIV h a] by (simp add: weak_target_def cells)
  qed
  show "weaks_ok h'"
    using ks(2) b(5) phase by (auto simp: weaks_ok_def t ks(1))
  show "string_at h' = string_at h"
    using clear_weaks_bits(7)[of UNIV h] by (simp add: string_at_def cells fun_eq_iff)
  have "hp_recent h' = hp_recent h"
    using phase same1 by (simp add: h'_def begin_sweep_def unlink_unmarked_interns_def)
  then have "mark_env h' = mark_env (clear_weaks UNIV h)"
    using b phase by (simp add: mark_env_def cells) (simp add: clear_weaks_def)
  then have "object_marks h' = object_marks (clear_weaks UNIV h)"
    by (intro ext marks_of_env)
  then have "cell_refs h' a = cell_refs (clear_weaks UNIV h) a" for a
    by (cases "hp_cells (clear_weaks UNIV h) a") (simp_all add: cell_refs_def cells)
  then show "cell_refs h' = cell_refs h"
    by (simp add: clear_weaks_bits(6) fun_eq_iff)
qed

text \<open>An object that survives: nothing of it changed but a weak handle whose target is gone.\<close>

definition survives :: "gc_heap \<Rightarrow> gc_heap \<Rightarrow> nat \<Rightarrow> bool" where
  "survives h h' a \<longleftrightarrow> (\<exists>c c'. hp_cells h a = Some c \<and> hp_cells h' a = Some c' \<and> cell_size c' = cell_size c
     \<and> unflag (cell_obj c') = (if \<exists>t \<in> dom (hp_cells h) - dom (hp_cells h'). weak_target h a = Some t then GWeak 0 True else unflag (cell_obj c)))"

lemma sweep_survivor:
  assumes s: "swept h1 h'" and a: "a \<in> dom (hp_cells h')" and c1: "hp_cells h1 = hp_cells (clear_weaks UNIV h2)" and m: "marks_only h h2"
    and dead: "dead_weak h2 a \<longleftrightarrow> (\<exists>t \<in> dom (hp_cells h) - dom (hp_cells h'). weak_target h a = Some t)"
  shows "survives h h' a"
proof -
  obtain c' where c': "hp_cells h' a = Some c'"
    using a by auto
  have "map_option settle (hp_cells h' a) = map_option settle (hp_cells h1 a)"
    using s a by (simp add: swept_def)
  then obtain d where d: "hp_cells h1 a = Some d" "settle c' = settle d"
    using c' by (cases "hp_cells h1 a") auto
  then have d': "cell_size c' = cell_size d" "cell_obj c' = cell_obj d"
    by (cases c'; cases d; simp add: settle_def)+
  obtain e where e: "hp_cells h2 a = Some e" "cell_size d = cell_size e" "cell_obj d = (if dead_weak h2 a then GWeak 0 True else cell_obj e)"
    using d(1) unfolding c1 clear_weaks_def by (cases "hp_cells h2 a") (auto split: if_splits)
  obtain c where "hp_cells h a = Some c" "cell_size e = cell_size c" "unflag (cell_obj e) = unflag (cell_obj c)"
    using marks_only_cell[OF m e(1)] by blast
  then show ?thesis
    using c' d' e dead by (auto simp: survives_def unflag_eq)
qed

lemma gc_idle_after:
  assumes h1: "sweep_inv h1" "weaks_ok h1" "set (hp_strings h1) \<subseteq> kept h1" and keys: "keys_strings (kept h1) h1"
    and closed: "\<And>a b. a \<in> kept h1 \<Longrightarrow> gc_edge h1 a b \<Longrightarrow> b \<in> kept h1"
    and h': "swept h1 h'" "idle_inv h'" "dom (hp_cells h') = kept h1"
  shows "gc_idle h'"
proof -
  have base: "heap_base h1" "heap_base h'"
    using h1 h' by (auto simp: sweep_inv_def idle_inv_def)
  have obj: "map_option cell_obj (hp_cells h' a) = map_option cell_obj (hp_cells h1 a)" if "a \<in> kept h1" for a
    using swept_refs(2)[OF h'(1) base] that h'(3) by simp
  have "string_at h' k" if a: "a \<in> kept h1" "(False, k) \<in> set (cell_refs h' a)" for a k
  proof -
    have "(False, k) \<in> set (cell_refs h1 a)"
      using swept_refs(1)[OF h'(1) base, of a] a h'(3) by auto
    then have k: "string_at h1 k" "gc_edge h1 a k"
      using keys a by (force simp: keys_strings_def string_at_def gc_edge_def image_iff)+
    then show ?thesis
      using obj[OF closed[OF a(1) k(2)]] by (cases "hp_cells h' k") (auto simp: string_at_def)
  qed
  moreover have "weaks_ok h'"
  proof -
    have "weak_target h' a = weak_target h1 a" if "hp_cells h' a \<noteq> None" for a
    proof -
      have "a \<in> kept h1"
        using that h'(3) by (metis domIff)
      from obj[OF this] show ?thesis
        by (cases "hp_cells h' a"; cases "hp_cells h1 a") (simp_all add: weak_target_def)
    qed
    moreover have "hp_cells h' a \<noteq> None" if "weak_target h' a = Some t" for a t
      using that by (cases "hp_cells h' a") (simp_all add: weak_target_def)
    ultimately have "weak_target h1 a = Some t" if "weak_target h' a = Some t" for a t
      using that by metis
    then show ?thesis
      using h1(2) swept_fields(1)[OF h'(1)] by (auto simp: weaks_ok_def)
  qed
  ultimately show ?thesis
    using h' h1(3) swept_fields(2)[OF h'(1)] by (simp add: gc_idle_def keys_strings_def)
qed

lemma collect_ends:
  assumes h: "gc_idle h" and epoch: "\<not> hp_epoch_stw h"
  shows "\<exists>h'. collect h extra = Some h' \<and> gc_idle h' \<and> dom (hp_cells h') = gc_reach h (root_set h (take_gc_roots h @ extra))
    \<and> (\<forall>a \<in> dom (hp_cells h'). survives h h' a) \<and> (\<forall>a \<in> dom (hp_cells h'). set (cell_refs h' a) \<subseteq> set (cell_refs h a))
    \<and> hp_next_threshold h' \<le> hp_byte_cap h' \<and> hp_epoch_stw h' = hp_epoch_stw h"
proof -
  have idle: "heap_base h" "hp_phase h = Idle" "guarded h = {}" and w: "weaks_ok h" and strs: "set (hp_strings h) \<subseteq> dom (hp_cells h)"
    and keys: "keys_strings (dom (hp_cells h)) h"
    using h by (auto simp: gc_idle_def idle_inv_def)
  let ?R = "root_set h (take_gc_roots h @ extra)" and ?hm = "h\<lparr>hp_phase := Marking\<rparr>"
  obtain h3 where h3: "mark_drain (begin_mark h (take_gc_roots h @ extra)) = Some h3" "marks_only ?hm h3" "hp_gray h3 = []"
    "marked h3 = gc_reach h ?R"
    using begin_mark_drain[OF idle(2) _ keys_strings_ok[OF keys], of "take_gc_roots h @ extra"] idle by (auto simp: guarded_eq heap_base_def)
  have env: "mark_env ?hm = mark_env h"
    by (simp add: mark_env_def)
  note same = heap_same[of ?hm h, OF _ env, simplified]
  note f = marks_only_fields[OF h3(2), simplified]
  have base_m: "heap_base ?hm"
    using idle(1) by (simp add: heap_base_def)
  have base3: "heap_base h3" and wt: "weak_target h3 = weak_target h" and st: "string_at h3 = string_at h"
    using marks_only_base[OF h3(2)] base_m by (auto simp: weak_target_def string_at_def fun_eq_iff)
  have d3: "dom (hp_cells h3) = dom (hp_cells h)"
    using marks_only_dom[OF h3(2)] by simp
  have fr: "fresh_cells h3 = {}"
    using marks_only_fresh[OF h3(2)] idle(3) by (simp add: guarded_eq fresh_cells_def)
  have w3: "weaks_ok h3"
    using w f by (simp add: weaks_ok_def wt)
  note c = close_mark[OF base3 f(6) fr w3]
  let ?h4 = "begin_sweep (clear_dead_weaks h3)"
  have refs3: "cell_refs h3 = cell_refs h"
    using h3(2) same(2) by (simp add: marks_only_def fun_eq_iff)
  have edge4: "gc_edge ?h4 = gc_edge h"
    unfolding gc_edge_def c(4,9) refs3 clear_weaks_bits(1) d3 ..
  obtain h' where h': "finish_sweep ?h4 = Some h'" "idle_inv h'" "swept ?h4 h'" "dom (hp_cells h') = kept ?h4" "hp_next_threshold h' \<le> hp_byte_cap h'"
    using finish_sweep_ends[OF c(1)] by blast
  have k: "kept ?h4 = gc_reach h ?R"
    using c(2) h3(4) by simp
  have "collect h extra = Some h'"
    using epoch idle(2) h3(1) h'(1) by (simp add: collect_def Let_def)
  moreover have "gc_idle h'"
  proof (rule gc_idle_after[OF c(1,3) _ _ _ h'(3,2,4)])
    show "set (hp_strings ?h4) \<subseteq> kept ?h4"
      using c(2,8) by blast
    have sub: "kept ?h4 \<subseteq> dom (hp_cells h)"
      using c(2) marked_dom[of h3] d3 by simp
    show "keys_strings (kept ?h4) ?h4"
      using keys sub unfolding keys_strings_def c(9,11) refs3 st by blast
    show "b \<in> kept ?h4" if "a \<in> kept ?h4" "gc_edge ?h4 a b" for a b
      using that reach_step unfolding k edge4 by blast
  qed
  moreover have "survives h h' a" if a: "a \<in> dom (hp_cells h')" for a
  proof -
    have "dead_weak h3 a \<longleftrightarrow> (\<exists>t \<in> dom (hp_cells ?hm) - dom (hp_cells h'). weak_target ?hm a = Some t)"
      using h'(4) c(2) d3 wt by (auto simp: dead_weak_def weak_target_def)
    from sweep_survivor[OF h'(3) a c(4) h3(2) this] show ?thesis
      by (simp add: survives_def weak_target_def)
  qed
  moreover have "set (cell_refs h' a) \<subseteq> set (cell_refs h a)" if "a \<in> dom (hp_cells h')" for a
    using swept_refs(1)[OF h'(3) _ _ that] c(1) h'(2) by (simp add: sweep_inv_def idle_inv_def c(9) refs3)
  ultimately show ?thesis
    using h' k swept_fields(5)[OF h'(3)] c(12) f by (intro exI[of _ h']) simp
qed

end
