(* ===== verification/Gc_Run.thy ===== *)
theory Gc_Run
  imports Gc
begin

text \<open>
  The collector together with a program: allocation keeps the invariants of every phase; a step relation interleaves
  a program (allocating, interning, writing objects, changing its roots, upgrading weak handles) with the opening of
  a cycle, its close and the quanta of the lazy sweep, the way \<^verbatim>\<open>gc_safepoint\<close>, \<^verbatim>\<open>gc_mark_slice\<close> and
  \<^verbatim>\<open>gc_sweep_slice\<close> of \<^verbatim>\<open>machine/src/vm.rs\<close> do; an invariant of it says that nothing the program can get at is freed.
  The properties of the collector are at the end.
\<close>

unbundle bit_operations_syntax

section \<open>Allocation keeps the heap sound\<close>

lemma heap_bytes_add:
  assumes "finite (dom cells)" and "a \<notin> dom cells"
  shows "heap_bytes (cells(a \<mapsto> c)) = heap_bytes cells + cell_size c"
proof -
  have "(cells(a \<mapsto> c))(a := None) = cells"
    using assms(2) by (auto simp: fun_eq_iff domIff)
  then show ?thesis
    using heap_bytes_remove[of "cells(a \<mapsto> c)" a c] assms(1) by simp
qed

definition room :: "gc_heap \<Rightarrow> nat \<Rightarrow> u32 \<Rightarrow> u32 \<Rightarrow> bool" where
  "room h base z al \<longleftrightarrow> chunk_fits (hp_slab h) base z al \<and> 0 < base"

lemma heap_alloc_base:
  assumes base: "heap_base h" and room: "room h base z al"
  obtains a h' where "heap_alloc h base z al n obj = Some (a, h')" "heap_base h'" "a \<notin> dom (hp_cells h)"
    "slab_alloc (hp_slab h) base z al = Some (a, hp_slab h')"
    "\<exists>c. hp_cells h' = (hp_cells h)(a \<mapsto> c) \<and> cell_obj c = obj \<and> cell_size c = n \<and> cell_marked c = (hp_phase h = Marking)
       \<and> cell_fresh c = (hp_phase h = Sweeping \<and> (case hp_cursor h of None \<Rightarrow> False | Some cur \<Rightarrow> \<not> walk_passed (hp_slab h') cur a))"
    "hp_phase h' = hp_phase h" "hp_cursor h' = hp_cursor h" "hp_gray h' = hp_gray h" "hp_class_kinds h' = hp_class_kinds h"
    "hp_freed_early h' = hp_freed_early h" "hp_strings h' = hp_strings h" "take_gc_roots h' = take_gc_roots h"
    "hp_weaks h' = hp_weaks h @ (case obj of GWeak _ _ \<Rightarrow> [a] | _ \<Rightarrow> [])" "hp_epoch_stw h' = hp_epoch_stw h"
proof -
  have inv: "slab_inv (hp_slab h) (dom (hp_cells h))" "finite (dom (hp_cells h))"
    using base by (auto simp: heap_base_def)
  have fits: "chunk_fits (hp_slab h) base z al"
    using room by (simp add: room_def)
  obtain a s' where a: "slab_alloc (hp_slab h) base z al = Some (a, s')" "a \<notin> dom (hp_cells h)" "slab_inv s' (insert a (dom (hp_cells h)))"
    using slab_alloc_inv[OF inv(1) fits] by blast
  note shape = slab_alloc_shape[OF a(1)]
  obtain h' where h': "heap_alloc h base z al n obj = Some (a, h')"
    by (simp add: heap_alloc_def a(1) Let_def)
  have weak: "side_list_of h obj = Some SideWeak \<longleftrightarrow> (\<exists>t b. obj = GWeak t b)"
    by (cases obj) (simp_all add: side_list_of_def)
  have fields: "hp_slab h' = s'" "hp_phase h' = hp_phase h" "hp_cursor h' = hp_cursor h" "hp_gray h' = hp_gray h" "hp_class_kinds h' = hp_class_kinds h"
    "hp_freed_early h' = hp_freed_early h" "hp_strings h' = hp_strings h" "take_gc_roots h' = take_gc_roots h" "hp_epoch_stw h' = hp_epoch_stw h"
    "hp_alloc_bytes h' = hp_alloc_bytes h + n" "hp_live_count h' = hp_live_count h + 1"
    "hp_weaks h' = hp_weaks h @ (case obj of GWeak _ _ \<Rightarrow> [a] | _ \<Rightarrow> [])"
    "\<exists>c. hp_cells h' = (hp_cells h)(a \<mapsto> c) \<and> cell_obj c = obj \<and> cell_size c = n \<and> cell_marked c = (hp_phase h = Marking)
       \<and> cell_fresh c = (hp_phase h = Sweeping \<and> (case hp_cursor h of None \<Rightarrow> False | Some cur \<Rightarrow> \<not> walk_passed s' cur a))"
    using h' weak by (auto simp: heap_alloc_def a(1) Let_def take_gc_roots_def split: gc_object.split)
  obtain c where c: "hp_cells h' = (hp_cells h)(a \<mapsto> c)" "cell_size c = n"
    using fields(13) by blast
  have chunks: "\<forall>c \<in> set (sb_chunks s'). 0 < ck_ptr c"
    using shape(4) base room by (auto simp: heap_base_def room_def)
  have "heap_base h'"
    using base a(2,3) slab_alloc_fit[OF _ fits a(1)] shape(1) heap_bytes_add[OF inv(2) a(2), of c] chunks inv(2)
    by (simp add: heap_base_def fields c is_young_chunk_def)
  then show thesis
    by (rule that[OF h' _ a(2) a(1)[folded fields(1)] fields(13)[folded fields(1)] fields(2-8) fields(12) fields(9)])
qed

text \<open>A sweep in progress: the cursor stays good, and no object changes sides of it.\<close>

lemma slot_position:
  assumes "slab_ok s" and "slab_ok s'" and "sb_chunks s' = sb_chunks s \<or> (\<exists>c. sb_chunks s' = sb_chunks s @ [c])" and "b \<in> old_slots s"
  shows "table_position (sb_table s') b = table_position (sb_table s) b"
proof -
  obtain i where i: "i < length (sb_chunks s)" "b \<in> set (chunk_slots (sb_chunks s ! i))"
    using assms(4) by (auto simp: old_slots_def)
  then have "i < length (sb_chunks s')" "b \<in> set (chunk_slots (sb_chunks s' ! i))"
    using assms(3) by (auto simp: nth_append)
  then show ?thesis
    using slot_chunk[OF assms(1) i] slot_chunk[OF assms(2)] by simp
qed

lemma walk_slots_old:
  assumes "\<And>i. \<not> is_young_chunk s i"
  shows "set (walk_slots s cur) = old_slots s"
  using assms by (auto simp: walk_slots_def old_slots_def walk_skips_def)

lemma cursor_live_alloc:
  assumes al: "slab_alloc s base z al = Some (a, s')" and cur: "cursor_live s cur"
  shows "cursor_live s' cur"
proof -
  note shape = slab_alloc_shape[OF al]
  obtain ks where ks: "map fc_key (sb_free s') = map fc_key (sb_free s) @ ks"
    using shape(2) by blast
  have len: "length (sb_free s) \<le> length (sb_free s')"
    using arg_cong[OF ks, of length] by simp
  have "fc_key (sb_free s' ! i) = fc_key (sb_free s ! i)" if "i < length (sb_free s)" for i
    using arg_cong[OF ks, of "\<lambda>xs. xs ! i"] that len by (simp add: nth_append)
  then have "free_class_ok s' cur"
    using cur len by (auto simp: cursor_live_def free_class_ok_def)
  moreover have chunk: "sb_chunks s' ! i = sb_chunks s ! i" "i < length (sb_chunks s')" if "i < length (sb_chunks s)" for i
    using shape(4) that by (auto simp: nth_append)
  moreover have "\<not> walk_skips s' cur i" if "\<not> walk_skips s cur i" for i
    using that shape(1,3) by (auto simp: walk_skips_def is_young_chunk_def)
  moreover have "length (sb_chunks s) \<le> length (sb_chunks s')"
    using shape(4) by auto
  ultimately show ?thesis
    using cur by (auto simp: cursor_live_def cursor_ok_def)
qed

lemma alloc_pending:
  assumes base: "heap_base h" "heap_base h'" and al: "slab_alloc (hp_slab h) base z al = Some (a, hp_slab h')"
    and cells: "dom (hp_cells h') = insert a (dom (hp_cells h))" and cur: "hp_cursor h' = hp_cursor h" "hp_cursor h = Some cu" "cursor_live (hp_slab h) cu"
  shows "b \<in> dom (hp_cells h) \<Longrightarrow> b \<in> pending h' \<longleftrightarrow> b \<in> pending h" "a \<in> pending h' \<longleftrightarrow> \<not> walk_passed (hp_slab h') cu a"
proof -
  have ok: "slab_ok (hp_slab h)" "slab_ok (hp_slab h')"
    using base heap_base_ok by auto
  have live: "cursor_ok (hp_slab h) cu" "cursor_ok (hp_slab h') cu"
    using cur(3) cursor_live_alloc[OF al] by (auto simp: cursor_live_def)
  have old: "dom (hp_cells h) \<subseteq> old_slots (hp_slab h)" "dom (hp_cells h') \<subseteq> old_slots (hp_slab h')"
    using base by (auto simp: heap_base_def slab_inv_def)
  have slots: "set (walk_slots (hp_slab h) cu) = old_slots (hp_slab h)" "set (walk_slots (hp_slab h') cu) = old_slots (hp_slab h')"
    using base by (auto intro!: walk_slots_old simp: heap_base_def)
  have pend: "pending h = set (walk_rest (hp_slab h) cu)" "pending h' = set (walk_rest (hp_slab h') cu)"
    by (simp_all add: pending_def cur)
  have passed': "x \<in> pending h' \<longleftrightarrow> \<not> walk_passed (hp_slab h') cu x" if "x \<in> dom (hp_cells h')" for x
    using walk_passed_iff[OF ok(2) live(2)] that old slots pend by blast
  then show "a \<in> pending h' \<longleftrightarrow> \<not> walk_passed (hp_slab h') cu a"
    using cells by blast
  assume b: "b \<in> dom (hp_cells h)"
  have "b \<in> pending h \<longleftrightarrow> \<not> walk_passed (hp_slab h) cu b"
    using walk_passed_iff[OF ok(1) live(1)] b old slots pend by blast
  moreover have "walk_passed (hp_slab h') cu b = walk_passed (hp_slab h) cu b"
  proof -
    have "table_position (sb_table (hp_slab h')) b = table_position (sb_table (hp_slab h)) b"
      by (rule slot_position[OF ok]) (use slab_alloc_shape(4)[OF al] b old in blast)+
    then show ?thesis
      by (simp add: walk_passed_def)
  qed
  ultimately show "b \<in> pending h' \<longleftrightarrow> b \<in> pending h"
    using passed' b cells by blast
qed

lemma alloc_edges:
  assumes base: "heap_base h" "heap_base h'" and cells: "hp_cells h' = (hp_cells h)(a \<mapsto> c)" "a \<notin> dom (hp_cells h)"
    and same: "hp_class_kinds h' = hp_class_kinds h" "hp_freed_early h' = hp_freed_early h"
  shows "x \<noteq> a \<Longrightarrow> (g, b) \<in> set (cell_refs h' x) \<Longrightarrow> b \<noteq> a \<Longrightarrow> (g, b) \<in> set (cell_refs h x)"
    "x \<noteq> a \<Longrightarrow> gc_edge h' x b \<Longrightarrow> b = a \<or> gc_edge h x b" "x \<noteq> a \<Longrightarrow> weak_target h' x = weak_target h x" "x \<noteq> a \<Longrightarrow> string_at h' x = string_at h x"
proof -
  show refs: "x \<noteq> a \<Longrightarrow> (g, b) \<in> set (cell_refs h' x) \<Longrightarrow> b \<noteq> a \<Longrightarrow> (g, b) \<in> set (cell_refs h x)" for g x b
    using object_marks_transfer[OF base same, of g b "cell_obj (the (hp_cells h x))"] cells
    by (cases "hp_cells h x") (auto simp: cell_refs_def)
  show "x \<noteq> a \<Longrightarrow> gc_edge h' x b \<Longrightarrow> b = a \<or> gc_edge h x b"
    using refs[of x _ b] cells by (fastforce simp: gc_edge_def)
  show "x \<noteq> a \<Longrightarrow> weak_target h' x = weak_target h x" "x \<noteq> a \<Longrightarrow> string_at h' x = string_at h x"
    using cells by (auto simp: weak_target_def string_at_def)
qed

section \<open>A program and its collector\<close>

text \<open>
  What a program can get hold of: everything its roots lead to, the targets of weak handles, and the strings of the
  intern table. While a mark is open a weak handle is upgraded by \<open>resurrect_during_mark\<close>, a step of its own, and only the
  interned strings count that the mark has reached.
\<close>

definition all_roots :: "gc_heap \<Rightarrow> u64 list \<Rightarrow> nat set" where
  "all_roots h R = root_set h (take_gc_roots h @ R)"

definition program_edge :: "gc_heap \<Rightarrow> nat \<Rightarrow> nat \<Rightarrow> bool" where
  "program_edge h a b \<longleftrightarrow> gc_edge h a b \<or> weak_target h a = Some b \<and> b \<in> dom (hp_cells h)"

definition can_get :: "gc_heap \<Rightarrow> u64 list \<Rightarrow> nat set" where
  "can_get h R =
     (if hp_phase h = Marking then gc_reach h (all_roots h R \<union> (set (hp_strings h) \<inter> marked h))
      else {b. \<exists>a \<in> all_roots h R \<union> set (hp_strings h). (program_edge h)\<^sup>*\<^sup>* a b})"

text \<open>
  The program writes only objects it can get at, and writes into them only what it can get at; its next roots are
  such objects too. It changes no header, makes no weak handle out of another object, and keys tables by strings.
\<close>

definition program_writes :: "gc_heap \<Rightarrow> u64 list \<Rightarrow> gc_heap \<Rightarrow> u64 list \<Rightarrow> bool" where
  "program_writes h R h' R' \<longleftrightarrow> (\<exists>cells bytes. h' = h\<lparr>hp_cells := cells, hp_alloc_bytes := bytes\<rparr>)
     \<and> dom (hp_cells h') = dom (hp_cells h) \<and> hp_alloc_bytes h' = heap_bytes (hp_cells h')
     \<and> marked h' = marked h \<and> fresh_cells h' = fresh_cells h
     \<and> (\<forall>a. a \<notin> can_get h R \<longrightarrow> hp_cells h' a = hp_cells h a) \<and> (\<forall>a. string_at h a \<longrightarrow> string_at h' a)
     \<and> (\<forall>a \<in> can_get h R. (\<forall>b. gc_edge h' a b \<longrightarrow> b \<in> can_get h R) \<and> (\<forall>k. (False, k) \<in> set (cell_refs h' a) \<longrightarrow> string_at h' k)
          \<and> (\<forall>t. weak_target h' a = Some t \<longrightarrow> weak_target h a = Some t))
     \<and> all_roots h' R' \<subseteq> can_get h R"

text \<open>A new object refers to what the program can get at, or to itself.\<close>

definition object_fits :: "gc_heap \<Rightarrow> u64 list \<Rightarrow> nat \<Rightarrow> gc_heap \<Rightarrow> bool" where
  "object_fits h R a h' \<longleftrightarrow> (\<forall>b. program_edge h' a b \<longrightarrow> b = a \<or> b \<in> can_get h R)
     \<and> (\<forall>k. (False, k) \<in> set (cell_refs h' a) \<longrightarrow> string_at h k)"

text \<open>
  \<open>intern_str\<close> hands out a string of its table without shading it. The flag \<open>shaded\<close> restricts a run: when it is set, no
  interning hands out, while a mark is open, a string of the table that the mark has not reached. With the flag
  clear the steps are those of the code.
\<close>

definition unshaded_reuse :: "gc_heap \<Rightarrow> nat \<Rightarrow> bool" where
  "unshaded_reuse h a \<longleftrightarrow> hp_phase h = Marking \<and> a \<in> set (hp_strings h) \<and> a \<notin> marked h"

inductive gc_step :: "bool \<Rightarrow> gc_heap \<times> u64 list \<Rightarrow> gc_heap \<times> u64 list \<Rightarrow> bool" for shaded where
  step_open: "hp_phase h = Idle \<Longrightarrow> mark_drain (begin_mark h (take_gc_roots h @ R)) = Some h' \<Longrightarrow> gc_step shaded (h, R) (h', R)"
| step_shade: "hp_phase h = Marking \<Longrightarrow> resurrect_during_mark h v = Some h' \<Longrightarrow> gc_step shaded (h, R) (h', v # R)"
| step_close: "hp_phase h = Marking \<Longrightarrow> mark_drain (remark_roots h (take_gc_roots h @ R)) = Some h1 \<Longrightarrow>
    gc_step shaded (h, R) (begin_sweep (clear_dead_weaks h1), R)"
| step_sweep: "sweep_quantum h n = Some (finished, h') \<Longrightarrow> gc_step shaded (h, R) (h', R)"
| step_collect: "hp_phase h = Idle \<Longrightarrow> collect h R = Some h' \<Longrightarrow> gc_step shaded (h, R) (h', R)"
| step_alloc: "room h base z al \<Longrightarrow> heap_alloc h base z al n obj = Some (a, h') \<Longrightarrow> object_fits h R a h' \<Longrightarrow> unat (heap_addr v) = a \<Longrightarrow>
    gc_step shaded (h, R) (h', v # R)"
| step_intern: "(shaded \<longrightarrow> \<not> unshaded_reuse h a) \<Longrightarrow> (intern_find h s = None \<longrightarrow> room h base z al) \<Longrightarrow> intern_str h base z al n s = Some (a, h') \<Longrightarrow> unat (heap_addr v) = a \<Longrightarrow>
    gc_step shaded (h, R) (h', v # R)"
| step_write: "program_writes h R h' R' \<Longrightarrow> gc_step shaded (h, R) (h', R')"

section \<open>The invariant\<close>

definition run_inv :: "gc_heap \<Rightarrow> u64 list \<Rightarrow> bool" where
  "run_inv h R \<longleftrightarrow> heap_base h \<and> weaks_ok h \<and> set (hp_strings h) \<subseteq> kept h \<and> keys_strings (kept h) h
     \<and> all_roots h R \<subseteq> kept h \<and> (\<forall>a \<in> kept h. \<forall>b. program_edge h a b \<longrightarrow> b \<in> kept h)
     \<and> (case hp_phase h of
          Idle \<Rightarrow> idle_inv h
        | Marking \<Rightarrow> hp_cursor h = None \<and> fresh_cells h = {} \<and> hp_gray h = [] \<and> tricolour h \<and> all_roots h R \<subseteq> marked h
        | Sweeping \<Rightarrow> sweep_inv h)"

lemma root_set_base: "heap_base h \<Longrightarrow> root_set h rs = {a \<in> dom (hp_cells h). \<exists>v \<in> set rs. a = unat (heap_addr v)}"
  using heap_dom_slot(1)[of h] by (auto simp: root_set_def heap_find_base)

lemma kept_dom: "kept h \<subseteq> dom (hp_cells h)" "hp_cursor h = None \<Longrightarrow> kept h = dom (hp_cells h)"
  by (auto simp: kept_def pending_def)

lemma program_edge_dom: "program_edge h a b \<Longrightarrow> b \<in> dom (hp_cells h)"
  using edge_dom by (auto simp: program_edge_def)

lemma run_inv_idle: "gc_idle h \<Longrightarrow> run_inv h R"
  using kept_dom(2)[of h] program_edge_dom root_set_dom by (auto simp: run_inv_def gc_idle_def idle_inv_def all_roots_def)

lemma can_get_kept:
  assumes "run_inv h R"
  shows "can_get h R \<subseteq> kept h" and "hp_phase h = Marking \<Longrightarrow> can_get h R \<subseteq> marked h"
proof -
  have closed: "b \<in> marked h" if "hp_phase h = Marking" "a \<in> marked h" "gc_edge h a b" for a b
    using assms that by (auto simp: run_inv_def tricolour_but_def)
  show m: "can_get h R \<subseteq> marked h" if p: "hp_phase h = Marking"
    using assms p closed[OF p] unfolding can_get_def by (simp, intro reach_closed) (auto simp: run_inv_def)
  have "b \<in> kept h" if "a \<in> all_roots h R \<union> set (hp_strings h)" "(program_edge h)\<^sup>*\<^sup>* a b" for a b
    using that(2,1)
  proof (induction rule: rtranclp_induct)
    case base
    then show ?case
      using assms by (auto simp: run_inv_def)
  next
    case (step b c)
    then show ?case
      using assms unfolding run_inv_def by blast
  qed
  moreover have "can_get h R \<subseteq> kept h" if p: "hp_phase h = Marking"
    using m[OF p] marked_dom[of h] kept_dom(2)[of h] assms p by (auto simp: run_inv_def)
  ultimately show "can_get h R \<subseteq> kept h"
    by (cases "hp_phase h = Marking") (auto simp: can_get_def)
qed

lemma marks_only_roots:
  assumes "marks_only h h'" and "heap_base h"
  shows "take_gc_roots h' = take_gc_roots h" "root_set h' rs = root_set h rs"
proof -
  have e: "h'\<lparr>hp_cells := Map.empty, hp_gray := []\<rparr> = h\<lparr>hp_cells := Map.empty, hp_gray := []\<rparr>"
    using assms by (simp add: marks_only_def)
  show "take_gc_roots h' = take_gc_roots h"
    using arg_cong[OF e, of take_gc_roots] by (simp add: take_gc_roots_def)
  show "root_set h' rs = root_set h rs"
    using marks_only_base(1)[OF assms(1)] marks_only_dom[OF assms(1)] assms(2) by (simp add: root_set_base)
qed

lemma marks_only_edges: "marks_only h h' \<Longrightarrow> program_edge h' = program_edge h"
  using marks_only_edge(1)[of h h'] marks_only_base(2)[of h h'] marks_only_dom[of h h'] by (simp add: program_edge_def fun_eq_iff)

text \<open>More marks, in a mark that is open.\<close>

lemma run_inv_marks:
  assumes inv: "heap_base h" "weaks_ok h" "set (hp_strings h) \<subseteq> dom (hp_cells h)" "keys_strings (dom (hp_cells h)) h"
      "hp_phase h = Marking" "hp_cursor h = None" "fresh_cells h = {}"
    and m: "marks_only h h'" "tricolour h'" "hp_gray h' = []" "all_roots h R \<subseteq> marked h'"
  shows "run_inv h' R"
proof -
  note f = marks_only_fields[OF m(1)] and b = marks_only_base[OF m(1)]
  have d: "dom (hp_cells h') = dom (hp_cells h)"
    by (rule marks_only_dom[OF m(1)])
  have k: "kept h' = dom (hp_cells h)"
    using kept_dom(2)[of h'] inv(6) f d by simp
  have refs: "cell_refs h' = cell_refs h"
    using m(1) by (simp add: marks_only_def fun_eq_iff)
  have roots: "all_roots h' R = all_roots h R"
    using marks_only_roots[OF m(1) inv(1)] by (simp add: all_roots_def)
  have "keys_strings (kept h') h'"
    using inv(4) by (simp add: keys_strings_def k refs b(3))
  moreover have "\<forall>a \<in> kept h'. \<forall>c. program_edge h' a c \<longrightarrow> c \<in> kept h'"
    using program_edge_dom[of h'] by (simp add: k d)
  moreover have "all_roots h R \<subseteq> kept h'"
    using root_set_dom by (simp add: k all_roots_def)
  ultimately show ?thesis
    using inv m f b roots marks_only_fresh[OF m(1)] by (simp add: run_inv_def weaks_ok_def k)
qed

lemma step_open_inv:
  assumes inv: "run_inv h R" and p: "hp_phase h = Idle" and r: "mark_drain (begin_mark h (take_gc_roots h @ R)) = Some h'"
  shows "run_inv h' R"
proof -
  let ?h = "h\<lparr>hp_phase := Marking\<rparr>"
  have idle: "idle_inv h" "heap_base h" "weaks_ok h" "hp_cursor h = None"
    using inv p by (auto simp: run_inv_def idle_inv_def)
  have k: "kept h = dom (hp_cells h)"
    by (rule kept_dom(2)[OF idle(4)])
  have strs: "set (hp_strings h) \<subseteq> dom (hp_cells h)" "keys_strings (dom (hp_cells h)) h"
    using inv k by (auto simp: run_inv_def)
  have none: "marked h = {}" "fresh_cells h = {}"
    using idle(1) by (auto simp: idle_inv_def guarded_eq)
  have "finite (dom (hp_cells h))"
    using idle(2) by (simp add: heap_base_def)
  from begin_mark_drain[OF p none(1) keys_strings_ok[OF strs(2)] this, of "take_gc_roots h @ R"]
  have m: "marks_only ?h h'" "tricolour h'" "hp_gray h' = []" "marked h' = gc_reach h (all_roots h R)"
    using r by (auto simp: all_roots_def)
  have env: "mark_env ?h = mark_env h"
    by (simp add: mark_env_def)
  note same = heap_same[of ?h h, OF _ env, simplified]
  have "all_roots ?h R = all_roots h R"
    by (simp add: all_roots_def same(5) take_gc_roots_def)
  moreover have "all_roots h R \<subseteq> gc_reach h (all_roots h R)"
    using root_set_dom by (auto simp: all_roots_def intro!: reach_refl)
  ultimately show ?thesis
    using idle strs none m same(2)
    by (intro run_inv_marks[of ?h])
      (auto simp: heap_base_def weaks_ok_def weak_target_def keys_strings_def string_at_def fresh_cells_def)
qed

lemma step_shade_inv:
  assumes inv: "run_inv h R" and p: "hp_phase h = Marking" and r: "resurrect_during_mark h v = Some h'"
  shows "run_inv h' (v # R)"
proof -
  have h: "heap_base h" "weaks_ok h" "hp_cursor h = None" "fresh_cells h = {}" "tricolour h" "all_roots h R \<subseteq> marked h"
    using inv p by (auto simp: run_inv_def)
  have k: "kept h = dom (hp_cells h)"
    by (rule kept_dom(2)[OF h(3)])
  have strs: "set (hp_strings h) \<subseteq> dom (hp_cells h)" "keys_strings (dom (hp_cells h)) h"
    using inv k by (auto simp: run_inv_def)
  have "finite (dom (hp_cells h))"
    using h(1) by (simp add: heap_base_def)
  from resurrect_drain[OF p h(5) keys_strings_ok[OF strs(2)] this, of v]
  have m: "marks_only h h'" "tricolour h'" "hp_gray h' = []" "marked h' = gc_reach h (marked h \<union> root_set h [v])"
    using r by auto
  have "all_roots h (v # R) = all_roots h R \<union> root_set h [v]"
    by (auto simp: all_roots_def root_set_def)
  then have "all_roots h (v # R) \<subseteq> marked h'"
    unfolding m(4) using h(6) root_set_dom[of h "[v]"] marked_dom[of h] by (auto intro!: reach_refl)
  then show ?thesis
    by (intro run_inv_marks[OF h(1,2) strs p h(3,4) m(1-3)])
qed

lemma step_close_inv:
  assumes inv: "run_inv h R" and p: "hp_phase h = Marking" and r: "mark_drain (remark_roots h (take_gc_roots h @ R)) = Some h1"
  shows "run_inv (begin_sweep (clear_dead_weaks h1)) R"
proof -
  have h: "heap_base h" "weaks_ok h" "hp_cursor h = None" "fresh_cells h = {}" "tricolour h" "all_roots h R \<subseteq> marked h"
    using inv p by (auto simp: run_inv_def)
  have k: "kept h = dom (hp_cells h)"
    by (rule kept_dom(2)[OF h(3)])
  have keys: "keys_strings (dom (hp_cells h)) h"
    using inv k by (auto simp: run_inv_def)
  have "finite (dom (hp_cells h))"
    using h(1) by (simp add: heap_base_def)
  from remark_drain[OF h(5) keys_strings_ok[OF keys] this, of "take_gc_roots h @ R"]
  have m: "marks_only h h1" "tricolour h1" "hp_gray h1 = []" "marked h \<subseteq> marked h1"
    using r by (auto simp: marks_only_def)
  note f = marks_only_fields[OF m(1)] and b = marks_only_base[OF m(1)]
  have h1: "heap_base h1" "hp_phase h1 = Marking" "fresh_cells h1 = {}" "weaks_ok h1"
    using h p b f marks_only_fresh[OF m(1)] by (simp_all add: weaks_ok_def)
  let ?h = "begin_sweep (clear_dead_weaks h1)"
  note c = close_mark[OF h1]
  have d: "dom (hp_cells ?h) = dom (hp_cells h1)" "dom (hp_cells h1) = dom (hp_cells h)"
    using c(4) clear_weaks_bits(1)[of UNIV h1] marks_only_dom[OF m(1)] by simp_all
  have base: "heap_base ?h"
    using c(1) by (simp add: sweep_inv_def)
  have refs: "cell_refs h1 = cell_refs h"
    using m(1) by (simp add: marks_only_def fun_eq_iff)
  have "take_gc_roots ?h = take_gc_roots h1"
    using clear_dead_weaks_eq[OF h1(1,4)] by (auto simp: begin_sweep_def unlink_unmarked_interns_def take_gc_roots_def clear_weaks_def)
  then have "all_roots ?h R = all_roots h R"
    using marks_only_roots[OF m(1) h(1)] d by (simp add: all_roots_def root_set_base[OF base] root_set_base[OF h(1)])
  moreover have "y \<in> kept ?h" if x: "x \<in> kept ?h" "program_edge ?h x y" for x y
  proof (cases "gc_edge ?h x y")
    case True
    then have "gc_edge h1 x y"
      using c(9) d by (simp add: gc_edge_def)
    then show ?thesis
      using m(2,3) x(1) c(2) by (auto simp: tricolour_but_def)
  next
    case False
    then have "weak_target h1 x = Some y" "\<not> dead_weak h1 x" "y \<in> dom (hp_cells h1)"
      using x(2) d by (auto simp: program_edge_def c(10) split: if_splits)
    then show ?thesis
      using c(2) by (auto simp: dead_weak_def)
  qed
  moreover have "keys_strings (kept ?h) ?h"
    using keys c(2) marked_dom[of h1] d(2) unfolding keys_strings_def c(9,11) refs b(3) by blast
  ultimately show ?thesis
    using c(1,2,3,8) base h(6) m(4) by (auto simp: run_inv_def sweep_inv_def)
qed

lemma swept_weaks:
  assumes "swept h h'" and "heap_base h" and "heap_base h'"
  shows "weak_target h' a = Some t \<Longrightarrow> weak_target h a = Some t" "weaks_ok h \<Longrightarrow> weaks_ok h'"
    "string_at h a \<Longrightarrow> a \<in> dom (hp_cells h') \<Longrightarrow> string_at h' a"
proof -
  have dom: "a \<in> dom (hp_cells h')" if "weak_target h' a = Some t" for a t
    using that by (cases "hp_cells h' a") (auto simp: weak_target_def)
  show t: "weak_target h a = Some t" if w: "weak_target h' a = Some t" for a t
    using swept_refs(2)[OF assms dom[OF w]] w by (cases "hp_cells h' a"; cases "hp_cells h a") (auto simp: weak_target_def)
  show "weaks_ok h \<Longrightarrow> weaks_ok h'"
    using t swept_fields(1)[OF assms(1)] by (auto simp: weaks_ok_def)
  show "string_at h a \<Longrightarrow> a \<in> dom (hp_cells h') \<Longrightarrow> string_at h' a"
    using swept_refs(2)[OF assms, of a] by (cases "hp_cells h' a"; cases "hp_cells h a") (auto simp: string_at_def)
qed

lemma swept_roots:
  assumes "swept h h'"
  shows "take_gc_roots h' = take_gc_roots h"
proof -
  let ?z = "\<lambda>h. h\<lparr>hp_cells := Map.empty, hp_slab := slab_new, hp_alloc_bytes := 0, hp_live_count := 0, hp_sweep_freed := 0, hp_cursor := None,
          hp_phase := Idle, hp_next_threshold := 0\<rparr> :: gc_heap"
  have e: "?z h' = ?z h"
    using assms by (simp add: swept_def)
  show ?thesis
    using arg_cong[OF e, of take_gc_roots] by (simp add: take_gc_roots_def)
qed

lemma run_inv_swept:
  assumes inv: "run_inv h R" and s: "swept h h'" and h': "heap_base h'"
    and phase: "hp_phase h' = Idle \<and> idle_inv h' \<or> hp_phase h' = Sweeping \<and> sweep_inv h'"
  shows "run_inv h' R"
proof -
  have h: "heap_base h" "weaks_ok h" "set (hp_strings h) \<subseteq> kept h" "keys_strings (kept h) h" "all_roots h R \<subseteq> kept h"
    and closed: "\<And>a b. a \<in> kept h \<Longrightarrow> program_edge h a b \<Longrightarrow> b \<in> kept h"
    using inv by (auto simp: run_inv_def)
  have k: "kept h' = kept h" and d: "dom (hp_cells h') \<subseteq> dom (hp_cells h)"
    using s by (auto simp: swept_def)
  have sub: "kept h \<subseteq> dom (hp_cells h')"
    using kept_dom(1)[of h'] k by simp
  have refs: "set (cell_refs h' a) \<subseteq> set (cell_refs h a)" if "a \<in> kept h" for a
    using swept_refs(1)[OF s h(1) h'] that sub by blast
  have edge: "program_edge h a b" if "a \<in> kept h" "program_edge h' a b" for a b
  proof (cases "gc_edge h' a b")
    case True
    then show ?thesis
      using refs[OF that(1)] d by (auto simp: program_edge_def gc_edge_def)
  next
    case False
    then show ?thesis
      using that(2) d swept_weaks(1)[OF s h(1) h', of a b] by (auto simp: program_edge_def)
  qed
  have "string_at h' x" if "a \<in> kept h" "(False, x) \<in> set (cell_refs h' a)" for a x
  proof -
    have x: "(False, x) \<in> set (cell_refs h a)" "string_at h x"
      using that refs h(4) by (auto simp: keys_strings_def)
    then have "program_edge h a x"
      by (force simp: program_edge_def gc_edge_def string_at_def)
    then show ?thesis
      using swept_weaks(3)[OF s h(1) h' x(2)] closed[OF that(1)] sub by blast
  qed
  moreover have "all_roots h' R \<subseteq> kept h"
    using h(5) d unfolding all_roots_def root_set_base[OF h(1)] root_set_base[OF h'] swept_roots[OF s] by blast
  ultimately show ?thesis
    using h(2,3) h' phase k closed edge swept_fields(2)[OF s] swept_weaks(2)[OF s h(1) h']
    unfolding run_inv_def keys_strings_def by auto
qed

lemma step_sweep_inv:
  assumes inv: "run_inv h R" and r: "sweep_quantum h n = Some (finished, h')"
  shows "run_inv h' R" "swept h h'"
proof -
  have "run_inv h' R \<and> swept h h'"
  proof (cases "hp_phase h = Sweeping")
    case True
    then have "sweep_inv h"
      using inv by (simp add: run_inv_def)
    from sweep_times_inv[OF this, of n] have s: "swept h h'" "if finished then idle_inv h' else sweep_inv h'"
      using r True by (auto simp: sweep_quantum_def split: if_splits)
    then have "run_inv h' R"
      using inv by (intro run_inv_swept[OF inv s(1)]) (auto simp: idle_inv_def sweep_inv_def split: if_splits)
    then show ?thesis
      using s by simp
  next
    case False
    then show ?thesis
      using r inv swept_refl by (simp add: sweep_quantum_def)
  qed
  then show "run_inv h' R" "swept h h'"
    by auto
qed

lemma run_inv_gc_idle:
  assumes "run_inv h R" and "hp_phase h = Idle"
  shows "gc_idle h"
  using assms kept_dom(2)[of h] by (auto simp: run_inv_def gc_idle_def idle_inv_def)

text \<open>A table key is marked whether or not an object is there; every other reference is to an object.\<close>

lemma key_marks: "(False, k) \<in> set (object_marks h obj) \<longleftrightarrow> (\<exists>t f tab m. obj = GInstance t f (StTable tab) \<and> (k, m) \<in> set tab)"
proof -
  have v: "(False, k) \<notin> set (value_marks h v)" for v h
    by (simp add: value_marks_def Let_def split: option.split)
  then have m: "(False, k) \<notin> set (member_marks h m)" for m h
    by (cases m) (simp_all add: member_marks_def)
  show ?thesis
    using v m by (cases obj) (auto simp: object_marks_def kinded_marks_def storage_slots_def split: instance_storage.splits option.splits)
qed

lemma alloc_kept:
  assumes inv: "run_inv h R" and base: "heap_base h'" and al: "slab_alloc (hp_slab h) base z al = Some (a, hp_slab h')" "a \<notin> dom (hp_cells h)"
    and cells: "hp_cells h' = (hp_cells h)(a \<mapsto> c)" "cell_marked c = (hp_phase h = Marking)"
      "cell_fresh c = (hp_phase h = Sweeping \<and> (case hp_cursor h of None \<Rightarrow> False | Some cur \<Rightarrow> \<not> walk_passed (hp_slab h') cur a))"
    and same: "hp_phase h' = hp_phase h" "hp_cursor h' = hp_cursor h"
  shows "kept h' = insert a (kept h)" "hp_phase h = Sweeping \<Longrightarrow> sweep_inv h'"
proof -
  have h: "heap_base h" and sw: "hp_phase h = Sweeping \<Longrightarrow> sweep_inv h" and off: "hp_phase h \<noteq> Sweeping \<Longrightarrow> hp_cursor h = None"
    using inv by (cases "hp_phase h"; auto simp: run_inv_def idle_inv_def)+
  have d: "dom (hp_cells h') = insert a (dom (hp_cells h))"
    using cells(1) by simp
  have g: "guarded h' = guarded h \<union> (if cell_marked c \<or> cell_fresh c then {a} else {})" "guarded h \<subseteq> dom (hp_cells h)"
    using cells(1) al(2) by (auto simp: guarded_def)
  have "kept h' = insert a (kept h) \<and> (hp_phase h = Sweeping \<longrightarrow> guarded h' \<subseteq> pending h' \<and>
    (case hp_cursor h' of None \<Rightarrow> True | Some cur \<Rightarrow> cursor_live (hp_slab h') cur))"
  proof (cases "hp_cursor h")
    case None
    then have "guarded h \<subseteq> {}" if "hp_phase h = Sweeping"
      using sw[OF that] by (auto simp: sweep_inv_def pending_def)
    then show ?thesis
      using None same d kept_dom(2)[of h] kept_dom(2)[of h'] g(1) cells by (auto simp: pending_def)
  next
    case (Some cur)
    then have s: "hp_phase h = Sweeping"
      using off by auto
    then have live: "cursor_live (hp_slab h) cur" "guarded h \<subseteq> pending h"
      using sw[OF s] Some by (auto simp: sweep_inv_def)
    note p = alloc_pending[OF h base al(1) d same(2) Some live(1)]
    have "a \<in> guarded h' \<longleftrightarrow> a \<in> pending h'"
      using g p(2) cells(2,3) s Some al(2) by auto
    moreover have "x \<in> guarded h' \<longleftrightarrow> x \<in> guarded h" "x \<in> pending h' \<longleftrightarrow> x \<in> pending h" if "x \<in> dom (hp_cells h)" for x
      using that al(2) g(1) p(1) by auto
    moreover have "guarded h' \<subseteq> pending h'"
    proof
      fix x assume x: "x \<in> guarded h'"
      then have "x = a \<or> x \<in> guarded h \<and> x \<in> dom (hp_cells h)"
        using g by (auto split: if_splits)
      then show "x \<in> pending h'"
        using x live(2) calculation by blast
    qed
    ultimately show ?thesis
      using cursor_live_alloc[OF al(1) live(1)] g(2) Some same(2) al(2) by (auto simp: kept_def d)
  qed
  then show "kept h' = insert a (kept h)" "hp_phase h = Sweeping \<Longrightarrow> sweep_inv h'"
    using base same(1) by (auto simp: sweep_inv_def)
qed

lemma alloc_inv:
  assumes inv: "run_inv h R" and room: "room h base z al" and r: "heap_alloc h base z al n obj = Some (a, h')" and fits: "object_fits h R a h'"
    and v: "unat (heap_addr v) = a"
  shows "run_inv h' (v # R)"
proof -
  have h: "heap_base h" "weaks_ok h" "set (hp_strings h) \<subseteq> kept h" "keys_strings (kept h) h" "all_roots h R \<subseteq> kept h"
    and closed: "\<And>a b. a \<in> kept h \<Longrightarrow> program_edge h a b \<Longrightarrow> b \<in> kept h"
    using inv by (auto simp: run_inv_def)
  obtain c where base: "heap_base h'" and al: "slab_alloc (hp_slab h) base z al = Some (a, hp_slab h')" "a \<notin> dom (hp_cells h)"
    and c: "hp_cells h' = (hp_cells h)(a \<mapsto> c)" "cell_obj c = obj" "cell_marked c = (hp_phase h = Marking)"
      "cell_fresh c = (hp_phase h = Sweeping \<and> (case hp_cursor h of None \<Rightarrow> False | Some cur \<Rightarrow> \<not> walk_passed (hp_slab h') cur a))"
    and same: "hp_phase h' = hp_phase h" "hp_cursor h' = hp_cursor h" "hp_gray h' = hp_gray h" "hp_class_kinds h' = hp_class_kinds h"
      "hp_freed_early h' = hp_freed_early h" "hp_strings h' = hp_strings h" "take_gc_roots h' = take_gc_roots h"
      "hp_weaks h' = hp_weaks h @ (case obj of GWeak _ _ \<Rightarrow> [a] | _ \<Rightarrow> [])"
    by (rule heap_alloc_base[OF h(1) room, of n obj]) (use r in auto)
  note k = alloc_kept[OF inv base al c(1,3,4) same(1,2)]
  note e = alloc_edges[OF h(1) base c(1) al(2) same(4,5)]
  have d: "dom (hp_cells h') = insert a (dom (hp_cells h))"
    using c(1) by simp
  have weaks: "weaks_ok h'"
    unfolding weaks_ok_def
  proof (intro allI impI)
    fix x t assume t: "weak_target h' x = Some t"
    show "x \<in> set (hp_weaks h')"
      using t e(3)[of x] h(2) same(8) c(1,2) by (cases "x = a"; cases obj) (auto simp: weaks_ok_def weak_target_def)
  qed
  have strings: "string_at h' k" if "string_at h k" for k
    using that al(2) c(1) by (auto simp: string_at_def)
  have keys: "keys_strings (kept h') h'"
    unfolding keys_strings_def
  proof (intro ballI allI impI)
    fix x k assume x: "x \<in> kept h'" "(False, k) \<in> set (cell_refs h' x)"
    have "string_at h k"
    proof (cases "x = a")
      case True
      then show ?thesis
        using fits x(2) by (simp add: object_fits_def)
    next
      case False
      then have "(False, k) \<in> set (cell_refs h x)" "x \<in> kept h"
        using x c(1) k(1) by (auto simp: cell_refs_def key_marks split: option.splits)
      then show ?thesis
        using h(4) by (auto simp: keys_strings_def)
    qed
    then show "string_at h' k"
      by (rule strings)
  qed
  have edges: "y \<in> kept h'" if x: "x \<in> kept h'" "program_edge h' x y" for x y
  proof (cases "x = a")
    case True
    then show ?thesis
      using fits x can_get_kept(1)[OF inv] k(1) by (auto simp: object_fits_def)
  next
    case False
    have "y = a \<or> program_edge h x y"
      using x(2) e(2,3)[OF False] d by (auto simp: program_edge_def)
    then show ?thesis
      using False x(1) closed[of x y] k(1) by auto
  qed
  have new: "all_roots h' (v # R) \<subseteq> insert a (all_roots h R)"
    using v unfolding all_roots_def root_set_base[OF h(1)] root_set_base[OF base] same(7) d by auto
  have roots: "all_roots h' (v # R) \<subseteq> kept h'"
    using new h(5) k(1) by auto
  show ?thesis
  proof (cases "hp_phase h")
    case Idle
    then have "idle_inv h"
      using inv by (simp add: run_inv_def)
    then have "idle_inv h'"
      using Idle base same c by (auto simp: idle_inv_def guarded_def)
    then show ?thesis
      using base weaks h(3) k(1) keys edges roots Idle same by (auto simp: run_inv_def)
  next
    case Sweeping
    then show ?thesis
      using base weaks h(3) k keys edges roots same by (auto simp: run_inv_def)
  next
    case Marking
    then have m: "hp_cursor h = None" "fresh_cells h = {}" "hp_gray h = []" "tricolour h" "all_roots h R \<subseteq> marked h"
      using inv by (auto simp: run_inv_def)
    have mk: "marked h' = insert a (marked h)"
      using c(1,3) Marking by (auto simp: marked_def)
    have "fresh_cells h' = {}"
      using c(1,4) Marking m(2) by (auto simp: fresh_cells_def)
    moreover have "y \<in> marked h'" if x: "x \<in> marked h'" "gc_edge h' x y" for x y
    proof (cases "x = a")
      case True
      then show ?thesis
        using fits x(2) can_get_kept(2)[OF inv Marking] mk by (auto simp: object_fits_def program_edge_def)
    next
      case False
      then show ?thesis
        using e(2)[OF False x(2)] x(1) mk m(3,4) by (auto simp: tricolour_but_def)
    qed
    ultimately show ?thesis
      using base weaks h(3) k keys edges roots same m new mk Marking by (auto simp: run_inv_def tricolour_but_def)
  qed
qed

lemma intern_find_mem: "intern_find h s = Some a \<Longrightarrow> a \<in> set (hp_strings h) \<and> string_at h a"
  by (auto simp: intern_find_def find_Some_iff string_at_def)

lemma heap_alloc_roots: "heap_alloc h base z al n obj = Some (a, h') \<Longrightarrow> take_gc_roots h' = take_gc_roots h"
  by (auto simp: heap_alloc_def take_gc_roots_def Let_def split: option.splits prod.splits)

lemma foldl_fixed: "(\<And>x. x \<in> set xs \<Longrightarrow> f s x = s) \<Longrightarrow> foldl f s xs = s"
  by (induction xs) auto

text \<open>Roots that are marked already add nothing to a mark.\<close>

lemma remark_same:
  assumes "hp_gray h = []" and "root_set h rs \<subseteq> marked h"
  shows "mark_drain (remark_roots h rs) = Some h"
proof -
  have mem: "mark_one h (True, a) = h" if "a \<in> marked h" for a
    using that by (auto simp: mark_one_def object_mark_def cell_mark_def marked_def)
  have "\<forall>r \<in> set rs. \<forall>m \<in> set (value_marks h r). mark_one h m = h"
    using assms(2) mem unfolding root_set_marks by (fastforce simp: value_marks_def Let_def split: if_splits)
  then have "foldl mark_one h (concat (map (value_marks h) rs)) = h"
    by (intro foldl_fixed) auto
  then have "remark_roots h rs = h"
    by (simp add: remark_roots_all)
  then show ?thesis
    using assms(1) by (subst mark_drain.simps) (simp add: mark_quantum_def mark_loop.simps[of 0])
qed

lemma step_intern_inv:
  assumes inv: "run_inv h R" and p: "\<not> unshaded_reuse h a" and room: "intern_find h s = None \<longrightarrow> room h base z al" and r: "intern_str h base z al n s = Some (a, h')"
    and v: "unat (heap_addr v) = a"
  shows "run_inv h' (v # R)"
proof (cases "intern_find h s")
  case (Some b)
  then have b: "b = a" "h' = h" "a \<in> set (hp_strings h)"
    using r intern_find_mem[OF Some] by (auto simp: intern_str_def)
  have h: "heap_base h" "all_roots h R \<subseteq> kept h" "set (hp_strings h) \<subseteq> kept h"
    using inv by (auto simp: run_inv_def)
  have "all_roots h (v # R) \<subseteq> insert a (all_roots h R)"
    using v unfolding all_roots_def root_set_base[OF h(1)] by auto
  moreover from this have "all_roots h (v # R) \<subseteq> kept h"
    using h(2,3) b(3) by blast
  moreover have "a \<in> marked h" if "hp_phase h = Marking"
    using that p b(3) by (simp add: unshaded_reuse_def)
  ultimately show ?thesis
    using inv unfolding b(2) run_inv_def by (cases "hp_phase h") auto
next
  case None
  then obtain h1 where h1: "heap_alloc h base z al n (GString s) = Some (a, h1)" "h' = h1\<lparr>hp_strings := hp_strings h1 @ [a]\<rparr>"
    using r by (auto simp: intern_str_def split: option.splits prod.splits)
  have cell: "\<exists>c. hp_cells h1 a = Some c \<and> cell_obj c = GString s"
    using h1(1) by (auto simp: heap_alloc_def Let_def split: option.splits prod.splits)
  then have "object_fits h R a h1"
    by (auto simp: object_fits_def program_edge_def gc_edge_def cell_refs_def object_marks_def weak_target_def)
  then have i: "run_inv h1 (v # R)"
    by (rule alloc_inv[OF inv room[rule_format, OF None] h1(1) _ v])
  have "a \<in> all_roots h1 (v # R)"
    using cell v i by (auto simp: all_roots_def root_set_base run_inv_def)
  then have "a \<in> kept h1"
    using i by (auto simp: run_inv_def)
  moreover have "hp_phase h1 = hp_phase h"
    using h1(1) by (auto simp: heap_alloc_def Let_def split: option.splits prod.splits)
  moreover have env: "mark_env h' = mark_env h1" "hp_cells h' = hp_cells h1"
    by (simp_all add: mark_env_def h1(2))
  note same = heap_same[of h' h1, OF env(2) env(1), simplified]
  have "kept h' = kept h1" "idle_inv h' = idle_inv h1" "sweep_inv h' = sweep_inv h1" "program_edge h' = program_edge h1" "heap_base h' = heap_base h1"
    "weaks_ok h' = weaks_ok h1" "marked h' = marked h1" "fresh_cells h' = fresh_cells h1" "tricolour h' = tricolour h1" "all_roots h' (v # R) = all_roots h1 (v # R)" "hp_phase h' = hp_phase h1" "keys_strings (kept h1) h' = keys_strings (kept h1) h1"
    "hp_strings h' = hp_strings h1 @ [a]"
    using same
    by (simp_all add: h1(2) kept_def pending_def guarded_def idle_inv_def sweep_inv_def heap_base_def program_edge_def weak_target_def weaks_ok_def
        all_roots_def take_gc_roots_def keys_strings_def string_at_def fun_eq_iff tricolour_but_def fresh_cells_def cong: option.case_cong)
  ultimately show ?thesis
    using i by (simp add: run_inv_def h1(2) split: gc_phase.splits)
qed

lemma step_write_inv:
  assumes inv: "run_inv h R" and w: "program_writes h R h' R'"
  shows "run_inv h' R'"
proof -
  have h: "heap_base h" "weaks_ok h" "set (hp_strings h) \<subseteq> kept h" "keys_strings (kept h) h"
    and closed: "\<And>a b. a \<in> kept h \<Longrightarrow> program_edge h a b \<Longrightarrow> b \<in> kept h"
    using inv by (auto simp: run_inv_def)
  have w: "\<exists>cells bytes. h' = h\<lparr>hp_cells := cells, hp_alloc_bytes := bytes\<rparr>" and d: "dom (hp_cells h') = dom (hp_cells h)"
    and bytes: "hp_alloc_bytes h' = heap_bytes (hp_cells h')" and m: "marked h' = marked h" "fresh_cells h' = fresh_cells h"
    and other: "\<And>a. a \<notin> can_get h R \<Longrightarrow> hp_cells h' a = hp_cells h a" and str: "\<And>a. string_at h a \<Longrightarrow> string_at h' a"
    and edge: "\<And>a b. a \<in> can_get h R \<Longrightarrow> gc_edge h' a b \<Longrightarrow> b \<in> can_get h R"
    and key: "\<And>a k. a \<in> can_get h R \<Longrightarrow> (False, k) \<in> set (cell_refs h' a) \<Longrightarrow> string_at h' k"
    and weak: "\<And>a t. a \<in> can_get h R \<Longrightarrow> weak_target h' a = Some t \<Longrightarrow> weak_target h a = Some t"
    and R': "all_roots h' R' \<subseteq> can_get h R"
    using w by (simp_all add: program_writes_def)
  have f: "hp_slab h' = hp_slab h" "hp_phase h' = hp_phase h" "hp_cursor h' = hp_cursor h" "hp_gray h' = hp_gray h" "hp_strings h' = hp_strings h"
    "hp_weaks h' = hp_weaks h" "hp_live_count h' = hp_live_count h" "hp_class_kinds h' = hp_class_kinds h" "hp_freed_early h' = hp_freed_early h"
    using w by auto
  have base: "heap_base h'"
    using h(1) bytes by (simp add: heap_base_def f d)
  have g: "guarded h' = guarded h" "pending h' = pending h" "kept h' = kept h"
    unfolding guarded_eq m pending_def f kept_def d by simp_all
  have refs: "r \<in> set (cell_refs h a)" if "a \<notin> can_get h R" "r \<in> set (cell_refs h' a)" for a r
    using that other[of a] object_marks_transfer[OF h(1) base f(8,9)] d by (cases r) (auto simp: cell_refs_def split: option.splits)
  have old: "gc_edge h a b" if "a \<notin> can_get h R" "gc_edge h' a b" for a b
    using that refs[OF that(1)] d by (auto simp: gc_edge_def)
  have target: "weak_target h a = Some t" if "weak_target h' a = Some t" for a t
    using that weak[of a t] other[of a] by (cases "a \<in> can_get h R") (auto simp: weak_target_def)
  note get = can_get_kept[OF inv]
  have keys: "keys_strings (kept h) h'"
    unfolding keys_strings_def
  proof (intro ballI allI impI)
    fix a k assume a: "a \<in> kept h" "(False, k) \<in> set (cell_refs h' a)"
    show "string_at h' k"
      using key[of a k] str[of k] refs[of a "(False, k)"] a h(4) by (cases "a \<in> can_get h R") (auto simp: keys_strings_def)
  qed
  have edges: "b \<in> kept h" if a: "a \<in> kept h" "program_edge h' a b" for a b
  proof (cases "gc_edge h' a b")
    case True
    then show ?thesis
      using edge[of a b] get(1) old[of a b] closed[OF a(1), of b] by (cases "a \<in> can_get h R") (auto simp: program_edge_def)
  next
    case False
    then have "weak_target h a = Some b \<and> b \<in> dom (hp_cells h)"
      using a(2) target[of a b] d by (auto simp: program_edge_def)
    then show ?thesis
      using closed[OF a(1), of b] by (simp add: program_edge_def)
  qed
  have weaks: "weaks_ok h'"
    using h(2) target f by (simp add: weaks_ok_def)
  have "hp_cursor h = None \<and> fresh_cells h = {} \<and> hp_gray h = [] \<and> tricolour h' \<and> all_roots h' R' \<subseteq> marked h" if p: "hp_phase h = Marking"
  proof -
    have tri: "hp_gray h = []" "tricolour h" "hp_cursor h = None" "fresh_cells h = {}"
      using inv p by (auto simp: run_inv_def)
    have "b \<in> marked h" if "a \<in> marked h" "gc_edge h' a b" for a b
      using that edge[of a b] get(2)[OF p] old[of a b] tri(1,2) by (cases "a \<in> can_get h R") (auto simp: tricolour_but_def)
    then have "tricolour h'"
      by (simp add: tricolour_but_def f tri(1) m(1))
    then show ?thesis
      using tri R' get(2)[OF p] by blast
  qed
  moreover have "idle_inv h' = idle_inv h" "sweep_inv h' = sweep_inv h"
    using base h(1) unfolding idle_inv_def sweep_inv_def g f by simp_all
  moreover have "hp_phase h = Idle \<Longrightarrow> idle_inv h" "hp_phase h = Sweeping \<Longrightarrow> sweep_inv h"
    using inv by (simp_all add: run_inv_def)
  ultimately have phase: "case hp_phase h of Idle \<Rightarrow> idle_inv h'
    | Marking \<Rightarrow> hp_cursor h = None \<and> fresh_cells h = {} \<and> hp_gray h = [] \<and> tricolour h' \<and> all_roots h' R' \<subseteq> marked h | Sweeping \<Rightarrow> sweep_inv h'"
    by (cases "hp_phase h") simp_all
  show ?thesis
    unfolding run_inv_def g f m using base weaks keys edges h(3) R' get(1) phase by blast
qed

lemma gc_step_inv:
  assumes "gc_step True (h, R) (h', R')" and "run_inv h R"
  shows "run_inv h' R'"
  using assms(1)
proof (cases rule: gc_step.cases)
  case step_collect
  then have idle: "gc_idle h"
    by (intro run_inv_gc_idle[OF assms(2)])
  show ?thesis
  proof (cases "hp_epoch_stw h")
    case True
    then show ?thesis
      using step_collect assms(2) by (simp add: collect_def)
  next
    case False
    then show ?thesis
      using collect_ends[OF idle False, of R] step_collect run_inv_idle by auto
  qed
next
  case step_open
  then show ?thesis
    using step_open_inv[OF assms(2)] by simp
next
  case step_shade
  then show ?thesis
    using step_shade_inv[OF assms(2)] by simp
next
  case step_close
  then show ?thesis
    using step_close_inv[OF assms(2)] by simp
next
  case step_sweep
  then show ?thesis
    using step_sweep_inv(1)[OF assms(2)] by simp
next
  case step_alloc
  then show ?thesis
    using alloc_inv[OF assms(2)] by simp
next
  case (step_intern a s base z al n v)
  show ?thesis
    unfolding step_intern(1) by (rule step_intern_inv[OF assms(2) _ step_intern(3-5)]) (use step_intern(2) in simp)
next
  case step_write
  then show ?thesis
    using step_write_inv[OF assms(2)] by simp
qed

lemma gc_idle_default: "gc_idle heap_default"
  using slab_new_inv
  by (simp add: gc_idle_def idle_inv_def heap_base_def heap_default_def guarded_def heap_bytes_def keys_strings_def weaks_ok_def weak_target_def
      slab_new_def classes_fit_def is_young_chunk_def table_new_def get_def)

lemma gc_run_inv:
  assumes "(gc_step True)\<^sup>*\<^sup>* (heap_default, []) (h, R)"
  shows "run_inv h R"
  using assms
proof (induction "(h, R)" arbitrary: h R rule: rtranclp_induct)
  case base
  then show ?case
    by (simp add: run_inv_idle gc_idle_default)
next
  case (step y)
  then show ?case
    using gc_step_inv by (cases y) blast
qed

section \<open>A sweep in quanta\<close>

lemma sweep_times_all:
  assumes "hp_phase h = Sweeping" and "sweep_times n h = Some (finished, h')"
  shows "if finished then Option.bind (sweep_all h) finish_sweep_cycle = Some h' else sweep_all h = sweep_all h' \<and> hp_phase h' = Sweeping"
  using assms
proof (induction n arbitrary: h)
  case 0
  then show ?case
    by (cases "hp_cursor h = None") (auto simp: sweep_all.simps[of h])
next
  case (Suc n)
  show ?case
  proof (cases "hp_cursor h = None")
    case True
    then show ?thesis
      using Suc.prems by (auto simp: sweep_all.simps[of h])
  next
    case False
    then obtain h1 where h1: "sweep_one h = Some h1" "sweep_times n h1 = Some (finished, h')"
      using Suc.prems(2) by (auto split: Option.bind_splits)
    then have "hp_phase h1 = Sweeping"
      using Suc.prems(1)
      by (auto simp: sweep_one_def dealloc_swept_def Let_def split: option.splits prod.splits if_splits)
    then show ?thesis
      using Suc.IH[OF _ h1(2)] h1(1) False by (auto simp: sweep_all.simps[of h])
  qed
qed

lemma sweep_quantum_finish:
  assumes "hp_phase h = Sweeping" and "sweep_quantum h n = Some (finished, h')"
  shows "finished \<Longrightarrow> finish_sweep h = Some h'" "\<not> finished \<Longrightarrow> finish_sweep h = finish_sweep h' \<and> hp_phase h' = Sweeping"
  using sweep_times_all[of h n finished h'] assms by (auto simp: sweep_quantum_def finish_sweep_def)

text \<open>The quanta of a sweep, one after the other, each of at least one object, until the cycle is over.\<close>

fun sweep_slices :: "nat list \<Rightarrow> gc_heap \<Rightarrow> (bool \<times> gc_heap) option" where
  "sweep_slices [] h = Some (False, h)"
| "sweep_slices (n # ns) h = (case sweep_quantum h n of
     None \<Rightarrow> None
   | Some (True, h') \<Rightarrow> Some (True, h')
   | Some (False, h') \<Rightarrow> sweep_slices ns h')"

definition sweep_left :: "gc_heap \<Rightarrow> nat" where
  "sweep_left h = (case hp_cursor h of None \<Rightarrow> 0 | Some cur \<Rightarrow> Suc (length (walk_rest (hp_slab h) cur)))"

definition slots_to_visit :: "gc_heap \<Rightarrow> nat" where
  "slots_to_visit h = (case hp_cursor h of None \<Rightarrow> 0 | Some cur \<Rightarrow> length (walk_rest (hp_slab h) cur))"

lemma to_visit_left: "slots_to_visit h \<le> sweep_left h"
  by (auto simp: slots_to_visit_def sweep_left_def split: option.split)

lemma sweep_times_left:
  assumes "sweep_inv h" and "sweep_times n h = Some (False, h')"
  shows "sweep_left h' + n \<le> sweep_left h" "0 < sweep_left h'"
proof -
  have "sweep_left h' + n \<le> sweep_left h \<and> 0 < sweep_left h'"
    using assms
  proof (induction n arbitrary: h)
    case 0
    then show ?case
      by (auto simp: sweep_left_def split: if_splits)
  next
    case (Suc n)
    then obtain cur h1 where h1: "hp_cursor h = Some cur" "sweep_one h = Some h1" "sweep_times n h1 = Some (False, h')"
      by (auto split: if_splits Option.bind_splits)
    obtain h2 where h2: "sweep_one h = Some h2" "sweep_inv h2" "case hp_cursor h2 of None \<Rightarrow> True
      | Some cur' \<Rightarrow> length (walk_rest (hp_slab h2) cur') < length (walk_rest (hp_slab h) cur)"
      using sweep_one_step[OF Suc.prems(1) h1(1)] by blast
    then have "sweep_left h1 < sweep_left h" "sweep_inv h1"
      using h1 by (auto simp: sweep_left_def split: option.splits)
    then show ?case
      using Suc.IH[OF _ h1(3)] by fastforce
  qed
  then show "sweep_left h' + n \<le> sweep_left h" "0 < sweep_left h'"
    by auto
qed

lemma sweep_slices_end:
  assumes "sweep_inv h" and "\<forall>n \<in> set ns. 0 < n" and "sweep_left h \<le> sum_list ns" and "ns \<noteq> []"
  shows "\<exists>h'. sweep_slices ns h = Some (True, h') \<and> finish_sweep h = Some h'"
  using assms
proof (induction ns arbitrary: h)
  case (Cons n ns)
  have phase: "hp_phase h = Sweeping"
    using Cons.prems(1) by (simp add: sweep_inv_def)
  obtain finished h1 where q: "sweep_times n h = Some (finished, h1)" "if finished then idle_inv h1 else sweep_inv h1"
    using sweep_times_inv[OF Cons.prems(1), of n] by fastforce
  then have q': "sweep_quantum h n = Some (finished, h1)"
    using phase by (simp add: sweep_quantum_def)
  note eq = sweep_quantum_finish[OF phase q']
  show ?case
  proof (cases finished)
    case True
    then show ?thesis
      using eq(1) q' by simp
  next
    case False
    then have left: "sweep_left h1 + n \<le> sweep_left h" "0 < sweep_left h1" and inv: "sweep_inv h1"
      using sweep_times_left[OF Cons.prems(1), of n h1] q by auto
    then have "sweep_left h1 \<le> sum_list ns" "ns \<noteq> []"
      using Cons.prems(3) by auto
    then show ?thesis
      using Cons.IH[OF inv] Cons.prems(2) eq(2)[OF False] q' False by simp
  qed
qed simp

section \<open>A run\<close>

text \<open>A program may let go of roots.\<close>

lemma program_drops:
  assumes inv: "run_inv h R" and R': "set R' \<subseteq> set R"
  shows "program_writes h R h R'"
proof -
  have h: "heap_base h" "keys_strings (kept h) h"
    using inv by (auto simp: run_inv_def)
  have roots: "all_roots h R' \<subseteq> all_roots h R"
    using R' by (auto simp: all_roots_def root_set_def)
  have get: "all_roots h R \<subseteq> can_get h R"
    using root_set_dom by (auto simp: can_get_def all_roots_def intro!: reach_refl)
  have closed: "b \<in> can_get h R" if ab: "a \<in> can_get h R" "gc_edge h a b" for a b
  proof (cases "hp_phase h = Marking")
    case True
    then show ?thesis
      using ab reach_step by (simp add: can_get_def)
  next
    case False
    then obtain r where "r \<in> all_roots h R \<union> set (hp_strings h)" "(program_edge h)\<^sup>*\<^sup>* r a"
      using ab(1) by (auto simp: can_get_def)
    moreover have "program_edge h a b"
      using ab(2) by (simp add: program_edge_def)
    ultimately show ?thesis
      using False rtranclp.rtrancl_into_rtrancl[of "program_edge h" r a b] by (auto simp: can_get_def)
  qed
  have "string_at h k" if "a \<in> can_get h R" "(False, k) \<in> set (cell_refs h a)" for a k
    using that can_get_kept(1)[OF inv] h(2) by (auto simp: keys_strings_def)
  then show ?thesis
    using roots get closed h(1) unfolding program_writes_def heap_base_def by (auto intro!: exI[of _ "hp_cells h"] exI[of _ "hp_alloc_bytes h"])
qed

definition sample_interned :: gc_heap where
  "sample_interned = snd (the (intern_str heap_default 0x100000 16384 8 40 [104]))"

definition sample_heap :: gc_heap where
  "sample_heap = snd (the (heap_alloc sample_interned 0x200000 16384 8 24 (GBoxed (MemberValue 0))))"

lemma sample_default: "hp_slab heap_default = slab_new" "hp_phase heap_default = Idle" "hp_strings heap_default = []" "hp_cursor heap_default = None"
  by (simp_all add: heap_default_def)

lemma sample_intern:
  "intern_str heap_default 0x100000 16384 8 40 [104] = Some (0x100000, sample_interned)"
  "hp_slab sample_interned = sample_slab" "hp_phase sample_interned = Idle" "hp_strings sample_interned = [0x100000]"
  "hp_cells sample_interned = [0x100000 \<mapsto> \<lparr>cell_marked = False, cell_fresh = False, cell_size = 40, cell_obj = GString [104]\<rparr>]"
  "hp_freed_early sample_interned = False" "hp_epoch_stw sample_interned = False"
  by (simp_all add: sample_interned_def intern_str_def intern_find_def heap_alloc_def sample_slab_alloc(1) sample_default Let_def heap_default_def)

lemma sample_second: "\<exists>s. slab_alloc sample_slab 0x200000 16384 8 = Some (0x104000, s) \<and> sb_chunks s = [\<lparr>ck_ptr = 0x100000, ck_meta = page_meta_new 16384 8 0\<rparr>]"
  by (simp add: sample_slab_def slab_alloc_def carve_page_def carve_slots_def slab_new_def table_new_def table_push_def
      CHUNK_def sample_align carve_from_eq Let_def upt_4)

lemma sample_box:
  "heap_alloc sample_interned 0x200000 16384 8 24 (GBoxed (MemberValue 0)) = Some (0x104000, sample_heap)"
  "hp_phase sample_heap = Idle" "sb_chunks (hp_slab sample_heap) = [\<lparr>ck_ptr = 0x100000, ck_meta = page_meta_new 16384 8 0\<rparr>]" "hp_freed_early sample_heap = False" "hp_epoch_stw sample_heap = False"
  "hp_cells sample_heap = [0x100000 \<mapsto> \<lparr>cell_marked = False, cell_fresh = False, cell_size = 40, cell_obj = GString [104]\<rparr>,
     0x104000 \<mapsto> \<lparr>cell_marked = False, cell_fresh = False, cell_size = 24, cell_obj = GBoxed (MemberValue 0)\<rparr>]"
  using sample_second by (auto simp: sample_heap_def heap_alloc_def sample_intern Let_def side_list_of_def finalizer_type_of_def)

lemma sample_room: "room heap_default 0x100000 16384 8" "room sample_interned 0x200000 16384 8"
proof -
  have "(2 :: u64) ^ 3 dvd 0x200000"
    unfolding dvd_def by (rule exI[where x = "0x40000"]) simp
  from align_up_aligned[OF _ this] have "unat (align_up 0x200000 8) = 0x200000"
    by simp
  then show "room sample_interned 0x200000 16384 8"
    by (simp add: room_def chunk_fits_def sample_intern(2) sample_slab_alloc(2) CHUNK_def Let_def)
  show "room heap_default 0x100000 16384 8"
    using sample_fits by (simp add: room_def sample_default)
qed

lemma sample_addr: "unat (heap_addr 0x100000) = 0x100000" "unat (heap_addr 0x104000) = 0x104000"
  by (simp_all add: heap_addr_def)

lemma sample_run: "(gc_step True)\<^sup>*\<^sup>* (heap_default, []) (sample_heap, [0x104000])"
proof -
  have 1: "gc_step True (heap_default, []) (sample_interned, [0x100000])"
    by (rule step_intern[OF _ _ sample_intern(1) sample_addr(1)]) (simp_all add: unshaded_reuse_def sample_default sample_room)
  then have inv: "run_inv sample_interned [0x100000]"
    by (intro gc_run_inv) simp
  have "object_fits sample_interned [0x100000] 0x104000 sample_heap"
    by (auto simp: object_fits_def program_edge_def gc_edge_def cell_refs_def object_marks_def member_marks_def value_marks_def
        sample_box weak_target_def heap_addr_def)
  then have 2: "gc_step True (sample_interned, [0x100000]) (sample_heap, [0x104000, 0x100000])"
    by (rule step_alloc[OF sample_room(2) sample_box(1) _ sample_addr(2)])
  then have "run_inv sample_heap [0x104000, 0x100000]"
    by (rule gc_step_inv[OF _ inv])
  then have "gc_step True (sample_heap, [0x104000, 0x100000]) (sample_heap, [0x104000])"
    by (intro step_write program_drops) auto
  then show ?thesis
    using 1 2 by (meson converse_rtranclp_into_rtranclp rtranclp.rtrancl_refl)
qed

lemma sample_reach: "root_set sample_heap [0x104000] = {0x104000}" "gc_reach sample_heap {0x104000} = {0x104000}"
proof -
  have "heap_base sample_heap"
    using gc_run_inv[OF sample_run] by (simp add: run_inv_def)
  then show "root_set sample_heap [0x104000] = {0x104000}"
    by (auto simp: root_set_base sample_box sample_addr)
  have "gc_reach sample_heap {0x104000} \<subseteq> {0x104000}"
    by (rule reach_closed)
      (auto simp: gc_edge_def cell_refs_def object_marks_def member_marks_def value_marks_def sample_box heap_addr_def)
  moreover have "0x104000 \<in> gc_reach sample_heap {0x104000}"
    by (rule reach_refl) (simp_all add: sample_box)
  ultimately show "gc_reach sample_heap {0x104000} = {0x104000}"
    by blast
qed

lemma sample_roots: "take_gc_roots sample_heap = []"
proof -
  have "take_gc_roots sample_interned = []"
    by (simp add: sample_interned_def intern_str_def intern_find_def heap_alloc_def sample_slab_alloc(1) sample_default Let_def heap_default_def
        take_gc_roots_def)
  then show ?thesis
    using heap_alloc_roots[OF sample_box(1)] by simp
qed

lemma sample_opened:
  "\<exists>h. (gc_step True)\<^sup>*\<^sup>* (heap_default, []) (h, [0x104000]) \<and> hp_phase h = Marking \<and> marked h = {0x104000} \<and> marks_only (sample_heap\<lparr>hp_phase := Marking\<rparr>) h"
proof -
  have inv: "run_inv sample_heap [0x104000]"
    by (rule gc_run_inv[OF sample_run])
  have idle: "gc_idle sample_heap"
    by (rule run_inv_gc_idle[OF inv]) (simp add: sample_box)
  have "keys_ok sample_heap" "finite (dom (hp_cells sample_heap))" "marked sample_heap = {}"
    using idle keys_strings_ok by (auto simp: gc_idle_def idle_inv_def heap_base_def guarded_eq)
  from begin_mark_drain[OF sample_box(2) this(3,1,2), of "[0x104000]"]
  obtain h where h: "mark_drain (begin_mark sample_heap [0x104000]) = Some h" "marks_only (sample_heap\<lparr>hp_phase := Marking\<rparr>) h" "marked h = {0x104000}"
    by (auto simp: sample_reach)
  then have "gc_step True (sample_heap, [0x104000]) (h, [0x104000])"
    by (intro step_open) (simp_all add: sample_box sample_roots)
  then show ?thesis
    using sample_run h(2,3) marks_only_fields(6)[OF h(2)] by (intro exI[of _ h]) auto
qed

lemma sample_sweeping:
  "\<exists>h. (gc_step True)\<^sup>*\<^sup>* (heap_default, []) (h, [0x104000]) \<and> sweep_inv h \<and> kept h = {0x104000} \<and> dom (hp_cells h) = {0x100000, 0x104000} \<and> sweep_left h \<le> 5"
proof -
  obtain h where h: "(gc_step True)\<^sup>*\<^sup>* (heap_default, []) (h, [0x104000])" "hp_phase h = Marking" "marked h = {0x104000}" "marks_only (sample_heap\<lparr>hp_phase := Marking\<rparr>) h"
    using sample_opened by blast
  have inv: "run_inv h [0x104000]"
    by (rule gc_run_inv[OF h(1)])
  then have m: "heap_base h" "tricolour h" "hp_gray h = []" "fresh_cells h = {}" "weaks_ok h" "all_roots h [0x104000] \<subseteq> marked h"
    using h(2) by (auto simp: run_inv_def)
  have same: "mark_drain (remark_roots h (take_gc_roots h @ [0x104000])) = Some h"
    by (rule remark_same[OF m(3) m(6)[unfolded all_roots_def]])
  let ?h = "begin_sweep (clear_dead_weaks h)"
  note c = close_mark[OF m(1) h(2) m(4,5)]
  have "gc_step True (h, [0x104000]) (?h, [0x104000])"
    by (rule step_close[OF h(2) same])
  moreover have d: "dom (hp_cells ?h) = {0x100000, 0x104000}"
    using c(4) clear_weaks_bits(1)[of UNIV h] marks_only_dom[OF h(4)] by (auto simp: sample_box)
  moreover have "sweep_left ?h \<le> 5"
  proof -
    have "hp_cursor ?h = Some cursor_sweep"
      using c(1) h(2) clear_dead_weaks_eq[OF m(1,5)] by (auto simp: begin_sweep_def clear_weaks_def)
    moreover have "sb_chunks (hp_slab ?h) = [\<lparr>ck_ptr = 0x100000, ck_meta = page_meta_new 16384 8 0\<rparr>]"
      using c(5) marks_only_fields(1)[OF h(4)] by (simp add: sample_box(3))
    moreover have "walk_rest (hp_slab ?h) cursor_sweep = rev (walk_slots (hp_slab ?h) cursor_sweep)"
      by (simp add: walk_rest_def walk_chunks_rev) (simp add: cursor_sweep_def cursor_default_def)
    ultimately show ?thesis
      by (simp add: sweep_left_def walk_slots_def sample_slots)
  qed
  ultimately show ?thesis
    using h(1,3) c(1,2) by (intro exI[of _ ?h]) auto
qed

lemma sample_strings: "hp_strings sample_heap = [0x100000]"
  using sample_second by (auto simp: sample_heap_def heap_alloc_def sample_intern Let_def)

lemma sample_opened_cells:
  assumes "marks_only (sample_heap\<lparr>hp_phase := Marking\<rparr>) h"
  shows "\<exists>c d. hp_cells h 0x104000 = Some c \<and> cell_obj c = GBoxed (MemberValue 0) \<and> hp_cells h 0x100000 = Some d \<and> cell_obj d = GString [104]"
proof -
  have "\<exists>c. hp_cells h a = Some c \<and> unflag (cell_obj c) = unflag (cell_obj c0)" if "hp_cells sample_heap a = Some c0" for a c0
  proof -
    have "a \<in> dom (hp_cells h)"
      using that marks_only_dom[OF assms] by auto
    then obtain c where "hp_cells h a = Some c"
      by blast
    then show ?thesis
      using marks_only_cell[OF assms, of a c] that by auto
  qed
  from this[of "0x104000"] this[of "0x100000"] obtain c d where
    "hp_cells h 0x104000 = Some c" "unflag (cell_obj c) = GBoxed (MemberValue 0)" "hp_cells h 0x100000 = Some d" "unflag (cell_obj d) = GString [104]"
    by (simp add: sample_box(6)) (auto simp: unflag_def)
  moreover have "obj = GBoxed m" if "unflag obj = GBoxed m" for obj m
    using that by (cases obj) (simp_all add: unflag_def)
  ultimately show ?thesis
    by (intro exI[of _ c] exI[of _ d]) (simp add: unflag_eq)
qed

text \<open>A store into a box changes no header.\<close>

lemma box_store:
  fixes v :: "value"
  assumes base: "heap_base h" and c: "hp_cells h t = Some c" "cell_obj c = GBoxed m"
  defines "h' \<equiv> h\<lparr>hp_cells := (hp_cells h)(t \<mapsto> c\<lparr>cell_obj := GBoxed (MemberValue v)\<rparr>)\<rparr>"
  shows "heap_base h'" "marked h' = marked h" "fresh_cells h' = fresh_cells h" "weak_target h' = weak_target h" "dom (hp_cells h') = dom (hp_cells h)"
proof -
  show d: "dom (hp_cells h') = dom (hp_cells h)"
    using c(1) by (auto simp: h'_def)
  have "heap_bytes (hp_cells h') = heap_bytes (hp_cells h)"
    unfolding heap_bytes_def d by (rule sum.cong) (auto simp: h'_def c(1))
  then show "heap_base h'"
    using base d by (simp add: heap_base_def h'_def)
  show "marked h' = marked h" "fresh_cells h' = fresh_cells h" "weak_target h' = weak_target h"
    using c by (auto simp: marked_def fresh_cells_def weak_target_def h'_def fun_eq_iff)
qed

lemma box_write:
  fixes v :: "value"
  assumes inv: "run_inv h R" and p: "hp_phase h = Marking" and c: "hp_cells h t = Some c" "cell_obj c = GBoxed m" and t: "t \<in> all_roots h R"
    and a: "unat (heap_addr v) = a" "a \<in> dom (hp_cells h)"
  defines "h' \<equiv> h\<lparr>hp_cells := (hp_cells h)(t \<mapsto> c\<lparr>cell_obj := GBoxed (MemberValue v)\<rparr>)\<rparr>"
  shows "program_writes h (v # R) h' R"
proof -
  have h: "heap_base h" "keys_strings (dom (hp_cells h)) h"
    using inv p kept_dom(2)[of h] by (auto simp: run_inv_def)
  note store = box_store[OF h(1) c, of v, folded h'_def]
  have roots: "all_roots h R \<subseteq> all_roots h (v # R)" "a \<in> all_roots h (v # R)"
    using a by (auto simp: all_roots_def root_set_base[OF h(1)])
  have get: "x \<in> can_get h (v # R)" if "x \<in> all_roots h (v # R)" for x
    using that p root_set_dom by (auto simp: can_get_def all_roots_def intro!: reach_refl)
  have closed: "b \<in> can_get h (v # R)" if "x \<in> can_get h (v # R)" "gc_edge h x b" for x b
    using that p reach_step by (simp add: can_get_def)
  have refs: "(g, b) \<in> set (cell_refs h x)" if "x \<noteq> t" "(g, b) \<in> set (cell_refs h' x)" for x g b
    using that object_marks_transfer[OF h(1) store(1), of g b "cell_obj (the (hp_cells h x))"] store(5)
    by (cases "hp_cells h x") (auto simp: cell_refs_def h'_def)
  have box: "set (cell_refs h' t) \<subseteq> {(True, a)}"
    using a(1) by (auto simp: cell_refs_def h'_def object_marks_def member_marks_def value_marks_base[OF store(1), unfolded h'_def] Let_def split: if_splits)
  have "string_at h' x" if "string_at h x" for x
    using that c by (auto simp: string_at_def h'_def)
  moreover from this have "string_at h' k" if k: "(False, k) \<in> set (cell_refs h' x)" for x k
  proof -
    have r: "(False, k) \<in> set (cell_refs h x)"
      using k box refs[of x False k] by (cases "x = t") auto
    then have "x \<in> dom (hp_cells h)"
      by (cases "hp_cells h x") (auto simp: cell_refs_def)
    then show ?thesis
      using r h(2) calculation by (auto simp: keys_strings_def)
  qed
  moreover have "b \<in> can_get h (v # R)" if "x \<in> can_get h (v # R)" "gc_edge h' x b" for x b
    using that refs[of x _ b] box closed[of x b] get roots(2) store(5) by (cases "x = t") (fastforce simp: gc_edge_def)+
  moreover have "hp_cells h' x = hp_cells h x" if "x \<notin> can_get h (v # R)" for x
    using that get roots(1) t by (auto simp: h'_def)
  moreover have "all_roots h' R \<subseteq> can_get h (v # R)"
  proof -
    have "all_roots h' R = all_roots h R"
      using store(1,5) h(1) by (simp add: all_roots_def root_set_base take_gc_roots_def h'_def)
    then show ?thesis
      using get roots(1) by blast
  qed
  moreover have "hp_alloc_bytes h' = heap_bytes (hp_cells h')"
    using store(1) by (simp add: heap_base_def)
  moreover have "\<exists>cells bytes. h' = h\<lparr>hp_cells := cells, hp_alloc_bytes := bytes\<rparr>"
    by (intro exI[of _ "hp_cells h'"] exI[of _ "hp_alloc_bytes h"]) (simp add: h'_def)
  ultimately show ?thesis
    using store unfolding program_writes_def by auto
qed

lemma gc_step_mono: "gc_step True x y \<Longrightarrow> gc_step False x y"
proof (induction rule: gc_step.induct)
  case (step_intern h a s base z al n h' v R)
  show ?case
    by (rule gc_step.step_intern[OF _ step_intern(2-4)]) simp
qed (auto intro: gc_step.intros)

text \<open>A sweep is finished by one large quantum.\<close>

lemma finish_sweep_step:
  assumes "sweep_inv h" and "finish_sweep h = Some h2"
  shows "gc_step shaded (h, R) (h2, R)"
proof -
  obtain h' where "sweep_slices [Suc (sweep_left h)] h = Some (True, h')" "finish_sweep h = Some h'"
    using sweep_slices_end[OF assms(1), of "[Suc (sweep_left h)]"] by auto
  then have "sweep_quantum h (Suc (sweep_left h)) = Some (True, h2)"
    using assms(2) by (auto split: option.splits bool.splits)
  then show ?thesis
    by (rule step_sweep)
qed

section \<open>The properties\<close>

text \<open>C8:
  Marking. On an idle heap with no marks whose table keys are strings, opening a cycle and draining the gray list
  (\<open>begin_mark\<close>, then \<open>mark_quantum\<close> until it is empty) ends, marks exactly the objects the roots lead to, and changes
  nothing else of any object but the \<open>may_hold_refs\<close> hint of arrays found to hold no reference.
\<close>

theorem mark_exact:
  assumes "hp_phase h = Idle" and "marked h = {}" and "keys_ok h" and "finite (dom (hp_cells h))"
  shows "\<exists>h'. mark_drain (begin_mark h root_addrs) = Some h' \<and> hp_phase h' = Marking \<and> hp_gray h' = []
    \<and> marked h' = gc_reach h (root_set h root_addrs)
    \<and> (\<forall>a. map_option cell_shape (hp_cells h' a) = map_option cell_shape (hp_cells h a))
    \<and> (\<forall>a. cell_refs h' a = cell_refs h a)"
proof -
  let ?h = "h\<lparr>hp_phase := Marking\<rparr>"
  obtain h' where h': "mark_drain (begin_mark h root_addrs) = Some h'" "marks_only ?h h'" "hp_gray h' = []"
    "marked h' = gc_reach h (root_set h root_addrs)"
    using begin_mark_drain[OF assms, of root_addrs] by blast
  have "mark_env ?h = mark_env h"
    by (simp add: mark_env_def)
  from heap_same(2)[of ?h h, OF _ this] show ?thesis
    using h' marks_only_fields[OF h'(2)] by (intro exI[of _ h']) (simp add: marks_only_def)
qed

theorem mark_exact_witness:
  "\<exists>h'. mark_drain (begin_mark sample_heap [0x104000]) = Some h' \<and> 0x104000 \<in> marked h' \<and> 0x100000 \<notin> marked h'"
proof -
  have inv: "run_inv sample_heap [0x104000]"
    by (rule gc_run_inv[OF sample_run])
  have idle: "gc_idle sample_heap"
    by (rule run_inv_gc_idle[OF inv]) (simp add: sample_box)
  have "keys_ok sample_heap" "finite (dom (hp_cells sample_heap))" "marked sample_heap = {}"
    using idle keys_strings_ok by (auto simp: gc_idle_def idle_inv_def heap_base_def guarded_eq)
  from mark_exact[OF sample_box(2) this(3,1,2), of "[0x104000]"] show ?thesis
    using sample_reach by auto
qed

text \<open>C20:
  The lazy sweep. Whatever positive quanta the safepoints give it, once they add up to more than the slots still to visit
  (the step that finds no slot left is what closes the cycle) the cycle is over, and the heap is the one \<open>finish_sweep\<close>
  makes in one go: it holds the objects the mark reached, those allocated during the sweep and those the cursor had
  passed, no others, all flags are clear, and the counters of bytes and objects are exact.
\<close>

theorem sweep_slices_exact:
  assumes "sweep_inv h" and "\<forall>n \<in> set ns. 0 < n" and "slots_to_visit h < sum_list ns"
  shows "\<exists>h'. sweep_slices ns h = Some (True, h') \<and> finish_sweep h = Some h' \<and> hp_phase h' = Idle
    \<and> dom (hp_cells h') = dom (hp_cells h) - (pending h - guarded h) \<and> guarded h' = {}
    \<and> (\<forall>a \<in> dom (hp_cells h'). map_option settle (hp_cells h' a) = map_option settle (hp_cells h a))
    \<and> hp_alloc_bytes h' = heap_bytes (hp_cells h') \<and> hp_live_count h' = card (dom (hp_cells h'))
    \<and> hp_next_threshold h' \<le> hp_byte_cap h'"
proof -
  have "sweep_left h \<le> sum_list ns" "ns \<noteq> []"
    using assms(3) by (auto simp: sweep_left_def slots_to_visit_def split: option.splits)
  then obtain h' where h': "sweep_slices ns h = Some (True, h')" "finish_sweep h = Some h'"
    using sweep_slices_end[OF assms(1,2)] by blast
  moreover have "idle_inv h'" "swept h h'" "dom (hp_cells h') = kept h" "hp_next_threshold h' \<le> hp_byte_cap h'"
    using finish_sweep_ends[OF assms(1)] h'(2) by auto
  ultimately show ?thesis
    by (intro exI[of _ h']) (auto simp: idle_inv_def heap_base_def swept_def kept_def)
qed

theorem sweep_slices_exact_witness:
  "\<exists>h h'. hp_phase h = Sweeping \<and> dom (hp_cells h) = {0x100000, 0x104000} \<and> sweep_slices [2, 1, 7] h = Some (True, h')
     \<and> finish_sweep h = Some h' \<and> dom (hp_cells h') = {0x104000} \<and> hp_live_count h' = 1"
proof -
  obtain h where h: "sweep_inv h" "kept h = {0x104000}" "dom (hp_cells h) = {0x100000, 0x104000}" "sweep_left h \<le> 5"
    using sample_sweeping by blast
  obtain h' where "sweep_slices [2, 1, 7] h = Some (True, h')" "finish_sweep h = Some h'" "dom (hp_cells h') = kept h" "hp_live_count h' = card (dom (hp_cells h'))"
    using sweep_slices_exact[OF h(1), of "[2, 1, 7]"] h(4) to_visit_left[of h] by (auto simp: kept_def simp del: sweep_slices.simps)
  then show ?thesis
    using h(1-3) by (intro exI[of _ h] exI[of _ h']) (simp add: sweep_inv_def)
qed

text \<open>C7:
  A whole collection. From an idle heap, outside an epoch, \<open>collect\<close> returns; the objects left are exactly those the
  roots lead to, each of them as it was but for weak handles whose target died, which are cleared; the heap is idle
  and sound again, so the same holds of the next collection; the next threshold is at most the byte cap.
\<close>

theorem collect_exact:
  assumes "gc_idle h" and "\<not> hp_epoch_stw h"
  shows "\<exists>h'. collect h extra = Some h' \<and> gc_idle h' \<and> dom (hp_cells h') = gc_reach h (root_set h (take_gc_roots h @ extra))
    \<and> (\<forall>a \<in> dom (hp_cells h'). survives h h' a) \<and> hp_next_threshold h' \<le> hp_byte_cap h' \<and> \<not> hp_epoch_stw h'"
  using collect_ends[OF assms, of extra] assms(2) by auto

theorem collect_exact_witness:
  "\<exists>h'. collect sample_heap [0x104000] = Some h' \<and> dom (hp_cells h') = {0x104000} \<and> survives sample_heap h' 0x104000"
proof -
  have "gc_idle sample_heap"
    by (rule run_inv_gc_idle[OF gc_run_inv[OF sample_run]]) (simp add: sample_box)
  from collect_exact[OF this, of "[0x104000]"] show ?thesis
    by (auto simp: sample_box(5) sample_roots sample_reach)
qed

text \<open>C6:
  No object is freed while the program can get at it. The runs interleave a program (allocations, interned strings, writes,
  weak upgrades, roots let go) with the opening of cycles, their close, quanta of the sweep of any size and whole
  collections, with one restriction: no interning hands out, while a mark is open, a string of the intern table that the mark
  has not reached (another property shows what goes wrong otherwise). What the program can get at are the objects its roots
  lead to; while no mark is open also weak targets and all interned strings, while one is open the interned strings already
  marked. In every state of such a run these are in the heap, the next quantum of the sweep returns and leaves
  each of them as it is, closing an open mark returns with each of them marked, and the counters of bytes and objects
  are exact.
\<close>

theorem gc_safe:
  assumes "(gc_step True)\<^sup>*\<^sup>* (heap_default, []) (h, R)"
  shows "can_get h R \<subseteq> dom (hp_cells h)
    \<and> (\<exists>finished h'. sweep_quantum h n = Some (finished, h') \<and> (\<forall>a \<in> can_get h R. map_option settle (hp_cells h' a) = map_option settle (hp_cells h a)))
    \<and> (hp_phase h = Marking \<longrightarrow> (\<exists>h1. mark_drain (remark_roots h (take_gc_roots h @ R)) = Some h1 \<and> can_get h R \<subseteq> marked h1))
    \<and> hp_alloc_bytes h = heap_bytes (hp_cells h) \<and> hp_live_count h = card (dom (hp_cells h))"
proof -
  have inv: "run_inv h R"
    by (rule gc_run_inv[OF assms])
  then have base: "heap_base h"
    by (simp add: run_inv_def)
  note get = can_get_kept[OF inv]
  have "\<exists>finished h'. sweep_quantum h n = Some (finished, h') \<and> swept h h'"
  proof (cases "hp_phase h = Sweeping")
    case True
    then have "sweep_inv h"
      using inv by (simp add: run_inv_def)
    from sweep_times_inv[OF this, of n] show ?thesis
      using True by (auto simp: sweep_quantum_def)
  next
    case False
    then show ?thesis
      using swept_refl by (intro exI[of _ True] exI[of _ h]) (simp add: sweep_quantum_def)
  qed
  moreover have "\<exists>h1. mark_drain (remark_roots h (take_gc_roots h @ R)) = Some h1 \<and> can_get h R \<subseteq> marked h1" if p: "hp_phase h = Marking"
  proof -
    have m: "tricolour h" "hp_cursor h = None" "keys_strings (kept h) h"
      using inv p by (auto simp: run_inv_def)
    then have "keys_ok h"
      using kept_dom(2)[of h] by (intro keys_strings_ok) simp
    from remark_drain[OF m(1) this, of "take_gc_roots h @ R"] obtain h1 where "mark_drain (remark_roots h (take_gc_roots h @ R)) = Some h1" "marked h \<subseteq> marked h1"
      using base by (auto simp: heap_base_def marks_only_def)
    then show ?thesis
      using get(2)[OF p] by blast
  qed
  moreover have "can_get h R \<subseteq> dom (hp_cells h)" "hp_alloc_bytes h = heap_bytes (hp_cells h)" "hp_live_count h = card (dom (hp_cells h))"
    using get(1) kept_dom(1)[of h] base by (auto simp: heap_base_def)
  ultimately show ?thesis
    using get(1) unfolding swept_def by blast
qed

theorem gc_safe_witness:
  "\<exists>h finished h'. (gc_step True)\<^sup>*\<^sup>* (heap_default, []) (h, [0x104000]) \<and> hp_phase h = Sweeping \<and> 0x104000 \<in> can_get h [0x104000]
     \<and> 0x104000 \<in> dom (hp_cells h) \<and> sweep_quantum h 3 = Some (finished, h')
     \<and> map_option settle (hp_cells h' 0x104000) = map_option settle (hp_cells h 0x104000)"
proof -
  obtain h where h: "(gc_step True)\<^sup>*\<^sup>* (heap_default, []) (h, [0x104000])" "sweep_inv h" "kept h = {0x104000}" "dom (hp_cells h) = {0x100000, 0x104000}"
    using sample_sweeping by blast
  then have "0x104000 \<in> all_roots h [0x104000]"
    by (auto simp: all_roots_def root_set_base sweep_inv_def sample_addr)
  then have "0x104000 \<in> can_get h [0x104000]"
    using h(2) by (auto simp: can_get_def sweep_inv_def)
  then show ?thesis
    using gc_safe[OF h(1), of 3] h(1,2,4) by (intro exI[of _ h]) (auto simp: sweep_inv_def)
qed

text \<open>C38:
  Interning while a mark is open does not shade. In a reachable state with a mark open (a finalizer is running), a
  string of the intern table that is unmarked is returned as it is; once the program has stored it in a box that is
  a root, closing the mark and finishing the sweep free the string, and the box still holds its address. All of this
  is a run of the code's own steps. The comment of \<open>resurrect_during_mark\<close> calls weak upgrades the only way to such an
  object.
\<close>

theorem intern_during_mark_dangles:
  assumes "(gc_step True)\<^sup>*\<^sup>* (heap_default, []) (h, R)" and "hp_phase h = Marking" and "intern_find h s = Some a" and "a \<notin> marked h"
    and "hp_cells h t = Some c" and "cell_obj c = GBoxed m" and "t \<in> all_roots h R" and "unat (heap_addr v) = a"
  shows "intern_str h base z al n s = Some (a, h)
    \<and> (\<exists>h' h1 h2. h' = h\<lparr>hp_cells := (hp_cells h)(t \<mapsto> c\<lparr>cell_obj := GBoxed (MemberValue v)\<rparr>)\<rparr> \<and> gc_edge h' t a
      \<and> mark_drain (remark_roots h' (take_gc_roots h' @ R)) = Some h1 \<and> finish_sweep (begin_sweep (clear_dead_weaks h1)) = Some h2
      \<and> (\<exists>c2. hp_cells h2 t = Some c2 \<and> cell_obj c2 = GBoxed (MemberValue v)) \<and> hp_cells h2 a = None
      \<and> (gc_step False)\<^sup>*\<^sup>* (heap_default, []) (h2, R))"
proof -
  let ?c = "c\<lparr>cell_obj := GBoxed (MemberValue v)\<rparr>"
  let ?h = "h\<lparr>hp_cells := (hp_cells h)(t \<mapsto> ?c)\<rparr>"
  have inv: "run_inv h R"
    by (rule gc_run_inv[OF assms(1)])
  then have h: "heap_base h" "weaks_ok h" "fresh_cells h = {}" "hp_gray h = []" "all_roots h R \<subseteq> marked h"
    using assms(2) by (auto simp: run_inv_def)
  have a: "a \<in> dom (hp_cells h)"
    using intern_find_mem[OF assms(3)] by (auto simp: string_at_def)
  note store = box_store[OF h(1) assms(5,6), of v]
  have roots: "root_set ?h (take_gc_roots ?h @ R) \<subseteq> marked ?h"
  proof -
    have "take_gc_roots ?h = take_gc_roots h"
      by (simp add: take_gc_roots_def)
    then show ?thesis
      using h(5) unfolding all_roots_def root_set_base[OF h(1)] root_set_base[OF store(1)] store(2,5) by simp
  qed
  have drain: "mark_drain (remark_roots ?h (take_gc_roots ?h @ R)) = Some ?h"
    by (rule remark_same[OF _ roots]) (simp add: h(4))
  have w: "weaks_ok ?h" "hp_phase ?h = Marking" "fresh_cells ?h = {}"
    using h(2,3) assms(2) by (simp_all add: weaks_ok_def store)
  note closed = close_mark[OF store(1) w(2,3,1)]
  obtain h2 where h2: "finish_sweep (begin_sweep (clear_dead_weaks ?h)) = Some h2" "swept (begin_sweep (clear_dead_weaks ?h)) h2" "dom (hp_cells h2) = marked h"
    using finish_sweep_ends[OF closed(1)] closed(2) by (auto simp: store)
  have t: "t \<in> marked h"
    using assms(7) h(5) by blast
  then obtain c2 where c2: "hp_cells h2 t = Some c2"
    using h2(3) by blast
  have "hp_cells (begin_sweep (clear_dead_weaks ?h)) t = Some ?c"
    using closed(4) by (auto simp: clear_weaks_def dead_weak_def store weak_target_def assms(5,6))
  moreover have "map_option settle (hp_cells h2 t) = map_option settle (hp_cells (begin_sweep (clear_dead_weaks ?h)) t)"
    using h2(2,3) t by (simp add: swept_def)
  ultimately have "cell_obj c2 = GBoxed (MemberValue v)"
    using c2 by (cases c2; cases c) (simp add: settle_def)
  moreover have "hp_cells h2 a = None"
    using assms(4) h2(3) by (metis domIff)
  moreover have "gc_edge ?h t a"
    using a assms(8) heap_dom_slot(1)[OF h(1) a]
    by (auto simp: gc_edge_def cell_refs_def object_marks_def member_marks_def value_marks_base[OF store(1)])
  moreover have "intern_str h base z al n s = Some (a, h)"
    using assms(3) by (simp add: intern_str_def)
  moreover have "(gc_step False)\<^sup>*\<^sup>* (heap_default, []) (h2, R)"
  proof -
    have intern: "intern_str h 0 0 0 0 s = Some (a, h)"
      using assms(3) by (simp add: intern_str_def)
    have 1: "gc_step False (h, R) (h, v # R)"
      by (rule step_intern[OF _ _ intern assms(8)]) (simp_all add: assms(3))
    have 2: "gc_step False (h, v # R) (?h, R)"
      by (rule step_write, rule box_write[OF inv assms(2,5,6,7,8) a])
    have 3: "gc_step False (?h, R) (begin_sweep (clear_dead_weaks ?h), R)"
      by (rule step_close[OF w(2) drain])
    have 4: "gc_step False (begin_sweep (clear_dead_weaks ?h), R) (h2, R)"
      by (rule finish_sweep_step[OF closed(1) h2(1)])
    have "(gc_step False)\<^sup>*\<^sup>* (heap_default, []) (h, R)"
      using rtranclp_mono[of "gc_step True" "gc_step False"] gc_step_mono assms(1) by blast
    then show ?thesis
      using 1 2 3 4 by (meson rtranclp.rtrancl_into_rtrancl)
  qed
  ultimately show ?thesis
    using drain h2(1) c2 by (intro conjI exI[of _ ?h] exI[of _ h2]) auto
qed

theorem intern_during_mark_dangles_witness:
  "\<exists>h h' h1 h2 c. (gc_step True)\<^sup>*\<^sup>* (heap_default, []) (h, [0x104000]) \<and> intern_str h 0 0 0 0 [104] = Some (0x100000, h)
     \<and> hp_cells h 0x104000 = Some c \<and> h' = h\<lparr>hp_cells := (hp_cells h)(0x104000 \<mapsto> c\<lparr>cell_obj := GBoxed (MemberValue 0x100000)\<rparr>)\<rparr>
     \<and> mark_drain (remark_roots h' (take_gc_roots h' @ [0x104000])) = Some h1
     \<and> finish_sweep (begin_sweep (clear_dead_weaks h1)) = Some h2 \<and> 0x104000 \<in> dom (hp_cells h2) \<and> 0x100000 \<notin> dom (hp_cells h2)"
proof -
  obtain h where h: "(gc_step True)\<^sup>*\<^sup>* (heap_default, []) (h, [0x104000])" "hp_phase h = Marking" "marked h = {0x104000}" "marks_only (sample_heap\<lparr>hp_phase := Marking\<rparr>) h"
    using sample_opened by blast
  have base: "heap_base h"
    using gc_run_inv[OF h(1)] by (simp add: run_inv_def)
  obtain c d where c: "hp_cells h 0x104000 = Some c" "cell_obj c = GBoxed (MemberValue 0)" and d: "hp_cells h 0x100000 = Some d" "cell_obj d = GString [104]"
    using sample_opened_cells[OF h(4)] by blast
  have "intern_find h [104] = Some 0x100000"
    using d marks_only_fields(5)[OF h(4)] by (simp add: intern_find_def sample_strings)
  moreover have "0x104000 \<in> all_roots h [0x104000]"
    using c by (auto simp: all_roots_def root_set_base[OF base] sample_addr)
  ultimately show ?thesis
    using intern_during_mark_dangles[OF h(1,2), of "[104]" "0x100000" "0x104000" c "MemberValue 0" "0x100000" 0 0 0 0] h(1,3) c sample_addr(1)
    by fastforce
qed

end
