(* ===== verification/Slab_Evac.thy ===== *)
theory Slab_Evac
  imports Slab_Release
begin

text \<open>
  Evacuating sparse chunks, after \<^verbatim>\<open>evacuate_plan\<close> and \<^verbatim>\<open>evacuate_finish\<close> of \<^verbatim>\<open>machine/src/memory/compact.rs\<close>, as
  far as the slab goes: the count of live and movable objects per chunk, the choice of the chunks to empty, the
  slots of the new copies, and giving the emptied chunks back. The live objects are an argument, each with the
  layout of its slot when it may move (\<^verbatim>\<open>movable_layout\<close> of an object that is not pinned); the copy of the bytes and
  the rewriting of references are not modelled. The order in which a hash map yields its entries, the order in
  which an unstable sort leaves equal keys and the place where the operating system maps the chunk with index
  \<open>k\<close> are arguments too. A panic is the outcome \<open>None\<close>; the two subtractions of the plan are on natural numbers, and
  do not go below zero (\<open>counted_fits\<close>, \<open>released_le_mapped\<close>).
\<close>

section \<open>The choice of the chunks\<close>

record evac_object =
  eo_addr :: nat
  eo_layout :: "slot_class option"

text \<open>Chunk, live objects, movable objects, slots.\<close>

type_synonym chunk_fill = "nat \<times> nat \<times> nat \<times> nat"

definition MAX_STEP_CHUNKS :: nat where
  "MAX_STEP_CHUNKS = 64"

definition worth_it :: "nat \<Rightarrow> nat \<Rightarrow> bool" where
  "worth_it bytes slab_bytes \<longleftrightarrow> 2 ^ 20 \<le> bytes \<and> slab_bytes \<le> bytes * 4"

definition mapped_bytes :: "slab \<Rightarrow> nat" where
  "mapped_bytes s = length (sb_chunks s) * CHUNK"

definition free_slot_bytes :: "slab \<Rightarrow> nat" where
  "free_slot_bytes s = sum_list (map (\<lambda>c. length (fc_slots c) * unat (fst (fc_key c))) (sb_free s))"

definition chunk_of :: "slab \<Rightarrow> nat \<Rightarrow> nat option" where
  "chunk_of s addr = table_position (sb_table s) addr"

definition chunk_shape :: "slab \<Rightarrow> nat \<Rightarrow> (slot_class \<times> nat) option" where
  "chunk_shape s i = map_option (\<lambda>c. (chunk_class c,
     (CHUNK - unat (pm_first_off (ck_meta c))) div unat (pm_slot_size (ck_meta c)))) (get (sb_chunks s) i)"

definition count_object :: "slab \<Rightarrow> (nat \<times> nat) list \<Rightarrow> evac_object \<Rightarrow> (nat \<times> nat) list" where
  "count_object s counts ob = (case chunk_of s (eo_addr ob) of
     None \<Rightarrow> counts
   | Some i \<Rightarrow> if is_young_chunk s i then counts
       else counts[i := (fst (counts ! i) + 1, snd (counts ! i) + (if eo_layout ob = None then 0 else 1))])"

definition per_chunk :: "slab \<Rightarrow> evac_object list \<Rightarrow> (nat \<times> nat) list" where
  "per_chunk s objs = foldl (count_object s) (replicate (length (sb_chunks s)) (0, 0)) objs"

text \<open>The chunks of one class, sparsest first, while their objects fit in the free slots of the chunks that stay.\<close>

fun pick_sparse :: "nat \<Rightarrow> chunk_fill list \<Rightarrow> nat list" where
  "pick_sparse free_left [] = []"
| "pick_sparse free_left ((i, n, m, slots) # chunks) =
     (if m \<noteq> n then pick_sparse free_left chunks
      else if free_left < slots - n then []
      else
        (let left = free_left - (slots - n) in
         if left < m then [] else i # pick_sparse (left - m) chunks))"

definition class_chunks :: "slab \<Rightarrow> (nat \<times> nat) list \<Rightarrow> slot_class \<Rightarrow> chunk_fill list" where
  "class_chunks s counts key = List.map_filter
     (\<lambda>i. if fst (counts ! i) = 0 then None
          else case chunk_shape s i of
            None \<Rightarrow> None
          | Some (class, slots) \<Rightarrow> if class = key then Some (i, fst (counts ! i), snd (counts ! i), slots) else None)
     [0..<length counts]"

definition sparse_in_class :: "(nat \<Rightarrow> nat) \<Rightarrow> chunk_fill list \<Rightarrow> nat list" where
  "sparse_in_class tie chunks =
     (let sorted = sort_key (\<lambda>(i, n, m, slots). (n, tie i)) chunks in
      pick_sparse (sum_list (map (\<lambda>(i, n, m, slots). slots - n) sorted)) sorted)"

text \<open>The chosen chunks, how many the whole plan would empty, and whether the step was capped.\<close>

definition evac_chosen :: "slab \<Rightarrow> (nat \<times> nat) list \<Rightarrow> bool \<Rightarrow> slot_class list \<Rightarrow> (nat \<Rightarrow> nat) \<Rightarrow> nat list \<times> nat \<times> bool" where
  "evac_chosen s counts everything order tie =
     (if everything then (filter (\<lambda>i. 0 < snd (counts ! i)) [0..<length counts], 0, False)
      else
        (let out = concat (map (\<lambda>key. sparse_in_class tie (class_chunks s counts key)) order) in
         if MAX_STEP_CHUNKS < length out
         then (take MAX_STEP_CHUNKS (sort_key (\<lambda>i. (fst (counts ! i), tie i)) out), length out, True)
         else (out, length out, False)))"

section \<open>The copies and the end\<close>

record evacuation =
  ev_moved :: nat
  ev_pinned :: nat
  ev_chunks :: nat
  ev_released :: nat
  ev_capped :: bool

record evac_plan =
  ep_fwd :: "(nat \<times> nat) list"
  ep_parked :: "nat list"
  ep_emptied :: "bool list"
  ep_stats :: evacuation

text \<open>The old and new addresses of the objects moved, the number of pinned objects and the slab.\<close>

fun evac_copies :: "(nat \<Rightarrow> nat) \<Rightarrow> bool list \<Rightarrow> slab \<Rightarrow> evac_object list \<Rightarrow> ((nat \<times> nat) list \<times> nat \<times> slab) option" where
  "evac_copies mmap candidates s [] = Some ([], 0, s)"
| "evac_copies mmap candidates s (ob # objs) = (case chunk_of s (eo_addr ob) of
     None \<Rightarrow> evac_copies mmap candidates s objs
   | Some i \<Rightarrow>
       (case get candidates i of
          None \<Rightarrow> None
        | Some False \<Rightarrow> evac_copies mmap candidates s objs
        | Some True \<Rightarrow>
            (case eo_layout ob of
               None \<Rightarrow> map_option (\<lambda>(fwd, pinned, s'). (fwd, pinned + 1, s')) (evac_copies mmap candidates s objs)
             | Some (slot_size, align) \<Rightarrow>
                 (case slab_alloc s (mmap (length (sb_chunks s))) slot_size align of
                    None \<Rightarrow> None
                  | Some (to, s1) \<Rightarrow>
                      map_option (\<lambda>(fwd, pinned, s'). ((eo_addr ob, to) # fwd, pinned, s')) (evac_copies mmap candidates s1 objs)))))"

definition evacuate_plan ::
  "(nat \<Rightarrow> nat) \<Rightarrow> slot_class list \<Rightarrow> (nat \<Rightarrow> nat) \<Rightarrow> bool \<Rightarrow> slab \<Rightarrow> evac_object list \<Rightarrow> bool \<Rightarrow> (evac_plan option \<times> slab) option" where
  "evacuate_plan mmap order tie idle s objs everything =
     (let slab_bytes = mapped_bytes s - released_bytes s in
      if \<not> idle \<or> \<not> everything \<and> \<not> worth_it (free_slot_bytes s) slab_bytes then Some (None, s)
      else
        (let counts = per_chunk s objs; (chosen, planned, capped) = evac_chosen s counts everything order tie in
         if chosen = [] \<or> \<not> everything \<and> \<not> worth_it (planned * CHUNK) slab_bytes then Some (None, s)
         else
           (let candidates = map (\<lambda>i. i \<in> set chosen) [0..<length (sb_chunks s)];
                (parked, s1) = take_free_in s candidates in
            case evac_copies mmap candidates s1 objs of
              None \<Rightarrow> None
            | Some (fwd, pinned, s2) \<Rightarrow>
                Some (Some \<lparr>ep_fwd = fwd, ep_parked = parked,
                    ep_emptied = map (\<lambda>i. candidates ! i \<and> fst (counts ! i) = snd (counts ! i)) [0..<length (sb_chunks s)],
                    ep_stats = \<lparr>ev_moved = length fwd, ev_pinned = pinned, ev_chunks = length chosen, ev_released = 0, ev_capped = capped\<rparr>\<rparr>, s2))))"

text \<open>\<open>keys\<close> are the old addresses in the order the map yields them.\<close>

definition evacuate_finish :: "recent_cache \<Rightarrow> nat list \<Rightarrow> slab \<Rightarrow> evac_plan \<Rightarrow> evacuation \<times> slab" where
  "evacuate_finish recent keys s plan =
     (let s1 = foldl (\<lambda>s p. slab_free s recent p) s keys;
          s2 = foldl (\<lambda>s p. slab_free s recent p) s1 (ep_parked plan);
          (released, s3) = release_chunks s2 (ep_emptied plan) in
      ((ep_stats plan)\<lparr>ev_released := released\<rparr>, s3))"

section \<open>Counting\<close>

definition counted :: "slab \<Rightarrow> nat \<Rightarrow> evac_object \<Rightarrow> bool" where
  "counted s i ob \<longleftrightarrow> chunk_of s (eo_addr ob) = Some i \<and> \<not> is_young_chunk s i"

lemma chunk_of_iff: "slab_ok s \<Longrightarrow> chunk_of s addr = Some i \<longleftrightarrow> i < length (sb_chunks s) \<and> in_chunk (sb_chunks s ! i) addr"
  by (simp add: chunk_of_def slab_ok_def table_position_iff)

lemma foldl_count:
  assumes "i < length counts"
  shows "length (foldl (count_object s) counts objs) = length counts"
    and "foldl (count_object s) counts objs ! i = (fst (counts ! i) + length (filter (counted s i) objs),
      snd (counts ! i) + length (filter (\<lambda>ob. counted s i ob \<and> eo_layout ob \<noteq> None) objs))"
  using assms
proof (induction objs arbitrary: counts)
  case (Cons ob objs)
  {
    case 1
    then show ?case
      using Cons(1)[of "count_object s counts ob"] by (simp add: count_object_def split: option.splits)
  next
    case 2
    have len: "length (count_object s counts ob) = length counts"
      by (simp add: count_object_def split: option.splits)
    have "count_object s counts ob ! i = (fst (counts ! i) + of_bool (counted s i ob), snd (counts ! i) + of_bool (counted s i ob \<and> eo_layout ob \<noteq> None))"
      using 2 by (cases "chunk_of s (eo_addr ob) = Some i") (auto simp: count_object_def counted_def split: option.splits)
    then show ?case
      using Cons(2)[of "count_object s counts ob"] 2 len by simp
  }
qed simp_all

lemma per_chunk_nth:
  assumes "i < length (sb_chunks s)"
  shows "per_chunk s objs ! i = (length (filter (counted s i) objs), length (filter (\<lambda>ob. counted s i ob \<and> eo_layout ob \<noteq> None) objs))"
  using assms foldl_count(2)[of i "replicate (length (sb_chunks s)) (0, 0)" s objs] by (simp add: per_chunk_def)

lemma per_chunk_length: "length (per_chunk s objs) = length (sb_chunks s)"
proof -
  have "length (foldl (count_object s) counts objs) = length counts" for counts
    by (induction objs arbitrary: counts) (auto simp: count_object_def split: option.splits)
  then show ?thesis
    by (simp add: per_chunk_def)
qed

lemma all_movable:
  assumes "i < length (sb_chunks s)" and "fst (per_chunk s objs ! i) = snd (per_chunk s objs ! i)" and "ob \<in> set objs" and "counted s i ob"
  shows "eo_layout ob \<noteq> None"
proof (rule ccontr)
  assume "\<not> eo_layout ob \<noteq> None"
  then have "length (filter (\<lambda>ob. eo_layout ob \<noteq> None) (filter (counted s i) objs)) < length (filter (counted s i) objs)"
    using assms(3,4) by (intro length_filter_less[of ob]) auto
  then show False
    using assms(1,2) by (simp add: per_chunk_nth conj_commute)
qed

lemma pick_sparse_subset: "set (pick_sparse left chunks) \<subseteq> fst ` set chunks"
  by (induction left chunks rule: pick_sparse.induct) (auto simp: Let_def)

lemma map_filter_set: "y \<in> set (List.map_filter f xs) \<longleftrightarrow> (\<exists>x \<in> set xs. f x = Some y)"
  by (induction xs) (auto simp: map_filter_simps split: option.splits)

lemma class_chunks_fill:
  "(i, n, m, slots) \<in> set (class_chunks s counts key) \<Longrightarrow>
    i < length counts \<and> counts ! i = (n, m) \<and> 0 < n \<and> chunk_class (sb_chunks s ! i) = key"
  by (auto simp: class_chunks_def map_filter_set case_prod_unfold chunk_shape_def split: option.splits if_splits)

text \<open>Only a chunk with a live object in it is chosen.\<close>

lemma chosen_counted:
  assumes "i \<in> set (fst (evac_chosen s (per_chunk s objs) everything order tie))"
  shows "i < length (sb_chunks s) \<and> (\<exists>ob \<in> set objs. counted s i ob)"
proof -
  let ?pc = "per_chunk s objs"
  have sparse: "j < length ?pc \<and> 0 < fst (?pc ! j)" if "j \<in> set (sparse_in_class tie (class_chunks s ?pc key))" for j key
  proof -
    have "j \<in> fst ` set (class_chunks s ?pc key)"
      using that pick_sparse_subset by (fastforce simp: sparse_in_class_def Let_def)
    then obtain n m slots where "(j, n, m, slots) \<in> set (class_chunks s ?pc key)"
      by (auto simp: image_iff)
    from class_chunks_fill[OF this] show ?thesis
      by simp
  qed
  have "i < length ?pc \<and> (0 < fst (?pc ! i) \<or> 0 < snd (?pc ! i))"
    using assms sparse by (auto simp: evac_chosen_def Let_def split: if_splits dest!: in_set_takeD)
  then show ?thesis
    by (auto simp: per_chunk_length per_chunk_nth filter_empty_conv)
qed


lemma pick_sparse_full: "i \<in> set (pick_sparse left chunks) \<Longrightarrow> \<exists>n slots. (i, n, n, slots) \<in> set chunks"
  by (induction left chunks rule: pick_sparse.induct) (fastforce simp: Let_def split: if_splits)+

lemma pick_sparse_distinct: "distinct (map fst chunks) \<Longrightarrow> distinct (pick_sparse left chunks)"
proof (induction left chunks rule: pick_sparse.induct)
  case (2 left i n m slots chunks)
  have "i \<notin> set (pick_sparse k chunks)" for k
    using 2(3) pick_sparse_subset[of k chunks] by auto
  then show ?case
    using 2 by (auto simp: Let_def)
qed simp

lemma class_chunks_distinct: "distinct (map fst (class_chunks s counts key))"
proof -
  let ?f = "\<lambda>i. if fst (counts ! i) = 0 then None else case chunk_shape s i of None \<Rightarrow> None
    | Some (class, slots) \<Rightarrow> if class = key then Some (i, fst (counts ! i), snd (counts ! i), slots) else None"
  have "distinct (map fst (List.map_filter ?f l)) \<and> fst ` set (List.map_filter ?f l) \<subseteq> set l" if "distinct l" for l
    using that by (induction l) (auto simp: map_filter_simps case_prod_unfold split: option.splits)
  then show ?thesis
    unfolding class_chunks_def by simp
qed

lemma sparse_in_class_props:
  assumes "i \<in> set (sparse_in_class tie (class_chunks s counts key))"
  shows "i < length counts \<and> fst (counts ! i) = snd (counts ! i) \<and> chunk_class (sb_chunks s ! i) = key"
proof -
  obtain n slots where "(i, n, n, slots) \<in> set (class_chunks s counts key)"
    using assms pick_sparse_full by (fastforce simp: sparse_in_class_def Let_def)
  from class_chunks_fill[OF this] show ?thesis
    by simp
qed

lemma sparse_in_class_distinct: "distinct (sparse_in_class tie (class_chunks s counts key))"
proof -
  let ?cs = "class_chunks s counts key" and ?key = "\<lambda>(i :: nat, n :: nat, m :: nat, slots :: nat). (n, tie i)"
  have "mset (map fst (sort_key ?key ?cs)) = mset (map fst ?cs)"
    by simp
  then have "distinct (map fst (sort_key ?key ?cs))"
    using class_chunks_distinct mset_eq_imp_distinct_iff by blast
  then show ?thesis
    unfolding sparse_in_class_def Let_def by (rule pick_sparse_distinct)
qed

text \<open>Outside the stress mode at most \<open>MAX_STEP_CHUNKS\<close> chunks are chosen, each once, with all their objects movable.\<close>

lemma chosen_sparse:
  assumes "distinct order" and "evac_chosen s counts False order tie = (chosen, planned, capped)"
  shows "distinct chosen" and "length chosen \<le> MAX_STEP_CHUNKS" and "\<forall>i \<in> set chosen. fst (counts ! i) = snd (counts ! i)"
proof -
  let ?out = "concat (map (\<lambda>key. sparse_in_class tie (class_chunks s counts key)) order)"
  have "distinct ?out"
    using assms(1)
  proof (induction order)
    case (Cons key order)
    have "set (sparse_in_class tie (class_chunks s counts key)) \<inter> set (sparse_in_class tie (class_chunks s counts k)) = {}" if "k \<in> set order" for k
      using Cons(2) that sparse_in_class_props[of _ tie s counts key] sparse_in_class_props[of _ tie s counts k] by force
    then show ?case
      using Cons sparse_in_class_distinct by auto
  qed simp
  moreover have "\<forall>i \<in> set ?out. fst (counts ! i) = snd (counts ! i)"
    using sparse_in_class_props[of _ tie s counts] by auto
  moreover have "chosen = ?out \<and> length ?out \<le> MAX_STEP_CHUNKS
    \<or> chosen = take MAX_STEP_CHUNKS (sort_key (\<lambda>i. (fst (counts ! i), tie i)) ?out)"
    using assms(2) by (auto simp: evac_chosen_def Let_def split: if_splits)
  ultimately show "distinct chosen" "length chosen \<le> MAX_STEP_CHUNKS" "\<forall>i \<in> set chosen. fst (counts ! i) = snd (counts ! i)"
    by (auto simp: distinct_take dest!: in_set_takeD)
qed

section \<open>The copies\<close>

text \<open>Room for the new copies: wherever the operating system maps the next chunks, they lie apart from the others and
  a slot of each layout fits.\<close>

definition evac_room :: "(nat \<Rightarrow> nat) \<Rightarrow> slab \<Rightarrow> evac_object list \<Rightarrow> bool" where
  "evac_room mmap s objs \<longleftrightarrow> length (sb_chunks s) + length objs < 2 ^ 32 - 2
     \<and> (\<forall>k \<in> {length (sb_chunks s)..<length (sb_chunks s) + length objs}.
          mmap k + CHUNK \<le> 2 ^ 48
          \<and> (\<forall>c \<in> set (sb_chunks s). mmap k + CHUNK \<le> ck_ptr c \<or> ck_ptr c + CHUNK \<le> mmap k)
          \<and> (\<forall>j \<in> {length (sb_chunks s)..<k}. mmap k + CHUNK \<le> mmap j \<or> mmap j + CHUNK \<le> mmap k)
          \<and> (\<forall>ob \<in> set objs. case eo_layout ob of None \<Rightarrow> True | Some (z, al) \<Rightarrow>
               0 < z \<and> (let first = unat (align_up (of_nat (mmap k)) (ucast al)) in mmap k \<le> first \<and> first + unat z \<le> mmap k + CHUNK)))"

lemma evac_room_tl: "evac_room mmap s (ob # objs) \<Longrightarrow> evac_room mmap s objs"
  unfolding evac_room_def by fastforce

lemma evac_room_fits:
  assumes "evac_room mmap s (ob # objs)" and "eo_layout ob = Some (z, al)"
  shows "chunk_fits s (mmap (length (sb_chunks s))) z al"
  using assms by (fastforce simp: evac_room_def chunk_fits_def)

lemma evac_room_alloc:
  assumes "evac_room mmap s (ob # objs)" and "slab_alloc s (mmap (length (sb_chunks s))) z al = Some (p, s')"
  shows "evac_room mmap s' objs"
proof -
  from slab_alloc_shape(4)[OF assms(2)] consider "sb_chunks s' = sb_chunks s"
    | c where "sb_chunks s' = sb_chunks s @ [c]" "ck_ptr c = mmap (length (sb_chunks s))"
    by blast
  then show ?thesis
  proof cases
    case 1
    then show ?thesis
      using evac_room_tl[OF assms(1)] by (simp add: evac_room_def)
  next
    case 2
    then show ?thesis
      using assms(1) unfolding evac_room_def by (auto simp del: One_nat_def)
  qed
qed

text \<open>An object moves when it is movable and lies in a candidate chunk.\<close>

definition in_candidate :: "slab \<Rightarrow> bool list \<Rightarrow> evac_object \<Rightarrow> bool" where
  "in_candidate s candidates ob \<longleftrightarrow> (\<exists>i < length candidates. candidates ! i \<and> in_chunk (sb_chunks s ! i) (eo_addr ob))"

definition copied :: "slab \<Rightarrow> evac_object \<Rightarrow> nat \<times> nat \<Rightarrow> bool" where
  "copied s ob entry \<longleftrightarrow> fst entry = eo_addr ob \<and> (\<exists>key. eo_layout ob = Some key \<and> slot_has_class s key (snd entry))"

definition evac_ready :: "slab \<Rightarrow> nat set \<Rightarrow> bool list \<Rightarrow> evac_object list \<Rightarrow> bool" where
  "evac_ready s live candidates objs \<longleftrightarrow> slab_inv s live \<and> length candidates \<le> length (sb_chunks s)
     \<and> (\<forall>ob \<in> set objs. \<exists>i < length candidates. in_chunk (sb_chunks s ! i) (eo_addr ob))"

lemma evac_candidate:
  assumes "evac_ready s live candidates (ob # objs)"
  shows "\<exists>i < length candidates. chunk_of s (eo_addr ob) = Some i \<and> (in_candidate s candidates ob \<longleftrightarrow> candidates ! i)"
proof -
  obtain i where i: "i < length candidates" "in_chunk (sb_chunks s ! i) (eo_addr ob)"
    using assms by (auto simp: evac_ready_def)
  have of: "chunk_of s (eo_addr ob) = Some j \<longleftrightarrow> j < length (sb_chunks s) \<and> in_chunk (sb_chunks s ! j) (eo_addr ob)" for j
    using assms by (intro chunk_of_iff) (simp add: evac_ready_def slab_inv_def)
  have len: "length candidates \<le> length (sb_chunks s)"
    using assms by (simp add: evac_ready_def)
  then have at: "chunk_of s (eo_addr ob) = Some i"
    using of i by auto
  have "j = i" if "j < length candidates" "in_chunk (sb_chunks s ! j) (eo_addr ob)" for j
    using of[of j] at that len by auto
  then have "in_candidate s candidates ob \<longleftrightarrow> candidates ! i"
    unfolding in_candidate_def using i by blast
  then show ?thesis
    using at i by blast
qed

definition grows :: "slab \<Rightarrow> slab \<Rightarrow> bool" where
  "grows s s' \<longleftrightarrow> (\<exists>cs. sb_chunks s' = sb_chunks s @ cs) \<and> sb_young_mask s' = sb_young_mask s \<and> (\<forall>i. is_released s' i \<longrightarrow> is_released s i)"

lemma grows_refl: "grows s s"
  by (simp add: grows_def)

lemma grows_trans: "grows s s' \<Longrightarrow> grows s' s'' \<Longrightarrow> grows s s''"
  by (auto simp: grows_def)

lemma grows_alloc: "slab_alloc s base z al = Some (p, s') \<Longrightarrow> grows s s'"
  using slab_alloc_shape[of s base z al p s'] by (auto simp: grows_def)

lemma grows_chunk: "grows s s' \<Longrightarrow> i < length (sb_chunks s) \<Longrightarrow> i < length (sb_chunks s') \<and> sb_chunks s' ! i = sb_chunks s ! i"
  by (auto simp: grows_def nth_append)

lemma grows_class: "grows s s' \<Longrightarrow> slot_has_class s key p \<Longrightarrow> slot_has_class s' key p"
  by (auto simp: grows_def slot_has_class_def)

lemma in_candidate_grows: "grows s s' \<Longrightarrow> length candidates \<le> length (sb_chunks s) \<Longrightarrow> in_candidate s' candidates ob = in_candidate s candidates ob"
  using grows_chunk by (auto simp: in_candidate_def)

lemma evac_ready_grows:
  assumes "grows s s'" and "evac_ready s live candidates objs" and "slab_inv s' live'"
  shows "evac_ready s' live' candidates objs"
proof -
  obtain cs where "sb_chunks s' = sb_chunks s @ cs"
    using assms(1) by (auto simp: grows_def)
  then show ?thesis
    using assms(2,3) unfolding evac_ready_def by (fastforce simp: nth_append)
qed

lemma evac_copies_inv:
  assumes "evac_ready s live candidates objs" and "evac_room mmap s objs"
  shows "\<exists>fwd pinned s'. evac_copies mmap candidates s objs = Some (fwd, pinned, s') \<and> slab_inv s' (live \<union> snd ` set fwd)
    \<and> snd ` set fwd \<inter> live = {} \<and> distinct (map snd fwd) \<and> grows s s'
    \<and> list_all2 (copied s') (filter (\<lambda>ob. in_candidate s candidates ob \<and> eo_layout ob \<noteq> None) objs) fwd
    \<and> pinned = length (filter (\<lambda>ob. in_candidate s candidates ob \<and> eo_layout ob = None) objs)"
  using assms
proof (induction objs arbitrary: s live)
  case Nil
  then show ?case
    by (simp add: evac_ready_def grows_refl)
next
  case (Cons ob objs)
  obtain i where i: "i < length candidates" "chunk_of s (eo_addr ob) = Some i" "in_candidate s candidates ob \<longleftrightarrow> candidates ! i"
    using evac_candidate[OF Cons(2)] by blast
  have step: "evac_copies mmap candidates s (ob # objs) =
     (if \<not> candidates ! i then evac_copies mmap candidates s objs
      else case eo_layout ob of
        None \<Rightarrow> map_option (\<lambda>(fwd, pinned, s'). (fwd, pinned + 1, s')) (evac_copies mmap candidates s objs)
      | Some (z, al) \<Rightarrow> (case slab_alloc s (mmap (length (sb_chunks s))) z al of
          None \<Rightarrow> None
        | Some (to, s1) \<Rightarrow> map_option (\<lambda>(fwd, pinned, s'). ((eo_addr ob, to) # fwd, pinned, s')) (evac_copies mmap candidates s1 objs)))"
    using i(1,2) by (simp add: get_def)
  have ready: "evac_ready s live candidates objs" and inv: "slab_inv s live" and len: "length candidates \<le> length (sb_chunks s)"
    using Cons(2) by (auto simp: evac_ready_def)
  show ?case
  proof (cases "candidates ! i \<and> eo_layout ob \<noteq> None")
    case False
    then show ?thesis
      using Cons(1)[OF ready evac_room_tl[OF Cons(3)]] i(3) unfolding step by (cases "candidates ! i") auto
  next
    case True
    then obtain z al where z: "eo_layout ob = Some (z, al)" and cand: "candidates ! i"
      by auto
    obtain p s1 where a: "slab_alloc s (mmap (length (sb_chunks s))) z al = Some (p, s1)" "p \<notin> live" "slot_has_class s1 (z, al) p"
        "slab_inv s1 (insert p live)"
      using slab_alloc_inv[OF inv evac_room_fits[OF Cons(3) z]] by blast
    note g = grows_alloc[OF a(1)]
    have "evac_ready s1 (insert p live) candidates objs"
      using ready a(4) by (rule evac_ready_grows[OF g])
    from Cons(1)[OF this evac_room_alloc[OF Cons(3) a(1)]] obtain fwd pinned s' where
      c: "evac_copies mmap candidates s1 objs = Some (fwd, pinned, s')" "slab_inv s' (insert p live \<union> snd ` set fwd)"
        "snd ` set fwd \<inter> insert p live = {}" "distinct (map snd fwd)" "grows s1 s'"
        "list_all2 (copied s') (filter (\<lambda>ob. in_candidate s1 candidates ob \<and> eo_layout ob \<noteq> None) objs) fwd"
        "pinned = length (filter (\<lambda>ob. in_candidate s1 candidates ob \<and> eo_layout ob = None) objs)"
      by blast
    have "evac_copies mmap candidates s (ob # objs) = Some ((eo_addr ob, p) # fwd, pinned, s')"
      unfolding step using cand z a(1) c(1) by simp
    moreover have "copied s' ob (eo_addr ob, p)"
      using z grows_class[OF c(5) a(3)] by (simp add: copied_def)
    ultimately show ?thesis
      using a(2) c(2-4,6,7) grows_trans[OF g c(5)] True i(3) by (auto simp: in_candidate_grows[OF g len] insert_absorb)
  qed
qed

section \<open>The whole evacuation\<close>

lemma slab_free_only: "\<exists>free. slab_free s recent p = s\<lparr>sb_free := free\<rparr>"
proof (cases "fst (chunk_for s recent p)")
  case None
  then show ?thesis
    by (intro exI[of _ "sb_free s"]) (simp add: slab_free_def)
qed (auto simp: slab_free_def)

lemma slab_frees_only: "\<exists>free. foldl (\<lambda>s p. slab_free s recent p) s ps = s\<lparr>sb_free := free\<rparr>"
proof (induction ps rule: rev_induct)
  case Nil
  show ?case
    by (intro exI[of _ "sb_free s"]) simp
next
  case (snoc p ps)
  then show ?case
    using slab_free_only[of "foldl (\<lambda>s p. slab_free s recent p) s ps" recent p] by auto
qed

lemma slab_frees_inv:
  assumes "slab_inv s live" and "distinct ps" and "set ps \<subseteq> live"
  shows "slab_inv (foldl (\<lambda>s p. slab_free s recent p) s ps) (live - set ps)"
  using assms
proof (induction ps arbitrary: s live)
  case (Cons p ps)
  have "live - set (p # ps) = live - {p} - set ps"
    by auto
  then show ?case
    using Cons(2-) Cons(1)[OF slab_free_inv, of s live p recent] by (simp add: subset_Diff_insert)
qed simp

text \<open>The live objects the plan is made from: every slot in use outside the nursery is one of them.\<close>

definition evac_objects :: "slab \<Rightarrow> nat set \<Rightarrow> evac_object list \<Rightarrow> bool" where
  "evac_objects s live objs \<longleftrightarrow> distinct (map eo_addr objs)
     \<and> (\<forall>ob \<in> set objs. chunk_of s (eo_addr ob) \<noteq> None)
     \<and> live = {a \<in> eo_addr ` set objs. case chunk_of s a of None \<Rightarrow> False | Some i \<Rightarrow> \<not> is_young_chunk s i}"

lemma candidate_chunk:
  assumes inv: "slab_inv s live" and objs: "evac_objects s live objs" and ob: "ob \<in> set objs" "counted s i ob"
  shows "i < length (sb_chunks s) \<and> \<not> is_released s i \<and> \<not> is_young_chunk s i \<and> eo_addr ob \<in> live"
proof -
  have ok: "slab_ok s"
    using inv by (simp add: slab_inv_def)
  have i: "i < length (sb_chunks s)" "in_chunk (sb_chunks s ! i) (eo_addr ob)" "\<not> is_young_chunk s i"
    using ob(2) chunk_of_iff[OF ok] by (auto simp: counted_def)
  moreover have live: "eo_addr ob \<in> live"
    using objs ob by (auto simp: evac_objects_def counted_def)
  moreover obtain j where "j < length (sb_chunks s)" "\<not> is_released s j" "eo_addr ob \<in> set (chunk_slots (sb_chunks s ! j))"
    using live inv by (auto simp: slab_inv_def old_slots_def)
  moreover have "in_chunk (sb_chunks s ! j) (eo_addr ob)"
    using calculation ok chunk_slots_iff[of "sb_chunks s ! j"] by (auto simp: slab_ok_def)
  ultimately show ?thesis
    using chunk_of_iff[OF ok, of "eo_addr ob"] by (metis option.inject)
qed

text \<open>The subtractions of the plan do not wrap: a chunk has no more live objects than slots, and no more bytes are
  released than mapped.\<close>

lemma counted_fits:
  assumes inv: "slab_inv s live" and objs: "evac_objects s live objs" and shape: "chunk_shape s i = Some (key, slots)"
  shows "fst (per_chunk s objs ! i) \<le> slots"
proof -
  have i: "i < length (sb_chunks s)" "slots = length (chunk_slots (sb_chunks s ! i))"
    using shape by (auto simp: chunk_shape_def chunk_slots_def Let_def)
  let ?here = "filter (counted s i) objs"
  have "eo_addr ob \<in> set (chunk_slots (sb_chunks s ! i))" if "ob \<in> set ?here" for ob
  proof -
    have ok: "slab_ok s"
      using inv by (simp add: slab_inv_def)
    have at: "chunk_of s (eo_addr ob) = Some i" "eo_addr ob \<in> live"
      using that candidate_chunk[OF inv objs] by (auto simp: counted_def)
    then obtain j where j: "j < length (sb_chunks s)" "eo_addr ob \<in> set (chunk_slots (sb_chunks s ! j))"
      using inv by (auto simp: slab_inv_def old_slots_def)
    then have "in_chunk (sb_chunks s ! j) (eo_addr ob)"
      using ok chunk_slots_iff[of "sb_chunks s ! j"] by (auto simp: slab_ok_def)
    then show ?thesis
      using j at(1) chunk_of_iff[OF ok, of "eo_addr ob" j] by simp
  qed
  moreover have "distinct (map eo_addr ?here)"
    using objs by (simp add: evac_objects_def distinct_map_filter)
  ultimately have "length (map eo_addr ?here) \<le> card (set (chunk_slots (sb_chunks s ! i)))"
    by (metis (no_types, lifting) List.finite_set card_mono distinct_card image_subsetI list.set_map)
  then show ?thesis
    using card_length[of "chunk_slots (sb_chunks s ! i)"] by (simp add: per_chunk_nth i)
qed

lemma released_le_mapped:
  assumes "slab_inv s live"
  shows "released_bytes s \<le> mapped_bytes s"
proof -
  let ?l = "concat (map snd (sb_released s))"
  have "set ?l \<subseteq> {..<length (sb_chunks s)}" "distinct ?l"
    using assms by (fastforce simp: slab_inv_def)+
  then have "length ?l \<le> length (sb_chunks s)"
    by (metis card_lessThan card_mono distinct_card finite_lessThan)
  then show ?thesis
    by (simp add: released_bytes_mset mapped_bytes_def)
qed

definition evacuated :: "slab \<Rightarrow> nat set \<Rightarrow> evac_object list \<Rightarrow> evac_plan \<Rightarrow> evacuation \<Rightarrow> slab \<Rightarrow> bool" where
  "evacuated s live objs plan st s' \<longleftrightarrow>
     (let fwd = ep_fwd plan; in_use = live - fst ` set fwd \<union> snd ` set fwd; emptied = {i. i < length (ep_emptied plan) \<and> ep_emptied plan ! i} in
      distinct (map fst fwd) \<and> fst ` set fwd \<subseteq> live \<and> distinct (map snd fwd) \<and> snd ` set fwd \<inter> live = {}
      \<and> (\<forall>entry \<in> set fwd. \<exists>ob \<in> set objs. copied s' ob entry)
      \<and> slab_inv s' in_use
      \<and> (\<forall>i \<in> emptied. is_released s' i \<and> set (chunk_slots (sb_chunks s' ! i)) \<inter> in_use = {})
      \<and> ev_moved st = length fwd \<and> ev_released st = card emptied * CHUNK \<and> released_bytes s' = released_bytes s + ev_released st)"

lemma evacuate_finish_inv:
  assumes inv: "slab_inv s (live \<union> set (ep_parked plan) \<union> snd ` set (ep_fwd plan))"
    and apart: "live \<inter> set (ep_parked plan) = {}" "snd ` set (ep_fwd plan) \<inter> (live \<union> set (ep_parked plan)) = {}" "distinct (ep_parked plan)" "distinct (map snd (ep_fwd plan))"
    and keys: "mset keys = mset (map fst (ep_fwd plan))" "distinct (map fst (ep_fwd plan))" "set keys \<subseteq> live"
    and copied: "\<forall>entry \<in> set (ep_fwd plan). \<exists>ob \<in> set objs. copied s ob entry"
    and emptied: "\<And>i. i < length (ep_emptied plan) \<Longrightarrow> ep_emptied plan ! i \<Longrightarrow> i < length (sb_chunks s) \<and> \<not> is_released s i
      \<and> \<not> is_young_chunk s i \<and> set (chunk_slots (sb_chunks s ! i)) \<subseteq> set keys \<union> set (ep_parked plan)"
    and moved: "ev_moved (ep_stats plan) = length (ep_fwd plan)"
    and finish: "evacuate_finish recent keys s plan = (st, s')"
  shows "evacuated s live objs plan st s'" and "ev_chunks st = ev_chunks (ep_stats plan)"
proof -
  let ?parked = "set (ep_parked plan)" and ?tos = "snd ` set (ep_fwd plan)"
  let ?in_use = "live - set keys \<union> ?tos"
  have d: "distinct keys" and k: "set keys = fst ` set (ep_fwd plan)"
    using mset_eq_imp_distinct_iff[OF keys(1)] keys(2) mset_eq_setD[OF keys(1)] by auto
  obtain s1 s2 b where run: "s1 = foldl (\<lambda>s p. slab_free s recent p) s keys" "s2 = foldl (\<lambda>s p. slab_free s recent p) s1 (ep_parked plan)"
      "release_chunks s2 (ep_emptied plan) = (b, s')" "st = (ep_stats plan)\<lparr>ev_released := b\<rparr>"
    using finish by (auto simp: evacuate_finish_def Let_def split: prod.splits)
  have inv1: "slab_inv s1 (live \<union> ?parked \<union> ?tos - set keys)"
    unfolding run(1) using keys(3) by (intro slab_frees_inv[OF inv d]) auto
  have "slab_inv s2 (live \<union> ?parked \<union> ?tos - set keys - ?parked)"
    unfolding run(2) using keys(3) apart by (intro slab_frees_inv[OF inv1 apart(3)]) auto
  also have "live \<union> ?parked \<union> ?tos - set keys - ?parked = ?in_use"
    using keys(3) apart by auto
  finally have inv2: "slab_inv s2 ?in_use" .
  obtain free where s2: "s2 = s\<lparr>sb_free := free\<rparr>"
    using slab_frees_only[of recent s keys] slab_frees_only[of recent s1 "ep_parked plan"] run(1,2) by auto
  have same: "is_released s2 = is_released s" "is_young_chunk s2 = is_young_chunk s" "sb_chunks s2 = sb_chunks s" "released_bytes s2 = released_bytes s"
    by (simp_all add: s2 is_released_def is_young_chunk_def fun_eq_iff released_bytes_def)
  have unused: "set (chunk_slots (sb_chunks s ! i)) \<inter> ?in_use = {}" if "i < length (ep_emptied plan)" "ep_emptied plan ! i" for i
    using emptied[OF that] apart keys(3) by auto
  have "set (chunk_slots (sb_chunks s ! i)) \<subseteq> set (free_slots s2)" if "i < length (ep_emptied plan)" "ep_emptied plan ! i" for i
  proof -
    have "set (chunk_slots (sb_chunks s ! i)) \<subseteq> old_slots s2"
      using emptied[OF that] by (auto simp: old_slots_def same)
    moreover have "set (free_slots s2) \<union> ?in_use = old_slots s2"
      using inv2 by (simp add: slab_inv_def)
    ultimately show ?thesis
      using unused[OF that] by blast
  qed
  then have "chunks_emptied s2 (ep_emptied plan)"
    using emptied by (simp add: chunks_emptied_def same)
  note r = release_chunks_inv[OF inv2 this run(3)]
  have new: "newly_emptied s2 (ep_emptied plan) = {i. i < length (ep_emptied plan) \<and> ep_emptied plan ! i}"
    using emptied by (auto simp: newly_emptied_def same)
  have chunks: "sb_chunks s' = sb_chunks s"
    using r(1) same(3) by (simp add: gave_back_def)
  have "slab_inv s' ?in_use" "\<And>i. i < length (ep_emptied plan) \<Longrightarrow> ep_emptied plan ! i \<Longrightarrow> is_released s' i"
    using r(1) by (auto simp: gave_back_def new)
  then show "evacuated s live objs plan st s'"
    using keys copied unused moved r(2,3) apart k unfolding evacuated_def Let_def new
    by (auto simp: run(4) chunks same copied_def slot_has_class_def)
  show "ev_chunks st = ev_chunks (ep_stats plan)"
    by (simp add: run(4))
qed

lemma take_free_in_only: "take_free_in s chunks = (parked, s') \<Longrightarrow> \<exists>free. s' = s\<lparr>sb_free := free\<rparr>"
  by (cases "chunk_starts s chunks = []") (auto simp: take_free_in_def Let_def intro: exI[of _ "sb_free s"])

lemma evac_room_free: "evac_room mmap (s\<lparr>sb_free := free\<rparr>) objs = evac_room mmap s objs"
  by (simp add: evac_room_def)

lemma list_all2_right: "list_all2 P xs ys \<Longrightarrow> y \<in> set ys \<Longrightarrow> \<exists>x \<in> set xs. P x y"
  by (induction rule: list_all2_induct) auto

lemma evacuate_plan_inv:
  fixes chosen :: "nat list"
  defines "candidates \<equiv> \<lambda>s. map (\<lambda>i. i \<in> set chosen) [0..<length (sb_chunks s)]"
  assumes inv: "slab_inv s live" and objs: "evac_objects s live objs" and room: "evac_room mmap s objs"
    and chosen: "\<And>i. i \<in> set chosen \<Longrightarrow> i < length (sb_chunks s) \<and> (\<exists>ob \<in> set objs. counted s i ob)"
    and park: "take_free_in s (candidates s) = (parked, s1)"
  obtains fwd pinned s2 where "evac_copies mmap (candidates s) s1 objs = Some (fwd, pinned, s2)" "slab_inv s2 (live \<union> set parked \<union> snd ` set fwd)"
    "live \<inter> set parked = {}" "snd ` set fwd \<inter> (live \<union> set parked) = {}" "distinct parked" "distinct (map snd fwd)" "distinct (map fst fwd)"
    "fst ` set fwd \<subseteq> live" "\<forall>entry \<in> set fwd. \<exists>ob \<in> set objs. copied s2 ob entry"
    "\<forall>i \<in> set chosen. fst (per_chunk s objs ! i) = snd (per_chunk s objs ! i) \<longrightarrow> i < length (sb_chunks s2) \<and> \<not> is_released s2 i
      \<and> \<not> is_young_chunk s2 i \<and> set (chunk_slots (sb_chunks s2 ! i)) \<subseteq> fst ` set fwd \<union> set parked"
proof -
  have ok: "slab_ok s"
    using inv by (simp add: slab_inv_def)
  note t = take_free_in_inv[OF inv park]
  obtain free where s1: "s1 = s\<lparr>sb_free := free\<rparr>"
    using take_free_in_only[OF park] by blast
  have d: "distinct (free_slots s)" "set (free_slots s) \<inter> live = {}"
    using inv by (auto simp: slab_inv_def)
  have fs: "set (free_slots s) = set parked \<union> set (free_slots s1)" "distinct parked"
    using t(2) d(1) by (metis set_append mset_append set_mset_mset) (metis t(2) d(1) mset_append mset_eq_imp_distinct_iff distinct_append)
  have cand: "i < length (sb_chunks s) \<and> \<not> is_released s i \<and> \<not> is_young_chunk s i \<and> set (chunk_slots (sb_chunks s ! i)) \<subseteq> live \<union> set parked"
    if "i \<in> set chosen" for i
  proof -
    have i: "i < length (sb_chunks s)" "\<not> is_released s i" "\<not> is_young_chunk s i"
      using chosen[OF that] candidate_chunk[OF inv objs] by blast+
    have "p \<in> live \<union> set parked" if p: "p \<in> set (chunk_slots (sb_chunks s ! i))" for p
    proof -
      have "in_chunks (chunk_starts s (candidates s)) p"
        using i \<open>i \<in> set chosen\<close> p ok chunk_slots_iff[of "sb_chunks s ! i" p]
        unfolding in_chunks_iff[OF ok] by (auto simp: candidates_def slab_ok_def)
      moreover have "p \<in> set (free_slots s) \<union> live"
        using i p inv by (auto simp: slab_inv_def old_slots_def)
      ultimately show ?thesis
        using fs(1) t(3) by auto
    qed
    then show ?thesis
      using i by blast
  qed
  have "evac_ready s1 (live \<union> set parked) (candidates s) objs"
    using t(1) objs chunk_of_iff[OF ok] by (fastforce simp: evac_ready_def evac_objects_def s1 candidates_def)
  from evac_copies_inv[OF this, of mmap] room obtain fwd pinned s2 where c: "evac_copies mmap (candidates s) s1 objs = Some (fwd, pinned, s2)"
    "slab_inv s2 (live \<union> set parked \<union> snd ` set fwd)" "snd ` set fwd \<inter> (live \<union> set parked) = {}" "distinct (map snd fwd)" "grows s1 s2"
    "list_all2 (copied s2) (filter (\<lambda>ob. in_candidate s1 (candidates s) ob \<and> eo_layout ob \<noteq> None) objs) fwd"
    by (auto simp: s1 evac_room_free)
  let ?moved = "filter (\<lambda>ob. in_candidate s1 (candidates s) ob \<and> eo_layout ob \<noteq> None) objs"
  have "map fst fwd = map eo_addr ?moved"
    using c(6) by (induction rule: list_all2_induct) (auto simp: copied_def)
  moreover have "distinct (map eo_addr ?moved)"
    using objs by (simp add: evac_objects_def distinct_map_filter)
  ultimately have fwd: "distinct (map fst fwd)" "fst ` set fwd = eo_addr ` set ?moved"
    by (simp, metis list.set_map)
  have at: "in_candidate s1 (candidates s) ob \<longleftrightarrow> (\<exists>i \<in> set chosen. counted s i ob)" for ob
    using cand chunk_of_iff[OF ok, of "eo_addr ob"] by (auto simp: in_candidate_def s1 candidates_def counted_def cong: conj_cong)
  show thesis
  proof (rule that[OF c(1,2) _ c(3) fs(2) c(4) fwd(1)])
    show "live \<inter> set parked = {}"
      using d fs(1) by blast
    show "fst ` set fwd \<subseteq> live"
      using candidate_chunk[OF inv objs] unfolding fwd(2) by (auto simp: at)
    show "\<forall>entry \<in> set fwd. \<exists>ob \<in> set objs. copied s2 ob entry"
    proof
      fix entry assume "entry \<in> set fwd"
      then obtain ob where "ob \<in> set ?moved" "copied s2 ob entry"
        using list_all2_right[OF c(6)] by blast
      then show "\<exists>ob \<in> set objs. copied s2 ob entry"
        by auto
    qed
    have "eo_addr ob \<in> fst ` set fwd" if "ob \<in> set objs" "counted s i ob" "i \<in> set chosen" "fst (per_chunk s objs ! i) = snd (per_chunk s objs ! i)" for i ob
      unfolding fwd(2) using that all_movable[OF _ that(4,1,2)] cand[OF that(3)] by (auto simp: at)
    moreover have "\<exists>ob \<in> set objs. eo_addr ob = p \<and> counted s i ob" if "p \<in> live" "i \<in> set chosen" "p \<in> set (chunk_slots (sb_chunks s ! i))" for p i
    proof -
      have "in_chunk (sb_chunks s ! i) p"
        using that(3) ok cand[OF that(2)] chunk_slots_iff[of "sb_chunks s ! i" p] by (simp add: slab_ok_def)
      then have "chunk_of s p = Some i"
        using cand[OF that(2)] chunk_of_iff[OF ok] by simp
      then show ?thesis
        using that(1) objs cand[OF that(2)] by (auto simp: evac_objects_def counted_def)
    qed
    ultimately have "set (chunk_slots (sb_chunks s ! i)) \<subseteq> fst ` set fwd \<union> set parked"
      if "i \<in> set chosen" "fst (per_chunk s objs ! i) = snd (per_chunk s objs ! i)" for i
      using cand[OF that(1)] that by blast
    moreover have "i < length (sb_chunks s2) \<and> \<not> is_released s2 i \<and> \<not> is_young_chunk s2 i \<and> sb_chunks s2 ! i = sb_chunks s ! i" if "i \<in> set chosen" for i
      using cand[OF that] c(5) by (auto simp: grows_def s1 nth_append is_young_chunk_def is_released_def)
    ultimately show "\<forall>i \<in> set chosen. fst (per_chunk s objs ! i) = snd (per_chunk s objs ! i) \<longrightarrow> i < length (sb_chunks s2) \<and> \<not> is_released s2 i
      \<and> \<not> is_young_chunk s2 i \<and> set (chunk_slots (sb_chunks s2 ! i)) \<subseteq> fst ` set fwd \<union> set parked"
      by simp
  qed
qed

lemma take_free_in_pair: obtains parked s1 where "take_free_in s chunks = (parked, s1)"
  by fastforce

lemma sparse_all_emptied:
  assumes "distinct chosen" and "\<And>i. i \<in> set chosen \<Longrightarrow> i < n \<and> P i"
  shows "card {i. i < n \<and> i \<in> set chosen \<and> P i} = length chosen"
proof -
  have "{i. i < n \<and> i \<in> set chosen \<and> P i} = set chosen"
    using assms(2) by auto
  then show ?thesis
    using assms(1) by (simp add: distinct_card)
qed

section \<open>The property\<close>

text \<open>C40: an evacuation keeps the accounts of the slab. Given the live objects of a slab that satisfies its invariant,
  when the operating system maps new chunks apart from the others and with room for a slot of each layout, and
  whatever the order of the hash maps and of equal keys, planning an evacuation does not panic, and a plan that is
  not made leaves the slab as it was. After the others are finished, each object moved has left a slot in use for
  one nobody used, of the size class of its layout, no two the same; the slots in use are those not left and the
  new ones, so no other slot is lost or handed out twice. Each chunk counted as emptied is given back with no slot
  of it in use, and the bytes reported are those of exactly these chunks. Outside the stress mode, a class being
  visited once, every chosen chunk is emptied, at least one and at most 64.\<close>

theorem evacuation_keeps_slots:
  assumes inv: "slab_inv s live" and objs: "evac_objects s live objs" and room: "evac_room mmap s objs"
  shows "\<exists>plan s1. evacuate_plan mmap order tie idle s objs everything = Some (plan, s1)
    \<and> (case plan of
         None \<Rightarrow> s1 = s
       | Some pl \<Rightarrow> \<forall>recent keys st s2. mset keys = mset (map fst (ep_fwd pl)) \<and> evacuate_finish recent keys s1 pl = (st, s2)
           \<longrightarrow> evacuated s1 live objs pl st s2
             \<and> (\<not> everything \<and> distinct order \<longrightarrow> ev_released st = ev_chunks st * CHUNK \<and> 0 < ev_chunks st \<and> ev_chunks st \<le> MAX_STEP_CHUNKS))"
proof -
  let ?counts = "per_chunk s objs" and ?bytes = "mapped_bytes s - released_bytes s" and ?n = "length (sb_chunks s)"
  obtain chosen planned capped where ch: "evac_chosen s ?counts everything order tie = (chosen, planned, capped)"
    by (metis prod_cases3)
  let ?cand = "map (\<lambda>i. i \<in> set chosen) [0..<?n]"
  obtain parked s1 where park: "take_free_in s ?cand = (parked, s1)"
    by (rule take_free_in_pair)
  have chosen: "i < ?n \<and> (\<exists>ob \<in> set objs. counted s i ob)" if "i \<in> set chosen" for i
    using chosen_counted[of i s objs everything order tie] that by (simp add: ch)
  from evacuate_plan_inv[OF inv objs room chosen park] obtain fwd pinned s2 where
    c: "evac_copies mmap ?cand s1 objs = Some (fwd, pinned, s2)" "slab_inv s2 (live \<union> set parked \<union> snd ` set fwd)"
    "live \<inter> set parked = {}" "snd ` set fwd \<inter> (live \<union> set parked) = {}" "distinct parked" "distinct (map snd fwd)" "distinct (map fst fwd)"
    "fst ` set fwd \<subseteq> live" "\<forall>entry \<in> set fwd. \<exists>ob \<in> set objs. copied s2 ob entry"
    "\<forall>i \<in> set chosen. fst (?counts ! i) = snd (?counts ! i) \<longrightarrow> i < length (sb_chunks s2) \<and> \<not> is_released s2 i
      \<and> \<not> is_young_chunk s2 i \<and> set (chunk_slots (sb_chunks s2 ! i)) \<subseteq> fst ` set fwd \<union> set parked"
    by blast
  define pl where "pl = \<lparr>ep_fwd = fwd, ep_parked = parked,
    ep_emptied = map (\<lambda>i. ?cand ! i \<and> fst (?counts ! i) = snd (?counts ! i)) [0..<?n],
    ep_stats = \<lparr>ev_moved = length fwd, ev_pinned = pinned, ev_chunks = length chosen, ev_released = 0, ev_capped = capped\<rparr>\<rparr>"
  have emptied: "{i. i < length (ep_emptied pl) \<and> ep_emptied pl ! i} = {i. i < ?n \<and> i \<in> set chosen \<and> fst (?counts ! i) = snd (?counts ! i)}"
    by (auto simp: pl_def)
  have plan: "evacuate_plan mmap order tie idle s objs everything = Some (None, s)
    \<or> chosen \<noteq> [] \<and> evacuate_plan mmap order tie idle s objs everything = Some (Some pl, s2)"
    unfolding evacuate_plan_def Let_def ch park prod.case c(1) option.case pl_def by simp
  have finish: "evacuated s2 live objs pl st s3"
    "\<not> everything \<Longrightarrow> distinct order \<Longrightarrow> ev_released st = ev_chunks st * CHUNK \<and> ev_chunks st = length chosen \<and> ev_chunks st \<le> MAX_STEP_CHUNKS"
    if keys: "mset keys = mset (map fst (ep_fwd pl))" and fin: "evacuate_finish recent keys s2 pl = (st, s3)" for recent keys st s3
  proof -
    have "set keys = fst ` set fwd"
      using mset_eq_setD[OF keys] by (simp add: pl_def)
    note f = evacuate_finish_inv[OF _ _ _ _ _ keys _ _ _ _ _ fin, of live objs]
    show e: "evacuated s2 live objs pl st s3"
      using c \<open>set keys = fst ` set fwd\<close> by (intro f(1)) (auto simp: pl_def)
    assume sparse: "\<not> everything" "distinct order"
    have "ev_chunks st = length chosen"
      using f(2) c \<open>set keys = fst ` set fwd\<close> by (auto simp: pl_def)
    moreover have "ev_released st = length chosen * CHUNK"
      using e chosen_sparse[OF sparse(2), of s ?counts tie chosen planned capped] ch sparse(1) chosen
      unfolding evacuated_def Let_def emptied by (simp add: sparse_all_emptied)
    ultimately show "ev_released st = ev_chunks st * CHUNK \<and> ev_chunks st = length chosen \<and> ev_chunks st \<le> MAX_STEP_CHUNKS"
      using chosen_sparse(2)[OF sparse(2), of s ?counts tie chosen planned capped] ch sparse(1) by simp
  qed
  from plan show ?thesis
  proof (elim disjE conjE)
    assume some: "chosen \<noteq> []" "evacuate_plan mmap order tie idle s objs everything = Some (Some pl, s2)"
    have "0 < length chosen"
      using some(1) by simp
    then show ?thesis
      using finish by (intro exI[of _ "Some pl"] exI[of _ s2] conjI some(2)) fastforce
  qed simp
qed

text \<open>A slab with one chunk and one object in it: the object moves to a new chunk and the first one goes back.\<close>

definition sample_object :: evac_object where
  "sample_object = \<lparr>eo_addr = 0x100000, eo_layout = Some (16384, 8)\<rparr>"

lemma sample_chunk_of: "chunk_of sample_slab 0x100000 = Some 0"
  using chunk_of_iff[OF sample_slab_ok] by (simp add: sample_slab_alloc(2) in_chunk_def CHUNK_def)

lemma sample_young: "\<not> is_young_chunk sample_slab 0"
  using sample_slab_alloc(3) by (simp add: walk_skips_def cursor_sweep_def)

lemma sample_align_next: "unat (align_up 0x200000 8) = 0x200000"
proof -
  have "(2 :: u64) ^ 3 dvd 0x200000"
    unfolding dvd_def by (rule exI[where x = "0x40000"]) simp
  from align_up_aligned[OF _ this] show ?thesis
    by simp
qed

lemma sample_evac: "evac_objects sample_slab {0x100000} [sample_object]" "evac_room (\<lambda>_. 0x200000) sample_slab [sample_object]"
  by (auto simp: evac_objects_def sample_object_def sample_chunk_of sample_young)
    (simp add: evac_room_def sample_object_def sample_slab_alloc(2) sample_align_next CHUNK_def)

theorem evacuation_keeps_slots_witness:
  "\<exists>pl s1 st s2. evacuate_plan (\<lambda>_. 0x200000) [] (\<lambda>_. 0) True sample_slab [sample_object] True = Some (Some pl, s1)
    \<and> evacuate_finish (\<lambda>_. None) [0x100000] s1 pl = (st, s2) \<and> ev_moved st = 1 \<and> ev_released st = 65536 \<and> is_released s2 0"
proof -
  let ?plan = "evacuate_plan (\<lambda>_. 0x200000) [] (\<lambda>_. 0) True sample_slab [sample_object] True"
  have counts: "per_chunk sample_slab [sample_object] = [(1, 1)]"
    by (simp add: per_chunk_def count_object_def sample_object_def sample_chunk_of sample_young sample_slab_alloc(2))
  have chosen: "evac_chosen sample_slab [(1, 1)] True [] (\<lambda>_. 0) = ([0], 0, False)"
    by (simp add: evac_chosen_def)
  obtain parked s0 where park: "take_free_in sample_slab [True] = (parked, s0)"
    by (rule take_free_in_pair)
  obtain free where "s0 = sample_slab\<lparr>sb_free := free\<rparr>"
    using take_free_in_only[OF park] by blast
  then have "chunk_of s0 0x100000 = Some 0"
    using sample_chunk_of by (simp add: chunk_of_def)
  then have copies: "evac_copies (\<lambda>_. 0x200000) [True] s0 [sample_object] =
      (case slab_alloc s0 0x200000 16384 8 of None \<Rightarrow> None | Some (to, s1) \<Rightarrow> Some ([(0x100000, to)], 0, s1))"
    by (simp add: sample_object_def get_def split: option.split)
  have inv: "slab_inv sample_slab {0x100000}"
    using slab_alloc_inv[OF slab_new_inv sample_fits] sample_slab_alloc(1) by simp
  note property = evacuation_keeps_slots[OF inv sample_evac, of "[]" "\<lambda>_. 0" True True]
  have n: "map f [0..<length (sb_chunks sample_slab)] = [f 0]" for f :: "nat \<Rightarrow> bool"
    by (simp add: sample_slab_alloc(2))
  have run: "?plan = (case slab_alloc s0 0x200000 16384 8 of None \<Rightarrow> None
    | Some (to, s1) \<Rightarrow> Some (Some \<lparr>ep_fwd = [(0x100000, to)], ep_parked = parked, ep_emptied = [True],
        ep_stats = \<lparr>ev_moved = 1, ev_pinned = 0, ev_chunks = 1, ev_released = 0, ev_capped = False\<rparr>\<rparr>, s1))"
    unfolding evacuate_plan_def Let_def counts chosen n by (simp add: park copies del: evac_copies.simps split: option.split)
  with property obtain to s1 where "slab_alloc s0 0x200000 16384 8 = Some (to, s1)"
    by (auto split: option.splits)
  then obtain pl where pl: "?plan = Some (Some pl, s1)" "ep_fwd pl = [(0x100000, to)]" "ep_emptied pl = [True]"
    using run by simp
  obtain st s2 where fin: "evacuate_finish (\<lambda>_. None) [0x100000] s1 pl = (st, s2)"
    by fastforce
  have "evacuated s1 {0x100000} [sample_object] pl st s2"
    using property fin pl(2) by (auto simp: pl(1))
  moreover have "{i. i < length [True] \<and> [True] ! i} = {0}"
    by auto
  ultimately have "ev_moved st = 1" "ev_released st = 65536" "is_released s2 0"
    unfolding evacuated_def Let_def pl(2,3) by (simp_all add: CHUNK_def)
  then show ?thesis
    using pl(1) fin by blast
qed

end
