(* ===== verification/Coil_Ty.thy ===== *)
theory Coil_Ty
  imports Coil_Prelude
begin

text \<open>
  The types of the checker (\<^verbatim>\<open>compiler/src/typechecking/ty.rs\<close>): monotypes with their payloads, constraints and
  array lengths, free variables, the views of \<open>Option\<close> and \<open>Result\<close>, and the walk of \<^verbatim>\<open>env.rs\<close> that renames
  variables. A variable id is the 32-bit word the checker mints.
\<close>

type_synonym ty_var = u32

datatype array_length = StaticLen nat | DynamicLen

datatype 'a payload = PayloadUnit | PayloadTuple "'a list" | PayloadRecord "(string \<times> 'a) list"

datatype 'a ty_constraint = Constraint (con_class: string) (con_args: "'a list")

datatype ty =
    TyVar ty_var
  | TyCon string
  | TyFun ty ty
  | TyApp ty "ty list"
  | TySum string "(string \<times> ty payload) list"
  | TyConstructor ty u32 nat
  | TyTuple "ty list"
  | TyArray ty array_length
  | TyRecord "(string \<times> ty) list"
  | TyReadonly ty
  | TyExistential string
  | TyForall "ty_var list" "ty ty_constraint list" ty
  | TyNever

section \<open>Payloads and names\<close>

fun field_count :: "'a payload \<Rightarrow> nat" where
  "field_count PayloadUnit = 0"
| "field_count (PayloadTuple tys) = length tys"
| "field_count (PayloadRecord fields) = length fields"

fun field_types :: "'a payload \<Rightarrow> 'a list" where
  "field_types PayloadUnit = []"
| "field_types (PayloadTuple tys) = tys"
| "field_types (PayloadRecord fields) = map snd fields"

definition UNIT :: string where
  "UNIT = ''unit''"

definition BUILTIN_OPTION_ENUM :: string where
  "BUILTIN_OPTION_ENUM = ''Option''"

definition BUILTIN_RESULT_ENUM :: string where
  "BUILTIN_RESULT_ENUM = ''Result''"

definition is_builtin_option_enum :: "string \<Rightarrow> bool" where
  "is_builtin_option_enum name \<longleftrightarrow> name = BUILTIN_OPTION_ENUM"

definition is_builtin_result_enum :: "string \<Rightarrow> bool" where
  "is_builtin_result_enum name \<longleftrightarrow> name = BUILTIN_RESULT_ENUM"

definition is_poly_builtin_enum :: "string \<Rightarrow> bool" where
  "is_poly_builtin_enum name \<longleftrightarrow> is_builtin_option_enum name \<or> is_builtin_result_enum name"

fun strip_readonly :: "ty \<Rightarrow> ty" where
  "strip_readonly (TyReadonly inner) = strip_readonly inner"
| "strip_readonly ty = ty"

fun peel_constructor_refinement :: "ty \<Rightarrow> ty" where
  "peel_constructor_refinement (TyConstructor owner _ _) = peel_constructor_refinement owner"
| "peel_constructor_refinement (TySum name variants) = (if \<not> is_poly_builtin_enum name then TyCon name else TySum name variants)"
| "peel_constructor_refinement ty = ty"

fun option_inner :: "ty \<Rightarrow> ty option" where
  "option_inner (TyApp con args) = (if con = TyCon BUILTIN_OPTION_ENUM then get args 0 else None)"
| "option_inner (TySum name variants) =
     (if name = BUILTIN_OPTION_ENUM
      then case List.find (\<lambda>(vn, _). vn = ''Some'') variants of None \<Rightarrow> None | Some (_, payload) \<Rightarrow> get (field_types payload) 0
      else None)"
| "option_inner (TyConstructor owner _ _) = option_inner owner"
| "option_inner _ = None"

definition ok_err_step :: "'a option \<times> 'a option \<Rightarrow> string \<times> 'a payload \<Rightarrow> 'a option \<times> 'a option" where
  "ok_err_step st v = (case (st, v) of ((ok, err), (vn, payload)) \<Rightarrow>
     (let field = get (field_types payload) 0 in
      if vn = ''Ok'' then (field, err) else if vn = ''Err'' then (ok, field) else (ok, err)))"

fun result_ok_err :: "ty \<Rightarrow> (ty \<times> ty) option" where
  "result_ok_err (TyApp con args) =
     (if con = TyCon BUILTIN_RESULT_ENUM
      then case (get args 0, get args 1) of (Some ok, Some err) \<Rightarrow> Some (ok, err) | _ \<Rightarrow> None
      else None)"
| "result_ok_err (TySum name variants) =
     (if name = BUILTIN_RESULT_ENUM
      then case foldl ok_err_step (None, None) variants of (Some ok, Some err) \<Rightarrow> Some (ok, err) | _ \<Rightarrow> None
      else None)"
| "result_ok_err (TyConstructor owner _ _) = result_ok_err owner"
| "result_ok_err _ = None"

section \<open>Walks\<close>

lemma payload_fields: "set_payload p = set (field_types p)"
  by (cases p) (auto simp: prod_set_defs)

lemma constraint_args: "set_ty_constraint c = set (con_args c)"
  by (cases c) simp

lemma list_size: "x \<in> set xs \<Longrightarrow> n \<le> f x \<Longrightarrow> n < Suc (size_list f xs + m)"
  using size_list_estimation'[of x xs n f] by simp

lemma payload_size:
  assumes "t \<in> set (field_types p)"
  shows "f t \<le> size_payload f p"
proof (cases p)
  case (PayloadTuple ts)
  then show ?thesis
    using assms list_size[of t ts "f t" f 0] by simp
next
  case (PayloadRecord fs)
  then obtain n where "(n, t) \<in> set fs"
    using assms by auto
  then show ?thesis
    using PayloadRecord list_size[of "(n, t)" fs "f t" "size_prod (\<lambda>_. 0) f" 0] by simp
qed (use assms in simp)

lemma constraint_size: "t \<in> set (con_args c) \<Longrightarrow> f t \<le> size_ty_constraint f c"
  using list_size[of t "con_args c" "f t" f 0] by (cases c) simp

lemma forall_size [termination_simp]:
  assumes "c \<in> set cs" and "t \<in> set (con_args c)"
  shows "f t < Suc (size_list (size_ty_constraint f) cs + m)"
  by (rule list_size[OF assms(1)], rule constraint_size[OF assms(2)])

lemma sum_size [termination_simp]:
  assumes "(n, p) \<in> set vs" and "t \<in> set (field_types p)"
  shows "f t < Suc (size_list (\<lambda>x. Suc (size_payload f (snd x))) vs)"
  using list_size[OF assms(1), of "f t" "\<lambda>x. Suc (size_payload f (snd x))" 0] payload_size[OF assms(2), of f] by simp

declare payload_fields [termination_simp] payload.map_cong [fundef_cong]

text \<open>\<open>ftv_ty\<close> and its loop \<open>go\<close>, which adds to the set it is given; a \<open>Forall\<close> takes its variables out of all of it.\<close>

fun ftv_go :: "ty \<Rightarrow> ty_var set \<Rightarrow> ty_var set" where
  "ftv_go (TyVar v) acc = insert v acc"
| "ftv_go (TyCon _) acc = acc"
| "ftv_go (TyFun a b) acc = ftv_go b (ftv_go a acc)"
| "ftv_go (TyApp head args) acc = foldl (\<lambda>acc t. ftv_go t acc) (ftv_go head acc) args"
| "ftv_go (TySum _ variants) acc = foldl (\<lambda>acc v. foldl (\<lambda>acc t. ftv_go t acc) acc (field_types (snd v))) acc variants"
| "ftv_go (TyConstructor owner _ _) acc = ftv_go owner acc"
| "ftv_go (TyTuple tys) acc = foldl (\<lambda>acc t. ftv_go t acc) acc tys"
| "ftv_go (TyArray element _) acc = ftv_go element acc"
| "ftv_go (TyRecord fields) acc = foldl (\<lambda>acc f. ftv_go (snd f) acc) acc fields"
| "ftv_go (TyReadonly inner) acc = ftv_go inner acc"
| "ftv_go (TyExistential _) acc = acc"
| "ftv_go (TyForall bounds cs body) acc =
     foldl (\<lambda>acc c. foldl (\<lambda>acc t. ftv_go t acc) acc (con_args c)) (ftv_go body acc) cs - set bounds"
| "ftv_go TyNever acc = acc"

definition ftv_ty :: "ty \<Rightarrow> ty_var set" where
  "ftv_ty t = ftv_go t {}"

text \<open>
  \<open>apply_ty\<close> reads a substitution through \<open>get\<close>, one look-up per variable; under a \<open>Forall\<close> it works on a copy from
  which the quantified variables were removed. Here the substitution is the map that \<open>get\<close> is.
\<close>

fun apply_map :: "(ty_var \<rightharpoonup> ty) \<Rightarrow> ty \<Rightarrow> ty" where
  "apply_map m (TyVar v) = (case m v of Some t \<Rightarrow> t | None \<Rightarrow> TyVar v)"
| "apply_map m (TyCon c) = TyCon c"
| "apply_map m (TyFun a b) = TyFun (apply_map m a) (apply_map m b)"
| "apply_map m (TyApp c args) = TyApp (apply_map m c) (map (apply_map m) args)"
| "apply_map m (TySum name variants) = TySum name (map (\<lambda>(n, p). (n, map_payload (apply_map m) p)) variants)"
| "apply_map m (TyConstructor owner tag arity) = TyConstructor (apply_map m owner) tag arity"
| "apply_map m (TyTuple tys) = TyTuple (map (apply_map m) tys)"
| "apply_map m (TyArray element len) = TyArray (apply_map m element) len"
| "apply_map m (TyRecord fields) = TyRecord (map (\<lambda>(n, t). (n, apply_map m t)) fields)"
| "apply_map m (TyReadonly inner) = TyReadonly (apply_map m inner)"
| "apply_map m (TyExistential c) = TyExistential c"
| "apply_map m (TyForall bounds cs body) =
     (let inner = m |` (- set bounds) in
      TyForall bounds (map (\<lambda>c. Constraint (con_class c) (map (apply_map inner) (con_args c))) cs) (apply_map inner body))"
| "apply_map m TyNever = TyNever"

fun substitute_vars :: "(ty_var \<rightharpoonup> ty_var) \<Rightarrow> ty \<Rightarrow> ty" where
  "substitute_vars m (TyVar v) = (case m v of Some new \<Rightarrow> TyVar new | None \<Rightarrow> TyVar v)"
| "substitute_vars m (TyCon c) = TyCon c"
| "substitute_vars m (TyFun a b) = TyFun (substitute_vars m a) (substitute_vars m b)"
| "substitute_vars m (TyApp c args) = TyApp (substitute_vars m c) (map (substitute_vars m) args)"
| "substitute_vars m (TySum name variants) = TySum name (map (\<lambda>(n, p). (n, map_payload (substitute_vars m) p)) variants)"
| "substitute_vars m (TyConstructor owner tag arity) = TyConstructor (substitute_vars m owner) tag arity"
| "substitute_vars m (TyTuple tys) = TyTuple (map (substitute_vars m) tys)"
| "substitute_vars m (TyArray element len) = TyArray (substitute_vars m element) len"
| "substitute_vars m (TyRecord fields) = TyRecord (map (\<lambda>(n, t). (n, substitute_vars m t)) fields)"
| "substitute_vars m (TyReadonly inner) = TyReadonly (substitute_vars m inner)"
| "substitute_vars m (TyExistential c) = TyExistential c"
| "substitute_vars m (TyForall bounds cs body) =
     (let inner = m |` (- set bounds) in
      TyForall bounds (map (\<lambda>c. Constraint (con_class c) (map (substitute_vars inner) (con_args c))) cs) (substitute_vars inner body))"
| "substitute_vars m TyNever = TyNever"

text \<open>The free variables of a type, without an accumulator, and its quantified ones.\<close>

fun free_vars :: "ty \<Rightarrow> ty_var set" where
  "free_vars (TyVar v) = {v}"
| "free_vars (TyFun a b) = free_vars a \<union> free_vars b"
| "free_vars (TyApp head args) = free_vars head \<union> (\<Union>t \<in> set args. free_vars t)"
| "free_vars (TySum _ variants) = (\<Union>v \<in> set variants. \<Union>t \<in> set (field_types (snd v)). free_vars t)"
| "free_vars (TyConstructor owner _ _) = free_vars owner"
| "free_vars (TyTuple tys) = (\<Union>t \<in> set tys. free_vars t)"
| "free_vars (TyArray element _) = free_vars element"
| "free_vars (TyRecord fields) = (\<Union>f \<in> set fields. free_vars (snd f))"
| "free_vars (TyReadonly inner) = free_vars inner"
| "free_vars (TyForall bounds cs body) = (free_vars body \<union> (\<Union>c \<in> set cs. \<Union>t \<in> set (con_args c). free_vars t)) - set bounds"
| "free_vars _ = {}"

fun bound_vars :: "ty \<Rightarrow> ty_var set" where
  "bound_vars (TyFun a b) = bound_vars a \<union> bound_vars b"
| "bound_vars (TyApp head args) = bound_vars head \<union> (\<Union>t \<in> set args. bound_vars t)"
| "bound_vars (TySum _ variants) = (\<Union>v \<in> set variants. \<Union>t \<in> set (field_types (snd v)). bound_vars t)"
| "bound_vars (TyConstructor owner _ _) = bound_vars owner"
| "bound_vars (TyTuple tys) = (\<Union>t \<in> set tys. bound_vars t)"
| "bound_vars (TyArray element _) = bound_vars element"
| "bound_vars (TyRecord fields) = (\<Union>f \<in> set fields. bound_vars (snd f))"
| "bound_vars (TyReadonly inner) = bound_vars inner"
| "bound_vars (TyForall bounds cs body) = set bounds \<union> bound_vars body \<union> (\<Union>c \<in> set cs. \<Union>t \<in> set (con_args c). bound_vars t)"
| "bound_vars _ = {}"

section \<open>Induction over the parts of a type\<close>

lemma ty_parts_induct [case_names Var Con Fun App Sum Constructor Tuple Array Record Readonly Existential Forall Never]:
  assumes "\<And>v. P (TyVar v)" "\<And>c. P (TyCon c)" "\<And>a b. P a \<Longrightarrow> P b \<Longrightarrow> P (TyFun a b)"
    "\<And>h ts. P h \<Longrightarrow> (\<And>t. t \<in> set ts \<Longrightarrow> P t) \<Longrightarrow> P (TyApp h ts)"
    "\<And>n vs. (\<And>v t. v \<in> set vs \<Longrightarrow> t \<in> set (field_types (snd v)) \<Longrightarrow> P t) \<Longrightarrow> P (TySum n vs)"
    "\<And>a g k. P a \<Longrightarrow> P (TyConstructor a g k)" "\<And>ts. (\<And>t. t \<in> set ts \<Longrightarrow> P t) \<Longrightarrow> P (TyTuple ts)" "\<And>a l. P a \<Longrightarrow> P (TyArray a l)"
    "\<And>fs. (\<And>f. f \<in> set fs \<Longrightarrow> P (snd f)) \<Longrightarrow> P (TyRecord fs)" "\<And>a. P a \<Longrightarrow> P (TyReadonly a)" "\<And>c. P (TyExistential c)"
    "\<And>bs cs body. (\<And>c t. c \<in> set cs \<Longrightarrow> t \<in> set (con_args c) \<Longrightarrow> P t) \<Longrightarrow> P body \<Longrightarrow> P (TyForall bs cs body)" "P TyNever"
  shows "P t"
proof (induction t)
  case (TySum n vs)
  have "P t" if "v \<in> set vs" "t \<in> set (field_types (snd v))" for v t
    using TySum[of v "snd v" t] that by (simp add: payload_fields snds.intros)
  then show ?case
    by (rule assms(5))
next
  case (TyRecord fs)
  have "P (snd f)" if "f \<in> set fs" for f
    using TyRecord[of f "snd f"] that by (simp add: snds.intros)
  then show ?case
    by (rule assms(9))
next
  case (TyForall bs cs body)
  have "P t" if "c \<in> set cs" "t \<in> set (con_args c)" for c t
    using TyForall(1)[of c t] that by (simp add: constraint_args)
  then show ?case
    using TyForall(2) by (intro assms(12)) auto
qed (use assms in auto)

lemma field_types_map [simp]: "field_types (map_payload f p) = map f (field_types p)"
  by (cases p) auto

lemma map_variants_cong:
  assumes "\<And>v t. v \<in> set vs \<Longrightarrow> t \<in> set (field_types (snd v)) \<Longrightarrow> f t = g t"
  shows "map (\<lambda>(n, p). (n, map_payload f p)) vs = map (\<lambda>(n, p). (n, map_payload g p)) vs"
  using assms by (force intro!: payload.map_cong simp: payload_fields)

lemma map_fields_cong:
  "(\<And>x. x \<in> set fs \<Longrightarrow> f (snd x) = g (snd x)) \<Longrightarrow> map (\<lambda>(n, t). (n, f t)) fs = map (\<lambda>(n, t). (n, g t)) fs"
  by auto

section \<open>Free variables\<close>

text \<open>A walk that adds \<open>F\<close> of each element and may lose \<open>B\<close> of it.\<close>

lemma foldl_between:
  assumes "\<And>x acc. x \<in> set xs \<Longrightarrow> (acc \<union> F x) - B x \<subseteq> f acc x \<and> f acc x \<subseteq> acc \<union> F x"
  shows "(acc \<union> (\<Union>x \<in> set xs. F x)) - (\<Union>x \<in> set xs. B x) \<subseteq> foldl f acc xs \<and> foldl f acc xs \<subseteq> acc \<union> (\<Union>x \<in> set xs. F x)"
  using assms
proof (induction xs arbitrary: acc)
  case (Cons x xs)
  have "(acc \<union> F x) - B x \<subseteq> f acc x \<and> f acc x \<subseteq> acc \<union> F x"
    using Cons.prems by simp
  moreover have "(f acc x \<union> (\<Union>y \<in> set xs. F y)) - (\<Union>y \<in> set xs. B y) \<subseteq> foldl f (f acc x) xs
      \<and> foldl f (f acc x) xs \<subseteq> f acc x \<union> (\<Union>y \<in> set xs. F y)"
    using Cons.prems by (intro Cons.IH) simp
  ultimately show ?case
    by (simp, blast)
qed simp

lemma ftv_go_between: "(acc \<union> free_vars t) - bound_vars t \<subseteq> ftv_go t acc \<and> ftv_go t acc \<subseteq> acc \<union> free_vars t"
proof (induction t arbitrary: acc rule: ty_parts_induct)
  case (Fun a b)
  show ?case
    using Fun(1)[of acc] Fun(2)[of "ftv_go a acc"] by (simp, blast)
next
  case (App h ts)
  have "(ftv_go h acc \<union> (\<Union>t \<in> set ts. free_vars t)) - (\<Union>t \<in> set ts. bound_vars t) \<subseteq> foldl (\<lambda>acc t. ftv_go t acc) (ftv_go h acc) ts
    \<and> foldl (\<lambda>acc t. ftv_go t acc) (ftv_go h acc) ts \<subseteq> ftv_go h acc \<union> (\<Union>t \<in> set ts. free_vars t)"
    by (rule foldl_between) (rule App(2))
  then show ?case
    using App(1)[of acc] by (simp, blast)
next
  case (Sum n vs)
  show ?case
    unfolding ftv_go.simps free_vars.simps bound_vars.simps by (rule foldl_between, rule foldl_between) (rule Sum)
next
  case (Tuple ts)
  show ?case
    unfolding ftv_go.simps free_vars.simps bound_vars.simps by (rule foldl_between) (rule Tuple)
next
  case (Record fs)
  show ?case
    unfolding ftv_go.simps free_vars.simps bound_vars.simps by (rule foldl_between) (rule Record)
next
  case (Forall bs cs body)
  have "(ftv_go body acc \<union> (\<Union>c \<in> set cs. \<Union>t \<in> set (con_args c). free_vars t)) - (\<Union>c \<in> set cs. \<Union>t \<in> set (con_args c). bound_vars t)
      \<subseteq> foldl (\<lambda>acc c. foldl (\<lambda>acc t. ftv_go t acc) acc (con_args c)) (ftv_go body acc) cs
    \<and> foldl (\<lambda>acc c. foldl (\<lambda>acc t. ftv_go t acc) acc (con_args c)) (ftv_go body acc) cs
      \<subseteq> ftv_go body acc \<union> (\<Union>c \<in> set cs. \<Union>t \<in> set (con_args c). free_vars t)"
    by (rule foldl_between, rule foldl_between) (rule Forall(1))
  then show ?case
    using Forall(2)[of acc] by (simp, blast)
qed auto

definition tidy :: "ty \<Rightarrow> bool" where
  "tidy t \<longleftrightarrow> free_vars t \<inter> bound_vars t = {}"

lemma ftv_ty_between: "free_vars t - bound_vars t \<subseteq> ftv_ty t" "ftv_ty t \<subseteq> free_vars t"
  using ftv_go_between[of "{}" t] by (auto simp: ftv_ty_def)

lemma ftv_ty_tidy: "tidy t \<Longrightarrow> ftv_ty t = free_vars t"
  using ftv_ty_between[of t] by (auto simp: tidy_def)

text \<open>A quantifier also takes out variables that were collected before it, outside its scope.\<close>

lemma ftv_ty_forgets: "ftv_ty (TyFun (TyVar 0) (TyForall [0] [] (TyVar 0))) = {}" "free_vars (TyFun (TyVar 0) (TyForall [0] [] (TyVar 0))) = {0}"
  by (simp_all add: ftv_ty_def)

section \<open>Substitution\<close>

text \<open>Only the look-ups of free variables count.\<close>

lemma apply_map_cong:
  assumes "\<And>v. v \<in> free_vars t \<Longrightarrow> m v = m' v"
  shows "apply_map m t = apply_map m' t"
  using assms
proof (induction t arbitrary: m m' rule: ty_parts_induct)
  case (App h ts)
  have "apply_map m h = apply_map m' h"
    using App.prems by (intro App.IH(1)) simp
  moreover have "apply_map m t = apply_map m' t" if "t \<in> set ts" for t
    using App.prems that by (intro App.IH(2)) auto
  ultimately show ?case
    by simp
next
  case (Sum n vs)
  have "apply_map m t = apply_map m' t" if "v \<in> set vs" "t \<in> set (field_types (snd v))" for v t
    using Sum.prems that by (intro Sum.IH) auto
  then show ?case
    unfolding apply_map.simps using map_variants_cong[of vs "apply_map m" "apply_map m'"] by blast
next
  case (Tuple ts)
  have "apply_map m t = apply_map m' t" if "t \<in> set ts" for t
    using Tuple.prems that by (intro Tuple.IH) auto
  then show ?case
    by simp
next
  case (Record fs)
  have "apply_map m (snd f) = apply_map m' (snd f)" if "f \<in> set fs" for f
    using Record.prems that by (intro Record.IH) auto
  then show ?case
    unfolding apply_map.simps using map_fields_cong[of fs "apply_map m" "apply_map m'"] by blast
next
  case (Forall bs cs body)
  let ?i = "m |` (- set bs)" and ?j = "m' |` (- set bs)"
  have look: "?i v = ?j v" if "v \<in> free_vars body \<union> (\<Union>c \<in> set cs. \<Union>t \<in> set (con_args c). free_vars t)" for v
    using that Forall.prems[of v] by (auto simp: restrict_map_def)
  have "apply_map ?i body = apply_map ?j body"
    using look by (intro Forall.IH(2)) simp
  moreover have "apply_map ?i t = apply_map ?j t" if "c \<in> set cs" "t \<in> set (con_args c)" for c t
    using look that by (intro Forall.IH(1)[OF that]) blast
  ultimately show ?case
    by (simp add: Let_def)
next
  case (Fun a b)
  show ?case
    using Fun.IH(1)[of m m'] Fun.IH(2)[of m m'] Fun.prems by simp
next
  case (Constructor a g k)
  show ?case
    using Constructor.IH[of m m'] Constructor.prems by simp
next
  case (Array a l)
  show ?case
    using Array.IH[of m m'] Array.prems by simp
next
  case (Readonly a)
  show ?case
    using Readonly.IH[of m m'] Readonly.prems by simp
qed simp_all

lemma apply_map_id: "free_vars t \<inter> dom m = {} \<Longrightarrow> apply_map m t = t"
proof (induction t arbitrary: m rule: ty_parts_induct)
  case (Var v)
  then show ?case
    by (auto simp: domIff split: option.split)
next
  case (App h ts)
  have "apply_map m t = t" if "t \<in> set ts" for t
    using App.prems that by (intro App.IH(2)[OF that]) auto
  moreover have "apply_map m h = h"
    using App.prems by (intro App.IH(1)) auto
  ultimately show ?case
    by (simp add: map_idI)
next
  case (Sum n vs)
  have "apply_map m t = t" if "v \<in> set vs" "t \<in> set (field_types (snd v))" for v t
    using that Sum.prems by (intro Sum.IH[OF that]) auto
  from map_variants_cong[of vs "apply_map m" "\<lambda>t. t", OF this] show ?case
    by (simp add: payload.map_ident)
next
  case (Tuple ts)
  have "apply_map m t = t" if "t \<in> set ts" for t
    using Tuple.prems that by (intro Tuple.IH[OF that]) auto
  then show ?case
    by (simp add: map_idI)
next
  case (Record fs)
  have "apply_map m (snd f) = snd f" if "f \<in> set fs" for f
    using that Record.prems by (intro Record.IH) auto
  from map_fields_cong[of fs "apply_map m" "\<lambda>t. t", OF this] show ?case
    by simp
next
  case (Forall bs cs body)
  let ?i = "m |` (- set bs)"
  have "apply_map ?i body = body"
    using Forall.prems by (intro Forall.IH(2)) (auto simp: restrict_map_def domIff split: if_splits)
  moreover have "apply_map ?i t = t" if "c \<in> set cs" "t \<in> set (con_args c)" for c t
    using Forall.prems that by (intro Forall.IH(1)[OF that]) (fastforce simp: restrict_map_def domIff split: if_splits)
  then have "map (\<lambda>c. Constraint (con_class c) (map (apply_map ?i) (con_args c))) cs = cs"
    by (intro map_idI) (metis map_idI ty_constraint.collapse)
  ultimately show ?case
    by (simp add: Let_def)
qed (auto simp: Int_Un_distrib2)

text \<open>The variables a substitution brings in.\<close>

definition range_vars :: "(ty_var \<rightharpoonup> ty) \<Rightarrow> ty_var set" where
  "range_vars m = (\<Union>t \<in> ran m. free_vars t)"

lemma range_vars_mem: "m v = Some t \<Longrightarrow> free_vars t \<subseteq> range_vars m"
  by (auto simp: range_vars_def ran_def)

lemma range_vars_restrict: "range_vars (m |` A) \<subseteq> range_vars m"
  by (auto simp: range_vars_def ran_def restrict_map_def split: if_splits)

lemma un_diff: "A \<subseteq> A' - D \<union> R \<Longrightarrow> B \<subseteq> B' - D \<union> R \<Longrightarrow> A \<union> B \<subseteq> (A' \<union> B') - D \<union> R"
  by blast

lemma free_vars_apply: "free_vars (apply_map m t) \<subseteq> (free_vars t - dom m) \<union> range_vars m"
proof (induction t arbitrary: m rule: ty_parts_induct)
  case (Var v)
  then show ?case
    using range_vars_mem[of m v] by (auto simp: domIff split: option.split)
next
  case (Sum n vs)
  have "free_vars (apply_map m t) \<subseteq> (\<Union>v \<in> set vs. \<Union>t \<in> set (field_types (snd v)). free_vars t) - dom m \<union> range_vars m"
    if "v \<in> set vs" "t \<in> set (field_types (snd v))" for v t
    using Sum[OF that, of m] that by blast
  then show ?case
    by (simp add: split_def) blast
next
  case (Record fs)
  have "free_vars (apply_map m (snd f)) \<subseteq> (\<Union>f \<in> set fs. free_vars (snd f)) - dom m \<union> range_vars m" if "f \<in> set fs" for f
    using Record[OF that, of m] that by blast
  then show ?case
    by (simp add: split_def) blast
next
  case (Forall bs cs body)
  let ?i = "m |` (- set bs)"
  have i: "dom ?i = dom m - set bs" "range_vars ?i \<subseteq> range_vars m"
    by (auto simp: dom_restrict Diff_eq intro: subsetD[OF range_vars_restrict])
  have part: "free_vars (apply_map ?i t) - set bs \<subseteq> F - set bs - dom m \<union> range_vars m"
    if "free_vars (apply_map ?i t) \<subseteq> free_vars t - dom ?i \<union> range_vars ?i" and F: "free_vars t \<subseteq> F" for t F
  proof -
    have "free_vars (apply_map ?i t) \<subseteq> free_vars t - (dom m - set bs) \<union> range_vars m"
      using that(1) i(2) unfolding i(1) by (rule order_trans[OF _ Un_mono[OF subset_refl]])
    then show ?thesis
      using F by blast
  qed
  let ?F = "free_vars body \<union> (\<Union>c \<in> set cs. \<Union>t \<in> set (con_args c). free_vars t)"
  have "free_vars (apply_map ?i t) - set bs \<subseteq> ?F - set bs - dom m \<union> range_vars m" if "c \<in> set cs" "t \<in> set (con_args c)" for c t
    using that by (intro part[OF Forall(1)[OF that]]) auto
  then have "(\<Union>c \<in> set cs. \<Union>t \<in> set (con_args c). free_vars (apply_map ?i t)) - set bs \<subseteq> ?F - set bs - dom m \<union> range_vars m"
    by blast
  moreover have "free_vars (apply_map ?i body) - set bs \<subseteq> ?F - set bs - dom m \<union> range_vars m"
    by (intro part[OF Forall(2)]) auto
  ultimately have "(free_vars (apply_map ?i body) \<union> (\<Union>c \<in> set cs. \<Union>t \<in> set (con_args c). free_vars (apply_map ?i t))) - set bs
      \<subseteq> ?F - set bs - dom m \<union> range_vars m"
    by blast
  then show ?case
    by (simp add: Let_def)
next
  case (App h ts)
  have "free_vars (apply_map m t) \<subseteq> (\<Union>t \<in> set ts. free_vars t) - dom m \<union> range_vars m" if "t \<in> set ts" for t
    using App(2)[OF that, of m] that by blast
  then have "(\<Union>t \<in> set ts. free_vars (apply_map m t)) \<subseteq> (\<Union>t \<in> set ts. free_vars t) - dom m \<union> range_vars m"
    by (rule UN_least)
  from un_diff[OF App(1) this] show ?case
    by simp
next
  case (Tuple ts)
  have "free_vars (apply_map m t) \<subseteq> (\<Union>t \<in> set ts. free_vars t) - dom m \<union> range_vars m" if "t \<in> set ts" for t
    using Tuple[OF that, of m] that by blast
  then have "(\<Union>t \<in> set ts. free_vars (apply_map m t)) \<subseteq> (\<Union>t \<in> set ts. free_vars t) - dom m \<union> range_vars m"
    by (rule UN_least)
  then show ?case
    by simp
next
  case (Fun a b)
  show ?case
    using un_diff[OF Fun(1)[of m] Fun(2)[of m]] by simp
qed auto

definition comp_map :: "(ty_var \<rightharpoonup> ty) \<Rightarrow> (ty_var \<rightharpoonup> ty) \<Rightarrow> ty_var \<rightharpoonup> ty" where
  "comp_map m1 m2 v = (case m2 v of Some t \<Rightarrow> Some (apply_map m1 t) | None \<Rightarrow> m1 v)"

lemma comp_map_restrict:
  assumes "range_vars m2 \<inter> B = {}"
  shows "comp_map m1 m2 |` (- B) = comp_map (m1 |` (- B)) (m2 |` (- B))"
proof
  fix v
  show "(comp_map m1 m2 |` (- B)) v = comp_map (m1 |` (- B)) (m2 |` (- B)) v"
  proof (cases "v \<in> B \<or> m2 v = None")
    case True
    then show ?thesis
      by (auto simp: comp_map_def restrict_map_def)
  next
    case False
    then obtain u where u: "m2 v = Some u"
      by blast
    then have "apply_map m1 u = apply_map (m1 |` (- B)) u"
      using assms range_vars_mem[of m2 v u] u by (intro apply_map_cong) (auto simp: restrict_map_def)
    then show ?thesis
      using False u by (simp add: comp_map_def)
  qed
qed

text \<open>The law of \<open>compose\<close>, for a type whose quantifiers capture nothing of the first substitution.\<close>

lemma apply_comp:
  assumes "bound_vars t \<inter> range_vars m2 = {}"
  shows "apply_map (comp_map m1 m2) t = apply_map m1 (apply_map m2 t)"
  using assms
proof (induction t arbitrary: m1 m2 rule: ty_parts_induct)
  case (Var v)
  then show ?case
    by (simp add: comp_map_def split: option.split)
next
  case (App h ts)
  have "apply_map (comp_map m1 m2) t = apply_map m1 (apply_map m2 t)" if "t \<in> set ts" for t
    using App.prems that by (intro App.IH(2)) auto
  moreover have "apply_map (comp_map m1 m2) h = apply_map m1 (apply_map m2 h)"
    using App.prems by (intro App.IH(1)) auto
  ultimately show ?case
    by simp
next
  case (Sum n vs)
  have "apply_map (comp_map m1 m2) t = apply_map m1 (apply_map m2 t)" if "v \<in> set vs" "t \<in> set (field_types (snd v))" for v t
    using Sum.prems that by (intro Sum.IH[OF that]) auto
  from map_variants_cong[of vs "apply_map (comp_map m1 m2)" "\<lambda>t. apply_map m1 (apply_map m2 t)", OF this] show ?case
    by (simp add: payload.map_comp comp_def split_def)
next
  case (Tuple ts)
  have "apply_map (comp_map m1 m2) t = apply_map m1 (apply_map m2 t)" if "t \<in> set ts" for t
    using Tuple.prems that by (intro Tuple.IH) auto
  then show ?case
    by simp
next
  case (Record fs)
  have "apply_map (comp_map m1 m2) (snd f) = apply_map m1 (apply_map m2 (snd f))" if "f \<in> set fs" for f
    using Record.prems that by (intro Record.IH) auto
  then show ?case
    by (simp add: split_def)
next
  case (Forall bs cs body)
  let ?r = "\<lambda>m :: ty_var \<rightharpoonup> ty. m |` (- set bs)"
  have inner: "?r (comp_map m1 m2) = comp_map (?r m1) (?r m2)"
    using Forall.prems by (intro comp_map_restrict) auto
  have range: "range_vars (?r m2) \<subseteq> range_vars m2"
    by (rule range_vars_restrict)
  have "apply_map (comp_map (?r m1) (?r m2)) body = apply_map (?r m1) (apply_map (?r m2) body)"
    using Forall.prems range by (intro Forall.IH(2)) auto
  moreover have "apply_map (comp_map (?r m1) (?r m2)) t = apply_map (?r m1) (apply_map (?r m2) t)" if "c \<in> set cs" "t \<in> set (con_args c)" for c t
    using Forall.prems range that by (intro Forall.IH(1)[OF that]) auto
  ultimately show ?case
    by (simp add: Let_def inner)
next
  case (Fun a b)
  then show ?case
    using Fun.IH(1)[of m2 m1] Fun.IH(2)[of m2 m1] by (simp add: Int_Un_distrib2)
qed auto

end
