(* ===== verification/Ty_Schema.thy ===== *)
theory Ty_Schema
  imports Coil_Ty
begin

text \<open>
  The rest of \<^verbatim>\<open>compiler/src/typechecking/ty.rs\<close>: the views of builtin types, the nominal form of enums, readonly
  stripping, and the schema form in which the enum registry stores a variant payload, with the named type parameters as
  constructors. The theorem: reading a payload back from its schema form at an instance is substituting the instance.
\<close>

section \<open>Builtin types\<close>

definition option_app_ty :: "ty \<Rightarrow> ty" where
  "option_app_ty inner = TyApp (TyCon BUILTIN_OPTION_ENUM) [inner]"

definition result_app_ty :: "ty \<Rightarrow> ty \<Rightarrow> ty" where
  "result_app_ty ok err = TyApp (TyCon BUILTIN_RESULT_ENUM) [ok, err]"

definition RANGE :: string where
  "RANGE = ''Range''"

definition RANGE_INCLUSIVE :: string where
  "RANGE_INCLUSIVE = ''RangeInclusive''"

definition BUILTIN_VEC_TYPE :: string where
  "BUILTIN_VEC_TYPE = ''Vec''"

fun range_app :: "ty \<Rightarrow> (ty \<times> bool) option" where
  "range_app (TyApp head args) = (case args of
     [elem] \<Rightarrow> if head = TyCon RANGE then Some (elem, False) else if head = TyCon RANGE_INCLUSIVE then Some (elem, True) else None
   | _ \<Rightarrow> None)"
| "range_app (TyReadonly inner) = range_app inner"
| "range_app _ = None"

fun vec_element_ty :: "ty \<Rightarrow> ty option" where
  "vec_element_ty (TyApp head args) = (case args of [elem] \<Rightarrow> if head = TyCon BUILTIN_VEC_TYPE then Some elem else None | _ \<Rightarrow> None)"
| "vec_element_ty (TyReadonly inner) = vec_element_ty inner"
| "vec_element_ty _ = None"

definition STREAM :: string where
  "STREAM = ''Stream''"

definition THREAD_HANDLES :: "string list" where
  "THREAD_HANDLES = [''Thread'', ''Sender'', ''Receiver'', ''Mutex'', ''RwLock'']"

definition is_opaque_handle :: "string \<Rightarrow> bool" where
  "is_opaque_handle name \<longleftrightarrow> name \<in> set [STREAM, ''Thread'', ''Sender'', ''Receiver'', ''Mutex'', ''RwLock'']"

definition opaque_handle_name :: "ty \<Rightarrow> string option" where
  "opaque_handle_name t = (case strip_readonly t of
     TyCon n \<Rightarrow> if n = STREAM then Some n else None
   | TyApp head args \<Rightarrow> if length args = 1 then (case head of TyCon n \<Rightarrow> if n \<in> set THREAD_HANDLES then Some n else None | _ \<Rightarrow> None) else None
   | _ \<Rightarrow> None)"

fun nominal_enum :: "ty \<Rightarrow> ty" where
  "nominal_enum (TyConstructor owner _ _) = nominal_enum owner"
| "nominal_enum (TySum name variants) =
     (if \<not> is_builtin_option_enum name \<and> \<not> is_builtin_result_enum name then TyCon name else TySum name variants)"
| "nominal_enum t = t"

fun is_option_ty :: "ty \<Rightarrow> bool" where
  "is_option_ty (TySum name _) = (name = BUILTIN_OPTION_ENUM)"
| "is_option_ty (TyCon name) = (name = BUILTIN_OPTION_ENUM)"
| "is_option_ty (TyApp con _) = (con = TyCon BUILTIN_OPTION_ENUM)"
| "is_option_ty (TyConstructor owner _ _) = is_option_ty owner"
| "is_option_ty _ = False"

fun is_result_ty :: "ty \<Rightarrow> bool" where
  "is_result_ty (TySum name _) = (name = BUILTIN_RESULT_ENUM)"
| "is_result_ty (TyCon name) = (name = BUILTIN_RESULT_ENUM)"
| "is_result_ty (TyApp con _) = (con = TyCon BUILTIN_RESULT_ENUM)"
| "is_result_ty (TyConstructor owner _ _) = is_result_ty owner"
| "is_result_ty _ = False"

definition builtin_enum_app :: "ty \<Rightarrow> ty option" where
  "builtin_enum_app ty0 =
     (let t = (case ty0 of TyConstructor owner _ _ \<Rightarrow> owner | other \<Rightarrow> other) in
      if is_option_ty t then map_option option_app_ty (option_inner t)
      else if is_result_ty t then map_option (\<lambda>(ok, err). result_app_ty ok err) (result_ok_err t)
      else None)"

definition ty_tuple :: "ty list \<Rightarrow> ty" where
  "ty_tuple tys = (if tys = [] then TyCon UNIT else TyTuple tys)"

fun strip_readonly_deep :: "ty \<Rightarrow> ty" where
  "strip_readonly_deep (TyReadonly inner) = strip_readonly_deep inner"
| "strip_readonly_deep (TyApp head args) = TyApp (strip_readonly_deep head) (map strip_readonly_deep args)"
| "strip_readonly_deep (TyFun a b) = TyFun (strip_readonly_deep a) (strip_readonly_deep b)"
| "strip_readonly_deep (TyTuple items) = TyTuple (map strip_readonly_deep items)"
| "strip_readonly_deep (TyArray element len) = TyArray (strip_readonly_deep element) len"
| "strip_readonly_deep (TyRecord fields) = TyRecord (map (\<lambda>(n, t). (n, strip_readonly_deep t)) fields)"
| "strip_readonly_deep t = t"

fun is_shallow_const_mutable :: "ty \<Rightarrow> bool" where
  "is_shallow_const_mutable (TyReadonly _) = False"
| "is_shallow_const_mutable (TyArray _ _) = True"
| "is_shallow_const_mutable (TyRecord _) = True"
| "is_shallow_const_mutable (TyCon name) =
     (name \<notin> set [''int'', ''float'', ''string'', ''bool'', ''byte'', ''unit''] \<and> \<not> is_opaque_handle name)"
| "is_shallow_const_mutable (TyApp head [target]) =
     (if head = TyCon ''Root'' \<or> head = TyCon ''Weak'' then is_shallow_const_mutable target
      else case head of TyCon n \<Rightarrow> n \<notin> set THREAD_HANDLES | _ \<Rightarrow> True)"
| "is_shallow_const_mutable (TyApp _ _) = True"
| "is_shallow_const_mutable _ = False"

section \<open>Constraints\<close>

definition constraint_unary :: "string \<Rightarrow> ty_var \<Rightarrow> ty ty_constraint" where
  "constraint_unary class_name var = Constraint class_name [TyVar var]"

definition is_unary_on :: "ty ty_constraint \<Rightarrow> ty_var \<Rightarrow> bool" where
  "is_unary_on c var \<longleftrightarrow> (case con_args c of [TyVar v] \<Rightarrow> v = var | _ \<Rightarrow> False)"

definition primary_var :: "ty ty_constraint \<Rightarrow> ty_var option" where
  "primary_var c = (case get (con_args c) 0 of
     Some (TyVar v) \<Rightarrow> Some v
   | Some (TyApp head _) \<Rightarrow> (case head of TyVar v \<Rightarrow> Some v | _ \<Rightarrow> None)
   | _ \<Rightarrow> None)"

section \<open>The schema form\<close>

text \<open>Constraints are copied, and a quantifier does not shield its variables.\<close>

fun schemaize_ty :: "(ty_var \<rightharpoonup> string) \<Rightarrow> ty \<Rightarrow> ty" where
  "schemaize_ty names (TyVar v) = (case names v of Some n \<Rightarrow> TyCon n | None \<Rightarrow> TyVar v)"
| "schemaize_ty names (TyFun a b) = TyFun (schemaize_ty names a) (schemaize_ty names b)"
| "schemaize_ty names (TyApp con args) = TyApp (schemaize_ty names con) (map (schemaize_ty names) args)"
| "schemaize_ty names (TySum name variants) = TySum name (map (\<lambda>(n, p). (n, map_payload (schemaize_ty names) p)) variants)"
| "schemaize_ty names (TyConstructor owner tag arity) = TyConstructor (schemaize_ty names owner) tag arity"
| "schemaize_ty names (TyTuple tys) = TyTuple (map (schemaize_ty names) tys)"
| "schemaize_ty names (TyArray element len) = TyArray (schemaize_ty names element) len"
| "schemaize_ty names (TyRecord fields) = TyRecord (map (\<lambda>(n, t). (n, schemaize_ty names t)) fields)"
| "schemaize_ty names (TyForall bounds cs body) = TyForall bounds cs (schemaize_ty names body)"
| "schemaize_ty names (TyReadonly inner) = TyReadonly (schemaize_ty names inner)"
| "schemaize_ty names t = t"

fun subst_ty_params :: "(string \<rightharpoonup> ty) \<Rightarrow> ty \<Rightarrow> ty" where
  "subst_ty_params params (TyCon name) = (case params name of Some t \<Rightarrow> t | None \<Rightarrow> TyCon name)"
| "subst_ty_params params (TyFun a b) = TyFun (subst_ty_params params a) (subst_ty_params params b)"
| "subst_ty_params params (TyApp con args) = TyApp (subst_ty_params params con) (map (subst_ty_params params) args)"
| "subst_ty_params params (TySum name variants) = TySum name (map (\<lambda>(n, p). (n, map_payload (subst_ty_params params) p)) variants)"
| "subst_ty_params params (TyConstructor owner tag arity) = TyConstructor (subst_ty_params params owner) tag arity"
| "subst_ty_params params (TyTuple tys) = TyTuple (map (subst_ty_params params) tys)"
| "subst_ty_params params (TyArray element len) = TyArray (subst_ty_params params element) len"
| "subst_ty_params params (TyRecord fields) = TyRecord (map (\<lambda>(n, t). (n, subst_ty_params params t)) fields)"
| "subst_ty_params params (TyForall bounds cs body) = TyForall bounds cs (subst_ty_params params body)"
| "subst_ty_params params (TyReadonly inner) = TyReadonly (subst_ty_params params inner)"
| "subst_ty_params params t = t"

section \<open>Views\<close>

text \<open>The two functions that name an enum agree.\<close>

lemma nominal_enum_peel: "nominal_enum t = peel_constructor_refinement t"
  by (induction t rule: nominal_enum.induct) (simp_all add: is_poly_builtin_enum_def)

lemma builtin_enum_app_app:
  "builtin_enum_app (option_app_ty t) = Some (option_app_ty t)" "builtin_enum_app (result_app_ty t u) = Some (result_app_ty t u)"
  by (simp_all add: builtin_enum_app_def option_app_ty_def result_app_ty_def BUILTIN_OPTION_ENUM_def BUILTIN_RESULT_ENUM_def get_def)

lemma builtin_enum_app_idem: "builtin_enum_app t = Some u \<Longrightarrow> builtin_enum_app u = Some u"
  by (auto simp: builtin_enum_app_def[of t] Let_def builtin_enum_app_app split: if_splits)

lemma strip_readonly_deep_idem: "strip_readonly_deep (strip_readonly_deep t) = strip_readonly_deep t"
proof (induction t rule: ty_parts_induct)
  case (Record fs)
  then show ?case
    by auto
qed simp_all

section \<open>The round trip\<close>

text \<open>The constructor names of a type, those in constraints apart, and its being free of quantifiers.\<close>

fun con_names :: "ty \<Rightarrow> string set" where
  "con_names (TyCon c) = {c}"
| "con_names (TyFun a b) = con_names a \<union> con_names b"
| "con_names (TyApp h ts) = con_names h \<union> (\<Union>t \<in> set ts. con_names t)"
| "con_names (TySum _ vs) = (\<Union>v \<in> set vs. \<Union>t \<in> set (field_types (snd v)). con_names t)"
| "con_names (TyConstructor a _ _) = con_names a"
| "con_names (TyTuple ts) = (\<Union>t \<in> set ts. con_names t)"
| "con_names (TyArray a _) = con_names a"
| "con_names (TyRecord fs) = (\<Union>f \<in> set fs. con_names (snd f))"
| "con_names (TyForall _ _ body) = con_names body"
| "con_names (TyReadonly a) = con_names a"
| "con_names _ = {}"

fun quantifier_free :: "ty \<Rightarrow> bool" where
  "quantifier_free (TyFun a b) = (quantifier_free a \<and> quantifier_free b)"
| "quantifier_free (TyApp h ts) = (quantifier_free h \<and> (\<forall>t \<in> set ts. quantifier_free t))"
| "quantifier_free (TySum _ vs) = (\<forall>v \<in> set vs. \<forall>t \<in> set (field_types (snd v)). quantifier_free t)"
| "quantifier_free (TyConstructor a _ _) = quantifier_free a"
| "quantifier_free (TyTuple ts) = (\<forall>t \<in> set ts. quantifier_free t)"
| "quantifier_free (TyArray a _) = quantifier_free a"
| "quantifier_free (TyRecord fs) = (\<forall>f \<in> set fs. quantifier_free (snd f))"
| "quantifier_free (TyForall _ _ _) = False"
| "quantifier_free (TyReadonly a) = quantifier_free a"
| "quantifier_free _ = True"

lemma schema_instance:
  assumes "\<And>v n. names v = Some n \<Longrightarrow> params n = Some (g v)"
  shows "\<forall>n \<in> con_names t. params n = None \<Longrightarrow> quantifier_free t
    \<Longrightarrow> subst_ty_params params (schemaize_ty names t) = apply_map (\<lambda>v. map_option (\<lambda>_. g v) (names v)) t"
proof (induction t rule: ty_parts_induct)
  case (Var v)
  then show ?case
    using assms[of v] by (auto split: option.split)
next
  case (Sum n vs)
  then have "subst_ty_params params (schemaize_ty names t) = apply_map (\<lambda>v. map_option (\<lambda>_. g v) (names v)) t"
    if "v \<in> set vs" "t \<in> set (field_types (snd v))" for v t
    using that by auto
  from map_variants_cong[of vs "\<lambda>t. subst_ty_params params (schemaize_ty names t)", OF this] show ?case
    by (simp add: payload.map_comp comp_def split_def)
qed auto

lemma schema_same:
  assumes "\<And>v n. names v = Some n \<Longrightarrow> params n = Some (TyVar v)"
  shows "\<forall>n \<in> con_names t. params n = None \<Longrightarrow> subst_ty_params params (schemaize_ty names t) = t"
proof (induction t rule: ty_parts_induct)
  case (Var v)
  then show ?case
    using assms[of v] by (auto split: option.split)
next
  case (Sum n vs)
  then have "subst_ty_params params (schemaize_ty names t) = t" if "v \<in> set vs" "t \<in> set (field_types (snd v))" for v t
    using that by auto
  from map_variants_cong[of vs "\<lambda>t. subst_ty_params params (schemaize_ty names t)" "\<lambda>t. t", OF this] show ?case
    by (simp add: payload.map_comp payload.map_ident comp_def split_def)
qed (auto intro!: map_idI simp: ball_Un)

text \<open>The enum registry. A payload stored in schema form, its type parameters named, and read back with the parameters
  replaced by types is the payload with its parameter variables replaced by these types, and the payload itself when
  each name is given back its variable. No parameter name may be a type constructor of the payload.
\<close>

theorem schema_roundtrip:
  assumes "\<forall>v n. names v = Some n \<longrightarrow> params n = Some (g v)" and "\<forall>n \<in> con_names t. params n = None"
  shows "(quantifier_free t \<longrightarrow> subst_ty_params params (schemaize_ty names t) = apply_map (\<lambda>v. map_option (\<lambda>_. g v) (names v)) t)
    \<and> (g = TyVar \<longrightarrow> subst_ty_params params (schemaize_ty names t) = t)"
  using assms schema_instance[of names params g t] schema_same[of names params t] by blast

theorem schema_roundtrip_witness:
  "subst_ty_params [''T'' \<mapsto> TyCon ''int''] (schemaize_ty [3 \<mapsto> ''T''] (TyFun (TyVar 3) (TyApp (TyCon ''Vec'') [TyVar 3, TyVar 4])))
     = TyFun (TyCon ''int'') (TyApp (TyCon ''Vec'') [TyCon ''int'', TyVar 4])"
  using schema_roundtrip[of "[3 \<mapsto> ''T'']" "[''T'' \<mapsto> TyCon ''int'']" "\<lambda>_. TyCon ''int''" "TyFun (TyVar 3) (TyApp (TyCon ''Vec'') [TyVar 3, TyVar 4])"]
  by simp

end
