(* ===== verification/Ty_Subst.thy ===== *)
theory Ty_Subst
  imports Coil_Ty
begin

text \<open>
  The substitution of the type checker, after \<^verbatim>\<open>compiler/src/typechecking/subst.rs\<close>: bindings in insertion order
  with an index of positions, the users of every variable and the positions that may be stale, and a small overlay of
  bindings over data that is shared. Whether the data is shared, which the code reads off a reference count, is an
  argument where it decides what happens: \<open>unique\<close> when this is the only owner, \<open>same_data\<close> when two substitutions own the
  same data. The theorems: the structure is the map that \<open>get\<close> reads, and \<open>absorb\<close>, which touches the stale positions
  and the users of new bindings only, is \<open>compose\<close>.
\<close>

section \<open>The structure\<close>

record subst_data =
  sd_mappings :: "(ty_var \<times> ty) list"
  sd_index :: "ty_var \<rightharpoonup> nat"
  sd_users :: "ty_var \<rightharpoonup> nat list"
  sd_stale :: "nat set"

record ty_subst =
  ts_data :: subst_data
  ts_local :: "(ty_var \<times> ty) list"

definition mentions_bound :: "subst_data \<Rightarrow> ty \<Rightarrow> bool" where
  "mentions_bound d t \<longleftrightarrow> (\<exists>v \<in> ftv_ty t. sd_index d v \<noteq> None)"

definition sd_track :: "subst_data \<Rightarrow> nat \<Rightarrow> subst_data" where
  "sd_track d pos =
     (let free = ftv_ty (snd (sd_mappings d ! pos)) in
      d\<lparr>sd_stale := (if mentions_bound d (snd (sd_mappings d ! pos)) then insert pos (sd_stale d) else sd_stale d),
        sd_users := (\<lambda>v. if v \<in> free then Some ((case sd_users d v of None \<Rightarrow> [] | Some l \<Rightarrow> l) @ [pos]) else sd_users d v)\<rparr>)"

definition sd_set :: "subst_data \<Rightarrow> nat \<Rightarrow> ty \<Rightarrow> subst_data" where
  "sd_set d pos t = d\<lparr>sd_mappings := (sd_mappings d)[pos := (fst (sd_mappings d ! pos), t)]\<rparr>"

definition sd_insert :: "subst_data \<Rightarrow> ty_var \<Rightarrow> ty \<Rightarrow> subst_data" where
  "sd_insert d v t = (case sd_index d v of
     Some pos \<Rightarrow> sd_track (sd_set d pos t) pos
   | None \<Rightarrow>
       (let pos = length (sd_mappings d);
            d1 = d\<lparr>sd_index := (sd_index d)(v \<mapsto> pos), sd_mappings := sd_mappings d @ [(v, t)]\<rparr>;
            d2 = (case sd_users d1 v of None \<Rightarrow> d1 | Some users \<Rightarrow> d1\<lparr>sd_stale := sd_stale d1 \<union> set users\<rparr>) in
        sd_track d2 pos))"

definition sd_reindex :: "subst_data \<Rightarrow> subst_data" where
  "sd_reindex d = foldl sd_track
     (d\<lparr>sd_index := foldl (\<lambda>ix (pos, v). ix(v \<mapsto> pos)) Map.empty (enumerate 0 (map fst (sd_mappings d))),
        sd_users := Map.empty, sd_stale := {}\<rparr>) [0..<length (sd_mappings d)]"

definition sd_empty :: subst_data where
  "sd_empty = \<lparr>sd_mappings = [], sd_index = Map.empty, sd_users = Map.empty, sd_stale = {}\<rparr>"

definition subst_empty :: ty_subst where
  "subst_empty = \<lparr>ts_data = sd_empty, ts_local = []\<rparr>"

text \<open>The newest binding of the overlay first, then the data.\<close>

definition subst_get :: "ty_subst \<Rightarrow> ty_var \<Rightarrow> ty option" where
  "subst_get s v = (case List.find (\<lambda>(k, _). k = v) (rev (ts_local s)) of
     Some (_, t) \<Rightarrow> Some t
   | None \<Rightarrow> map_option (\<lambda>pos. snd (sd_mappings (ts_data s) ! pos)) (sd_index (ts_data s) v))"

definition subst_contains :: "ty_subst \<Rightarrow> ty_var \<Rightarrow> bool" where
  "subst_contains s v \<longleftrightarrow> subst_get s v \<noteq> None"

fun local_set :: "(ty_var \<times> ty) list \<Rightarrow> ty_var \<Rightarrow> ty \<Rightarrow> (ty_var \<times> ty) list" where
  "local_set [] v t = []"
| "local_set ((k, u) # l) v t = (if k = v then (k, t) # l else (k, u) # local_set l v t)"

definition subst_insert :: "bool \<Rightarrow> ty_subst \<Rightarrow> ty_var \<Rightarrow> ty \<Rightarrow> ty_subst" where
  "subst_insert unique s v t =
     (if v \<in> fst ` set (ts_local s) then s\<lparr>ts_local := local_set (ts_local s) v t\<rparr>
      else if unique then s\<lparr>ts_data := sd_insert (ts_data s) v t\<rparr>
      else s\<lparr>ts_local := ts_local s @ [(v, t)]\<rparr>)"

definition subst_own :: "ty_subst \<Rightarrow> ty_subst" where
  "subst_own s = \<lparr>ts_data = foldl (\<lambda>d (v, t). sd_insert d v t) (ts_data s) (ts_local s), ts_local = []\<rparr>"

definition list_remove :: "nat \<Rightarrow> 'a list \<Rightarrow> 'a list" where
  "list_remove i xs = take i xs @ drop (Suc i) xs"

definition subst_remove :: "ty_subst \<Rightarrow> ty_var \<Rightarrow> ty option \<times> ty_subst" where
  "subst_remove s v =
     (if \<not> subst_contains s v then (None, s)
      else let s1 = subst_own s; d = ts_data s1 in
        case sd_index d v of
          None \<Rightarrow> (None, s1)
        | Some pos \<Rightarrow> (Some (snd (sd_mappings d ! pos)),
            s1\<lparr>ts_data := sd_reindex (d\<lparr>sd_index := (sd_index d)(v := None), sd_mappings := list_remove pos (sd_mappings d)\<rparr>)\<rparr>))"

definition subst_len :: "ty_subst \<Rightarrow> nat" where
  "subst_len s = length (sd_mappings (ts_data s)) + length (filter (\<lambda>(k, _). sd_index (ts_data s) k = None) (ts_local s))"

definition subst_is_empty :: "ty_subst \<Rightarrow> bool" where
  "subst_is_empty s \<longleftrightarrow> sd_mappings (ts_data s) = [] \<and> ts_local s = []"

definition subst_iter :: "ty_subst \<Rightarrow> (ty_var \<times> ty) list" where
  "subst_iter s =
     map (\<lambda>(k, t). (k, case List.find (\<lambda>(l, _). l = k) (rev (ts_local s)) of Some (_, u) \<Rightarrow> u | None \<Rightarrow> t)) (sd_mappings (ts_data s))
     @ filter (\<lambda>(k, _). sd_index (ts_data s) k = None) (ts_local s)"

definition subst_ftv :: "ty_subst \<Rightarrow> ty_var set" where
  "subst_ftv s = foldl (\<lambda>acc (_, t). acc \<union> ftv_ty t) {} (subst_iter s)"

text \<open>One look-up per variable; under a \<open>Forall\<close>, in a copy without the quantified variables.\<close>

definition without :: "ty_subst \<Rightarrow> ty_var list \<Rightarrow> ty_subst" where
  "without s bounds = foldl (\<lambda>inner v. snd (subst_remove inner v)) s bounds"

fun apply_ty :: "ty_subst \<Rightarrow> ty \<Rightarrow> ty" where
  "apply_ty s (TyVar v) = (case subst_get s v of Some t \<Rightarrow> t | None \<Rightarrow> TyVar v)"
| "apply_ty s (TyCon c) = TyCon c"
| "apply_ty s (TyFun a b) = TyFun (apply_ty s a) (apply_ty s b)"
| "apply_ty s (TyApp c args) = TyApp (apply_ty s c) (map (apply_ty s) args)"
| "apply_ty s (TySum name variants) = TySum name (map (\<lambda>(n, p). (n, map_payload (apply_ty s) p)) variants)"
| "apply_ty s (TyConstructor owner tag arity) = TyConstructor (apply_ty s owner) tag arity"
| "apply_ty s (TyTuple tys) = TyTuple (map (apply_ty s) tys)"
| "apply_ty s (TyArray element len) = TyArray (apply_ty s element) len"
| "apply_ty s (TyRecord fs) = TyRecord (map (\<lambda>(n, t). (n, apply_ty s t)) fs)"
| "apply_ty s (TyReadonly inner) = TyReadonly (apply_ty s inner)"
| "apply_ty s (TyExistential c) = TyExistential c"
| "apply_ty s (TyForall bounds cs body) =
     (let inner = without s bounds in
      TyForall bounds (map (\<lambda>c. Constraint (con_class c) (map (apply_ty inner) (con_args c))) cs) (apply_ty inner body))"
| "apply_ty s TyNever = TyNever"

text \<open>The loop of \<open>apply_ty_prune\<close> stops at a fixed point; where it has none, its value is \<open>None\<close>.\<close>

partial_function (option) prune_loop :: "ty_subst \<Rightarrow> ty \<Rightarrow> ty option" where
  "prune_loop s current = (let nxt = apply_ty s current in if nxt = current then Some current else prune_loop s nxt)"

definition apply_ty_prune :: "ty_subst \<Rightarrow> ty \<Rightarrow> ty option" where
  "apply_ty_prune s t = prune_loop s (apply_ty s t)"

definition compose :: "ty_subst \<Rightarrow> ty_subst \<Rightarrow> ty_subst" where
  "compose s1 s2 =
     (let r = foldl (\<lambda>r (v, t). subst_insert True r v (apply_ty s1 t)) subst_empty (subst_iter s2) in
      foldl (\<lambda>r (v, t). if subst_contains r v then r else subst_insert True r v t) r (subst_iter s1))"

definition subst_union :: "ty_subst \<Rightarrow> ty_subst \<Rightarrow> ty_subst" where
  "subst_union s1 s2 = foldl (\<lambda>r (v, t). subst_insert False r v t) s1 (subst_iter s2)"

definition subst_is_same :: "bool \<Rightarrow> ty_subst \<Rightarrow> ty_subst \<Rightarrow> bool" where
  "subst_is_same same_data a b \<longleftrightarrow> same_data \<and> ts_local a = [] \<and> ts_local b = []"

definition absorb_work :: "ty_subst \<Rightarrow> nat list" where
  "absorb_work s = sorted_list_of_set
     (foldl (\<lambda>work (k, _). case sd_users (ts_data s) k of None \<Rightarrow> work | Some users \<Rightarrow> work \<union> set users) (sd_stale (ts_data s)) (ts_local s))"

definition absorb_updates :: "ty_subst \<Rightarrow> (nat \<times> ty) list" where
  "absorb_updates s = List.map_filter (\<lambda>pos.
     let old = snd (sd_mappings (ts_data s) ! pos); new = apply_ty s old in if new \<noteq> old then Some (pos, new) else None) (absorb_work s)"

definition drop_fresh :: "subst_data \<Rightarrow> subst_data" where
  "drop_fresh d = d\<lparr>sd_stale := {pos \<in> sd_stale d. mentions_bound d (snd (sd_mappings d ! pos))}\<rparr>"

definition subst_absorb :: "bool \<Rightarrow> ty_subst \<Rightarrow> ty_subst \<Rightarrow> ty_subst" where
  "subst_absorb same_data self s =
     (if subst_is_same same_data s self then self
      else if \<not> (same_data \<and> ts_local self = [] \<and> (\<forall>(k, _) \<in> set (ts_local s). sd_index (ts_data s) k = None)) then compose s self
      else let d1 = foldl (\<lambda>d (pos, t). sd_track (sd_set d pos t) pos) (ts_data self) (absorb_updates s);
               d2 = foldl (\<lambda>d (v, t). sd_insert d v t) d1 (ts_local s) in
        self\<lparr>ts_data := drop_fresh d2\<rparr>)"

section \<open>Stores of bindings\<close>

text \<open>
  What the checker asks of a store of bindings: a write is seen by the next look-up and keeps the store well-formed. A
  series of writes then leaves the newest write of each key.
\<close>

lemma map_of_rev: "distinct (map fst l) \<Longrightarrow> map_of (rev l) = map_of l"
proof (induction l)
  case (Cons x l)
  then have "map_of l (fst x) = None"
    by (auto simp: map_of_eq_None_iff)
  then show ?case
    using Cons by (cases x) (auto simp: map_add_def fun_eq_iff split: option.split)
qed simp

locale binding_map =
  fixes ok :: "'s \<Rightarrow> bool" and look :: "'s \<Rightarrow> 'k \<rightharpoonup> 'v" and put :: "'s \<Rightarrow> 'k \<Rightarrow> 'v \<Rightarrow> 's"
  assumes put_ok: "ok s \<Longrightarrow> ok (put s k v)"
    and put_look: "ok s \<Longrightarrow> look (put s k v) = (look s)(k \<mapsto> v)"
begin

lemma put_all:
  assumes "ok s"
  shows "ok (foldl (\<lambda>s (k, v). put s k v) s kv)" "look (foldl (\<lambda>s (k, v). put s k v) s kv) = look s ++ map_of (rev kv)"
proof -
  have "ok (foldl (\<lambda>s (k, v). put s k v) s kv) \<and> look (foldl (\<lambda>s (k, v). put s k v) s kv) = look s ++ map_of (rev kv)"
  proof (induction kv rule: rev_induct)
    case (snoc x kv)
    then show ?case
      by (cases x) (auto simp: put_ok put_look map_add_def fun_eq_iff)
  qed (use assms in simp)
  then show "ok (foldl (\<lambda>s (k, v). put s k v) s kv)" "look (foldl (\<lambda>s (k, v). put s k v) s kv) = look s ++ map_of (rev kv)"
    by auto
qed

lemma put_all_distinct:
  "ok s \<Longrightarrow> distinct (map fst kv) \<Longrightarrow> look (foldl (\<lambda>s (k, v). put s k v) s kv) = look s ++ map_of kv"
  by (simp add: put_all map_of_rev)

end

section \<open>The invariant\<close>

text \<open>
  The index is the positions of the bindings, the users of a variable and the stale positions are supersets; of the
  positions in \<open>X\<close> the last two know nothing yet.
\<close>

definition index_ok :: "subst_data \<Rightarrow> bool" where
  "index_ok d \<longleftrightarrow> (\<forall>v pos. sd_index d v = Some pos \<longleftrightarrow> pos < length (sd_mappings d) \<and> fst (sd_mappings d ! pos) = v)"

definition sd_ok_but :: "nat set \<Rightarrow> subst_data \<Rightarrow> bool" where
  "sd_ok_but X d \<longleftrightarrow> index_ok d \<and> sd_stale d \<subseteq> {..<length (sd_mappings d)}
     \<and> (\<forall>v l. sd_users d v = Some l \<longrightarrow> set l \<subseteq> {..<length (sd_mappings d)})
     \<and> (\<forall>pos < length (sd_mappings d). pos \<notin> X \<longrightarrow>
          (\<forall>v \<in> ftv_ty (snd (sd_mappings d ! pos)). \<exists>l. sd_users d v = Some l \<and> pos \<in> set l)
          \<and> (mentions_bound d (snd (sd_mappings d ! pos)) \<longrightarrow> pos \<in> sd_stale d))"

abbreviation sd_ok :: "subst_data \<Rightarrow> bool" where
  "sd_ok \<equiv> sd_ok_but {}"

definition subst_ok :: "ty_subst \<Rightarrow> bool" where
  "subst_ok s \<longleftrightarrow> sd_ok (ts_data s) \<and> distinct (map fst (ts_local s))"

lemma index_ok_keys:
  assumes "index_ok d"
  shows "distinct (map fst (sd_mappings d))" "sd_index d v = None \<longleftrightarrow> v \<notin> fst ` set (sd_mappings d)"
    "map_option (\<lambda>pos. snd (sd_mappings d ! pos)) (sd_index d v) = map_of (sd_mappings d) v"
proof -
  have ix: "sd_index d v = Some pos \<longleftrightarrow> pos < length (sd_mappings d) \<and> fst (sd_mappings d ! pos) = v" for v pos
    using assms by (simp add: index_ok_def)
  show dist: "distinct (map fst (sd_mappings d))"
    unfolding distinct_conv_nth
  proof (intro allI impI)
    fix i j assume ij: "i < length (map fst (sd_mappings d))" "j < length (map fst (sd_mappings d))" "i \<noteq> j"
    then have "sd_index d (fst (sd_mappings d ! i)) = Some i" "sd_index d (fst (sd_mappings d ! j)) = Some j"
      using ix by auto
    then show "map fst (sd_mappings d) ! i \<noteq> map fst (sd_mappings d) ! j"
      using ij by auto
  qed
  show none: "sd_index d v = None \<longleftrightarrow> v \<notin> fst ` set (sd_mappings d)"
  proof
    assume "sd_index d v = None"
    then have "\<not> (pos < length (sd_mappings d) \<and> fst (sd_mappings d ! pos) = v)" for pos
      using ix[of v pos] by simp
    then show "v \<notin> fst ` set (sd_mappings d)"
      by (fastforce simp: in_set_conv_nth)
  next
    assume v: "v \<notin> fst ` set (sd_mappings d)"
    show "sd_index d v = None"
    proof (rule ccontr)
      assume "sd_index d v \<noteq> None"
      then obtain pos where "sd_index d v = Some pos"
        by blast
      then have "pos < length (sd_mappings d)" "fst (sd_mappings d ! pos) = v"
        using ix[of v pos] by simp_all
      then show False
        using v nth_mem[of pos "sd_mappings d"] by force
    qed
  qed
  show "map_option (\<lambda>pos. snd (sd_mappings d ! pos)) (sd_index d v) = map_of (sd_mappings d) v"
  proof (cases "sd_index d v")
    case None
    then have "map_of (sd_mappings d) v = None"
      using none by (simp add: map_of_eq_None_iff)
    then show ?thesis
      using None by simp
  next
    case (Some pos)
    then have "pos < length (sd_mappings d)" "sd_mappings d ! pos = (v, snd (sd_mappings d ! pos))"
      using ix by auto
    then have "map_of (sd_mappings d) v = Some (snd (sd_mappings d ! pos))"
      using dist by (metis map_of_eq_Some_iff nth_mem)
    then show ?thesis
      using Some by simp
  qed
qed

lemma find_last: "distinct (map fst l) \<Longrightarrow> List.find (\<lambda>(k, _). k = v) (rev l) = map_option (Pair v) (map_of l v)"
proof (induction l rule: rev_induct)
  case (snoc x l)
  obtain k t where x: "x = (k, t)"
    by force
  show ?case
  proof (cases "k = v")
    case True
    then have "map_of l v = None"
      using snoc.prems x by (auto simp: map_of_eq_None_iff)
    then show ?thesis
      using True x by (simp add: map_add_def)
  next
    case False
    then show ?thesis
      using snoc x by (auto simp: map_add_def split: option.split)
  qed
qed simp

lemma map_of_filter_key: "map_of (filter (\<lambda>(k, _). P k) xs) k = (if P k then map_of xs k else None)"
  by (induction xs) auto

text \<open>The map a substitution is.\<close>

lemma subst_get_map:
  assumes "subst_ok s"
  shows "subst_get s = map_of (sd_mappings (ts_data s)) ++ map_of (ts_local s)"
proof
  fix v
  have ix: "index_ok (ts_data s)" and l: "distinct (map fst (ts_local s))"
    using assms by (auto simp: subst_ok_def sd_ok_but_def)
  show "subst_get s v = (map_of (sd_mappings (ts_data s)) ++ map_of (ts_local s)) v"
    by (cases "map_of (ts_local s) v") (simp_all add: subst_get_def find_last[OF l] index_ok_keys(3)[OF ix] map_add_def)
qed

section \<open>Writes keep it\<close>

lemma sd_track_simps [simp]:
  "sd_mappings (sd_track d pos) = sd_mappings d" "sd_index (sd_track d pos) = sd_index d"
  by (simp_all add: sd_track_def Let_def)

lemma mentions_track [simp]: "mentions_bound (sd_track d pos) t = mentions_bound d t"
  by (simp add: mentions_bound_def)

lemma sd_track_ok:
  assumes "sd_ok_but X d" and "pos < length (sd_mappings d)"
  shows "sd_ok_but (X - {pos}) (sd_track d pos)"
proof -
  let ?d = "sd_track d pos"
  have users: "sd_users ?d v = (if v \<in> ftv_ty (snd (sd_mappings d ! pos)) then Some ((case sd_users d v of None \<Rightarrow> [] | Some l \<Rightarrow> l) @ [pos]) else sd_users d v)" for v
    by (simp add: sd_track_def Let_def)
  have stale: "sd_stale ?d = (if mentions_bound d (snd (sd_mappings d ! pos)) then insert pos (sd_stale d) else sd_stale d)"
    by (simp add: sd_track_def Let_def)
  have old: "\<exists>l. sd_users ?d v = Some l \<and> p \<in> set l" if "sd_users d v = Some l" "p \<in> set l" for v l p
    using that by (simp add: users)
  have range: "set l \<subseteq> {..<length (sd_mappings d)}" if "sd_users ?d v = Some l" for v l
  proof -
    have d: "\<And>l. sd_users d v = Some l \<Longrightarrow> set l \<subseteq> {..<length (sd_mappings d)}"
      using assms(1) unfolding sd_ok_but_def by blast
    show ?thesis
      using that assms(2) d by (cases "sd_users d v") (auto simp: users split: if_splits)
  qed
  have "(\<forall>v \<in> ftv_ty (snd (sd_mappings d ! p)). \<exists>l. sd_users ?d v = Some l \<and> p \<in> set l)
      \<and> (mentions_bound d (snd (sd_mappings d ! p)) \<longrightarrow> p \<in> sd_stale ?d)" if p: "p < length (sd_mappings d)" "p \<notin> X - {pos}" for p
  proof (cases "p = pos")
    case True
    then show ?thesis
      by (simp add: users stale)
  next
    case False
    then have "(\<forall>v \<in> ftv_ty (snd (sd_mappings d ! p)). \<exists>l. sd_users d v = Some l \<and> p \<in> set l)
      \<and> (mentions_bound d (snd (sd_mappings d ! p)) \<longrightarrow> p \<in> sd_stale d)"
      using assms(1) p by (simp add: sd_ok_but_def)
    then show ?thesis
      using old by (auto simp: stale)
  qed
  then show ?thesis
    using assms range by (auto simp: sd_ok_but_def index_ok_def stale)
qed

lemma sd_set_ok:
  assumes "sd_ok_but X d" and "pos < length (sd_mappings d)"
  shows "sd_ok_but (insert pos X) (sd_set d pos t)"
proof -
  have "fst ((sd_mappings d)[pos := (fst (sd_mappings d ! pos), t)] ! p) = fst (sd_mappings d ! p)" if "p < length (sd_mappings d)" for p
    using that by (cases "p = pos") simp_all
  moreover have "mentions_bound (sd_set d pos t) u = mentions_bound d u" for u
    by (simp add: mentions_bound_def sd_set_def)
  moreover have "(sd_mappings (sd_set d pos t)) ! p = sd_mappings d ! p" if "p \<noteq> pos" for p
    using that by (simp add: sd_set_def)
  moreover have "sd_stale (sd_set d pos t) = sd_stale d" "sd_users (sd_set d pos t) = sd_users d" "sd_index (sd_set d pos t) = sd_index d"
    "length (sd_mappings (sd_set d pos t)) = length (sd_mappings d)"
    by (simp_all add: sd_set_def)
  moreover have "index_ok (sd_set d pos t) = index_ok d"
    using calculation(1) by (auto simp: index_ok_def sd_set_def)
  ultimately show ?thesis
    using assms(1) unfolding sd_ok_but_def by simp
qed

lemma map_of_update_at:
  assumes "distinct (map fst xs)" and "i < length xs" and "fst (xs ! i) = v"
  shows "map_of (xs[i := (v, t)]) = (map_of xs)(v \<mapsto> t)"
  using assms
proof (induction xs arbitrary: i)
  case (Cons x xs)
  show ?case
  proof (cases i)
    case 0
    then show ?thesis
      using Cons.prems by (cases x) auto
  next
    case (Suc j)
    then have "fst x \<noteq> v"
      using Cons.prems nth_mem[of j xs] by force
    then show ?thesis
      using Suc Cons by (cases x) (auto simp: fun_upd_twist)
  qed
qed simp

lemma sd_push_ok:
  fixes t :: ty
  assumes "sd_ok d" and "sd_index d v = None"
  defines "d1 \<equiv> d\<lparr>sd_index := (sd_index d)(v \<mapsto> length (sd_mappings d)), sd_mappings := sd_mappings d @ [(v, t)],
    sd_stale := sd_stale d \<union> (case sd_users d v of None \<Rightarrow> {} | Some users \<Rightarrow> set users)\<rparr>"
  shows "sd_ok_but {length (sd_mappings d)} d1"
proof -
  let ?n = "length (sd_mappings d)"
  have ix: "sd_index d w = Some pos \<longleftrightarrow> pos < ?n \<and> fst (sd_mappings d ! pos) = w" for w pos
    using assms(1) by (simp add: sd_ok_but_def index_ok_def)
  have users: "\<And>w l. sd_users d w = Some l \<Longrightarrow> set l \<subseteq> {..<?n}" and stale: "sd_stale d \<subseteq> {..<?n}"
    using assms(1) by (auto simp: sd_ok_but_def)
  have "index_ok d1"
    unfolding index_ok_def
  proof (intro allI)
    fix w pos
    have "fst (sd_mappings d ! pos) \<noteq> v" if "pos < ?n"
      using ix[of v pos] assms(2) that by auto
    then show "sd_index d1 w = Some pos \<longleftrightarrow> pos < length (sd_mappings d1) \<and> fst (sd_mappings d1 ! pos) = w"
      using ix[of w pos] by (auto simp: d1_def nth_append less_Suc_eq)
  qed
  moreover have "sd_stale d1 \<subseteq> {..<Suc ?n}"
    using stale users[of v] by (cases "sd_users d v") (fastforce simp: d1_def)+
  moreover have "(\<forall>w \<in> ftv_ty (snd (sd_mappings d ! pos)). \<exists>l. sd_users d w = Some l \<and> pos \<in> set l)
      \<and> (mentions_bound d1 (snd (sd_mappings d ! pos)) \<longrightarrow> pos \<in> sd_stale d1)" if pos: "pos < ?n" for pos
  proof -
    have o: "\<forall>w \<in> ftv_ty (snd (sd_mappings d ! pos)). \<exists>l. sd_users d w = Some l \<and> pos \<in> set l"
      "mentions_bound d (snd (sd_mappings d ! pos)) \<Longrightarrow> pos \<in> sd_stale d"
      using assms(1) pos by (auto simp: sd_ok_but_def)
    have "pos \<in> sd_stale d1" if "mentions_bound d1 (snd (sd_mappings d ! pos))"
    proof (cases "v \<in> ftv_ty (snd (sd_mappings d ! pos))")
      case True
      then show ?thesis
        using o(1) by (fastforce simp: d1_def)
    next
      case False
      then have "mentions_bound d (snd (sd_mappings d ! pos))"
        using that by (auto simp: mentions_bound_def d1_def split: if_splits)
      then show ?thesis
        using o(2) by (simp add: d1_def)
    qed
    then show ?thesis
      using o(1) by blast
  qed
  ultimately show ?thesis
    using users unfolding sd_ok_but_def
    by (auto simp: d1_def nth_append less_Suc_eq) fastforce+
qed

lemma sd_insert_eq:
  assumes "index_ok d"
  shows "sd_index d v = None \<Longrightarrow> sd_mappings (sd_insert d v t) = sd_mappings d @ [(v, t)]"
    "sd_index d v = Some pos \<Longrightarrow> sd_mappings (sd_insert d v t) = (sd_mappings d)[pos := (v, t)]"
proof -
  show "sd_mappings (sd_insert d v t) = sd_mappings d @ [(v, t)]" if "sd_index d v = None"
    using that by (simp add: sd_insert_def Let_def split: option.split)
  show "sd_mappings (sd_insert d v t) = (sd_mappings d)[pos := (v, t)]" if "sd_index d v = Some pos"
  proof -
    have "fst (sd_mappings d ! pos) = v"
      using that assms[unfolded index_ok_def, rule_format, of v pos] by simp
    then show ?thesis
      using that by (simp add: sd_insert_def sd_set_def)
  qed
qed

lemma sd_insert_ok:
  assumes "sd_ok d"
  shows "sd_ok (sd_insert d v t)" "map_of (sd_mappings (sd_insert d v t)) = (map_of (sd_mappings d))(v \<mapsto> t)"
proof -
  have ix: "index_ok d"
    using assms by (simp add: sd_ok_but_def)
  have "sd_ok (sd_insert d v t) \<and> map_of (sd_mappings (sd_insert d v t)) = (map_of (sd_mappings d))(v \<mapsto> t)"
  proof (cases "sd_index d v")
    case None
    let ?d1 = "d\<lparr>sd_index := (sd_index d)(v \<mapsto> length (sd_mappings d)), sd_mappings := sd_mappings d @ [(v, t)],
      sd_stale := sd_stale d \<union> (case sd_users d v of None \<Rightarrow> {} | Some users \<Rightarrow> set users)\<rparr>"
    have "sd_insert d v t = sd_track ?d1 (length (sd_mappings d))"
      using None by (cases "sd_users d v") (simp_all add: sd_insert_def Let_def)
    then have "sd_ok (sd_insert d v t)"
      using sd_track_ok[OF sd_push_ok[OF assms None, of t], of "length (sd_mappings d)"] by simp
    moreover have "map_of (sd_mappings d) v = None"
      using index_ok_keys(2)[OF ix, of v] None by (simp add: map_of_eq_None_iff)
    ultimately show ?thesis
      using sd_insert_eq(1)[OF ix None] by (auto simp: map_add_def fun_eq_iff split: option.split)
  next
    case (Some pos)
    then have pos: "pos < length (sd_mappings d)" "fst (sd_mappings d ! pos) = v"
      using ix by (auto simp: index_ok_def)
    have "sd_insert d v t = sd_track (sd_set d pos t) pos"
      using Some by (simp add: sd_insert_def)
    then have "sd_ok (sd_insert d v t)"
      using sd_track_ok[OF sd_set_ok[OF assms pos(1), of t], of pos] pos(1) by (simp add: sd_set_def)
    moreover have "map_of ((sd_mappings d)[pos := (v, t)]) = (map_of (sd_mappings d))(v \<mapsto> t)"
      using index_ok_keys(1)[OF ix] pos by (intro map_of_update_at) auto
    ultimately show ?thesis
      using sd_insert_eq(2)[OF ix Some] by simp
  qed
  then show "sd_ok (sd_insert d v t)" "map_of (sd_mappings (sd_insert d v t)) = (map_of (sd_mappings d))(v \<mapsto> t)"
    by auto
qed

interpretation sd: binding_map sd_ok "\<lambda>d. map_of (sd_mappings d)" sd_insert
  by unfold_locales (rule sd_insert_ok, assumption)+

lemma sd_insert_new:
  assumes "sd_ok d" and "distinct (map fst l)" and "fst ` set l \<inter> fst ` set (sd_mappings d) = {}"
  shows "sd_mappings (foldl (\<lambda>d (v, t). sd_insert d v t) d l) = sd_mappings d @ l"
  using assms(2,3)
proof (induction l rule: rev_induct)
  case (snoc x l)
  obtain v t where x: "x = (v, t)"
    by force
  let ?d = "foldl (\<lambda>d (v, t). sd_insert d v t) d l"
  have m: "sd_mappings ?d = sd_mappings d @ l" and ix: "index_ok ?d"
    using snoc sd.put_all(1)[OF assms(1), of l] by (auto simp: sd_ok_but_def)
  have "sd_index ?d v = None"
    using snoc.prems x by (auto simp: index_ok_keys(2)[OF ix] m)
  from sd_insert_eq(1)[OF ix this, of t] show ?case
    by (simp add: x m)
qed simp

lemma index_fold:
  assumes "distinct ks"
  shows "foldl (\<lambda>ix (pos, v). ix(v \<mapsto> pos)) Map.empty (enumerate 0 ks) v = Some pos \<longleftrightarrow> pos < length ks \<and> ks ! pos = v"
  using assms
proof (induction ks rule: rev_induct)
  case (snoc k ks)
  have "ks ! pos \<noteq> k" if "pos < length ks"
    using snoc.prems that nth_mem by fastforce
  then show ?case
    using snoc by (auto simp: enumerate_append_eq nth_append less_Suc_eq)
qed simp

lemma sd_reindex_ok:
  assumes "distinct (map fst (sd_mappings d))"
  shows "sd_ok (sd_reindex d)" "sd_mappings (sd_reindex d) = sd_mappings d"
proof -
  define d0 where "d0 = d\<lparr>sd_index := foldl (\<lambda>ix (pos, v). ix(v \<mapsto> pos)) Map.empty (enumerate 0 (map fst (sd_mappings d))),
    sd_users := Map.empty, sd_stale := {}\<rparr>"
  have start: "sd_ok_but UNIV d0" "sd_mappings d0 = sd_mappings d"
    using index_fold[OF assms] by (auto simp: sd_ok_but_def index_ok_def d0_def)
  have "sd_ok_but (- {..<n}) (foldl sd_track d0 [0..<n]) \<and> sd_mappings (foldl sd_track d0 [0..<n]) = sd_mappings d" if "n \<le> length (sd_mappings d)" for n
    using that
  proof (induction n)
    case 0
    then show ?case
      using start by simp
  next
    case (Suc n)
    then have "sd_ok_but (- {..<n} - {n}) (sd_track (foldl sd_track d0 [0..<n]) n)"
      by (intro sd_track_ok) auto
    moreover have "- {..<n} - {n} = - {..<Suc n}"
      by auto
    ultimately show ?case
      using Suc by simp
  qed
  moreover have "sd_reindex d = foldl sd_track d0 [0..<length (sd_mappings d)]"
    unfolding sd_reindex_def d0_def ..
  ultimately have "sd_ok_but (- {..<length (sd_mappings d)}) (sd_reindex d)" and m: "sd_mappings (sd_reindex d) = sd_mappings d"
    by simp_all
  then show "sd_ok (sd_reindex d)"
    unfolding sd_ok_but_def m by simp
  show "sd_mappings (sd_reindex d) = sd_mappings d"
    by (rule m)
qed

lemma list_remove_keys:
  assumes "distinct (map fst xs)" and "i < length xs"
  shows "distinct (map fst (list_remove i xs))" "map_of (list_remove i xs) = (map_of xs)(fst (xs ! i) := None)"
proof -
  have xs: "xs = take i xs @ xs ! i # drop (Suc i) xs"
    using assms(2) by (rule id_take_nth_drop)
  have d: "distinct (map fst (take i xs @ xs ! i # drop (Suc i) xs))"
    using assms(1) xs by simp
  then show "distinct (map fst (list_remove i xs))"
    by (simp add: list_remove_def)
  have "map_of (take i xs @ drop (Suc i) xs) = (map_of (take i xs @ xs ! i # drop (Suc i) xs))(fst (xs ! i) := None)"
  proof -
    have "map_of (take i xs) (fst (xs ! i)) = None" "map_of (drop (Suc i) xs) (fst (xs ! i)) = None"
      using d by (auto simp: map_of_eq_None_iff)
    then show ?thesis
      by (cases "xs ! i") (auto simp: map_add_def fun_eq_iff split: option.split)
  qed
  then show "map_of (list_remove i xs) = (map_of xs)(fst (xs ! i) := None)"
    using xs by (simp add: list_remove_def)
qed

section \<open>The operations as operations on a map\<close>

lemma subst_empty_ok: "subst_ok subst_empty" "subst_get subst_empty = Map.empty"
  by (simp_all add: subst_ok_def subst_empty_def sd_empty_def sd_ok_but_def index_ok_def subst_get_def fun_eq_iff)

lemma local_set_keys:
  "map fst (local_set l v t) = map fst l" "v \<in> fst ` set l \<Longrightarrow> distinct (map fst l) \<Longrightarrow> map_of (local_set l v t) = (map_of l)(v \<mapsto> t)"
proof -
  show "map fst (local_set l v t) = map fst l"
    by (induction l v t rule: local_set.induct) auto
  show "v \<in> fst ` set l \<Longrightarrow> distinct (map fst l) \<Longrightarrow> map_of (local_set l v t) = (map_of l)(v \<mapsto> t)"
  proof (induction l)
    case (Cons x l)
    show ?case
    proof (cases "fst x = v")
      case True
      then show ?thesis
        by (cases x) (auto simp: fun_eq_iff)
    next
      case False
      then have "map_of (local_set l v t) = (map_of l)(v \<mapsto> t)"
        using Cons by auto
      then show ?thesis
        using False by (cases x) (auto simp: fun_eq_iff)
    qed
  qed simp
qed

lemma subst_insert_map:
  assumes "subst_ok s"
  shows "subst_ok (subst_insert unique s v t)" "subst_get (subst_insert unique s v t) = (subst_get s)(v \<mapsto> t)"
proof -
  let ?s = "subst_insert unique s v t"
  have d: "sd_ok (ts_data s)" "distinct (map fst (ts_local s))"
    using assms by (auto simp: subst_ok_def)
  have "subst_ok ?s \<and> map_of (sd_mappings (ts_data ?s)) ++ map_of (ts_local ?s)
    = (map_of (sd_mappings (ts_data s)) ++ map_of (ts_local s))(v \<mapsto> t)"
  proof (cases "v \<in> fst ` set (ts_local s)")
    case True
    then show ?thesis
      using d local_set_keys(2)[OF True d(2), of t] by (simp add: subst_insert_def subst_ok_def local_set_keys(1))
  next
    case False
    then have none: "map_of (ts_local s) v = None"
      by (simp add: map_of_eq_None_iff)
    show ?thesis
    proof (cases unique)
      case True
      then show ?thesis
        using False d none sd_insert_ok[OF d(1), of v t]
        by (auto simp: subst_insert_def subst_ok_def map_add_def fun_eq_iff split: option.split)
    next
      case u: False
      then show ?thesis
        using False d none by (auto simp: subst_insert_def subst_ok_def map_add_def fun_eq_iff split: option.split)
    qed
  qed
  then show "subst_ok ?s" "subst_get ?s = (subst_get s)(v \<mapsto> t)"
    using subst_get_map[of ?s] subst_get_map[OF assms] by auto
qed

interpretation sub: binding_map subst_ok subst_get "subst_insert unique" for unique
  by unfold_locales (rule subst_insert_map, assumption)+

lemma subst_own_map:
  assumes "subst_ok s"
  shows "subst_ok (subst_own s)" "subst_get (subst_own s) = subst_get s"
proof -
  have d: "sd_ok (ts_data s)" "distinct (map fst (ts_local s))"
    using assms by (auto simp: subst_ok_def)
  show ok: "subst_ok (subst_own s)"
    using sd.put_all(1)[OF d(1)] by (simp add: subst_ok_def subst_own_def)
  show "subst_get (subst_own s) = subst_get s"
    using sd.put_all_distinct[OF d(1,2)]
    by (simp add: subst_get_map[OF ok] subst_get_map[OF assms]) (simp add: subst_own_def)
qed

lemma subst_remove_map:
  assumes "subst_ok s"
  shows "fst (subst_remove s v) = subst_get s v" "subst_ok (snd (subst_remove s v))"
    "subst_get (snd (subst_remove s v)) = (subst_get s)(v := None)"
proof -
  have "fst (subst_remove s v) = subst_get s v \<and> subst_ok (snd (subst_remove s v)) \<and> subst_get (snd (subst_remove s v)) = (subst_get s)(v := None)"
  proof (cases "subst_get s v")
    case None
    then show ?thesis
      using assms by (auto simp: subst_remove_def subst_contains_def)
  next
    case (Some t)
    let ?d = "ts_data (subst_own s)"
    note own = subst_own_map[OF assms]
    have l: "ts_local (subst_own s) = []"
      by (simp add: subst_own_def)
    have ix: "index_ok ?d"
      using own(1) by (simp add: subst_ok_def sd_ok_but_def)
    have get: "map_of (sd_mappings ?d) = subst_get s"
      using own subst_get_map[OF own(1)] l by simp
    then have "map_option (\<lambda>pos. snd (sd_mappings ?d ! pos)) (sd_index ?d v) = Some t"
      using index_ok_keys(3)[OF ix, of v] Some by simp
    then obtain pos where pos: "sd_index ?d v = Some pos" "snd (sd_mappings ?d ! pos) = t"
      by auto
    then have p: "pos < length (sd_mappings ?d)" "fst (sd_mappings ?d ! pos) = v"
      using ix[unfolded index_ok_def, rule_format, of v pos] by simp_all
    note rem = list_remove_keys[OF index_ok_keys(1)[OF ix] p(1)]
    let ?e = "?d\<lparr>sd_index := (sd_index ?d)(v := None), sd_mappings := list_remove pos (sd_mappings ?d)\<rparr>"
    have re: "sd_ok (sd_reindex ?e)" "sd_mappings (sd_reindex ?e) = list_remove pos (sd_mappings ?d)"
      using sd_reindex_ok[of ?e] rem(1) by simp_all
    have r: "subst_remove s v = (Some t, (subst_own s)\<lparr>ts_data := sd_reindex ?e\<rparr>)"
      using Some pos by (simp add: subst_remove_def subst_contains_def Let_def)
    have ok: "subst_ok ((subst_own s)\<lparr>ts_data := sd_reindex ?e\<rparr>)"
      using re(1) l by (simp add: subst_ok_def)
    show ?thesis
      using Some ok rem(2) p(2) get l subst_get_map[OF ok] by (simp add: r re(2))
  qed
  then show "fst (subst_remove s v) = subst_get s v" "subst_ok (snd (subst_remove s v))"
    "subst_get (snd (subst_remove s v)) = (subst_get s)(v := None)"
    by auto
qed

lemma subst_iter_map:
  assumes "subst_ok s"
  shows "distinct (map fst (subst_iter s))" "map_of (subst_iter s) = subst_get s"
proof -
  have ix: "index_ok (ts_data s)" and l: "distinct (map fst (ts_local s))"
    using assms by (auto simp: subst_ok_def sd_ok_but_def)
  let ?m = "sd_mappings (ts_data s)" and ?new = "filter (\<lambda>(k, _). sd_index (ts_data s) k = None) (ts_local s)"
  let ?f = "\<lambda>k t. case map_of (ts_local s) k of Some u \<Rightarrow> u | None \<Rightarrow> t"
  have iter: "subst_iter s = map (\<lambda>(k, t). (k, ?f k t)) ?m @ ?new"
    unfolding subst_iter_def find_last[OF l] by (auto split: option.split)
  have new: "k \<notin> fst ` set ?m" if "k \<in> fst ` set ?new" for k
    using that index_ok_keys(2)[OF ix, of k] by auto
  have fst_m: "map fst (map (\<lambda>(k, t). (k, ?f k t)) ?m) = map fst ?m"
    by (simp add: split_def comp_def)
  have "distinct (map fst ?new)"
    using l by (rule distinct_map_filter)
  then show "distinct (map fst (subst_iter s))"
    using new index_ok_keys(1)[OF ix] unfolding iter map_append fst_m distinct_append by auto
  have m: "map_of (map (\<lambda>(k, t). (k, ?f k t)) xs) k = map_option (?f k) (map_of xs k)" for xs k
    by (induction xs) (auto split: option.split)
  show "map_of (subst_iter s) = subst_get s"
  proof
    fix k
    have "map_of ?new k = (if sd_index (ts_data s) k = None then map_of (ts_local s) k else None)"
      by (rule map_of_filter_key)
    moreover have "sd_index (ts_data s) k = None \<longleftrightarrow> map_of ?m k = None"
      using index_ok_keys(2)[OF ix, of k] by (simp add: map_of_eq_None_iff)
    ultimately show "map_of (subst_iter s) k = subst_get s k"
      unfolding subst_get_map[OF assms] iter map_of_append map_add_def m
      by (cases "map_of ?m k"; cases "map_of (ts_local s) k") simp_all
  qed
qed

lemma without_map:
  assumes "subst_ok s"
  shows "subst_ok (without s bs)" "subst_get (without s bs) = subst_get s |` (- set bs)"
proof -
  have "subst_ok (without s bs) \<and> subst_get (without s bs) = subst_get s |` (- set bs)"
    unfolding without_def
  proof (induction bs rule: rev_induct)
    case (snoc v bs)
    then show ?case
      using subst_remove_map[of "foldl (\<lambda>inner v. snd (subst_remove inner v)) s bs" v]
      by (auto simp: restrict_map_def fun_eq_iff)
  qed (use assms in simp)
  then show "subst_ok (without s bs)" "subst_get (without s bs) = subst_get s |` (- set bs)"
    by auto
qed

lemma apply_ty_map: "subst_ok s \<Longrightarrow> apply_ty s t = apply_map (subst_get s) t"
proof (induction t arbitrary: s rule: ty_parts_induct)
  case (Sum n vs)
  have "apply_ty s t = apply_map (subst_get s) t" if "v \<in> set vs" "t \<in> set (field_types (snd v))" for v t
    using Sum that by blast
  from map_variants_cong[of vs "apply_ty s" "apply_map (subst_get s)", OF this] show ?case
    by simp
next
  case (Forall bs cs body)
  note w = without_map[OF Forall.prems, of bs]
  show ?case
    using Forall.IH(1)[OF _ _ w(1)] Forall.IH(2)[OF w(1)] by (simp add: Let_def w(2))
qed auto

section \<open>Composition\<close>

text \<open>Inserting new keys one by one appends them.\<close>

lemma foldl_insert_unique:
  "ts_local r = [] \<Longrightarrow> foldl (\<lambda>r (v, t). subst_insert True r v (f t)) r kv
     = r\<lparr>ts_data := foldl (\<lambda>d (v, t). sd_insert d v t) (ts_data r) (map (\<lambda>(v, t). (v, f t)) kv)\<rparr>"
  by (induction kv arbitrary: r) (auto simp: subst_insert_def)

lemma insert_new_keys:
  fixes f :: "ty \<Rightarrow> ty"
  assumes "subst_ok r" and "ts_local r = []" and "distinct (map fst kv)" and "fst ` set kv \<inter> fst ` set (sd_mappings (ts_data r)) = {}"
  defines "r' \<equiv> foldl (\<lambda>r (v, t). subst_insert True r v (f t)) r kv"
  shows "subst_ok r'" "ts_local r' = []" "sd_mappings (ts_data r') = sd_mappings (ts_data r) @ map (\<lambda>(v, t). (v, f t)) kv"
proof -
  let ?l = "map (\<lambda>(v, t). (v, f t)) kv"
  have keys: "map fst ?l = map fst kv"
    by (simp add: split_def comp_def)
  have ok: "sd_ok (ts_data r)"
    using assms(1) by (simp add: subst_ok_def)
  have r': "r' = r\<lparr>ts_data := foldl (\<lambda>d (v, t). sd_insert d v t) (ts_data r) ?l\<rparr>"
    unfolding r'_def by (rule foldl_insert_unique[OF assms(2)])
  show "subst_ok r'" "ts_local r' = []"
    using sd.put_all(1)[OF ok, of ?l] assms(2) by (simp_all add: r' subst_ok_def)
  have set_keys: "fst ` set ?l = fst ` set kv"
    using keys by (metis set_map)
  have "sd_mappings (foldl (\<lambda>d (v, t). sd_insert d v t) (ts_data r) ?l) = sd_mappings (ts_data r) @ ?l"
    by (rule sd_insert_new[OF ok]) (simp_all only: keys set_keys assms(3,4))
  then show "sd_mappings (ts_data r') = sd_mappings (ts_data r) @ ?l"
    by (simp add: r')
qed

lemma insert_missing_keys:
  assumes "subst_ok r" and "ts_local r = []" and "distinct (map fst kv)"
  defines "r' \<equiv> foldl (\<lambda>r (v, t). if subst_contains r v then r else subst_insert True r v t) r kv"
  shows "subst_ok r'" "ts_local r' = []" "sd_mappings (ts_data r') = sd_mappings (ts_data r) @ filter (\<lambda>(v, _). subst_get r v = None) kv"
proof -
  let ?g = "filter (\<lambda>(v, _). subst_get r v = None) kv"
  have get: "subst_get r v = None \<longleftrightarrow> v \<notin> fst ` set (sd_mappings (ts_data r))" for v
    using subst_get_map[OF assms(1)] assms(2) by (simp add: map_of_eq_None_iff)
  have apart: "fst ` set (filter (\<lambda>(v, _). subst_get r v = None) l) \<inter> fst ` set (sd_mappings (ts_data r)) = {}" for l :: "(ty_var \<times> ty) list"
    unfolding get by (rule Int_emptyI) (erule imageE, simp add: split_def)
  have "r' = foldl (\<lambda>r (v, t). subst_insert True r v t) r ?g"
    unfolding r'_def using assms(3)
  proof (induction kv rule: rev_induct)
    case (snoc x kv)
    obtain v t where x: "x = (v, t)"
      by force
    let ?k = "filter (\<lambda>(v, _). subst_get r v = None) kv"
    let ?r = "foldl (\<lambda>r (v, t). subst_insert True r v t) r ?k"
    have "distinct (map fst kv)"
      using snoc.prems by simp
    then have "distinct (map fst ?k)" "fst ` set ?k \<inter> fst ` set (sd_mappings (ts_data r)) = {}"
      by (rule distinct_map_filter) (rule apart)
    note n = insert_new_keys[OF assms(1,2) this, of "\<lambda>t. t", simplified split_def, simplified]
    have "subst_contains ?r v \<longleftrightarrow> subst_get r v \<noteq> None"
    proof -
      have "sd_mappings (ts_data ?r) = sd_mappings (ts_data r) @ ?k" "ts_local ?r = []" "subst_ok ?r"
        using n by (simp_all add: split_def)
      then have "subst_get ?r v = None \<longleftrightarrow> v \<notin> fst ` set (sd_mappings (ts_data r)) \<and> v \<notin> fst ` set ?k"
        using subst_get_map[of ?r] by (auto simp: map_of_eq_None_iff)
      moreover have "v \<notin> fst ` set ?k"
        using snoc.prems x by (auto simp: image_iff)
      ultimately show ?thesis
        using get by (simp add: subst_contains_def)
    qed
    then show ?case
      using snoc x by simp
  qed simp
  moreover have "distinct (map fst ?g)" "fst ` set ?g \<inter> fst ` set (sd_mappings (ts_data r)) = {}"
    by (rule distinct_map_filter[OF assms(3)]) (rule apart)
  ultimately show "subst_ok r'" "ts_local r' = []" "sd_mappings (ts_data r') = sd_mappings (ts_data r) @ ?g"
    using insert_new_keys[OF assms(1,2), of ?g "\<lambda>t. t"] by (simp_all add: split_def)
qed

lemma compose_eq:
  assumes "subst_ok s1" and "subst_ok s2"
  shows "subst_ok (compose s1 s2)" "ts_local (compose s1 s2) = []"
    "sd_mappings (ts_data (compose s1 s2)) = map (\<lambda>(v, t). (v, apply_ty s1 t)) (subst_iter s2) @ filter (\<lambda>(v, _). subst_get s2 v = None) (subst_iter s1)"
    "subst_get (compose s1 s2) = comp_map (subst_get s1) (subst_get s2)"
proof -
  let ?r = "foldl (\<lambda>r (v, t). subst_insert True r v (apply_ty s1 t)) subst_empty (subst_iter s2)"
  have r: "subst_ok ?r" "ts_local ?r = []" "sd_mappings (ts_data ?r) = map (\<lambda>(v, t). (v, apply_ty s1 t)) (subst_iter s2)"
    using insert_new_keys[OF subst_empty_ok(1) _ subst_iter_map(1)[OF assms(2)], of "apply_ty s1"]
    by (simp_all add: subst_empty_def sd_empty_def)
  have mo: "map_of (map (\<lambda>(v, t). (v, f t)) xs) v = map_option f (map_of xs v)" for f :: "ty \<Rightarrow> ty" and xs and v :: ty_var
    by (induction xs) auto
  have get_r: "subst_get ?r v = map_option (apply_ty s1) (subst_get s2 v)" for v
    using subst_get_map[OF r(1)] r(2,3) mo[of "apply_ty s1" "subst_iter s2" v] subst_iter_map(2)[OF assms(2)] by simp
  have c: "compose s1 s2 = foldl (\<lambda>r (v, t). if subst_contains r v then r else subst_insert True r v t) ?r (subst_iter s1)"
    by (simp add: compose_def)
  note m = insert_missing_keys[OF r(1,2) subst_iter_map(1)[OF assms(1)], folded c]
  show ok: "subst_ok (compose s1 s2)" "ts_local (compose s1 s2) = []"
    using m by auto
  show maps: "sd_mappings (ts_data (compose s1 s2)) = map (\<lambda>(v, t). (v, apply_ty s1 t)) (subst_iter s2) @ filter (\<lambda>(v, _). subst_get s2 v = None) (subst_iter s1)"
    using m(3) r(3) get_r by simp
  show "subst_get (compose s1 s2) = comp_map (subst_get s1) (subst_get s2)"
  proof
    fix v
    show "subst_get (compose s1 s2) v = comp_map (subst_get s1) (subst_get s2) v"
      unfolding subst_get_map[OF ok(1)] ok(2) maps
      by (cases "subst_get s2 v") (simp_all add: map_add_def mo map_of_filter_key subst_iter_map(2) assms comp_map_def apply_ty_map)
  qed
qed

section \<open>Absorbing an extension\<close>

lemma foldl_updates:
  fixes ups :: "(nat \<times> ty) list"
  assumes "sd_ok d" and "distinct (map fst ups)" and "fst ` set ups \<subseteq> {..<length (sd_mappings d)}"
  defines "d' \<equiv> foldl (\<lambda>d (pos, t). sd_track (sd_set d pos t) pos) d ups"
  shows "sd_ok d' \<and> length (sd_mappings d') = length (sd_mappings d)
    \<and> (\<forall>p < length (sd_mappings d). sd_mappings d' ! p = (fst (sd_mappings d ! p), case map_of ups p of None \<Rightarrow> snd (sd_mappings d ! p) | Some t \<Rightarrow> t))"
  unfolding d'_def using assms(1-3)
proof (induction ups arbitrary: d)
  case (Cons x ups)
  obtain p t where x: "x = (p, t)"
    by force
  let ?d = "sd_track (sd_set d p t) p"
  have p: "p < length (sd_mappings d)" and fresh: "map_of ups p = None"
    using Cons.prems x by (auto simp: map_of_eq_None_iff)
  have m: "sd_mappings ?d = (sd_mappings d)[p := (fst (sd_mappings d ! p), t)]"
    by (simp add: sd_set_def)
  have "sd_ok ?d"
    using sd_track_ok[OF sd_set_ok[OF Cons.prems(1) p, of t], of p] p by (simp add: sd_set_def)
  then have "sd_ok (foldl (\<lambda>d (pos, t). sd_track (sd_set d pos t) pos) ?d ups)
      \<and> length (sd_mappings (foldl (\<lambda>d (pos, t). sd_track (sd_set d pos t) pos) ?d ups)) = length (sd_mappings ?d)
      \<and> (\<forall>q < length (sd_mappings ?d). sd_mappings (foldl (\<lambda>d (pos, t). sd_track (sd_set d pos t) pos) ?d ups) ! q
           = (fst (sd_mappings ?d ! q), case map_of ups q of None \<Rightarrow> snd (sd_mappings ?d ! q) | Some t \<Rightarrow> t))"
    using Cons.prems x by (intro Cons.IH) (auto simp: sd_set_def)
  then show ?case
    unfolding m using p fresh by (auto simp: x nth_list_update cong: option.case_cong)
qed simp

lemma drop_fresh_ok: "sd_ok d \<Longrightarrow> sd_ok (drop_fresh d)"
  unfolding sd_ok_but_def drop_fresh_def by (auto simp: index_ok_def mentions_bound_def)

lemma set_absorb_work:
  assumes "subst_ok s"
  shows "set (absorb_work s) = sd_stale (ts_data s) \<union> {p. \<exists>k l. k \<in> fst ` set (ts_local s) \<and> sd_users (ts_data s) k = Some l \<and> p \<in> set l}"
    "set (absorb_work s) \<subseteq> {..<length (sd_mappings (ts_data s))}"
proof -
  let ?d = "ts_data s"
  let ?work = "foldl (\<lambda>work (k, _). case sd_users ?d k of None \<Rightarrow> work | Some users \<Rightarrow> work \<union> set users)"
  have w: "?work S ks = S \<union> {p. \<exists>k l. k \<in> fst ` set ks \<and> sd_users ?d k = Some l \<and> p \<in> set l}" for S and ks :: "(ty_var \<times> ty) list"
    by (induction ks arbitrary: S) (auto split: option.splits)
  have sub: "?work (sd_stale ?d) (ts_local s) \<subseteq> {..<length (sd_mappings ?d)}"
    using assms unfolding w subst_ok_def sd_ok_but_def by blast
  then have "set (absorb_work s) = ?work (sd_stale ?d) (ts_local s)"
    unfolding absorb_work_def by (simp add: finite_subset[OF sub])
  then show "set (absorb_work s) = sd_stale ?d \<union> {p. \<exists>k l. k \<in> fst ` set (ts_local s) \<and> sd_users ?d k = Some l \<and> p \<in> set l}"
    "set (absorb_work s) \<subseteq> {..<length (sd_mappings ?d)}"
    using sub w by auto
qed

text \<open>What is neither stale nor a user of a new binding does not change.\<close>

lemma untouched:
  assumes "subst_ok s" and "p < length (sd_mappings (ts_data s))" and "p \<notin> set (absorb_work s)" and "tidy (snd (sd_mappings (ts_data s) ! p))"
  shows "apply_ty s (snd (sd_mappings (ts_data s) ! p)) = snd (sd_mappings (ts_data s) ! p)"
proof -
  let ?d = "ts_data s" and ?t = "snd (sd_mappings (ts_data s) ! p)"
  have ix: "index_ok ?d"
    using assms(1) by (simp add: subst_ok_def sd_ok_but_def)
  have u: "\<forall>v \<in> ftv_ty ?t. \<exists>l. sd_users ?d v = Some l \<and> p \<in> set l" and st: "mentions_bound ?d ?t \<longrightarrow> p \<in> sd_stale ?d"
    using assms(1,2) unfolding subst_ok_def sd_ok_but_def by blast+
  have "subst_get s v = None" if v: "v \<in> free_vars ?t" for v
  proof -
    have f: "v \<in> ftv_ty ?t"
      using v ftv_ty_tidy[OF assms(4)] by simp
    have "v \<notin> fst ` set (ts_local s)"
      using u f assms(3) unfolding set_absorb_work(1)[OF assms(1)] by blast
    moreover have "sd_index ?d v = None"
      using st f assms(3) unfolding set_absorb_work(1)[OF assms(1)] mentions_bound_def by blast
    ultimately have "map_of (ts_local s) v = None" "map_of (sd_mappings ?d) v = None"
      using index_ok_keys(2)[OF ix, of v] by (simp_all add: map_of_eq_None_iff)
    then show ?thesis
      by (simp add: subst_get_map[OF assms(1)] map_add_def)
  qed
  then show ?thesis
    by (subst apply_ty_map[OF assms(1)], intro apply_map_id) auto
qed

lemma map_of_map_filter:
  "map_of (List.map_filter (\<lambda>p. if P p then Some (p, g p) else None) ps) p = (if p \<in> set ps \<and> P p then Some (g p) else None)"
  "map fst (List.map_filter (\<lambda>p. if P p then Some (p, g p) else None) ps) = filter P ps"
  by (induction ps) (auto simp: List.map_filter_simps)

lemma absorb_updates_eq:
  assumes "subst_ok s"
  shows "distinct (map fst (absorb_updates s))" "fst ` set (absorb_updates s) \<subseteq> {..<length (sd_mappings (ts_data s))}"
    "map_of (absorb_updates s) p = (let old = snd (sd_mappings (ts_data s) ! p) in
       if p \<in> set (absorb_work s) \<and> apply_ty s old \<noteq> old then Some (apply_ty s old) else None)"
proof -
  let ?old = "\<lambda>p. snd (sd_mappings (ts_data s) ! p)"
  have u: "absorb_updates s = List.map_filter (\<lambda>p. if apply_ty s (?old p) \<noteq> ?old p then Some (p, apply_ty s (?old p)) else None) (absorb_work s)"
    unfolding absorb_updates_def Let_def ..
  have keys: "map fst (absorb_updates s) = filter (\<lambda>p. apply_ty s (?old p) \<noteq> ?old p) (absorb_work s)"
    unfolding u by (rule map_of_map_filter(2))
  show "distinct (map fst (absorb_updates s))"
    unfolding keys by (simp add: absorb_work_def)
  have "fst ` set (absorb_updates s) = set (filter (\<lambda>p. apply_ty s (?old p) \<noteq> ?old p) (absorb_work s))"
    using keys by (metis set_map)
  then show "fst ` set (absorb_updates s) \<subseteq> {..<length (sd_mappings (ts_data s))}"
    using set_absorb_work(2)[OF assms] by auto
  show "map_of (absorb_updates s) p = (let old = ?old p in if p \<in> set (absorb_work s) \<and> apply_ty s old \<noteq> old then Some (apply_ty s old) else None)"
    unfolding u map_of_map_filter(1) Let_def ..
qed

lemma iter_no_local: "ts_local s = [] \<Longrightarrow> subst_iter s = sd_mappings (ts_data s)"
  by (simp add: subst_iter_def split_def)

lemma iter_extension:
  assumes "subst_ok s" and "\<forall>(k, _) \<in> set (ts_local s). sd_index (ts_data s) k = None"
  shows "subst_iter s = sd_mappings (ts_data s) @ ts_local s"
proof -
  have ix: "index_ok (ts_data s)" and l: "distinct (map fst (ts_local s))"
    using assms by (auto simp: subst_ok_def sd_ok_but_def)
  have new: "k \<notin> fst ` set (sd_mappings (ts_data s))" if "k \<in> fst ` set (ts_local s)" for k
    using that assms(2) index_ok_keys(2)[OF ix, of k] by auto
  have "map_of (ts_local s) k = None" if "(k, t) \<in> set (sd_mappings (ts_data s))" for k t
    using that new[of k] by (force simp: map_of_eq_None_iff)
  then have "map (\<lambda>(k, t). (k, case map_option (Pair k) (map_of (ts_local s) k) of Some (_, u) \<Rightarrow> u | None \<Rightarrow> t)) (sd_mappings (ts_data s)) = sd_mappings (ts_data s)"
    by (intro map_idI) auto
  moreover have "filter (\<lambda>(k, _). sd_index (ts_data s) k = None) (ts_local s) = ts_local s"
    using assms(2) by (auto simp: filter_id_conv)
  ultimately show ?thesis
    unfolding subst_iter_def find_last[OF l] by simp
qed

lemma absorb_extension:
  fixes d :: subst_data
  assumes "subst_ok s" and "\<forall>(k, _) \<in> set (ts_local s). sd_index (ts_data s) k = None" and "\<forall>t \<in> snd ` set (sd_mappings (ts_data s)). tidy t"
  defines "d1 \<equiv> foldl (\<lambda>d (pos, t). sd_track (sd_set d pos t) pos) (ts_data s) (absorb_updates s)"
  shows "sd_ok (foldl (\<lambda>d (v, t). sd_insert d v t) d1 (ts_local s))"
    "sd_mappings (foldl (\<lambda>d (v, t). sd_insert d v t) d1 (ts_local s)) = map (\<lambda>(v, t). (v, apply_ty s t)) (sd_mappings (ts_data s)) @ ts_local s"
proof -
  let ?d = "ts_data s"
  have ok: "sd_ok ?d" and l: "distinct (map fst (ts_local s))" and ix: "index_ok ?d"
    using assms(1) by (auto simp: subst_ok_def sd_ok_but_def)
  note ups = absorb_updates_eq[OF assms(1)]
  have d1: "sd_ok d1" "length (sd_mappings d1) = length (sd_mappings ?d)"
    "\<And>p. p < length (sd_mappings ?d) \<Longrightarrow> sd_mappings d1 ! p = (fst (sd_mappings ?d ! p), case map_of (absorb_updates s) p of None \<Rightarrow> snd (sd_mappings ?d ! p) | Some t \<Rightarrow> t)"
    using foldl_updates[OF ok ups(1,2)] by (simp_all add: d1_def)
  have m1: "sd_mappings d1 = map (\<lambda>(v, t). (v, apply_ty s t)) (sd_mappings ?d)"
  proof (rule nth_equalityI)
    fix p assume "p < length (sd_mappings d1)"
    then have p: "p < length (sd_mappings ?d)"
      using d1(2) by simp
    have "tidy (snd (sd_mappings ?d ! p))"
      using assms(3) p by simp
    then have "apply_ty s (snd (sd_mappings ?d ! p)) = snd (sd_mappings ?d ! p)" if "p \<notin> set (absorb_work s)"
      using untouched[OF assms(1) p that] by simp
    then show "sd_mappings d1 ! p = map (\<lambda>(v, t). (v, apply_ty s t)) (sd_mappings ?d) ! p"
      using p by (auto simp: d1(3)[OF p] ups(3) Let_def split_def)
  qed (use d1(2) in simp)
  have keys1: "fst ` set (sd_mappings d1) = fst ` set (sd_mappings ?d)"
    unfolding m1 by force
  have "k \<notin> fst ` set (sd_mappings ?d)" if "k \<in> fst ` set (ts_local s)" for k
    using that assms(2) index_ok_keys(2)[OF ix, of k] by auto
  then have "fst ` set (ts_local s) \<inter> fst ` set (sd_mappings d1) = {}"
    unfolding keys1 by blast
  from sd_insert_new[OF d1(1) l this] show
    "sd_mappings (foldl (\<lambda>d (v, t). sd_insert d v t) d1 (ts_local s)) = map (\<lambda>(v, t). (v, apply_ty s t)) (sd_mappings ?d) @ ts_local s"
    by (simp add: m1)
  show "sd_ok (foldl (\<lambda>d (v, t). sd_insert d v t) d1 (ts_local s))"
    by (rule sd.put_all(1)[OF d1(1)])
qed

lemma absorb_step:
  assumes "subst_ok self" and "subst_ok s" and "same_data \<longrightarrow> ts_data s = ts_data self"
    and "\<forall>t \<in> snd ` set (sd_mappings (ts_data s)). tidy t" and "\<not> subst_is_same same_data s self"
  shows "subst_ok (subst_absorb same_data self s) \<and> subst_iter (subst_absorb same_data self s) = subst_iter (compose s self)"
proof (cases "same_data \<and> ts_local self = [] \<and> (\<forall>(k, _) \<in> set (ts_local s). sd_index (ts_data s) k = None)")
  case False
  then have "subst_absorb same_data self s = compose s self"
    using assms(5) unfolding subst_absorb_def by simp
  then show ?thesis
    using compose_eq(1)[OF assms(2,1)] by simp
next
  case True
  then have new: "\<forall>(k, _) \<in> set (ts_local s). sd_index (ts_data s) k = None" and no_local: "ts_local self = []" and same: "ts_data self = ts_data s"
    using assms(3) by auto
  let ?d2 = "foldl (\<lambda>d (v, t). sd_insert d v t) (foldl (\<lambda>d (pos, t). sd_track (sd_set d pos t) pos) (ts_data s) (absorb_updates s)) (ts_local s)"
  have eq: "subst_absorb same_data self s = self\<lparr>ts_data := drop_fresh ?d2\<rparr>"
    using True assms(5) same unfolding subst_absorb_def by (simp add: Let_def)
  note ext = absorb_extension[OF assms(2) new assms(4)]
  have ix: "index_ok (ts_data s)"
    using assms(2) by (simp add: subst_ok_def sd_ok_but_def)
  have get: "subst_get self v = None \<longleftrightarrow> v \<notin> fst ` set (sd_mappings (ts_data s))" for v
    using subst_get_map[OF assms(1)] by (simp add: no_local same map_of_eq_None_iff)
  have "filter (\<lambda>(v, _). subst_get self v = None) (sd_mappings (ts_data s)) = []"
    unfolding get by (force simp: filter_empty_conv)
  moreover have "filter (\<lambda>(v, _). subst_get self v = None) (ts_local s) = ts_local s"
    unfolding get using new index_ok_keys(2)[OF ix] by (auto simp: filter_id_conv)
  ultimately have "subst_iter (compose s self) = map (\<lambda>(v, t). (v, apply_ty s t)) (sd_mappings (ts_data s)) @ ts_local s"
    using compose_eq(2,3)[OF assms(2,1)] iter_no_local[OF no_local] iter_extension[OF assms(2) new] by (simp add: iter_no_local same)
  moreover have "subst_iter (subst_absorb same_data self s) = sd_mappings ?d2"
    unfolding eq by (subst iter_no_local) (simp_all add: no_local drop_fresh_def)
  ultimately show ?thesis
    using ext drop_fresh_ok[OF ext(1)] no_local by (simp add: eq subst_ok_def)
qed

text \<open>C9: The optimised update is the composition. When \<open>s\<close> is \<open>self\<close> itself (the same data and no overlay on either), \<open>absorb\<close>
  leaves \<open>self\<close> as it is, chains of bindings included. Otherwise it rewrites in place only the positions that may be stale
  and the users of new bindings, and appends the new ones, or calls \<open>compose\<close>; either way the result is well-formed and has
  the bindings of \<open>compose(s, self)\<close> in the same order. No mapped type may have a variable both free and quantified.
\<close>

theorem absorb_is_compose:
  assumes "subst_ok self" and "subst_ok s" and "same_data \<longrightarrow> ts_data s = ts_data self"
    and "\<forall>t \<in> snd ` set (sd_mappings (ts_data s)). tidy t"
  shows "if subst_is_same same_data s self then subst_absorb same_data self s = self
    else subst_ok (subst_absorb same_data self s) \<and> subst_iter (subst_absorb same_data self s) = subst_iter (compose s self)"
  using absorb_step[OF assms] by (simp add: subst_absorb_def)

section \<open>Pruning\<close>

text \<open>The bindings can be ordered so that a bound type only mentions variables of a smaller rank.\<close>

definition ranked :: "(ty_var \<Rightarrow> nat) \<Rightarrow> (ty_var \<rightharpoonup> ty) \<Rightarrow> bool" where
  "ranked rank m \<longleftrightarrow> (\<forall>v t. m v = Some t \<longrightarrow> (\<forall>w \<in> free_vars t. rank w < rank v))"

lemma free_vars_apply_used: "free_vars (apply_map m t) \<subseteq> (free_vars t - dom m) \<union> (\<Union>v \<in> free_vars t. \<Union>u \<in> set_option (m v). free_vars u)"
proof -
  have "apply_map m t = apply_map (m |` free_vars t) t"
    by (rule apply_map_cong) simp
  moreover have "range_vars (m |` free_vars t) = (\<Union>v \<in> free_vars t. \<Union>u \<in> set_option (m v). free_vars u)"
    by (auto simp: range_vars_def ran_def restrict_map_def split: if_splits)
  ultimately show ?thesis
    using free_vars_apply[of "m |` free_vars t" t] by auto
qed

lemma prune_loop_ends:
  assumes "subst_ok s" and "ranked rank (subst_get s)" and "\<forall>v \<in> free_vars t \<inter> dom (subst_get s). rank v < k"
  shows "\<exists>u. prune_loop s t = Some u \<and> apply_ty s u = u"
  using assms(3)
proof (induction k arbitrary: t)
  case 0
  then have "apply_ty s t = t"
    by (subst apply_ty_map[OF assms(1)], intro apply_map_id) auto
  then show ?case
    by (simp add: prune_loop.simps)
next
  case (Suc k)
  let ?n = "apply_ty s t"
  have "rank w < k" if w: "w \<in> free_vars ?n" "w \<in> dom (subst_get s)" for w
  proof -
    have "w \<in> (free_vars t - dom (subst_get s)) \<union> (\<Union>v \<in> free_vars t. \<Union>u \<in> set_option (subst_get s v). free_vars u)"
      using w(1) free_vars_apply_used[of "subst_get s" t] unfolding apply_ty_map[OF assms(1)] by (rule rev_subsetD)
    then obtain v u where vu: "v \<in> free_vars t" "subst_get s v = Some u" "w \<in> free_vars u"
      using w(2) by auto
    then have "rank w < rank v" "rank v < Suc k"
      using assms(2) Suc.prems by (auto simp: ranked_def)
    then show ?thesis
      by simp
  qed
  then obtain u where "prune_loop s ?n = Some u" "apply_ty s u = u"
    using Suc.IH by blast
  then show ?case
    by (subst prune_loop.simps) (auto simp: Let_def)
qed

lemma rank_bound:
  assumes "finite A"
  shows "\<exists>k. \<forall>v \<in> A. rank v < (k :: nat)"
  using assms finite_nat_set_iff_bounded[of "rank ` A"] by auto

text \<open>Pruning ends. Whenever no chain of bindings comes back to its start, \<open>apply_ty_prune\<close> returns, and what it returns
  is fully resolved: applying the substitution again changes nothing.
\<close>

theorem prune_total:
  assumes "subst_ok s" and "ranked rank (subst_get s)"
  shows "\<exists>u. apply_ty_prune s t = Some u \<and> apply_ty s u = u"
proof -
  obtain k where "\<forall>v \<in> free_vars (apply_ty s t) \<inter> dom (subst_get s). rank v < k"
    using rank_bound[of "free_vars (apply_ty s t) \<inter> dom (subst_get s)" rank] by auto
  from prune_loop_ends[OF assms this] show ?thesis
    by (simp add: apply_ty_prune_def)
qed

section \<open>Contracts\<close>

lemma iter_length: "subst_len s = length (subst_iter s)"
  by (simp add: subst_len_def subst_iter_def)

lemma iter_dom:
  assumes "subst_ok s"
  shows "dom (subst_get s) = fst ` set (subst_iter s)"
  using subst_iter_map(2)[OF assms] dom_map_of_conv_image_fst[of "subst_iter s"] by simp

text \<open>C27: The structure is a finite map: whatever is shared and whatever sits in the overlay, \<open>insert\<close> and \<open>remove\<close> update the
  map that \<open>get\<close> reads and keep the structure well-formed, \<open>remove\<close> returns what was bound, \<open>union\<close> lets the second one
  win, and \<open>iter\<close> and \<open>len\<close> list and count each bound variable once.
\<close>

theorem subst_refines_map:
  assumes "subst_ok s" and "subst_ok s'"
  shows "subst_ok (subst_insert unique s v t) \<and> subst_get (subst_insert unique s v t) = (subst_get s)(v \<mapsto> t)
    \<and> fst (subst_remove s v) = subst_get s v \<and> subst_ok (snd (subst_remove s v)) \<and> subst_get (snd (subst_remove s v)) = (subst_get s)(v := None)
    \<and> subst_ok (subst_union s s') \<and> subst_get (subst_union s s') = subst_get s ++ subst_get s'
    \<and> distinct (map fst (subst_iter s)) \<and> map_of (subst_iter s) = subst_get s \<and> subst_len s = card (dom (subst_get s))"
proof -
  have "subst_ok (subst_union s s')" "subst_get (subst_union s s') = subst_get s ++ subst_get s'"
    using sub.put_all(1)[OF assms(1)] sub.put_all_distinct[OF assms(1) subst_iter_map(1)[OF assms(2)]] subst_iter_map(2)[OF assms(2)]
    by (simp_all add: subst_union_def)
  moreover have "distinct (map fst (subst_iter s)) \<and> map_of (subst_iter s) = subst_get s \<and> subst_len s = card (dom (subst_get s))"
    using subst_iter_map[OF assms(1)] distinct_card[of "map fst (subst_iter s)"] by (simp add: iter_dom[OF assms(1)] iter_length)
  ultimately show ?thesis
    using subst_remove_map[OF assms(1), of v] sub.put_ok[OF assms(1)] sub.put_look[OF assms(1)] by blast
qed

text \<open>The law that \<open>compose\<close> documents, \<open>apply(compose(s1, s2), t) = apply(s1, apply(s2, t))\<close>, for every type whose
  quantifiers capture no variable that \<open>s2\<close> brings in.
\<close>

theorem compose_law:
  assumes "subst_ok s1" and "subst_ok s2" and "bound_vars t \<inter> range_vars (subst_get s2) = {}"
  shows "apply_ty (compose s1 s2) t = apply_ty s1 (apply_ty s2 t)"
  using apply_comp[OF assms(3), of "subst_get s1"] compose_eq(1,4)[OF assms(1,2)] assms(1,2) by (simp add: apply_ty_map)

section \<open>Examples\<close>

lemma insert_ok: "subst_ok (subst_insert u subst_empty v t)" "subst_ok (subst_insert u' (subst_insert u subst_empty v t) w t')"
  by (simp_all add: sub.put_ok subst_empty_ok)

theorem compose_law_witness:
  "apply_ty (compose (subst_insert True subst_empty 1 (TyCon ''int'')) (subst_insert True subst_empty 0 (TyVar 1))) (TyForall [2] [] (TyFun (TyVar 0) (TyVar 2)))
     = TyForall [2] [] (TyFun (TyCon ''int'') (TyVar 2))"
proof -
  let ?s1 = "subst_insert True subst_empty 1 (TyCon ''int'')" and ?s2 = "subst_insert True subst_empty 0 (TyVar 1)"
  have g: "subst_get ?s1 = [1 \<mapsto> TyCon ''int'']" "subst_get ?s2 = [0 \<mapsto> TyVar 1]"
    by (simp_all add: sub.put_look subst_empty_ok)
  have "bound_vars (TyForall [2] [] (TyFun (TyVar 0) (TyVar 2))) \<inter> range_vars (subst_get ?s2) = {}"
    by (simp add: g range_vars_def)
  from compose_law[OF insert_ok(1) insert_ok(1) this, of True 1 "TyCon ''int''"] show ?thesis
    by (simp add: without_map insert_ok g Let_def restrict_map_def)
qed

text \<open>Where a quantifier captures, the two sides differ: the capture is not avoided.\<close>

lemma compose_capture:
  "apply_ty (compose (subst_insert True subst_empty 1 (TyCon ''int'')) (subst_insert True subst_empty 0 (TyVar 1))) (TyForall [1] [] (TyVar 0))
     = TyForall [1] [] (TyCon ''int'')"
  "apply_ty (subst_insert True subst_empty 1 (TyCon ''int'')) (apply_ty (subst_insert True subst_empty 0 (TyVar 1)) (TyForall [1] [] (TyVar 0)))
     = TyForall [1] [] (TyVar 1)"
  using compose_eq(1,4)[OF insert_ok(1) insert_ok(1), of True 1 "TyCon ''int''" True 0 "TyVar 1"]
  by (simp_all add: without_map insert_ok sub.put_look subst_empty_ok Let_def restrict_map_def comp_map_def)

theorem prune_total_witness:
  "\<exists>u. apply_ty_prune (subst_insert False (subst_insert True subst_empty 1 (TyVar 0)) 0 (TyCon ''int'')) (TyVar 1) = Some u
     \<and> apply_ty (subst_insert False (subst_insert True subst_empty 1 (TyVar 0)) 0 (TyCon ''int'')) u = u"
proof -
  have "ranked unat (subst_get (subst_insert False (subst_insert True subst_empty 1 (TyVar 0)) 0 (TyCon ''int'')))"
    by (simp add: sub.put_look insert_ok subst_empty_ok ranked_def)
  from prune_total[OF insert_ok(2) this] show ?thesis .
qed

theorem subst_refines_map_witness:
  "subst_get (subst_insert False (subst_insert True subst_empty 1 (TyVar 0)) 1 (TyCon ''int'')) 1 = Some (TyCon ''int'')
    \<and> subst_len (subst_insert True subst_empty 1 (TyVar 0)) = 1"
  using subst_refines_map[OF insert_ok(1) insert_ok(1), of False True 1 "TyVar 0" 1 "TyCon ''int''" True 1 "TyVar 0"]
  by (simp add: subst_empty_ok sub.put_look)

text \<open>\<open>self\<close> binds 1 to \<open>t2 \<rightarrow> t0\<close>; unification binds 2 in the overlay of a clone.\<close>

theorem absorb_is_compose_witness:
  "subst_iter (subst_absorb True (subst_insert True subst_empty 1 (TyFun (TyVar 2) (TyVar 0)))
      (subst_insert False (subst_insert True subst_empty 1 (TyFun (TyVar 2) (TyVar 0))) 2 (TyCon ''int'')))
     = [(1, TyFun (TyCon ''int'') (TyVar 0)), (2, TyCon ''int'')]"
proof -
  let ?self = "subst_insert True subst_empty 1 (TyFun (TyVar 2) (TyVar 0))"
  let ?s = "subst_insert False ?self 2 (TyCon ''int'')"
  have m: "ts_local ?self = []" "ts_local ?s = [(2, TyCon ''int'')]" "ts_data ?s = ts_data ?self"
    "sd_mappings (ts_data ?self) = [(1, TyFun (TyVar 2) (TyVar 0))]" "sd_index (ts_data ?self) 2 = None"
    by (simp_all add: subst_insert_def subst_empty_def sd_empty_def sd_insert_def Let_def)
  have g: "subst_get ?s = [1 \<mapsto> TyFun (TyVar 2) (TyVar 0), 2 \<mapsto> TyCon ''int'']" "subst_get ?self = [1 \<mapsto> TyFun (TyVar 2) (TyVar 0)]"
    by (simp_all add: sub.put_look insert_ok subst_empty_ok)
  have "subst_iter (subst_absorb True ?self ?s) = subst_iter (compose ?s ?self)"
    using absorb_is_compose[OF insert_ok(1)[of True 1 "TyFun (TyVar 2) (TyVar 0)"] insert_ok(2)[of False True 1 "TyFun (TyVar 2) (TyVar 0)" 2 "TyCon ''int''"], of True]
    by (simp add: m tidy_def subst_is_same_def)
  also have "\<dots> = map (\<lambda>(v, t). (v, apply_ty ?s t)) (subst_iter ?self) @ filter (\<lambda>(v, _). subst_get ?self v = None) (subst_iter ?s)"
    using compose_eq(2,3)[OF insert_ok(2) insert_ok(1)] by (simp add: iter_no_local)
  also have "\<dots> = [(1, TyFun (TyCon ''int'') (TyVar 0)), (2, TyCon ''int'')]"
    using iter_extension[OF insert_ok(2), of False True 1 "TyFun (TyVar 2) (TyVar 0)" 2 "TyCon ''int''"]
    by (simp add: m g iter_no_local)
  finally show ?thesis .
qed

end
