(* ===== verification/Ty_Env.thy ===== *)
theory Ty_Env
  imports Ty_Subst
begin

text \<open>
  Kinds, type schemes and scopes of the type checker, after \<^verbatim>\<open>kind.rs\<close>, \<^verbatim>\<open>ty.rs\<close> and \<^verbatim>\<open>env.rs\<close> under
  \<^verbatim>\<open>compiler/src/typechecking\<close>: frames with an index of the latest binding of a name, the stack of frames, and the
  instantiation of a scheme with fresh variables. The theorems: the index answers what a search from the newest binding
  finds, after every operation, and an instance is the scheme's type with its variables replaced by new ones.
\<close>

section \<open>Kinds\<close>

datatype kind = KType | KConstraint | KArrow kind kind

definition kind_constructor :: "nat \<Rightarrow> kind" where
  "kind_constructor arity = foldl (\<lambda>codomain _. KArrow KType codomain) KType [0..<arity]"

definition constraint_constructor :: "nat \<Rightarrow> kind" where
  "constraint_constructor arity = foldl (\<lambda>codomain _. KArrow KType codomain) KConstraint [0..<arity]"

fun kind_arity :: "kind \<Rightarrow> nat" where
  "kind_arity (KArrow _ codomain) = 1 + kind_arity codomain"
| "kind_arity _ = 0"

definition is_constructor_kind :: "kind \<Rightarrow> bool" where
  "is_constructor_kind k \<longleftrightarrow> kind_arity k > 0"

fun result_kind :: "kind \<Rightarrow> kind" where
  "result_kind (KArrow _ codomain) = result_kind codomain"
| "result_kind k = k"

definition is_constraint_constructor_kind :: "kind \<Rightarrow> bool" where
  "is_constraint_constructor_kind k \<longleftrightarrow> kind_arity k > 0 \<and> result_kind k = KConstraint"

fun argument_kinds :: "kind \<Rightarrow> kind list" where
  "argument_kinds (KArrow domain codomain) = domain # argument_kinds codomain"
| "argument_kinds _ = []"

section \<open>Schemes\<close>

record assoc_projection =
  ap_var :: ty_var
  ap_name :: string
  ap_args :: "ty list"

record scheme =
  sch_bounds :: "ty_var list"
  sch_kinds :: "kind list"
  sch_constraints :: "ty ty_constraint list"
  sch_assoc :: "assoc_projection list"
  sch_ty :: ty

definition scheme_mono :: "ty \<Rightarrow> scheme" where
  "scheme_mono t = \<lparr>sch_bounds = [], sch_kinds = [], sch_constraints = [], sch_assoc = [], sch_ty = t\<rparr>"

definition scheme_poly :: "ty_var list \<Rightarrow> ty ty_constraint list \<Rightarrow> ty \<Rightarrow> scheme" where
  "scheme_poly bounds cs t =
     \<lparr>sch_bounds = bounds, sch_kinds = replicate (length bounds) KType, sch_constraints = cs, sch_assoc = [], sch_ty = t\<rparr>"

definition kind_at :: "scheme \<Rightarrow> nat \<Rightarrow> kind" where
  "kind_at sch i = (case get (sch_kinds sch) i of Some k \<Rightarrow> k | None \<Rightarrow> KType)"

definition ftv_scheme :: "scheme \<Rightarrow> ty_var set" where
  "ftv_scheme sch = foldl (\<lambda>acc p. foldl (\<lambda>acc t. acc \<union> ftv_ty t) (insert (ap_var p) acc) (ap_args p)) (ftv_ty (sch_ty sch)) (sch_assoc sch)
     - set (sch_bounds sch)"

definition apply_scheme :: "ty_subst \<Rightarrow> scheme \<Rightarrow> scheme" where
  "apply_scheme s sch =
     (let inner = without s (sch_bounds sch) in
      sch\<lparr>sch_constraints := map (\<lambda>c. Constraint (con_class c) (map (apply_ty inner) (con_args c))) (sch_constraints sch),
        sch_assoc := map (\<lambda>p. p\<lparr>ap_args := map (apply_ty inner) (ap_args p)\<rparr>) (sch_assoc sch),
        sch_ty := apply_ty inner (sch_ty sch)\<rparr>)"

section \<open>Fresh variables\<close>

record ty_var_counter =
  tc_next :: u32

definition fresh :: "ty_var_counter \<Rightarrow> ty_var \<times> ty_var_counter" where
  "fresh c = (tc_next c, c\<lparr>tc_next := tc_next c + 1\<rparr>)"

text \<open>The maps of \<open>instantiate_with_kinds\<close>, a quantified variable at a time.\<close>

fun freshen :: "scheme \<Rightarrow> nat \<Rightarrow> ty_var list \<Rightarrow> ty_var_counter \<Rightarrow> (ty_var \<rightharpoonup> ty_var) \<Rightarrow> (ty_var \<rightharpoonup> kind)
    \<Rightarrow> (ty_var \<rightharpoonup> ty_var) \<times> (ty_var \<rightharpoonup> kind) \<times> ty_var_counter" where
  "freshen sch i [] c m kinds = (m, kinds, c)"
| "freshen sch i (v # vs) c m kinds =
     (let (w, c') = fresh c in freshen sch (Suc i) vs c' (m(v \<mapsto> w)) (kinds(w \<mapsto> kind_at sch i)))"

definition instantiate_with_kinds :: "scheme \<Rightarrow> ty_var_counter \<Rightarrow> (ty \<times> ty ty_constraint list \<times> (ty_var \<rightharpoonup> kind)) \<times> ty_var_counter" where
  "instantiate_with_kinds sch c =
     (let (m, kinds, c') = freshen sch 0 (sch_bounds sch) c Map.empty Map.empty in
      ((substitute_vars m (sch_ty sch),
        map (\<lambda>c. Constraint (con_class c) (map (substitute_vars m) (con_args c))) (sch_constraints sch), kinds), c'))"

section \<open>Frames\<close>

text \<open>A binding is a name, its scheme and whether it is a \<open>const\<close>.\<close>

type_synonym binding = "string \<times> scheme \<times> bool"

record frame =
  fr_bindings :: "binding list"
  fr_latest :: "string \<rightharpoonup> nat"

definition frame_new :: frame where
  "frame_new = \<lparr>fr_bindings = [], fr_latest = Map.empty\<rparr>"

definition rposition :: "('a \<Rightarrow> bool) \<Rightarrow> 'a list \<Rightarrow> nat option" where
  "rposition P xs = (let hits = filter (\<lambda>i. P (xs ! i)) [0..<length xs] in if hits = [] then None else Some (last hits))"

definition frame_insert :: "frame \<Rightarrow> string \<Rightarrow> scheme \<Rightarrow> frame" where
  "frame_insert f name sch =
     \<lparr>fr_bindings = fr_bindings f @ [(name, sch, False)], fr_latest = (fr_latest f)(name \<mapsto> length (fr_bindings f))\<rparr>"

definition mark_const :: "frame \<Rightarrow> string \<Rightarrow> frame" where
  "mark_const f name = (case fr_latest f name of
     None \<Rightarrow> f
   | Some i \<Rightarrow> f\<lparr>fr_bindings := (fr_bindings f)[i := (case fr_bindings f ! i of (n, sch, _) \<Rightarrow> (n, sch, True))]\<rparr>)"

definition frame_len :: "frame \<Rightarrow> nat" where
  "frame_len f = length (fr_bindings f)"

definition drop_since :: "frame \<Rightarrow> string \<Rightarrow> nat \<Rightarrow> frame" where
  "drop_since f name mark =
     (if case fr_latest f name of None \<Rightarrow> True | Some i \<Rightarrow> i < mark then f
      else let bs = map snd (filter (\<lambda>(i, b). i < mark \<or> fst b \<noteq> name) (enumerate 0 (fr_bindings f)));
               latest = (case rposition (\<lambda>b. fst b = name) (take (min mark (length bs)) bs) of
                  Some i \<Rightarrow> (fr_latest f)(name \<mapsto> i)
                | None \<Rightarrow> (fr_latest f)(name := None)) in
        \<lparr>fr_bindings = bs, fr_latest = foldl (\<lambda>l i. l(fst (bs ! i) \<mapsto> i)) latest [mark..<length bs]\<rparr>)"

definition frame_lookup :: "frame \<Rightarrow> string \<Rightarrow> scheme option" where
  "frame_lookup f name = map_option (\<lambda>i. fst (snd (fr_bindings f ! i))) (fr_latest f name)"

definition binds_const :: "frame \<Rightarrow> string \<Rightarrow> bool option" where
  "binds_const f name = map_option (\<lambda>i. snd (snd (fr_bindings f ! i))) (fr_latest f name)"

section \<open>Environments\<close>

text \<open>A stack of frames, the innermost last.\<close>

type_synonym env = "frame list"

definition env_push :: "env \<Rightarrow> env" where
  "env_push e = e @ [frame_new]"

definition env_pop :: "env \<Rightarrow> frame option \<times> env" where
  "env_pop e = (if e = [] then (None, []) else (Some (last e), butlast e))"

definition take_and_isolate :: "env \<Rightarrow> frame list \<times> env" where
  "take_and_isolate e = (e, [frame_new])"

definition restore_frames :: "env \<Rightarrow> frame list \<Rightarrow> env" where
  "restore_frames e frames = frames"

definition all_names :: "env \<Rightarrow> string set" where
  "all_names e = foldl (\<lambda>names f. foldl (\<lambda>names b. insert (fst b) names) names (fr_bindings f)) {} e"

definition visible_names :: "env \<Rightarrow> string list" where
  "visible_names e = foldl (\<lambda>names f. foldl (\<lambda>names b. if fst b \<in> set names then names else names @ [fst b]) names (rev (fr_bindings f))) [] (rev e)"

definition insert_top :: "env \<Rightarrow> string \<Rightarrow> scheme \<Rightarrow> (unit, env) result" where
  "insert_top e name sch = (if e = [] then Panicked else Ok (butlast e @ [frame_insert (last e) name sch]))"

fun first_hit :: "('f \<Rightarrow> 'a option) \<Rightarrow> 'f list \<Rightarrow> 'a option" where
  "first_hit g [] = None"
| "first_hit g (f # fs) = (case g f of Some x \<Rightarrow> Some x | None \<Rightarrow> first_hit g fs)"

definition env_lookup :: "env \<Rightarrow> string \<Rightarrow> scheme option" where
  "env_lookup e name = first_hit (\<lambda>f. frame_lookup f name) (rev e)"

definition mark_top_const :: "env \<Rightarrow> string \<Rightarrow> env" where
  "mark_top_const e name = (if e = [] then e else butlast e @ [mark_const (last e) name])"

definition is_const :: "env \<Rightarrow> string \<Rightarrow> bool" where
  "is_const e name = (case first_hit (\<lambda>f. binds_const f name) (rev e) of Some c \<Rightarrow> c | None \<Rightarrow> False)"

definition lookup_frame :: "env \<Rightarrow> string \<Rightarrow> nat option" where
  "lookup_frame e name = rposition (\<lambda>f. frame_lookup f name \<noteq> None) e"

definition env_ftv :: "env \<Rightarrow> ty_var set" where
  "env_ftv e = foldl (\<lambda>acc f. foldl (\<lambda>acc b. acc \<union> ftv_scheme (fst (snd b))) acc (fr_bindings f)) {} e"

section \<open>Kinds, proved\<close>

lemma kind_constructor_arity:
  "kind_arity (kind_constructor n) = n" "result_kind (kind_constructor n) = KType"
  "kind_arity (constraint_constructor n) = n" "result_kind (constraint_constructor n) = KConstraint"
  by (induction n) (simp_all add: kind_constructor_def constraint_constructor_def)

lemma argument_kinds_arity: "length (argument_kinds k) = kind_arity k"
  by (induction k) simp_all

section \<open>The index of a frame\<close>

lemma rposition_snoc: "rposition P (xs @ [x]) = (if P x then Some (length xs) else rposition P xs)"
proof -
  have "filter (\<lambda>i. P ((xs @ [x]) ! i)) [0..<length xs] = filter (\<lambda>i. P (xs ! i)) [0..<length xs]"
    by (rule filter_cong) (auto simp: nth_append)
  then show ?thesis
    by (auto simp: rposition_def Let_def)
qed

lemma rposition_nil: "rposition P [] = None"
  by (simp add: rposition_def)

lemma rposition_append: "rposition P (xs @ ys) = (case rposition P ys of Some i \<Rightarrow> Some (length xs + i) | None \<Rightarrow> rposition P xs)"
  by (induction ys rule: rev_induct) (auto simp: rposition_nil rposition_snoc simp flip: append_assoc split: option.split)

lemma rposition_bound: "rposition P xs = Some i \<Longrightarrow> i < length xs \<and> P (xs ! i)"
  by (induction xs rule: rev_induct) (auto simp: rposition_nil rposition_snoc nth_append split: if_splits)

lemma rposition_None: "rposition P xs = None \<longleftrightarrow> (\<forall>x \<in> set xs. \<not> P x)"
  by (induction xs rule: rev_induct) (auto simp: rposition_nil rposition_snoc)

text \<open>The index points at the newest binding of a name, what a search from the end finds.\<close>

definition frame_ok :: "frame \<Rightarrow> bool" where
  "frame_ok f \<longleftrightarrow> (\<forall>n. fr_latest f n = rposition (\<lambda>b. fst b = n) (fr_bindings f))"

definition frame_view :: "frame \<Rightarrow> string \<rightharpoonup> scheme \<times> bool" where
  "frame_view f = map_of (rev (fr_bindings f))"

lemma rposition_map_of: "map_option (\<lambda>i. snd (xs ! i)) (rposition (\<lambda>b. fst b = n) xs) = map_of (rev xs) n"
proof (induction xs rule: rev_induct)
  case (snoc x xs)
  have "map_option (\<lambda>i. snd ((xs @ [x]) ! i)) (rposition (\<lambda>b. fst b = n) xs) = map_option (\<lambda>i. snd (xs ! i)) (rposition (\<lambda>b. fst b = n) xs)"
    by (auto simp: nth_append dest: rposition_bound intro!: option.map_cong)
  then show ?case
    using snoc by (cases x) (auto simp: rposition_snoc)
qed (simp add: rposition_nil)

lemma frame_reads:
  assumes "frame_ok f"
  shows "frame_lookup f n = map_option fst (frame_view f n)" "binds_const f n = map_option snd (frame_view f n)"
  using assms by (simp_all add: frame_ok_def frame_lookup_def binds_const_def frame_view_def flip: rposition_map_of)
    (simp_all add: option.map_comp comp_def)

lemma frame_insert_ok:
  assumes "frame_ok f"
  shows "frame_ok (frame_insert f n sch)" "frame_view (frame_insert f n sch) = (frame_view f)(n \<mapsto> (sch, False))"
  using assms by (auto simp: frame_ok_def frame_insert_def rposition_snoc frame_view_def)

interpretation fr: binding_map frame_ok frame_lookup frame_insert
  by unfold_locales (simp_all add: frame_insert_ok frame_reads fun_eq_iff)

lemma rposition_keys: "map fst xs = map fst ys \<Longrightarrow> rposition (\<lambda>b. fst b = n) xs = rposition (\<lambda>b. fst b = n) ys"
proof -
  assume keys: "map fst xs = map fst ys"
  then have len: "length xs = length ys"
    by (metis length_map)
  have "fst (xs ! i) = fst (ys ! i)" if "i < length ys" for i
    using keys that len by (metis nth_map)
  then have "filter (\<lambda>i. fst (xs ! i) = n) [0..<length ys] = filter (\<lambda>i. fst (ys ! i) = n) [0..<length ys]"
    by (intro filter_cong) auto
  then show ?thesis
    by (simp add: rposition_def len)
qed

lemma mark_const_ok:
  assumes "frame_ok f"
  shows "frame_ok (mark_const f n)" "frame_view (mark_const f n) = (frame_view f)(n := map_option (\<lambda>(sch, _). (sch, True)) (frame_view f n))"
proof -
  let ?bs = "fr_bindings f"
  have "frame_ok (mark_const f n) \<and> frame_view (mark_const f n) = (frame_view f)(n := map_option (\<lambda>(sch, _). (sch, True)) (frame_view f n))"
  proof (cases "rposition (\<lambda>b. fst b = n) ?bs")
    case None
    then have "frame_view f n = None"
      by (simp add: frame_view_def flip: rposition_map_of)
    then show ?thesis
      using None assms by (auto simp: mark_const_def frame_ok_def)
  next
    case (Some i)
    obtain sch c where b: "i < length ?bs" "?bs ! i = (n, sch, c)"
      using rposition_bound[OF Some] by (metis prod.collapse)
    define bs' where "bs' = ?bs[i := (n, sch, True)]"
    have m: "mark_const f n = f\<lparr>fr_bindings := bs'\<rparr>"
      using Some assms b by (simp add: mark_const_def frame_ok_def bs'_def)
    have "map fst bs' = map fst ?bs"
      using b by (simp add: bs'_def map_update) (metis fst_conv length_map list_update_id nth_map)
    note pos = rposition_keys[OF this]
    have "map_of (rev bs') k = ((map_of (rev ?bs))(n := map_option (\<lambda>(sch, _). (sch, True)) (map_of (rev ?bs) n))) k" for k
    proof (cases "k = n")
      case True
      then show ?thesis
        using Some b by (simp add: pos flip: rposition_map_of) (simp add: bs'_def)
    next
      case False
      have "snd (bs' ! j) = snd (?bs ! j)" if "rposition (\<lambda>b. fst b = k) ?bs = Some j" for j
        using False b rposition_bound[OF that] by (cases "j = i") (auto simp: bs'_def)
      then show ?thesis
        using False by (cases "rposition (\<lambda>b. fst b = k) ?bs") (simp_all add: pos flip: rposition_map_of)
    qed
    then show ?thesis
      using assms by (auto simp: m frame_ok_def frame_view_def pos)
  qed
  then show "frame_ok (mark_const f n)" "frame_view (mark_const f n) = (frame_view f)(n := map_option (\<lambda>(sch, _). (sch, True)) (frame_view f n))"
    by auto
qed

lemma filter_since:
  "map snd (filter (\<lambda>(i, b). i < mark \<or> P b) (enumerate k bs)) = take (mark - k) bs @ filter P (drop (mark - k) bs)"
proof (induction bs arbitrary: k)
  case (Cons b bs)
  show ?case
    using Cons[of "Suc k"] by (cases "mark - k") (auto simp: Suc_diff_Suc diff_Suc split: nat.splits)
qed simp

lemma fold_index:
  "foldl (\<lambda>l i. l(f i \<mapsto> i)) l0 is n = (if filter (\<lambda>i. f i = n) is = [] then l0 n else Some (last (filter (\<lambda>i. f i = n) is)))"
  by (induction "is" rule: rev_induct) auto

lemma rposition_split:
  assumes "mark \<le> length xs"
  shows "rposition P xs = (let hits = filter (\<lambda>i. P (xs ! i)) [mark..<length xs] in if hits = [] then rposition P (take mark xs) else Some (last hits))"
proof -
  have "[0..<length xs] = [0..<mark] @ [mark..<length xs]"
    using assms by (metis le_add_diff_inverse upt_add_eq_append zero_le)
  moreover have "filter (\<lambda>i. P (take mark xs ! i)) [0..<mark] = filter (\<lambda>i. P (xs ! i)) [0..<mark]"
    by (rule filter_cong) auto
  ultimately show ?thesis
    using assms by (simp add: rposition_def Let_def min_def)
qed

lemma hits_nil: "filter (\<lambda>i. P (xs ! i)) [mark..<length xs] = [] \<longleftrightarrow> (\<forall>x \<in> set (drop mark xs). \<not> P x)"
proof -
  have "set (drop mark xs) = (!) xs ` {mark..<length xs}"
    by (auto simp: set_conv_nth image_iff) (metis add.commute le_add_diff_inverse less_diff_conv le_add1 add.commute)+
  then show ?thesis
    by (auto simp: filter_empty_conv)
qed

lemma drop_since_ok:
  assumes "frame_ok f"
  shows "frame_ok (drop_since f name mark)"
    "fr_bindings (drop_since f name mark) = take mark (fr_bindings f) @ filter (\<lambda>b. fst b \<noteq> name) (drop mark (fr_bindings f))"
proof -
  let ?bs = "fr_bindings f" and ?P = "\<lambda>n b :: binding. fst b = n"
  define bs' where "bs' = take mark ?bs @ filter (\<lambda>b. fst b \<noteq> name) (drop mark ?bs)"
  have latest: "fr_latest f n = rposition (?P n) ?bs" for n
    using assms by (simp add: frame_ok_def)
  have "frame_ok (drop_since f name mark) \<and> fr_bindings (drop_since f name mark) = bs'"
  proof (cases "case fr_latest f name of None \<Rightarrow> True | Some i \<Rightarrow> i < mark")
    case True
    have "\<forall>b \<in> set (drop mark ?bs). fst b \<noteq> name"
    proof (cases "mark \<le> length ?bs")
      case le: True
      have "last (filter (\<lambda>i. ?P name (?bs ! i)) [mark..<length ?bs]) \<in> set [mark..<length ?bs]" if "filter (\<lambda>i. ?P name (?bs ! i)) [mark..<length ?bs] \<noteq> []"
        using last_in_set[OF that] by simp
      then have "filter (\<lambda>i. ?P name (?bs ! i)) [mark..<length ?bs] = []"
        using True rposition_split[OF le, of "?P name"] by (auto simp: latest Let_def split: if_splits)
      then show ?thesis
        using hits_nil[of "?P name" ?bs mark] by simp
    qed simp
    then have "bs' = ?bs"
      by (simp add: bs'_def filter_id_conv)
    then show ?thesis
      using True assms by (simp add: drop_since_def)
  next
    case False
    then have mark: "mark \<le> length ?bs"
      using rposition_bound[of "?P name" ?bs] by (auto simp: latest split: option.splits)
    then have t: "take mark bs' = take mark ?bs" "drop mark bs' = filter (\<lambda>b. fst b \<noteq> name) (drop mark ?bs)" "mark \<le> length bs'"
      by (simp_all add: bs'_def)
    have d: "drop_since f name mark = \<lparr>fr_bindings = bs', fr_latest = foldl (\<lambda>l i. l(fst (bs' ! i) \<mapsto> i))
        ((fr_latest f)(name := rposition (?P name) (take mark ?bs))) [mark..<length bs']\<rparr>"
      using False filter_since[of mark "\<lambda>b. fst b \<noteq> name" 0 ?bs] t
      by (simp add: drop_since_def Let_def bs'_def min_def split: option.split)
    have same: "rposition (?P n) ?bs = rposition (?P n) (take mark ?bs)"
      if n: "n \<noteq> name" "filter (\<lambda>i. fst (bs' ! i) = n) [mark..<length bs'] = []" for n
    proof -
      have "\<forall>b \<in> set (drop mark bs'). fst b \<noteq> n"
        using n(2) hits_nil[of "?P n" bs' mark] by simp
      then have "\<forall>b \<in> set (drop mark ?bs). fst b \<noteq> n"
        using n(1) unfolding t(2) by (metis (mono_tags, lifting) mem_Collect_eq set_filter)
      then show ?thesis
        using rposition_split[OF mark, of "?P n"] hits_nil[of "?P n" ?bs mark] by (simp add: Let_def)
    qed
    have "frame_ok (drop_since f name mark)"
      unfolding frame_ok_def d by (auto simp: fold_index rposition_split[OF t(3)] t(1) latest Let_def same)
    then show ?thesis
      by (simp add: d)
  qed
  then show "frame_ok (drop_since f name mark)" "fr_bindings (drop_since f name mark) = take mark ?bs @ filter (\<lambda>b. fst b \<noteq> name) (drop mark ?bs)"
    by (auto simp: bs'_def)
qed

section \<open>Scopes\<close>

definition env_ok :: "env \<Rightarrow> bool" where
  "env_ok e \<longleftrightarrow> (\<forall>f \<in> set e. frame_ok f)"

text \<open>All bindings, oldest first, and what a search from the newest one finds.\<close>

definition env_view :: "env \<Rightarrow> string \<rightharpoonup> scheme \<times> bool" where
  "env_view e = map_of (rev (concat (map fr_bindings e)))"

lemma env_view_snoc: "env_view (e @ [f]) = env_view e ++ frame_view f"
  by (simp add: env_view_def frame_view_def)

lemma first_hit_view:
  assumes "\<And>f. f \<in> set e \<Longrightarrow> g f = map_option h (frame_view f n)"
  shows "first_hit g (rev e) = map_option h (env_view e n)"
  using assms
proof (induction e rule: rev_induct)
  case (snoc f e)
  then show ?case
    by (cases "frame_view f n") (simp_all add: env_view_snoc map_add_def)
qed (simp add: env_view_def)

lemma env_reads:
  assumes "env_ok e"
  shows "env_lookup e n = map_option fst (env_view e n)" "is_const e n = (case env_view e n of Some (_, c) \<Rightarrow> c | None \<Rightarrow> False)"
proof -
  show "env_lookup e n = map_option fst (env_view e n)"
    unfolding env_lookup_def by (rule first_hit_view) (use assms in \<open>simp add: env_ok_def frame_reads\<close>)
  have "first_hit (\<lambda>f. binds_const f n) (rev e) = map_option snd (env_view e n)"
    by (rule first_hit_view) (use assms in \<open>simp add: env_ok_def frame_reads\<close>)
  then show "is_const e n = (case env_view e n of Some (_, c) \<Rightarrow> c | None \<Rightarrow> False)"
    by (auto simp: is_const_def split: option.split)
qed

lemma add_new_names:
  fixes bs :: "binding list"
  assumes "distinct names"
  defines "r \<equiv> foldl (\<lambda>names b. if fst b \<in> set names then names else names @ [fst b]) names bs"
  shows "distinct r" "set r = set names \<union> fst ` set bs"
proof -
  have "distinct r \<and> set r = set names \<union> fst ` set bs"
    unfolding r_def using assms(1) by (induction bs arbitrary: names) auto
  then show "distinct r" "set r = set names \<union> fst ` set bs"
    by auto
qed

lemma visible_names_eq: "distinct (visible_names e) \<and> set (visible_names e) = dom (env_view e)"
proof -
  let ?add = "\<lambda>names f. foldl (\<lambda>names b. if fst b \<in> set names then names else names @ [fst b]) names (rev (fr_bindings f))"
  have "distinct (foldl ?add names fs) \<and> set (foldl ?add names fs) = set names \<union> (\<Union>f \<in> set fs. fst ` set (fr_bindings f))" if "distinct names" for names fs
    using that
  proof (induction fs arbitrary: names)
    case (Cons f fs)
    show ?case
      using Cons.IH[OF add_new_names(1)[OF Cons.prems, of "rev (fr_bindings f)"]] add_new_names(2)[OF Cons.prems, of "rev (fr_bindings f)"]
      by auto
  qed simp
  from this[of "[]" "rev e"] show ?thesis
    unfolding visible_names_def env_view_def by (auto simp: dom_map_of_conv_image_fst image_UN)
qed

text \<open>C28: Scopes. The index of a frame always points at the newest binding of a name, so a look-up through the stack of
  frames is a search of all bindings from the newest to the oldest: \<open>lookup\<close> and \<open>is_const\<close> read that binding, and
  \<open>visible_names\<close> lists each bound name once. Inserting into the top frame makes the new binding the one found, marking
  a constant changes that flag alone, and dropping the bindings of a name made since a mark removes exactly these and
  keeps the index right; inserting without a frame panics.
\<close>

theorem scopes_search_newest:
  assumes "env_ok e" and "frame_ok f"
  shows "env_lookup (e @ [f]) n = map_option fst ((env_view e ++ frame_view f) n)
    \<and> is_const (e @ [f]) n = (case (env_view e ++ frame_view f) n of Some (_, c) \<Rightarrow> c | None \<Rightarrow> False)
    \<and> distinct (visible_names e) \<and> set (visible_names e) = dom (env_view e)
    \<and> insert_top [] name sch = Panicked
    \<and> (\<exists>e'. insert_top (e @ [f]) name sch = Ok e' \<and> env_ok e' \<and> env_view e' = (env_view (e @ [f]))(name \<mapsto> (sch, False)))
    \<and> frame_ok (mark_const f name) \<and> frame_view (mark_const f name) = (frame_view f)(name := map_option (\<lambda>(sch, _). (sch, True)) (frame_view f name))
    \<and> frame_ok (drop_since f name mark)
    \<and> fr_bindings (drop_since f name mark) = take mark (fr_bindings f) @ filter (\<lambda>b. fst b \<noteq> name) (drop mark (fr_bindings f))"
proof -
  have ok: "env_ok (e @ [f])"
    using assms by (simp add: env_ok_def)
  have "env_ok (e @ [frame_insert f name sch])" "env_view (e @ [frame_insert f name sch]) = (env_view (e @ [f]))(name \<mapsto> (sch, False))"
    using assms frame_insert_ok[OF assms(2), of name sch] by (auto simp: env_ok_def env_view_snoc)
  then have "\<exists>e'. insert_top (e @ [f]) name sch = Ok e' \<and> env_ok e' \<and> env_view e' = (env_view (e @ [f]))(name \<mapsto> (sch, False))"
    by (simp add: insert_top_def)
  then show ?thesis
    using env_reads[OF ok, of n] visible_names_eq[of e] mark_const_ok[OF assms(2), of name] drop_since_ok[OF assms(2), of name mark]
    by (simp add: env_view_snoc insert_top_def)
qed

section \<open>Instances\<close>

lemma substitute_apply: "substitute_vars m t = apply_map (\<lambda>v. map_option TyVar (m v)) t"
proof (induction t arbitrary: m rule: ty_parts_induct)
  case (Var v)
  show ?case
    by (simp split: option.split)
next
  case (Sum n vs)
  show ?case
    using map_variants_cong[of vs "substitute_vars m" "apply_map (\<lambda>v. map_option TyVar (m v))", OF Sum] by simp
next
  case (Forall bs cs body)
  have "(\<lambda>v. map_option TyVar (m v)) |` (- set bs) = (\<lambda>v. map_option TyVar ((m |` (- set bs)) v))"
    by (auto simp: restrict_map_def)
  then show ?case
    using Forall by (simp add: Let_def)
qed auto

lemma freshen_eq:
  fixes sch :: scheme
  defines "ids \<equiv> \<lambda>c k. map (\<lambda>j. tc_next c + of_nat j) [0..<k]"
  shows "freshen sch i vs c m kinds = (m ++ map_of (rev (zip vs (ids c (length vs)))),
    kinds ++ map_of (rev (zip (ids c (length vs)) (map (kind_at sch) [i..<i + length vs]))), c\<lparr>tc_next := tc_next c + of_nat (length vs)\<rparr>)"
proof (induction vs arbitrary: i c m kinds)
  case (Cons v vs)
  let ?c = "c\<lparr>tc_next := tc_next c + 1\<rparr>"
  have ids: "ids c (Suc k) = tc_next c # ids ?c k" for k
    unfolding ids_def by (induction k) (simp_all add: add.assoc add.commute)
  have upt: "[i..<i + Suc k] = i # [Suc i..<Suc i + k]" for k
    by (simp add: upt_rec)
  have add: "n(k \<mapsto> x) ++ map_of (rev l) = n ++ map_of (rev ((k, x) # l))" for n :: "'k \<rightharpoonup> 'x" and k x l
    by (auto simp: map_add_def fun_eq_iff split: option.split)
  have "freshen sch i (v # vs) c m kinds = freshen sch (Suc i) vs ?c (m(v \<mapsto> tc_next c)) (kinds(tc_next c \<mapsto> kind_at sch i))"
    by (simp add: fresh_def)
  then show ?case
    unfolding Cons length_Cons ids upt by (simp only: add zip_Cons_Cons list.map) (simp add: add.assoc)
qed (simp add: ids_def)

lemma fresh_ids:
  fixes a :: u32
  assumes "unat a + k < 2 ^ 32"
  shows "distinct (map (\<lambda>j. a + of_nat j) [0..<k])" "w \<in> set (map (\<lambda>j. a + of_nat j) [0..<k]) \<Longrightarrow> a \<le> w \<and> w < a + of_nat k"
proof -
  have u: "unat (a + of_nat j) = unat a + j" if "j \<le> k" for j
  proof -
    have "unat (of_nat j :: u32) = j"
      using assms that by (simp add: unat_of_nat)
    then show ?thesis
      using assms that by (simp add: unat_word_ariths)
  qed
  show "distinct (map (\<lambda>j. a + of_nat j) [0..<k])"
    unfolding distinct_map
  proof (intro conjI inj_onI)
    fix x y assume "x \<in> set [0..<k]" "y \<in> set [0..<k]" "a + of_nat x = a + of_nat y"
    then have "unat a + x = unat a + y"
      using u[of x] u[of y] by (metis atLeastLessThan_iff less_imp_le_nat set_upt)
    then show "x = y"
      by simp
  qed simp
  show "a \<le> w \<and> w < a + of_nat k" if "w \<in> set (map (\<lambda>j. a + of_nat j) [0..<k])"
    using that u by (auto simp: word_le_nat_alt word_less_nat_alt)
qed

text \<open>Instantiation. While the counter does not wrap, instantiating a scheme takes as many new variables as it
  quantifies, pairwise distinct and not below the counter, moves the counter past them, and records the kind of each;
  the instance is the type with the quantified variables replaced by them, so its free variables are the new ones and
  those that were free in the scheme.
\<close>

theorem instantiate_fresh:
  assumes "distinct (sch_bounds sch)" and "unat (tc_next c) + length (sch_bounds sch) < 2 ^ 32"
    and "instantiate_with_kinds sch c = ((t, cs, kinds), c')" and "ids = map (\<lambda>j. tc_next c + of_nat j) [0..<length (sch_bounds sch)]"
  shows "distinct ids \<and> (\<forall>w \<in> set ids. tc_next c \<le> w \<and> w < tc_next c')
    \<and> tc_next c' = tc_next c + of_nat (length (sch_bounds sch))
    \<and> t = apply_map (\<lambda>v. map_option TyVar (map_of (zip (sch_bounds sch) ids) v)) (sch_ty sch)
    \<and> kinds = map_of (zip ids (map (kind_at sch) [0..<length (sch_bounds sch)]))
    \<and> free_vars t \<subseteq> (free_vars (sch_ty sch) - set (sch_bounds sch)) \<union> set ids"
proof -
  have len: "length ids = length (sch_bounds sch)"
    by (simp add: assms(4))
  have dist: "distinct ids" and range: "\<forall>w \<in> set ids. tc_next c \<le> w \<and> w < tc_next c + of_nat (length (sch_bounds sch))"
    using fresh_ids[OF assms(2)] by (simp_all add: assms(4))
  have maps: "map_of (rev (zip (sch_bounds sch) ids)) = map_of (zip (sch_bounds sch) ids)"
    "map_of (rev (zip ids (map (kind_at sch) [0..<length (sch_bounds sch)]))) = map_of (zip ids (map (kind_at sch) [0..<length (sch_bounds sch)]))"
    using assms(1) dist len by (simp_all add: map_of_rev)
  have inst: "t = substitute_vars (map_of (zip (sch_bounds sch) ids)) (sch_ty sch)"
    "kinds = map_of (zip ids (map (kind_at sch) [0..<length (sch_bounds sch)]))" "tc_next c' = tc_next c + of_nat (length (sch_bounds sch))"
    using assms(3) by (auto simp: instantiate_with_kinds_def freshen_eq maps simp flip: assms(4))
  let ?m = "\<lambda>v. map_option TyVar (map_of (zip (sch_bounds sch) ids) v)"
  have t: "t = apply_map ?m (sch_ty sch)"
    by (simp add: inst(1) substitute_apply)
  have "dom ?m = set (sch_bounds sch)"
    using dom_map_of_zip[OF len[symmetric]] by (auto simp: dom_def)
  moreover have "range_vars ?m \<subseteq> set ids"
    by (auto simp: range_vars_def ran_def dest!: map_of_SomeD set_zip_rightD)
  ultimately have "free_vars t \<subseteq> (free_vars (sch_ty sch) - set (sch_bounds sch)) \<union> set ids"
    using free_vars_apply[of ?m "sch_ty sch"] unfolding t by blast
  then show ?thesis
    using dist range inst(2,3) t by simp
qed

section \<open>Examples\<close>

theorem instantiate_fresh_witness:
  "fst (fst (instantiate_with_kinds (scheme_poly [0] [] (TyFun (TyVar 0) (TyVar 5))) \<lparr>tc_next = 7\<rparr>)) = TyFun (TyVar 7) (TyVar 5)"
proof -
  obtain t cs kinds c' where i: "instantiate_with_kinds (scheme_poly [0] [] (TyFun (TyVar 0) (TyVar 5))) \<lparr>tc_next = 7\<rparr> = ((t, cs, kinds), c')"
    by (metis prod.collapse)
  from instantiate_fresh[OF _ _ i refl] show ?thesis
    by (simp add: i) (simp add: scheme_poly_def)
qed

lemma frame_new_ok: "frame_ok frame_new"
  by (simp add: frame_ok_def frame_new_def rposition_nil)

text \<open>A second \<open>x\<close> shadows the first until it is dropped.\<close>

theorem scopes_search_newest_witness:
  "env_lookup [frame_new, frame_insert (frame_insert frame_new ''x'' (scheme_mono (TyVar 0))) ''x'' (scheme_mono (TyVar 1))] ''x'' = Some (scheme_mono (TyVar 1))
   \<and> fr_bindings (drop_since (frame_insert (frame_insert frame_new ''x'' (scheme_mono (TyVar 0))) ''x'' (scheme_mono (TyVar 1))) ''x'' 1)
     = [(''x'', scheme_mono (TyVar 0), False)]"
proof -
  let ?f = "frame_insert (frame_insert frame_new ''x'' (scheme_mono (TyVar 0))) ''x'' (scheme_mono (TyVar 1))"
  have "env_ok [frame_new]" "frame_ok ?f"
    by (simp_all add: env_ok_def frame_insert_ok frame_new_ok)
  note newest = scopes_search_newest[OF this, of "''x''" "''x''" "scheme_mono (TyVar 0)" 1]
  have "frame_view ?f ''x'' = Some (scheme_mono (TyVar 1), False)"
    "take 1 (fr_bindings ?f) @ filter (\<lambda>b. fst b \<noteq> ''x'') (drop 1 (fr_bindings ?f)) = [(''x'', scheme_mono (TyVar 0), False)]"
    by (simp_all add: frame_view_def frame_insert_def frame_new_def)
  then have "env_lookup ([frame_new] @ [?f]) ''x'' = Some (scheme_mono (TyVar 1))"
    "fr_bindings (drop_since ?f ''x'' 1) = [(''x'', scheme_mono (TyVar 0), False)]"
    using newest by (simp_all only: map_add_def option.simps fst_conv)
  then show ?thesis
    by simp
qed

end
