(* ===== verification/Unify.thy ===== *)
theory Unify
  imports Ty_Subst "HOL-Library.List_Lexorder" "HOL-Library.Char_ord"
begin

text \<open>
  Unification of the type checker, after \<^verbatim>\<open>compiler/src/typechecking/unify.rs\<close>. One round of \<open>unify_with\<close> is
  \<open>unify_arms\<close>, the arms of the match in the order of the code, with the recursive call as a parameter; \<open>unify_with\<close>
  iterates it a given number of rounds deep and has the value \<open>None\<close> when they run out. The code clones the substitution
  before it writes, so a binding always goes to the overlay.
\<close>

section \<open>Errors and sequencing\<close>

datatype unify_error = Mismatch ty ty | Occurs ty_var ty

type_synonym unify_result = "(unify_error + ty_subst) option"

definition ubind :: "unify_result \<Rightarrow> (ty_subst \<Rightarrow> unify_result) \<Rightarrow> unify_result" where
  "ubind r f = (case r of None \<Rightarrow> None | Some (Inl e) \<Rightarrow> Some (Inl e) | Some (Inr s) \<Rightarrow> f s)"

abbreviation mismatch :: "ty \<Rightarrow> ty \<Rightarrow> unify_result" where
  "mismatch left right \<equiv> Some (Inl (Mismatch left right))"

type_synonym unifier = "ty_subst \<Rightarrow> ty \<Rightarrow> ty \<Rightarrow> unify_result"

fun unify_pairs :: "unifier \<Rightarrow> ty_subst \<Rightarrow> (ty \<times> ty) list \<Rightarrow> unify_result" where
  "unify_pairs rec s [] = Some (Inr s)"
| "unify_pairs rec s ((a, b) # rest) = ubind (rec s a b) (\<lambda>s. unify_pairs rec s rest)"

section \<open>The arms\<close>

definition bind_var :: "ty_subst \<Rightarrow> ty_var \<Rightarrow> ty \<Rightarrow> unify_error + ty_subst" where
  "bind_var s var ty0 =
     (let ty = peel_constructor_refinement ty0 in
      if var \<in> ftv_ty ty then Inl (Occurs var ty) else Inr (subst_insert False s var (apply_ty s ty)))"

definition constraint_matches :: "(ty_var \<rightharpoonup> ty_var) \<Rightarrow> ty ty_constraint \<Rightarrow> ty ty_constraint \<Rightarrow> bool" where
  "constraint_matches m a b \<longleftrightarrow> con_class a = con_class b \<and> length (con_args a) = length (con_args b)
     \<and> con_args a = map (substitute_vars m) (con_args b)"

text \<open>The first constraint of \<open>c2\<close> that is not used yet and equal after the renaming.\<close>

fun use_first :: "(ty_var \<rightharpoonup> ty_var) \<Rightarrow> ty ty_constraint \<Rightarrow> ty ty_constraint list \<Rightarrow> bool list \<Rightarrow> bool list option" where
  "use_first m a (b # bs) (u # us) =
     (if \<not> u \<and> constraint_matches m a b then Some (True # us) else map_option (Cons u) (use_first m a bs us))"
| "use_first m a _ _ = None"

fun match_all :: "(ty_var \<rightharpoonup> ty_var) \<Rightarrow> ty ty_constraint list \<Rightarrow> ty ty_constraint list \<Rightarrow> bool list \<Rightarrow> bool" where
  "match_all m [] c2 used = True"
| "match_all m (a # c1) c2 used = (case use_first m a c2 used of None \<Rightarrow> False | Some used' \<Rightarrow> match_all m c1 c2 used')"

definition forall_constraints_eq :: "ty ty_constraint list \<Rightarrow> ty ty_constraint list \<Rightarrow> (ty_var \<rightharpoonup> ty_var) \<Rightarrow> bool" where
  "forall_constraints_eq c1 c2 m \<longleftrightarrow> length c1 = length c2 \<and> match_all m c1 c2 (replicate (length c2) False)"

fun same_shape :: "'a payload \<Rightarrow> 'a payload \<Rightarrow> bool" where
  "same_shape PayloadUnit PayloadUnit = True"
| "same_shape (PayloadTuple _) (PayloadTuple _) = True"
| "same_shape (PayloadRecord _) (PayloadRecord _) = True"
| "same_shape _ _ = False"

fun unify_variants :: "unifier \<Rightarrow> ty \<Rightarrow> ty \<Rightarrow> ty_subst \<Rightarrow> ((string \<times> ty payload) \<times> (string \<times> ty payload)) list \<Rightarrow> unify_result" where
  "unify_variants rec left right s [] = Some (Inr s)"
| "unify_variants rec left right s (((an, ap), (bn, bp)) # rest) =
     (if an \<noteq> bn then mismatch left right
      else if field_count ap \<noteq> field_count bp then mismatch left right
      else if \<not> same_shape ap bp then mismatch left right
      else ubind (unify_pairs rec s (zip (field_types ap) (field_types bp))) (\<lambda>s. unify_variants rec left right s rest))"

definition len_compatible :: "array_length \<Rightarrow> array_length \<Rightarrow> bool" where
  "len_compatible l1 l2 = (case (l1, l2) of (StaticLen n, StaticLen m) \<Rightarrow> n = m | _ \<Rightarrow> True)"

text \<open>An application against the structural sum of a builtin enum: \<open>None\<close> where the code has no answer.\<close>

definition unify_builtin_app_sum :: "unifier \<Rightarrow> ty_subst \<Rightarrow> ty \<Rightarrow> ty list \<Rightarrow> ty \<Rightarrow> unify_result option" where
  "unify_builtin_app_sum rec s con args sm = (case con of
     TyCon name \<Rightarrow>
       if is_builtin_option_enum name then
         (if length args \<noteq> 1 then Some (mismatch (TyApp con args) sm)
          else case option_inner sm of None \<Rightarrow> None | Some inner \<Rightarrow> Some (rec s (args ! 0) inner))
       else if is_builtin_result_enum name then
         (if length args \<noteq> 2 then Some (mismatch (TyApp con args) sm)
          else case result_ok_err sm of None \<Rightarrow> None
            | Some (ok, err) \<Rightarrow> Some (ubind (rec s (args ! 0) ok) (\<lambda>s. rec s (args ! 1) err)))
       else None
   | TyVar var \<Rightarrow>
       (case option_inner sm of
          Some inner \<Rightarrow>
            if length args \<noteq> 1 then Some (mismatch (TyApp con args) sm)
            else Some (ubind (Some (bind_var s var (TyCon BUILTIN_OPTION_ENUM))) (\<lambda>s. rec s (args ! 0) inner))
        | None \<Rightarrow> (case result_ok_err sm of
            Some (ok, err) \<Rightarrow>
              if length args \<noteq> 2 then Some (mismatch (TyApp con args) sm)
              else Some (ubind (Some (bind_var s var (TyCon BUILTIN_RESULT_ENUM)))
                     (\<lambda>s. ubind (rec s (args ! 0) ok) (\<lambda>s. rec s (args ! 1) err)))
          | None \<Rightarrow> None))
   | _ \<Rightarrow> None)"

definition unify_app_sum :: "unifier \<Rightarrow> ty_subst \<Rightarrow> ty \<Rightarrow> ty list \<Rightarrow> ty \<Rightarrow> unify_result" where
  "unify_app_sum rec s con args sm = (case unify_builtin_app_sum rec s con args sm of
     Some result \<Rightarrow> result
   | None \<Rightarrow> mismatch (TyApp con args) sm)"

text \<open>The recursive call may run out of rounds; only an error of it is replaced.\<close>

definition unify_app_ctor :: "unifier \<Rightarrow> ty_subst \<Rightarrow> ty \<Rightarrow> ty \<Rightarrow> ty \<Rightarrow> unify_result" where
  "unify_app_ctor rec s app owner ctor = (case rec s app owner of
     None \<Rightarrow> None
   | Some (Inr s) \<Rightarrow> Some (Inr s)
   | Some (Inl _) \<Rightarrow> mismatch app ctor)"

definition unify_con_ctor :: "unifier \<Rightarrow> ty_subst \<Rightarrow> string \<Rightarrow> ty \<Rightarrow> u32 \<Rightarrow> nat \<Rightarrow> unify_result" where
  "unify_con_ctor rec s c_name owner tag arity =
     (let ctor = TyConstructor owner tag arity;
          owner_sum_name = (case owner of TySum name _ \<Rightarrow> Some name | _ \<Rightarrow> None) in
      if owner_sum_name \<noteq> Some c_name then mismatch ctor (TyCon c_name) else rec s ctor owner)"

definition unify_ctor_sum :: "unifier \<Rightarrow> ty_subst \<Rightarrow> ty \<Rightarrow> u32 \<Rightarrow> nat \<Rightarrow> string \<Rightarrow> (string \<times> ty payload) list \<Rightarrow> unify_result" where
  "unify_ctor_sum rec s c_owner c_tag c_arity s_name s_variants =
     (let ctor = TyConstructor c_owner c_tag c_arity; sm = TySum s_name s_variants in
      case get s_variants (unat c_tag) of
        None \<Rightarrow> mismatch ctor sm
      | Some variant \<Rightarrow> if field_count (snd variant) \<noteq> c_arity then mismatch ctor sm else rec s c_owner sm)"

definition unify_forall :: "unifier \<Rightarrow> ty_subst \<Rightarrow> ty_var list \<Rightarrow> ty ty_constraint list \<Rightarrow> ty \<Rightarrow> ty_var list \<Rightarrow> ty ty_constraint list \<Rightarrow> ty \<Rightarrow> unify_result" where
  "unify_forall rec s b1 c1 body1 b2 c2 body2 =
     (if length b1 \<noteq> length b2 then mismatch (TyForall b1 c1 body1) (TyForall b2 c2 body2)
      else let m = map_of (rev (zip b2 b1)) in
        if \<not> forall_constraints_eq c1 c2 m then mismatch (TyForall b1 c1 body1) (TyForall b2 c2 body2)
        else rec s body1 (substitute_vars m body2))"

text \<open>Fields are compared in the order of their names; the sort is stable.\<close>

definition unify_record :: "unifier \<Rightarrow> ty_subst \<Rightarrow> (string \<times> ty) list \<Rightarrow> (string \<times> ty) list \<Rightarrow> unify_result" where
  "unify_record rec s f1 f2 =
     (if length f1 \<noteq> length f2 then mismatch (TyRecord f1) (TyRecord f2)
      else let s1 = sort_key fst f1; s2 = sort_key fst f2 in
        if map fst s1 \<noteq> map fst s2 then mismatch (TyRecord f1) (TyRecord f2)
        else unify_pairs rec s (zip (map snd s1) (map snd s2)))"

text \<open>The last arms, from the structural types on; what no arm takes is a mismatch.\<close>

definition unify_struct :: "unifier \<Rightarrow> ty_subst \<Rightarrow> ty \<Rightarrow> ty \<Rightarrow> unify_result" where
  "unify_struct rec s t1 t2 =
     (let readonly = (case t1 of
            TyReadonly a \<Rightarrow> (case t2 of TyReadonly b \<Rightarrow> rec s a b | _ \<Rightarrow> rec s a t2)
          | _ \<Rightarrow> (case t2 of TyReadonly b \<Rightarrow> rec s t1 b | _ \<Rightarrow> mismatch t1 t2)) in
      case t1 of
        TyTuple tys1 \<Rightarrow> (case t2 of
            TyTuple tys2 \<Rightarrow> if length tys1 \<noteq> length tys2 then mismatch t1 t2 else unify_pairs rec s (zip tys1 tys2)
          | _ \<Rightarrow> readonly)
      | TyArray e1 l1 \<Rightarrow> (case t2 of
            TyArray e2 l2 \<Rightarrow> if \<not> len_compatible l1 l2 then mismatch t1 t2 else rec s e1 e2
          | _ \<Rightarrow> readonly)
      | TyRecord f1 \<Rightarrow> (case t2 of TyRecord f2 \<Rightarrow> unify_record rec s f1 f2 | _ \<Rightarrow> readonly)
      | _ \<Rightarrow> readonly)"

text \<open>The arms before them, from \<open>Never\<close> on: of two variables the newer one is bound.\<close>

definition unify_rest :: "unifier \<Rightarrow> ty_subst \<Rightarrow> ty \<Rightarrow> ty \<Rightarrow> unify_result" where
  "unify_rest rec s t1 t2 =
     (if t1 = TyNever \<or> t2 = TyNever then Some (Inr s)
      else case t1 of
        TyVar a \<Rightarrow> (case t2 of
            TyVar b \<Rightarrow> if a < b then Some (bind_var s b t1) else Some (bind_var s a t2)
          | _ \<Rightarrow> Some (bind_var s a t2))
      | _ \<Rightarrow> (case t2 of TyVar v \<Rightarrow> Some (bind_var s v t1) | _ \<Rightarrow> unify_struct rec s t1 t2))"

text \<open>
  The arms before those; each takes one pair of constructors, so they are grouped by the left one. A guard that fails
  falls through to the later arms.
\<close>

definition unify_arms :: "unifier \<Rightarrow> ty_subst \<Rightarrow> ty \<Rightarrow> ty \<Rightarrow> unify_result" where
  "unify_arms rec s t1 t2 =
     (let later = unify_rest rec s t1 t2 in
      case t1 of
        TyVar v1 \<Rightarrow> (case t2 of
            TyVar v2 \<Rightarrow> if v1 = v2 then Some (Inr s) else later
          | TyReadonly inner \<Rightarrow> if strip_readonly inner = TyVar v1 then Some (Inr s) else later
          | _ \<Rightarrow> later)
      | TyReadonly inner \<Rightarrow> (case t2 of
            TyVar v1 \<Rightarrow> if strip_readonly inner = TyVar v1 then Some (Inr s) else later
          | _ \<Rightarrow> later)
      | TyCon c \<Rightarrow> (case t2 of
            TyCon b \<Rightarrow> if c = b then Some (Inr s) else later
          | TyTuple items \<Rightarrow> if c = UNIT \<and> items = [] then Some (Inr s) else later
          | TySum name variants \<Rightarrow> if c = name then rec s t2 t2 else later
          | TyConstructor owner tag arity \<Rightarrow> unify_con_ctor rec s c owner tag arity
          | _ \<Rightarrow> later)
      | TyTuple items \<Rightarrow> (case t2 of
            TyCon u \<Rightarrow> if u = UNIT \<and> items = [] then Some (Inr s) else later
          | _ \<Rightarrow> later)
      | TyExistential a \<Rightarrow> (case t2 of
            TyExistential b \<Rightarrow> if a = b then Some (Inr s) else later
          | _ \<Rightarrow> later)
      | TyFun a1 b1 \<Rightarrow> (case t2 of
            TyFun a2 b2 \<Rightarrow> ubind (rec s a1 a2) (\<lambda>s. rec s b1 b2)
          | _ \<Rightarrow> later)
      | TyForall b1 c1 body1 \<Rightarrow> (case t2 of
            TyForall b2 c2 body2 \<Rightarrow> unify_forall rec s b1 c1 body1 b2 c2 body2
          | _ \<Rightarrow> later)
      | TyApp c1 args1 \<Rightarrow> (case t2 of
            TyApp c2 args2 \<Rightarrow> ubind (rec s c1 c2) (\<lambda>s.
              if length args1 \<noteq> length args2 then mismatch t1 t2 else unify_pairs rec s (zip args1 args2))
          | TySum _ _ \<Rightarrow> unify_app_sum rec s c1 args1 t2
          | TyConstructor owner tag arity \<Rightarrow> unify_app_ctor rec s t1 owner t2
          | _ \<Rightarrow> later)
      | TySum a av \<Rightarrow> (case t2 of
            TyCon c \<Rightarrow> if c = a then rec s t1 t1 else later
          | TyApp c args \<Rightarrow> unify_app_sum rec s c args t1
          | TySum b bv \<Rightarrow>
              if a = b then if length av \<noteq> length bv then mismatch t1 t2 else unify_variants rec t1 t2 s (zip av bv)
              else later
          | TyConstructor owner tag arity \<Rightarrow> unify_ctor_sum rec s owner tag arity a av
          | _ \<Rightarrow> later)
      | TyConstructor owner tag arity \<Rightarrow> (case t2 of
            TyCon c \<Rightarrow> unify_con_ctor rec s c owner tag arity
          | TyApp c args \<Rightarrow> unify_app_ctor rec s t2 owner t1
          | TySum name variants \<Rightarrow> unify_ctor_sum rec s owner tag arity name variants
          | TyConstructor o2 _ _ \<Rightarrow> rec s owner o2
          | _ \<Rightarrow> later)
      | _ \<Rightarrow> later)"

text \<open>Both sides are first brought up to date, one look-up per variable.\<close>

primrec unify_with :: "nat \<Rightarrow> unifier" where
  "unify_with 0 s t1 t2 = None"
| "unify_with (Suc n) s t1 t2 = unify_arms (unify_with n) s (apply_ty s t1) (apply_ty s t2)"

definition unify :: "nat \<Rightarrow> ty \<Rightarrow> ty \<Rightarrow> unify_result" where
  "unify n t1 t2 = unify_with n subst_empty t1 t2"

text \<open>
  How the checker uses it: unify under its substitution, whose data the result shares, and adopt the result. The
  diagnostics of a failure are not part of the model. A list of problems is solved one after the other.
\<close>

definition checker_unify :: "nat \<Rightarrow> ty_subst \<Rightarrow> ty \<Rightarrow> ty \<Rightarrow> (unify_error + ty_subst \<times> ty) option" where
  "checker_unify n self t1 t2 = (case unify_with n self t1 t2 of
     None \<Rightarrow> None
   | Some (Inl e) \<Rightarrow> Some (Inl e)
   | Some (Inr s) \<Rightarrow> (let self' = subst_absorb True self s in Some (Inr (self', apply_ty self' t1))))"

primrec checker_solve :: "nat \<Rightarrow> ty_subst \<Rightarrow> (ty \<times> ty) list \<Rightarrow> (unify_error + ty_subst) option" where
  "checker_solve n self [] = Some (Inr self)"
| "checker_solve n self (p # ps) = (case checker_unify n self (fst p) (snd p) of
     None \<Rightarrow> None
   | Some (Inl e) \<Rightarrow> Some (Inl e)
   | Some (Inr (self', _)) \<Rightarrow> checker_solve n self' ps)"

section \<open>What every step of unification keeps\<close>

text \<open>
  A relation between the substitution a step gets and the one it returns: when it is a preorder that holds for a
  binding, it holds for the whole of unification.
\<close>

definition steps :: "(ty_subst \<Rightarrow> ty_subst \<Rightarrow> bool) \<Rightarrow> unifier \<Rightarrow> bool" where
  "steps R rec \<longleftrightarrow> (\<forall>s t1 t2 s'. rec s t1 t2 = Some (Inr s') \<longrightarrow> R s s')"

locale subst_step =
  fixes R :: "ty_subst \<Rightarrow> ty_subst \<Rightarrow> bool"
  assumes R_refl: "R s s" and R_trans: "R s s1 \<Longrightarrow> R s1 s2 \<Longrightarrow> R s s2"
    and R_bind: "bind_var s v t = Inr s' \<Longrightarrow> R s s'"
begin

lemma stepsD: "steps R rec \<Longrightarrow> rec s t1 t2 = Some (Inr s') \<Longrightarrow> R s s'"
  by (simp add: steps_def)

lemma ubind_step:
  assumes "ubind r f = Some (Inr s')" and "\<And>s1. r = Some (Inr s1) \<Longrightarrow> R s s1" and "\<And>s1. f s1 = Some (Inr s') \<Longrightarrow> R s1 s'"
  shows "R s s'"
  using assms by (auto simp: ubind_def split: option.splits sum.splits intro: R_trans)

lemma pairs_step: "steps R rec \<Longrightarrow> unify_pairs rec s ps = Some (Inr s') \<Longrightarrow> R s s'"
proof (induction ps arbitrary: s)
  case (Cons p ps)
  obtain a b where p: "p = (a, b)"
    by force
  show ?case
    using Cons.prems(2) unfolding p unify_pairs.simps
    by (rule ubind_step) (use Cons.prems(1) Cons.IH in \<open>auto intro: stepsD\<close>)
qed (simp add: R_refl)

lemma variants_step: "steps R rec \<Longrightarrow> unify_variants rec l r s vs = Some (Inr s') \<Longrightarrow> R s s'"
proof (induction vs arbitrary: s)
  case (Cons p vs)
  obtain an ap bn bp where p: "p = ((an, ap), (bn, bp))"
    by (metis surj_pair)
  have "ubind (unify_pairs rec s (zip (field_types ap) (field_types bp))) (\<lambda>s. unify_variants rec l r s vs) = Some (Inr s')"
    using Cons.prems(2) by (simp add: p split: if_splits)
  then show ?case
    by (rule ubind_step) (use Cons.prems(1) Cons.IH in \<open>auto intro: pairs_step\<close>)
qed (simp add: R_refl)

lemma bind_step: "Some (bind_var s v t) = Some (Inr s') \<Longrightarrow> R s s'"
  using R_bind by simp

lemma app_sum_step:
  assumes "steps R rec" and "unify_app_sum rec s con args sm = Some (Inr s')"
  shows "R s s'"
proof -
  have then_rec: "R s s'" if "ubind r (\<lambda>s. rec s a b) = Some (Inr s')" "\<And>s1. r = Some (Inr s1) \<Longrightarrow> R s s1" for r s a b
    by (rule ubind_step[OF that]) (assumption, rule stepsD[OF assms(1)])
  have both: "R s s'" if "ubind (rec s a b) (\<lambda>s. rec s c d) = Some (Inr s')" for s a b c d
    by (rule then_rec[OF that]) (rule stepsD[OF assms(1)])
  have three: "R s s'" if "ubind r (\<lambda>s. ubind (rec s a b) (\<lambda>s. rec s c d)) = Some (Inr s')" "\<And>s1. r = Some (Inr s1) \<Longrightarrow> R s s1" for r s a b c d
    by (rule ubind_step[OF that]) (assumption, rule both)
  show ?thesis
  proof (cases con)
    case (TyVar var)
    then show ?thesis
      using assms(2) by (auto simp: unify_app_sum_def unify_builtin_app_sum_def split: option.splits if_splits intro: then_rec three R_bind)
  next
    case (TyCon name)
    then show ?thesis
      using assms(2) by (auto simp: unify_app_sum_def unify_builtin_app_sum_def split: option.splits if_splits intro: both stepsD[OF assms(1)])
  qed (use assms(2) in \<open>simp_all add: unify_app_sum_def unify_builtin_app_sum_def\<close>)
qed

lemma record_step:
  assumes "steps R rec" and "unify_record rec s f1 f2 = Some (Inr s')"
  shows "R s s'"
  using assms(2) by (auto simp: unify_record_def Let_def split: if_splits intro: pairs_step[OF assms(1)])

lemma struct_step:
  assumes "steps R rec" and "unify_struct rec s t1 t2 = Some (Inr s')"
  shows "R s s'"
  using assms(2)
  by (cases t1; cases t2) (auto simp: unify_struct_def split: if_splits intro: stepsD[OF assms(1)] pairs_step[OF assms(1)] record_step[OF assms(1)])

lemma rest_step:
  assumes "steps R rec" and "unify_rest rec s t1 t2 = Some (Inr s')"
  shows "R s s'"
  using assms(2)
  by (cases t1; cases t2) (auto simp: unify_rest_def split: if_splits intro: R_refl R_bind struct_step[OF assms(1)])

lemma enum_steps:
  assumes "steps R rec"
  shows "unify_con_ctor rec s c owner tag arity = Some (Inr s') \<Longrightarrow> R s s'"
    "unify_ctor_sum rec s owner tag arity name variants = Some (Inr s') \<Longrightarrow> R s s'"
    "unify_app_ctor rec s t1 owner t2 = Some (Inr s') \<Longrightarrow> R s s'"
    "unify_forall rec s b1 c1 body1 b2 c2 body2 = Some (Inr s') \<Longrightarrow> R s s'"
  unfolding unify_con_ctor_def unify_ctor_sum_def unify_app_ctor_def unify_forall_def Let_def
  by (auto split: if_splits option.splits sum.splits intro: stepsD[OF assms])

lemma call_steps:
  assumes "steps R rec"
  shows "ubind (rec s a1 a2) (\<lambda>s. rec s b1 b2) = Some (Inr s') \<Longrightarrow> R s s'"
    "ubind (rec s c1 c2) (\<lambda>s. if P then mismatch t1 t2 else unify_pairs rec s ps) = Some (Inr s') \<Longrightarrow> R s s'"
proof -
  assume "ubind (rec s a1 a2) (\<lambda>s. rec s b1 b2) = Some (Inr s')"
  then show "R s s'"
    by (rule ubind_step) (rule stepsD[OF assms], assumption)+
next
  assume "ubind (rec s c1 c2) (\<lambda>s. if P then mismatch t1 t2 else unify_pairs rec s ps) = Some (Inr s')"
  then show "R s s'"
    by (rule ubind_step) (auto split: if_splits intro: stepsD[OF assms] pairs_step[OF assms])
qed

lemma arms_step:
  assumes "steps R rec" and "unify_arms rec s t1 t2 = Some (Inr s')"
  shows "R s s'"
proof -
  note steps = R_refl stepsD[OF assms(1)] rest_step[OF assms(1)] enum_steps[OF assms(1)] call_steps[OF assms(1)]
    app_sum_step[OF assms(1)] variants_step[OF assms(1)]
  show ?thesis
    using assms(2) by (cases t1; cases t2) (auto simp: unify_arms_def split: if_splits intro: steps)
qed

lemma unify_with_step: "unify_with n s t1 t2 = Some (Inr s') \<Longrightarrow> R s s'"
proof -
  have "steps R (unify_with n)" for n
  proof (induction n)
    case (Suc n)
    then show ?case
      unfolding steps_def by (auto intro: arms_step[OF Suc])
  qed (simp add: steps_def)
  then show "unify_with n s t1 t2 = Some (Inr s') \<Longrightarrow> R s s'"
    by (rule stepsD)
qed

end

text \<open>The result is the given substitution with a longer overlay, over the same data.\<close>

definition overlays :: "ty_subst \<Rightarrow> ty_subst \<Rightarrow> bool" where
  "overlays s s' \<longleftrightarrow> (subst_ok s \<longrightarrow> subst_ok s' \<and> ts_data s' = ts_data s
     \<and> (\<exists>new. map fst (ts_local s') = map fst (ts_local s) @ new) \<and> (ts_local s' = [] \<longrightarrow> s' = s))"

interpretation overlay: subst_step overlays
proof
  fix s v t s'
  assume "bind_var s v t = Inr s'"
  then obtain u where s': "s' = subst_insert False s v u"
    by (auto simp: bind_var_def Let_def split: if_splits)
  have "local_set l v u = [] \<longleftrightarrow> l = []" for l
    using local_set_keys(1)[of l v u] by auto
  then show "overlays s s'"
    using subst_insert_map(1)[of s False v u] by (auto simp: overlays_def s' subst_insert_def local_set_keys(1))
next
  fix s s1 s2
  assume "overlays s s1" "overlays s1 s2"
  then show "overlays s s2"
    by (auto simp: overlays_def)
qed (simp add: overlays_def)

text \<open>
  What \<open>unify_with\<close> returns for the checker's substitution is a well-formed
  overlay over the same data, so \<open>absorb\<close> turns the checker's substitution into the composition of the two, well-formed
  again and with an empty overlay; when nothing was bound it stays as it was.
\<close>

lemma absorb_overlay:
  assumes "subst_ok self" and "ts_local self = []" and "\<forall>t \<in> snd ` set (sd_mappings (ts_data self)). tidy t"
    and "unify_with n self t1 t2 = Some (Inr s)"
  shows "subst_ok (subst_absorb True self s) \<and> ts_local (subst_absorb True self s) = []
    \<and> subst_get (subst_absorb True self s) = (if ts_local s = [] then subst_get self else comp_map (subst_get s) (subst_get self))"
proof -
  have o: "subst_ok s" "ts_data s = ts_data self" "ts_local s = [] \<Longrightarrow> s = self"
    using overlay.unify_with_step[OF assms(4)] assms(1) by (auto simp: overlays_def)
  have loc: "ts_local (subst_absorb True self s) = []"
    using assms(2) compose_eq(2)[OF o(1) assms(1)] by (simp add: subst_absorb_def Let_def)
  show ?thesis
  proof (cases "ts_local s = []")
    case True
    then show ?thesis
      using o assms(1,2) by (simp add: subst_absorb_def subst_is_same_def)
  next
    case False
    have a: "subst_ok (subst_absorb True self s)" "subst_iter (subst_absorb True self s) = subst_iter (compose s self)"
      using False o absorb_step[OF assms(1) o(1), of True] assms(3) by (simp_all add: subst_is_same_def)
    have "subst_get (subst_absorb True self s) = subst_get (compose s self)"
      using subst_iter_map(2)[OF a(1)] subst_iter_map(2)[OF compose_eq(1)[OF o(1) assms(1)]] a(2) by simp
    then show ?thesis
      using False loc a(1) compose_eq(4)[OF o(1) assms(1)] by simp
  qed
qed

text \<open>The checker's substitution binds 1 to \<open>t0\<close>; \<open>t0\<close> meets \<open>int\<close>.\<close>

end
