(* ===== verification/Unify_Laws.thy ===== *)
theory Unify_Laws
  imports Unify "HOL-Library.Multiset"
begin

text \<open>
  What unification (\<open>Unify\<close>) promises: a type unifies with itself and nothing is bound, and against a type without
  variables it decides matching. Two runs show where it does not keep what it documents.
\<close>

section \<open>A type unifies with itself\<close>

lemma substitute_vars_id:
  assumes "\<And>v w. m v = Some w \<Longrightarrow> w = v"
  shows "substitute_vars m t = t"
  using assms
proof (induction t arbitrary: m rule: ty_parts_induct)
  case (Var v)
  then show ?case
    by (auto split: option.split)
next
  case (Sum n vs)
  have "substitute_vars m t = t" if "v \<in> set vs" "t \<in> set (field_types (snd v))" for v t
    using Sum.prems by (intro Sum.IH[OF that]) auto
  from map_variants_cong[of vs "substitute_vars m" "\<lambda>t. t", OF this] show ?case
    by (simp add: payload.map_ident)
next
  case (Record fs)
  have "substitute_vars m (snd f) = snd f" if "f \<in> set fs" for f
    using Record.prems by (intro Record.IH[OF that]) auto
  from map_fields_cong[of fs "substitute_vars m" "\<lambda>t. t", OF this] show ?case
    by simp
next
  case (Forall bs cs body)
  let ?i = "m |` (- set bs)"
  have i: "\<And>v w. ?i v = Some w \<Longrightarrow> w = v"
    using Forall.prems by (auto simp: restrict_map_def split: if_splits)
  have "map (\<lambda>c. Constraint (con_class c) (map (substitute_vars ?i) (con_args c))) cs = cs"
    using Forall.IH(1)[OF _ _ i] by (intro map_idI) (metis map_idI ty_constraint.collapse)
  then show ?case
    using Forall.IH(2)[OF i] by (simp add: Let_def)
qed (auto simp: map_idI)

lemma map_of_zip_self: "map_of (rev (zip vs vs)) v = Some w \<Longrightarrow> w = v"
  by (auto dest!: map_of_SomeD simp: set_zip)

definition unused :: "ty ty_constraint list \<Rightarrow> bool list \<Rightarrow> ty ty_constraint list" where
  "unused cs used = map fst (filter (\<lambda>(_, u). \<not> u) (zip cs used))"

lemma unused_simps [simp]:
  "unused [] used = []" "unused cs [] = []" "unused (c # cs) (u # us) = (if u then unused cs us else c # unused cs us)"
  by (auto simp: unused_def)

lemma use_first_same:
  assumes "\<And>b. constraint_matches m a b \<longleftrightarrow> a = b" and "a \<in> set (unused cs used)"
  shows "\<exists>used'. use_first m a cs used = Some used' \<and> unused cs used' = remove1 a (unused cs used)"
  using assms(2)
proof (induction cs arbitrary: used)
  case (Cons c cs)
  then obtain u us where used: "used = u # us"
    by (cases used) auto
  show ?case
  proof (cases "\<not> u \<and> c = a")
    case True
    then show ?thesis
      by (simp add: used assms(1))
  next
    case False
    then have "a \<in> set (unused cs us)"
      using Cons.prems by (auto simp: used split: if_splits)
    from Cons.IH[OF this] obtain us' where "use_first m a cs us = Some us'" "unused cs us' = remove1 a (unused cs us)"
      by blast
    then show ?thesis
      using False by (auto simp: used assms(1))
  qed
qed simp

lemma match_all_same:
  assumes "\<And>a b. constraint_matches m a b \<longleftrightarrow> a = b" and "mset c1 \<subseteq># mset (unused c2 used)"
  shows "match_all m c1 c2 used"
  using assms(2)
proof (induction c1 arbitrary: used)
  case (Cons a c1)
  have "a \<in># mset (unused c2 used)"
    using Cons.prems by (simp add: insert_subset_eq_iff)
  then obtain used' where u: "use_first m a c2 used = Some used'" "unused c2 used' = remove1 a (unused c2 used)"
    using use_first_same[of m a c2 used] assms(1) by auto
  have "mset c1 \<subseteq># mset (unused c2 used')"
    using Cons.prems by (simp add: u(2) insert_subset_eq_iff)
  then show ?case
    using Cons.IH u(1) by simp
qed simp

lemma forall_constraints_self:
  assumes "\<And>v w. m v = Some w \<Longrightarrow> w = v"
  shows "forall_constraints_eq cs cs m"
proof -
  have id: "substitute_vars m = (\<lambda>t. t)"
    using substitute_vars_id[of m, OF assms] by auto
  have "constraint_matches m a b \<longleftrightarrow> a = b" for a b
    by (cases a; cases b) (auto simp: constraint_matches_def id)
  moreover have "unused cs (replicate (length cs) False) = cs"
    by (induction cs) auto
  ultimately show ?thesis
    by (simp add: forall_constraints_eq_def match_all_same)
qed

lemma pairs_self: "(\<And>t. t \<in> set ts \<Longrightarrow> rec s t t = Some (Inr s)) \<Longrightarrow> unify_pairs rec s (zip ts ts) = Some (Inr s)"
  by (induction ts) (auto simp: ubind_def)

lemma variants_self:
  "(\<And>v t. v \<in> set vs \<Longrightarrow> t \<in> set (field_types (snd v)) \<Longrightarrow> rec s t t = Some (Inr s)) \<Longrightarrow> unify_variants rec l r s (zip vs vs) = Some (Inr s)"
proof (induction vs)
  case (Cons v vs)
  have "same_shape (snd v) (snd v)"
    by (cases "snd v") auto
  moreover have "unify_pairs rec s (zip (field_types (snd v)) (field_types (snd v))) = Some (Inr s)"
    by (rule pairs_self) (rule Cons.prems[of v], auto)
  moreover have "unify_variants rec l r s (zip vs vs) = Some (Inr s)"
    using Cons by auto
  ultimately show ?case
    by (cases v) (simp add: ubind_def)
qed simp

lemma part_sizes:
  "t \<in> set ts \<Longrightarrow> size t < size (TyApp h ts)" "t \<in> set ts \<Longrightarrow> size t < size (TyTuple ts)"
  "f \<in> set fs \<Longrightarrow> size (snd f) < size (TyRecord fs)"
  "v \<in> set vs \<Longrightarrow> t \<in> set (field_types (snd v)) \<Longrightarrow> size t < size (TySum n vs)"
proof -
  show "t \<in> set ts \<Longrightarrow> size t < size (TyApp h ts)" "t \<in> set ts \<Longrightarrow> size t < size (TyTuple ts)"
    by (auto simp: less_Suc_eq_le dest: size_list_estimation'[of _ _ "size t" size])
  show "f \<in> set fs \<Longrightarrow> size (snd f) < size (TyRecord fs)"
    by (cases f) (auto dest: size_list_estimation'[of _ _ "size (snd f)" "size_prod (\<lambda>_. 0) size"])
  show "v \<in> set vs \<Longrightarrow> t \<in> set (field_types (snd v)) \<Longrightarrow> size t < size (TySum n vs)"
    using list_size[of v vs "size t" "size_prod (\<lambda>_. 0) (size_payload size)" 0] payload_size[of t "snd v" size] by (cases v) auto
qed

definition all_vars :: "ty \<Rightarrow> ty_var set" where
  "all_vars t = free_vars t \<union> bound_vars t"

lemma arms_self:
  assumes "\<And>u. size u < size t \<Longrightarrow> all_vars u \<subseteq> all_vars t \<Longrightarrow> rec s u u = Some (Inr s)"
  shows "unify_arms rec s t t = Some (Inr s)"
proof (cases t)
  case (TyFun a b)
  have "rec s a a = Some (Inr s)" "rec s b b = Some (Inr s)"
    by (rule assms; auto simp: TyFun all_vars_def)+
  then show ?thesis
    by (simp add: TyFun unify_arms_def ubind_def)
next
  case (TyApp h ts)
  have "rec s h h = Some (Inr s)"
    by (rule assms) (auto simp: TyApp all_vars_def)
  moreover have "unify_pairs rec s (zip ts ts) = Some (Inr s)"
    by (rule pairs_self, rule assms) (use part_sizes(1)[of _ ts h] in \<open>auto simp: TyApp all_vars_def\<close>)
  ultimately show ?thesis
    by (simp add: TyApp unify_arms_def ubind_def)
next
  case (TySum n vs)
  have "unify_variants rec t t s (zip vs vs) = Some (Inr s)"
    by (rule variants_self, rule assms) (use part_sizes(4)[of _ vs _ n] in \<open>auto simp: TySum all_vars_def\<close>)
  then show ?thesis
    by (simp add: TySum unify_arms_def)
next
  case (TyConstructor owner tag arity)
  have "rec s owner owner = Some (Inr s)"
    by (rule assms) (auto simp: TyConstructor all_vars_def)
  then show ?thesis
    by (simp add: TyConstructor unify_arms_def)
next
  case (TyTuple ts)
  have "unify_pairs rec s (zip ts ts) = Some (Inr s)"
    by (rule pairs_self, rule assms) (use part_sizes(2)[of _ ts] in \<open>auto simp: TyTuple all_vars_def\<close>)
  then show ?thesis
    by (simp add: TyTuple unify_arms_def unify_rest_def unify_struct_def)
next
  case (TyArray e l)
  have "rec s e e = Some (Inr s)"
    by (rule assms) (auto simp: TyArray all_vars_def)
  then show ?thesis
    by (cases l) (simp_all add: TyArray unify_arms_def unify_rest_def unify_struct_def len_compatible_def)
next
  case (TyRecord fs)
  have "unify_pairs rec s (zip (map snd (sort_key fst fs)) (map snd (sort_key fst fs))) = Some (Inr s)"
    by (rule pairs_self, rule assms) (use part_sizes(3)[of _ fs] in \<open>auto simp: TyRecord all_vars_def\<close>)
  then show ?thesis
    by (simp add: TyRecord unify_arms_def unify_rest_def unify_struct_def unify_record_def Let_def)
next
  case (TyReadonly u)
  have "rec s u u = Some (Inr s)"
    by (rule assms) (auto simp: TyReadonly all_vars_def)
  then show ?thesis
    by (simp add: TyReadonly unify_arms_def unify_rest_def unify_struct_def)
next
  case (TyForall bs cs body)
  have "rec s body body = Some (Inr s)"
    by (rule assms) (auto simp: TyForall all_vars_def)
  moreover note self = map_of_zip_self[of bs]
  ultimately show ?thesis
    by (simp add: TyForall unify_arms_def unify_forall_def Let_def substitute_vars_id[OF self] forall_constraints_self[OF self])
qed (simp_all add: unify_arms_def unify_rest_def)

text \<open>C26: Every type, of the whole type language, unifies with itself, and nothing is bound: with more rounds than the type
  has nodes \<open>unify_with\<close> returns the substitution it was given. No variable of the type may be bound already.
\<close>

theorem unify_self:
  assumes "subst_ok s" and "all_vars t \<inter> dom (subst_get s) = {}" and "size t < n"
  shows "unify_with n s t t = Some (Inr s)"
  using assms(2,3)
proof (induction n arbitrary: t)
  case (Suc n)
  have "apply_ty s t = t"
    using Suc.prems(1) by (subst apply_ty_map[OF assms(1)], intro apply_map_id) (auto simp: all_vars_def)
  moreover have "unify_arms (unify_with n) s t t = Some (Inr s)"
    using Suc.prems by (intro arms_self Suc.IH) auto
  ultimately show ?case
    by simp
qed simp

section \<open>Matching\<close>

text \<open>
  The types on which the checker's notion of agreement is equality: no enums and quantifiers, array lengths dynamic,
  tuples not empty (the empty one is also \<open>unit\<close>), record fields in the order of their names.
\<close>

fun plain :: "ty \<Rightarrow> bool" where
  "plain (TyVar _) = True"
| "plain (TyCon _) = True"
| "plain (TyExistential _) = True"
| "plain (TyFun a b) = (plain a \<and> plain b)"
| "plain (TyApp h ts) = (plain h \<and> (\<forall>t \<in> set ts. plain t))"
| "plain (TyTuple ts) = (ts \<noteq> [] \<and> (\<forall>t \<in> set ts. plain t))"
| "plain (TyArray e l) = (l = DynamicLen \<and> plain e)"
| "plain (TyRecord fs) = (sorted (map fst fs) \<and> (\<forall>f \<in> set fs. plain (snd f)))"
| "plain _ = False"

definition closed :: "ty \<Rightarrow> bool" where
  "closed t \<longleftrightarrow> plain t \<and> free_vars t = {}"

definition closed_subst :: "ty_subst \<Rightarrow> bool" where
  "closed_subst s \<longleftrightarrow> subst_ok s \<and> (\<forall>v t. subst_get s v = Some t \<longrightarrow> closed t)"

text \<open>
  What a run must do with the problem \<open>as = bs\<close>: succeed with the least extension of the substitution that solves it,
  or fail when no extension does. It may not run out of rounds.
\<close>

definition solves :: "ty_subst \<Rightarrow> (ty_var \<rightharpoonup> ty) \<Rightarrow> ty list \<Rightarrow> ty list \<Rightarrow> bool" where
  "solves s m xs ys \<longleftrightarrow> subst_get s \<subseteq>\<^sub>m m \<and> map (apply_map m) xs = ys"

definition decides :: "ty_subst \<Rightarrow> ty list \<Rightarrow> ty list \<Rightarrow> unify_result \<Rightarrow> bool" where
  "decides s xs ys r = (case r of
     None \<Rightarrow> False
   | Some (Inl e) \<Rightarrow> \<not> (\<exists>m. solves s m xs ys)
   | Some (Inr s') \<Rightarrow> closed_subst s' \<and> solves s (subst_get s') xs ys \<and> (\<forall>m. solves s m xs ys \<longrightarrow> subst_get s' \<subseteq>\<^sub>m m))"

lemma decides_nil: "closed_subst s \<Longrightarrow> decides s [] [] (Some (Inr s))"
  by (auto simp: decides_def solves_def)

lemma apply_twice:
  assumes "closed_subst s" and "subst_get s \<subseteq>\<^sub>m m"
  shows "apply_map m (apply_map (subst_get s) t) = apply_map m t"
proof -
  have "range_vars (subst_get s) = {}"
    using assms(1) by (auto simp: closed_subst_def closed_def range_vars_def ran_def)
  then have "apply_map m (apply_map (subst_get s) t) = apply_map (comp_map m (subst_get s)) t"
    by (intro apply_comp[symmetric]) simp
  moreover have "comp_map m (subst_get s) = m"
  proof
    fix v
    show "comp_map m (subst_get s) v = m v"
    proof (cases "subst_get s v")
      case (Some u)
      then have "apply_map m u = u"
        using assms(1) by (intro apply_map_id) (auto simp: closed_subst_def closed_def)
      moreover have "m v = Some u"
        using Some assms(2) by (metis domI map_le_def)
      ultimately show ?thesis
        using Some by (simp add: comp_map_def)
    qed (simp add: comp_map_def)
  qed
  ultimately show ?thesis
    by simp
qed

lemma apply_closed: "closed t \<Longrightarrow> apply_map m t = t"
  by (intro apply_map_id) (simp add: closed_def)

lemma solves_append:
  "length xs = length ys \<Longrightarrow> solves s m (xs @ us) (ys @ vs) \<longleftrightarrow> solves s m xs ys \<and> map (apply_map m) us = vs"
  by (auto simp: solves_def)

text \<open>A solved problem stays solved in an extension.\<close>

lemma solves_mono:
  assumes "closed_subst s'" and "solves s (subst_get s') xs ys" and "subst_get s' \<subseteq>\<^sub>m m" and "\<forall>y \<in> set ys. closed y"
  shows "solves s m xs ys"
proof -
  have "map (apply_map m) xs = map (apply_map m) (map (apply_map (subst_get s')) xs)"
    using apply_twice[OF assms(1,3)] by simp
  also have "\<dots> = ys"
    using assms(2,4) by (simp add: solves_def apply_closed map_idI)
  finally show ?thesis
    using assms(2,3) by (auto simp: solves_def intro: map_le_trans)
qed

lemma decides_append:
  assumes "decides s xs ys r" and "\<And>s'. closed_subst s' \<Longrightarrow> decides s' us vs (f s')"
    and "length xs = length ys" and "\<forall>y \<in> set ys. closed y"
  shows "decides s (xs @ us) (ys @ vs) (ubind r f)"
proof (cases r)
  case (Some r')
  show ?thesis
  proof (cases r')
    case (Inl e)
    then show ?thesis
      using assms(1) Some solves_append[OF assms(3)] by (auto simp: decides_def ubind_def)
  next
    case (Inr s')
    then have s': "closed_subst s'" "solves s (subst_get s') xs ys" "\<And>m. solves s m xs ys \<Longrightarrow> subst_get s' \<subseteq>\<^sub>m m"
      using assms(1) Some by (auto simp: decides_def)
    have iff: "solves s m (xs @ us) (ys @ vs) \<longleftrightarrow> solves s' m us vs" for m
      using s' solves_append[OF assms(3), of s m us vs] solves_mono[OF s'(1,2) _ assms(4), of m]
      by (auto simp: solves_def[of s'])
    show ?thesis
      using assms(2)[OF s'(1)] by (simp add: Some Inr ubind_def decides_def iff split: option.splits sum.splits)
  qed
qed (use assms(1) in \<open>simp add: decides_def\<close>)

lemma decides_pairs:
  assumes "length xs = length ys" and "closed_subst s" and "\<forall>x \<in> set xs. plain x" and "\<forall>y \<in> set ys. closed y"
    and "\<And>s x y. closed_subst s \<Longrightarrow> plain x \<Longrightarrow> y \<in> set ys \<Longrightarrow> decides s [x] [y] (rec s x y)"
  shows "decides s xs ys (unify_pairs rec s (zip xs ys))"
  using assms
proof (induction xs ys arbitrary: s rule: list_induct2)
  case (Cons x xs y ys)
  have "decides s ([x] @ xs) ([y] @ ys) (ubind (rec s x y) (\<lambda>s. unify_pairs rec s (zip xs ys)))"
    by (rule decides_append) (use Cons in auto)
  then show ?case
    by simp
qed (simp add: decides_nil)

lemma decides_iff:
  assumes "\<And>m. map (apply_map m) xs = ys \<longleftrightarrow> map (apply_map m) us = vs" and "decides s us vs r"
  shows "decides s xs ys r"
proof -
  have "solves s m xs ys = solves s m us vs" for m
    by (simp add: solves_def assms(1))
  then show ?thesis
    using assms(2) by (auto simp: decides_def split: option.splits sum.splits)
qed

lemma decides_never:
  assumes "\<And>m. map (apply_map m) xs \<noteq> ys"
  shows "decides s xs ys (Some (Inl e))"
  using assms by (simp add: decides_def solves_def)

lemma decides_same: "closed_subst s \<Longrightarrow> (\<And>m. map (apply_map m) xs = ys) \<Longrightarrow> decides s xs ys (Some (Inr s))"
  by (auto simp: decides_def solves_def)

text \<open>An unbound variable is bound to the other side.\<close>

lemma arms_var:
  assumes "subst_ok s" and "closed b"
  shows "unify_arms rec s (TyVar v) b = Some (Inr (subst_insert False s v b))"
proof -
  have "apply_ty s b = b"
    using assms by (simp add: apply_ty_map apply_closed)
  moreover have "ftv_ty b = {}"
    using assms(2) ftv_ty_between(2)[of b] by (auto simp: closed_def)
  moreover have "peel_constructor_refinement b = b"
    using assms(2) by (cases b) (auto simp: closed_def)
  ultimately have "bind_var s v b = Inr (subst_insert False s v b)"
    by (simp add: bind_var_def)
  then show ?thesis
    using assms(2) by (cases b) (auto simp: closed_def unify_arms_def unify_rest_def)
qed

lemma decides_var:
  assumes "closed_subst s" and "closed b" and "subst_get s v = None"
  shows "decides s [TyVar v] [b] (Some (Inr (subst_insert False s v b)))"
proof -
  have ok: "subst_ok s"
    using assms(1) by (simp add: closed_subst_def)
  note ins = subst_insert_map[OF ok, of False v b]
  have "m v = Some b" if "apply_map m (TyVar v) = b" for m
    using that assms(2) by (auto simp: closed_def split: option.splits)
  then show ?thesis
    using assms ins by (auto simp: decides_def solves_def closed_subst_def map_le_def domIff)
qed

lemma plain_apply:
  assumes "closed_subst s"
  shows "plain t \<Longrightarrow> plain (apply_map (subst_get s) t)"
  using assms by (induction t rule: plain.induct)
    (auto simp: closed_subst_def closed_def split_def comp_def split: option.split)

lemma sort_sorted: "sorted (map fst fs) \<Longrightarrow> sort_key fst fs = fs"
  by (rule sort_key_id_if_sorted)

lemma closed_parts:
  "closed (TyFun a b) \<longleftrightarrow> closed a \<and> closed b" "closed (TyApp h ts) \<longleftrightarrow> closed h \<and> (\<forall>t \<in> set ts. closed t)"
  "closed (TyTuple ts) \<longleftrightarrow> ts \<noteq> [] \<and> (\<forall>t \<in> set ts. closed t)" "closed (TyArray e l) \<longleftrightarrow> l = DynamicLen \<and> closed e"
  "closed (TyRecord fs) \<longleftrightarrow> sorted (map fst fs) \<and> (\<forall>f \<in> set fs. closed (snd f))"
  by (auto simp: closed_def)

lemmas arms_defs = unify_arms_def unify_rest_def unify_struct_def

definition decides_below :: "unifier \<Rightarrow> nat \<Rightarrow> bool" where
  "decides_below rec k \<longleftrightarrow> (\<forall>s x y. closed_subst s \<longrightarrow> plain x \<longrightarrow> closed y \<longrightarrow> size y < k \<longrightarrow> decides s [x] [y] (rec s x y))"

lemma belowD: "decides_below rec k \<Longrightarrow> closed_subst s \<Longrightarrow> plain x \<Longrightarrow> closed y \<Longrightarrow> size y < k \<Longrightarrow> decides s [x] [y] (rec s x y)"
  by (simp add: decides_below_def)

lemma decides_fun:
  assumes "closed_subst s" and "plain (TyFun x1 x2)" and "closed b" and "decides_below rec (size b)"
  shows "decides s [TyFun x1 x2] [b] (unify_arms rec s (TyFun x1 x2) b)"
proof (cases "\<exists>y1 y2. b = TyFun y1 y2")
  case True
  then obtain y1 y2 where b: "b = TyFun y1 y2"
    by blast
  have "decides s ([x1] @ [x2]) ([y1] @ [y2]) (ubind (rec s x1 y1) (\<lambda>s. rec s x2 y2))"
    using assms(1-3) by (intro decides_append belowD[OF assms(4)]) (auto simp: b closed_parts)
  then have "decides s [TyFun x1 x2] [b] (ubind (rec s x1 y1) (\<lambda>s. rec s x2 y2))"
    by (rule decides_iff[rotated]) (auto simp: b)
  then show ?thesis
    by (simp add: b unify_arms_def)
next
  case False
  then show ?thesis
    using assms(3) by (cases b) (auto simp: arms_defs closed_def intro: decides_never)
qed

lemma decides_array:
  assumes "closed_subst s" and "plain (TyArray x l)" and "closed b" and "decides_below rec (size b)"
  shows "decides s [TyArray x l] [b] (unify_arms rec s (TyArray x l) b)"
proof (cases "\<exists>y k. b = TyArray y k")
  case True
  then obtain y where b: "b = TyArray y DynamicLen" and l: "l = DynamicLen"
    using assms(2,3) by (auto simp: closed_parts)
  have "decides s [x] [y] (rec s x y)"
    using assms(1-3) by (intro belowD[OF assms(4)]) (auto simp: b closed_parts)
  then have "decides s [TyArray x l] [b] (rec s x y)"
    by (rule decides_iff[rotated]) (auto simp: b l)
  then show ?thesis
    by (simp add: b l arms_defs len_compatible_def)
next
  case False
  then show ?thesis
    using assms(3) by (cases b) (auto simp: arms_defs closed_def intro: decides_never)
qed

lemma decides_tuple:
  assumes "closed_subst s" and "plain (TyTuple xs)" and "closed b" and "decides_below rec (size b)"
  shows "decides s [TyTuple xs] [b] (unify_arms rec s (TyTuple xs) b)"
proof (cases "\<exists>ys. b = TyTuple ys \<and> length ys = length xs")
  case True
  then obtain ys where b: "b = TyTuple ys" "length xs = length ys"
    by auto
  have "decides s xs ys (unify_pairs rec s (zip xs ys))"
    using assms(1-3) b part_sizes(2)[of _ ys] by (intro decides_pairs belowD[OF assms(4)]) (auto simp: b closed_parts)
  then have "decides s [TyTuple xs] [b] (unify_pairs rec s (zip xs ys))"
    by (rule decides_iff[rotated]) (auto simp: b)
  then show ?thesis
    by (simp add: b arms_defs)
next
  case False
  then show ?thesis
    using assms(2,3) by (cases b) (auto simp: arms_defs closed_def intro!: decides_never)
qed

lemma apply_fields: "apply_map m (TyRecord f1) = TyRecord f2 \<longleftrightarrow> map fst f1 = map fst f2 \<and> map (apply_map m) (map snd f1) = map snd f2"
proof -
  have "map (\<lambda>(n, t). (n, g t)) f1 = f2 \<longleftrightarrow> map fst f1 = map fst f2 \<and> map g (map snd f1) = map snd f2" for g :: "ty \<Rightarrow> ty"
    by (induction f1 f2 rule: list_induct2') auto
  then show ?thesis
    by simp
qed

lemma decides_record:
  assumes "closed_subst s" and "plain (TyRecord f1)" and "closed b" and "decides_below rec (size b)"
  shows "decides s [TyRecord f1] [b] (unify_arms rec s (TyRecord f1) b)"
proof (cases "\<exists>f2. b = TyRecord f2")
  case True
  then obtain f2 where b: "b = TyRecord f2"
    by auto
  have srt: "sort_key fst f1 = f1" "sort_key fst f2 = f2"
    using assms(2,3) by (simp_all add: b closed_parts sort_sorted)
  show ?thesis
  proof (cases "map fst f1 = map fst f2")
    case names: True
    then have len: "length f1 = length f2"
      by (metis length_map)
    have "decides s (map snd f1) (map snd f2) (unify_pairs rec s (zip (map snd f1) (map snd f2)))"
      using assms(1-3) len part_sizes(3)[of _ f2] by (intro decides_pairs belowD[OF assms(4)]) (auto simp: b closed_parts)
    then have "decides s [TyRecord f1] [b] (unify_pairs rec s (zip (map snd f1) (map snd f2)))"
      by (rule decides_iff[rotated]) (simp del: apply_map.simps map_map add: b apply_fields names)
    then show ?thesis
      by (simp add: b len arms_defs unify_record_def Let_def srt names)
  next
    case False
    then have "unify_arms rec s (TyRecord f1) b = mismatch (TyRecord f1) b"
      by (simp add: b arms_defs unify_record_def Let_def srt)
    moreover have "apply_map m (TyRecord f1) \<noteq> b" for m
      unfolding b using False apply_fields by blast
    ultimately show ?thesis
      by (simp del: apply_map.simps add: decides_never)
  qed
next
  case False
  then show ?thesis
    using assms(3) by (cases b) (auto simp: arms_defs closed_def intro: decides_never)
qed

lemma decides_app:
  assumes "closed_subst s" and "plain (TyApp h xs)" and "closed b" and "decides_below rec (size b)"
  shows "decides s [TyApp h xs] [b] (unify_arms rec s (TyApp h xs) b)"
proof (cases "\<exists>g ys. b = TyApp g ys")
  case True
  then obtain g ys where b: "b = TyApp g ys"
    by auto
  have head: "decides s [h] [g] (rec s h g)"
    using assms(1-3) by (intro belowD[OF assms(4)]) (auto simp: b closed_parts)
  show ?thesis
  proof (cases "length xs = length ys")
    case len: True
    have "decides s ([h] @ xs) ([g] @ ys) (ubind (rec s h g) (\<lambda>s. unify_pairs rec s (zip xs ys)))"
      using assms(1-3) len part_sizes(1)[of _ ys g]
      by (intro decides_append[OF head] decides_pairs belowD[OF assms(4)]) (auto simp: b closed_parts)
    then have "decides s [TyApp h xs] [b] (ubind (rec s h g) (\<lambda>s. unify_pairs rec s (zip xs ys)))"
      by (rule decides_iff[rotated]) (auto simp: b)
    then show ?thesis
      by (simp add: b len unify_arms_def)
  next
    case False
    obtain e where "unify_arms rec s (TyApp h xs) b = Some (Inl e)"
      using head False by (auto simp: b unify_arms_def ubind_def decides_def split: option.splits sum.splits)
    moreover have "apply_map m (TyApp h xs) \<noteq> b" for m
      using False by (auto simp: b)
    ultimately show ?thesis
      by (simp del: apply_map.simps add: decides_never)
  qed
next
  case False
  then show ?thesis
    using assms(3) by (cases b) (auto simp: arms_defs closed_def intro: decides_never)
qed

lemma decides_arms:
  assumes "closed_subst s" and "plain u" and "closed b" and "free_vars u \<inter> dom (subst_get s) = {}" and "decides_below rec (size b)"
  shows "decides s [u] [b] (unify_arms rec s u b)"
proof (cases u)
  case (TyVar v)
  then show ?thesis
    using assms decides_var[OF assms(1,3)] by (simp add: arms_var domIff closed_subst_def)
next
  case (TyCon c)
  show ?thesis
    using assms(1,3) by (cases b) (auto simp: TyCon arms_defs closed_def intro: decides_same decides_never)
next
  case (TyExistential c)
  show ?thesis
    using assms(1,3) by (cases b) (auto simp: TyExistential arms_defs closed_def intro: decides_same decides_never)
qed (use assms decides_fun decides_array decides_tuple decides_record decides_app in simp_all)

lemma unify_decides: "decides_below (unify_with n) n"
proof (induction n)
  case (Suc n)
  have "decides s [x] [y] (unify_with (Suc n) s x y)" if s: "closed_subst s" and x: "plain x" and y: "closed y" "size y < Suc n" for s x y
  proof -
    let ?u = "apply_map (subst_get s) x"
    have ok: "subst_ok s"
      using s by (simp add: closed_subst_def)
    have "free_vars ?u \<inter> dom (subst_get s) = {}"
      using free_vars_apply[of "subst_get s" x] s by (auto simp: range_vars_def ran_def closed_subst_def closed_def)
    moreover have "decides_below (unify_with n) (size y)"
      using Suc y(2) by (auto simp: decides_below_def)
    ultimately have "decides s [?u] [y] (unify_arms (unify_with n) s ?u y)"
      using s x y(1) by (intro decides_arms plain_apply) auto
    moreover have "apply_ty s x = ?u" "apply_ty s y = y"
      using ok y(1) by (simp_all add: apply_ty_map apply_closed)
    ultimately have "decides s [?u] [y] (unify_with (Suc n) s x y)"
      by simp
    moreover have "solves s m [?u] [y] \<longleftrightarrow> solves s m [x] [y]" for m
      using apply_twice[OF s, of m x] by (auto simp: solves_def)
    ultimately show ?thesis
      by (auto simp: decides_def split: option.splits sum.splits)
  qed
  then show ?case
    by (simp add: decides_below_def)
qed (simp add: decides_below_def)

text \<open>C10: Against a type without variables, unification is matching, decided exactly. For plain types and a substitution
  into such types, with more rounds than the right side has nodes, \<open>unify_with\<close> returns; when it succeeds, its result
  extends the given substitution, makes the two sides equal, and is contained in every substitution that does so; when
  it reports an error, there is none.
\<close>

theorem unify_decides_matching:
  assumes "closed_subst s" and "plain t1" and "closed t2" and "size t2 < n"
  shows "case unify_with n s t1 t2 of
      None \<Rightarrow> False
    | Some (Inr s') \<Rightarrow> closed_subst s' \<and> subst_get s \<subseteq>\<^sub>m subst_get s' \<and> apply_ty s' t1 = t2
        \<and> (\<forall>m. subst_get s \<subseteq>\<^sub>m m \<and> apply_map m t1 = t2 \<longrightarrow> subst_get s' \<subseteq>\<^sub>m m)
    | Some (Inl e) \<Rightarrow> \<not> (\<exists>m. subst_get s \<subseteq>\<^sub>m m \<and> apply_map m t1 = t2)"
  using belowD[OF unify_decides[of n] assms]
  by (auto simp: decides_def solves_def closed_subst_def apply_ty_map split: option.splits sum.splits)

section \<open>Adopting the result\<close>

definition solution :: "ty_subst \<Rightarrow> (ty \<times> ty) list \<Rightarrow> (ty_var \<rightharpoonup> ty) \<Rightarrow> bool" where
  "solution self ps m \<longleftrightarrow> subst_get self \<subseteq>\<^sub>m m \<and> (\<forall>(t1, t2) \<in> set ps. apply_map m t1 = t2)"

text \<open>With a substitution into closed types, \<open>absorb\<close> adopts the bindings of what unification returned.\<close>

lemma absorb_closed:
  assumes "closed_subst self" and "ts_local self = []" and "unify_with n self t1 t2 = Some (Inr s)" and "closed_subst s" and "subst_get self \<subseteq>\<^sub>m subst_get s"
  shows "closed_subst (subst_absorb True self s) \<and> ts_local (subst_absorb True self s) = [] \<and> subst_get (subst_absorb True self s) = subst_get s"
proof -
  have ok: "subst_ok self"
    using assms(1) by (simp add: closed_subst_def)
  have "tidy t" if t: "t \<in> snd ` set (sd_mappings (ts_data self))" for t
  proof -
    obtain v where "(v, t) \<in> set (subst_iter self)"
      using t assms(2) by (auto simp: iter_no_local)
    then have "subst_get self v = Some t"
      using subst_iter_map[OF ok] by (metis map_of_eq_Some_iff)
    then show ?thesis
      using assms(1) by (auto simp: closed_subst_def closed_def tidy_def)
  qed
  then have a: "subst_ok (subst_absorb True self s)" "ts_local (subst_absorb True self s) = []"
    "subst_get (subst_absorb True self s) = (if ts_local s = [] then subst_get self else comp_map (subst_get s) (subst_get self))"
    using absorb_overlay[OF ok assms(2) _ assms(3)] by simp_all
  have o: "ts_local s = [] \<Longrightarrow> s = self"
    using overlay.unify_with_step[OF assms(3)] ok by (simp add: overlays_def)
  have "comp_map (subst_get s) (subst_get self) v = subst_get s v" for v
    using assms(1,5) by (cases "subst_get self v") (auto simp: comp_map_def closed_subst_def apply_closed map_le_def dom_def)
  then have "subst_get (subst_absorb True self s) = subst_get s"
    using a(3) o by (auto simp: fun_eq_iff)
  then show ?thesis
    using a(1,2) assms(4) by (simp add: closed_subst_def)
qed

lemma checker_unify_decides:
  assumes "closed_subst self" and "ts_local self = []" and "plain t1" and "closed t2" and "size t2 < n"
  shows "case checker_unify n self t1 t2 of
      None \<Rightarrow> False
    | Some (Inl e) \<Rightarrow> \<not> (\<exists>m. solution self [(t1, t2)] m)
    | Some (Inr (self', t)) \<Rightarrow> closed_subst self' \<and> ts_local self' = [] \<and> t = t2 \<and> solution self [(t1, t2)] (subst_get self')
        \<and> (\<forall>m. solution self [(t1, t2)] m \<longrightarrow> subst_get self' \<subseteq>\<^sub>m m)"
proof -
  have d: "decides self [t1] [t2] (unify_with n self t1 t2)"
    by (rule belowD[OF unify_decides assms(1,3-5)])
  have sol: "solution self [(t1, t2)] m \<longleftrightarrow> solves self m [t1] [t2]" for m
    by (simp add: solution_def solves_def)
  show ?thesis
  proof (cases "unify_with n self t1 t2")
    case (Some r)
    show ?thesis
    proof (cases r)
      case (Inr s)
      have s: "closed_subst s" "subst_get self \<subseteq>\<^sub>m subst_get s" "solves self (subst_get s) [t1] [t2]"
        using d Some Inr by (auto simp: decides_def solves_def)
      note a = absorb_closed[OF assms(1,2) _ s(1,2)]
      have "apply_ty (subst_absorb True self s) t1 = t2"
        using a[of n t1 t2] s(3) Some Inr by (simp add: closed_subst_def apply_ty_map solves_def)
      then show ?thesis
        using d a[of n t1 t2] Some Inr by (simp add: checker_unify_def decides_def sol Let_def)
    qed (use d Some in \<open>simp add: checker_unify_def decides_def sol\<close>)
  qed (use d in \<open>simp add: decides_def\<close>)
qed

text \<open>C11: Unification and \<open>absorb\<close> fit together over a run of the checker. With a substitution into closed plain types and no
  overlay, and problems whose left side is plain and whose right side is closed with fewer nodes than there are rounds, solving the
  problems one after the other (\<open>unify_with\<close>, then \<open>absorb\<close>) returns. When every step succeeds, the checker's substitution
  is again one into closed types without an overlay, extends the first one, makes both sides of every problem equal, and is
  contained in every substitution that does so; when a step reports an error, no substitution does.
\<close>

theorem unify_then_absorb:
  assumes "closed_subst self" and "ts_local self = []" and "\<forall>(t1, t2) \<in> set ps. plain t1 \<and> closed t2 \<and> size t2 < n"
  shows "case checker_solve n self ps of
      None \<Rightarrow> False
    | Some (Inl e) \<Rightarrow> \<not> (\<exists>m. solution self ps m)
    | Some (Inr self') \<Rightarrow> closed_subst self' \<and> ts_local self' = [] \<and> solution self ps (subst_get self')
        \<and> (\<forall>m. solution self ps m \<longrightarrow> subst_get self' \<subseteq>\<^sub>m m)"
  using assms
proof (induction ps arbitrary: self)
  case (Cons p ps)
  obtain t1 t2 where p: "p = (t1, t2)"
    by (cases p)
  have d: "case checker_unify n self t1 t2 of
      None \<Rightarrow> False
    | Some (Inl e) \<Rightarrow> \<not> (\<exists>m. solution self [(t1, t2)] m)
    | Some (Inr (self', t)) \<Rightarrow> closed_subst self' \<and> ts_local self' = [] \<and> t = t2 \<and> solution self [(t1, t2)] (subst_get self')
        \<and> (\<forall>m. solution self [(t1, t2)] m \<longrightarrow> subst_get self' \<subseteq>\<^sub>m m)"
    using Cons.prems by (intro checker_unify_decides) (auto simp: p)
  show ?case
  proof (cases "\<exists>self' t. checker_unify n self t1 t2 = Some (Inr (self', t))")
    case True
    then obtain self' t where u: "checker_unify n self t1 t2 = Some (Inr (self', t))"
      by blast
    then have s: "closed_subst self'" "ts_local self' = []" "solution self [(t1, t2)] (subst_get self')"
      "\<And>m. solution self [(t1, t2)] m \<Longrightarrow> subst_get self' \<subseteq>\<^sub>m m"
      using d by auto
    have eq: "apply_map m t1 = t2" if "subst_get self' \<subseteq>\<^sub>m m" for m
    proof -
      have "apply_map m (apply_map (subst_get self') t1) = apply_map m t1"
        by (rule apply_twice[OF s(1) that])
      then show ?thesis
        using s(3) Cons.prems(3) by (simp add: solution_def p apply_closed)
    qed
    have sol: "solution self (p # ps) = solution self' ps"
    proof (intro ext iffI)
      fix m
      assume "solution self (p # ps) m"
      moreover from this have "subst_get self' \<subseteq>\<^sub>m m"
        by (intro s(4)) (simp add: solution_def p)
      ultimately show "solution self' ps m"
        by (simp add: solution_def)
    next
      fix m
      assume "solution self' ps m"
      moreover have "subst_get self \<subseteq>\<^sub>m subst_get self'"
        using s(3) by (simp add: solution_def)
      ultimately show "solution self (p # ps) m"
        using eq[of m] by (auto simp: solution_def p intro: map_le_trans)
    qed
    then show ?thesis
      using Cons.IH[OF s(1,2)] Cons.prems(3) u unfolding sol by (simp add: p)
  next
    case False
    then obtain e where "checker_unify n self t1 t2 = Some (Inl e)" "\<not> (\<exists>m. solution self [(t1, t2)] m)"
      using d by (auto split: option.splits sum.splits)
    then show ?thesis
      by (auto simp: p solution_def)
  qed
qed (auto simp: solution_def)

section \<open>Two runs\<close>

lemmas unify_defs = unify_def unify_arms_def unify_rest_def unify_struct_def ubind_def bind_var_def Let_def


lemma prune_loop_none:
  assumes "t \<in> T" and "\<And>x. x \<in> T \<Longrightarrow> apply_ty s x \<in> T \<and> apply_ty s x \<noteq> x"
  shows "prune_loop s t = None"
proof -
  have "s' = s \<longrightarrow> t \<notin> T" if "prune_loop s' t = Some u" for s' t u
    by (rule prune_loop.raw_induct[of "\<lambda>s' t u. s' = s \<longrightarrow> t \<notin> T", OF _ that]) (use assms(2) in \<open>force simp: Let_def split: if_splits\<close>)
  then show ?thesis
    using assms(1) by (cases "prune_loop s t") auto
qed

inductive_set knot :: "ty set" where
  knot_var: "TyVar 2 \<in> knot"
| knot_app: "t \<in> knot \<Longrightarrow> TyApp (TyCon ''F'') [TyArray t DynamicLen] \<in> knot"

text \<open>C34: A cycle that the occurs check misses, for the same reason: unifying \<open>(t1, t0, t2)\<close> with \<open>(t0, [t2], F<t1>)\<close>
  succeeds and binds \<open>t2\<close> to \<open>F<[t2]>\<close>; from there on \<open>apply_ty_prune\<close> of \<open>t2\<close> never returns.
\<close>

theorem unify_builds_cycle:
  "\<exists>s. unify 2 (TyTuple [TyVar 1, TyVar 0, TyVar 2])
        (TyTuple [TyVar 0, TyArray (TyVar 2) DynamicLen, TyApp (TyCon ''F'') [TyVar 1]]) = Some (Inr s)
    \<and> subst_get s 2 = Some (TyApp (TyCon ''F'') [TyArray (TyVar 2) DynamicLen])
    \<and> apply_ty_prune s (TyVar 2) = None"
proof -
  let ?F = "\<lambda>t. TyApp (TyCon ''F'') [TyArray t DynamicLen]"
  let ?s = "\<lparr>ts_data = sd_empty, ts_local = [(1, TyVar 0), (0, TyArray (TyVar 2) DynamicLen), (2, ?F (TyVar 2))]\<rparr>"
  have "unify 2 (TyTuple [TyVar 1, TyVar 0, TyVar 2])
      (TyTuple [TyVar 0, TyArray (TyVar 2) DynamicLen, TyApp (TyCon ''F'') [TyVar 1]]) = Some (Inr ?s)"
    by (simp add: numeral_2_eq_2 unify_defs subst_empty_def subst_get_def sd_empty_def subst_insert_def ftv_ty_def)
  moreover have get: "subst_get ?s 2 = Some (?F (TyVar 2))"
    by (simp add: subst_get_def)
  moreover have "apply_ty ?s x \<in> knot \<and> apply_ty ?s x \<noteq> x" if "x \<in> knot" for x
    using that get by induction (auto intro: knot.intros)
  then have "prune_loop ?s (apply_ty ?s (TyVar 2)) = None"
    by (intro prune_loop_none[of _ knot]) (auto simp: get intro: knot.intros)
  then have "apply_ty_prune ?s (TyVar 2) = None"
    by (simp add: apply_ty_prune_def)
  ultimately show ?thesis
    by blast
qed

section \<open>Instances\<close>

lemma get_empty: "subst_get subst_empty v = None"
  by (simp add: subst_empty_ok)

lemma closed_empty: "closed_subst subst_empty"
  by (simp add: closed_subst_def subst_empty_ok)

theorem unify_self_witness:
  "unify_with 12 subst_empty (TyForall [1] [Constraint ''Show'' [TyVar 1]] (TySum ''Pair'' [(''Two'', PayloadTuple [TyVar 0, TyVar 1])]))
     (TyForall [1] [Constraint ''Show'' [TyVar 1]] (TySum ''Pair'' [(''Two'', PayloadTuple [TyVar 0, TyVar 1])])) = Some (Inr subst_empty)"
  by (rule unify_self) (simp_all add: subst_empty_ok)

text \<open>The fields of a record are matched in turn; a variable that occurs twice needs the same type twice.\<close>

theorem unify_decides_matching_witness:
  "\<not> (\<exists>m. subst_get subst_empty \<subseteq>\<^sub>m m \<and> apply_map m (TyTuple [TyVar 0, TyVar 0]) = TyTuple [TyCon ''int'', TyCon ''bool''])
   \<and> apply_ty (subst_insert False subst_empty 0 (TyCon ''int'')) (TyTuple [TyVar 0, TyVar 0]) = TyTuple [TyCon ''int'', TyCon ''int'']"
proof
  have u: "unify_with 9 subst_empty (TyTuple [TyVar 0, TyVar 0]) (TyTuple [TyCon ''int'', y])
      = (if y = TyCon ''int'' then Some (Inr (subst_insert False subst_empty 0 (TyCon ''int'')))
         else Some (Inl (Mismatch (TyCon ''int'') y)))" if "y = TyCon ''int'' \<or> y = TyCon ''bool''" for y
    using that by (auto simp: eval_nat_numeral arms_defs ubind_def bind_var_def Let_def ftv_ty_def get_empty sub.put_look subst_empty_ok)
  have "size (TyTuple [TyCon ''int'', y]) < 9" if "y = TyCon ''int'' \<or> y = TyCon ''bool''" for y
    using that by auto
  note m = unify_decides_matching[OF closed_empty _ _ this, of "TyTuple [TyVar 0, TyVar 0]"]
  show "\<not> (\<exists>m. subst_get subst_empty \<subseteq>\<^sub>m m \<and> apply_map m (TyTuple [TyVar 0, TyVar 0]) = TyTuple [TyCon ''int'', TyCon ''bool''])"
    using m[of "TyCon ''bool''"] u[of "TyCon ''bool''"] by (simp add: closed_def del: unify_with.simps)
  show "apply_ty (subst_insert False subst_empty 0 (TyCon ''int'')) (TyTuple [TyVar 0, TyVar 0]) = TyTuple [TyCon ''int'', TyCon ''int'']"
    using m[of "TyCon ''int''"] u[of "TyCon ''int''"] by (simp add: closed_def del: unify_with.simps apply_ty.simps)
qed


theorem unify_then_absorb_witness:
  "case checker_solve 5 subst_empty [(TyFun (TyVar 0) (TyVar 1), TyFun (TyCon ''int'') (TyCon ''bool'')), (TyVar 1, TyCon ''bool'')] of
      Some (Inr self') \<Rightarrow> subst_get self' 0 = Some (TyCon ''int'') \<and> subst_get self' 1 = Some (TyCon ''bool'')
    | _ \<Rightarrow> False"
proof -
  let ?ps = "[(TyFun (TyVar 0) (TyVar 1), TyFun (TyCon ''int'') (TyCon ''bool'')), (TyVar 1, TyCon ''bool'')]"
  have "solution subst_empty ?ps [0 \<mapsto> TyCon ''int'', 1 \<mapsto> TyCon ''bool'']"
    by (simp add: solution_def subst_empty_ok map_le_def)
  then show ?thesis
    using unify_then_absorb[OF closed_empty, of ?ps 5]
    by (auto simp: subst_empty_ok closed_def solution_def subst_empty_def simp del: checker_solve.simps split: option.splits sum.splits)
qed

end
