(* ===== verification/Key_Index.thy ===== *)
theory Key_Index
  imports Coil_Prelude
begin

text \<open>
  The key index natives, after \<^verbatim>\<open>machine/src/key_index.rs\<close>: an insertion-ordered hash index with linear probing over
  three \<open>Vec\<close>s of ints, which hash maps and sets of the standard library are built on. The heap is a store of arrays and
  strings by address; the bytes it accounts for arrays are not part of it. The loop of \<open>place\<close> has no exit of its own
  besides a free cell: it is a partial function, whose value \<open>None\<close> is a loop that never ends.
\<close>

section \<open>The table\<close>

definition EMPTY :: i64 where
  "EMPTY = 0"

definition REMOVED :: i64 where
  "REMOVED = - 1"

definition MIN_CAP :: nat where
  "MIN_CAP = 8"

text \<open>The start of a probe: high bits folded into the low ones, with arithmetic shifts, and masked.\<close>

definition home :: "i64 \<Rightarrow> nat \<Rightarrow> nat" where
  "home h msk = (let h1 = h XOR signed_drop_bit 32 h; h2 = h1 XOR signed_drop_bit 16 h1 in unat h2 AND msk)"

function cap_from :: "nat \<Rightarrow> nat \<Rightarrow> nat" where
  "cap_from n cap = (if cap = 0 then 0 else if (n + 1) * 2 > cap then cap_from n (cap * 2) else cap)"
  by pat_completeness auto
termination
  by (relation "measure (\<lambda>(n, cap). (n + 1) * 2 - cap)") auto

definition cap_for :: "nat \<Rightarrow> nat" where
  "cap_for n = cap_from n MIN_CAP"

fun is_power_of_two :: "nat \<Rightarrow> bool" where
  "is_power_of_two n = (if n \<le> 1 then n = 1 else even n \<and> is_power_of_two (n div 2))"

declare is_power_of_two.simps [simp del] cap_from.simps [simp del]

definition cells :: "u64 list \<Rightarrow> nat option" where
  "cells table = (if table = [] then None else let cap = length table - 1 in if is_power_of_two cap then Some cap else None)"

section \<open>Probing\<close>

fun probe_from :: "u64 list \<Rightarrow> u64 list \<Rightarrow> nat \<Rightarrow> i64 \<Rightarrow> i64 \<Rightarrow> nat \<Rightarrow> nat \<Rightarrow> bool \<Rightarrow> i64" where
  "probe_from table hashes msk h after 0 i past = - 1"
| "probe_from table hashes msk h after (Suc n) i past =
     (let e = table ! i; s = e - 1 in
      if e = EMPTY then - 1
      else if 0 < sint e then
        (if past then (if get hashes (unat s) = Some h then s else probe_from table hashes msk h after n ((i + 1) AND msk) past)
         else probe_from table hashes msk h after n ((i + 1) AND msk) (s = after))
      else probe_from table hashes msk h after n ((i + 1) AND msk) past)"

definition probe :: "u64 list \<Rightarrow> u64 list \<Rightarrow> nat \<Rightarrow> i64 \<Rightarrow> i64 \<Rightarrow> i64" where
  "probe table hashes cap h after = (let msk = cap - 1 in probe_from table hashes msk h after cap (home h msk) (sint after < 0))"

fun find_from :: "u64 list \<Rightarrow> u64 list \<Rightarrow> u64 list \<Rightarrow> nat \<Rightarrow> i64 \<Rightarrow> (u64 \<Rightarrow> bool) \<Rightarrow> nat \<Rightarrow> nat \<Rightarrow> i64" where
  "find_from table hashes keys msk h same 0 i = - 1"
| "find_from table hashes keys msk h same (Suc n) i =
     (let e = table ! i; s = unat (e - 1) in
      if e = EMPTY then - 1
      else if 0 < sint e \<and> get hashes s = Some h \<and> (case get keys s of Some x \<Rightarrow> same x | None \<Rightarrow> False) then of_nat s
      else find_from table hashes keys msk h same n ((i + 1) AND msk))"

partial_function (option) place_loop :: "u64 list \<Rightarrow> nat \<Rightarrow> nat \<Rightarrow> nat \<Rightarrow> (u64 list \<times> bool) option" where
  "place_loop table msk s i =
     (let e = table ! i in
      if e = EMPTY \<or> e = REMOVED then Some (table[i := of_nat s + 1], e = EMPTY)
      else place_loop table msk s ((i + 1) AND msk))"

definition place :: "u64 list \<Rightarrow> nat \<Rightarrow> i64 \<Rightarrow> nat \<Rightarrow> (u64 list \<times> bool) option" where
  "place table cap h s = (let msk = cap - 1 in place_loop table msk s (home h msk))"

fun place_live :: "nat \<Rightarrow> nat \<Rightarrow> (u64 \<times> u64) list \<Rightarrow> u64 list \<Rightarrow> u64 list option" where
  "place_live cap s [] table = Some table"
| "place_live cap s ((h, l) # rest) table =
     (if l \<noteq> 0 then (case place table cap h s of None \<Rightarrow> None | Some (table', _) \<Rightarrow> place_live cap (Suc s) rest table')
      else place_live cap (Suc s) rest table)"

definition rebuild :: "u64 list \<Rightarrow> u64 list \<Rightarrow> nat \<Rightarrow> u64 list option" where
  "rebuild hashes live extra =
     (let n = length (filter (\<lambda>l. l \<noteq> 0) live); cap = cap_for (n + extra) in
      map_option (\<lambda>table. table[cap := of_nat n]) (place_live cap 0 (zip hashes live) (replicate (cap + 1) EMPTY)))"

section \<open>The natives\<close>

datatype vec_data = VecWords "u64 list" | VecBytes "u8 list"

record key_heap =
  kh_arrays :: "u64 \<rightharpoonup> vec_data"
  kh_strings :: "u64 \<rightharpoonup> u8 list"

definition ki_words :: "key_heap \<Rightarrow> u64 \<Rightarrow> u64 list option" where
  "ki_words hp v = (case kh_arrays hp v of Some (VecWords ws) \<Rightarrow> Some ws | _ \<Rightarrow> None)"

definition set_words :: "key_heap \<Rightarrow> u64 \<Rightarrow> u64 list \<Rightarrow> key_heap" where
  "set_words hp v ws = hp\<lparr>kh_arrays := (kh_arrays hp)(v \<mapsto> VecWords ws)\<rparr>"

definition ki_arg :: "u64 list \<Rightarrow> nat \<Rightarrow> u64" where
  "ki_arg args i = (case get args i of Some v \<Rightarrow> v | None \<Rightarrow> 0)"

text \<open>\<open>addr\<close> is where the heap puts the new array.\<close>

definition host_table :: "key_heap \<Rightarrow> u64 \<Rightarrow> u64 list \<Rightarrow> key_heap \<times> u64" where
  "host_table hp addr args =
     (let n = nat (max 0 (min (sint (ki_arg args 0)) (2 ^ 28))); cap = cap_for n in
      (set_words hp addr ((replicate (cap + 1) EMPTY)[cap := 0]), addr))"

definition host_probe :: "key_heap \<Rightarrow> u64 list \<Rightarrow> u64" where
  "host_probe hp args = (case (ki_words hp (ki_arg args 0), ki_words hp (ki_arg args 1)) of
     (Some table, Some hashes) \<Rightarrow> (case cells table of None \<Rightarrow> - 1 | Some cap \<Rightarrow> probe table hashes cap (ki_arg args 2) (ki_arg args 3))
   | _ \<Rightarrow> - 1)"

definition KEY_EQ_WORD :: i64 where
  "KEY_EQ_WORD = 1"

definition KEY_EQ_STRING :: i64 where
  "KEY_EQ_STRING = 2"

definition string_eq :: "key_heap \<Rightarrow> u64 \<Rightarrow> u64 \<Rightarrow> bool" where
  "string_eq hp a b = (case (kh_strings hp a, kh_strings hp b) of (Some x, Some y) \<Rightarrow> x = y | _ \<Rightarrow> False)"

definition same_key :: "key_heap \<Rightarrow> i64 \<Rightarrow> u64 \<Rightarrow> u64 \<Rightarrow> bool" where
  "same_key hp mode k x =
     (if mode = KEY_EQ_WORD then x = k else if mode = KEY_EQ_STRING then x = k \<or> string_eq hp x k else False)"

definition host_find :: "key_heap \<Rightarrow> u64 list \<Rightarrow> u64" where
  "host_find hp args = (case (ki_words hp (ki_arg args 0), ki_words hp (ki_arg args 1), ki_words hp (ki_arg args 2)) of
     (Some table, Some hashes, Some keys) \<Rightarrow> (case cells table of
         None \<Rightarrow> - 1
       | Some cap \<Rightarrow>
           (let h = ki_arg args 3; msk = cap - 1 in
            find_from table hashes keys msk h (same_key hp (ki_arg args 5) (ki_arg args 4)) cap (home h msk)))
   | _ \<Rightarrow> - 1)"

definition KEY_EQ_COIL :: i64 where
  "KEY_EQ_COIL = 0"

definition host_eq_mode :: "key_heap \<Rightarrow> u64 list \<Rightarrow> u64" where
  "host_eq_mode hp args = KEY_EQ_COIL"

definition insert_slot :: "u64 list \<Rightarrow> nat \<Rightarrow> u64 list \<Rightarrow> u64 list \<Rightarrow> i64 \<Rightarrow> u64 list option" where
  "insert_slot table cap hashes live h =
     (let s = length hashes; occupied = nat (max (sint (table ! cap)) 0); full = (occupied + 1) * 2 mod 2 ^ 64 > cap in
      case (if full then rebuild hashes live 1 else Some table) of
        None \<Rightarrow> None
      | Some table1 \<Rightarrow>
          (let cap1 = (if full then length table1 - 1 else cap) in
           case place table1 cap1 h s of
             None \<Rightarrow> None
           | Some (table2, took) \<Rightarrow> Some (if took then table2[cap1 := table2 ! cap1 + 1] else table2)))"

definition host_insert :: "key_heap \<Rightarrow> u64 list \<Rightarrow> (key_heap \<times> u64) option" where
  "host_insert hp args =
     (let t = ki_arg args 0; hs = ki_arg args 1; lv = ki_arg args 2 in
      if t = hs \<or> t = lv \<or> hs = lv then Some (hp, - 1)
      else case (ki_words hp t, ki_words hp hs, ki_words hp lv) of
        (Some table, Some hashes, Some live) \<Rightarrow> (case cells table of
            None \<Rightarrow> Some (hp, - 1)
          | Some cap \<Rightarrow>
              if length hashes \<noteq> length live then Some (hp, - 1)
              else (case insert_slot table cap hashes live (ki_arg args 3) of
                None \<Rightarrow> None
              | Some table' \<Rightarrow> Some (set_words (set_words (set_words hp t table') hs (hashes @ [ki_arg args 3])) lv (live @ [1]), of_nat (length hashes))))
      | _ \<Rightarrow> Some (hp, - 1))"

fun remove_from :: "u64 list \<Rightarrow> nat \<Rightarrow> nat \<Rightarrow> nat \<Rightarrow> nat \<Rightarrow> nat option" where
  "remove_from table msk s 0 i = None"
| "remove_from table msk s (Suc n) i =
     (let e = table ! i in
      if e = EMPTY then None else if e = of_nat s + 1 then Some i else remove_from table msk s n ((i + 1) AND msk))"

definition host_remove :: "key_heap \<Rightarrow> u64 list \<Rightarrow> key_heap \<times> bool" where
  "host_remove hp args =
     (let t = ki_arg args 0; hs = ki_arg args 1; lv = ki_arg args 2 in
      if t = lv then (hp, False)
      else case (ki_words hp t, ki_words hp hs, ki_words hp lv) of
        (Some table, Some hashes, Some live) \<Rightarrow> (case cells table of
            None \<Rightarrow> (hp, False)
          | Some cap \<Rightarrow>
              if sint (ki_arg args 3) < 0 then (hp, False)
              else let s = unat (ki_arg args 3) in
                if (case get live s of None \<Rightarrow> True | Some l \<Rightarrow> l = 0) \<or> s \<ge> length hashes then (hp, False)
                else (case remove_from table (cap - 1) s cap (home (hashes ! s) (cap - 1)) of
                  None \<Rightarrow> (hp, False)
                | Some i \<Rightarrow> (set_words (set_words hp t (table[i := REMOVED])) lv (live[s := 0]), True)))
      | _ \<Rightarrow> (hp, False))"

definition retain_live :: "'a list \<Rightarrow> u64 list \<Rightarrow> 'a list" where
  "retain_live xs live = map snd (filter (\<lambda>(l, _). l \<noteq> 0) (zip live xs))"

definition host_retain :: "key_heap \<Rightarrow> u64 list \<Rightarrow> key_heap \<times> u64" where
  "host_retain hp args =
     (let v = ki_arg args 0; lv = ki_arg args 1 in
      if v = lv then (hp, - 1)
      else case (ki_words hp lv, kh_arrays hp v) of
        (Some live, Some (VecWords ws)) \<Rightarrow>
          if length ws \<noteq> length live then (hp, - 1)
          else (set_words hp v (retain_live ws live), of_nat (length (retain_live ws live)))
      | (Some live, Some (VecBytes bs)) \<Rightarrow>
          if length bs \<noteq> length live then (hp, - 1)
          else (hp\<lparr>kh_arrays := (kh_arrays hp)(v \<mapsto> VecBytes (retain_live bs live))\<rparr>, of_nat (length (retain_live bs live)))
      | _ \<Rightarrow> (hp, - 1))"

definition host_compact :: "key_heap \<Rightarrow> u64 list \<Rightarrow> (key_heap \<times> u64) option" where
  "host_compact hp args =
     (let t = ki_arg args 0; hs = ki_arg args 1; lv = ki_arg args 2 in
      if t = hs \<or> t = lv \<or> hs = lv then Some (hp, - 1)
      else case (ki_words hp t, ki_words hp hs, ki_words hp lv) of
        (Some table, Some hashes, Some live) \<Rightarrow>
          if cells table = None \<or> length hashes \<noteq> length live then Some (hp, - 1)
          else let hashes' = retain_live hashes live; live' = replicate (length hashes') 1 in
            (case rebuild hashes' live' 0 of
              None \<Rightarrow> None
            | Some table' \<Rightarrow> Some (set_words (set_words (set_words hp t table') hs hashes') lv live', of_nat (length hashes')))
      | _ \<Rightarrow> Some (hp, - 1))"

definition clear_array :: "key_heap \<Rightarrow> u64 \<Rightarrow> key_heap" where
  "clear_array hp v = (case kh_arrays hp v of
     None \<Rightarrow> hp
   | Some (VecWords _) \<Rightarrow> hp\<lparr>kh_arrays := (kh_arrays hp)(v \<mapsto> VecWords [])\<rparr>
   | Some (VecBytes _) \<Rightarrow> hp\<lparr>kh_arrays := (kh_arrays hp)(v \<mapsto> VecBytes [])\<rparr>)"

definition host_clear :: "key_heap \<Rightarrow> u64 list \<Rightarrow> key_heap" where
  "host_clear hp args =
     (let t = ki_arg args 0; hs = ki_arg args 1; lv = ki_arg args 2;
          hp1 = (case ki_words hp t of
              Some table \<Rightarrow> if cells table \<noteq> None then set_words hp t (replicate (length table) EMPTY) else hp
            | None \<Rightarrow> hp);
          hp2 = (if hs \<noteq> t then clear_array hp1 hs else hp1) in
      if lv \<noteq> t then clear_array hp2 lv else hp2)"

section \<open>Sizes\<close>

lemma power_of_two_iff: "is_power_of_two n \<longleftrightarrow> (\<exists>k. n = 2 ^ k)"
proof (induction n rule: is_power_of_two.induct)
  case (1 n)
  show ?case
  proof (cases "n \<le> 1")
    case True
    have "(\<exists>k. n = 2 ^ k) \<longleftrightarrow> n = 1"
      using True by (metis One_nat_def le_antisym nat_one_le_power numeral_2_eq_2 power_0 lessI less_imp_le one_le_numeral one_le_power)
    then show ?thesis
      using True by (subst is_power_of_two.simps) simp
  next
    case False
    have "(\<exists>k. n = 2 ^ k) \<longleftrightarrow> even n \<and> (\<exists>k. n div 2 = 2 ^ k)"
    proof
      assume "\<exists>k. n = 2 ^ k"
      then obtain k where k: "n = 2 ^ k"
        by blast
      then obtain j where "k = Suc j"
        using False by (cases k) auto
      then show "even n \<and> (\<exists>k. n div 2 = 2 ^ k)"
        using k by auto
    next
      assume "even n \<and> (\<exists>k. n div 2 = 2 ^ k)"
      then obtain k where "even n" "n div 2 = 2 ^ k"
        by blast
      then have "n = 2 ^ Suc k"
        by (metis dvd_mult_div_cancel power_Suc)
      then show "\<exists>k. n = 2 ^ k"
        by blast
    qed
    then show ?thesis
      using False 1 by (subst is_power_of_two.simps) simp
  qed
qed

lemma cap_from_ok: "0 < cap \<Longrightarrow> is_power_of_two cap \<Longrightarrow> is_power_of_two (cap_from n cap) \<and> (n + 1) * 2 \<le> cap_from n cap"
proof (induction n cap rule: cap_from.induct)
  case (1 n cap)
  have "is_power_of_two (cap * 2)"
    using 1(3) by (metis power_of_two_iff power_Suc2)
  then show ?case
    using 1 by (subst (1 2) cap_from.simps) auto
qed

lemma cap_for_ok: "is_power_of_two (cap_for n)" "(n + 1) * 2 \<le> cap_for n"
proof -
  have "is_power_of_two MIN_CAP"
    unfolding power_of_two_iff MIN_CAP_def by (rule exI[of _ 3]) simp
  then show "is_power_of_two (cap_for n)" "(n + 1) * 2 \<le> cap_for n"
    using cap_from_ok[of MIN_CAP n] by (simp_all add: cap_for_def MIN_CAP_def)
qed

lemma mask_mod:
  assumes "is_power_of_two cap"
  shows "n AND (cap - 1) = n mod cap"
proof -
  obtain k where "cap = 2 ^ k"
    using assms power_of_two_iff by blast
  then show ?thesis
    using take_bit_eq_mask[of k n] by (simp add: take_bit_eq_mod mask_eq_exp_minus_1)
qed

lemma home_less: "is_power_of_two cap \<Longrightarrow> home h (cap - 1) < cap"
  using power_of_two_iff[of cap] by (simp only: home_def Let_def mask_mod) auto

section \<open>The invariant\<close>

text \<open>
  The cell \<open>j\<close> steps after \<open>i\<close>, and the contents of the table for the slots \<open>S\<close>: each cell is free or names a slot of
  \<open>S\<close>, no two name the same, and from the home of its hash each slot is reached before an empty cell.
\<close>

definition cell_at :: "u64 list \<Rightarrow> nat \<Rightarrow> nat \<Rightarrow> nat \<Rightarrow> u64" where
  "cell_at table cap i j = table ! ((i + j) mod cap)"

definition slot_cell :: "nat \<Rightarrow> u64" where
  "slot_cell s = of_nat s + 1"

definition reached :: "u64 list \<Rightarrow> nat \<Rightarrow> i64 \<Rightarrow> nat \<Rightarrow> bool" where
  "reached table cap h s \<longleftrightarrow> (\<exists>j < cap. cell_at table cap (home h (cap - 1)) j = slot_cell s
     \<and> (\<forall>i < j. cell_at table cap (home h (cap - 1)) i \<noteq> EMPTY))"

definition holds_slots :: "u64 list \<Rightarrow> nat \<Rightarrow> u64 list \<Rightarrow> nat set \<Rightarrow> bool" where
  "holds_slots table cap hashes S \<longleftrightarrow> is_power_of_two cap \<and> length table = cap + 1 \<and> length hashes < 2 ^ 62 \<and> S \<subseteq> {..<length hashes}
     \<and> (\<forall>i < cap. table ! i = EMPTY \<or> table ! i = REMOVED \<or> (\<exists>s \<in> S. table ! i = slot_cell s))
     \<and> (\<forall>i < cap. \<forall>j < cap. 0 < sint (table ! i) \<longrightarrow> table ! i = table ! j \<longrightarrow> i = j)
     \<and> (\<forall>s \<in> S. reached table cap (hashes ! s) s)"

definition live_slots :: "u64 list \<Rightarrow> nat set" where
  "live_slots live = {s. s < length live \<and> live ! s \<noteq> 0}"

definition occupied_cells :: "u64 list \<Rightarrow> nat \<Rightarrow> nat" where
  "occupied_cells table cap = card {i. i < cap \<and> table ! i \<noteq> EMPTY}"

definition ki_ok :: "u64 list \<Rightarrow> u64 list \<Rightarrow> u64 list \<Rightarrow> bool" where
  "ki_ok table hashes live \<longleftrightarrow> (let cap = length table - 1 in
     holds_slots table cap hashes (live_slots live) \<and> length live = length hashes
     \<and> occupied_cells table cap * 2 \<le> cap \<and> occupied_cells table cap \<le> length hashes \<and> sint (table ! cap) = int (occupied_cells table cap))"

lemma slot_cell_int: "s < 2 ^ 62 \<Longrightarrow> sint (slot_cell s) = int s + 1"
proof -
  assume s: "s < 2 ^ 62"
  have "sint (word_of_int (int s + 1) :: u64) = signed_take_bit (LENGTH(64) - 1) (int s + 1)"
    by (rule sint_sbintrunc')
  also have "\<dots> = int s + 1"
    using s by (intro signed_take_bit_int_eq_self) simp_all
  finally show ?thesis
    by (simp add: slot_cell_def)
qed

lemma slot_cell_facts:
  assumes "s < 2 ^ 62"
  shows "slot_cell s \<noteq> EMPTY" "slot_cell s \<noteq> REMOVED" "0 < sint (slot_cell s)" "unat (slot_cell s - 1) = s" "slot_cell s - 1 = of_nat s"
    "s' < 2 ^ 62 \<Longrightarrow> slot_cell s = slot_cell s' \<longleftrightarrow> s = s'"
proof -
  show pos: "0 < sint (slot_cell s)"
    by (simp add: slot_cell_int[OF assms])
  have "sint EMPTY = 0" "sint REMOVED = - 1"
    by (simp_all add: EMPTY_def REMOVED_def)
  then show "slot_cell s \<noteq> EMPTY" "slot_cell s \<noteq> REMOVED"
    using pos by auto
  show "slot_cell s - 1 = of_nat s"
    by (simp add: slot_cell_def)
  then show "unat (slot_cell s - 1) = s"
    using assms by (simp add: unat_of_nat)
  show "s' < 2 ^ 62 \<Longrightarrow> slot_cell s = slot_cell s' \<longleftrightarrow> s = s'"
    using slot_cell_int[OF assms] slot_cell_int[of s'] by (metis add_right_cancel nat_int)
qed

section \<open>Placing a slot\<close>

abbreviation free_cell :: "u64 \<Rightarrow> bool" where
  "free_cell e \<equiv> e = EMPTY \<or> e = REMOVED"

lemma cell_at_0: "i < cap \<Longrightarrow> cell_at table cap i 0 = table ! i"
  by (simp add: cell_at_def)

lemma cell_at_Suc: "cell_at table cap ((i + 1) mod cap) j = cell_at table cap i (Suc j)"
  by (simp add: cell_at_def mod_simps)

lemma place_loop_eq:
  assumes "is_power_of_two cap" and "i < cap" and "free_cell (cell_at table cap i d)" and "\<And>j. j < d \<Longrightarrow> \<not> free_cell (cell_at table cap i j)"
  shows "place_loop table (cap - 1) s i = Some (table[(i + d) mod cap := slot_cell s], cell_at table cap i d = EMPTY)"
  using assms(2-4)
proof (induction d arbitrary: i)
  case 0
  then show ?case
    by (subst place_loop.simps) (auto simp: cell_at_0 slot_cell_def Let_def)
next
  case (Suc d)
  let ?i = "(i + 1) mod cap"
  have "\<not> free_cell (table ! i)"
    using Suc.prems(1) Suc.prems(3)[of 0] by (simp add: cell_at_0)
  then have "place_loop table (cap - 1) s i = place_loop table (cap - 1) s ?i"
    using mask_mod[OF assms(1), of "i + 1"] by (subst place_loop.simps) (simp add: Let_def)
  also have "\<dots> = Some (table[(?i + d) mod cap := slot_cell s], cell_at table cap ?i d = EMPTY)"
    using Suc.prems by (intro Suc.IH) (auto simp: cell_at_Suc[simplified])
  finally show ?case
    by (simp add: cell_at_Suc[simplified] mod_simps)
qed

lemma cell_at_update: "p < length table \<Longrightarrow> cell_at (table[p := v]) cap i j = (if (i + j) mod cap = p then v else cell_at table cap i j)"
  by (auto simp: cell_at_def)

lemma reached_update:
  assumes "reached table cap h s" and "slot_cell s \<noteq> table ! p" and p: "p < length table" and "v \<noteq> EMPTY"
  shows "reached (table[p := v]) cap h s"
proof -
  obtain j where j: "j < cap" "cell_at table cap (home h (cap - 1)) j = slot_cell s" "\<forall>i < j. cell_at table cap (home h (cap - 1)) i \<noteq> EMPTY"
    using assms(1) by (auto simp: reached_def)
  have "(home h (cap - 1) + j) mod cap \<noteq> p"
    using j(2) assms(2) by (auto simp: cell_at_def)
  then show ?thesis
    using j assms(4) by (auto simp: reached_def cell_at_update[OF p] intro!: exI[of _ j])
qed

text \<open>Going round the table from any cell reaches every cell.\<close>

lemma round_trip: "i < cap \<Longrightarrow> p < cap \<Longrightarrow> \<exists>d < cap. (i + d) mod cap = (p :: nat)"
proof -
  assume "i < cap" "p < cap"
  then have "(i + (p + cap - i) mod cap) mod cap = p" "(p + cap - i) mod cap < cap"
    by (simp_all add: mod_simps)
  then show ?thesis
    by blast
qed

lemma some_empty:
  assumes "occupied_cells table cap < cap"
  shows "\<exists>p < cap. table ! p = EMPTY"
proof (rule ccontr)
  assume "\<not> ?thesis"
  then have "{i. i < cap \<and> table ! i \<noteq> EMPTY} = {..<cap}"
    by auto
  then show False
    using assms by (simp add: occupied_cells_def)
qed

lemma occupied_update:
  assumes "p < cap" and "cap < length table" and "v \<noteq> EMPTY"
  shows "occupied_cells (table[p := v]) cap = occupied_cells table cap + (if table ! p = EMPTY then 1 else 0)"
proof -
  have "{i. i < cap \<and> table[p := v] ! i \<noteq> EMPTY} = insert p {i. i < cap \<and> table ! i \<noteq> EMPTY}"
    using assms by (auto simp: nth_list_update)
  then show ?thesis
    using assms(1) by (simp add: occupied_cells_def insert_absorb card_insert_if)
qed

lemma place_at_free:
  assumes "is_power_of_two cap" and "free_cell (cell_at table cap (home h (cap - 1)) d0)"
  shows "\<exists>d \<le> d0. free_cell (cell_at table cap (home h (cap - 1)) d) \<and> (\<forall>j < d. \<not> free_cell (cell_at table cap (home h (cap - 1)) j))
    \<and> place table cap h s = Some (table[(home h (cap - 1) + d) mod cap := slot_cell s], cell_at table cap (home h (cap - 1)) d = EMPTY)"
proof -
  let ?i = "home h (cap - 1)" and ?free = "\<lambda>d. free_cell (cell_at table cap (home h (cap - 1)) d)"
  define d where "d = (LEAST d. ?free d)"
  have d: "\<not> ?free j" if "j < d" for j
    using not_less_Least[of j ?free] that[unfolded d_def] by blast
  have fd: "?free d"
    unfolding d_def by (rule LeastI[of ?free, OF assms(2)])
  have "d \<le> d0"
    unfolding d_def by (rule Least_le[of ?free, OF assms(2)])
  moreover have "place table cap h s = Some (table[(?i + d) mod cap := slot_cell s], cell_at table cap ?i d = EMPTY)"
    unfolding place_def Let_def by (rule place_loop_eq[OF assms(1) home_less[OF assms(1)] fd d])
  ultimately show ?thesis
    using fd d by blast
qed

lemma place_at:
  assumes "is_power_of_two cap" and "occupied_cells table cap < cap"
  obtains d where "d < cap" and "free_cell (cell_at table cap (home h (cap - 1)) d)" and "\<And>j. j < d \<Longrightarrow> \<not> free_cell (cell_at table cap (home h (cap - 1)) j)"
    and "place table cap h s = Some (table[(home h (cap - 1) + d) mod cap := slot_cell s], cell_at table cap (home h (cap - 1)) d = EMPTY)"
proof -
  obtain p where "p < cap" "table ! p = EMPTY"
    using some_empty[OF assms(2)] by blast
  then obtain d0 where "d0 < cap" "free_cell (cell_at table cap (home h (cap - 1)) d0)"
    using round_trip[OF home_less[OF assms(1), of h]] by (metis cell_at_def)
  then show thesis
    using place_at_free[OF assms(1), of table h d0 s] that by (meson le_less_trans)
qed

definition no_removed :: "u64 list \<Rightarrow> nat \<Rightarrow> bool" where
  "no_removed table cap \<longleftrightarrow> (\<forall>i < cap. table ! i \<noteq> REMOVED)"

lemma place_ok:
  assumes "holds_slots table cap hashes S" and "s < length hashes" and "s \<notin> S" and "occupied_cells table cap < cap"
  obtains table' took where "place table cap (hashes ! s) s = Some (table', took)" and "holds_slots table' cap hashes (insert s S)"
    and "table' ! cap = table ! cap" and "occupied_cells table' cap = occupied_cells table cap + (if took then 1 else 0)"
    and "no_removed table cap \<Longrightarrow> took \<and> no_removed table' cap"
proof -
  let ?i = "home (hashes ! s) (cap - 1)"
  have cap: "is_power_of_two cap" and len: "length table = cap + 1" and big: "length hashes < 2 ^ 62" and S: "S \<subseteq> {..<length hashes}"
    and names: "\<And>i. i < cap \<Longrightarrow> free_cell (table ! i) \<or> (\<exists>s \<in> S. table ! i = slot_cell s)"
    and uniq: "\<And>i j. i < cap \<Longrightarrow> j < cap \<Longrightarrow> 0 < sint (table ! i) \<Longrightarrow> table ! i = table ! j \<Longrightarrow> i = j"
    and reach: "\<And>s. s \<in> S \<Longrightarrow> reached table cap (hashes ! s) s"
    using assms(1) unfolding holds_slots_def by blast+
  have small: "s' < 2 ^ 62" if "s' \<in> insert s S" for s'
    using that S big assms(2) by auto
  obtain d where d: "d < cap" "free_cell (cell_at table cap ?i d)" "\<And>j. j < d \<Longrightarrow> \<not> free_cell (cell_at table cap ?i j)"
    and pl: "place table cap (hashes ! s) s = Some (table[(?i + d) mod cap := slot_cell s], cell_at table cap ?i d = EMPTY)"
    using place_at[OF cap assms(4)] by blast
  define p where "p = (?i + d) mod cap"
  let ?t = "table[p := slot_cell s]"
  have pc: "p < cap"
    using d(1) by (simp add: p_def)
  have pt: "cell_at table cap ?i d = table ! p"
    by (simp add: cell_at_def p_def)
  then have p: "p < cap" "p < length table" "free_cell (table ! p)" "cell_at table cap ?i d = table ! p"
    using pc d(2) len by simp_all
  have other: "slot_cell s' \<noteq> slot_cell s" "slot_cell s' \<noteq> table ! p" if "s' \<in> S" for s'
    using that small[of s'] small[of s] slot_cell_facts[of s'] assms(3) p(3) by auto
  have "reached ?t cap (hashes ! s') s'" if s': "s' \<in> S" for s'
    using reached_update[OF reach[OF s'] other(2)[OF s'] p(2)] slot_cell_facts(1)[of s] small[of s] by simp
  moreover have "reached ?t cap (hashes ! s) s"
    unfolding reached_def using d slot_cell_facts(1)[of s] small[of s] p_def[symmetric]
    by (intro exI[of _ d]) (auto simp: cell_at_update[OF p(2)])
  moreover have "free_cell (?t ! i) \<or> (\<exists>s \<in> insert s S. ?t ! i = slot_cell s)" if "i < cap" for i
    using names[OF that] p(2) by (cases "i = p") auto
  moreover have "i = j" if ij: "i < cap" "j < cap" "0 < sint (?t ! i)" "?t ! i = ?t ! j" for i j
  proof -
    have p_only: "table ! i \<noteq> slot_cell s" if "i < cap" for i
      using names[OF that] other(1) slot_cell_facts(1,2)[of s] small[of s] by fastforce
    show ?thesis
    proof (cases "i = p \<or> j = p")
      case True
      then show ?thesis
        using ij(4) p(2) p_only[OF ij(1)] p_only[OF ij(2)] by (metis nth_list_update_eq nth_list_update_neq)
    next
      case False
      then show ?thesis
        using ij uniq[of i j] by simp
    qed
  qed
  ultimately have "holds_slots ?t cap hashes (insert s S)"
    using cap len big S assms(2) unfolding holds_slots_def by auto
  moreover have "occupied_cells ?t cap = occupied_cells table cap + (if table ! p = EMPTY then 1 else 0)"
    using p(1) len slot_cell_facts(1)[of s] small[of s] by (intro occupied_update) auto
  moreover have "table ! p = EMPTY \<and> no_removed ?t cap" if "no_removed table cap"
    using that p slot_cell_facts(2)[of s] small[of s] by (auto simp: no_removed_def nth_list_update)
  moreover have "place table cap (hashes ! s) s = Some (?t, table ! p = EMPTY)"
    unfolding pl p(4) p_def ..
  ultimately show thesis
    using that[of ?t "table ! p = EMPTY"] p(1) by simp
qed

section \<open>Rebuilding\<close>

lemma holds_nothing: "length hashes < 2 ^ 62 \<Longrightarrow> is_power_of_two cap \<Longrightarrow> holds_slots (replicate (cap + 1) EMPTY) cap hashes {}"
  unfolding holds_slots_def by (auto simp: EMPTY_def simp del: replicate.simps)

lemma empty_table: "occupied_cells (replicate (cap + 1) EMPTY) cap = 0" "no_removed (replicate (cap + 1) EMPTY) cap"
  by (auto simp: occupied_cells_def no_removed_def EMPTY_def REMOVED_def simp del: replicate.simps)

lemma fresh_ok: "is_power_of_two cap \<Longrightarrow> ki_ok (replicate (cap + 1) EMPTY) [] []"
  using holds_nothing[of "[]" cap] empty_table(1)[of cap]
  by (simp add: ki_ok_def live_slots_def EMPTY_def del: replicate.simps)

text \<open>The entries from slot \<open>s\<close> on are put into a table with room for all of them.\<close>

lemma place_live_ok:
  assumes "holds_slots table cap hashes (live_slots live \<inter> {..<s})" and "length live = length hashes" and "s \<le> length live"
    and "occupied_cells table cap + card (live_slots live \<inter> {s..}) < cap" and "no_removed table cap"
  shows "\<exists>table'. place_live cap s (drop s (zip hashes live)) table = Some table' \<and> holds_slots table' cap hashes (live_slots live)
    \<and> table' ! cap = table ! cap \<and> occupied_cells table' cap = occupied_cells table cap + card (live_slots live \<inter> {s..})"
  using assms
proof (induction "length live - s" arbitrary: s table)
  case 0
  then have "live_slots live \<inter> {..<s} = live_slots live" "live_slots live \<inter> {s..} = {}" "drop s (zip hashes live) = []"
    by (auto simp: live_slots_def)
  then show ?case
    using 0 by simp
next
  case (Suc n)
  have s: "s < length live" "s < length hashes"
    using Suc(2,4) by auto
  have dr: "drop s (zip hashes live) = (hashes ! s, live ! s) # drop (Suc s) (zip hashes live)"
    using s by (subst Cons_nth_drop_Suc[symmetric]) simp_all
  have fin: "finite (live_slots live \<inter> {s..})"
    by (rule finite_subset[of _ "{..<length live}"]) (auto simp: live_slots_def)
  show ?case
  proof (cases "live ! s = 0")
    case True
    then have e: "live_slots live \<inter> {..<Suc s} = live_slots live \<inter> {..<s}" "live_slots live \<inter> {Suc s..} = live_slots live \<inter> {s..}"
      by (auto simp: live_slots_def less_Suc_eq le_less Suc_le_eq)
    have "\<exists>table'. place_live cap (Suc s) (drop (Suc s) (zip hashes live)) table = Some table' \<and> holds_slots table' cap hashes (live_slots live)
        \<and> table' ! cap = table ! cap \<and> occupied_cells table' cap = occupied_cells table cap + card (live_slots live \<inter> {Suc s..})"
      using Suc(2-) s by (intro Suc(1)) (auto simp: e)
    then show ?thesis
      using True by (simp add: dr e)
  next
    case False
    then have e: "insert s (live_slots live \<inter> {..<s}) = live_slots live \<inter> {..<Suc s}" "live_slots live \<inter> {s..} = insert s (live_slots live \<inter> {Suc s..})"
      using s by (auto simp: live_slots_def less_Suc_eq le_less Suc_le_eq)
    have c: "card (live_slots live \<inter> {s..}) = Suc (card (live_slots live \<inter> {Suc s..}))"
      using fin unfolding e(2) by (subst card_insert_disjoint) auto
    obtain t took where t: "place table cap (hashes ! s) s = Some (t, took)" "holds_slots t cap hashes (insert s (live_slots live \<inter> {..<s}))"
      "t ! cap = table ! cap" "occupied_cells t cap = occupied_cells table cap + 1" "no_removed t cap"
      by (rule place_ok[OF Suc(3) s(2)]) (use Suc(6,7) in auto)
    have "\<exists>table'. place_live cap (Suc s) (drop (Suc s) (zip hashes live)) t = Some table' \<and> holds_slots table' cap hashes (live_slots live)
        \<and> table' ! cap = t ! cap \<and> occupied_cells table' cap = occupied_cells t cap + card (live_slots live \<inter> {Suc s..})"
      using Suc(2,4-) s t(2,4,5) c by (intro Suc(1)) (auto simp: e(1))
    then show ?thesis
      using False t c by (auto simp: dr)
  qed
qed

lemma count_live: "length (filter (\<lambda>l. l \<noteq> 0) live) = card (live_slots live)"
  by (simp add: length_filter_conv_card live_slots_def)

lemma count_live_le: "card (live_slots live) \<le> length live"
  unfolding count_live[symmetric] by simp

lemma holds_slots_count: "holds_slots (table[cap := v]) cap hashes S \<longleftrightarrow> holds_slots table cap hashes S"
proof -
  have "0 < cap" if "is_power_of_two cap"
    using that power_of_two_iff[of cap] by auto
  then have "reached (table[cap := v]) cap h s \<longleftrightarrow> reached table cap h s" if "is_power_of_two cap" for h s
    using that by (simp add: reached_def cell_at_def mod_less_divisor[THEN less_imp_neq, THEN not_sym] cong: conj_cong)
  then show ?thesis
    by (auto simp: holds_slots_def)
qed

lemma occupied_count [simp]: "occupied_cells (table[cap := v]) cap = occupied_cells table cap"
  by (auto simp: occupied_cells_def intro: arg_cong[of _ _ card])

lemma small_count: "n < 2 ^ 63 \<Longrightarrow> sint (of_nat n :: u64) = int n"
proof -
  assume n: "n < 2 ^ 63"
  have "sint (word_of_int (int n) :: u64) = signed_take_bit (LENGTH(64) - 1) (int n)"
    by (rule sint_sbintrunc')
  also have "\<dots> = int n"
    using n by (intro signed_take_bit_int_eq_self) simp_all
  finally show ?thesis
    by simp
qed

lemma rebuild_ok:
  assumes "length hashes < 2 ^ 62" and "length live = length hashes"
  obtains table where "rebuild hashes live extra = Some table" and "ki_ok table hashes live"
    and "length table - 1 = cap_for (card (live_slots live) + extra)" and "occupied_cells table (length table - 1) = card (live_slots live)"
proof -
  let ?n = "card (live_slots live)" let ?cap = "cap_for (?n + extra)" let ?e = "replicate (?cap + 1) EMPTY"
  have cap: "is_power_of_two ?cap" "(?n + extra + 1) * 2 \<le> ?cap"
    by (rule cap_for_ok)+
  have n: "?n \<le> length hashes"
    using count_live_le[of live] assms(2) by simp
  have e: "occupied_cells ?e ?cap = 0" "no_removed ?e ?cap"
    by (rule empty_table)+
  obtain t where t: "place_live ?cap 0 (zip hashes live) ?e = Some t" "holds_slots t ?cap hashes (live_slots live)"
    "occupied_cells t ?cap = ?n"
    using place_live_ok[of ?e ?cap hashes live 0] holds_nothing[OF assms(1) cap(1)] cap(2) assms(2) e
    by (auto simp del: replicate.simps)
  then have len: "length t = ?cap + 1"
    by (simp add: holds_slots_def)
  show thesis
  proof
    show "rebuild hashes live extra = Some (t[?cap := of_nat ?n])"
      using t(1) by (simp add: rebuild_def count_live Let_def del: replicate.simps)
    show "ki_ok (t[?cap := of_nat ?n]) hashes live"
      using t(2,3) cap(2) len n assms small_count[of ?n] by (simp add: ki_ok_def Let_def holds_slots_count)
  qed (use len t(3) in simp_all)
qed

section \<open>Inserting, removing, clearing\<close>

lemma ki_okD:
  assumes "ki_ok table hashes live"
  shows "holds_slots table (length table - 1) hashes (live_slots live)" "length live = length hashes" "is_power_of_two (length table - 1)"
    "length table = length table - 1 + 1" "cells table = Some (length table - 1)" "occupied_cells table (length table - 1) * 2 \<le> length table - 1"
    "occupied_cells table (length table - 1) \<le> length hashes" "sint (table ! (length table - 1)) = int (occupied_cells table (length table - 1))"
    "length hashes < 2 ^ 62"
  using assms by (auto simp: ki_ok_def holds_slots_def cells_def Let_def)

lemma holds_slots_snoc:
  assumes "holds_slots table cap hashes S" and "length hashes + 1 < 2 ^ 62"
  shows "holds_slots table cap (hashes @ [h]) S"
proof -
  have "(hashes @ [h]) ! s = hashes ! s" if "s \<in> S" for s
    using that assms(1) by (auto simp: holds_slots_def nth_append)
  then show ?thesis
    using assms by (auto simp: holds_slots_def)
qed

lemma live_slots_snoc: "live_slots (live @ [1]) = insert (length live) (live_slots live)"
  by (auto simp: live_slots_def nth_append)

text \<open>Putting a new slot into a table that stays half empty with it, and counting the cell it takes.\<close>

lemma place_new_ok:
  assumes ok: "ki_ok table hashes live" and room: "(occupied_cells table (length table - 1) + 1) * 2 \<le> length table - 1"
    and small: "length hashes + 1 < 2 ^ 62"
  obtains table' took where "place table (length table - 1) h (length hashes) = Some (table', took)"
    and "ki_ok (if took then table'[length table - 1 := table' ! (length table - 1) + 1] else table') (hashes @ [h]) (live @ [1])"
proof -
  let ?cap = "length table - 1"
  note k = ki_okD[OF ok]
  have new: "length hashes \<notin> live_slots live"
    using k(2) by (simp add: live_slots_def)
  obtain table' took where t: "place table ?cap h (length hashes) = Some (table', took)"
    "holds_slots table' ?cap (hashes @ [h]) (insert (length hashes) (live_slots live))" "table' ! ?cap = table ! ?cap"
    "occupied_cells table' ?cap = occupied_cells table ?cap + (if took then 1 else 0)"
    by (rule place_ok[OF holds_slots_snoc[OF k(1) small, of h], of "length hashes"]) (use new room in auto)
  have len: "length table' = ?cap + 1"
    using t(2) by (simp add: holds_slots_def)
  have occ: "occupied_cells table ?cap + 1 < 2 ^ 63"
    using k(7) small by simp
  have "table ! ?cap = of_nat (occupied_cells table ?cap)"
    using arg_cong[OF k(8), of "of_int :: int \<Rightarrow> u64"] by simp
  then have "sint (table ! ?cap + 1) = int (occupied_cells table ?cap + 1)"
    using small_count[OF occ] by (simp add: add.commute)
  then have "ki_ok (if took then table'[?cap := table' ! ?cap + 1] else table') (hashes @ [h]) (live @ [1])"
    using t(2-4) len room k(2,7,8) by (auto simp: ki_ok_def Let_def holds_slots_count live_slots_snoc)
  then show thesis
    using that t(1) by blast
qed

lemma insert_slot_ok:
  assumes ok: "ki_ok table hashes live" and small: "length hashes + 1 < 2 ^ 62"
  shows "\<exists>table'. insert_slot table (length table - 1) hashes live h = Some table' \<and> ki_ok table' (hashes @ [h]) (live @ [1])"
proof -
  let ?cap = "length table - 1"
  note k = ki_okD[OF ok]
  have occ: "nat (max (sint (table ! ?cap)) 0) = occupied_cells table ?cap"
    using k(8) by simp
  have m: "(occupied_cells table ?cap + 1) * 2 mod 2 ^ 64 = (occupied_cells table ?cap + 1) * 2"
    using k(7) small by (intro mod_less) simp
  show ?thesis
  proof (cases "(occupied_cells table ?cap + 1) * 2 > ?cap")
    case True
    obtain t where t: "rebuild hashes live 1 = Some t" "ki_ok t hashes live" "length t - 1 = cap_for (card (live_slots live) + 1)"
      "occupied_cells t (length t - 1) = card (live_slots live)"
      using rebuild_ok[OF k(9,2)] by blast
    have "(occupied_cells t (length t - 1) + 1) * 2 \<le> length t - 1"
      using cap_for_ok(2)[of "card (live_slots live) + 1"] t(3,4) by simp
    then obtain t' took where "place t (length t - 1) h (length hashes) = Some (t', took)"
      "ki_ok (if took then t'[length t - 1 := t' ! (length t - 1) + 1] else t') (hashes @ [h]) (live @ [1])"
      using place_new_ok[OF t(2) _ small] by blast
    then show ?thesis
      using True t(1) by (simp only: insert_slot_def occ m Let_def if_True option.case prod.case) blast
  next
    case False
    then obtain t' took where "place table ?cap h (length hashes) = Some (t', took)"
      "ki_ok (if took then t'[?cap := t' ! ?cap + 1] else t') (hashes @ [h]) (live @ [1])"
      using place_new_ok[OF ok _ small] by (metis not_less)
    then show ?thesis
      using False by (simp only: insert_slot_def occ m Let_def if_False option.case prod.case) blast
  qed
qed

lemma remove_from_finds:
  assumes "is_power_of_two cap" and "i < cap" and "d < n" and "cell_at table cap i d = slot_cell s" and "\<And>j. j < d \<Longrightarrow> cell_at table cap i j \<noteq> EMPTY"
    and "slot_cell s \<noteq> EMPTY"
  shows "\<exists>p < cap. remove_from table (cap - 1) s n i = Some p \<and> table ! p = slot_cell s"
  using assms(2-5)
proof (induction n arbitrary: i d)
  case (Suc n)
  have step: "(i + 1) AND (cap - 1) = (i + 1) mod cap"
    by (rule mask_mod[OF assms(1)])
  show ?case
  proof (cases d)
    case 0
    then show ?thesis
      using Suc.prems assms(6) by (auto simp: cell_at_0 slot_cell_def Let_def)
  next
    case (Suc d')
    have e: "table ! i \<noteq> EMPTY"
      using Suc.prems(4)[of 0] Suc.prems(1) Suc by (simp add: cell_at_0)
    have "\<exists>p < cap. remove_from table (cap - 1) s n ((i + 1) mod cap) = Some p \<and> table ! p = slot_cell s"
      using Suc.prems Suc by (intro Suc.IH[of _ d']) (auto simp: cell_at_Suc[simplified])
    then show ?thesis
      using e Suc.prems(1) unfolding remove_from.simps Let_def step by (auto simp: slot_cell_def)
  qed
qed simp

lemma remove_slot_ok:
  assumes ok: "ki_ok table hashes live" and s: "s \<in> live_slots live"
  obtains p where "remove_from table (length table - 1 - 1) s (length table - 1) (home (hashes ! s) (length table - 1 - 1)) = Some p"
    and "ki_ok (table[p := REMOVED]) hashes (live[s := 0])"
proof -
  let ?cap = "length table - 1" let ?i = "home (hashes ! s) (?cap - 1)"
  note k = ki_okD[OF ok]
  have h: "holds_slots table ?cap hashes (live_slots live)"
    by (rule k(1))
  have small: "s' < 2 ^ 62" if "s' \<in> live_slots live" for s'
    using that k(2,9) by (auto simp: live_slots_def)
  obtain d where "d < ?cap" "cell_at table ?cap ?i d = slot_cell s" "\<And>j. j < d \<Longrightarrow> cell_at table ?cap ?i j \<noteq> EMPTY"
    using h s by (auto simp: holds_slots_def reached_def)
  then obtain p where p: "p < ?cap" "remove_from table (?cap - 1) s ?cap ?i = Some p" "table ! p = slot_cell s"
    using remove_from_finds[OF k(3) home_less[OF k(3)]] slot_cell_facts(1)[OF small[OF s]] by blast
  have rem: "\<not> 0 < sint REMOVED" "REMOVED \<noteq> EMPTY"
    by (simp_all add: REMOVED_def EMPTY_def)
  have len: "p < length table" "?cap \<noteq> p"
    using p(1) by simp_all
  let ?t = "table[p := REMOVED]"
  have ls: "live_slots (live[s := 0]) = live_slots live - {s}"
  proof (rule set_eqI)
    show "x \<in> live_slots (live[s := 0]) \<longleftrightarrow> x \<in> live_slots live - {s}" for x
      by (cases "x = s") (auto simp: live_slots_def)
  qed
  have "reached ?t ?cap (hashes ! s') s'" if "s' \<in> live_slots live - {s}" for s'
  proof -
    have "slot_cell s' \<noteq> table ! p"
      using that slot_cell_facts(6)[OF small small, of s' s] s p(3) by auto
    then show ?thesis
      using that h rem(2) len(1) by (intro reached_update) (auto simp: holds_slots_def)
  qed
  moreover have "free_cell (?t ! i) \<or> (\<exists>s' \<in> live_slots live - {s}. ?t ! i = slot_cell s')" if "i < ?cap" for i
  proof (cases "i = p")
    case False
    have "i = p" if "table ! i = slot_cell s"
      using h that \<open>i < ?cap\<close> p(1,3) slot_cell_facts(3)[OF small[OF s]] unfolding holds_slots_def by metis
    then show ?thesis
      using h that False unfolding holds_slots_def by (metis Diff_iff nth_list_update_neq singletonD)
  qed (use len in simp)
  moreover have "i = j" if "i < ?cap" "j < ?cap" "0 < sint (?t ! i)" "?t ! i = ?t ! j" for i j
    using that h rem len unfolding holds_slots_def by (metis nth_list_update_eq nth_list_update_neq)
  ultimately have "holds_slots ?t ?cap hashes (live_slots live - {s})"
    using h unfolding holds_slots_def by auto
  moreover have "occupied_cells ?t ?cap = occupied_cells table ?cap"
    using occupied_update[OF p(1), of table REMOVED] p(3) rem slot_cell_facts(1)[OF small[OF s]] len by auto
  ultimately have "ki_ok ?t hashes (live[s := 0])"
    using k len by (simp add: ki_ok_def Let_def ls)
  then show thesis
    using that p(2) by blast
qed

end
