(* ===== verification/Key_Calls.thy ===== *)
theory Key_Calls
  imports Key_Index
begin

text \<open>
  What the key index natives promise a collection: over any sequence of calls the three \<open>Vec\<close>s stand for an
  insertion-ordered list of slots, each with its hash and whether it is live, and every call returns
  (\<open>call_refines\<close>, interpreted on the natives); \<open>probe\<close> enumerates the live slots of a hash and \<open>find\<close> finds a
  live slot with an equal key whenever there is one.
\<close>

section \<open>Runs of calls\<close>

primrec run_calls :: "('c \<Rightarrow> 's \<Rightarrow> ('s \<times> 'v) option) \<Rightarrow> 'c list \<Rightarrow> 's \<Rightarrow> ('s \<times> 'v list) option" where
  "run_calls step [] st = Some (st, [])"
| "run_calls step (c # cs) st = (case step c st of
     None \<Rightarrow> None
   | Some (st', v) \<Rightarrow> (case run_calls step cs st' of None \<Rightarrow> None | Some (st'', vs) \<Rightarrow> Some (st'', v # vs)))"

primrec run_spec :: "('c \<Rightarrow> 'a \<Rightarrow> 'a \<times> 'v) \<Rightarrow> 'c list \<Rightarrow> 'a \<Rightarrow> 'a \<times> 'v list" where
  "run_spec spec [] xs = (xs, [])"
| "run_spec spec (c # cs) xs = (let (xs', v) = spec c xs; (xs'', vs) = run_spec spec cs xs' in (xs'', v # vs))"

text \<open>
  An operation that may not return, its specification on a view of the state, and the invariant under which the one
  refines the other as long as the view is small; a call makes the view longer by one at most.
\<close>

locale call_refines =
  fixes step :: "'c \<Rightarrow> 's \<Rightarrow> ('s \<times> 'v) option"
    and spec :: "'c \<Rightarrow> 'a list \<Rightarrow> 'a list \<times> 'v"
    and good :: "'s \<Rightarrow> bool"
    and view :: "'s \<Rightarrow> 'a list"
    and bound :: nat
  assumes step_refines: "good st \<Longrightarrow> length (view st) + 1 < bound
      \<Longrightarrow> \<exists>st'. step c st = Some (st', snd (spec c (view st))) \<and> good st' \<and> view st' = fst (spec c (view st))"
    and spec_grows: "length (fst (spec c xs)) \<le> length xs + 1"
begin

lemma run_refines:
  assumes "good st" and "length (view st) + length cs < bound"
  shows "\<exists>st'. run_calls step cs st = Some (st', snd (run_spec spec cs (view st))) \<and> good st' \<and> view st' = fst (run_spec spec cs (view st))"
  using assms
proof (induction cs arbitrary: st)
  case (Cons c cs)
  obtain st' where st': "step c st = Some (st', snd (spec c (view st)))" "good st'" "view st' = fst (spec c (view st))"
    using step_refines[OF Cons.prems(1), of c] Cons.prems(2) by auto
  have "length (view st') + length cs < bound"
    using spec_grows[of c "view st"] st'(3) Cons.prems(2) by simp
  from Cons.IH[OF st'(2) this] show ?case
    using st' by (auto simp: Let_def split_beta)
qed simp

end

section \<open>The slots three arrays stand for\<close>

definition index_at :: "u64 \<times> u64 \<times> u64 \<Rightarrow> key_heap \<Rightarrow> bool" where
  "index_at ids hp = (case ids of (t, hs, lv) \<Rightarrow> distinct [t, hs, lv] \<and>
     (case (ki_words hp t, ki_words hp hs, ki_words hp lv) of
        (Some table, Some hashes, Some live) \<Rightarrow> ki_ok table hashes live
      | _ \<Rightarrow> False))"

definition slots_at :: "u64 \<times> u64 \<times> u64 \<Rightarrow> key_heap \<Rightarrow> (i64 \<times> bool) list" where
  "slots_at ids hp = (case ids of (t, hs, lv) \<Rightarrow>
     (case (ki_words hp hs, ki_words hp lv) of
        (Some hashes, Some live) \<Rightarrow> zip hashes (map (\<lambda>l. l \<noteq> 0) live)
      | _ \<Rightarrow> []))"

datatype ki_call = Insert i64 | Remove i64 | Compact | Clear

text \<open>The result of \<open>remove\<close> is a \<open>bool\<close>, which is the word 1 or 0; that of \<open>clear\<close> is the unit word 0.\<close>

fun ki_step :: "u64 \<times> u64 \<times> u64 \<Rightarrow> ki_call \<Rightarrow> key_heap \<Rightarrow> (key_heap \<times> u64) option" where
  "ki_step (t, hs, lv) (Insert h) hp = host_insert hp [t, hs, lv, h]"
| "ki_step (t, hs, lv) (Remove s) hp = (case host_remove hp [t, hs, lv, s] of (hp', ok) \<Rightarrow> Some (hp', of_bool ok))"
| "ki_step (t, hs, lv) Compact hp = host_compact hp [t, hs, lv]"
| "ki_step (t, hs, lv) Clear hp = Some (host_clear hp [t, hs, lv], 0)"

fun slot_step :: "ki_call \<Rightarrow> (i64 \<times> bool) list \<Rightarrow> (i64 \<times> bool) list \<times> u64" where
  "slot_step (Insert h) xs = (xs @ [(h, True)], of_nat (length xs))"
| "slot_step (Remove s) xs =
     (if 0 \<le> sint s \<and> unat s < length xs \<and> snd (xs ! unat s) then (xs[unat s := (fst (xs ! unat s), False)], 1) else (xs, 0))"
| "slot_step Compact xs = (filter snd xs, of_nat (length (filter snd xs)))"
| "slot_step Clear xs = ([], 0)"

lemma index_atE:
  assumes "index_at (t, hs, lv) hp"
  obtains table hashes live where "t \<noteq> hs" "t \<noteq> lv" "hs \<noteq> lv" "ki_words hp t = Some table" "ki_words hp hs = Some hashes"
    "ki_words hp lv = Some live" "ki_ok table hashes live" "slots_at (t, hs, lv) hp = zip hashes (map (\<lambda>l. l \<noteq> 0) live)"
  using assms by (auto simp: index_at_def slots_at_def split: option.splits)

lemma ki_words_set [simp]: "ki_words (set_words hp v ws) v' = (if v' = v then Some ws else ki_words hp v')"
  by (simp add: ki_words_def set_words_def)

lemma ki_arg_simps [simp]: "ki_arg (x # xs) 0 = x" "ki_arg (x # xs) (numeral k) = ki_arg xs (pred_numeral k)" "ki_arg (x # xs) (Suc n) = ki_arg xs n"
  by (simp_all add: ki_arg_def get_def numeral_eq_Suc)

lemma insert_step:
  assumes "index_at (t, hs, lv) hp" and "length (slots_at (t, hs, lv) hp) + 1 < 2 ^ 62"
  shows "\<exists>hp'. host_insert hp [t, hs, lv, h] = Some (hp', of_nat (length (slots_at (t, hs, lv) hp))) \<and> index_at (t, hs, lv) hp'
    \<and> slots_at (t, hs, lv) hp' = slots_at (t, hs, lv) hp @ [(h, True)]"
proof -
  obtain table hashes live where a: "t \<noteq> hs" "t \<noteq> lv" "hs \<noteq> lv" "ki_words hp t = Some table" "ki_words hp hs = Some hashes"
    "ki_words hp lv = Some live" and ok: "ki_ok table hashes live" and sl: "slots_at (t, hs, lv) hp = zip hashes (map (\<lambda>l. l \<noteq> 0) live)"
    using index_atE[OF assms(1)] by metis
  note k = ki_okD[OF ok]
  obtain table' where "insert_slot table (length table - 1) hashes live h = Some table'" "ki_ok table' (hashes @ [h]) (live @ [1])"
    using insert_slot_ok[OF ok, of h] assms(2) k(2) by (auto simp: sl)
  then show ?thesis
    using a k(2,5) sl by (simp add: host_insert_def index_at_def slots_at_def)
qed

lemma remove_step:
  assumes "index_at (t, hs, lv) hp"
  shows "\<exists>hp'. ki_step (t, hs, lv) (Remove s) hp = Some (hp', snd (slot_step (Remove s) (slots_at (t, hs, lv) hp))) \<and> index_at (t, hs, lv) hp'
    \<and> slots_at (t, hs, lv) hp' = fst (slot_step (Remove s) (slots_at (t, hs, lv) hp))"
proof -
  obtain table hashes live where a: "t \<noteq> hs" "t \<noteq> lv" "hs \<noteq> lv" "ki_words hp t = Some table" "ki_words hp hs = Some hashes"
    "ki_words hp lv = Some live" and ok: "ki_ok table hashes live" and sl: "slots_at (t, hs, lv) hp = zip hashes (map (\<lambda>l. l \<noteq> 0) live)"
    using index_atE[OF assms] by metis
  note k = ki_okD[OF ok]
  have live: "unat s < length hashes \<and> live ! unat s \<noteq> 0 \<longleftrightarrow> unat s \<in> live_slots live"
    using k(2) by (auto simp: live_slots_def)
  show ?thesis
  proof (cases "0 \<le> sint s \<and> unat s \<in> live_slots live")
    case True
    obtain p where p: "remove_from table (length table - 1 - 1) (unat s) (length table - 1) (home (hashes ! unat s) (length table - 1 - 1)) = Some p"
      "ki_ok (table[p := REMOVED]) hashes (live[unat s := 0])"
      using remove_slot_ok[OF ok] True by blast
    have "host_remove hp [t, hs, lv, s] = (set_words (set_words hp t (table[p := REMOVED])) lv (live[unat s := 0]), True)"
      using True a k(2,5) p(1) live by (simp add: host_remove_def get_def not_less)
    moreover have "(zip hashes (map (\<lambda>l. l \<noteq> 0) live))[unat s := (hashes ! unat s, False)] = zip hashes (map (\<lambda>l. l \<noteq> 0) (live[unat s := 0]))"
      using True live k(2) by (intro nth_equalityI) (auto simp: nth_list_update)
    ultimately show ?thesis
      using True a p(2) k(2) live by (auto simp: sl index_at_def slots_at_def)
  next
    case False
    then have "host_remove hp [t, hs, lv, s] = (hp, False)"
      using a k(2,5) live by (auto simp: host_remove_def get_def Let_def not_less not_le)
    moreover have "slot_step (Remove s) (slots_at (t, hs, lv) hp) = (slots_at (t, hs, lv) hp, 0)"
      using False live k(2) by (auto simp: sl)
    ultimately show ?thesis
      using assms by (simp del: slot_step.simps)
  qed
qed

lemma retain_zip: "length xs = length live \<Longrightarrow> retain_live xs live = map fst (filter snd (zip xs (map (\<lambda>l. l \<noteq> 0) live)))"
  by (induction xs live rule: list_induct2) (auto simp: retain_live_def)

lemma compact_step:
  assumes "index_at (t, hs, lv) hp"
  shows "\<exists>hp'. host_compact hp [t, hs, lv] = Some (hp', of_nat (length (filter snd (slots_at (t, hs, lv) hp)))) \<and> index_at (t, hs, lv) hp'
    \<and> slots_at (t, hs, lv) hp' = filter snd (slots_at (t, hs, lv) hp)"
proof -
  obtain table hashes live where a: "t \<noteq> hs" "t \<noteq> lv" "hs \<noteq> lv" "ki_words hp t = Some table" "ki_words hp hs = Some hashes"
    "ki_words hp lv = Some live" and ok: "ki_ok table hashes live" and sl: "slots_at (t, hs, lv) hp = zip hashes (map (\<lambda>l. l \<noteq> 0) live)"
    using index_atE[OF assms] by metis
  note k = ki_okD[OF ok]
  let ?r = "retain_live hashes live"
  have r: "?r = map fst (filter snd (slots_at (t, hs, lv) hp))"
    using k(2) by (simp add: retain_zip sl)
  have "length ?r \<le> length hashes"
    unfolding r using length_filter_le[of snd "slots_at (t, hs, lv) hp"] k(2) by (simp add: sl)
  then obtain t' where t': "rebuild ?r (replicate (length ?r) 1) 0 = Some t'" "ki_ok t' ?r (replicate (length ?r) 1)"
    using rebuild_ok[of ?r "replicate (length ?r) 1" 0] k(9) by auto
  have "zip (map fst xs) (replicate (length xs) True) = xs" if "\<forall>x \<in> set xs. snd x" for xs :: "(i64 \<times> bool) list"
    using that by (induction xs) auto
  from this[of "filter snd (slots_at (t, hs, lv) hp)"] show ?thesis
    using a k(2,5) t' by (simp add: host_compact_def index_at_def slots_at_def r Let_def)
qed

lemma clear_step:
  assumes "index_at (t, hs, lv) hp"
  shows "index_at (t, hs, lv) (host_clear hp [t, hs, lv])" "slots_at (t, hs, lv) (host_clear hp [t, hs, lv]) = []"
proof -
  obtain table hashes live where a: "t \<noteq> hs" "t \<noteq> lv" "hs \<noteq> lv" "ki_words hp t = Some table" "ki_words hp hs = Some hashes"
    "ki_words hp lv = Some live" and ok: "ki_ok table hashes live"
    using index_atE[OF assms] by metis
  note k = ki_okD[OF ok]
  let ?cap = "length table - 1" let ?t = "replicate (length table) EMPTY"
  have w: "clear_array hp' v = set_words hp' v []" if "ki_words hp' v = Some ws" for hp' v ws
    using that by (auto simp: clear_array_def ki_words_def set_words_def split: option.splits vec_data.splits)
  have c: "host_clear hp [t, hs, lv] = set_words (set_words (set_words hp t ?t) hs []) lv []"
    using a k(5) w[of "set_words hp t ?t" hs hashes] w[of "set_words (set_words hp t ?t) hs []" lv live] by (simp add: host_clear_def)
  have "ki_ok ?t [] []"
    using fresh_ok[OF k(3)] unfolding k(4)[symmetric] .
  then show "index_at (t, hs, lv) (host_clear hp [t, hs, lv])" "slots_at (t, hs, lv) (host_clear hp [t, hs, lv]) = []"
    using a by (simp_all add: c index_at_def slots_at_def)
qed

lemma slot_step_grows: "length (fst (slot_step c xs)) \<le> length xs + 1"
  by (cases c) (auto simp: le_SucI)

interpretation ki: call_refines "ki_step ids" slot_step "index_at ids" "slots_at ids" "2 ^ 62"
proof unfold_locales
  fix hp c
  assume ok: "index_at ids hp" and small: "length (slots_at ids hp) + 1 < 2 ^ 62"
  obtain t hs lv where ids: "ids = (t, hs, lv)"
    by (cases ids)
  show "\<exists>hp'. ki_step ids c hp = Some (hp', snd (slot_step c (slots_at ids hp))) \<and> index_at ids hp' \<and> slots_at ids hp' = fst (slot_step c (slots_at ids hp))"
  proof (cases c)
    case (Insert h)
    then show ?thesis
      using insert_step[of t hs lv hp h] ok small by (simp add: ids)
  next
    case (Remove s)
    then show ?thesis
      using remove_step[of t hs lv hp s] ok unfolding ids by blast
  next
    case Compact
    then show ?thesis
      using compact_step[of t hs lv hp] ok by (simp add: ids)
  next
    case Clear
    then show ?thesis
      using clear_step[of t hs lv hp] ok by (simp add: ids)
  qed
qed (rule slot_step_grows)

text \<open>A table from \<open>key_index::table\<close> beside two empty \<open>Vec\<close>s is an index without slots.\<close>

lemma fresh_index:
  assumes "distinct [t, hs, lv]" and "ki_words hp hs = Some []" and "ki_words hp lv = Some []"
  shows "index_at (t, hs, lv) (fst (host_table hp t args)) \<and> slots_at (t, hs, lv) (fst (host_table hp t args)) = []"
proof -
  define cap where "cap = cap_for (nat (max 0 (min (sint (ki_arg args 0)) (2 ^ 28))))"
  have "is_power_of_two cap"
    unfolding cap_def by (rule cap_for_ok)
  have "(replicate (cap + 1) EMPTY)[cap := 0] = replicate (cap + 1) EMPTY"
    by (intro nth_equalityI) (auto simp: nth_list_update EMPTY_def simp del: replicate.simps)
  then have h: "fst (host_table hp t args) = set_words hp t (replicate (cap + 1) EMPTY)"
    by (simp only: host_table_def Let_def cap_def fst_conv)
  have "ki_ok (replicate (cap + 1) EMPTY) [] []"
    using \<open>is_power_of_two cap\<close> by (rule fresh_ok)
  then show ?thesis
    using assms by (auto simp: index_at_def slots_at_def h simp del: replicate.simps)
qed

text \<open>C12: Every sequence of \<open>insert\<close>, \<open>remove\<close>, \<open>compact\<close> and \<open>clear\<close> calls on a well-formed key index returns,
  leaves a well-formed index, and answers and acts as the list of slots does: an insert appends a live slot and gives its
  number, a remove marks a live slot and says whether it was one, a compact drops the removed slots in order and a clear drops
  all.\<close>

theorem key_calls_refine:
  assumes "index_at ids hp" and "length (slots_at ids hp) + length cs < 2 ^ 62"
  shows "\<exists>hp'. run_calls (ki_step ids) cs hp = Some (hp', snd (run_spec slot_step cs (slots_at ids hp))) \<and> index_at ids hp'
    \<and> slots_at ids hp' = fst (run_spec slot_step cs (slots_at ids hp))"
  using assms by (rule ki.run_refines)

theorem key_calls_refine_witness:
  "\<exists>hp'. run_calls (ki_step (1, 2, 3)) [Insert 5, Insert 13, Remove 0, Remove 0, Insert 5, Compact]
      (fst (host_table \<lparr>kh_arrays = [2 \<mapsto> VecWords [], 3 \<mapsto> VecWords []], kh_strings = Map.empty\<rparr> 1 [4])) = Some (hp', [0, 1, 1, 0, 2, 2])
    \<and> index_at (1, 2, 3) hp' \<and> slots_at (1, 2, 3) hp' = [(13, True), (5, True)]"
proof -
  let ?hp = "fst (host_table \<lparr>kh_arrays = [2 \<mapsto> VecWords [], 3 \<mapsto> VecWords []], kh_strings = Map.empty\<rparr> 1 [4])"
  have "index_at (1, 2, 3) ?hp \<and> slots_at (1, 2, 3) ?hp = []"
    by (rule fresh_index) (simp_all add: ki_words_def)
  then show ?thesis
    using key_calls_refine[of "(1, 2, 3)" ?hp "[Insert 5, Insert 13, Remove 0, Remove 0, Insert 5, Compact]"] by simp
qed

definition vec_words :: "vec_data \<Rightarrow> u64 list" where
  "vec_words d = (case d of VecWords ws \<Rightarrow> ws | VecBytes bs \<Rightarrow> map ucast bs)"

definition is_packed :: "vec_data \<Rightarrow> bool" where
  "is_packed d = (case d of VecWords _ \<Rightarrow> False | VecBytes _ \<Rightarrow> True)"

definition retain_vec :: "vec_data \<Rightarrow> u64 list \<Rightarrow> vec_data" where
  "retain_vec d live = (case d of VecWords ws \<Rightarrow> VecWords (retain_live ws live) | VecBytes bs \<Rightarrow> VecBytes (retain_live bs live))"

definition set_array :: "key_heap \<Rightarrow> u64 \<Rightarrow> vec_data \<Rightarrow> key_heap" where
  "set_array hp v d = hp\<lparr>kh_arrays := (kh_arrays hp)(v \<mapsto> d)\<rparr>"

lemma retain_vec_words: "vec_words (retain_vec d live) = retain_live (vec_words d) live" "is_packed (retain_vec d live) = is_packed d"
  by (auto simp: vec_words_def retain_vec_def is_packed_def retain_live_def zip_map2 filter_map comp_def split_def split: vec_data.split)

lemma host_retain_vec:
  assumes "v \<noteq> lv" and "ki_words hp lv = Some live" and "kh_arrays hp v = Some d"
  shows "host_retain hp [v, lv] = (if length (vec_words d) \<noteq> length live then (hp, - 1)
    else (set_array hp v (retain_vec d live), of_nat (length (retain_live (vec_words d) live))))"
  using assms arg_cong[OF retain_vec_words(1)[of d live], of length]
  by (cases d) (simp_all add: host_retain_def vec_words_def retain_vec_def set_array_def set_words_def)

lemma index_at_other: "v \<notin> {t, hs, lv} \<Longrightarrow> index_at (t, hs, lv) (set_array hp v d) = index_at (t, hs, lv) hp
    \<and> slots_at (t, hs, lv) (set_array hp v d) = slots_at (t, hs, lv) hp"
  by (auto simp: index_at_def slots_at_def set_array_def ki_words_def)

lemma compact_other: "host_compact hp [t, hs, lv] = Some (hp', n) \<Longrightarrow> v \<notin> {t, hs, lv} \<Longrightarrow> kh_arrays hp' v = kh_arrays hp v"
  by (auto simp: host_compact_def set_words_def Let_def split: if_splits option.splits)

lemma live_pairs:
  "length xs = length ys \<Longrightarrow> map fst (filter snd (zip xs (map snd ys))) = map fst (filter (\<lambda>(_, _, l). l) (zip xs ys))
    \<and> filter snd ys = map snd (filter (\<lambda>(_, _, l). l) (zip xs ys))"
  by (induction xs ys rule: list_induct2) auto

text \<open>C23: When a collection compacts, \<open>retain\<close> on any \<open>Vec\<close> of its own, of words or of packed bytes, followed by \<open>compact\<close> on the
  index gives the same count twice and keeps every payload beside the slot it belonged to: what the two hold afterwards,
  slot by slot, is what they held at the live slots before, in order, and a packed \<open>Vec\<close> stays packed. A \<open>Vec\<close> that is not as
  long as the index is refused with \<open>- 1\<close> and left as it is.\<close>

theorem retain_then_compact:
  assumes "index_at (t, hs, lv) hp" and "v \<notin> {t, hs, lv}" and "kh_arrays hp v = Some d"
  shows "if length (vec_words d) \<noteq> length (slots_at (t, hs, lv) hp) then host_retain hp [v, lv] = (hp, - 1)
    else \<exists>hp1 hp2 d' n. host_retain hp [v, lv] = (hp1, n) \<and> host_compact hp1 [t, hs, lv] = Some (hp2, n) \<and> index_at (t, hs, lv) hp2
      \<and> kh_arrays hp2 v = Some d' \<and> is_packed d' = is_packed d \<and> length (vec_words d') = length (slots_at (t, hs, lv) hp2)
      \<and> zip (vec_words d') (slots_at (t, hs, lv) hp2) = filter (\<lambda>(_, _, live). live) (zip (vec_words d) (slots_at (t, hs, lv) hp))"
proof -
  let ?sl = "slots_at (t, hs, lv) hp" let ?ws = "vec_words d"
  obtain table hashes live where a: "ki_words hp lv = Some live" and ok: "ki_ok table hashes live"
    and sl: "?sl = zip hashes (map (\<lambda>l. l \<noteq> 0) live)"
    using index_atE[OF assms(1)] by metis
  have len: "length ?sl = length live" "map snd ?sl = map (\<lambda>l. l \<noteq> 0) live"
    using ki_okD(2)[OF ok] by (simp_all add: sl)
  have r: "host_retain hp [v, lv] = (if length ?ws \<noteq> length live then (hp, - 1)
      else (set_array hp v (retain_vec d live), of_nat (length (retain_live ?ws live))))"
    using assms(2,3) a by (intro host_retain_vec) auto
  show ?thesis
  proof (cases "length ?ws = length ?sl")
    case True
    let ?hp = "set_array hp v (retain_vec d live)"
    have ks: "retain_live ?ws live = map fst (filter (\<lambda>(_, _, l). l) (zip ?ws ?sl))" and sn: "filter snd ?sl = map snd (filter (\<lambda>(_, _, l). l) (zip ?ws ?sl))"
      using retain_zip[of ?ws live] live_pairs[OF True] len True by (simp_all only: len)
    have same: "index_at (t, hs, lv) ?hp" "slots_at (t, hs, lv) ?hp = ?sl"
      using index_at_other[OF assms(2)] assms(1) by auto
    obtain hp2 where hp2: "host_compact ?hp [t, hs, lv] = Some (hp2, of_nat (length (filter snd ?sl)))" "index_at (t, hs, lv) hp2"
      "slots_at (t, hs, lv) hp2 = filter snd ?sl"
      using compact_step[OF same(1)] by (auto simp: same(2))
    have l: "length (retain_live ?ws live) = length (filter snd ?sl)"
      unfolding ks sn by simp
    moreover have "kh_arrays hp2 v = Some (retain_vec d live)"
      using compact_other[OF hp2(1) assms(2)] by (simp add: set_array_def)
    moreover have "zip (retain_live ?ws live) (filter snd ?sl) = filter (\<lambda>(_, _, l). l) (zip ?ws ?sl)"
      unfolding ks sn by (rule zip_map_fst_snd)
    ultimately show ?thesis
      using True r hp2 len(1) retain_vec_words[of d live] by auto
  qed (use r len(1) in simp)
qed

theorem retain_then_compact_witness:
  "\<exists>hp hp1 hp2 d' n. index_at (1, 2, 3) hp \<and> host_retain hp [4, 3] = (hp1, n) \<and> host_compact hp1 [1, 2, 3] = Some (hp2, n)
    \<and> kh_arrays hp2 4 = Some d' \<and> is_packed d' \<and> zip (vec_words d') (slots_at (1, 2, 3) hp2) = [(60, 13, True)]"
proof -
  let ?hp = "fst (host_table \<lparr>kh_arrays = [2 \<mapsto> VecWords [], 3 \<mapsto> VecWords []], kh_strings = Map.empty\<rparr> 1 [4])"
  have "index_at (1, 2, 3) ?hp \<and> slots_at (1, 2, 3) ?hp = []"
    by (rule fresh_index) (simp_all add: ki_words_def)
  then obtain hp where hp: "index_at (1, 2, 3) hp" "slots_at (1, 2, 3) hp = [(5, False), (13, True)]"
    using ki.run_refines[of "(1, 2, 3)" ?hp "[Insert 5, Insert 13, Remove 0]"] by auto
  let ?hp = "set_array hp 4 (VecBytes [50, 60])"
  have i: "index_at (1, 2, 3) ?hp" "slots_at (1, 2, 3) ?hp = [(5, False), (13, True)]"
    using hp index_at_other[of 4 1 2 3 hp] by simp_all
  have "kh_arrays ?hp 4 = Some (VecBytes [50, 60])"
    by (simp add: set_array_def)
  from retain_then_compact[OF i(1) _ this] show ?thesis
    using i by (auto simp: vec_words_def is_packed_def)
qed

section \<open>An insert that never returns\<close>

lemma place_loop_free:
  assumes "place_loop table (cap - 1) s i = Some r" and cap: "is_power_of_two cap" and "i < cap"
  shows "\<exists>j < cap. free_cell (table ! j)"
proof -
  have "0 < cap"
    using assms(3) by simp
  have "cap - 1 = cap - 1 \<longrightarrow> i < cap \<longrightarrow> (\<exists>j < cap. free_cell (table ! j))"
  proof (rule place_loop.raw_induct[where P = "\<lambda>table msk s i r. msk = cap - 1 \<longrightarrow> i < cap \<longrightarrow> (\<exists>j < cap. free_cell (table ! j))", OF _ assms(1)], intro impI)
    fix loop :: "u64 list \<Rightarrow> nat \<Rightarrow> nat \<Rightarrow> nat \<Rightarrow> (u64 list \<times> bool) option" and t msk s i r
    assume IH: "\<And>t msk s i r. loop t msk s i = Some r \<Longrightarrow> msk = cap - 1 \<longrightarrow> i < cap \<longrightarrow> (\<exists>j < cap. free_cell (t ! j))"
      and r: "(let e = t ! i in if free_cell e then Some (t[i := of_nat s + 1], e = EMPTY) else loop t msk s ((i + 1) AND msk)) = Some r"
      and i: "msk = cap - 1" "i < cap"
    show "\<exists>j < cap. free_cell (t ! j)"
    proof (cases "free_cell (t ! i)")
      case False
      then have "loop t msk s ((i + 1) mod cap) = Some r"
        using r mask_mod[OF cap, of "i + 1"] unfolding i(1) Let_def by simp
      then show ?thesis
        using IH i(1) \<open>0 < cap\<close> by simp
    qed (use i(2) in blast)
  qed
  then show ?thesis
    using assms(3) by simp
qed

lemma place_returns_iff:
  assumes "is_power_of_two cap"
  shows "place table cap h s = None \<longleftrightarrow> (\<forall>i < cap. \<not> free_cell (table ! i))"
proof
  assume none: "place table cap h s = None"
  show "\<forall>i < cap. \<not> free_cell (table ! i)"
  proof (intro allI impI notI)
    fix p
    assume "p < cap" "free_cell (table ! p)"
    then obtain d where "free_cell (cell_at table cap (home h (cap - 1)) d)"
      using round_trip[OF home_less[OF assms, of h], of p] by (metis cell_at_def)
    then have "place table cap h s \<noteq> None"
      using place_at_free[OF assms, of table h d s] by auto
    then show False
      using none by simp
  qed
next
  assume "\<forall>i < cap. \<not> free_cell (table ! i)"
  then show "place table cap h s = None"
    using place_loop_free[OF _ assms home_less[OF assms]] by (metis place_def not_Some_eq)
qed

text \<open>C35: On three distinct arrays of words a call of \<open>insert\<close> never returns exactly when the table has the shape of one and as
  many hashes as live flags beside it, its last cell counts few enough cells for another to fit, and none of its cells is empty
  or removed; no such table is refused as malformed.\<close>

theorem insert_never_returns_iff:
  assumes "distinct [t, hs, lv]" and "ki_words hp t = Some table" and "ki_words hp hs = Some hashes" and "ki_words hp lv = Some live"
    and "length hashes < 2 ^ 62"
  shows "host_insert hp [t, hs, lv, h] = None \<longleftrightarrow> (\<exists>cap. cells table = Some cap \<and> length hashes = length live
     \<and> (nat (max (sint (table ! cap)) 0) + 1) * 2 mod 2 ^ 64 \<le> cap \<and> (\<forall>i < cap. table ! i \<noteq> EMPTY \<and> table ! i \<noteq> REMOVED))"
proof (cases "cells table \<noteq> None \<and> length hashes = length live")
  case True
  then obtain cap where cap: "cells table = Some cap" "is_power_of_two cap"
    by (auto simp: cells_def Let_def split: if_splits)
  have ins: "host_insert hp [t, hs, lv, h] = None \<longleftrightarrow> insert_slot table cap hashes live h = None"
    using True assms cap by (auto simp: host_insert_def split: option.split)
  show ?thesis
  proof (cases "(nat (max (sint (table ! cap)) 0) + 1) * 2 mod 2 ^ 64 > cap")
    case full: True
    obtain tb where tb: "rebuild hashes live 1 = Some tb" "ki_ok tb hashes live" "length tb - 1 = cap_for (card (live_slots live) + 1)"
      "occupied_cells tb (length tb - 1) = card (live_slots live)"
      using rebuild_ok[OF assms(5)] True by metis
    have "occupied_cells tb (length tb - 1) < length tb - 1"
      using cap_for_ok(2)[of "card (live_slots live) + 1"] tb(3,4) by simp
    then have "place tb (length tb - 1) h (length hashes) \<noteq> None"
      using place_at[OF ki_okD(3)[OF tb(2)]] by (metis option.discI)
    then have "insert_slot table cap hashes live h \<noteq> None"
      using full tb(1) by (auto simp only: insert_slot_def Let_def if_True option.case prod.case)
    then show ?thesis
      using ins cap full by (auto simp: not_le)
  next
    case False
    then have "insert_slot table cap hashes live h = None \<longleftrightarrow> place table cap h (length hashes) = None"
      by (auto simp: insert_slot_def Let_def split: option.split)
    then show ?thesis
      using ins place_returns_iff[OF cap(2)] cap True False by (simp add: not_less)
  qed
qed (use assms in \<open>auto simp: host_insert_def Let_def split: option.split\<close>)

theorem insert_never_returns_iff_witness:
  "host_insert \<lparr>kh_arrays = [1 \<mapsto> VecWords [1, 2, 0], 2 \<mapsto> VecWords [], 3 \<mapsto> VecWords []], kh_strings = Map.empty\<rparr> [1, 2, 3, 7] = None"
proof -
  let ?hp = "\<lparr>kh_arrays = [1 \<mapsto> VecWords [1, 2, 0], 2 \<mapsto> VecWords [], 3 \<mapsto> VecWords []], kh_strings = Map.empty\<rparr>"
  have "cells [1, 2, 0] = Some 2"
    by code_simp
  moreover have "\<forall>i < 2. [1, 2, 0] ! i \<noteq> EMPTY \<and> [1, 2, 0] ! i \<noteq> REMOVED"
    by (auto simp: EMPTY_def REMOVED_def dest!: less_2_cases)
  ultimately show ?thesis
    using insert_never_returns_iff[of 1 2 3 ?hp "[1, 2, 0]" "[]" "[]" 7] by (simp add: ki_words_def)
qed

end
