(* ===== verification/Key_Probe.thy ===== *)
theory Key_Probe
  imports Key_Calls
begin

text \<open>
  Looking a key up in a key index: \<open>probe\<close> and \<open>find\<close> both walk the cells from the home of the hash to the first empty
  one. The walk is described once, as the list of slots its live cells name; on a well-formed index the slots with
  the probed hash among them are all the live slots with that hash, each once.
\<close>

section \<open>The cells of a walk\<close>

definition walk :: "u64 list \<Rightarrow> nat \<Rightarrow> nat \<Rightarrow> nat \<Rightarrow> u64 list" where
  "walk table cap n i = takeWhile (\<lambda>e. e \<noteq> EMPTY) (map (cell_at table cap i) [0..<n])"

definition live_walk :: "u64 list \<Rightarrow> u64 list" where
  "live_walk es = map (\<lambda>e. e - 1) (filter (\<lambda>e. 0 < sint e) es)"

definition hash_hit :: "u64 list \<Rightarrow> i64 \<Rightarrow> u64 \<Rightarrow> bool" where
  "hash_hit hashes h s \<longleftrightarrow> get hashes (unat s) = Some h"

definition first_or_none :: "u64 list \<Rightarrow> u64" where
  "first_or_none xs = (case xs of [] \<Rightarrow> - 1 | x # _ \<Rightarrow> x)"

fun seek :: "u64 list \<Rightarrow> u64 \<Rightarrow> u64 list" where
  "seek [] after = []"
| "seek (s # ss) after = (if s = after then ss else seek ss after)"

lemma walk_Suc: "i < cap \<Longrightarrow> walk table cap (Suc n) i = (if table ! i = EMPTY then [] else table ! i # walk table cap n ((i + 1) mod cap))"
proof -
  assume i: "i < cap"
  have "map (cell_at table cap i) [0..<Suc n] = table ! i # map (cell_at table cap ((i + 1) mod cap)) [0..<n]"
    unfolding upt_conv_Cons[OF zero_less_Suc] map_Suc_upt[symmetric] using i by (simp add: cell_at_0 cell_at_Suc[simplified])
  then show ?thesis
    by (simp add: walk_def)
qed

lemma walk_0 [simp]: "walk table cap 0 i = []"
  by (simp add: walk_def)

lemma probe_from_walk:
  assumes "is_power_of_two cap" and "i < cap"
  shows "probe_from table hashes (cap - 1) h after n i past
    = first_or_none (filter (hash_hit hashes h) (let ss = live_walk (walk table cap n i) in if past then ss else seek ss after))"
  using assms(2)
proof (induction n arbitrary: i past)
  case (Suc n)
  have "(i + 1) AND (cap - 1) = (i + 1) mod cap" "(i + 1) mod cap < cap"
    using mask_mod[OF assms(1)] Suc.prems by simp_all
  then show ?case
    using Suc.IH[of "(i + 1) mod cap"] Suc.prems
    by (simp add: walk_Suc live_walk_def first_or_none_def hash_hit_def Let_def del: get_Some_iff)
qed (simp add: first_or_none_def live_walk_def)

lemma find_from_walk:
  assumes "is_power_of_two cap" and "i < cap"
  shows "find_from table hashes keys (cap - 1) h same n i
    = first_or_none (filter (\<lambda>s. hash_hit hashes h s \<and> (case get keys (unat s) of Some x \<Rightarrow> same x | None \<Rightarrow> False)) (live_walk (walk table cap n i)))"
  using assms(2)
proof (induction n arbitrary: i)
  case (Suc n)
  have "(i + 1) AND (cap - 1) = (i + 1) mod cap" "(i + 1) mod cap < cap"
    using mask_mod[OF assms(1)] Suc.prems by simp_all
  then show ?case
    using Suc.IH[of "(i + 1) mod cap"] Suc.prems
    by (simp add: walk_Suc live_walk_def first_or_none_def hash_hit_def Let_def del: get_Some_iff)
qed (simp add: first_or_none_def live_walk_def)

section \<open>The slots of a hash\<close>

lemma seek_drop: "distinct xs \<Longrightarrow> k < length (filter P xs) \<Longrightarrow> filter P (seek xs (filter P xs ! k)) = drop (Suc k) (filter P xs)"
proof (induction xs arbitrary: k)
  case (Cons x xs)
  show ?case
  proof (cases "P x")
    case True
    show ?thesis
    proof (cases k)
      case (Suc j)
      then have "filter P xs ! j \<in> set (filter P xs)"
        using Cons.prems(2) True by (intro nth_mem) simp
      then have "x \<noteq> filter P xs ! j"
        using Cons.prems(1) by auto
      then show ?thesis
        using Cons True Suc by simp
    qed (use True in simp)
  next
    case False
    then have "filter P xs ! k \<in> set (filter P xs)"
      using Cons.prems(2) by (intro nth_mem) simp
    then have "x \<noteq> filter P xs ! k"
      using Cons.prems(1) by auto
    then show ?thesis
      using Cons False by simp
  qed
qed simp

lemma distinct_filterI:
  "(\<And>j k. j < length xs \<Longrightarrow> k < length xs \<Longrightarrow> P (xs ! j) \<Longrightarrow> xs ! j = xs ! k \<Longrightarrow> j = k) \<Longrightarrow> distinct (filter P xs)"
proof (induction xs)
  case (Cons x xs)
  have "distinct (filter P xs)"
    by (rule Cons.IH) (use Cons.prems[of "Suc _" "Suc _"] in simp)
  moreover have "x \<notin> set xs" if "P x"
    using Cons.prems[of 0 "Suc _"] that by (auto simp: in_set_conv_nth)
  ultimately show ?case
    by auto
qed simp

lemma mod_shift_inj:
  assumes "(i + j) mod cap = (i + k) mod cap" and "j < cap" and "k < (cap :: nat)"
  shows "j = k"
proof -
  have "j = k" if "(i + j) mod cap = (i + k) mod cap" "j \<le> k" "k < cap" for j k
  proof -
    have "cap dvd (i + k) - (i + j)"
      using that mod_eq_dvd_iff_nat[of "i + j" "i + k" cap] by simp
    then show ?thesis
      using that nat_dvd_not_less[of "k - j" cap] by (cases "j = k") auto
  qed
  then show ?thesis
    using assms by (metis nat_le_linear)
qed

lemma walk_nth:
  assumes "k < length (walk table cap n i)"
  shows "walk table cap n i ! k = cell_at table cap i k" "k < n"
proof -
  let ?xs = "map (cell_at table cap i) [0..<n]"
  show n: "k < n"
    using assms length_takeWhile_le[of "\<lambda>e. e \<noteq> EMPTY" ?xs] by (simp add: walk_def)
  show "walk table cap n i ! k = cell_at table cap i k"
    using assms takeWhile_nth[of k "\<lambda>e. e \<noteq> EMPTY" ?xs] n by (simp add: walk_def)
qed

lemma live_walk_distinct:
  assumes "ki_ok table hashes live" and "i < length table - 1"
  shows "distinct (live_walk (walk table (length table - 1) (length table - 1) i))"
proof -
  let ?cap = "length table - 1" let ?w = "walk table ?cap ?cap i"
  have uniq: "p = q" if "p < ?cap" "q < ?cap" "0 < sint (table ! p)" "table ! p = table ! q" for p q
    using ki_okD(1)[OF assms(1)] that unfolding holds_slots_def by blast
  have "distinct (filter (\<lambda>e. 0 < sint e) ?w)"
  proof (rule distinct_filterI)
    fix j k
    assume jk: "j < length ?w" "k < length ?w" "0 < sint (?w ! j)" "?w ! j = ?w ! k"
    have "(i + j) mod ?cap = (i + k) mod ?cap"
      using jk(3,4) assms(2) unfolding walk_nth(1)[OF jk(1)] walk_nth(1)[OF jk(2)] cell_at_def by (intro uniq) simp_all
    then show "j = k"
      using walk_nth(2)[OF jk(1)] walk_nth(2)[OF jk(2)] by (rule mod_shift_inj)
  qed
  moreover have "inj_on (\<lambda>e. e - 1) (set (filter (\<lambda>e. 0 < sint e) ?w))"
    by (auto intro: inj_onI)
  ultimately show ?thesis
    by (simp add: live_walk_def distinct_map)
qed

lemma walk_reaches:
  assumes "reached table cap h s" and "slot_cell s \<noteq> EMPTY"
  shows "slot_cell s \<in> set (walk table cap cap (home h (cap - 1)))"
proof -
  let ?i = "home h (cap - 1)" let ?xs = "map (cell_at table cap ?i) [0..<cap]"
  obtain j where j: "j < cap" "cell_at table cap ?i j = slot_cell s" "\<forall>i < j. cell_at table cap ?i i \<noteq> EMPTY"
    using assms(1) by (auto simp: reached_def)
  have "Suc j \<le> length (takeWhile (\<lambda>e. e \<noteq> EMPTY) ?xs)"
    using j assms(2) by (intro length_takeWhile_less_P_nth) (auto simp: less_Suc_eq)
  then have "j < length (walk table cap cap ?i)"
    by (simp add: walk_def)
  then show ?thesis
    using walk_nth(1)[of j table cap cap ?i] j(2) nth_mem by fastforce
qed

text \<open>The walk from the home of \<open>h\<close> meets every live slot with the hash \<open>h\<close>, and names no slot that is not live.\<close>

lemma live_walk_hash:
  assumes ok: "ki_ok table hashes live" and w: "w = live_walk (walk table (length table - 1) (length table - 1) (home h (length table - 1 - 1)))"
  shows "s \<in> set w \<and> hash_hit hashes h s \<longleftrightarrow> (\<exists>n \<in> live_slots live. s = of_nat n \<and> hashes ! n = h)"
proof
  let ?cap = "length table - 1" let ?i = "home h (?cap - 1)"
  note k = ki_okD[OF ok]
  have small: "n < 2 ^ 62" if "n \<in> live_slots live" for n
    using that k(2,9) by (auto simp: live_slots_def)
  { assume a: "s \<in> set w \<and> hash_hit hashes h s"
    then obtain e where e: "e \<in> set (walk table ?cap ?cap ?i)" "0 < sint e" "s = e - 1"
      by (auto simp: w live_walk_def)
    then obtain j where "j < ?cap" "e = table ! ((?i + j) mod ?cap)"
      unfolding in_set_conv_nth using walk_nth by (metis cell_at_def)
    then have "e = EMPTY \<or> e = REMOVED \<or> (\<exists>n \<in> live_slots live. e = slot_cell n)"
      using k(1) unfolding holds_slots_def by (metis gr_zeroI less_nat_zero_code mod_less_divisor)
    then obtain n where n: "n \<in> live_slots live" "e = slot_cell n"
      using e(2) by (auto simp: EMPTY_def REMOVED_def)
    then show "\<exists>n \<in> live_slots live. s = of_nat n \<and> hashes ! n = h"
      using a e(3) slot_cell_facts(4,5)[OF small[OF n(1)]] by (auto simp: hash_hit_def) }
  { assume "\<exists>n \<in> live_slots live. s = of_nat n \<and> hashes ! n = h"
    then obtain n where n: "n \<in> live_slots live" "s = of_nat n" "hashes ! n = h"
      by blast
    note c = slot_cell_facts[OF small[OF n(1)]]
    have "reached table ?cap h n"
      using k(1) n unfolding holds_slots_def by blast
    then have "slot_cell n \<in> set (walk table ?cap ?cap ?i)"
      using c(1) by (rule walk_reaches)
    then have "slot_cell n - 1 \<in> set w"
      using c(3) by (auto simp: w live_walk_def)
    then show "s \<in> set w \<and> hash_hit hashes h s"
      using n c(4,5) k(2) by (auto simp: hash_hit_def live_slots_def) }
qed

section \<open>Lookups\<close>

lemma slots_at_live:
  "length live = length hashes \<Longrightarrow> n < length (zip hashes (map (\<lambda>l. l \<noteq> 0) live)) \<and> zip hashes (map (\<lambda>l. l \<noteq> 0) live) ! n = (h, True)
    \<longleftrightarrow> n \<in> live_slots live \<and> hashes ! n = h"
  by (auto simp: live_slots_def)

text \<open>C13: Started at \<open>- 1\<close> and fed its own answers, \<open>probe\<close> enumerates the live slots whose hash is \<open>h\<close>, every one exactly
  once, and then answers \<open>- 1\<close>.\<close>

theorem probe_enumerates:
  assumes "index_at (t, hs, lv) hp"
  shows "\<exists>ss. distinct ss \<and> set ss = {of_nat n | n. n < length (slots_at (t, hs, lv) hp) \<and> slots_at (t, hs, lv) hp ! n = (h, True)}
    \<and> host_probe hp [t, hs, h, - 1] = first_or_none ss
    \<and> (\<forall>k < length ss. host_probe hp [t, hs, h, ss ! k] = first_or_none (drop (Suc k) ss))"
proof -
  obtain table hashes live where a: "ki_words hp t = Some table" "ki_words hp hs = Some hashes"
    and ok: "ki_ok table hashes live" and sl: "slots_at (t, hs, lv) hp = zip hashes (map (\<lambda>l. l \<noteq> 0) live)"
    using index_atE[OF assms(1)] by metis
  note k = ki_okD[OF ok]
  let ?cap = "length table - 1"
  define w where "w = live_walk (walk table ?cap ?cap (home h (?cap - 1)))"
  let ?ss = "filter (hash_hit hashes h) w"
  have d: "distinct w"
    unfolding w_def by (rule live_walk_distinct[OF ok home_less[OF k(3)]])
  have set: "set ?ss = {of_nat n | n. n < length (slots_at (t, hs, lv) hp) \<and> slots_at (t, hs, lv) hp ! n = (h, True)}"
    using live_walk_hash[OF ok w_def] unfolding sl slots_at_live[OF k(2)] by auto
  have p: "host_probe hp [t, hs, h, after] = first_or_none (filter (hash_hit hashes h) (if sint after < 0 then w else seek w after))" for after
    using a k(5) probe_from_walk[OF k(3) home_less[OF k(3)]] by (simp add: host_probe_def probe_def w_def Let_def)
  have "\<not> sint (?ss ! j) < 0" if j: "j < length ?ss" for j
  proof -
    obtain n where "n < length hashes" "?ss ! j = of_nat n"
      using nth_mem[OF j] live_walk_hash[OF ok w_def, of "?ss ! j"] k(2) by (auto simp: live_slots_def)
    then show ?thesis
      using small_count[of n] k(9) by simp
  qed
  then have "\<forall>j < length ?ss. host_probe hp [t, hs, h, ?ss ! j] = first_or_none (drop (Suc j) ?ss)"
    using seek_drop[OF d] by (simp add: p)
  then show ?thesis
    using d set by (intro exI[of _ ?ss]) (simp add: p)
qed

lemma three_slots:
  "\<exists>hp. run_calls (ki_step (1, 2, 3)) [Insert 5, Insert 13, Insert 5]
      (fst (host_table \<lparr>kh_arrays = [2 \<mapsto> VecWords [], 3 \<mapsto> VecWords []], kh_strings = Map.empty\<rparr> 1 [4])) = Some (hp, [0, 1, 2])
    \<and> index_at (1, 2, 3) hp \<and> slots_at (1, 2, 3) hp = [(5, True), (13, True), (5, True)]"
proof -
  let ?hp = "fst (host_table \<lparr>kh_arrays = [2 \<mapsto> VecWords [], 3 \<mapsto> VecWords []], kh_strings = Map.empty\<rparr> 1 [4])"
  have "index_at (1, 2, 3) ?hp \<and> slots_at (1, 2, 3) ?hp = []"
    by (rule fresh_index) (simp_all add: ki_words_def)
  then show ?thesis
    using ki.run_refines[of "(1, 2, 3)" ?hp "[Insert 5, Insert 13, Insert 5]"] by simp
qed

theorem probe_enumerates_witness:
  "\<exists>hp. run_calls (ki_step (1, 2, 3)) [Insert 5, Insert 13, Insert 5]
      (fst (host_table \<lparr>kh_arrays = [2 \<mapsto> VecWords [], 3 \<mapsto> VecWords []], kh_strings = Map.empty\<rparr> 1 [4])) = Some (hp, [0, 1, 2])
    \<and> (\<exists>ss. distinct ss \<and> set ss = {0, 2} \<and> host_probe hp [1, 2, 5, - 1] = first_or_none ss
      \<and> (\<forall>k < length ss. host_probe hp [1, 2, 5, ss ! k] = first_or_none (drop (Suc k) ss)))"
proof -
  obtain hp where hp: "run_calls (ki_step (1, 2, 3)) [Insert 5, Insert 13, Insert 5]
      (fst (host_table \<lparr>kh_arrays = [2 \<mapsto> VecWords [], 3 \<mapsto> VecWords []], kh_strings = Map.empty\<rparr> 1 [4])) = Some (hp, [0, 1, 2])"
    "index_at (1, 2, 3) hp" "slots_at (1, 2, 3) hp = [(5, True), (13, True), (5, True)]"
    using three_slots by blast
  have "n < 3 \<and> [(5 :: i64, True), (13, True), (5, True)] ! n = (5, True) \<longleftrightarrow> n = 0 \<or> n = 2" for n
    by (cases "n = 0 \<or> n = 1 \<or> n = 2") auto
  then have hits: "n < length (slots_at (1, 2, 3) hp) \<and> slots_at (1, 2, 3) hp ! n = (5, True) \<longleftrightarrow> n = 0 \<or> n = 2" for n
    by (simp add: hp(3) numeral_3_eq_3)
  have "{of_nat n | n. n < length (slots_at (1, 2, 3) hp) \<and> slots_at (1, 2, 3) hp ! n = (5, True)} = {0, 2 :: u64}"
    unfolding hits by force
  then show ?thesis
    using probe_enumerates[OF hp(2), of 5] hp(1) by auto
qed

definition equal_slots :: "u64 \<times> u64 \<times> u64 \<Rightarrow> key_heap \<Rightarrow> u64 \<Rightarrow> i64 \<Rightarrow> u64 \<Rightarrow> i64 \<Rightarrow> nat set" where
  "equal_slots ids hp ks h k mode = {n. n < length (slots_at ids hp) \<and> slots_at ids hp ! n = (h, True)
     \<and> (\<exists>keys x. ki_words hp ks = Some keys \<and> get keys n = Some x \<and> same_key hp mode k x)}"

text \<open>C22: \<open>find\<close> answers a live slot with the hash \<open>h\<close> and a key equal to \<open>k\<close> by the mode asked for, whenever there is
  one, and \<open>- 1\<close> when there is none.\<close>

theorem find_correct:
  assumes "index_at (t, hs, lv) hp"
  shows "if equal_slots (t, hs, lv) hp ks h k mode = {} then host_find hp [t, hs, ks, h, k, mode] = - 1
    else (\<exists>n \<in> equal_slots (t, hs, lv) hp ks h k mode. host_find hp [t, hs, ks, h, k, mode] = of_nat n)"
proof -
  let ?M = "equal_slots (t, hs, lv) hp ks h k mode"
  obtain table hashes live where a: "ki_words hp t = Some table" "ki_words hp hs = Some hashes"
    and ok: "ki_ok table hashes live" and sl: "slots_at (t, hs, lv) hp = zip hashes (map (\<lambda>l. l \<noteq> 0) live)"
    using index_atE[OF assms] by metis
  note k = ki_okD[OF ok]
  let ?cap = "length table - 1" let ?r = "host_find hp [t, hs, ks, h, k, mode]"
  show ?thesis
  proof (cases "ki_words hp ks")
    case None
    then show ?thesis
      using a by (simp add: host_find_def equal_slots_def)
  next
    case (Some keys)
    define w where "w = live_walk (walk table ?cap ?cap (home h (?cap - 1)))"
    let ?hit = "\<lambda>s. case get keys (unat s) of Some x \<Rightarrow> same_key hp mode k x | None \<Rightarrow> False"
    let ?ss = "filter (\<lambda>s. hash_hit hashes h s \<and> ?hit s) w"
    have small: "unat (of_nat n :: u64) = n" if "n \<in> live_slots live" for n
      using that k(2,9) by (simp add: live_slots_def unat_of_nat)
    have mem: "s \<in> set ?ss \<longleftrightarrow> (\<exists>n \<in> ?M. s = of_nat n)" for s
    proof -
      have "s \<in> set ?ss \<longleftrightarrow> (\<exists>n \<in> live_slots live. s = of_nat n \<and> hashes ! n = h) \<and> ?hit s"
        using live_walk_hash[OF ok w_def, of s] by auto
      also have "\<dots> \<longleftrightarrow> (\<exists>n \<in> ?M. s = of_nat n)"
        using small unfolding equal_slots_def sl conj_assoc[symmetric] slots_at_live[OF k(2)] Some by (auto split: option.splits)
      finally show ?thesis .
    qed
    have "?r = first_or_none ?ss"
      using a k(5) Some find_from_walk[OF k(3) home_less[OF k(3)]] by (simp add: host_find_def w_def Let_def)
    then show ?thesis
      using mem by (cases ?ss) (auto simp: first_or_none_def)
  qed
qed

lemma set_array_words: "set_words hp v ws = set_array hp v (VecWords ws)"
  by (simp add: set_words_def set_array_def)

theorem find_correct_witness:
  "\<exists>hp. run_calls (ki_step (1, 2, 3)) [Insert 5, Insert 13, Insert 5]
      (fst (host_table \<lparr>kh_arrays = [2 \<mapsto> VecWords [], 3 \<mapsto> VecWords []], kh_strings = Map.empty\<rparr> 1 [4])) = Some (hp, [0, 1, 2])
    \<and> host_find (set_words hp 4 [50, 60, 70]) [1, 2, 4, 5, 70, KEY_EQ_WORD] = 2"
proof -
  obtain hp where hp: "run_calls (ki_step (1, 2, 3)) [Insert 5, Insert 13, Insert 5]
      (fst (host_table \<lparr>kh_arrays = [2 \<mapsto> VecWords [], 3 \<mapsto> VecWords []], kh_strings = Map.empty\<rparr> 1 [4])) = Some (hp, [0, 1, 2])"
    "index_at (1, 2, 3) hp" "slots_at (1, 2, 3) hp = [(5, True), (13, True), (5, True)]"
    using three_slots by blast
  let ?hp = "set_words hp 4 [50, 60, 70]"
  have i: "index_at (1, 2, 3) ?hp" "slots_at (1, 2, 3) ?hp = [(5, True), (13, True), (5, True)]"
    using hp index_at_other[of 4 1 2 3 hp] by (simp_all add: set_array_words)
  have three: "n < 3 \<longleftrightarrow> n = 0 \<or> n = 1 \<or> n = (2 :: nat)" for n
    by auto
  have "n \<in> equal_slots (1, 2, 3) ?hp 4 5 70 KEY_EQ_WORD \<longleftrightarrow> n = 2" for n
    by (cases "n < 3") (auto simp: equal_slots_def i(2) three same_key_def KEY_EQ_WORD_def)
  then have "equal_slots (1, 2, 3) ?hp 4 5 70 KEY_EQ_WORD = {2}"
    by blast
  then show ?thesis
    using find_correct[OF i(1), of 4 5 70 KEY_EQ_WORD] hp(1) by auto
qed

end
