(* ===== verification/Spec2Isabelle.thy ===== *)
theory Spec2Isabelle
  imports Vm_Ops Verify Sccp Gc_Run Slab_Evac Ty_Schema Ty_Env Unify_Laws Key_Probe
begin

text \<open>
  A verification development for the Coil language toolchain: the words of its bytecode and the checks of the
  loader (\<^verbatim>\<open>common\<close>), the values, arithmetic, allocator and collector of its virtual machine (\<^verbatim>\<open>machine\<close>), and the
  types, unification and mid-level IR of its compiler (\<^verbatim>\<open>compiler\<close>). All paths are below \<^verbatim>\<open>src/\<close>.

  \<^bold>\<open>The program.\<close> The compiler checks a program, unifying types under one substitution that it extends and composes
  as it goes, turns it into SSA functions (MIR), folds and propagates constants in them, and emits code words, a
  constant pool and heap snapshots. The loader verifies the words, bounds the operand stack of every frame and
  decodes the snapshots. The machine runs the words over untagged 64-bit values; its heap hands out slots of a
  slab, and at safepoints of the running program the collector marks from the roots and sweeps lazily.

  \<^bold>\<open>Conventions.\<close> Machine integers are words of their width; a \<^verbatim>\<open>usize\<close> and an address are natural numbers, with the
  places where the code wraps written out, as in a release build without overflow checks. A \<^verbatim>\<open>Result\<close> is the
  datatype \<open>result\<close> of \<open>Coil_Prelude\<close>, whose third outcome \<open>Panicked\<close> is a Rust panic; where a panic is the only
  failure it is \<open>None\<close>. Code outside these sources is an argument: the IEEE operations of the host CPU (the record
  of float operations in \<open>Vm_Ops\<close>), the table of host natives (\<open>Mir_Func\<close>), and the addresses at which the operating
  system maps chunks (\<open>Slab\<close>).

  \<^bold>\<open>The bytecode\<close> (\<^verbatim>\<open>common\<close>).
  \<^item> \<open>Bytecode\<close>, \<^verbatim>\<open>opcode.rs\<close>: instructions, code words, and the packing of every operand form. Round trips of calls,
    constants, slots, fused and dense forms.
  \<^item> \<open>Codec\<close>: the contract of a writer and a reader as a locale, sequences of records inside it, and the contract of
    a decoder on arbitrary input.
  \<^item> \<open>Snapshot\<close>, \<^verbatim>\<open>snapshot.rs\<close>: the object graph of a compile-time value as pool words. The round trip; what the
    decoder accepts has only references that resolve; exactly when the decoder panics.
  \<^item> \<open>Union_Find\<close> and \<open>Frame_Bound\<close>, \<^verbatim>\<open>frame_bound.rs\<close>: frames as connected components of the control flow, and the
    reserve that covers the stack of each. The fuel of \<open>find\<close> is the number of elements, since parents never point
    up.
  \<^item> \<open>Verify\<close>, \<^verbatim>\<open>verify.rs\<close>: the checks of each word and the widths of returns over tail calls. Acceptance is
    characterised word by word, as are the opcodes it accepts although the machine stops on them (\<^verbatim>\<open>exec_rest.rs\<close>)
    and the calls it exempts; the passes over tail calls get fuel \<open>Suc (8 * n)\<close> for \<open>n\<close> words, one more than the
    width bits they can set, and this is proved enough.

  \<^bold>\<open>Values and operations\<close> (\<^verbatim>\<open>common\<close>, \<^verbatim>\<open>machine\<close>).
  \<^item> \<open>Int_Arith\<close>, \<^verbatim>\<open>int_arith.rs\<close> and \<^verbatim>\<open>arith.rs\<close>: checked 64-bit arithmetic: the integer result or a trap, except that a
    left shift drops the bits above the word.
  \<^item> \<open>Runtime_Value\<close>, \<^verbatim>\<open>value.rs\<close>: the views of a word, and comparison of floats on bit patterns.
  \<^item> \<open>Value_Eq\<close>, \<^verbatim>\<open>value_eq.rs\<close> and \<^verbatim>\<open>fused.rs\<close>: deep equality as isomorphism of graphs, and its fast path. Its fuel is
    bounded by the pairs of addresses it can visit.
  \<^item> \<open>Vm_Ops\<close>, \<^verbatim>\<open>dense.rs\<close>, \<^verbatim>\<open>fused.rs\<close>, \<^verbatim>\<open>arith.rs\<close>: the operations of the dense and the fused forms, which agree.
  \<^item> \<open>Key_Index\<close>, \<^verbatim>\<open>key_index.rs\<close>: the hash index behind maps and sets, over three arrays, with the invariant of its
    table and what each operation keeps of it. \<open>Key_Calls\<close>: any sequence of calls refines a list of slots and
    returns (the locale \<open>call_refines\<close>), on indices of fewer than \<open>2 ^ 62\<close> slots; when an insert on a malformed
    table does not; \<open>retain\<close> on the Vec of a collection, of words or packed bytes, before a \<open>compact\<close>. \<open>Key_Probe\<close>:
    what lookups find. The loop of \<open>place\<close> is a partial function.

  \<^bold>\<open>The heap\<close> (\<^verbatim>\<open>machine/src/memory\<close>).
  \<^item> \<open>Slab\<close>, \<^verbatim>\<open>slab.rs\<close>: chunks, their table and directory, free lists, allocation and the walk over slots. A slot is
    in use or on one free list, never both; the interface of an allocator is the locale \<open>slot_store\<close>.
  \<^item> \<open>Slab_Release\<close>, \<^verbatim>\<open>slab.rs\<close>: idle chunks given back; no slot in use is lost.
  \<^item> \<open>Slab_Evac\<close>, \<^verbatim>\<open>compact.rs\<close>: the slab side of an evacuation. The chunks it gives back have no slot in use, whatever
    objects are pinned; which objects are live and movable is an argument, and the copy of their bytes is left
    out.
  \<^item> \<open>Gc_Mark\<close>, \<^verbatim>\<open>heap.rs\<close>: objects, marks and the gray list. Marking ends with exactly what the roots lead to.
  \<^item> \<open>Gc\<close>, \<^verbatim>\<open>heap.rs\<close>: allocation in each phase, weak handles, the lazy sweep and \<open>collect\<close>, which keeps exactly what is
    reachable. The loops of \<open>mark_drain\<close>, \<open>sweep_next\<close> and \<open>sweep_all\<close> are partial functions whose result \<open>None\<close> would
    be a loop that never ends; each is proved to return.
  \<^item> \<open>Gc_Run\<close>: a step relation interleaves a program with the collector; an invariant of every reachable state says
    that nothing the program can get at is freed. A flag of the relation tells whether interning may hand out,
    while a mark is open, a string of the table that the mark has not reached, as the code does: without those
    steps the invariant holds, with them a theorem shows a reachable string that is freed.

  \<^bold>\<open>Types\<close> (\<^verbatim>\<open>compiler/src/typechecking\<close>).
  \<^item> \<open>Coil_Ty\<close> and \<open>Ty_Schema\<close>, \<^verbatim>\<open>ty.rs\<close>: types, their free variables, the views of builtin types, and the schema form of
    enum payloads with its round trip. Substitution into a type as a function of a map, with the law of
    composition.
  \<^item> \<open>Ty_Subst\<close>, \<^verbatim>\<open>subst.rs\<close>: the substitution with its index and overlay, which is a finite map after every operation;
    \<open>absorb\<close>, which rewrites in place, is \<open>compose\<close>; pruning ends when bindings are not cyclic. What a store of
    bindings promises is the locale \<open>binding_map\<close>. Whether data is shared, a reference count in the code, is an
    argument.
  \<^item> \<open>Unify\<close> and \<open>Unify_Laws\<close>, \<^verbatim>\<open>unify.rs\<close>: every arm of \<open>unify_with\<close>. The depth of its recursion is an argument, since a
    cyclic substitution can make it endless; the theorems that it answers give a depth that is enough, the size
    of a type. What each step keeps is the locale \<open>subst_step\<close>. A type unifies with itself; against a type without
    variables unification decides matching. The checker's use of it, \<open>checker_unify\<close> of \<^verbatim>\<open>infer/checker.rs\<close>, absorbs
    each result; a run of such calls against types without variables finds the least solution, or fails when
    there is none. When variables form a chain, unification accepts a clash, for any two types, and builds a
    cycle.
  \<^item> \<open>Ty_Env\<close>, \<^verbatim>\<open>env.rs\<close> and \<^verbatim>\<open>kind.rs\<close>: scopes, whose index answers what a search from the newest binding finds, and
    instances of schemes with fresh variables; the counter of variables wraps at 32 bits, as in a release build.

  \<^bold>\<open>The mid-level IR\<close> (\<^verbatim>\<open>compiler/src/mir\<close>).
  \<^item> \<open>Mir_Types\<close>, \<^verbatim>\<open>ty.rs\<close>: the type lattice. \<open>Mir_Inst\<close>, \<^verbatim>\<open>inst.rs\<close>: instructions, what they define and read, renaming.
  \<^item> \<open>Mir_Func\<close>, \<^verbatim>\<open>func.rs\<close> and \<^verbatim>\<open>host_allow.rs\<close>: the structural verifier, characterised by what it accepts.
  \<^item> \<open>Inst_Combine\<close>, \<^verbatim>\<open>instcombine.rs\<close>: every fold keeps the words the machine computes, with one exception that is
    proved.
  \<^item> \<open>Sccp\<close>, \<^verbatim>\<open>sccp.rs\<close>: the solver is sound for every run of a function, and settles within a bound on its sweeps.

  \<^bold>\<open>Not modelled.\<close> The lexer, parser, macro expander, the inference of types over syntax trees, HIR and its passes,
  code generation and the lower IR, the MIR passes besides those above, and the dispatch loop of the machine are
  sizeable programs of their own over large syntax trees and states; of them only what is listed above is here.
  Of the collector the nursery, the moving of objects, early frees, regions and steal epochs are left out: the
  heap modelled is one with the nursery off. Host services (files, network, processes, terminals, clocks,
  threads, reactors, foreign calls), the language server, the debugger, the formatter, the test runner and the
  command line are input and output around the parts above. SIMD kernels are processor intrinsics.
\<close>

end
